(* ===== verification/Prelude.thy ===== *)
theory Prelude
  imports Main "HOL-Library.Word" "HOL-Library.Signed_Division"
begin

text \<open>
  Shared vocabulary of the development.

  \<^item> Errors as values: every \<open>assert\<close>, \<open>LOG_FATAL\<close>/\<open>LOG_SYSFATAL\<close>/\<open>abort\<close> (\<open>FatalLog\<close>), C++
    exception and out-of-range access of the sources is a value of \<open>error\<close>; a fallible operation
    returns \<open>error + 'a\<close> and is composed with \<open>bindE\<close>. Assertions are active: the default
    build type of the repository is Debug.
  \<^item> Machine integers: \<open>size_t\<close> values are natural numbers below \<open>2^64\<close>, with the wrap-around
    of addition and subtraction written out (\<open>size_add\<close>, \<open>size_sub\<close>); \<open>int32_t\<close> and
    friends are words; \<open>int\<close> and \<open>int64_t\<close> values that the code never lets overflow are
    integers, divided with the truncating \<open>sdiv\<close> and \<open>smod\<close>.
  \<^item> Memory: a C++ byte is a \<open>char\<close>; \<open>overwrite\<close> is the effect of \<open>std::copy\<close> or
    \<open>memcpy\<close> into a vector at an offset.
  \<^item> Transition systems: \<open>reach\<close> and the locale \<open>step_invariant\<close>, interpreted by the
    components whose threads and callbacks interleave.
\<close>

section \<open>Errors as values\<close>

datatype error =
    AssertionFailed string
  | FatalLog string
  | Undefined_Behaviour string
  | Cpp_Exception string

type_synonym 'a result = "error + 'a"

definition bindE :: "'a result \<Rightarrow> ('a \<Rightarrow> 'b result) \<Rightarrow> 'b result" where
  "bindE m f = (case m of Inl e \<Rightarrow> Inl e | Inr x \<Rightarrow> f x)"

definition assertE :: "bool \<Rightarrow> string \<Rightarrow> unit result" where
  "assertE c what = (if c then Inr () else Inl (AssertionFailed what))"

abbreviation ok :: "'a result \<Rightarrow> bool" where
  "ok r \<equiv> (\<exists>x. r = Inr x)"

lemma bindE_simps [simp]:
  "bindE (Inl e) f = Inl e"
  "bindE (Inr x) f = f x"
  by (simp_all add: bindE_def)

lemma assertE_simps [simp]:
  "c \<Longrightarrow> assertE c what = Inr ()"
  "\<not> c \<Longrightarrow> assertE c what = Inl (AssertionFailed what)"
  by (simp_all add: assertE_def)

lemma assertE_eq_Inr [simp]: "assertE c what = Inr u \<longleftrightarrow> c"
  by (simp add: assertE_def)

lemma bindE_eq_Inr: "bindE m f = Inr y \<longleftrightarrow> (\<exists>x. m = Inr x \<and> f x = Inr y)"
  by (cases m) auto

lemma bindE_InrE [elim!]:
  assumes "bindE m f = Inr y"
  obtains x where "m = Inr x" "f x = Inr y"
  using assms by (auto simp: bindE_eq_Inr)

lemma bindE_assoc: "bindE (bindE m f) g = bindE m (\<lambda>x. bindE (f x) g)"
  by (cases m) auto

lemma bindE_cong [fundef_cong]:
  "m = m' \<Longrightarrow> (\<And>x. m' = Inr x \<Longrightarrow> f x = f' x) \<Longrightarrow> bindE m f = bindE m' f'"
  by (cases m') auto

text \<open>A loop over a list that threads a state and stops at the first error.\<close>

fun foldE :: "('a \<Rightarrow> 's \<Rightarrow> 's result) \<Rightarrow> 'a list \<Rightarrow> 's \<Rightarrow> 's result" where
  "foldE f [] s = Inr s"
| "foldE f (x # xs) s = bindE (f x s) (foldE f xs)"

lemma foldE_append: "foldE f (xs @ ys) s = bindE (foldE f xs s) (foldE f ys)"
proof (induction xs arbitrary: s)
  case Nil
  then show ?case by simp
next
  case (Cons x xs)
  then have "foldE f (xs @ ys) = (\<lambda>s. bindE (foldE f xs s) (foldE f ys))" by auto
  then show ?case by (simp add: bindE_assoc)
qed

section \<open>Machine integers\<close>

definition size_max :: nat where
  "size_max = 2 ^ 64"

text \<open>The largest size a \<open>std::vector<char>\<close> can be resized to (\<open>PTRDIFF_MAX\<close>).\<close>

definition vector_max :: nat where
  "vector_max = 2 ^ 63 - 1"

definition size_add :: "nat \<Rightarrow> nat \<Rightarrow> nat" where
  "size_add a b = (a + b) mod size_max"

definition size_sub :: "nat \<Rightarrow> nat \<Rightarrow> nat" where
  "size_sub a b = (if b \<le> a then a - b else size_max + a - b)"

lemma size_add_small [simp]: "a + b < size_max \<Longrightarrow> size_add a b = a + b"
  by (simp add: size_add_def)

lemma size_sub_le [simp]: "b \<le> a \<Longrightarrow> size_sub a b = a - b"
  by (simp add: size_sub_def)

lemma vector_max_lt_size_max: "2 * vector_max + 1 < size_max"
  by (simp add: vector_max_def size_max_def)

lemma size_add_vector [simp]:
  "a \<le> vector_max \<Longrightarrow> b \<le> vector_max \<Longrightarrow> size_add a b = a + b"
  by (rule size_add_small) (use vector_max_lt_size_max in linarith)

text \<open>A 32-bit C \<open>int\<close> obtained by \<open>static_cast<int>\<close> from a wider value.\<close>

definition cast_int :: "int \<Rightarrow> int" where
  "cast_int n = (n + 2 ^ 31) mod 2 ^ 32 - 2 ^ 31"

lemma cast_int_id [simp]: "- (2 ^ 31) \<le> n \<Longrightarrow> n < 2 ^ 31 \<Longrightarrow> cast_int n = n"
  by (simp add: cast_int_def)

section \<open>Lists as memory\<close>

definition overwrite :: "nat \<Rightarrow> 'a list \<Rightarrow> 'a list \<Rightarrow> 'a list" where
  "overwrite i xs ys = take i ys @ xs @ drop (i + length xs) ys"

lemma length_overwrite [simp]:
  "i + length xs \<le> length ys \<Longrightarrow> length (overwrite i xs ys) = length ys"
  by (simp add: overwrite_def)

lemma take_overwrite [simp]: "i \<le> length ys \<Longrightarrow> j \<le> i \<Longrightarrow> take j (overwrite i xs ys) = take j ys"
  by (simp add: overwrite_def min_absorb1)

lemma drop_overwrite_region:
  "i + length xs \<le> length ys \<Longrightarrow> take (length xs) (drop i (overwrite i xs ys)) = xs"
  by (simp add: overwrite_def)

lemma drop_overwrite_after:
  "i + length xs \<le> length ys \<Longrightarrow> i + length xs \<le> j \<Longrightarrow> drop j (overwrite i xs ys) = drop j ys"
  by (simp add: overwrite_def)

lemma drop_overwrite_at:
  "i + length xs \<le> length ys \<Longrightarrow> drop i (overwrite i xs ys) = xs @ drop (i + length xs) ys"
  by (simp add: overwrite_def)

lemma overwrite_Nil [simp]: "overwrite i [] ys = ys"
  by (simp add: overwrite_def)

text \<open>\<open>std::vector<char>::resize\<close>: cut off, or extend with value-initialised elements.\<close>

definition resize :: "nat \<Rightarrow> char list \<Rightarrow> char list" where
  "resize n xs = take n xs @ replicate (n - length xs) (CHR 0x00)"

lemma length_resize [simp]: "length (resize n xs) = n"
  by (simp add: resize_def)

lemma take_resize [simp]: "j \<le> length xs \<Longrightarrow> j \<le> n \<Longrightarrow> take j (resize n xs) = take j xs"
  by (simp add: resize_def min_absorb1)

text \<open>
  \<open>std::search\<close>: the offset of the first occurrence of a pattern, or the length of the range
  (the end iterator) when there is none; \<open>std::find\<close> is the case of one element.
\<close>

fun search :: "'a list \<Rightarrow> 'a list \<Rightarrow> nat" where
  "search pat [] = 0"
| "search pat (x # xs) =
     (if take (length pat) (x # xs) = pat then 0 else Suc (search pat xs))"

fun find_char :: "'a \<Rightarrow> 'a list \<Rightarrow> nat" where
  "find_char c [] = 0"
| "find_char c (x # xs) = (if x = c then 0 else Suc (find_char c xs))"

lemma search_le [simp]: "search pat xs \<le> length xs"
  by (induction xs) auto

lemma find_char_le [simp]: "find_char c xs \<le> length xs"
  by (induction xs) auto

lemma find_char_less_iff: "find_char c xs < length xs \<longleftrightarrow> c \<in> set xs"
  by (induction xs) auto

lemma find_char_append: "c \<notin> set xs \<Longrightarrow> find_char c (xs @ c # ys) = length xs"
  by (induction xs) auto

lemma nth_find_char: "find_char c xs < length xs \<Longrightarrow> xs ! find_char c xs = c"
  by (induction xs) auto

lemma notin_take_find_char: "c \<notin> set (take (find_char c xs) xs)"
  by (induction xs) auto

lemma search_found:
  assumes "pat \<noteq> []" and "search pat xs < length xs"
  shows "take (length pat) (drop (search pat xs) xs) = pat"
  using assms(2) by (induction xs) (auto split: if_splits)

lemma search_fits:
  assumes "pat \<noteq> []" and "search pat xs < length xs"
  shows "search pat xs + length pat \<le> length xs"
proof -
  have "length (take (length pat) (drop (search pat xs) xs)) = length pat"
    using search_found [OF assms] by simp
  then show ?thesis using assms(2) by (simp add: min_def split: if_splits)
qed

lemma search_first:
  assumes "j < search pat xs"
  shows "take (length pat) (drop j xs) \<noteq> pat"
  using assms
proof (induction xs arbitrary: j)
  case Nil
  then show ?case by simp
next
  case (Cons x xs)
  then show ?case by (cases j) (auto split: if_splits)
qed

lemma search_decomp:
  assumes "pat \<noteq> []" and "search pat xs < length xs"
  shows "\<exists>pre post. xs = pre @ pat @ post \<and> length pre = search pat xs"
proof (intro exI conjI)
  let ?k = "search pat xs"
  show "length (take ?k xs) = ?k" by simp
  have "xs = take ?k xs @ take (length pat) (drop ?k xs) @ drop (length pat) (drop ?k xs)"
    by (simp only: append_take_drop_id)
  then show "xs = take ?k xs @ pat @ drop (length pat) (drop ?k xs)"
    using search_found [OF assms] by metis
qed

lemma search_none:
  assumes "pat \<noteq> []" and "search pat xs = length xs"
  shows "xs \<noteq> pre @ pat @ post"
proof
  assume eq: "xs = pre @ pat @ post"
  then have "length pre < search pat xs" using assms by simp
  from search_first [OF this] show False by (simp add: eq)
qed

section \<open>Transition systems\<close>

inductive reach :: "('s \<Rightarrow> bool) \<Rightarrow> ('s \<Rightarrow> 's \<Rightarrow> bool) \<Rightarrow> 's \<Rightarrow> bool" for init step where
  reach_init: "init s \<Longrightarrow> reach init step s"
| reach_step: "reach init step s \<Longrightarrow> step s t \<Longrightarrow> reach init step t"

text \<open>
  An inductive invariant of a transition system: it holds initially and every step keeps it.
  A client gets it for all reachable states.
\<close>

locale step_invariant =
  fixes init :: "'s \<Rightarrow> bool" and step :: "'s \<Rightarrow> 's \<Rightarrow> bool" and inv :: "'s \<Rightarrow> bool"
  assumes inv_init: "init s \<Longrightarrow> inv s"
    and inv_step: "inv s \<Longrightarrow> step s t \<Longrightarrow> inv t"
begin

lemma reach_inv: "reach init step s \<Longrightarrow> inv s"
  by (induction rule: reach.induct) (auto intro: inv_init inv_step)

lemma inv_rtranclp: "step\<^sup>*\<^sup>* s t \<Longrightarrow> inv s \<Longrightarrow> inv t"
  by (induction rule: rtranclp_induct) (auto intro: inv_step)

end

section \<open>Cutting strings\<close>

fun split_on :: "char \<Rightarrow> string \<Rightarrow> string list" where
  "split_on c [] = [[]]"
| "split_on c (x # xs) = (if x = c then [] # split_on c xs else (x # hd (split_on c xs)) # tl (split_on c xs))"

lemma split_on_not_Nil [simp]: "split_on c xs \<noteq> []"
  by (cases xs) auto

lemma split_on_free: "c \<notin> set xs \<Longrightarrow> split_on c xs = [xs]"
  by (induction xs) auto

lemma split_on_sep: "c \<notin> set xs \<Longrightarrow> split_on c (xs @ c # ys) = xs # split_on c ys"
  by (induction xs) auto

end
