(* ===== verification/Net_Buffer.thy ===== *)
theory Net_Buffer
  imports Prelude
begin

text \<open>
  \<open>src/muduo/net/Endian.h\<close>, \<open>Buffer.h\<close> and \<open>Buffer.cc\<close>: the byte buffer every
  connection reads into and writes from.

  A pointer into the buffer is an index into its vector. The object representation of an integer is
  the little-endian one of the x86-64 target, so that the network byte order of \<open>appendInt32\<close> is
  a theorem and not part of the definition. The operations are proved to implement a byte queue
  (the locale \<open>byte_buffer\<close>), the interface on which the connection, the HTTP and the RPC
  layers rely.
\<close>

section \<open>Object representation and byte order\<close>

fun le_bytes :: "nat \<Rightarrow> nat \<Rightarrow> char list" where
  "le_bytes 0 n = []"
| "le_bytes (Suc k) n = char_of n # le_bytes k (n div 256)"

fun le_value :: "char list \<Rightarrow> nat" where
  "le_value [] = 0"
| "le_value (c # cs) = of_char c + 256 * le_value cs"

lemma length_le_bytes [simp]: "length (le_bytes k n) = k"
  by (induction k arbitrary: n) auto

lemma le_value_le_bytes: "le_value (le_bytes k n) = n mod 256 ^ k"
proof (induction k arbitrary: n)
  case 0
  then show ?case by simp
next
  case (Suc k)
  then show ?case by (simp add: mod_mult2_eq mult.commute)
qed

lemma of_char_lt_256: "of_char c < (256 :: nat)"
proof -
  have "of_char c = of_char c mod (256 :: nat)" by simp
  also have "\<dots> < 256" by (rule mod_less_divisor) simp
  finally show ?thesis .
qed

lemma le_bytes_le_value [simp]: "le_bytes (length cs) (le_value cs) = cs"
proof (induction cs)
  case Nil
  then show ?case by simp
next
  case (Cons c cs)
  have "char_of (of_char c + 256 * le_value cs) = c"
    by (rule of_char_eqI [where 'a = nat]) (simp del: of_char_eq_iff)
  moreover have "(of_char c + 256 * le_value cs) div 256 = le_value cs"
    using of_char_lt_256 [of c] by simp
  ultimately show ?case using Cons.IH by simp
qed

lemma le_value_bound: "le_value cs < 256 ^ length cs"
proof (induction cs)
  case Nil
  then show ?case by simp
next
  case (Cons c cs)
  define K :: nat where "K = 256 ^ length cs"
  with Cons have "le_value cs + 1 \<le> K" by simp
  with of_char_lt_256 [of c] have "of_char c + 256 * le_value cs < 256 * K" by linarith
  then show ?case by (simp add: K_def)
qed

lemma le_bytes_4:
  "le_bytes 4 n = [char_of n, char_of (n div 256), char_of (n div 65536), char_of (n div 16777216)]"
proof -
  have four: "(4 :: nat) = Suc (Suc (Suc (Suc 0)))" by simp
  show ?thesis unfolding four by (simp add: div_mult2_eq [symmetric] del: div_mult2_eq)
qed

definition byte_swap :: "nat \<Rightarrow> nat \<Rightarrow> nat" where
  "byte_swap k n = le_value (rev (le_bytes k n))"

definition hostToNetwork64 :: "64 word \<Rightarrow> 64 word" where
  "hostToNetwork64 host64 = of_nat (byte_swap 8 (unat host64))"

definition hostToNetwork32 :: "32 word \<Rightarrow> 32 word" where
  "hostToNetwork32 host32 = of_nat (byte_swap 4 (unat host32))"

definition hostToNetwork16 :: "16 word \<Rightarrow> 16 word" where
  "hostToNetwork16 host16 = of_nat (byte_swap 2 (unat host16))"

definition networkToHost64 :: "64 word \<Rightarrow> 64 word" where
  "networkToHost64 net64 = of_nat (byte_swap 8 (unat net64))"

definition networkToHost32 :: "32 word \<Rightarrow> 32 word" where
  "networkToHost32 net32 = of_nat (byte_swap 4 (unat net32))"

definition networkToHost16 :: "16 word \<Rightarrow> 16 word" where
  "networkToHost16 net16 = of_nat (byte_swap 2 (unat net16))"



lemma byte_swap_bound: "byte_swap k n < 256 ^ k"
  using le_value_bound [of "rev (le_bytes k n)"] by (simp add: byte_swap_def)

lemma le_bytes_byte_swap: "le_bytes k (byte_swap k n) = rev (le_bytes k n)"
  using le_bytes_le_value [of "rev (le_bytes k n)"] by (simp add: byte_swap_def)

lemma byte_swap_byte_swap: "byte_swap k (byte_swap k n) = n mod 256 ^ k"
  by (simp add: byte_swap_def le_bytes_byte_swap [unfolded byte_swap_def] le_value_le_bytes)

lemma networkToHost32_hostToNetwork32: "networkToHost32 (hostToNetwork32 x) = x"
proof -
  have "byte_swap 4 (unat x) < 2 ^ 32" using byte_swap_bound [of 4 "unat x"] by simp
  moreover have "unat x < 2 ^ 32" using unsigned_less [where 'a = nat and w = x] by simp
  ultimately show ?thesis
    by (simp add: networkToHost32_def hostToNetwork32_def unat_of_nat byte_swap_byte_swap)
qed

lemma networkToHost16_hostToNetwork16: "networkToHost16 (hostToNetwork16 x) = x"
proof -
  have "byte_swap 2 (unat x) < 2 ^ 16" using byte_swap_bound [of 2 "unat x"] by simp
  moreover have "unat x < 2 ^ 16" using unsigned_less [where 'a = nat and w = x] by simp
  ultimately show ?thesis
    by (simp add: networkToHost16_def hostToNetwork16_def unat_of_nat byte_swap_byte_swap)
qed

lemma networkToHost64_hostToNetwork64: "networkToHost64 (hostToNetwork64 x) = x"
proof -
  have "byte_swap 8 (unat x) < 2 ^ 64" using byte_swap_bound [of 8 "unat x"] by simp
  moreover have "unat x < 2 ^ 64" using unsigned_less [where 'a = nat and w = x] by simp
  ultimately show ?thesis
    by (simp add: networkToHost64_def hostToNetwork64_def unat_of_nat byte_swap_byte_swap)
qed

lemma le_bytes_hostToNetwork32: "le_bytes 4 (unat (hostToNetwork32 x)) = rev (le_bytes 4 (unat x))"
proof -
  have "byte_swap 4 (unat x) < 2 ^ 32" using byte_swap_bound [of 4 "unat x"] by simp
  then show ?thesis by (simp add: hostToNetwork32_def unat_of_nat le_bytes_byte_swap)
qed

lemma le_value_le_bytes_unat:
  "of_nat (le_value (le_bytes 4 (unat (x :: 32 word)))) = x"
  "of_nat (le_value (le_bytes 2 (unat (y :: 16 word)))) = y"
  "of_nat (le_value (le_bytes 1 (unat (z :: 8 word)))) = z"
  using unsigned_less [where 'a = nat and w = x] unsigned_less [where 'a = nat and w = y] unsigned_less [where 'a = nat and w = z]
  by (simp_all add: le_value_le_bytes)

section \<open>The buffer\<close>

definition kCheapPrepend :: nat where "kCheapPrepend = 8"

definition kInitialSize :: nat where "kInitialSize = 1024"

definition kCRLF :: "char list" where "kCRLF = [CHR 0x0D, CHR 0x0A]"

record buffer =
  bufferData :: "char list"
  readerIndex :: nat
  writerIndex :: nat

definition newBuffer :: buffer where
  "newBuffer = \<lparr>bufferData = replicate (kCheapPrepend + kInitialSize) (CHR 0x00),
     readerIndex = kCheapPrepend, writerIndex = kCheapPrepend\<rparr>"

definition readableBytes :: "buffer \<Rightarrow> nat" where
  "readableBytes b = size_sub (writerIndex b) (readerIndex b)"

definition writableBytes :: "buffer \<Rightarrow> nat" where
  "writableBytes b = size_sub (length (bufferData b)) (writerIndex b)"

definition prependableBytes :: "buffer \<Rightarrow> nat" where
  "prependableBytes b = readerIndex b"

text \<open>\<open>peek()\<close> and \<open>beginWrite()\<close> are indices; \<open>contents\<close> is the range between them.\<close>

definition peek :: "buffer \<Rightarrow> nat" where "peek b = readerIndex b"

definition beginWrite :: "buffer \<Rightarrow> nat" where "beginWrite b = writerIndex b"

definition contents :: "buffer \<Rightarrow> char list" where
  "contents b = take (writerIndex b - readerIndex b) (drop (readerIndex b) (bufferData b))"

definition findCRLF_from :: "nat \<Rightarrow> buffer \<Rightarrow> (nat option) result" where
  "findCRLF_from start b =
     bindE (assertE (peek b \<le> start) ''peek() <= start'') (\<lambda>_.
     bindE (assertE (start \<le> beginWrite b) ''start <= beginWrite()'') (\<lambda>_.
     (let crlf = start + search kCRLF (take (beginWrite b - start) (drop start (bufferData b)))
      in Inr (if crlf = beginWrite b then None else Some crlf))))"

definition findCRLF :: "buffer \<Rightarrow> nat option" where
  "findCRLF b =
     (let crlf = peek b + search kCRLF (contents b)
      in if crlf = beginWrite b then None else Some crlf)"

definition retrieveAll :: "buffer \<Rightarrow> buffer" where
  "retrieveAll b = b\<lparr>readerIndex := kCheapPrepend, writerIndex := kCheapPrepend\<rparr>"

definition retrieve :: "nat \<Rightarrow> buffer \<Rightarrow> buffer result" where
  "retrieve len b =
     bindE (assertE (len \<le> readableBytes b) ''len <= readableBytes()'') (\<lambda>_.
     Inr (if len < readableBytes b then b\<lparr>readerIndex := size_add (readerIndex b) len\<rparr>
          else retrieveAll b))"

definition retrieveUntil :: "nat \<Rightarrow> buffer \<Rightarrow> buffer result" where
  "retrieveUntil endp b =
     bindE (assertE (peek b \<le> endp) ''peek() <= end'') (\<lambda>_.
     bindE (assertE (endp \<le> beginWrite b) ''end <= beginWrite()'') (\<lambda>_.
     retrieve (endp - peek b) b))"

definition retrieveInt32 :: "buffer \<Rightarrow> buffer result" where "retrieveInt32 b = retrieve 4 b"

definition retrieveInt16 :: "buffer \<Rightarrow> buffer result" where "retrieveInt16 b = retrieve 2 b"

definition retrieveInt8 :: "buffer \<Rightarrow> buffer result" where "retrieveInt8 b = retrieve 1 b"

definition retrieveAsString :: "nat \<Rightarrow> buffer \<Rightarrow> (string \<times> buffer) result" where
  "retrieveAsString len b =
     bindE (assertE (len \<le> readableBytes b) ''len <= readableBytes()'') (\<lambda>_.
     (let str = take len (drop (peek b) (bufferData b))
      in bindE (retrieve len b) (\<lambda>b'. Inr (str, b'))))"

definition retrieveAllAsString :: "buffer \<Rightarrow> (string \<times> buffer) result" where
  "retrieveAllAsString b = retrieveAsString (readableBytes b) b"

text \<open>A string piece: the memory from its pointer on, and its length as a signed \<open>int\<close>.\<close>

definition toStringPiece :: "buffer \<Rightarrow> char list \<times> int" where
  "toStringPiece b = (drop (peek b) (bufferData b), cast_int (int (readableBytes b)))"

definition hasWritten :: "nat \<Rightarrow> buffer \<Rightarrow> buffer" where
  "hasWritten len b = b\<lparr>writerIndex := size_add (writerIndex b) len\<rparr>"

definition makeSpace :: "nat \<Rightarrow> buffer \<Rightarrow> buffer result" where
  "makeSpace len b =
     (if size_add (writableBytes b) (prependableBytes b) < size_add len kCheapPrepend
      then (let n = size_add (writerIndex b) len
            in if n \<le> vector_max then Inr (b\<lparr>bufferData := resize n (bufferData b)\<rparr>)
               else Inl (Cpp_Exception ''length_error''))
      else bindE (assertE (kCheapPrepend < readerIndex b) ''kCheapPrepend < readerIndex_'') (\<lambda>_.
        (let readable = readableBytes b;
             moved = overwrite kCheapPrepend
               (take readable (drop (readerIndex b) (bufferData b))) (bufferData b);
             b' = b\<lparr>bufferData := moved, readerIndex := kCheapPrepend,
                    writerIndex := size_add kCheapPrepend readable\<rparr>
         in bindE (assertE (readable = readableBytes b') ''readable == readableBytes()'') (\<lambda>_.
            Inr b'))))"

definition ensureWritableBytes :: "nat \<Rightarrow> buffer \<Rightarrow> buffer result" where
  "ensureWritableBytes len b =
     bindE (if writableBytes b < len then makeSpace len b else Inr b) (\<lambda>b'.
     bindE (assertE (len \<le> writableBytes b') ''writableBytes() >= len'') (\<lambda>_. Inr b'))"

definition appendBuf :: "char list \<Rightarrow> buffer \<Rightarrow> buffer result" where
  "appendBuf xs b =
     bindE (ensureWritableBytes (length xs) b) (\<lambda>b'.
     Inr (hasWritten (length xs)
       (b'\<lparr>bufferData := overwrite (beginWrite b') xs (bufferData b')\<rparr>)))"

definition appendPiece :: "char list \<times> int \<Rightarrow> buffer \<Rightarrow> buffer result" where
  "appendPiece str b =
     (let len = nat (snd str mod 2 ^ 64)
      in if len \<le> length (fst str) then appendBuf (take len (fst str)) b
         else Inl (Undefined_Behaviour ''read past the end of a string piece''))"

definition appendInt32 :: "32 word \<Rightarrow> buffer \<Rightarrow> buffer result" where
  "appendInt32 x b = appendBuf (le_bytes 4 (unat (hostToNetwork32 x))) b"

definition appendInt16 :: "16 word \<Rightarrow> buffer \<Rightarrow> buffer result" where
  "appendInt16 x b = appendBuf (le_bytes 2 (unat (hostToNetwork16 x))) b"

definition appendInt8 :: "8 word \<Rightarrow> buffer \<Rightarrow> buffer result" where
  "appendInt8 x b = appendBuf (le_bytes 1 (unat x)) b"

definition peekInt32 :: "buffer \<Rightarrow> 32 word result" where
  "peekInt32 b =
     bindE (assertE (4 \<le> readableBytes b) ''readableBytes() >= sizeof(int32_t)'') (\<lambda>_.
     (let be32 = of_nat (le_value (take 4 (drop (peek b) (bufferData b))))
      in Inr (networkToHost32 be32)))"

definition peekInt16 :: "buffer \<Rightarrow> 16 word result" where
  "peekInt16 b =
     bindE (assertE (2 \<le> readableBytes b) ''readableBytes() >= sizeof(int16_t)'') (\<lambda>_.
     (let be16 = of_nat (le_value (take 2 (drop (peek b) (bufferData b))))
      in Inr (networkToHost16 be16)))"

definition peekInt8 :: "buffer \<Rightarrow> 8 word result" where
  "peekInt8 b =
     bindE (assertE (1 \<le> readableBytes b) ''readableBytes() >= sizeof(int8_t)'') (\<lambda>_.
     Inr (of_nat (le_value (take 1 (drop (peek b) (bufferData b))))))"

definition readInt32 :: "buffer \<Rightarrow> (32 word \<times> buffer) result" where
  "readInt32 b = bindE (peekInt32 b) (\<lambda>x. bindE (retrieveInt32 b) (\<lambda>b'. Inr (x, b')))"

definition readInt16 :: "buffer \<Rightarrow> (16 word \<times> buffer) result" where
  "readInt16 b = bindE (peekInt16 b) (\<lambda>x. bindE (retrieveInt16 b) (\<lambda>b'. Inr (x, b')))"

definition readInt8 :: "buffer \<Rightarrow> (8 word \<times> buffer) result" where
  "readInt8 b = bindE (peekInt8 b) (\<lambda>x. bindE (retrieveInt8 b) (\<lambda>b'. Inr (x, b')))"

definition prepend :: "char list \<Rightarrow> buffer \<Rightarrow> buffer result" where
  "prepend xs b =
     bindE (assertE (length xs \<le> prependableBytes b) ''len <= prependableBytes()'') (\<lambda>_.
     (let r = size_sub (readerIndex b) (length xs)
      in Inr (b\<lparr>readerIndex := r, bufferData := overwrite r xs (bufferData b)\<rparr>)))"

definition prependInt32 :: "32 word \<Rightarrow> buffer \<Rightarrow> buffer result" where
  "prependInt32 x b = prepend (le_bytes 4 (unat (hostToNetwork32 x))) b"

definition prependInt16 :: "16 word \<Rightarrow> buffer \<Rightarrow> buffer result" where
  "prependInt16 x b = prepend (le_bytes 2 (unat (hostToNetwork16 x))) b"

definition prependInt8 :: "8 word \<Rightarrow> buffer \<Rightarrow> buffer result" where
  "prependInt8 x b = prepend (le_bytes 1 (unat x)) b"

definition shrink :: "nat \<Rightarrow> buffer \<Rightarrow> buffer result" where
  "shrink reserve b =
     bindE (ensureWritableBytes (size_add (readableBytes b) reserve) newBuffer) (\<lambda>other.
     appendPiece (toStringPiece b) other)"

text \<open>
  \<open>readFd\<close>: the scatter read is the kernel's; its outcome is the errno of a failed \<open>readv\<close> or
  the bytes it delivered, the first \<open>writable\<close> of them in place, the others in \<open>extrabuf\<close>. The
  result is the returned count, the saved errno and the buffer.
\<close>

definition extrabuf_size :: nat where "extrabuf_size = 65536"

definition readFd :: "nat + char list \<Rightarrow> buffer \<Rightarrow> (int \<times> nat option \<times> buffer) result" where
  "readFd readv b =
     (let writable = writableBytes b
      in case readv of
           Inl err \<Rightarrow> Inr (- 1, Some err, b)
         | Inr bs \<Rightarrow>
             (let n = length bs;
                  b1 = b\<lparr>bufferData := overwrite (writerIndex b) (take writable bs) (bufferData b)\<rparr>;
                  extrabuf = drop writable bs
              in if n \<le> writable
                 then Inr (int n, None, b1\<lparr>writerIndex := size_add (writerIndex b1) n\<rparr>)
                 else bindE (appendBuf extrabuf (b1\<lparr>writerIndex := length (bufferData b1)\<rparr>))
                        (\<lambda>b2. Inr (int n, None, b2))))"

section \<open>Well-formedness and the byte-queue view\<close>

definition buf_ok :: "buffer \<Rightarrow> bool" where
  "buf_ok b \<longleftrightarrow> readerIndex b \<le> writerIndex b \<and> writerIndex b \<le> length (bufferData b)
     \<and> kCheapPrepend \<le> writerIndex b \<and> kCheapPrepend + kInitialSize \<le> length (bufferData b)
     \<and> length (bufferData b) \<le> vector_max"

text \<open>There is room for \<open>n\<close> more bytes without exceeding what a vector can hold.\<close>

definition buf_room :: "buffer \<Rightarrow> nat \<Rightarrow> bool" where
  "buf_room b n \<longleftrightarrow> writerIndex b + n \<le> vector_max"

named_theorems buf_simps \<open>sizes and contents of well-formed buffers\<close>

lemma readableBytes_ok [buf_simps]: "buf_ok b \<Longrightarrow> readableBytes b = length (contents b)"
  by (auto simp: buf_ok_def readableBytes_def contents_def)

lemma length_contents: "buf_ok b \<Longrightarrow> length (contents b) = writerIndex b - readerIndex b"
  by (auto simp: buf_ok_def contents_def)

lemma writableBytes_ok [buf_simps]:
  "buf_ok b \<Longrightarrow> writableBytes b = length (bufferData b) - writerIndex b"
  by (auto simp: buf_ok_def writableBytes_def)

lemma buf_ok_newBuffer [simp]: "buf_ok newBuffer"
  by (simp add: newBuffer_def buf_ok_def kCheapPrepend_def kInitialSize_def vector_max_def)

lemma contents_newBuffer [simp]: "contents newBuffer = []"
  by (simp add: newBuffer_def contents_def)

lemma buf_ok_retrieveAll: "buf_ok b \<Longrightarrow> buf_ok (retrieveAll b)"
  by (simp add: buf_ok_def retrieveAll_def)

lemma contents_retrieveAll [simp]: "contents (retrieveAll b) = []"
  by (simp add: retrieveAll_def contents_def)

lemma contents_alt:
  "readerIndex b \<le> writerIndex b \<Longrightarrow> contents b = drop (readerIndex b) (take (writerIndex b) (bufferData b))"
  by (simp add: contents_def take_drop)

lemma makeSpace_compact:
  assumes b: "buf_ok b" and small: "writableBytes b < len" and room: "len \<le> vector_max"
    and space: "\<not> writableBytes b + prependableBytes b < len + kCheapPrepend"
  shows "\<exists>b'. makeSpace len b = Inr b' \<and> buf_ok b' \<and> contents b' = contents b
    \<and> len \<le> writableBytes b' \<and> writerIndex b' \<le> writerIndex b"
proof -
  let ?b' = "b\<lparr>bufferData := overwrite kCheapPrepend (contents b) (bufferData b),
    readerIndex := kCheapPrepend, writerIndex := kCheapPrepend + length (contents b)\<rparr>"
  have r: "kCheapPrepend < readerIndex b"
    using space small b by (simp add: buf_simps prependableBytes_def)
  have len: "len \<le> vector_max" "kCheapPrepend \<le> vector_max" "writableBytes b \<le> vector_max"
    "prependableBytes b \<le> vector_max" "length (contents b) \<le> vector_max"
    using b room by (auto simp: buf_ok_def kCheapPrepend_def vector_max_def
        writableBytes_def prependableBytes_def length_contents)
  have fits: "kCheapPrepend + length (contents b) \<le> length (bufferData b)"
    "kCheapPrepend + length (contents b) \<le> writerIndex b"
    using b r by (auto simp: buf_ok_def length_contents)
  then have ok': "buf_ok ?b'" using b by (auto simp: buf_ok_def)
  have same: "contents ?b' = contents b"
    using fits by (simp add: contents_def [of ?b'] drop_overwrite_region)
  have "take (readableBytes b) (drop (readerIndex b) (bufferData b)) = contents b"
    using b by (simp add: contents_def readableBytes_def buf_ok_def)
  then have "makeSpace len b = Inr ?b'"
    using space r len same readableBytes_ok [OF ok'] readableBytes_ok [OF b]
    by (simp add: makeSpace_def Let_def)
  moreover have "len \<le> writableBytes ?b'"
  proof -
    have "writableBytes ?b' = length (bufferData b) - (kCheapPrepend + length (contents b))"
      using fits by (simp add: writableBytes_def)
    moreover have "readerIndex b + length (contents b) = writerIndex b"
      "writerIndex b + writableBytes b = length (bufferData b)"
      using b by (auto simp: buf_ok_def length_contents writableBytes_def)
    ultimately show ?thesis using space by (simp add: prependableBytes_def)
  qed
  ultimately show ?thesis using ok' same fits by auto
qed

lemma makeSpace_ok:
  assumes b: "buf_ok b" and small: "writableBytes b < len" and room: "buf_room b len"
  shows "\<exists>b'. makeSpace len b = Inr b' \<and> buf_ok b' \<and> contents b' = contents b
    \<and> len \<le> writableBytes b' \<and> writerIndex b' \<le> writerIndex b"
proof (cases "writableBytes b + prependableBytes b < len + kCheapPrepend")
  case True
  let ?b' = "b\<lparr>bufferData := resize (writerIndex b + len) (bufferData b)\<rparr>"
  have len: "len \<le> vector_max" "kCheapPrepend \<le> vector_max" "writableBytes b \<le> vector_max"
    "prependableBytes b \<le> vector_max" "writerIndex b + len \<le> vector_max"
    using b room by (auto simp: buf_ok_def buf_room_def kCheapPrepend_def vector_max_def
        writableBytes_def prependableBytes_def)
  then have "makeSpace len b = Inr ?b'"
    using True by (simp add: makeSpace_def)
  moreover have "buf_ok ?b'"
    using b small room by (auto simp: buf_ok_def buf_room_def buf_simps writableBytes_def)
  moreover have "contents ?b' = contents b"
    using b by (simp add: contents_alt buf_ok_def)
  moreover have "len \<le> writableBytes ?b'"
    by (simp add: writableBytes_def)
  ultimately show ?thesis by auto
next
  case False
  have "len \<le> vector_max" using room by (simp add: buf_room_def)
  from makeSpace_compact [OF b small this False] show ?thesis .
qed

lemma ensureWritableBytes_ok:
  assumes "buf_ok b" and "buf_room b len"
  shows "\<exists>b'. ensureWritableBytes len b = Inr b' \<and> buf_ok b' \<and> contents b' = contents b
    \<and> len \<le> writableBytes b' \<and> writerIndex b' \<le> writerIndex b"
proof (cases "writableBytes b < len")
  case True
  with makeSpace_ok [OF assms(1) True assms(2)] show ?thesis
    by (auto simp: ensureWritableBytes_def)
next
  case False
  with assms show ?thesis by (simp add: ensureWritableBytes_def)
qed

lemma appendBuf_ok:
  assumes "buf_ok b" and "buf_room b (length xs)"
  shows "\<exists>b'. appendBuf xs b = Inr b' \<and> buf_ok b' \<and> contents b' = contents b @ xs
    \<and> writerIndex b' \<le> writerIndex b + length xs"
proof -
  obtain b1 where b1: "ensureWritableBytes (length xs) b = Inr b1" "buf_ok b1"
    "contents b1 = contents b" "length xs \<le> writableBytes b1" "writerIndex b1 \<le> writerIndex b"
    using ensureWritableBytes_ok [OF assms] by blast
  let ?b' = "b1\<lparr>bufferData := overwrite (writerIndex b1) xs (bufferData b1),
    writerIndex := writerIndex b1 + length xs\<rparr>"
  have fits: "writerIndex b1 + length xs \<le> length (bufferData b1)"
    using b1(2,4) by (auto simp: buf_ok_def writableBytes_def)
  moreover have "length (bufferData b1) \<le> vector_max" using b1(2) by (simp add: buf_ok_def)
  ultimately have "appendBuf xs b = Inr ?b'"
    using b1(1) by (simp add: appendBuf_def hasWritten_def beginWrite_def)
  moreover have "buf_ok ?b'" using b1(2) fits by (auto simp: buf_ok_def)
  moreover have "contents ?b' = contents b1 @ xs"
    using b1(2) fits by (simp add: contents_alt buf_ok_def overwrite_def)
  ultimately show ?thesis using b1(3,5) by auto
qed

text \<open>
  Without the bound on the room, the only other outcome is the exception of \<open>std::vector\<close>.
\<close>

lemma appendBuf_cases:
  assumes b: "buf_ok b" and len: "length xs \<le> vector_max"
  shows "(\<exists>b'. appendBuf xs b = Inr b' \<and> buf_ok b' \<and> contents b' = contents b @ xs)
    \<or> appendBuf xs b = Inl (Cpp_Exception ''length_error'')"
proof (cases "buf_room b (length xs)")
  case True
  then show ?thesis using appendBuf_ok [OF b] by blast
next
  case False
  then have w: "writableBytes b < length xs" and big: "vector_max < writerIndex b + length xs"
    using b by (auto simp: buf_room_def buf_ok_def writableBytes_def)
  show ?thesis
  proof (cases "writableBytes b + prependableBytes b < length xs + kCheapPrepend")
    case True
    have "writableBytes b \<le> vector_max" "prependableBytes b \<le> vector_max" "writerIndex b \<le> vector_max"
      "kCheapPrepend \<le> vector_max"
      using b by (auto simp: buf_ok_def writableBytes_def prependableBytes_def kCheapPrepend_def
          vector_max_def)
    then have "makeSpace (length xs) b = Inl (Cpp_Exception ''length_error'')"
      using True big len by (simp add: makeSpace_def)
    then show ?thesis using w by (simp add: appendBuf_def ensureWritableBytes_def)
  next
    case False
    then obtain b1 where "makeSpace (length xs) b = Inr b1" and b1: "buf_ok b1" "contents b1 = contents b"
      "length xs \<le> writableBytes b1" using makeSpace_compact [OF b w len] by blast
    then have "appendBuf xs b = appendBuf xs b1"
      using w by (simp add: appendBuf_def ensureWritableBytes_def)
    moreover have "buf_room b1 (length xs)"
      using b1 by (auto simp: buf_room_def buf_ok_def writableBytes_def)
    ultimately show ?thesis using appendBuf_ok [OF b1(1)] b1(2) by metis
  qed
qed

lemma retrieve_ok:
  assumes "buf_ok b" and "n \<le> length (contents b)"
  shows "\<exists>b'. retrieve n b = Inr b' \<and> buf_ok b' \<and> contents b' = drop n (contents b)
    \<and> writerIndex b' \<le> writerIndex b"
proof (cases "n < length (contents b)")
  case True
  let ?b' = "b\<lparr>readerIndex := readerIndex b + n\<rparr>"
  have "readerIndex b + n \<le> writerIndex b" "readerIndex b \<le> vector_max" "n \<le> vector_max"
    using assms True by (auto simp: buf_ok_def length_contents)
  then have "retrieve n b = Inr ?b'" "buf_ok ?b'"
    using assms True by (simp_all add: retrieve_def buf_simps buf_ok_def)
  moreover have "contents ?b' = drop n (contents b)"
    using \<open>readerIndex b + n \<le> writerIndex b\<close> by (simp add: contents_alt add.commute)
  ultimately show ?thesis by auto
next
  case False
  with assms show ?thesis
    by (simp add: retrieve_def buf_simps buf_ok_retrieveAll) (simp add: retrieveAll_def buf_ok_def)
qed

lemma retrieve_error:
  assumes "buf_ok b" and "length (contents b) < n"
  shows "retrieve n b = Inl (AssertionFailed ''len <= readableBytes()'')"
  using assms by (simp add: retrieve_def buf_simps)

lemma prepend_ok:
  assumes "buf_ok b" and "length xs \<le> readerIndex b"
  shows "\<exists>b'. prepend xs b = Inr b' \<and> buf_ok b' \<and> contents b' = xs @ contents b
    \<and> writerIndex b' = writerIndex b"
proof -
  let ?r = "readerIndex b - length xs"
  let ?b' = "b\<lparr>readerIndex := ?r, bufferData := overwrite ?r xs (bufferData b)\<rparr>"
  have fits: "?r + length xs = readerIndex b" "readerIndex b \<le> writerIndex b"
    "writerIndex b \<le> length (bufferData b)"
    using assms by (auto simp: buf_ok_def)
  have "prepend xs b = Inr ?b'"
    using assms by (simp add: prepend_def prependableBytes_def Let_def)
  moreover have "buf_ok ?b'" using assms fits by (auto simp: buf_ok_def)
  moreover have "contents ?b' = xs @ contents b"
  proof -
    have "contents ?b' = take (writerIndex b - ?r) (xs @ drop (readerIndex b) (bufferData b))"
      using fits by (simp add: contents_def drop_overwrite_at)
    moreover have "writerIndex b - ?r = length xs + (writerIndex b - readerIndex b)"
      using fits assms(2) by linarith
    ultimately show ?thesis by (simp add: contents_def)
  qed
  ultimately show ?thesis by auto
qed

lemma buf_room_mono: "buf_room b n \<Longrightarrow> m \<le> n \<Longrightarrow> buf_room b m"
  by (simp add: buf_room_def)

lemma buf_room_newBuffer [simp]: "buf_room newBuffer n \<longleftrightarrow> n + kCheapPrepend \<le> vector_max"
  by (simp add: buf_room_def newBuffer_def add.commute)

section \<open>The interface of the layers above\<close>

text \<open>
  What a client of the buffer relies on: \<open>append\<close> puts bytes at the end of a queue, \<open>retrieve\<close>
  takes them from its front, taking more than there is fails.
\<close>

datatype stream_op = Put "char list" | Take nat

fun stream_input :: "stream_op list \<Rightarrow> char list" where
  "stream_input [] = []"
| "stream_input (Put xs # ops) = xs @ stream_input ops"
| "stream_input (Take n # ops) = stream_input ops"

fun stream_fits :: "nat \<Rightarrow> stream_op list \<Rightarrow> bool" where
  "stream_fits n [] = True"
| "stream_fits n (Put xs # ops) = stream_fits (n + length xs) ops"
| "stream_fits n (Take k # ops) = (k \<le> n \<and> stream_fits (n - k) ops)"

fun run_stream :: "(char list \<Rightarrow> 'b \<Rightarrow> 'b result) \<Rightarrow> (nat \<Rightarrow> 'b \<Rightarrow> 'b result)
    \<Rightarrow> ('b \<Rightarrow> char list) \<Rightarrow> stream_op list \<Rightarrow> 'b \<Rightarrow> (char list \<times> 'b) result" where
  "run_stream app ret cont [] b = Inr ([], b)"
| "run_stream app ret cont (Put xs # ops) b = bindE (app xs b) (run_stream app ret cont ops)"
| "run_stream app ret cont (Take n # ops) b =
     bindE (ret n b) (\<lambda>b'. bindE (run_stream app ret cont ops b') (\<lambda>(out, b'').
       Inr (take n (cont b) @ out, b'')))"

locale byte_buffer =
  fixes good :: "'b \<Rightarrow> bool" and cont :: "'b \<Rightarrow> char list" and room :: "'b \<Rightarrow> nat \<Rightarrow> bool"
    and app :: "char list \<Rightarrow> 'b \<Rightarrow> 'b result" and ret :: "nat \<Rightarrow> 'b \<Rightarrow> 'b result"
  assumes app_law: "good b \<Longrightarrow> room b (length xs + n) \<Longrightarrow>
      \<exists>b'. app xs b = Inr b' \<and> good b' \<and> cont b' = cont b @ xs \<and> room b' n"
    and ret_law: "good b \<Longrightarrow> k \<le> length (cont b) \<Longrightarrow>
      \<exists>b'. ret k b = Inr b' \<and> good b' \<and> cont b' = drop k (cont b) \<and> (\<forall>n. room b n \<longrightarrow> room b' n)"
    and ret_error: "good b \<Longrightarrow> length (cont b) < k \<Longrightarrow> \<exists>e. ret k b = Inl e"
begin

lemma foldE_app:
  "good b \<Longrightarrow> room b (length (concat xss) + n) \<Longrightarrow>
    \<exists>b'. foldE app xss b = Inr b' \<and> good b' \<and> cont b' = cont b @ concat xss \<and> room b' n"
proof (induction xss arbitrary: b)
  case Nil
  then show ?case by simp
next
  case (Cons xs xss)
  from Cons.prems have "room b (length xs + (length (concat xss) + n))"
    by (simp add: add.assoc)
  then obtain b1 where b1: "app xs b = Inr b1" "good b1" "cont b1 = cont b @ xs"
    "room b1 (length (concat xss) + n)"
    using app_law [OF Cons.prems(1)] by blast
  from Cons.IH [OF b1(2,4)] b1 show ?case by auto
qed

lemma stream_fifo:
  assumes "good b" and "stream_fits (length (cont b)) ops"
    and "room b (length (stream_input ops))"
  shows "\<exists>out b'. run_stream app ret cont ops b = Inr (out, b') \<and> good b'
    \<and> out @ cont b' = cont b @ stream_input ops"
  using assms
proof (induction ops arbitrary: b)
  case Nil
  then show ?case by simp
next
  case (Cons op ops)
  show ?case
  proof (cases op)
    case (Put xs)
    with Cons.prems obtain b1 where b1: "app xs b = Inr b1" "good b1" "cont b1 = cont b @ xs"
      "room b1 (length (stream_input ops))"
      using app_law [of b xs] by auto
    with Cons.prems(2) Put Cons.IH [of b1] show ?thesis by auto
  next
    case (Take k)
    with Cons.prems obtain b1 where b1: "ret k b = Inr b1" "good b1" "cont b1 = drop k (cont b)"
      "room b1 (length (stream_input ops))"
      using ret_law [of b k] by auto
    with Cons.prems(2) Take Cons.IH [of b1] obtain out b' where
      "run_stream app ret cont ops b1 = Inr (out, b')" "good b'"
      "out @ cont b' = drop k (cont b) @ stream_input ops" by auto
    moreover then have "(take k (cont b) @ out) @ cont b' = cont b @ stream_input ops"
      by (metis append.assoc append_take_drop_id)
    ultimately show ?thesis using b1 Take by auto
  qed
qed

end

interpretation nb: byte_buffer buf_ok contents buf_room appendBuf retrieve
proof
  fix b and xs :: "char list" and n
  assume "buf_ok b" and room: "buf_room b (length xs + n)"
  then obtain b' where b': "appendBuf xs b = Inr b'" "buf_ok b'" "contents b' = contents b @ xs"
    "writerIndex b' \<le> writerIndex b + length xs"
    using appendBuf_ok [of b xs] buf_room_mono [of b "length xs + n" "length xs"] by auto
  with room show "\<exists>b'. appendBuf xs b = Inr b' \<and> buf_ok b' \<and> contents b' = contents b @ xs \<and> buf_room b' n"
    by (auto simp: buf_room_def)
next
  fix b k
  assume "buf_ok b" and "k \<le> length (contents b)"
  from retrieve_ok [OF this]
  show "\<exists>b'. retrieve k b = Inr b' \<and> buf_ok b' \<and> contents b' = drop k (contents b)
      \<and> (\<forall>n. buf_room b n \<longrightarrow> buf_room b' n)"
    by (auto simp: buf_room_def)
next
  fix b k
  assume "buf_ok b" and "length (contents b) < k"
  then show "\<exists>e. retrieve k b = Inl e" by (simp add: retrieve_error)
qed

section \<open>Derived operations\<close>

lemma findCRLF_Some:
  assumes "buf_ok b" and "findCRLF b = Some i"
  shows "\<exists>pre post. contents b = pre @ kCRLF @ post \<and> i = readerIndex b + length pre
    \<and> i + 2 \<le> writerIndex b \<and> length pre = search kCRLF (contents b)"
proof -
  have len: "readerIndex b + length (contents b) = writerIndex b"
    using assms(1) by (auto simp: buf_ok_def length_contents)
  from assms(2) have i: "i = readerIndex b + search kCRLF (contents b)"
    and "i \<noteq> writerIndex b"
    by (auto simp: findCRLF_def Let_def peek_def beginWrite_def split: if_splits)
  then have "search kCRLF (contents b) < length (contents b)"
    using len search_le [of kCRLF "contents b"] by linarith
  then obtain pre post where dec: "contents b = pre @ kCRLF @ post"
    "length pre = search kCRLF (contents b)"
    using search_decomp [of kCRLF "contents b"] by (auto simp: kCRLF_def)
  moreover have "length (contents b) = length pre + 2 + length post"
    using dec(1) by (simp add: kCRLF_def)
  ultimately show ?thesis using i len by auto
qed

lemma findCRLF_None:
  assumes "buf_ok b" and "findCRLF b = None"
  shows "contents b \<noteq> pre @ kCRLF @ post"
proof (rule search_none)
  show "kCRLF \<noteq> []" by (simp add: kCRLF_def)
  show "search kCRLF (contents b) = length (contents b)"
    using assms by (auto simp: findCRLF_def Let_def peek_def beginWrite_def length_contents
        buf_ok_def split: if_splits)
qed

lemma retrieveUntil_ok:
  assumes "buf_ok b" and "readerIndex b \<le> i" and "i \<le> writerIndex b"
  shows "\<exists>b'. retrieveUntil i b = Inr b' \<and> buf_ok b' \<and> contents b' = drop (i - readerIndex b) (contents b)"
proof -
  have "i - readerIndex b \<le> length (contents b)" using assms by (simp add: length_contents)
  from retrieve_ok [OF assms(1) this] assms show ?thesis
    by (auto simp: retrieveUntil_def peek_def beginWrite_def)
qed

lemma take_drop_contents:
  "buf_ok b \<Longrightarrow> n \<le> length (contents b) \<Longrightarrow>
    take n (drop (readerIndex b) (bufferData b)) = take n (contents b)"
  by (simp add: contents_def)

lemma retrieveAsString_ok:
  assumes "buf_ok b" and "n \<le> length (contents b)"
  shows "\<exists>b'. retrieveAsString n b = Inr (take n (contents b), b') \<and> buf_ok b'
    \<and> contents b' = drop n (contents b)"
proof -
  from retrieve_ok [OF assms] obtain b' where
    "retrieve n b = Inr b'" "buf_ok b'" "contents b' = drop n (contents b)" by blast
  with assms show ?thesis
    by (simp add: retrieveAsString_def buf_simps peek_def take_drop_contents)
qed

lemma retrieveAllAsString_ok:
  assumes "buf_ok b"
  shows "\<exists>b'. retrieveAllAsString b = Inr (contents b, b') \<and> buf_ok b' \<and> contents b' = []"
  using retrieveAsString_ok [OF assms, of "length (contents b)"]
  by (simp add: retrieveAllAsString_def buf_simps assms)

lemma le_bytes_hostToNetwork16: "le_bytes 2 (unat (hostToNetwork16 x)) = rev (le_bytes 2 (unat x))"
proof -
  have "byte_swap 2 (unat x) < 2 ^ 16" using byte_swap_bound [of 2 "unat x"] by simp
  then show ?thesis by (simp add: hostToNetwork16_def unat_of_nat le_bytes_byte_swap)
qed

text \<open>Reading an integer decodes the big-endian bytes at the front and removes them.\<close>

lemma peekInt32_wire:
  assumes "buf_ok b" and "contents b = rev (le_bytes 4 (unat x)) @ rest"
  shows "peekInt32 b = Inr x"
proof -
  have "take 4 (drop (readerIndex b) (bufferData b)) = le_bytes 4 (unat (hostToNetwork32 x))"
    using assms take_drop_contents [of b 4] by (simp add: le_bytes_hostToNetwork32)
  then have "of_nat (le_value (take 4 (drop (readerIndex b) (bufferData b)))) = hostToNetwork32 x"
    by (simp only: le_value_le_bytes_unat)
  then show ?thesis
    using assms by (simp add: peekInt32_def buf_simps peek_def networkToHost32_hostToNetwork32)
qed

lemma readInt32_wire:
  assumes "buf_ok b" and "contents b = rev (le_bytes 4 (unat x)) @ rest"
  shows "\<exists>b'. readInt32 b = Inr (x, b') \<and> buf_ok b' \<and> contents b' = rest"
  using retrieve_ok [of b 4] assms peekInt32_wire [OF assms]
  by (auto simp: readInt32_def retrieveInt32_def)

lemma readInt16_wire:
  assumes "buf_ok b" and "contents b = rev (le_bytes 2 (unat x)) @ rest"
  shows "\<exists>b'. readInt16 b = Inr (x, b') \<and> buf_ok b' \<and> contents b' = rest"
proof -
  have "take 2 (drop (readerIndex b) (bufferData b)) = le_bytes 2 (unat (hostToNetwork16 x))"
    using assms take_drop_contents [of b 2] by (simp add: le_bytes_hostToNetwork16)
  then have "of_nat (le_value (take 2 (drop (readerIndex b) (bufferData b)))) = hostToNetwork16 x"
    by (simp only: le_value_le_bytes_unat)
  then have "peekInt16 b = Inr x"
    using assms by (simp add: peekInt16_def buf_simps peek_def networkToHost16_hostToNetwork16)
  then show ?thesis
    using retrieve_ok [of b 2] assms by (auto simp: readInt16_def retrieveInt16_def)
qed

lemma readInt8_wire:
  assumes "buf_ok b" and "contents b = le_bytes 1 (unat x) @ rest"
  shows "\<exists>b'. readInt8 b = Inr (x, b') \<and> buf_ok b' \<and> contents b' = rest"
proof -
  have "take 1 (drop (readerIndex b) (bufferData b)) = le_bytes 1 (unat x)"
    using assms take_drop_contents [of b 1] by simp
  then have "of_nat (le_value (take 1 (drop (readerIndex b) (bufferData b)))) = x"
    by (simp only: le_value_le_bytes_unat)
  then have "peekInt8 b = Inr x"
    using assms by (simp add: peekInt8_def buf_simps peek_def)
  then show ?thesis
    using retrieve_ok [of b 1] assms by (auto simp: readInt8_def retrieveInt8_def)
qed

lemma appendBuf_in_place:
  assumes "buf_ok b" and "length xs \<le> writableBytes b"
  shows "appendBuf xs b = Inr (b\<lparr>bufferData := overwrite (writerIndex b) xs (bufferData b),
    writerIndex := writerIndex b + length xs\<rparr>)"
proof -
  have "writerIndex b + length xs \<le> vector_max" using assms by (auto simp: buf_ok_def buf_simps)
  with assms show ?thesis
    by (simp add: appendBuf_def ensureWritableBytes_def hasWritten_def beginWrite_def)
qed

lemma room_newBuffer: "n + kCheapPrepend \<le> vector_max \<Longrightarrow> m \<le> n \<Longrightarrow> buf_room newBuffer m"
  by simp

text \<open>
  \<open>readFd\<close> fills the writable part in place and appends the rest from the stack block.
\<close>

lemma readFd_split:
  assumes "buf_ok b"
  shows "\<exists>b1. buf_ok b1 \<and> contents b1 = contents b @ take (writableBytes b) bs \<and>
    writerIndex b1 = writerIndex b + length (take (writableBytes b) bs) \<and>
    writerIndex b1 \<le> length (bufferData b) \<and>
    (length bs \<le> writableBytes b \<longrightarrow> readFd (Inr bs) b = Inr (int (length bs), None, b1)) \<and>
    (writableBytes b < length bs \<longrightarrow> readFd (Inr bs) b =
       bindE (appendBuf (drop (writableBytes b) bs) b1) (\<lambda>b2. Inr (int (length bs), None, b2)))"
proof -
  let ?w = "writableBytes b"
  let ?b1 = "b\<lparr>bufferData := overwrite (writerIndex b) (take ?w bs) (bufferData b),
    writerIndex := writerIndex b + length (take ?w bs)\<rparr>"
  have one: "appendBuf (take ?w bs) b = Inr ?b1"
    using appendBuf_in_place [of b "take ?w bs"] assms(1) by simp
  have "buf_room b (length (take ?w bs))"
    using assms(1) by (auto simp: buf_room_def buf_simps buf_ok_def)
  then have b1: "buf_ok ?b1" "contents ?b1 = contents b @ take ?w bs"
    using appendBuf_ok [OF assms(1), of "take ?w bs"] one by auto
  have w: "writerIndex b + ?w = length (bufferData b)"
    using assms(1) by (simp add: buf_simps) (simp add: buf_ok_def)
  have "readFd (Inr bs) b = Inr (int (length bs), None, ?b1)" if "length bs \<le> ?w"
  proof -
    have "writerIndex b + length bs \<le> vector_max" using that w assms(1) by (auto simp: buf_ok_def)
    then show ?thesis using that by (simp add: readFd_def Let_def vector_max_lt_size_max)
  qed
  moreover have "readFd (Inr bs) b =
      bindE (appendBuf (drop ?w bs) ?b1) (\<lambda>b2. Inr (int (length bs), None, b2))" if "?w < length bs"
  proof -
    have eq: "?b1 = b\<lparr>bufferData := overwrite (writerIndex b) (take ?w bs) (bufferData b),
      writerIndex := length (overwrite (writerIndex b) (take ?w bs) (bufferData b))\<rparr>"
      using w that by simp
    show ?thesis unfolding eq using that by (simp add: readFd_def Let_def)
  qed
  ultimately show ?thesis using b1 w by (intro exI [of _ ?b1]) auto
qed

lemma readFd_room:
  assumes "buf_ok b" and "buf_room b (length bs)"
  shows "\<exists>b'. readFd (Inr bs) b = Inr (int (length bs), None, b') \<and> buf_ok b' \<and> contents b' = contents b @ bs \<and>
    writerIndex b' \<le> writerIndex b + length bs"
proof -
  let ?w = "writableBytes b"
  obtain b1 where b1: "buf_ok b1" "contents b1 = contents b @ take ?w bs" "writerIndex b1 = writerIndex b + length (take ?w bs)"
    "length bs \<le> ?w \<Longrightarrow> readFd (Inr bs) b = Inr (int (length bs), None, b1)"
    "?w < length bs \<Longrightarrow> readFd (Inr bs) b =
       bindE (appendBuf (drop ?w bs) b1) (\<lambda>b2. Inr (int (length bs), None, b2))"
    using readFd_split [OF assms(1)] by blast
  have "buf_room b1 (length (drop ?w bs))" using assms(2) b1(3) by (simp add: buf_room_def)
  from appendBuf_ok [OF b1(1) this] show ?thesis
    using b1 by (cases "length bs \<le> ?w") auto
qed

lemma readFd_cases:
  assumes b: "buf_ok b" and len: "length bs \<le> writableBytes b + extrabuf_size"
  shows "(\<exists>b'. readFd (Inr bs) b = Inr (int (length bs), None, b') \<and> buf_ok b' \<and>
      contents b' = contents b @ bs)
    \<or> readFd (Inr bs) b = Inl (Cpp_Exception ''length_error'')"
proof -
  let ?w = "writableBytes b"
  obtain b1 where b1: "buf_ok b1" "contents b1 = contents b @ take ?w bs"
    "length bs \<le> ?w \<Longrightarrow> readFd (Inr bs) b = Inr (int (length bs), None, b1)"
    "?w < length bs \<Longrightarrow> readFd (Inr bs) b =
       bindE (appendBuf (drop ?w bs) b1) (\<lambda>b2. Inr (int (length bs), None, b2))"
    using readFd_split [OF b] by blast
  have "length (drop ?w bs) \<le> vector_max"
    using len by (simp add: extrabuf_size_def vector_max_def)
  from appendBuf_cases [OF b1(1) this] show ?thesis
    using b1 by (cases "length bs \<le> ?w") auto
qed

lemma toStringPiece_ok:
  assumes "buf_ok b" and "length (contents b) < 2 ^ 31"
  shows "appendPiece (toStringPiece b) c = appendBuf (contents b) c"
proof -
  have len: "length (contents b) \<le> length (bufferData b) - readerIndex b"
    using assms(1) by (auto simp: length_contents buf_ok_def)
  have "int (length (contents b)) < 2 ^ 31" using assms(2) by simp
  moreover then have "int (length (contents b)) mod 2 ^ 64 = int (length (contents b))" by simp
  ultimately show ?thesis
    using assms(1) len take_drop_contents [of b "length (contents b)"]
    by (simp add: appendPiece_def toStringPiece_def buf_simps peek_def)
qed

section \<open>Properties of the buffer\<close>

text \<open>
  C2. The buffer is a FIFO byte stream: any sequence of appends and retrievals in which no
  retrieval asks for more than is readable (and whose bytes fit in a vector) succeeds, trips no
  assertion, and what has been retrieved followed by what is still readable is exactly what was
  readable at the start followed by what was appended.
\<close>

theorem buffer_stream_fifo:
  assumes "buf_ok b" and "stream_fits (length (contents b)) ops"
    and "buf_room b (length (stream_input ops))"
  shows "\<exists>out b'. run_stream appendBuf retrieve contents ops b = Inr (out, b') \<and> buf_ok b'
    \<and> out @ contents b' = contents b @ stream_input ops"
  using assms by (rule nb.stream_fifo)

theorem buffer_stream_fifo_witness:
  "\<exists>out b'. run_stream appendBuf retrieve contents
       [Put ''GET'', Take 1, Put (replicate 3000 (CHR ''x'')), Take 3002] newBuffer = Inr (out, b')
     \<and> out @ contents b' = ''GET'' @ replicate 3000 (CHR ''x'')"
  using buffer_stream_fifo [of newBuffer
      "[Put ''GET'', Take 1, Put (replicate 3000 (CHR ''x'')), Take 3002]"]
  by (auto simp: kCheapPrepend_def vector_max_def)

text \<open>
  Making room never loses data and never trips an assertion: whenever there is not enough
  writable space, \<open>makeSpace\<close> (resizing, or moving the readable bytes to the front, where it
  asserts \<open>kCheapPrepend < readerIndex_\<close>) succeeds, keeps the readable bytes and leaves at
  least the requested space writable.
\<close>

theorem makeSpace_safe:
  assumes "buf_ok b" and "writableBytes b < len" and "writerIndex b + len \<le> vector_max"
  shows "\<exists>b'. makeSpace len b = Inr b' \<and> buf_ok b' \<and> contents b' = contents b
    \<and> len \<le> writableBytes b'"
  using makeSpace_ok [of b len] assms by (auto simp: buf_room_def)

theorem makeSpace_safe_witness:
  "\<exists>b'. makeSpace 2000 newBuffer = Inr b' \<and> contents b' = [] \<and> 2000 \<le> writableBytes b'"
proof -
  have "writableBytes newBuffer < 2000" "writerIndex newBuffer + 2000 \<le> vector_max"
    by (simp_all add: writableBytes_def newBuffer_def kCheapPrepend_def kInitialSize_def vector_max_def)
  from makeSpace_safe [OF buf_ok_newBuffer this] show ?thesis by auto
qed

text \<open>
  Integers cross the buffer in network byte order and come back unchanged: \<open>appendInt32\<close>
  appends the four bytes of its argument with the most significant first, and \<open>readInt32\<close>, once
  everything before them has been retrieved, returns the same value and consumes exactly them.
\<close>

theorem int32_roundtrip:
  assumes "buf_ok b" and "buf_room b 4"
  shows "\<exists>b1 b2 b3. appendInt32 x b = Inr b1
    \<and> contents b1 = contents b @ rev (le_bytes 4 (unat x))
    \<and> retrieve (length (contents b)) b1 = Inr b2 \<and> readInt32 b2 = Inr (x, b3) \<and> contents b3 = []"
proof -
  let ?w = "rev (le_bytes 4 (unat x))"
  obtain b1 where b1: "appendInt32 x b = Inr b1" "buf_ok b1" "contents b1 = contents b @ ?w"
    using appendBuf_ok [OF assms(1), of ?w] assms(2)
    by (auto simp: appendInt32_def le_bytes_hostToNetwork32)
  then obtain b2 where b2: "retrieve (length (contents b)) b1 = Inr b2" "buf_ok b2"
    "contents b2 = ?w" using retrieve_ok [of b1 "length (contents b)"] by auto
  then obtain b3 where "readInt32 b2 = Inr (x, b3)" "contents b3 = []"
    using readInt32_wire [of b2 x "[]"] by auto
  with b1 b2 show ?thesis by blast
qed

theorem int32_roundtrip_witness:
  "\<exists>b1 b2 b3. appendInt32 0x01020304 newBuffer = Inr b1
    \<and> contents b1 = [CHR 0x01, CHR 0x02, CHR 0x03, CHR 0x04]
    \<and> retrieve 0 b1 = Inr b2 \<and> readInt32 b2 = Inr (0x01020304, b3)"
proof -
  have "rev (le_bytes 4 (unat (0x01020304 :: 32 word))) = [CHR 0x01, CHR 0x02, CHR 0x03, CHR 0x04]"
    by (simp add: le_bytes_4 char_of_eq_iff take_bit_eq_mod)
  moreover have "buf_room newBuffer 4" by (simp add: kCheapPrepend_def vector_max_def)
  ultimately show ?thesis
    using int32_roundtrip [OF buf_ok_newBuffer, of "0x01020304"] by auto
qed

text \<open>
  \<open>readFd\<close> appends exactly what the kernel delivered: for a scatter read of at most
  \<open>writable + 65536\<close> bytes (all that the two blocks can hold) the whole of it follows the bytes
  already readable, whether or not the stack block was needed, and the count is returned; a failed
  read returns -1, saves the errno and leaves the buffer as it was.
\<close>

theorem readFd_appends:
  assumes "buf_ok b" and "length bs \<le> writableBytes b + extrabuf_size"
    and "length (bufferData b) + extrabuf_size \<le> vector_max"
  shows "(\<exists>b'. readFd (Inr bs) b = Inr (int (length bs), None, b') \<and> buf_ok b'
      \<and> contents b' = contents b @ bs)
    \<and> readFd (Inl err) b = Inr (- 1, Some err, b)"
proof (intro conjI)
  show "readFd (Inl err) b = Inr (- 1, Some err, b)" by (simp add: readFd_def Let_def)
  let ?w = "writableBytes b"
  obtain b1 where b1: "buf_ok b1" "contents b1 = contents b @ take ?w bs"
    "length bs \<le> ?w \<Longrightarrow> readFd (Inr bs) b = Inr (int (length bs), None, b1)"
    "?w < length bs \<Longrightarrow> readFd (Inr bs) b =
       bindE (appendBuf (drop ?w bs) b1) (\<lambda>b2. Inr (int (length bs), None, b2))"
    "writerIndex b1 \<le> length (bufferData b)"
    using readFd_split [OF assms(1)] by blast
  have "buf_room b1 (length (drop ?w bs))"
    using assms(2,3) b1(5) by (simp add: buf_room_def)
  from appendBuf_ok [OF b1(1) this]
  show "\<exists>b'. readFd (Inr bs) b = Inr (int (length bs), None, b') \<and> buf_ok b'
      \<and> contents b' = contents b @ bs"
    using b1 by (cases "length bs \<le> ?w") auto
qed

theorem readFd_appends_witness:
  "\<exists>b'. readFd (Inr (replicate 5000 (CHR ''a''))) newBuffer = Inr (5000, None, b')
    \<and> contents b' = replicate 5000 (CHR ''a'')"
proof -
  have "length (replicate 5000 (CHR ''a'')) \<le> writableBytes newBuffer + extrabuf_size"
    "length (bufferData newBuffer) + extrabuf_size \<le> vector_max"
    by (simp_all add: newBuffer_def extrabuf_size_def kCheapPrepend_def kInitialSize_def vector_max_def)
  from readFd_appends [OF buf_ok_newBuffer this] show ?thesis by auto
qed

text \<open>
  \<open>shrink\<close> keeps the readable bytes and leaves at least \<open>reserve\<close> writable bytes, as long
  as fewer than \<open>2^31\<close> bytes are readable (it goes through a \<open>StringPiece\<close>, whose length is
  an \<open>int\<close>).
\<close>

theorem shrink_keeps:
  assumes "buf_ok b" and "length (contents b) < 2 ^ 31"
    and "length (contents b) + reserve + kCheapPrepend \<le> vector_max"
  shows "\<exists>b'. shrink reserve b = Inr b' \<and> buf_ok b' \<and> contents b' = contents b
    \<and> reserve \<le> writableBytes b'"
proof -
  let ?n = "length (contents b) + reserve"
  have "buf_room newBuffer ?n" using assms(3) by simp
  then obtain c where c: "ensureWritableBytes ?n newBuffer = Inr c" "buf_ok c" "contents c = []"
    "?n \<le> writableBytes c"
    using ensureWritableBytes_ok [OF buf_ok_newBuffer] by auto
  let ?b' = "c\<lparr>bufferData := overwrite (writerIndex c) (contents b) (bufferData c),
    writerIndex := writerIndex c + length (contents b)\<rparr>"
  have b': "appendBuf (contents b) c = Inr ?b'" using c by (intro appendBuf_in_place) auto
  have "buf_room c (length (contents b))"
    using c(2,4) by (auto simp: buf_room_def buf_simps buf_ok_def)
  then have "buf_ok ?b'" "contents ?b' = contents b"
    using appendBuf_ok [OF c(2), of "contents b"] b' c(3) by auto
  moreover have "reserve \<le> writableBytes ?b'"
  proof -
    have "writerIndex c + length (contents b) + reserve \<le> length (bufferData c)"
      using c(2,4) by (auto simp: buf_ok_def writableBytes_def)
    then show ?thesis using \<open>buf_ok ?b'\<close> by (simp add: buf_simps)
  qed
  moreover have "shrink reserve b = Inr ?b'"
    using b' c(1) assms by (simp add: shrink_def buf_simps toStringPiece_ok)
  ultimately show ?thesis by blast
qed

theorem shrink_keeps_witness:
  "\<exists>b'. shrink 4096 newBuffer = Inr b' \<and> contents b' = [] \<and> 4096 \<le> writableBytes b'"
  using shrink_keeps [OF buf_ok_newBuffer, of 4096]
  by (auto simp: kCheapPrepend_def vector_max_def)

end
