(* ===== verification/Channel.thy ===== *)
theory Channel
  imports Prelude
begin

text \<open>
  \<open>src/muduo/net/Channel.h\<close>, \<open>Channel.cc\<close> and the channel part of \<open>EventLoop.cc\<close>: the
  object that ties a file descriptor to its callbacks.

  A \<open>Channel*\<close> is a natural number; \<open>loop_state\<close> is the part of an event loop the channels
  need: the channel objects, and the flags its assertions read. The pollers extend this record (the
  C++ classes derive from \<open>Poller\<close>), and the virtual call \<open>poller_->updateChannel\<close> is an
  argument of the operations. The event masks are 32-bit words with the Linux values of
  \<open>poll.h\<close>.
\<close>

unbundle bit_operations_syntax

section \<open>Event masks\<close>

definition POLLIN :: "32 word" where "POLLIN = 0x1"
definition POLLPRI :: "32 word" where "POLLPRI = 0x2"
definition POLLOUT :: "32 word" where "POLLOUT = 0x4"
definition POLLERR :: "32 word" where "POLLERR = 0x8"
definition POLLHUP :: "32 word" where "POLLHUP = 0x10"
definition POLLNVAL :: "32 word" where "POLLNVAL = 0x20"
definition POLLRDHUP :: "32 word" where "POLLRDHUP = 0x2000"

definition kNoneEvent :: "32 word" where "kNoneEvent = 0"
definition kReadEvent :: "32 word" where "kReadEvent = POLLIN OR POLLPRI"
definition kWriteEvent :: "32 word" where "kWriteEvent = POLLOUT"

lemmas poll_flags = POLLIN_def POLLPRI_def POLLOUT_def POLLERR_def POLLHUP_def POLLNVAL_def
  POLLRDHUP_def kNoneEvent_def kReadEvent_def kWriteEvent_def

section \<open>The channel object\<close>

record channel =
  ch_fd :: int
  ch_events :: "32 word"
  ch_revents :: "32 word"
  ch_index :: int
  ch_logHup :: bool
  ch_tied :: bool
  ch_eventHandling :: bool
  ch_readCallback :: bool
  ch_writeCallback :: bool
  ch_closeCallback :: bool
  ch_errorCallback :: bool

definition newChannel :: "int \<Rightarrow> channel" where
  "newChannel fd = \<lparr>ch_fd = fd, ch_events = 0, ch_revents = 0, ch_index = - 1, ch_logHup = True,
     ch_tied = False, ch_eventHandling = False, ch_readCallback = False, ch_writeCallback = False,
     ch_closeCallback = False, ch_errorCallback = False\<rparr>"

definition tie :: "channel \<Rightarrow> channel" where
  "tie c = c\<lparr>ch_tied := True\<rparr>"

definition isNoneEvent :: "channel \<Rightarrow> bool" where
  "isNoneEvent c \<longleftrightarrow> ch_events c = kNoneEvent"

definition isWriting :: "channel \<Rightarrow> bool" where
  "isWriting c \<longleftrightarrow> ch_events c AND kWriteEvent \<noteq> 0"

definition set_revents :: "32 word \<Rightarrow> channel \<Rightarrow> channel" where
  "set_revents revt c = c\<lparr>ch_revents := revt\<rparr>"

definition set_index :: "int \<Rightarrow> channel \<Rightarrow> channel" where
  "set_index idx c = c\<lparr>ch_index := idx\<rparr>"

definition setReadCallback :: "bool \<Rightarrow> channel \<Rightarrow> channel" where
  "setReadCallback cb c = c\<lparr>ch_readCallback := cb\<rparr>"

definition setWriteCallback :: "bool \<Rightarrow> channel \<Rightarrow> channel" where
  "setWriteCallback cb c = c\<lparr>ch_writeCallback := cb\<rparr>"

definition setCloseCallback :: "bool \<Rightarrow> channel \<Rightarrow> channel" where
  "setCloseCallback cb c = c\<lparr>ch_closeCallback := cb\<rparr>"

definition setErrorCallback :: "bool \<Rightarrow> channel \<Rightarrow> channel" where
  "setErrorCallback cb c = c\<lparr>ch_errorCallback := cb\<rparr>"

definition doNotLogHup :: "channel \<Rightarrow> channel" where
  "doNotLogHup c = c\<lparr>ch_logHup := False\<rparr>"

text \<open>The event mask part of the four operations that change the interest of a channel.\<close>

datatype channel_op = EnableReading | EnableWriting | DisableWriting | DisableAll

fun op_events :: "channel_op \<Rightarrow> 32 word \<Rightarrow> 32 word" where
  "op_events EnableReading ev = ev OR kReadEvent"
| "op_events EnableWriting ev = ev OR kWriteEvent"
| "op_events DisableWriting ev = ev AND NOT kWriteEvent"
| "op_events DisableAll ev = kNoneEvent"

lemma kWriteEvent_bit: "bit kWriteEvent n \<longleftrightarrow> n = 2"
proof -
  have *: "kWriteEvent = push_bit 2 1" by (simp add: poll_flags push_bit_eq_mult)
  show ?thesis unfolding * bit_push_bit_iff bit_1_iff by auto
qed

lemma isWriting_bit: "isWriting c \<longleftrightarrow> bit (ch_events c) 2"
proof
  assume "isWriting c"
  then obtain n where "bit (ch_events c AND kWriteEvent) n"
    by (auto simp: isWriting_def bit_eq_iff [where 'a = "32 word"])
  then show "bit (ch_events c) 2" by (auto simp: bit_and_iff kWriteEvent_bit)
next
  assume "bit (ch_events c) 2"
  then have "bit (ch_events c AND kWriteEvent) 2" by (simp add: bit_and_iff kWriteEvent_bit)
  then show "isWriting c" by (auto simp: isWriting_def)
qed

lemma isWriting_ops [simp]:
  "isWriting (c\<lparr>ch_events := op_events EnableReading ev\<rparr>) \<longleftrightarrow> isWriting (c\<lparr>ch_events := ev\<rparr>)"
  "isWriting (c\<lparr>ch_events := op_events EnableWriting ev\<rparr>)"
  "\<not> isWriting (c\<lparr>ch_events := op_events DisableWriting ev\<rparr>)"
  "\<not> isWriting (c\<lparr>ch_events := op_events DisableAll ev\<rparr>)"
proof -
  have "\<not> bit kReadEvent 2" by (simp add: poll_flags)
  then show "isWriting (c\<lparr>ch_events := op_events EnableReading ev\<rparr>) \<longleftrightarrow> isWriting (c\<lparr>ch_events := ev\<rparr>)"
    by (simp add: isWriting_bit bit_or_iff)
qed (simp_all add: isWriting_bit bit_or_iff bit_and_iff bit_not_iff kWriteEvent_bit,
     simp add: kNoneEvent_def)

lemma isNoneEvent_ops [simp]:
  "\<not> isNoneEvent (c\<lparr>ch_events := op_events EnableReading ev\<rparr>)"
  "\<not> isNoneEvent (c\<lparr>ch_events := op_events EnableWriting ev\<rparr>)"
  "isNoneEvent (c\<lparr>ch_events := op_events DisableAll ev\<rparr>)"
proof -
  have "bit (ev OR kReadEvent) 0" by (simp add: bit_or_iff poll_flags)
  then show "\<not> isNoneEvent (c\<lparr>ch_events := op_events EnableReading ev\<rparr>)"
    by (auto simp: isNoneEvent_def kNoneEvent_def)
  have "bit (ev OR kWriteEvent) 2" by (simp add: bit_or_iff kWriteEvent_bit)
  then show "\<not> isNoneEvent (c\<lparr>ch_events := op_events EnableWriting ev\<rparr>)"
    by (auto simp: isNoneEvent_def kNoneEvent_def)
qed (simp add: isNoneEvent_def)

section \<open>The loop's view of its channels\<close>

record loop_state =
  chans :: "nat \<Rightarrow> channel option"
  inLoopThread :: bool
  loopHandling :: bool
  currentActiveChannel :: "nat option"
  activeChannels :: "nat list"

definition get_chan :: "nat \<Rightarrow> 'a loop_state_scheme \<Rightarrow> channel result" where
  "get_chan cid s = (case chans s cid of
     None \<Rightarrow> Inl (Undefined_Behaviour ''dangling Channel*'') | Some c \<Rightarrow> Inr c)"

definition put_chan :: "nat \<Rightarrow> channel \<Rightarrow> 'a loop_state_scheme \<Rightarrow> 'a loop_state_scheme" where
  "put_chan cid c s = s\<lparr>chans := (chans s)(cid := Some c)\<rparr>"

definition assertInLoopThread :: "'a loop_state_scheme \<Rightarrow> unit result" where
  "assertInLoopThread s =
     (if inLoopThread s then Inr () else Inl (FatalLog ''EventLoop::abortNotInLoopThread''))"

type_synonym 's poller_op = "nat \<Rightarrow> 's \<Rightarrow> 's result"

definition EventLoop_updateChannel ::
  "'a loop_state_scheme poller_op \<Rightarrow> 'a loop_state_scheme poller_op" where
  "EventLoop_updateChannel upd cid s = bindE (assertInLoopThread s) (\<lambda>_. upd cid s)"

definition EventLoop_removeChannel ::
  "'a loop_state_scheme poller_op \<Rightarrow> 'a loop_state_scheme poller_op" where
  "EventLoop_removeChannel rem cid s =
     bindE (assertInLoopThread s) (\<lambda>_.
     bindE (if loopHandling s
            then assertE (currentActiveChannel s = Some cid \<or> cid \<notin> set (activeChannels s))
                   ''currentActiveChannel_ == channel || not active''
            else Inr ()) (\<lambda>_.
     rem cid s))"

text \<open>\<open>enableReading()\<close> and its kin: change the mask, then \<open>update()\<close>.\<close>

definition Channel_set :: "'a loop_state_scheme poller_op \<Rightarrow> channel_op
    \<Rightarrow> 'a loop_state_scheme poller_op" where
  "Channel_set upd op cid s =
     bindE (get_chan cid s) (\<lambda>c.
     EventLoop_updateChannel upd cid
       (put_chan cid (c\<lparr>ch_events := op_events op (ch_events c)\<rparr>) s))"

definition Channel_remove :: "'a loop_state_scheme poller_op \<Rightarrow> 'a loop_state_scheme poller_op" where
  "Channel_remove rem cid s =
     bindE (get_chan cid s) (\<lambda>c.
     bindE (assertE (isNoneEvent c) ''isNoneEvent()'') (\<lambda>_.
     EventLoop_removeChannel rem cid s))"

section \<open>Dispatching the active events\<close>

datatype callback = CloseCallback | ErrorCallback | ReadCallback | WriteCallback

text \<open>The condition under which \<open>handleEventWithGuard\<close> calls each of the four callbacks.\<close>

fun wants :: "callback \<Rightarrow> channel \<Rightarrow> bool" where
  "wants CloseCallback c \<longleftrightarrow>
     ch_revents c AND POLLHUP \<noteq> 0 \<and> ch_revents c AND POLLIN = 0 \<and> ch_closeCallback c"
| "wants ErrorCallback c \<longleftrightarrow> ch_revents c AND (POLLERR OR POLLNVAL) \<noteq> 0 \<and> ch_errorCallback c"
| "wants ReadCallback c \<longleftrightarrow>
     ch_revents c AND (POLLIN OR POLLPRI OR POLLRDHUP) \<noteq> 0 \<and> ch_readCallback c"
| "wants WriteCallback c \<longleftrightarrow> ch_revents c AND POLLOUT \<noteq> 0 \<and> ch_writeCallback c"

text \<open>
  A callback is user code: an argument \<open>run\<close> that changes the loop state. The members
  \<open>revents_\<close> and the callback slots are read again before each call, as in the source.
\<close>

definition fire :: "(callback \<Rightarrow> 'a loop_state_scheme \<Rightarrow> 'a loop_state_scheme result) \<Rightarrow> nat
    \<Rightarrow> callback \<Rightarrow> 'a loop_state_scheme \<Rightarrow> 'a loop_state_scheme result" where
  "fire run cid cb s = bindE (get_chan cid s) (\<lambda>c. if wants cb c then run cb s else Inr s)"

definition handleEventWithGuard ::
  "(callback \<Rightarrow> 'a loop_state_scheme \<Rightarrow> 'a loop_state_scheme result)
    \<Rightarrow> 'a loop_state_scheme poller_op" where
  "handleEventWithGuard run cid s =
     bindE (get_chan cid s) (\<lambda>c.
     bindE (foldE (fire run cid) [CloseCallback, ErrorCallback, ReadCallback, WriteCallback]
              (put_chan cid (c\<lparr>ch_eventHandling := True\<rparr>) s)) (\<lambda>s'.
     bindE (get_chan cid s') (\<lambda>c'.
     Inr (put_chan cid (c'\<lparr>ch_eventHandling := False\<rparr>) s'))))"

text \<open>
  \<open>handleEvent\<close>: a tied channel dispatches only while the object it is tied to is alive
  (\<open>tie_.lock()\<close> returns it).
\<close>

definition handleEvent :: "bool \<Rightarrow> (callback \<Rightarrow> 'a loop_state_scheme \<Rightarrow> 'a loop_state_scheme result)
    \<Rightarrow> 'a loop_state_scheme poller_op" where
  "handleEvent alive run cid s =
     bindE (get_chan cid s) (\<lambda>c.
     if ch_tied c then (if alive then handleEventWithGuard run cid s else Inr s)
     else handleEventWithGuard run cid s)"

definition delete_channel :: "'a loop_state_scheme poller_op" where
  "delete_channel cid s =
     bindE (get_chan cid s) (\<lambda>c.
     bindE (assertE (\<not> ch_eventHandling c) ''!eventHandling_'') (\<lambda>_.
     Inr (s\<lparr>chans := (chans s)(cid := None)\<rparr>)))"

definition reventsToString :: "(int \<Rightarrow> string) \<Rightarrow> channel \<Rightarrow> string" where
  "reventsToString dec c =
     dec (ch_fd c) @ '': '' @
     (if ch_revents c AND POLLIN \<noteq> 0 then ''IN '' else []) @
     (if ch_revents c AND POLLPRI \<noteq> 0 then ''PRI '' else []) @
     (if ch_revents c AND POLLOUT \<noteq> 0 then ''OUT '' else []) @
     (if ch_revents c AND POLLHUP \<noteq> 0 then ''HUP '' else []) @
     (if ch_revents c AND POLLRDHUP \<noteq> 0 then ''RDHUP '' else []) @
     (if ch_revents c AND POLLERR \<noteq> 0 then ''ERR '' else []) @
     (if ch_revents c AND POLLNVAL \<noteq> 0 then ''NVAL '' else [])"

section \<open>Lemmas on the channel table\<close>

named_theorems chan_simps

lemma get_put_chan [simp]:
  "get_chan i (put_chan j c s) = (if i = j then Inr c else get_chan i s)"
  by (simp add: get_chan_def put_chan_def)

lemma get_chan_Some [chan_simps]: "chans s i = Some c \<Longrightarrow> get_chan i s = Inr c"
  by (simp add: get_chan_def)

lemma get_chan_eq_Inr [simp]: "get_chan i s = Inr c \<longleftrightarrow> chans s i = Some c"
  by (auto simp: get_chan_def split: option.splits)

lemma chans_put_chan [simp]: "chans (put_chan i c s) = (chans s)(i := Some c)"
  by (simp add: put_chan_def)

lemma put_chan_selectors [simp]:
  "inLoopThread (put_chan i c s) = inLoopThread s"
  "loopHandling (put_chan i c s) = loopHandling s"
  "currentActiveChannel (put_chan i c s) = currentActiveChannel s"
  "activeChannels (put_chan i c s) = activeChannels s"
  "loop_state.more (put_chan i c s) = loop_state.more s"
  by (simp_all add: put_chan_def)

lemma put_put_chan [simp]: "put_chan i c (put_chan i c' s) = put_chan i c s"
  by (simp add: put_chan_def)

lemma assertInLoopThread_ok [chan_simps]: "inLoopThread s \<Longrightarrow> assertInLoopThread s = Inr ()"
  by (simp add: assertInLoopThread_def)

lemma assertInLoopThread_eq_Inr [simp]: "assertInLoopThread s = Inr u \<longleftrightarrow> inLoopThread s"
  by (simp add: assertInLoopThread_def)

text \<open>
  The contract of user callbacks under which dispatching is exact: a callback does not destroy the
  channel it runs on, and leaves the channel's events returned by the poller, its callbacks and its
  handling mark alone (no member function of \<open>Channel\<close> but the poller's \<open>set_revents\<close> and the
  set-up calls changes them).
\<close>

definition dispatch_view :: "channel \<Rightarrow> 32 word \<times> bool \<times> bool \<times> bool \<times> bool \<times> bool" where
  "dispatch_view c = (ch_revents c, ch_closeCallback c, ch_errorCallback c, ch_readCallback c,
     ch_writeCallback c, ch_eventHandling c)"

lemma wants_view: "dispatch_view c = dispatch_view c' \<Longrightarrow> wants cb c = wants cb c'"
  by (cases cb) (auto simp: dispatch_view_def)

definition keeps_view :: "(callback \<Rightarrow> 'a loop_state_scheme \<Rightarrow> 'a loop_state_scheme result)
    \<Rightarrow> nat \<Rightarrow> bool" where
  "keeps_view run cid \<longleftrightarrow> (\<forall>cb s s' c. run cb s = Inr s' \<longrightarrow> chans s cid = Some c \<longrightarrow>
     (\<exists>c'. chans s' cid = Some c' \<and> dispatch_view c' = dispatch_view c))"

lemma foldE_fire:
  assumes "keeps_view run cid" and "chans s cid = Some c" and "dispatch_view c = dispatch_view d"
  shows "foldE (fire run cid) cbs s = foldE run (filter (\<lambda>cb. wants cb d) cbs) s"
  using assms(2,3)
proof (induction cbs arbitrary: s c)
  case Nil
  then show ?case by simp
next
  case (Cons cb cbs)
  have w: "wants cb c = wants cb d" using Cons.prems(2) by (rule wants_view)
  show ?case
  proof (cases "wants cb d")
    case False
    then show ?thesis using w Cons.IH [OF Cons.prems]
      by (simp add: fire_def get_chan_Some [OF Cons.prems(1)])
  next
    case True
    show ?thesis
    proof (cases "run cb s")
      case (Inl e)
      then show ?thesis using True w by (simp add: fire_def get_chan_Some [OF Cons.prems(1)])
    next
      case (Inr s')
      obtain c' where "chans s' cid = Some c'" "dispatch_view c' = dispatch_view c"
        using assms(1) Inr Cons.prems(1) unfolding keeps_view_def by blast
      with Cons.prems(2) have "foldE (fire run cid) cbs s' =
          foldE run (filter (\<lambda>cb. wants cb d) cbs) s'"
        by (intro Cons.IH [of s' c']) auto
      moreover have "fire run cid cb s = Inr s'"
        using True w Inr by (simp add: fire_def get_chan_Some [OF Cons.prems(1)])
      ultimately show ?thesis using True Inr by simp
    qed
  qed
qed

lemma keeps_view_foldE:
  assumes "keeps_view run cid" and "foldE run cbs s = Inr s'" and "chans s cid = Some c"
  shows "\<exists>c'. chans s' cid = Some c' \<and> dispatch_view c' = dispatch_view c"
  using assms(2,3)
proof (induction cbs arbitrary: s c)
  case (Cons cb cbs)
  then obtain s1 where "run cb s = Inr s1" "foldE run cbs s1 = Inr s'" by auto
  then show ?case using Cons.IH Cons.prems(2) assms(1) unfolding keeps_view_def by metis
qed simp

text \<open>The callbacks a channel is due, in the order of the source.\<close>

definition due :: "channel \<Rightarrow> callback list" where
  "due c = filter (\<lambda>cb. wants cb c) [CloseCallback, ErrorCallback, ReadCallback, WriteCallback]"

lemma due_view: "dispatch_view c = dispatch_view c' \<Longrightarrow> due c = due c'"
  using wants_view [of c c'] by (simp add: due_def)

text \<open>
  A hang-up without input calls only the close callback unless an error or write event came
  with it.
\<close>

lemma due_hangup: "ch_revents c = POLLHUP \<Longrightarrow> ch_closeCallback c \<Longrightarrow> due c = [CloseCallback]"
  by (simp add: due_def poll_flags)

text \<open>
  Dispatching is exact: for callbacks that respect the contract, \<open>Channel::handleEvent\<close> runs
  the callbacks the returned events call for, each at most once, in the order close, error, read,
  write, on a state in which the channel is marked as handling, and clears that mark afterwards. A
  channel tied to an object that is gone runs nothing.
\<close>

theorem handleEvent_dispatches:
  assumes "keeps_view run cid" and "chans s cid = Some c"
  shows "handleEvent alive run cid s =
    (if ch_tied c \<and> \<not> alive then Inr s
     else bindE (foldE run (due c) (put_chan cid (c\<lparr>ch_eventHandling := True\<rparr>) s)) (\<lambda>s'.
          Inr (put_chan cid ((the (chans s' cid))\<lparr>ch_eventHandling := False\<rparr>) s')))"
proof -
  let ?c = "c\<lparr>ch_eventHandling := True\<rparr>"
  let ?s = "put_chan cid ?c s"
  have "foldE (fire run cid) [CloseCallback, ErrorCallback, ReadCallback, WriteCallback] ?s
      = foldE run (due ?c) ?s"
    unfolding due_def by (rule foldE_fire [OF assms(1), of _ ?c]) simp_all
  moreover have "due ?c = due c"
  proof -
    have "wants cb ?c = wants cb c" for cb by (cases cb) simp_all
    then show ?thesis by (simp add: due_def)
  qed
  moreover have "bindE (get_chan cid s') (\<lambda>c'. Inr (put_chan cid (c'\<lparr>ch_eventHandling := False\<rparr>) s'))
      = Inr (put_chan cid ((the (chans s' cid))\<lparr>ch_eventHandling := False\<rparr>) s')"
    if "foldE run (due c) ?s = Inr s'" for s'
    using keeps_view_foldE [OF assms(1) that] by (auto simp: get_chan_def)
  ultimately have "handleEventWithGuard run cid s =
      bindE (foldE run (due c) ?s) (\<lambda>s'.
        Inr (put_chan cid ((the (chans s' cid))\<lparr>ch_eventHandling := False\<rparr>) s'))"
    unfolding handleEventWithGuard_def
    by (simp only: get_chan_Some [OF assms(2)] bindE_simps) (rule bindE_cong, auto)
  then show ?thesis by (simp add: handleEvent_def get_chan_Some [OF assms(2)])
qed

theorem handleEvent_dispatches_witness:
  "handleEvent True (\<lambda>cb s. Inr (s\<lparr>activeChannels := (case cb of CloseCallback \<Rightarrow> 1 | ErrorCallback \<Rightarrow> 2
        | ReadCallback \<Rightarrow> 3 | WriteCallback \<Rightarrow> 4) # activeChannels s\<rparr>)) 7
      \<lparr>chans = [7 \<mapsto> (newChannel 5)\<lparr>ch_revents := POLLIN OR POLLOUT, ch_tied := True,
         ch_readCallback := True, ch_writeCallback := True\<rparr>], inLoopThread = True,
       loopHandling = True, currentActiveChannel = Some 7, activeChannels = []\<rparr>
   = Inr \<lparr>chans = [7 \<mapsto> (newChannel 5)\<lparr>ch_revents := POLLIN OR POLLOUT, ch_tied := True,
         ch_readCallback := True, ch_writeCallback := True\<rparr>], inLoopThread = True,
       loopHandling = True, currentActiveChannel = Some 7, activeChannels = [4, 3]\<rparr>"
proof -
  have k: "keeps_view (\<lambda>cb s. Inr (s\<lparr>activeChannels := (case cb of CloseCallback \<Rightarrow> 1 | ErrorCallback \<Rightarrow> 2
        | ReadCallback \<Rightarrow> 3 | WriteCallback \<Rightarrow> 4) # activeChannels s\<rparr>)) 7"
    by (auto simp: keeps_view_def)
  show ?thesis
    by (subst handleEvent_dispatches [OF k, where c = "(newChannel 5)\<lparr>ch_revents := POLLIN OR POLLOUT,
          ch_tied := True, ch_readCallback := True, ch_writeCallback := True\<rparr>"])
       (simp_all add: due_def poll_flags newChannel_def put_chan_def)
qed

end
