(* ===== verification/EPoll_Poller.thy ===== *)
theory EPoll_Poller
  imports Channel
begin

text \<open>
  \<open>src/muduo/net/Poller.h\<close> and \<open>src/muduo/net/poller/EPollPoller.cc\<close>.

  The kernel's \<open>epoll_ctl\<close> is an argument of the operations; what the code relies on is the locale
  \<open>epoll_kernel\<close> (the interest list of epoll(7): ADD fails on a registered descriptor, MOD and DEL
  fail on an unregistered one). \<open>ep_ok\<close> relates the three values of \<open>Channel::index_\<close>, the map
  \<open>channels_\<close> and the kernel's interest list.

  The contract \<open>poller\<close> is shared with the poll(2) back end.
\<close>

section \<open>The poller interface\<close>

text \<open>What a client of a poller does: change the interest of a channel, or remove it.\<close>

datatype poller_cmd = CmdSet channel_op nat | CmdRemove nat

fun run_cmd :: "'a loop_state_scheme poller_op \<Rightarrow> 'a loop_state_scheme poller_op \<Rightarrow> poller_cmd
    \<Rightarrow> 'a loop_state_scheme \<Rightarrow> 'a loop_state_scheme result" where
  "run_cmd upd rem (CmdSet op cid) s = Channel_set upd op cid s"
| "run_cmd upd rem (CmdRemove cid) s = Channel_remove rem cid s"

locale poller =
  fixes upd rem :: "'a loop_state_scheme poller_op" and inv :: "'a loop_state_scheme \<Rightarrow> bool"
  assumes set_inv: "inv s \<Longrightarrow> Channel_set upd op cid s = Inr s' \<Longrightarrow> inv s'"
    and remove_inv: "inv s \<Longrightarrow> Channel_remove rem cid s = Inr s' \<Longrightarrow> inv s'"
begin

lemma run_cmd_inv: "inv s \<Longrightarrow> run_cmd upd rem c s = Inr s' \<Longrightarrow> inv s'"
  by (cases c) (auto intro: set_inv remove_inv)

lemma run_cmds_inv: "inv s \<Longrightarrow> foldE (run_cmd upd rem) cs s = Inr s' \<Longrightarrow> inv s'"
  by (induction cs arbitrary: s) (auto intro: run_cmd_inv)

end

section \<open>The kernel interface\<close>

datatype epoll_op = EPOLL_CTL_ADD | EPOLL_CTL_MOD | EPOLL_CTL_DEL

text \<open>\<open>struct epoll_event\<close>: a mask and \<open>data.ptr\<close>, the channel.\<close>

type_synonym epoll_event = "32 word \<times> nat"

type_synonym 'k epoll_ctl = "epoll_op \<Rightarrow> int \<Rightarrow> epoll_event \<Rightarrow> 'k \<Rightarrow> 'k \<times> int"

locale epoll_kernel =
  fixes ctl :: "'k epoll_ctl" and interest :: "'k \<Rightarrow> int \<rightharpoonup> epoll_event"
  assumes ctl_add: "interest k fd = None \<Longrightarrow> ctl EPOLL_CTL_ADD fd ev k = (k', r) \<Longrightarrow>
      r = 0 \<and> interest k' = (interest k)(fd \<mapsto> ev)"
    and ctl_mod: "interest k fd \<noteq> None \<Longrightarrow> ctl EPOLL_CTL_MOD fd ev k = (k', r) \<Longrightarrow>
      r = 0 \<and> interest k' = (interest k)(fd \<mapsto> ev)"
    and ctl_del: "interest k fd \<noteq> None \<Longrightarrow> ctl EPOLL_CTL_DEL fd ev k = (k', r) \<Longrightarrow>
      r = 0 \<and> interest k' = (interest k)(fd := None)"
    and ctl_exist: "interest k fd \<noteq> None \<Longrightarrow> ctl EPOLL_CTL_ADD fd ev k = (k', r) \<Longrightarrow> r < 0 \<and> k' = k"
    and ctl_noent: "interest k fd = None \<Longrightarrow> op \<noteq> EPOLL_CTL_ADD \<Longrightarrow> ctl op fd ev k = (k', r) \<Longrightarrow>
      r < 0 \<and> k' = k"

section \<open>The operations\<close>

definition kNew :: int where "kNew = - 1"
definition kAdded :: int where "kAdded = 1"
definition kDeleted :: int where "kDeleted = 2"

lemmas index_values = kNew_def kAdded_def kDeleted_def

definition kInitEventListSize :: nat where "kInitEventListSize = 16"

record 'k epoll_state = loop_state +
  ep_channels :: "int \<rightharpoonup> nat"
  ep_kernel :: 'k
  ep_eventsSize :: nat

definition EPoll_update :: "'k epoll_ctl \<Rightarrow> epoll_op \<Rightarrow> 'k epoll_state poller_op" where
  "EPoll_update ctl op cid s =
     bindE (get_chan cid s) (\<lambda>c.
     let (k, r) = ctl op (ch_fd c) (ch_events c, cid) (ep_kernel s) in
     if r < 0 \<and> op \<noteq> EPOLL_CTL_DEL then Inl (FatalLog ''epoll_ctl'')
     else Inr (s\<lparr>ep_kernel := k\<rparr>))"

definition EPoll_updateChannel :: "'k epoll_ctl \<Rightarrow> 'k epoll_state poller_op" where
  "EPoll_updateChannel ctl cid s =
     bindE (assertInLoopThread s) (\<lambda>_.
     bindE (get_chan cid s) (\<lambda>c.
     let index = ch_index c; fd = ch_fd c in
     if index = kNew \<or> index = kDeleted then
       bindE (if index = kNew
              then bindE (assertE (ep_channels s fd = None) ''channels_.find(fd) == channels_.end()'')
                     (\<lambda>_. Inr (s\<lparr>ep_channels := (ep_channels s)(fd \<mapsto> cid)\<rparr>))
              else bindE (assertE (ep_channels s fd = Some cid) ''channels_[fd] == channel'')
                     (\<lambda>_. Inr s)) (\<lambda>s'.
       EPoll_update ctl EPOLL_CTL_ADD cid (put_chan cid (set_index kAdded c) s'))
     else
       bindE (assertE (ep_channels s fd = Some cid) ''channels_[fd] == channel'') (\<lambda>_.
       bindE (assertE (index = kAdded) ''index == kAdded'') (\<lambda>_.
       if isNoneEvent c then
         bindE (EPoll_update ctl EPOLL_CTL_DEL cid s) (\<lambda>s'.
         Inr (put_chan cid (set_index kDeleted c) s'))
       else EPoll_update ctl EPOLL_CTL_MOD cid s))))"

definition EPoll_removeChannel :: "'k epoll_ctl \<Rightarrow> 'k epoll_state poller_op" where
  "EPoll_removeChannel ctl cid s =
     bindE (assertInLoopThread s) (\<lambda>_.
     bindE (get_chan cid s) (\<lambda>c.
     bindE (assertE (isNoneEvent c) ''channel->isNoneEvent()'') (\<lambda>_.
     let fd = ch_fd c; index = ch_index c in
     bindE (assertE (ep_channels s fd = Some cid) ''channels_[fd] == channel'') (\<lambda>_.
     bindE (assertE (index = kAdded \<or> index = kDeleted) ''index == kAdded || index == kDeleted'') (\<lambda>_.
     let s' = s\<lparr>ep_channels := (ep_channels s)(fd := None)\<rparr> in
     bindE (if index = kAdded then EPoll_update ctl EPOLL_CTL_DEL cid s' else Inr s') (\<lambda>s''.
     Inr (put_chan cid (set_index kNew c) s'')))))))"

text \<open>
  \<open>fillActiveChannels\<close> on the first \<open>numEvents\<close> entries of \<open>events_\<close>; \<open>out\<close> is the caller's
  list \<open>activeChannels\<close>.
\<close>

definition EPoll_fill1 :: "epoll_event \<Rightarrow> 'k epoll_state \<times> nat list \<Rightarrow> ('k epoll_state \<times> nat list) result"
where
  "EPoll_fill1 ev st =
     (case (ev, st) of ((m, cid), (s, out)) \<Rightarrow>
       bindE (get_chan cid s) (\<lambda>c.
       bindE (assertE (ep_channels s (ch_fd c) \<noteq> None) ''it != channels_.end()'') (\<lambda>_.
       bindE (assertE (ep_channels s (ch_fd c) = Some cid) ''it->second == channel'') (\<lambda>_.
       Inr (put_chan cid (set_revents m c) s, out @ [cid])))))"

definition EPoll_fillActiveChannels ::
  "epoll_event list \<Rightarrow> 'k epoll_state \<Rightarrow> nat list \<Rightarrow> ('k epoll_state \<times> nat list) result" where
  "EPoll_fillActiveChannels evs s out =
     bindE (assertE (length evs \<le> ep_eventsSize s) ''numEvents <= events_.size()'') (\<lambda>_.
     foldE EPoll_fill1 evs (s, out))"

text \<open>
  \<open>poll\<close>: the outcome of \<open>epoll_wait\<close> is an argument, \<open>None\<close> for a negative return value and the
  reported events otherwise.
\<close>

definition EPoll_poll ::
  "epoll_event list option \<Rightarrow> 'k epoll_state \<Rightarrow> nat list \<Rightarrow> ('k epoll_state \<times> nat list) result" where
  "EPoll_poll wait_res s out =
     (case wait_res of
        None \<Rightarrow> Inr (s, out)
      | Some evs \<Rightarrow>
          if evs = [] then Inr (s, out)
          else bindE (EPoll_fillActiveChannels evs s out) (\<lambda>(s', out').
               Inr (if length evs = ep_eventsSize s'
                    then s'\<lparr>ep_eventsSize := ep_eventsSize s' * 2\<rparr> else s', out')))"

section \<open>The invariant\<close>

fun chan_ok :: "(int \<rightharpoonup> nat) \<Rightarrow> (int \<rightharpoonup> epoll_event) \<Rightarrow> nat \<Rightarrow> channel \<Rightarrow> bool" where
  "chan_ok m i cid c \<longleftrightarrow>
     ch_index c = kNew \<and> m (ch_fd c) \<noteq> Some cid \<or>
     ch_index c = kAdded \<and> m (ch_fd c) = Some cid \<and> i (ch_fd c) = Some (ch_events c, cid) \<or>
     ch_index c = kDeleted \<and> m (ch_fd c) = Some cid \<and> i (ch_fd c) = None \<and> isNoneEvent c"

definition ep_ok :: "('k \<Rightarrow> int \<rightharpoonup> epoll_event) \<Rightarrow> 'k epoll_state \<Rightarrow> bool" where
  "ep_ok interest s \<longleftrightarrow>
     (\<forall>cid c. chans s cid = Some c \<longrightarrow> chan_ok (ep_channels s) (interest (ep_kernel s)) cid c) \<and>
     (\<forall>fd cid. ep_channels s fd = Some cid \<longrightarrow> (\<exists>c. chans s cid = Some c \<and> ch_fd c = fd)) \<and>
     (\<forall>fd. interest (ep_kernel s) fd \<noteq> None \<longrightarrow> ep_channels s fd \<noteq> None)"

lemma ep_okI:
  assumes "\<And>cid c. chans s cid = Some c \<Longrightarrow> chan_ok (ep_channels s) (interest (ep_kernel s)) cid c"
    and "\<And>fd cid. ep_channels s fd = Some cid \<Longrightarrow> \<exists>c. chans s cid = Some c \<and> ch_fd c = fd"
    and "\<And>fd. interest (ep_kernel s) fd \<noteq> None \<Longrightarrow> ep_channels s fd \<noteq> None"
  shows "ep_ok interest s"
  using assms unfolding ep_ok_def by blast

lemma ep_okD:
  assumes "ep_ok interest s"
  shows "chans s cid = Some c \<Longrightarrow> chan_ok (ep_channels s) (interest (ep_kernel s)) cid c"
    and "ep_channels s fd = Some cid \<Longrightarrow> \<exists>c. chans s cid = Some c \<and> ch_fd c = fd"
    and "interest (ep_kernel s) fd \<noteq> None \<Longrightarrow> ep_channels s fd \<noteq> None"
  using assms unfolding ep_ok_def by blast+

text \<open>A channel sits in the map under its own descriptor only.\<close>

lemma ep_channels_own:
  assumes "ep_ok interest s" and "ep_channels s fd = Some cid" and "chans s cid = Some c"
  shows "ch_fd c = fd"
  using ep_okD(2) [OF assms(1,2)] assms(3) by auto

lemma put_chan_ep [simp]:
  "ep_channels (put_chan i c s) = ep_channels s"
  "ep_kernel (put_chan i c s) = ep_kernel s"
  "ep_eventsSize (put_chan i c s) = ep_eventsSize s"
  by (simp_all add: put_chan_def)

lemma set_index_simps [simp]:
  "ch_index (set_index i c) = i" "ch_fd (set_index i c) = ch_fd c"
  "ch_events (set_index i c) = ch_events c" "isNoneEvent (set_index i c) = isNoneEvent c"
  by (simp_all add: set_index_def isNoneEvent_def)

lemma set_revents_simps [simp]:
  "ch_index (set_revents m c) = ch_index c" "ch_fd (set_revents m c) = ch_fd c"
  "ch_events (set_revents m c) = ch_events c" "isNoneEvent (set_revents m c) = isNoneEvent c"
  "ch_revents (set_revents m c) = m"
  by (simp_all add: set_revents_def isNoneEvent_def)

lemma index_distinct [simp]:
  "kNew \<noteq> kAdded" "kAdded \<noteq> kNew" "kNew \<noteq> kDeleted" "kDeleted \<noteq> kNew"
  "kAdded \<noteq> kDeleted" "kDeleted \<noteq> kAdded"
  by (simp_all add: index_values)

text \<open>
  One step of the proofs below: the entry of one channel is replaced, the map and the interest list
  change at its descriptor only.
\<close>

lemma ep_ok_point:
  assumes inv: "ep_ok interest s" and c: "chans s cid = Some c"
    and chans: "chans s' = (chans s)(cid := Some c')" and fd: "ch_fd c' = ch_fd c"
    and chs: "ep_channels s' = (ep_channels s)(ch_fd c := e)"
    and int: "interest (ep_kernel s') = (interest (ep_kernel s))(ch_fd c := w)"
    and e: "e = None \<or> e = Some cid" and own: "ep_channels s (ch_fd c) \<in> {None, Some cid}"
    and w: "w \<noteq> None \<Longrightarrow> e \<noteq> None"
    and ok: "chan_ok (ep_channels s') (interest (ep_kernel s')) cid c'"
  shows "ep_ok interest s'"
proof (rule ep_okI)
  fix i d assume d: "chans s' i = Some d"
  show "chan_ok (ep_channels s') (interest (ep_kernel s')) i d"
  proof (cases "i = cid")
    case True
    then show ?thesis using d ok chans by simp
  next
    case False
    then have di: "chans s i = Some d" using d chans by simp
    have old: "chan_ok (ep_channels s) (interest (ep_kernel s)) i d" by (rule ep_okD(1) [OF inv di])
    have "ep_channels s (ch_fd c) \<noteq> Some i" using own False by auto
    then show ?thesis using old False e by (auto simp: chs int)
  qed
next
  fix fd i assume "ep_channels s' fd = Some i"
  then show "\<exists>d. chans s' i = Some d \<and> ch_fd d = fd"
    using e ep_okD(2) [OF inv, of fd i] c chans fd chs by (auto split: if_splits)
next
  fix fd assume "interest (ep_kernel s') fd \<noteq> None"
  then show "ep_channels s' fd \<noteq> None"
    using w ep_okD(3) [OF inv, of fd] by (auto simp: chs int split: if_splits)
qed

section \<open>Correctness of the operations\<close>

text \<open>The part of the loop that the poller does not touch.\<close>

definition same_loop :: "'a loop_state_scheme \<Rightarrow> 'a loop_state_scheme \<Rightarrow> bool" where
  "same_loop s s' \<longleftrightarrow> inLoopThread s = inLoopThread s' \<and> loopHandling s = loopHandling s' \<and>
     currentActiveChannel s = currentActiveChannel s' \<and> activeChannels s = activeChannels s'"

text \<open>The index a channel has after \<open>update()\<close>.\<close>

definition next_index :: "int \<Rightarrow> bool \<Rightarrow> int" where
  "next_index index none =
     (if index = kNew \<or> index = kDeleted then kAdded else if none then kDeleted else kAdded)"

context epoll_kernel
begin

lemma EPoll_update_ok:
  assumes "chans s cid = Some c"
    and "op = EPOLL_CTL_ADD \<longleftrightarrow> interest (ep_kernel s) (ch_fd c) = None"
  shows "\<exists>k. EPoll_update ctl op cid s = Inr (s\<lparr>ep_kernel := k\<rparr>) \<and>
    interest k = (interest (ep_kernel s))
      (ch_fd c := if op = EPOLL_CTL_DEL then None else Some (ch_events c, cid))"
proof -
  obtain k r where kr: "ctl op (ch_fd c) (ch_events c, cid) (ep_kernel s) = (k, r)" by force
  have "r = 0 \<and> interest k = (interest (ep_kernel s))
      (ch_fd c := if op = EPOLL_CTL_DEL then None else Some (ch_events c, cid))"
  proof (cases op)
    case EPOLL_CTL_ADD
    then show ?thesis using ctl_add [OF _ kr [unfolded EPOLL_CTL_ADD]] assms(2) by simp
  next
    case EPOLL_CTL_MOD
    then show ?thesis using ctl_mod [OF _ kr [unfolded EPOLL_CTL_MOD]] assms(2) by simp
  next
    case EPOLL_CTL_DEL
    then show ?thesis using ctl_del [OF _ kr [unfolded EPOLL_CTL_DEL]] assms(2) by simp
  qed
  then show ?thesis using kr by (auto simp: EPoll_update_def get_chan_Some [OF assms(1)])
qed

text \<open>One change of a channel's interest is one \<open>epoll_ctl\<close> on the prepared state.\<close>

lemma Channel_set_update:
  fixes s :: "'k epoll_state" and op :: channel_op
  assumes thr: "inLoopThread s" and c: "chans s cid = Some c"
    and ch: "ch_index c = kNew \<or> ch_index c = kAdded \<or> ch_index c = kDeleted"
    and chm: "ep_channels s (ch_fd c) = (if ch_index c = kNew then None else Some cid)"
    and c'_def: "c' = c\<lparr>ch_events := op_events op (ch_events c)\<rparr>"
    and idx_def: "idx = next_index (ch_index c) (isNoneEvent c')"
    and op'_def: "op' = (if ch_index c \<noteq> kAdded then EPOLL_CTL_ADD
      else if isNoneEvent c' then EPOLL_CTL_DEL else EPOLL_CTL_MOD)"
    and d_def: "d = (if ch_index c \<noteq> kAdded then set_index kAdded c' else c')"
    and s1_def: "s1 = put_chan cid d (s\<lparr>ep_channels := (ep_channels s)(ch_fd c \<mapsto> cid)\<rparr>)"
  shows "Channel_set (EPoll_updateChannel ctl) op cid s =
      bindE (EPoll_update ctl op' cid s1) (\<lambda>s'. Inr (put_chan cid (c'\<lparr>ch_index := idx\<rparr>) s'))"
proof -
  have c's: "ch_fd c' = ch_fd c" "ch_index c' = ch_index c" by (simp_all add: c'_def)
  have step: "Channel_set (EPoll_updateChannel ctl) op cid s =
      EPoll_updateChannel ctl cid (put_chan cid c' s)"
    using thr by (simp add: Channel_set_def EventLoop_updateChannel_def get_chan_Some [OF c]
        assertInLoopThread_def c'_def)
  have same: "c'\<lparr>ch_index := kAdded\<rparr> = c'" if "ch_index c = kAdded"
    using that c's(2) by (cases c') simp
  have s1_same: "s1 = put_chan cid d s" if "ch_index c \<noteq> kNew"
    using chm that by (simp add: s1_def put_chan_def fun_upd_idem)
  show ?thesis
  proof (cases "ch_index c = kAdded")
    case True
    then show ?thesis
      using thr ch chm s1_same
      by (auto simp: same [OF True] step EPoll_updateChannel_def assertInLoopThread_def c's op'_def d_def idx_def
          next_index_def set_index_def EPoll_update_def Let_def put_chan_def get_chan_def fun_upd_idem
          split: prod.splits)
  next
    case False
    then show ?thesis
      using thr ch chm s1_same
      by (auto simp: step EPoll_updateChannel_def assertInLoopThread_def c's op'_def d_def idx_def
          next_index_def set_index_def EPoll_update_def Let_def put_chan_def get_chan_def fun_upd_idem s1_def
          split: prod.splits)
  qed
qed

text \<open>What \<open>Channel::update()\<close> needs: the descriptor of a new channel is not taken.\<close>

lemma set_ok:
  fixes s :: "'k epoll_state" and op :: channel_op
  assumes inv: "ep_ok interest s" and thr: "inLoopThread s" and c: "chans s cid = Some c"
    and free: "ch_index c = kNew \<Longrightarrow> ep_channels s (ch_fd c) = None"
  defines "c' \<equiv> c\<lparr>ch_events := op_events op (ch_events c)\<rparr>"
  defines "idx \<equiv> next_index (ch_index c) (isNoneEvent c')"
  shows "\<exists>s'. Channel_set (EPoll_updateChannel ctl) op cid s = Inr s' \<and> ep_ok interest s' \<and>
    chans s' = (chans s)(cid \<mapsto> c'\<lparr>ch_index := idx\<rparr>) \<and>
    ep_channels s' = (ep_channels s)(ch_fd c \<mapsto> cid) \<and>
    interest (ep_kernel s') = (interest (ep_kernel s))
      (ch_fd c := if idx = kAdded then Some (ch_events c', cid) else None) \<and> same_loop s' s"
proof -
  have cok: "chan_ok (ep_channels s) (interest (ep_kernel s)) cid c" by (rule ep_okD(1) [OF inv c])
  have ch: "ch_index c = kNew \<or> ch_index c = kAdded \<or> ch_index c = kDeleted" using cok by auto
  have chm: "ep_channels s (ch_fd c) = (if ch_index c = kNew then None else Some cid)"
    using cok free by auto
  have intr: "interest (ep_kernel s) (ch_fd c) = None \<longleftrightarrow> ch_index c \<noteq> kAdded"
    using cok free ep_okD(3) [OF inv, of "ch_fd c"]
    by (cases "interest (ep_kernel s) (ch_fd c)") auto
  have c's: "ch_fd c' = ch_fd c" "ch_index c' = ch_index c" by (simp_all add: c'_def)
  define op' where "op' = (if ch_index c \<noteq> kAdded then EPOLL_CTL_ADD
    else if isNoneEvent c' then EPOLL_CTL_DEL else EPOLL_CTL_MOD)"
  define d where "d = (if ch_index c \<noteq> kAdded then set_index kAdded c' else c')"
  define s1 where "s1 = put_chan cid d (s\<lparr>ep_channels := (ep_channels s)(ch_fd c \<mapsto> cid)\<rparr>)"
  have upd: "Channel_set (EPoll_updateChannel ctl) op cid s =
      bindE (EPoll_update ctl op' cid s1) (\<lambda>s'. Inr (put_chan cid (c'\<lparr>ch_index := idx\<rparr>) s'))"
    by (rule Channel_set_update [OF thr c ch chm c'_def [THEN meta_eq_to_obj_eq]
          idx_def [THEN meta_eq_to_obj_eq] op'_def d_def s1_def])
  have s1c: "chans s1 cid = Some d" by (simp add: s1_def)
  have opc: "op' = EPOLL_CTL_ADD \<longleftrightarrow> interest (ep_kernel s1) (ch_fd d) = None"
    using intr by (auto simp: op'_def s1_def d_def c's)
  from EPoll_update_ok [OF s1c opc] obtain k where k: "EPoll_update ctl op' cid s1 = Inr (s1\<lparr>ep_kernel := k\<rparr>)"
    "interest k = (interest (ep_kernel s1))
      (ch_fd d := if op' = EPOLL_CTL_DEL then None else Some (ch_events d, cid))" by blast
  let ?s' = "put_chan cid (c'\<lparr>ch_index := idx\<rparr>) (s1\<lparr>ep_kernel := k\<rparr>)"
  have del: "op' = EPOLL_CTL_DEL \<longleftrightarrow> idx \<noteq> kAdded"
    using ch by (auto simp: op'_def idx_def next_index_def)
  have int': "interest (ep_kernel ?s') = (interest (ep_kernel s))
      (ch_fd c := if idx = kAdded then Some (ch_events c', cid) else None)"
    using k(2) del by (simp add: s1_def d_def c's)
  have chs': "ep_channels ?s' = (ep_channels s)(ch_fd c \<mapsto> cid)" by (simp add: s1_def)
  have chans': "chans ?s' = (chans s)(cid \<mapsto> c'\<lparr>ch_index := idx\<rparr>)" by (simp add: s1_def)
  have "ep_ok interest ?s'"
  proof (rule ep_ok_point [OF inv c chans' _ chs' int'])
    have "idx = kAdded \<or> idx = kDeleted \<and> isNoneEvent c'"
      using ch by (auto simp: idx_def next_index_def)
    then show "chan_ok (ep_channels ?s') (interest (ep_kernel ?s')) cid (c'\<lparr>ch_index := idx\<rparr>)"
      unfolding chs' int' by (auto simp: c's isNoneEvent_def)
  qed (use chm in \<open>auto simp: c's\<close>)
  moreover have "same_loop ?s' s" by (simp add: same_loop_def s1_def)
  ultimately show ?thesis using upd k(1) int' chs' chans' by auto
qed

text \<open>Removing a channel without events that is in the map always succeeds.\<close>

lemma remove_ok:
  fixes s :: "'k epoll_state"
  assumes inv: "ep_ok interest s" and thr: "inLoopThread s" and c: "chans s cid = Some c"
    and none: "isNoneEvent c" and idx: "ch_index c \<noteq> kNew"
    and act: "loopHandling s \<Longrightarrow> currentActiveChannel s = Some cid \<or> cid \<notin> set (activeChannels s)"
  shows "\<exists>s'. Channel_remove (EPoll_removeChannel ctl) cid s = Inr s' \<and> ep_ok interest s' \<and>
    chans s' = (chans s)(cid \<mapsto> c\<lparr>ch_index := kNew\<rparr>) \<and>
    ep_channels s' = (ep_channels s)(ch_fd c := None) \<and>
    interest (ep_kernel s') = (interest (ep_kernel s))(ch_fd c := None)"
proof -
  have cok: "chan_ok (ep_channels s) (interest (ep_kernel s)) cid c" by (rule ep_okD(1) [OF inv c])
  have chm: "ep_channels s (ch_fd c) = Some cid" using cok idx by auto
  let ?s1 = "s\<lparr>ep_channels := (ep_channels s)(ch_fd c := None)\<rparr>"
  have c1: "chans ?s1 cid = Some c" using c by simp
  have rem: "Channel_remove (EPoll_removeChannel ctl) cid s =
      bindE (if ch_index c = kAdded then EPoll_update ctl EPOLL_CTL_DEL cid ?s1 else Inr ?s1)
        (\<lambda>s''. Inr (put_chan cid (set_index kNew c) s''))"
    using thr none act cok idx chm
    by (auto simp: Channel_remove_def EPoll_removeChannel_def EventLoop_removeChannel_def
        get_chan_Some [OF c] assertInLoopThread_def)
  obtain k where k: "(if ch_index c = kAdded then EPoll_update ctl EPOLL_CTL_DEL cid ?s1 else Inr ?s1)
      = Inr (?s1\<lparr>ep_kernel := k\<rparr>)"
    and ik: "interest k = (interest (ep_kernel s))(ch_fd c := None)"
  proof (cases "ch_index c = kAdded")
    case True
    then have "\<exists>k. EPoll_update ctl EPOLL_CTL_DEL cid ?s1 = Inr (?s1\<lparr>ep_kernel := k\<rparr>) \<and>
        interest k = (interest (ep_kernel ?s1))(ch_fd c := None)"
      using EPoll_update_ok [OF c1, of EPOLL_CTL_DEL] cok by auto
    then show ?thesis using True that by auto
  next
    case False
    then have "interest (ep_kernel s) (ch_fd c) = None" using cok idx by auto
    then show ?thesis using False that [of "ep_kernel s"] by (simp add: fun_upd_idem)
  qed
  let ?s' = "put_chan cid (set_index kNew c) (?s1\<lparr>ep_kernel := k\<rparr>)"
  have ch': "chans ?s' = (chans s)(cid \<mapsto> set_index kNew c)" by simp
  have "ep_ok interest ?s'"
    by (rule ep_ok_point [OF inv c ch', where e = None and w = None]) (use ik chm in auto)
  then show ?thesis using rem k ik by (simp add: set_index_def)
qed

lemma set_inv_partial:
  fixes s :: "'k epoll_state"
  assumes "ep_ok interest s" and "Channel_set (EPoll_updateChannel ctl) op cid s = Inr s'"
  shows "ep_ok interest s'"
proof -
  from assms(2) obtain c where c: "chans s cid = Some c" and thr: "inLoopThread s"
    by (auto simp: Channel_set_def EventLoop_updateChannel_def)
  have "ep_channels s (ch_fd c) = None" if "ch_index c = kNew"
    using assms(2) that thr
    by (auto simp: Channel_set_def EventLoop_updateChannel_def EPoll_updateChannel_def
        get_chan_Some [OF c] Let_def)
  from set_ok [OF assms(1) thr c this, of op] assms(2) show ?thesis by auto
qed

lemma remove_inv_partial:
  fixes s :: "'k epoll_state"
  assumes "ep_ok interest s" and "Channel_remove (EPoll_removeChannel ctl) cid s = Inr s'"
  shows "ep_ok interest s'"
proof -
  from assms(2) obtain c where c: "chans s cid = Some c" and none: "isNoneEvent c"
    by (auto simp: Channel_remove_def)
  have thr: "inLoopThread s"
    and act: "loopHandling s \<Longrightarrow> currentActiveChannel s = Some cid \<or> cid \<notin> set (activeChannels s)"
    and idx: "ch_index c \<noteq> kNew"
    using assms(2)
    by (auto simp: Channel_remove_def EventLoop_removeChannel_def EPoll_removeChannel_def
        get_chan_Some [OF c] Let_def)
  from remove_ok [OF assms(1) thr c none idx act] assms(2) show ?thesis by auto
qed

end

sublocale epoll_kernel \<subseteq> ep: poller "EPoll_updateChannel ctl" "EPoll_removeChannel ctl"
    "ep_ok interest"
  by unfold_locales (auto intro: set_inv_partial remove_inv_partial)

context epoll_kernel
begin

lemmas run_cmds_keep = ep.run_cmds_inv

end

lemma interest_chan:
  assumes inv: "ep_ok interest s" and i: "interest (ep_kernel s) fd = Some (e, cid)"
  shows "\<exists>c. chans s cid = Some c \<and> ch_fd c = fd \<and> ep_channels s fd = Some cid \<and> ch_events c = e"
proof -
  from ep_okD(3) [OF inv, of fd] i obtain j where j: "ep_channels s fd = Some j" by auto
  then obtain d where d: "chans s j = Some d" "ch_fd d = fd" using ep_okD(2) [OF inv] by blast
  have "chan_ok (ep_channels s) (interest (ep_kernel s)) j d" by (rule ep_okD(1) [OF inv d(1)])
  then show ?thesis using d i j by auto
qed

lemma ep_ok_set_revents:
  assumes "ep_ok interest s" and "chans s cid = Some c"
  shows "ep_ok interest (put_chan cid (set_revents m c) s)"
  using assms unfolding ep_ok_def
  by (auto simp: isNoneEvent_def set_revents_def) (metis option.inject)+

text \<open>The channels the kernel watches.\<close>

definition watched :: "('k \<Rightarrow> int \<rightharpoonup> epoll_event) \<Rightarrow> 'k epoll_state \<Rightarrow> nat set" where
  "watched interest s = {cid. \<exists>fd e. interest (ep_kernel s) fd = Some (e, cid)}"

lemma fill_ok:
  assumes "ep_ok interest s" and "distinct (map snd evs)" and "snd ` set evs \<subseteq> watched interest s"
  shows "\<exists>s'. foldE EPoll_fill1 evs (s, out) = Inr (s', out @ map snd evs) \<and> ep_ok interest s' \<and>
    ep_kernel s' = ep_kernel s \<and> ep_eventsSize s' = ep_eventsSize s \<and>
    (\<forall>m cid. (m, cid) \<in> set evs \<longrightarrow> (\<exists>c. chans s' cid = Some c \<and> ch_revents c = m)) \<and>
    (\<forall>cid. cid \<notin> snd ` set evs \<longrightarrow> chans s' cid = chans s cid)"
  using assms
proof (induction evs arbitrary: s out)
  case Nil
  then show ?case by simp
next
  case (Cons ev evs)
  obtain m cid where ev: "ev = (m, cid)" by force
  obtain fd e where "interest (ep_kernel s) fd = Some (e, cid)" using Cons.prems(3) ev by (auto simp: watched_def)
  then obtain c where c: "chans s cid = Some c" "ep_channels s (ch_fd c) = Some cid"
    using interest_chan [OF Cons.prems(1)] by metis
  let ?s = "put_chan cid (set_revents m c) s"
  have one: "EPoll_fill1 ev (s, out) = Inr (?s, out @ [cid])"
    using c by (simp add: EPoll_fill1_def ev get_chan_Some)
  have "\<exists>s'. foldE EPoll_fill1 evs (?s, out @ [cid]) = Inr (s', (out @ [cid]) @ map snd evs) \<and>
    ep_ok interest s' \<and> ep_kernel s' = ep_kernel ?s \<and> ep_eventsSize s' = ep_eventsSize ?s \<and>
    (\<forall>m cid. (m, cid) \<in> set evs \<longrightarrow> (\<exists>c. chans s' cid = Some c \<and> ch_revents c = m)) \<and>
    (\<forall>cid. cid \<notin> snd ` set evs \<longrightarrow> chans s' cid = chans ?s cid)"
  proof (rule Cons.IH)
    show "ep_ok interest ?s" by (rule ep_ok_set_revents [OF Cons.prems(1) c(1)])
    show "distinct (map snd evs)" using Cons.prems(2) by simp
    show "snd ` set evs \<subseteq> watched interest ?s" using Cons.prems(3) by (simp add: watched_def)
  qed
  then obtain s' where s': "foldE EPoll_fill1 evs (?s, out @ [cid]) = Inr (s', (out @ [cid]) @ map snd evs)"
    "ep_ok interest s'" "ep_kernel s' = ep_kernel ?s" "ep_eventsSize s' = ep_eventsSize ?s"
    "\<forall>m cid. (m, cid) \<in> set evs \<longrightarrow> (\<exists>c. chans s' cid = Some c \<and> ch_revents c = m)"
    "\<forall>cid. cid \<notin> snd ` set evs \<longrightarrow> chans s' cid = chans ?s cid" by blast
  have "cid \<notin> snd ` set evs" using Cons.prems(2) ev by simp
  then have "chans s' cid = Some (set_revents m c)" using s'(6) by simp
  with s' one show ?case by (intro exI [of _ s']) (auto simp: ev)
qed

section \<open>A kernel\<close>

text \<open>The interest list as a finite map: the reference behaviour of epoll(7).\<close>

fun map_epoll_ctl :: "(int \<rightharpoonup> epoll_event) epoll_ctl" where
  "map_epoll_ctl EPOLL_CTL_ADD fd ev k = (if k fd = None then (k(fd \<mapsto> ev), 0) else (k, - 1))"
| "map_epoll_ctl EPOLL_CTL_MOD fd ev k = (if k fd = None then (k, - 1) else (k(fd \<mapsto> ev), 0))"
| "map_epoll_ctl EPOLL_CTL_DEL fd ev k = (if k fd = None then (k, - 1) else (k(fd := None), 0))"

interpretation mk: epoll_kernel map_epoll_ctl "\<lambda>k. k"
proof
  fix k :: "int \<rightharpoonup> epoll_event" and fd op ev k' r
  assume "k fd = None" "op \<noteq> EPOLL_CTL_ADD" "map_epoll_ctl op fd ev k = (k', r)"
  then show "r < 0 \<and> k' = k" by (cases op) auto
qed (auto split: if_splits)

section \<open>Properties\<close>

text \<open>
  Changing the interest of a channel keeps the poller and the kernel in step: on a loop in a
  consistent state \<open>enableReading\<close>, \<open>enableWriting\<close>, \<open>disableWriting\<close> and \<open>disableAll\<close> never
  trip an assertion or the fatal log, and afterwards the descriptor is registered with exactly the
  channel's new mask, except that a registered channel whose mask became empty leaves the kernel's
  list and is marked deleted.
\<close>

theorem epoll_set_sync:
  fixes s :: "'k epoll_state"
  assumes "epoll_kernel ctl interest" and "ep_ok interest s" and "inLoopThread s"
    and "chans s cid = Some c"
    and "ch_index c = kNew \<Longrightarrow> ep_channels s (ch_fd c) = None"
  shows "let c' = c\<lparr>ch_events := op_events op (ch_events c),
      ch_index := if ch_index c = kAdded \<and> op_events op (ch_events c) = kNoneEvent
                  then kDeleted else kAdded\<rparr> in
    \<exists>s'. Channel_set (EPoll_updateChannel ctl) op cid s = Inr s' \<and> ep_ok interest s' \<and>
    chans s' = (chans s)(cid \<mapsto> c') \<and>
    interest (ep_kernel s') = (interest (ep_kernel s))(ch_fd c :=
      if ch_index c' = kDeleted then None else Some (ch_events c', cid))"
proof -
  have "ch_index c \<in> {kNew, kAdded, kDeleted}" using ep_okD(1) [OF assms(2,4)] by auto
  then show ?thesis
    using epoll_kernel.set_ok [OF assms, of op]
    by (auto simp: next_index_def isNoneEvent_def Let_def)
qed

definition demo_epoll :: "channel list \<Rightarrow> (int \<rightharpoonup> nat) \<Rightarrow> (int \<rightharpoonup> epoll_event)
    \<Rightarrow> (int \<rightharpoonup> epoll_event) epoll_state" where
  "demo_epoll cs m k = \<lparr>chans = (\<lambda>i. if i < length cs then Some (cs ! i) else None), inLoopThread = True,
     loopHandling = False, currentActiveChannel = None, activeChannels = [], ep_channels = m,
     ep_kernel = k, ep_eventsSize = kInitEventListSize\<rparr>"

lemma demo_epoll_ok:
  "ep_ok (\<lambda>k. k) (demo_epoll [(newChannel 5)\<lparr>ch_index := kAdded, ch_events := 3\<rparr>, newChannel 6]
     [5 \<mapsto> 0] [5 \<mapsto> (3, 0)])"
  by (auto simp: ep_ok_def demo_epoll_def newChannel_def kNew_def kAdded_def kDeleted_def
      less_Suc_eq split: if_splits)

theorem epoll_set_sync_witness:
  "\<exists>s'. Channel_set (EPoll_updateChannel map_epoll_ctl) EnableReading 1
     (demo_epoll [(newChannel 5)\<lparr>ch_index := kAdded, ch_events := 3\<rparr>, newChannel 6]
       [5 \<mapsto> 0] [5 \<mapsto> (3, 0)]) = Inr s' \<and> ep_kernel s' = [5 \<mapsto> (3, 0), 6 \<mapsto> (3, 1)]"
proof -
  let ?s = "demo_epoll [(newChannel 5)\<lparr>ch_index := kAdded, ch_events := 3\<rparr>, newChannel 6]
       [5 \<mapsto> 0] [5 \<mapsto> (3, 0)]"
  have "inLoopThread ?s" "chans ?s 1 = Some (newChannel 6)" "ep_channels ?s (ch_fd (newChannel 6)) = None"
    "ch_index (newChannel 6) \<noteq> kAdded" "ep_kernel ?s = [5 \<mapsto> (3, 0)]" "ch_fd (newChannel 6) = 6"
    "op_events EnableReading (ch_events (newChannel 6)) = 3"
    by (simp_all add: demo_epoll_def newChannel_def kAdded_def poll_flags)
  with epoll_set_sync [OF mk.epoll_kernel_axioms demo_epoll_ok, of 1 "newChannel 6" EnableReading]
  show ?thesis by (auto simp: Let_def)
qed

text \<open>
  Removing a channel that was disabled (and is not a later active channel of the current
  iteration) succeeds and takes it out of the poller's map and of the kernel's list; its index says
  that it is new again.
\<close>

theorem epoll_remove_sync:
  fixes s :: "'k epoll_state"
  assumes "epoll_kernel ctl interest" and "ep_ok interest s" and "inLoopThread s"
    and "chans s cid = Some c" and "isNoneEvent c" and "ch_index c \<noteq> kNew"
    and "loopHandling s \<Longrightarrow> currentActiveChannel s = Some cid \<or> cid \<notin> set (activeChannels s)"
  shows "\<exists>s'. Channel_remove (EPoll_removeChannel ctl) cid s = Inr s' \<and> ep_ok interest s' \<and>
    chans s' = (chans s)(cid \<mapsto> c\<lparr>ch_index := kNew\<rparr>) \<and>
    ep_channels s' = (ep_channels s)(ch_fd c := None) \<and>
    interest (ep_kernel s') = (interest (ep_kernel s))(ch_fd c := None)"
  using epoll_kernel.remove_ok [OF assms] .

theorem epoll_remove_sync_witness:
  "\<exists>s'. Channel_remove (EPoll_removeChannel map_epoll_ctl) 0
     (demo_epoll [(newChannel 5)\<lparr>ch_index := kAdded\<rparr>] [5 \<mapsto> 0] [5 \<mapsto> (0, 0)]) = Inr s' \<and>
     ep_kernel s' = Map.empty"
proof -
  let ?c = "(newChannel 5)\<lparr>ch_index := kAdded\<rparr>"
  let ?s = "demo_epoll [?c] [5 \<mapsto> 0] [5 \<mapsto> (0, 0)]"
  have "ep_ok (\<lambda>k. k) ?s"
    by (auto simp: ep_ok_def demo_epoll_def newChannel_def kNew_def kAdded_def kDeleted_def
        split: if_splits)
  moreover have "inLoopThread ?s" "chans ?s 0 = Some ?c" "isNoneEvent ?c" "ch_index ?c \<noteq> kNew"
    "\<not> loopHandling ?s"
    by (simp_all add: demo_epoll_def newChannel_def isNoneEvent_def kNoneEvent_def)
  moreover have "ep_kernel ?s = [5 \<mapsto> (0, 0)]" "ch_fd ?c = 5"
    by (simp_all add: demo_epoll_def newChannel_def)
  ultimately show ?thesis using epoll_remove_sync [OF mk.epoll_kernel_axioms, of ?s 0 ?c] by auto
qed

text \<open>
  C3. Every sequence of interest changes and removals that the poller accepts keeps the index of
  every channel, the map and the kernel's list consistent; so a channel marked added is watched with
  its own mask and a channel marked new or deleted is not watched at all.
\<close>

theorem epoll_sequences_consistent:
  fixes s :: "'k epoll_state"
  assumes "epoll_kernel ctl interest" and "ep_ok interest s"
    and "foldE (run_cmd (EPoll_updateChannel ctl) (EPoll_removeChannel ctl)) cmds s = Inr s'"
    and "chans s' cid = Some c"
  shows "(ch_index c = kAdded \<longrightarrow> interest (ep_kernel s') (ch_fd c) = Some (ch_events c, cid)) \<and>
    (ch_index c \<noteq> kAdded \<longrightarrow> (\<forall>fd e. interest (ep_kernel s') fd \<noteq> Some (e, cid)))"
proof -
  have inv: "ep_ok interest s'" by (rule epoll_kernel.run_cmds_keep [OF assms(1-3)])
  have cok: "chan_ok (ep_channels s') (interest (ep_kernel s')) cid c" by (rule ep_okD(1) [OF inv assms(4)])
  have "ch_index c = kAdded" if "interest (ep_kernel s') fd = Some (e, cid)" for fd e
    using interest_chan [OF inv that] cok assms(4) that by auto
  with cok show ?thesis by auto
qed

theorem epoll_sequences_consistent_witness:
  "(let cmds = [CmdSet EnableReading 0, CmdSet EnableWriting 0, CmdSet DisableAll 0, CmdRemove 0] in
    \<exists>s' c. foldE (run_cmd (EPoll_updateChannel map_epoll_ctl) (EPoll_removeChannel map_epoll_ctl)) cmds
        (demo_epoll [newChannel 5] Map.empty Map.empty) = Inr s' \<and> chans s' 0 = Some c \<and>
      (\<forall>fd e. ep_kernel s' fd \<noteq> Some (e, 0)))"
proof -
  let ?s = "demo_epoll [newChannel 5] Map.empty Map.empty"
  let ?cmds = "[CmdSet EnableReading 0, CmdSet EnableWriting 0, CmdSet DisableAll 0, CmdRemove 0]"
  have inv: "ep_ok (\<lambda>k. k) ?s"
    by (auto simp: ep_ok_def demo_epoll_def newChannel_def kNew_def split: if_splits)
  have "\<exists>s' c. foldE (run_cmd (EPoll_updateChannel map_epoll_ctl) (EPoll_removeChannel map_epoll_ctl))
      ?cmds ?s = Inr s' \<and> chans s' 0 = Some c \<and> ch_index c = kNew"
    by (simp add: demo_epoll_def newChannel_def Channel_set_def Channel_remove_def
        EventLoop_updateChannel_def EventLoop_removeChannel_def EPoll_updateChannel_def
        EPoll_removeChannel_def EPoll_update_def get_chan_def put_chan_def set_index_def
        assertInLoopThread_def isNoneEvent_def poll_flags index_values)
  then obtain s' c where run: "foldE (run_cmd (EPoll_updateChannel map_epoll_ctl)
      (EPoll_removeChannel map_epoll_ctl)) ?cmds ?s = Inr s'" and c: "chans s' 0 = Some c"
    and idx: "ch_index c = kNew" by blast
  have "\<forall>fd e. ep_kernel s' fd \<noteq> Some (e, 0)"
    using epoll_sequences_consistent [OF mk.epoll_kernel_axioms inv run c] idx by simp
  with run c show ?thesis unfolding Let_def by blast
qed

text \<open>
  C29. When the kernel reports events for registered channels only, at most once each and at most as
  many as \<open>events_\<close> holds, \<open>poll\<close> passes its assertions, appends exactly the reported channels in
  the reported order, stores each reported mask in its channel, leaves every other channel alone and
  doubles \<open>events_\<close> when it was full.
\<close>

theorem epoll_poll_exact:
  fixes s :: "'k epoll_state"
  assumes "ep_ok interest s" and "distinct (map snd evs)" and "length evs \<le> ep_eventsSize s"
    and "snd ` set evs \<subseteq> watched interest s"
  shows "\<exists>s'. EPoll_poll (Some evs) s out = Inr (s', out @ map snd evs) \<and> ep_ok interest s' \<and>
    ep_eventsSize s' = (if evs \<noteq> [] \<and> length evs = ep_eventsSize s then 2 * ep_eventsSize s
                        else ep_eventsSize s) \<and>
    (\<forall>m cid. (m, cid) \<in> set evs \<longrightarrow> (\<exists>c. chans s' cid = Some c \<and> ch_revents c = m)) \<and>
    (\<forall>cid. cid \<notin> snd ` set evs \<longrightarrow> chans s' cid = chans s cid)"
proof (cases "evs = []")
  case True
  then show ?thesis using assms(1) by (simp add: EPoll_poll_def)
next
  case False
  from fill_ok [OF assms(1,2,4), where out = out]
  obtain s' where s': "foldE EPoll_fill1 evs (s, out) = Inr (s', out @ map snd evs)" "ep_ok interest s'"
    "ep_eventsSize s' = ep_eventsSize s"
    "\<forall>m cid. (m, cid) \<in> set evs \<longrightarrow> (\<exists>c. chans s' cid = Some c \<and> ch_revents c = m)"
    "\<forall>cid. cid \<notin> snd ` set evs \<longrightarrow> chans s' cid = chans s cid" by auto
  have "ep_ok interest (s'\<lparr>ep_eventsSize := n\<rparr>)" for n
    using s'(2) by (simp add: ep_ok_def)
  then show ?thesis using s' assms(3) False
    by (simp add: EPoll_poll_def EPoll_fillActiveChannels_def)
qed

theorem epoll_poll_exact_witness:
  "\<exists>s'. EPoll_poll (Some [(POLLIN, 0)]) (demo_epoll [(newChannel 5)\<lparr>ch_index := kAdded, ch_events := 3\<rparr>,
      newChannel 6] [5 \<mapsto> 0] [5 \<mapsto> (3, 0)]) [] = Inr (s', [0]) \<and>
     (\<exists>c. chans s' 0 = Some c \<and> ch_revents c = POLLIN) \<and> chans s' 1 = Some (newChannel 6)"
proof -
  let ?s = "demo_epoll [(newChannel 5)\<lparr>ch_index := kAdded, ch_events := 3\<rparr>, newChannel 6]
      [5 \<mapsto> 0] [5 \<mapsto> (3, 0)]"
  have "length [(POLLIN, 0 :: nat)] \<le> ep_eventsSize ?s" "ep_kernel ?s 5 = Some (3, 0)"
    "chans ?s 1 = Some (newChannel 6)"
    by (simp_all add: demo_epoll_def kInitEventListSize_def)
  moreover from this(2) have "snd ` set [(POLLIN, 0)] \<subseteq> watched (\<lambda>k. k) ?s"
    by (auto simp: watched_def)
  ultimately show ?thesis
    using epoll_poll_exact [OF demo_epoll_ok, of "[(POLLIN, 0)]" "[]"] by fastforce
qed

text \<open>
  A channel that is registered in the poller's map need not be watched by the kernel: after
  \<open>enableReading\<close> and \<open>disableAll\<close> the channel is still in \<open>channels_\<close> but no longer in the
  kernel's list; and calling \<open>disableAll\<close> once more puts it back there, with an empty mask.
\<close>

theorem epoll_deleted_not_watched:
  "\<exists>s1 s2. foldE (run_cmd (EPoll_updateChannel map_epoll_ctl) (EPoll_removeChannel map_epoll_ctl))
      [CmdSet EnableReading 0, CmdSet DisableAll 0] (demo_epoll [newChannel 5] Map.empty Map.empty) = Inr s1 \<and>
    ep_channels s1 5 = Some 0 \<and> ep_kernel s1 5 = None \<and>
    run_cmd (EPoll_updateChannel map_epoll_ctl) (EPoll_removeChannel map_epoll_ctl)
      (CmdSet DisableAll 0) s1 = Inr s2 \<and> ep_kernel s2 5 = Some (0, 0)"
  by (simp add: demo_epoll_def newChannel_def Channel_set_def EventLoop_updateChannel_def
      EPoll_updateChannel_def EPoll_update_def get_chan_def put_chan_def set_index_def
      assertInLoopThread_def isNoneEvent_def poll_flags index_values)

end
