(* ===== verification/Poll_Poller.thy ===== *)
theory Poll_Poller
  imports EPoll_Poller
begin

text \<open>
  \<open>src/muduo/net/poller/PollPoller.cc\<close>: the poll(2) back end, chosen by \<open>DefaultPoller.cc\<close> when
  the environment asks for it. \<open>Channel::index_\<close> is the position of the channel's entry in
  \<open>pollfds_\<close>; an entry is ignored by the kernel by making its descriptor negative.
\<close>

section \<open>The operations\<close>

text \<open>\<open>struct pollfd\<close>; the masks are \<open>short\<close>.\<close>

record pollfd =
  pfd_fd :: int
  pfd_events :: "16 word"
  pfd_revents :: "16 word"

record poll_state = loop_state +
  pp_channels :: "int \<rightharpoonup> nat"
  pp_pollfds :: "pollfd list"

definition short_of :: "32 word \<Rightarrow> 16 word" where
  "short_of = ucast"

text \<open>\<open>short\<close> to \<open>int\<close> conversion extends the sign.\<close>

definition int_of_short :: "16 word \<Rightarrow> 32 word" where
  "int_of_short = scast"

definition Poll_updateChannel :: "poll_state poller_op" where
  "Poll_updateChannel cid s =
     bindE (assertInLoopThread s) (\<lambda>_.
     bindE (get_chan cid s) (\<lambda>c.
     if ch_index c < 0 then
       bindE (assertE (pp_channels s (ch_fd c) = None) ''channels_.find(channel->fd()) == end()'') (\<lambda>_.
       let pfds = pp_pollfds s @ [\<lparr>pfd_fd = ch_fd c, pfd_events = short_of (ch_events c), pfd_revents = 0\<rparr>] in
       Inr ((put_chan cid (set_index (int (length pfds) - 1) c) s)
         \<lparr>pp_pollfds := pfds, pp_channels := (pp_channels s)(ch_fd c \<mapsto> cid)\<rparr>))
     else
       bindE (assertE (pp_channels s (ch_fd c) = Some cid) ''channels_[channel->fd()] == channel'') (\<lambda>_.
       let idx = ch_index c in
       bindE (assertE (0 \<le> idx \<and> idx < int (length (pp_pollfds s))) ''0 <= idx && idx < size'') (\<lambda>_.
       let pfd = pp_pollfds s ! nat idx in
       bindE (assertE (pfd_fd pfd = ch_fd c \<or> pfd_fd pfd = - ch_fd c - 1) ''pfd.fd == channel->fd()'') (\<lambda>_.
       let pfd' = pfd\<lparr>pfd_events := short_of (ch_events c), pfd_revents := 0\<rparr>;
           pfd'' = (if isNoneEvent c then pfd'\<lparr>pfd_fd := - ch_fd c - 1\<rparr> else pfd') in
       Inr (s\<lparr>pp_pollfds := (pp_pollfds s)[nat idx := pfd'']\<rparr>))))))"

text \<open>
  \<open>removeChannel\<close>: the entry is swapped with the last one, whose channel gets the freed position.
  \<open>channels_[channelAtEnd]\<close> would insert a null pointer for an unknown descriptor and dereference it.
\<close>

definition Poll_removeChannel :: "poll_state poller_op" where
  "Poll_removeChannel cid s =
     bindE (assertInLoopThread s) (\<lambda>_.
     bindE (get_chan cid s) (\<lambda>c.
     bindE (assertE (pp_channels s (ch_fd c) = Some cid) ''channels_[channel->fd()] == channel'') (\<lambda>_.
     bindE (assertE (isNoneEvent c) ''channel->isNoneEvent()'') (\<lambda>_.
     let idx = ch_index c; pfds = pp_pollfds s; n = length pfds in
     bindE (assertE (0 \<le> idx \<and> idx < int n) ''0 <= idx && idx < size'') (\<lambda>_.
     let pfd = pfds ! nat idx in
     bindE (assertE (pfd_fd pfd = - ch_fd c - 1 \<and> int_of_short (pfd_events pfd) = ch_events c)
              ''pfd.fd == -channel->fd()-1'') (\<lambda>_.
     let s' = s\<lparr>pp_channels := (pp_channels s)(ch_fd c := None)\<rparr> in
     if nat idx = n - 1 then Inr (s'\<lparr>pp_pollfds := butlast pfds\<rparr>)
     else
       let atEnd = pfd_fd (last pfds);
           swapped = pfds[nat idx := last pfds, n - 1 := pfd];
           fd' = (if atEnd < 0 then - atEnd - 1 else atEnd) in
       case pp_channels s' fd' of
         None \<Rightarrow> Inl (Undefined_Behaviour ''null Channel*'')
       | Some cid' \<Rightarrow>
           bindE (get_chan cid' s') (\<lambda>c'.
           Inr ((put_chan cid' (set_index idx c') s')\<lparr>pp_pollfds := butlast swapped\<rparr>))))))))"

fun Poll_fill :: "pollfd list \<Rightarrow> nat \<Rightarrow> poll_state \<Rightarrow> nat list \<Rightarrow> (poll_state \<times> nat list) result" where
  "Poll_fill [] numEvents s out = Inr (s, out)"
| "Poll_fill (pfd # pfds) 0 s out = Inr (s, out)"
| "Poll_fill (pfd # pfds) (Suc numEvents) s out =
     (if 0 < sint (pfd_revents pfd) then
        (case pp_channels s (pfd_fd pfd) of
           None \<Rightarrow> Inl (AssertionFailed ''ch != channels_.end()'')
         | Some cid \<Rightarrow>
             bindE (get_chan cid s) (\<lambda>c.
             bindE (assertE (ch_fd c = pfd_fd pfd) ''channel->fd() == pfd->fd'') (\<lambda>_.
             Poll_fill pfds numEvents
               (put_chan cid (set_revents (int_of_short (pfd_revents pfd)) c) s) (out @ [cid]))))
      else Poll_fill pfds (Suc numEvents) s out)"

definition Poll_fillActiveChannels :: "nat \<Rightarrow> poll_state \<Rightarrow> nat list \<Rightarrow> (poll_state \<times> nat list) result"
where
  "Poll_fillActiveChannels numEvents s out = Poll_fill (pp_pollfds s) numEvents s out"

text \<open>
  \<open>poll\<close>: the kernel fills in the \<open>revents\<close> of the entries and returns a count; both are arguments.
\<close>

definition Poll_poll :: "int \<Rightarrow> 16 word list \<Rightarrow> poll_state \<Rightarrow> nat list \<Rightarrow> (poll_state \<times> nat list) result"
where
  "Poll_poll numEvents revs s out =
     (let s' = s\<lparr>pp_pollfds := map2 (\<lambda>p r. p\<lparr>pfd_revents := r\<rparr>) (pp_pollfds s) revs\<rparr> in
      if numEvents > 0 then Poll_fillActiveChannels (nat numEvents) s' out else Inr (s', out))"

text \<open>\<open>Poller::newDefaultPoller\<close>: which back end a loop gets.\<close>

datatype poller_kind = Use_PollPoller | Use_EPollPoller

definition newDefaultPoller :: "(string \<rightharpoonup> string) \<Rightarrow> poller_kind" where
  "newDefaultPoller env =
     (if env ''MUDUO_USE_POLL'' \<noteq> None then Use_PollPoller else Use_EPollPoller)"

section \<open>The invariant\<close>

text \<open>The descriptor an entry stands for, whether it is being ignored or not.\<close>

definition entry_fd :: "pollfd \<Rightarrow> int" where
  "entry_fd p = (if pfd_fd p < 0 then - pfd_fd p - 1 else pfd_fd p)"

text \<open>
  The map and the array describe the same channels: a channel in the map knows the position of its
  own entry, and every entry belongs to a channel in the map.
\<close>

definition pp_ok :: "poll_state \<Rightarrow> bool" where
  "pp_ok s \<longleftrightarrow>
     (\<forall>fd cid. pp_channels s fd = Some cid \<longrightarrow>
        (\<exists>c. chans s cid = Some c \<and> ch_fd c = fd \<and> 0 \<le> fd \<and> 0 \<le> ch_index c \<and>
           nat (ch_index c) < length (pp_pollfds s) \<and>
           entry_fd (pp_pollfds s ! nat (ch_index c)) = fd)) \<and>
     (\<forall>i < length (pp_pollfds s). \<exists>cid c. pp_channels s (entry_fd (pp_pollfds s ! i)) = Some cid \<and>
        chans s cid = Some c \<and> ch_index c = int i) \<and>
     (\<forall>cid c. chans s cid = Some c \<longrightarrow> 0 \<le> ch_fd c)"

lemma pp_okD:
  assumes "pp_ok s"
  shows "pp_channels s fd = Some cid \<Longrightarrow> \<exists>c. chans s cid = Some c \<and> ch_fd c = fd \<and> 0 \<le> fd \<and>
      0 \<le> ch_index c \<and> nat (ch_index c) < length (pp_pollfds s) \<and>
      entry_fd (pp_pollfds s ! nat (ch_index c)) = fd"
    and "i < length (pp_pollfds s) \<Longrightarrow> \<exists>cid c. pp_channels s (entry_fd (pp_pollfds s ! i)) = Some cid \<and>
      chans s cid = Some c \<and> ch_index c = int i"
    and "chans s cid = Some c \<Longrightarrow> 0 \<le> ch_fd c"
  using assms unfolding pp_ok_def by auto

lemma pp_okI:
  assumes "\<And>fd cid. pp_channels s fd = Some cid \<Longrightarrow> \<exists>c. chans s cid = Some c \<and> ch_fd c = fd \<and> 0 \<le> fd \<and>
      0 \<le> ch_index c \<and> nat (ch_index c) < length (pp_pollfds s) \<and>
      entry_fd (pp_pollfds s ! nat (ch_index c)) = fd"
    and "\<And>i. i < length (pp_pollfds s) \<Longrightarrow> \<exists>cid c. pp_channels s (entry_fd (pp_pollfds s ! i)) = Some cid \<and>
      chans s cid = Some c \<and> ch_index c = int i"
    and "\<And>cid c. chans s cid = Some c \<Longrightarrow> 0 \<le> ch_fd c"
  shows "pp_ok s"
  using assms unfolding pp_ok_def by auto

lemma put_chan_pp [simp]:
  "pp_channels (put_chan i c s) = pp_channels s" "pp_pollfds (put_chan i c s) = pp_pollfds s"
  by (simp_all add: put_chan_def)

text \<open>A change of a channel that keeps its descriptor and index keeps the invariant.\<close>

lemma pp_ok_put:
  assumes inv: "pp_ok s" and c: "chans s cid = Some c"
    and "ch_fd c' = ch_fd c" and "ch_index c' = ch_index c"
  shows "pp_ok (put_chan cid c' s)"
proof (rule pp_okI)
  fix fd i assume "pp_channels (put_chan cid c' s) fd = Some i"
  then show "\<exists>d. chans (put_chan cid c' s) i = Some d \<and> ch_fd d = fd \<and> 0 \<le> fd \<and> 0 \<le> ch_index d \<and>
      nat (ch_index d) < length (pp_pollfds (put_chan cid c' s)) \<and>
      entry_fd (pp_pollfds (put_chan cid c' s) ! nat (ch_index d)) = fd"
    using pp_okD(1) [OF inv, of fd i] assms by (cases "i = cid") auto
next
  fix i assume "i < length (pp_pollfds (put_chan cid c' s))"
  then obtain j d where "pp_channels s (entry_fd (pp_pollfds s ! i)) = Some j" "chans s j = Some d"
    "ch_index d = int i" using pp_okD(2) [OF inv, of i] by auto
  then show "\<exists>j d. pp_channels (put_chan cid c' s) (entry_fd (pp_pollfds (put_chan cid c' s) ! i)) = Some j \<and>
      chans (put_chan cid c' s) j = Some d \<and> ch_index d = int i"
    using assms by (intro exI [of _ j]) auto
next
  fix i d assume "chans (put_chan cid c' s) i = Some d"
  then show "0 \<le> ch_fd d" using pp_okD(3) [OF inv] c assms(3) by (auto split: if_splits)
qed

text \<open>Two channels of the map never share a position.\<close>

lemma pp_ok_unique:
  assumes "pp_ok s" and "pp_channels s fd = Some i" and "chans s i = Some c"
    and "pp_channels s fd' = Some j" and "chans s j = Some d" and "ch_index c = ch_index d"
  shows "fd = fd'"
  using pp_okD(1) [OF assms(1,2)] pp_okD(1) [OF assms(1,4)] assms by auto

lemma pp_ok_new:
  assumes inv: "pp_ok s" and c: "chans s cid = Some c" and idx: "ch_index c < 0"
    and free: "pp_channels s (ch_fd c) = None" and p: "entry_fd p = ch_fd c"
  shows "pp_ok ((put_chan cid (set_index (int (length (pp_pollfds s))) c) s)
    \<lparr>pp_pollfds := pp_pollfds s @ [p], pp_channels := (pp_channels s)(ch_fd c \<mapsto> cid)\<rparr>)"
    (is "pp_ok ?s'")
proof (rule pp_okI)
  fix fd i assume i: "pp_channels ?s' fd = Some i"
  show "\<exists>d. chans ?s' i = Some d \<and> ch_fd d = fd \<and> 0 \<le> fd \<and> 0 \<le> ch_index d \<and>
      nat (ch_index d) < length (pp_pollfds ?s') \<and> entry_fd (pp_pollfds ?s' ! nat (ch_index d)) = fd"
  proof (cases "fd = ch_fd c")
    case True
    then show ?thesis using i p pp_okD(3) [OF inv c] by simp
  next
    case False
    then have "pp_channels s fd = Some i" using i by simp
    then obtain d where d: "chans s i = Some d" "ch_fd d = fd" "0 \<le> fd" "0 \<le> ch_index d"
      "nat (ch_index d) < length (pp_pollfds s)" "entry_fd (pp_pollfds s ! nat (ch_index d)) = fd"
      using pp_okD(1) [OF inv] by blast
    moreover from d have "i \<noteq> cid" using c idx by auto
    ultimately show ?thesis by (auto simp: nth_append)
  qed
next
  fix i assume i: "i < length (pp_pollfds ?s')"
  show "\<exists>j d. pp_channels ?s' (entry_fd (pp_pollfds ?s' ! i)) = Some j \<and> chans ?s' j = Some d \<and>
      ch_index d = int i"
  proof (cases "i = length (pp_pollfds s)")
    case True
    then show ?thesis using p by simp
  next
    case False
    then have il: "i < length (pp_pollfds s)" using i by simp
    from pp_okD(2) [OF inv il] obtain j d where j: "pp_channels s (entry_fd (pp_pollfds s ! i)) = Some j"
      "chans s j = Some d" "ch_index d = int i" by blast
    then have "j \<noteq> cid" "entry_fd (pp_pollfds s ! i) \<noteq> ch_fd c" using c idx free by auto
    then show ?thesis using j il by (auto simp: nth_append)
  qed
next
  fix i d assume "chans ?s' i = Some d"
  then show "0 \<le> ch_fd d" using pp_okD(3) [OF inv] c by (auto split: if_splits)
qed

text \<open>Rewriting an entry that still stands for the same descriptor keeps the invariant.\<close>

lemma pp_ok_entry:
  assumes "pp_ok s" and "entry_fd p = entry_fd (pp_pollfds s ! i)"
  shows "pp_ok (s\<lparr>pp_pollfds := (pp_pollfds s)[i := p]\<rparr>)"
proof -
  have "entry_fd ((pp_pollfds s)[i := p] ! j) = entry_fd (pp_pollfds s ! j)"
    if "j < length (pp_pollfds s)" for j
    using assms(2) that by (cases "i = j") auto
  then show ?thesis using assms(1) unfolding pp_ok_def by auto metis+
qed

lemma entry_fd_neg: "0 \<le> fd \<Longrightarrow> pfd_fd p = - fd - 1 \<Longrightarrow> entry_fd p = fd"
  by (simp add: entry_fd_def)

lemma entry_fd_pos: "0 \<le> fd \<Longrightarrow> pfd_fd p = fd \<Longrightarrow> entry_fd p = fd"
  by (simp add: entry_fd_def)

lemma Poll_update_inv:
  assumes inv: "pp_ok s" and run: "Poll_updateChannel cid s = Inr s'"
  shows "pp_ok s'"
proof -
  from run obtain c where c: "chans s cid = Some c" by (auto simp: Poll_updateChannel_def)
  have fd: "0 \<le> ch_fd c" by (rule pp_okD(3) [OF inv c])
  show ?thesis
  proof (cases "ch_index c < 0")
    case True
    then have "pp_channels s (ch_fd c) = None"
      and "s' = (put_chan cid (set_index (int (length (pp_pollfds s))) c) s)
        \<lparr>pp_pollfds := pp_pollfds s @ [\<lparr>pfd_fd = ch_fd c, pfd_events = short_of (ch_events c),
          pfd_revents = 0\<rparr>], pp_channels := (pp_channels s)(ch_fd c \<mapsto> cid)\<rparr>"
      using run by (auto simp: Poll_updateChannel_def get_chan_Some [OF c] Let_def)
    then show ?thesis using pp_ok_new [OF inv c True] fd by (simp add: entry_fd_pos)
  next
    case False
    let ?pfd = "pp_pollfds s ! nat (ch_index c)"
    let ?p = "?pfd\<lparr>pfd_events := short_of (ch_events c), pfd_revents := 0\<rparr>"
    let ?p' = "if isNoneEvent c then ?p\<lparr>pfd_fd := - ch_fd c - 1\<rparr> else ?p"
    have own: "pfd_fd ?pfd = ch_fd c \<or> pfd_fd ?pfd = - ch_fd c - 1"
      and s': "s' = s\<lparr>pp_pollfds := (pp_pollfds s)[nat (ch_index c) := ?p']\<rparr>"
      using run False by (auto simp: Poll_updateChannel_def get_chan_Some [OF c] Let_def)
    have "entry_fd ?p' = entry_fd ?pfd"
      using own fd by (auto simp: entry_fd_def)
    then show ?thesis unfolding s' by (rule pp_ok_entry [OF inv])
  qed
qed

lemma Poll_set_inv:
  assumes "pp_ok s" and "Channel_set Poll_updateChannel op cid s = Inr s'"
  shows "pp_ok s'"
proof -
  from assms(2) obtain c where c: "chans s cid = Some c"
    and run: "Poll_updateChannel cid (put_chan cid (c\<lparr>ch_events := op_events op (ch_events c)\<rparr>) s) = Inr s'"
    by (auto simp: Channel_set_def EventLoop_updateChannel_def)
  show ?thesis by (rule Poll_update_inv [OF pp_ok_put [OF assms(1) c] run]) simp_all
qed

text \<open>
  Removal. The channel found under the last entry's descriptor is the one at the last position, so
  the swap and the index assignment agree.
\<close>

lemma pp_ok_pop:
  assumes inv: "pp_ok s" and c: "chans s cid = Some c" and m: "pp_channels s (ch_fd c) = Some cid"
    and len: "nat (ch_index c) = length (pp_pollfds s) - 1"
  shows "pp_ok (s\<lparr>pp_channels := (pp_channels s)(ch_fd c := None), pp_pollfds := butlast (pp_pollfds s)\<rparr>)"
    (is "pp_ok ?s'")
proof (rule pp_okI)
  fix fd i assume "pp_channels ?s' fd = Some i"
  then have fd: "pp_channels s fd = Some i" "fd \<noteq> ch_fd c" by (auto split: if_splits)
  from pp_okD(1) [OF inv this(1)] obtain d where d: "chans s i = Some d" "ch_fd d = fd" "0 \<le> fd"
    "0 \<le> ch_index d" "nat (ch_index d) < length (pp_pollfds s)"
    "entry_fd (pp_pollfds s ! nat (ch_index d)) = fd" by blast
  from pp_okD(1) [OF inv m] c have "0 \<le> ch_index c" by auto
  have "ch_index d \<noteq> ch_index c" using pp_ok_unique [OF inv fd(1) d(1) m c] fd(2) by auto
  then have "nat (ch_index d) \<noteq> nat (ch_index c)" using d(4) \<open>0 \<le> ch_index c\<close> by simp
  then have "nat (ch_index d) < length (butlast (pp_pollfds s))" using d(5) len by simp
  then show "\<exists>d. chans ?s' i = Some d \<and> ch_fd d = fd \<and> 0 \<le> fd \<and> 0 \<le> ch_index d \<and>
      nat (ch_index d) < length (pp_pollfds ?s') \<and> entry_fd (pp_pollfds ?s' ! nat (ch_index d)) = fd"
    using d by (auto simp: nth_butlast)
next
  fix i assume "i < length (pp_pollfds ?s')"
  then have i: "i < length (pp_pollfds s)" "i \<noteq> nat (ch_index c)" "i < length (butlast (pp_pollfds s))"
    using len by auto
  from pp_okD(2) [OF inv i(1)] obtain j d where j: "pp_channels s (entry_fd (pp_pollfds s ! i)) = Some j"
    "chans s j = Some d" "ch_index d = int i" by blast
  then have "entry_fd (pp_pollfds s ! i) \<noteq> ch_fd c" using m c i(2) by auto
  then show "\<exists>j d. pp_channels ?s' (entry_fd (pp_pollfds ?s' ! i)) = Some j \<and> chans ?s' j = Some d \<and>
      ch_index d = int i"
    using j i by (auto simp: nth_butlast)
qed (use pp_okD(3) [OF inv] in auto)

text \<open>Exchanging the entries of two channels of the map together with their indices.\<close>

lemma pp_ok_swap:
  assumes inv: "pp_ok s" and c: "chans s cid = Some c" and m: "pp_channels s (ch_fd c) = Some cid"
    and d: "chans s did = Some d" and md: "pp_channels s (ch_fd d) = Some did" and ne: "cid \<noteq> did"
    and i: "ch_index c = int i" and j: "ch_index d = int j"
  shows "pp_ok ((put_chan cid (set_index (int j) c) (put_chan did (set_index (int i) d) s))
    \<lparr>pp_pollfds := (pp_pollfds s)[i := pp_pollfds s ! j, j := pp_pollfds s ! i]\<rparr>)" (is "pp_ok ?s'")
proof -
  let ?p = "pp_pollfds s"
  have len: "i < length ?p" "j < length ?p" and e: "entry_fd (?p ! i) = ch_fd c" "entry_fd (?p ! j) = ch_fd d"
    using pp_okD(1) [OF inv m] pp_okD(1) [OF inv md] c d i j by auto
  have fds: "ch_fd c \<noteq> ch_fd d" using m md ne by auto
  then have ij: "i \<noteq> j" using e by auto
  show ?thesis
  proof (rule pp_okI)
    fix fd k assume "pp_channels ?s' fd = Some k"
    then have k: "pp_channels s fd = Some k" by simp
    from pp_okD(1) [OF inv k] obtain x where x: "chans s k = Some x" "ch_fd x = fd" "0 \<le> fd"
      "0 \<le> ch_index x" "nat (ch_index x) < length ?p" "entry_fd (?p ! nat (ch_index x)) = fd" by blast
    have xi: "k \<noteq> cid \<Longrightarrow> nat (ch_index x) \<noteq> i" and xj: "k \<noteq> did \<Longrightarrow> nat (ch_index x) \<noteq> j"
      using x e k m md by auto
    consider "k = cid" "fd = ch_fd c" | "k = did" "fd = ch_fd d" | "k \<noteq> cid" "k \<noteq> did"
      using x(1,2) c d by fastforce
    then show "\<exists>d. chans ?s' k = Some d \<and> ch_fd d = fd \<and> 0 \<le> fd \<and> 0 \<le> ch_index d \<and>
      nat (ch_index d) < length (pp_pollfds ?s') \<and> entry_fd (pp_pollfds ?s' ! nat (ch_index d)) = fd"
      by cases (use x xi xj ne len e ij in simp_all)
  next
    fix k assume "k < length (pp_pollfds ?s')"
    then have k: "k < length ?p" by simp
    from pp_okD(2) [OF inv k] obtain y x where x: "pp_channels s (entry_fd (?p ! k)) = Some y"
      "chans s y = Some x" "ch_index x = int k" by blast
    consider "k = i" "entry_fd (pp_pollfds ?s' ! k) = ch_fd d"
      | "k = j" "entry_fd (pp_pollfds ?s' ! k) = ch_fd c" | "k \<noteq> i" "k \<noteq> j" "y \<noteq> cid" "y \<noteq> did"
      using e ij len x c d i j by fastforce
    then show "\<exists>y x. pp_channels ?s' (entry_fd (pp_pollfds ?s' ! k)) = Some y \<and> chans ?s' y = Some x \<and>
      ch_index x = int k"
      by cases (use x m md ne in auto)
  next
    fix k x assume "chans ?s' k = Some x"
    then show "0 \<le> ch_fd x"
      using pp_okD(3) [OF inv c] pp_okD(3) [OF inv d] pp_okD(3) [OF inv, of k x]
      by (cases "k = cid"; cases "k = did") (simp_all, auto)
  qed
qed

text \<open>The index of a channel outside the map is irrelevant.\<close>

lemma pp_ok_outside:
  assumes inv: "pp_ok s" and c: "chans s cid = Some c" and "ch_fd c' = ch_fd c"
    and out: "\<And>fd. pp_channels s fd \<noteq> Some cid"
  shows "pp_ok (put_chan cid c' s)"
proof (rule pp_okI)
  fix fd i assume i: "pp_channels (put_chan cid c' s) fd = Some i"
  then have "i \<noteq> cid" using out by auto
  with pp_okD(1) [OF inv, of fd i] i
  show "\<exists>d. chans (put_chan cid c' s) i = Some d \<and> ch_fd d = fd \<and> 0 \<le> fd \<and> 0 \<le> ch_index d \<and>
      nat (ch_index d) < length (pp_pollfds (put_chan cid c' s)) \<and>
      entry_fd (pp_pollfds (put_chan cid c' s) ! nat (ch_index d)) = fd" by simp
next
  fix i assume "i < length (pp_pollfds (put_chan cid c' s))"
  then obtain j d where "pp_channels s (entry_fd (pp_pollfds s ! i)) = Some j" "chans s j = Some d"
    "ch_index d = int i" using pp_okD(2) [OF inv, of i] by auto
  then show "\<exists>j d. pp_channels (put_chan cid c' s) (entry_fd (pp_pollfds (put_chan cid c' s) ! i)) = Some j \<and>
      chans (put_chan cid c' s) j = Some d \<and> ch_index d = int i"
    using out by (intro exI [of _ j]) auto
next
  fix i d assume "chans (put_chan cid c' s) i = Some d"
  then show "0 \<le> ch_fd d" using pp_okD(3) [OF inv] c assms(3) by (auto split: if_splits)
qed

lemma pp_channels_own:
  assumes "pp_ok s" and "pp_channels s fd = Some cid" and "chans s cid = Some c"
  shows "ch_fd c = fd"
  using pp_okD(1) [OF assms(1,2)] assms(3) by auto

text \<open>
  Removal of a channel of the map whose entry is ignored and empty. It always succeeds: the map and
  the array lose exactly that channel.
\<close>

lemma Poll_remove_ok:
  assumes inv: "pp_ok s" and thr: "inLoopThread s" and c: "chans s cid = Some c"
    and m: "pp_channels s (ch_fd c) = Some cid" and none: "isNoneEvent c"
    and ign: "pfd_fd (pp_pollfds s ! nat (ch_index c)) = - ch_fd c - 1"
    and ev: "pfd_events (pp_pollfds s ! nat (ch_index c)) = 0"
  shows "\<exists>s'. Poll_removeChannel cid s = Inr s' \<and> pp_ok s' \<and>
    pp_channels s' = (pp_channels s)(ch_fd c := None) \<and>
    length (pp_pollfds s') = length (pp_pollfds s) - 1 \<and> chans s' cid = Some c"
proof -
  let ?p = "pp_pollfds s" and ?i = "nat (ch_index c)" and ?n = "length (pp_pollfds s)"
  let ?m = "(pp_channels s)(ch_fd c := None)"
  from pp_okD(1) [OF inv m] c have idx: "0 \<le> ch_index c" "?i < ?n" by auto
  have ev': "int_of_short (pfd_events (?p ! ?i)) = ch_events c"
    using ev none by (simp add: int_of_short_def isNoneEvent_def kNoneEvent_def)
  show ?thesis
  proof (cases "?i = ?n - 1")
    case True
    then have "Poll_removeChannel cid s = Inr (s\<lparr>pp_channels := ?m, pp_pollfds := butlast ?p\<rparr>)"
      using thr m none idx ign ev'
      by (simp add: Poll_removeChannel_def assertInLoopThread_def get_chan_Some [OF c] Let_def
          zless_nat_eq_int_zless)
    then show ?thesis using pp_ok_pop [OF inv c m True] c by simp
  next
    case False
    have last: "last ?p = ?p ! (?n - 1)" using idx(2) by (intro last_conv_nth) auto
    obtain did d where md: "pp_channels s (entry_fd (last ?p)) = Some did" and d: "chans s did = Some d"
      and dj: "ch_index d = int (?n - 1)" using pp_okD(2) [OF inv, of "?n - 1"] idx(2) last by fastforce
    have dfd: "ch_fd d = entry_fd (last ?p)" by (rule pp_channels_own [OF inv md d])
    have ne: "cid \<noteq> did" using c d dj False idx by auto
    have "entry_fd (last ?p) \<noteq> ch_fd c" using md m ne by auto
    let ?s1 = "put_chan did (set_index (ch_index c) d)
      (s\<lparr>pp_channels := ?m, pp_pollfds := butlast (?p[?i := last ?p, ?n - 1 := ?p ! ?i])\<rparr>)"
    have run: "Poll_removeChannel cid s = Inr ?s1"
      using c thr m none idx ign ev' False md d \<open>entry_fd (last ?p) \<noteq> ch_fd c\<close>
      by (simp add: Poll_removeChannel_def assertInLoopThread_def Let_def
          zless_nat_eq_int_zless entry_fd_def get_chan_def put_chan_def)
    have ci: "ch_index c = int ?i" using idx by simp
    have md': "pp_channels s (ch_fd d) = Some did" using md dfd by simp
    define s2 where "s2 = (put_chan cid (set_index (int (?n - 1)) c) (put_chan did (set_index (int ?i) d) s))
      \<lparr>pp_pollfds := ?p[?i := ?p ! (?n - 1), ?n - 1 := ?p ! ?i]\<rparr>"
    have s2: "pp_ok s2" unfolding s2_def by (rule pp_ok_swap [OF inv c m d md' ne ci dj])
    let ?c2 = "set_index (int (?n - 1)) c"
    let ?s3 = "s2\<lparr>pp_channels := (pp_channels s2)(ch_fd ?c2 := None), pp_pollfds := butlast (pp_pollfds s2)\<rparr>"
    have "pp_ok ?s3"
      by (rule pp_ok_pop [OF s2, of cid]) (use m idx in \<open>simp_all add: s2_def\<close>)
    then have "pp_ok (put_chan cid c ?s3)"
    proof (rule pp_ok_outside [where c = ?c2])
      show "pp_channels ?s3 fd \<noteq> Some cid" for fd
        using pp_channels_own [OF inv, of fd cid] c by (auto simp: s2_def)
    qed (simp_all add: s2_def)
    moreover have "put_chan cid c ?s3 = ?s1"
      using ci c ne last by (simp add: s2_def put_chan_def fun_upd_twist fun_upd_idem)
    ultimately show ?thesis using run c ne by simp
  qed
qed

lemma int_of_short_eq_0 [simp]: "int_of_short w = 0 \<longleftrightarrow> w = 0"
proof
  have inj: "scast (int_of_short w) = w" by (simp add: int_of_short_def scast_up_scast_id is_up)
  assume "int_of_short w = 0"
  with inj show "w = 0" by simp
qed (simp add: int_of_short_def)

lemma Poll_remove_inv:
  assumes "pp_ok s" and "Channel_remove Poll_removeChannel cid s = Inr s'"
  shows "pp_ok s'"
proof -
  from assms(2) obtain c where c: "chans s cid = Some c" and none: "isNoneEvent c"
    and run: "Poll_removeChannel cid s = Inr s'"
    by (auto simp: Channel_remove_def EventLoop_removeChannel_def)
  have "inLoopThread s" "pp_channels s (ch_fd c) = Some cid"
    "pfd_fd (pp_pollfds s ! nat (ch_index c)) = - ch_fd c - 1"
    and ev: "int_of_short (pfd_events (pp_pollfds s ! nat (ch_index c))) = 0"
    using run none
    by (auto simp: Poll_removeChannel_def get_chan_Some [OF c] Let_def isNoneEvent_def kNoneEvent_def)
  moreover have "pfd_events (pp_pollfds s ! nat (ch_index c)) = 0"
    using ev by simp
  ultimately show ?thesis using Poll_remove_ok [OF assms(1) _ c _ none] run by auto
qed

interpretation pp: poller Poll_updateChannel Poll_removeChannel pp_ok
  by unfold_locales (auto intro: Poll_set_inv Poll_remove_inv)

section \<open>Properties\<close>

text \<open>
  Every sequence of interest changes and removals that the poll(2) back end accepts keeps its
  map and its array in step, whatever the order in which channels are removed: each channel of the
  map finds its own entry at its index, and there are as many entries as channels point to.
\<close>

theorem poll_sequences_consistent:
  assumes "pp_ok s"
    and "foldE (run_cmd Poll_updateChannel Poll_removeChannel) cmds s = Inr s'"
    and "pp_channels s' fd = Some cid"
  shows "\<exists>c. chans s' cid = Some c \<and> ch_fd c = fd \<and> 0 \<le> ch_index c \<and>
    nat (ch_index c) < length (pp_pollfds s') \<and> entry_fd (pp_pollfds s' ! nat (ch_index c)) = fd \<and>
    (\<forall>fd' cid' c'. pp_channels s' fd' = Some cid' \<longrightarrow> chans s' cid' = Some c' \<longrightarrow>
       ch_index c' = ch_index c \<longrightarrow> fd' = fd)"
proof -
  have inv: "pp_ok s'" by (rule pp.run_cmds_inv [OF assms(1,2)])
  from pp_okD(1) [OF inv assms(3)] obtain c where c: "chans s' cid = Some c" "ch_fd c = fd"
    "0 \<le> ch_index c" "nat (ch_index c) < length (pp_pollfds s')"
    "entry_fd (pp_pollfds s' ! nat (ch_index c)) = fd" by blast
  have "fd' = fd" if "pp_channels s' fd' = Some cid'" "chans s' cid' = Some c'" "ch_index c' = ch_index c"
    for fd' cid' c'
    using pp_ok_unique [OF inv that(1,2) assms(3) c(1) that(3)] .
  with c show ?thesis by blast
qed

definition demo_poll :: "channel list \<Rightarrow> poll_state" where
  "demo_poll cs = \<lparr>chans = (\<lambda>i. if i < length cs then Some (cs ! i) else None), inLoopThread = True,
     loopHandling = False, currentActiveChannel = None, activeChannels = [],
     pp_channels = Map.empty, pp_pollfds = []\<rparr>"

lemmas poll_eval = demo_poll_def newChannel_def Channel_set_def Channel_remove_def
  EventLoop_updateChannel_def EventLoop_removeChannel_def Poll_updateChannel_def
  Poll_removeChannel_def get_chan_def put_chan_def set_index_def assertInLoopThread_def
  isNoneEvent_def poll_flags short_of_def int_of_short_def Let_def

theorem poll_sequences_consistent_witness:
  "(let cmds = [CmdSet EnableReading 0, CmdSet EnableReading 1, CmdSet DisableAll 0, CmdRemove 0] in
    \<exists>s' c. foldE (run_cmd Poll_updateChannel Poll_removeChannel) cmds
        (demo_poll [newChannel 5, newChannel 6]) = Inr s' \<and> chans s' 1 = Some c \<and>
      entry_fd (pp_pollfds s' ! nat (ch_index c)) = 6)"
proof -
  let ?s = "demo_poll [newChannel 5, newChannel 6]"
  let ?cmds = "[CmdSet EnableReading 0, CmdSet EnableReading 1, CmdSet DisableAll 0, CmdRemove 0]"
  have inv: "pp_ok ?s"
    by (auto simp: pp_ok_def demo_poll_def newChannel_def less_Suc_eq split: if_splits)
  have "\<exists>s'. foldE (run_cmd Poll_updateChannel Poll_removeChannel) ?cmds ?s = Inr s' \<and>
      pp_channels s' 6 = Some 1"
    by (simp add: poll_eval)
  then obtain s' where run: "foldE (run_cmd Poll_updateChannel Poll_removeChannel) ?cmds ?s = Inr s'"
    and m: "pp_channels s' 6 = Some 1" by blast
  from poll_sequences_consistent [OF inv run m] run show ?thesis unfolding Let_def by blast
qed

text \<open>
  Removing a disabled channel succeeds when its entry is an ignored one: exactly that channel
  leaves the map, the array shrinks by one and stays in step with the map.
\<close>

theorem poll_remove_sync:
  assumes "pp_ok s" and "inLoopThread s" and "chans s cid = Some c"
    and "pp_channels s (ch_fd c) = Some cid" and "isNoneEvent c"
    and "pfd_fd (pp_pollfds s ! nat (ch_index c)) = - ch_fd c - 1"
    and "pfd_events (pp_pollfds s ! nat (ch_index c)) = 0"
    and "loopHandling s \<Longrightarrow> currentActiveChannel s = Some cid \<or> cid \<notin> set (activeChannels s)"
  shows "\<exists>s'. Channel_remove Poll_removeChannel cid s = Inr s' \<and> pp_ok s' \<and>
    pp_channels s' = (pp_channels s)(ch_fd c := None) \<and>
    length (pp_pollfds s') = length (pp_pollfds s) - 1"
proof -
  have "Channel_remove Poll_removeChannel cid s = Poll_removeChannel cid s"
    using assms(2,5,8)
    by (simp add: Channel_remove_def EventLoop_removeChannel_def get_chan_Some [OF assms(3)]
        assertInLoopThread_def)
  then show ?thesis using Poll_remove_ok [OF assms(1-7)] by auto
qed

theorem poll_remove_sync_witness:
  "\<exists>s s'. foldE (run_cmd Poll_updateChannel Poll_removeChannel)
      [CmdSet EnableReading 0, CmdSet EnableReading 1, CmdSet DisableAll 0]
      (demo_poll [newChannel 5, newChannel 6]) = Inr s \<and>
    Channel_remove Poll_removeChannel 0 s = Inr s' \<and> pp_channels s' 5 = None \<and> length (pp_pollfds s') = 1"
proof -
  let ?s = "demo_poll [newChannel 5, newChannel 6]"
  let ?cmds = "[CmdSet EnableReading 0, CmdSet EnableReading 1, CmdSet DisableAll 0]"
  have inv: "pp_ok ?s"
    by (auto simp: pp_ok_def demo_poll_def newChannel_def less_Suc_eq split: if_splits)
  have "\<exists>s c. foldE (run_cmd Poll_updateChannel Poll_removeChannel) ?cmds ?s = Inr s \<and>
      chans s 0 = Some c \<and> inLoopThread s \<and> pp_channels s (ch_fd c) = Some 0 \<and> isNoneEvent c \<and>
      ch_fd c = 5 \<and> pfd_fd (pp_pollfds s ! nat (ch_index c)) = - ch_fd c - 1 \<and>
      pfd_events (pp_pollfds s ! nat (ch_index c)) = 0 \<and> \<not> loopHandling s \<and> length (pp_pollfds s) = 2"
    by (simp add: poll_eval)
  then obtain s c where run: "foldE (run_cmd Poll_updateChannel Poll_removeChannel) ?cmds ?s = Inr s"
    and s: "chans s 0 = Some c" "inLoopThread s" "pp_channels s (ch_fd c) = Some 0" "isNoneEvent c"
      "pfd_fd (pp_pollfds s ! nat (ch_index c)) = - ch_fd c - 1"
      "pfd_events (pp_pollfds s ! nat (ch_index c)) = 0" "\<not> loopHandling s"
    and v: "length (pp_pollfds s) = 2" "ch_fd c = 5" by blast
  have "pp_ok s" by (rule pp.run_cmds_inv [OF inv run])
  from poll_remove_sync [OF this s(2,1,3-6)] s(7) v run show ?thesis by fastforce
qed

text \<open>
  An entry that was disabled once stays ignored: whatever interest is set on its channel
  afterwards, the entry's descriptor stays negative, so the kernel never reports the re-enabled
  channel. (The epoll back end registers it again.)
\<close>

theorem poll_reenable_ignored:
  assumes "chans s cid = Some c" and "0 \<le> ch_fd c" and "0 \<le> ch_index c"
    and "pfd_fd (pp_pollfds s ! nat (ch_index c)) = - ch_fd c - 1"
    and "Channel_set Poll_updateChannel op cid s = Inr s'"
  shows "pfd_fd (pp_pollfds s' ! nat (ch_index c)) < 0 \<and>
    (\<exists>c'. chans s' cid = Some c' \<and> ch_events c' = op_events op (ch_events c))"
  using assms(2-5)
  by (auto simp: Channel_set_def EventLoop_updateChannel_def Poll_updateChannel_def
      get_chan_Some [OF assms(1)] Let_def nat_less_iff)

theorem poll_reenable_ignored_witness:
  "\<exists>s s'. foldE (run_cmd Poll_updateChannel Poll_removeChannel)
      [CmdSet EnableReading 0, CmdSet DisableAll 0] (demo_poll [newChannel 5]) = Inr s \<and>
    Channel_set Poll_updateChannel EnableReading 0 s = Inr s' \<and> pfd_fd (pp_pollfds s' ! 0) < 0"
proof -
  have "\<exists>s c s'. foldE (run_cmd Poll_updateChannel Poll_removeChannel)
      [CmdSet EnableReading 0, CmdSet DisableAll 0] (demo_poll [newChannel 5]) = Inr s \<and>
      chans s 0 = Some c \<and> 0 \<le> ch_fd c \<and> ch_index c = 0 \<and>
      pfd_fd (pp_pollfds s ! nat (ch_index c)) = - ch_fd c - 1 \<and>
      Channel_set Poll_updateChannel EnableReading 0 s = Inr s'"
    by (simp add: poll_eval)
  then obtain s c s' where run: "foldE (run_cmd Poll_updateChannel Poll_removeChannel)
      [CmdSet EnableReading 0, CmdSet DisableAll 0] (demo_poll [newChannel 5]) = Inr s"
    and s: "chans s 0 = Some c" "0 \<le> ch_fd c" "ch_index c = 0"
      "pfd_fd (pp_pollfds s ! nat (ch_index c)) = - ch_fd c - 1"
      "Channel_set Poll_updateChannel EnableReading 0 s = Inr s'" by blast
  from poll_reenable_ignored [OF s(1,2) _ s(4,5)] s run show ?thesis by auto
qed

text \<open>
  Disabling a channel that was never added and then removing it, as the destructor of an
  \<open>Acceptor\<close> that never listened does, aborts on the assertion of \<open>removeChannel\<close> under the
  poll(2) back end: the entry was added with a non-negative descriptor.
\<close>

theorem poll_disable_new_then_remove_aborts:
  "foldE (run_cmd Poll_updateChannel Poll_removeChannel) [CmdSet DisableAll 0, CmdRemove 0]
     (demo_poll [newChannel 5]) = Inl (AssertionFailed ''pfd.fd == -channel->fd()-1'')"
  by (simp add: poll_eval)

end
