(* ===== verification/Sockets.thy ===== *)
theory Sockets
  imports Net_Buffer Decimal
begin

text \<open>
  \<open>src/muduo/net/SocketsOps.cc\<close>, \<open>InetAddress.cc\<close> and \<open>Socket.cc\<close>: addresses and the
  wrappers around the socket system calls. The outcome of a system call is an argument: its value,
  or the \<open>errno\<close> it failed with.
\<close>

section \<open>Error numbers\<close>

datatype errno =
    EPERM | EINTR | EBADF | EAGAIN | ENOMEM | EACCES | EFAULT | EINVAL | ENFILE | EMFILE | EPIPE
  | EPROTO | ENOTSOCK | EAFNOSUPPORT | EOPNOTSUPP | EADDRINUSE | EADDRNOTAVAIL | ENETUNREACH
  | ECONNABORTED | ECONNRESET | ENOBUFS | EISCONN | ECONNREFUSED | EALREADY | EINPROGRESS | ENODEV
  | ENOENT | Eother nat

text \<open>On Linux \<open>EWOULDBLOCK\<close> is \<open>EAGAIN\<close>.\<close>

abbreviation EWOULDBLOCK :: errno where "EWOULDBLOCK \<equiv> EAGAIN"

section \<open>Addresses\<close>

record sockaddr_in =
  sin_family :: nat
  sin_port :: "16 word"
  s_addr :: "32 word"

definition AF_INET :: nat where "AF_INET = 2"

definition INET_ADDRSTRLEN :: nat where "INET_ADDRSTRLEN = 16"

definition zero_addr :: sockaddr_in where
  "zero_addr = \<lparr>sin_family = 0, sin_port = 0, s_addr = 0\<rparr>"

text \<open>
  \<open>inet_ntop\<close> and \<open>inet_pton\<close> for \<open>AF_INET\<close>: four octets in memory order, decimal, without
  leading zeros, separated by dots.
\<close>

definition octets :: "32 word \<Rightarrow> nat list" where
  "octets a = map of_char (le_bytes 4 (unat a))"

definition inet_ntop :: "32 word \<Rightarrow> string" where
  "inet_ntop a = (case map dec (octets a) of
     [p, q, r, t] \<Rightarrow> p @ ''.'' @ q @ ''.'' @ r @ ''.'' @ t | _ \<Rightarrow> [])"

definition octet_ok :: "string \<Rightarrow> bool" where
  "octet_ok s \<longleftrightarrow> s \<noteq> [] \<and> list_all is_digit s \<and> (hd s = CHR ''0'' \<longrightarrow> length s = 1) \<and>
     length s \<le> 3 \<and> undec s \<le> 255"

definition inet_pton :: "string \<Rightarrow> 32 word option" where
  "inet_pton s =
     (let ps = split_on (CHR ''.'') s in
      if length ps = 4 \<and> list_all octet_ok ps
      then Some (of_nat (le_value (map (char_of \<circ> undec) ps))) else None)"

definition sockets_toIp :: "nat \<Rightarrow> sockaddr_in \<Rightarrow> string result" where
  "sockets_toIp n addr =
     bindE (assertE (INET_ADDRSTRLEN \<le> n) ''size >= INET_ADDRSTRLEN'') (\<lambda>_.
     Inr (snprintf n (inet_ntop (s_addr addr))))"

definition sockets_toIpPort :: "nat \<Rightarrow> sockaddr_in \<Rightarrow> string result" where
  "sockets_toIpPort n addr =
     bindE (sockets_toIp INET_ADDRSTRLEN addr) (\<lambda>host.
     let port = networkToHost16 (sin_port addr) in
     Inr (snprintf n (host @ '':'' @ dec (unat port))))"

text \<open>An address that does not parse is only logged; the old \<open>sin_addr\<close> stays.\<close>

definition fromIpPort :: "string \<Rightarrow> 16 word \<Rightarrow> sockaddr_in \<Rightarrow> sockaddr_in" where
  "fromIpPort ip port addr =
     (let addr' = addr\<lparr>sin_family := AF_INET, sin_port := hostToNetwork16 port\<rparr> in
      case inet_pton ip of Some a \<Rightarrow> addr'\<lparr>s_addr := a\<rparr> | None \<Rightarrow> addr')"

definition InetAddress_any :: "16 word \<Rightarrow> sockaddr_in" where
  "InetAddress_any port = zero_addr\<lparr>sin_family := AF_INET, s_addr := hostToNetwork32 0,
     sin_port := hostToNetwork16 port\<rparr>"

definition InetAddress_ip :: "string \<Rightarrow> 16 word \<Rightarrow> sockaddr_in" where
  "InetAddress_ip ip port = fromIpPort ip port zero_addr"

definition InetAddress_toIpPort :: "sockaddr_in \<Rightarrow> string result" where
  "InetAddress_toIpPort addr = sockets_toIpPort 32 addr"

definition InetAddress_toIp :: "sockaddr_in \<Rightarrow> string result" where
  "InetAddress_toIp addr = sockets_toIp 32 addr"

section \<open>System call wrappers\<close>

definition createNonblockingOrDie :: "errno + int \<Rightarrow> int result" where
  "createNonblockingOrDie sock = (case sock of
     Inl e \<Rightarrow> Inl (FatalLog ''sockets::createNonblockingOrDie'') | Inr fd \<Rightarrow> Inr fd)"

definition bindOrDie :: "errno + unit \<Rightarrow> unit result" where
  "bindOrDie ret = (case ret of Inl e \<Rightarrow> Inl (FatalLog ''sockets::bindOrDie'') | Inr u \<Rightarrow> Inr u)"

definition listenOrDie :: "errno + unit \<Rightarrow> unit result" where
  "listenOrDie ret = (case ret of Inl e \<Rightarrow> Inl (FatalLog ''sockets::listenOrDie'') | Inr u \<Rightarrow> Inr u)"

text \<open>\<open>accept\<close>: transient errors are returned, the others end the process.\<close>

fun accept_transient :: "errno \<Rightarrow> bool" where
  "accept_transient EAGAIN = True"
| "accept_transient ECONNABORTED = True"
| "accept_transient EINTR = True"
| "accept_transient EPROTO = True"
| "accept_transient EPERM = True"
| "accept_transient EMFILE = True"
| "accept_transient _ = False"

fun accept_unexpected :: "errno \<Rightarrow> bool" where
  "accept_unexpected EBADF = True"
| "accept_unexpected EFAULT = True"
| "accept_unexpected EINVAL = True"
| "accept_unexpected ENFILE = True"
| "accept_unexpected ENOBUFS = True"
| "accept_unexpected ENOMEM = True"
| "accept_unexpected ENOTSOCK = True"
| "accept_unexpected EOPNOTSUPP = True"
| "accept_unexpected _ = False"

definition sockets_accept :: "errno + int \<Rightarrow> (errno + int) result" where
  "sockets_accept r = (case r of
     Inr connfd \<Rightarrow> Inr (Inr connfd)
   | Inl e \<Rightarrow> if accept_transient e then Inr (Inl e)
             else if accept_unexpected e then Inl (FatalLog ''unexpected error of ::accept'')
             else Inl (FatalLog ''unknown error of ::accept''))"

text \<open>\<open>Socket::accept\<close> also copies the peer's address out when it succeeds.\<close>

definition Socket_accept :: "errno + int \<Rightarrow> sockaddr_in \<Rightarrow> sockaddr_in
    \<Rightarrow> ((errno + int) \<times> sockaddr_in) result" where
  "Socket_accept r addr peeraddr =
     bindE (sockets_accept r) (\<lambda>connfd.
     Inr (connfd, case connfd of Inr _ \<Rightarrow> addr | Inl _ \<Rightarrow> peeraddr))"

definition getSocketError :: "errno + errno option \<Rightarrow> errno option" where
  "getSocketError r = (case r of Inl e \<Rightarrow> Some e | Inr optval \<Rightarrow> optval)"

definition getLocalAddr :: "errno + sockaddr_in \<Rightarrow> sockaddr_in" where
  "getLocalAddr r = (case r of Inl e \<Rightarrow> zero_addr | Inr a \<Rightarrow> a)"

definition getPeerAddr :: "errno + sockaddr_in \<Rightarrow> sockaddr_in" where
  "getPeerAddr r = (case r of Inl e \<Rightarrow> zero_addr | Inr a \<Rightarrow> a)"

definition isSelfConnect :: "errno + sockaddr_in \<Rightarrow> errno + sockaddr_in \<Rightarrow> bool" where
  "isSelfConnect sockname peername =
     (let localaddr = getLocalAddr sockname; peeraddr = getPeerAddr peername in
      sin_port localaddr = sin_port peeraddr \<and> s_addr localaddr = s_addr peeraddr)"

section \<open>Lemmas\<close>

lemma octets_bound: "n \<in> set (octets a) \<Longrightarrow> n < 256"
  by (auto simp: octets_def of_char_lt_256)

lemma length_octets [simp]: "length (octets a) = 4"
  by (simp add: octets_def)

lemma octets_four: "\<exists>p q r t. octets a = [p, q, r, t]"
  by (simp add: octets_def le_bytes_4)

lemma octet_ok_dec: "n < 256 \<Longrightarrow> octet_ok (dec n)"
proof -
  assume n: "n < 256"
  then have l: "length (dec n) \<le> 3" by (intro length_dec_le) auto
  have z: "length (dec n) = 1" if "hd (dec n) = CHR ''0''"
    using that hd_dec [of n] by (cases "n = 0") (auto simp: dec.simps)
  show ?thesis using n l z by (auto simp: octet_ok_def list_all_iff dec_digits)
qed

lemma dot_not_digit [simp]: "\<not> is_digit (CHR ''.'')" "\<not> is_digit (CHR '':'')"
  by (simp_all add: is_digit_def)

lemma split_inet_ntop: "split_on (CHR ''.'') (inet_ntop a) = map dec (octets a)"
  using octets_four [of a] by (auto simp: inet_ntop_def split_on_sep split_on_free)

lemma inet_pton_ntop: "inet_pton (inet_ntop a) = Some a"
proof -
  have "map (char_of \<circ> undec) (map dec (octets a)) = le_bytes 4 (unat a)"
    by (simp add: octets_def comp_def)
  moreover have "unat a < 256 ^ 4" using unsigned_less [where 'a = nat and w = a] by simp
  ultimately show ?thesis
    by (auto simp: inet_pton_def split_inet_ntop list_all_iff octet_ok_dec octets_bound
        le_value_le_bytes)
qed

lemma length_inet_ntop: "length (inet_ntop a) \<le> 15"
proof -
  obtain p q r t where o: "octets a = [p, q, r, t]" using octets_four by blast
  then have "length (dec n) \<le> 3" if "n \<in> {p, q, r, t}" for n
    using octets_bound [of n a] that by (intro length_dec_le) auto
  then have "length (dec p) \<le> 3" "length (dec q) \<le> 3" "length (dec r) \<le> 3" "length (dec t) \<le> 3"
    by auto
  then show ?thesis by (simp add: inet_ntop_def o)
qed

lemma toIp_exact [simp]: "16 \<le> n \<Longrightarrow> sockets_toIp n addr = Inr (inet_ntop (s_addr addr))"
  using length_inet_ntop [of "s_addr addr"]
  by (simp add: sockets_toIp_def INET_ADDRSTRLEN_def snprintf_def)

lemma length_dec_port: "length (dec (unat (p :: 16 word))) \<le> 5"
  using unsigned_less [where 'a = nat and w = p] by (intro length_dec_le) auto

lemma toIpPort_exact:
  "22 \<le> n \<Longrightarrow> sockets_toIpPort n addr =
     Inr (inet_ntop (s_addr addr) @ '':'' @ dec (unat (networkToHost16 (sin_port addr))))"
  using length_inet_ntop [of "s_addr addr"] length_dec_port [of "networkToHost16 (sin_port addr)"]
  by (simp add: sockets_toIpPort_def snprintf_def INET_ADDRSTRLEN_def)

section \<open>Properties\<close>

text \<open>
  Addresses survive printing and parsing: the address built from a printed IP and a port has that
  IP in network byte order, prints as \<open>ip:port\<close> without being cut by the 32-byte buffer, and
  prints back the same IP; building an address from a string that is no dotted quad leaves
  \<open>0.0.0.0\<close>.
\<close>

theorem inet_address_roundtrip:
  "s_addr (InetAddress_ip (inet_ntop a) port) = a
   \<and> InetAddress_toIp (InetAddress_ip (inet_ntop a) port) = Inr (inet_ntop a)
   \<and> InetAddress_toIpPort (InetAddress_ip (inet_ntop a) port) = Inr (inet_ntop a @ '':'' @ dec (unat port))
   \<and> (inet_pton s = None \<longrightarrow> s_addr (InetAddress_ip s port) = 0)"
  by (simp add: InetAddress_ip_def fromIpPort_def inet_pton_ntop InetAddress_toIp_def
      InetAddress_toIpPort_def toIpPort_exact networkToHost16_hostToNetwork16 zero_addr_def Let_def)

theorem inet_address_roundtrip_witness:
  "s_addr (InetAddress_ip ''1.2.3'' 80) = 0 \<and>
   InetAddress_toIpPort (InetAddress_ip (inet_ntop 0) 80) = Inr (inet_ntop 0 @ '':'' @ dec 80)"
proof -
  have "inet_pton ''1.2.3'' = None" by (simp add: inet_pton_def)
  then show ?thesis
    using inet_address_roundtrip [of 0 80 "''1.2.3''"] by simp
qed

end
