(* ===== verification/Tcp_Connection.thy ===== *)
theory Tcp_Connection
  imports Sockets EPoll_Poller
begin

text \<open>
  \<open>src/muduo/net/TcpConnection.h\<close> and \<open>TcpConnection.cc\<close>.

  The record \<open>tconn\<close> holds the members of the class; its buffers are the ones of \<open>Net_Buffer\<close>
  and its channel the one of \<open>Channel\<close>. Beside them it records what the connection did to its
  surroundings: the bytes the kernel took (\<open>t_sent\<close>), whether \<open>shutdown(SHUT_WR)\<close> was called
  (\<open>t_fin\<close>), the functors it queued on its loop (\<open>t_pending\<close>, first in first out), the user
  callbacks it called (\<open>t_calls\<close>), the commands it gave to the poller (\<open>t_poller\<close>), and the
  data it took charge of (\<open>t_accepted\<close>). All operations but \<open>send\<close> and \<open>shutdown\<close> run in the
  loop thread; those two take the thread as an argument.

  The kernel's \<open>write\<close> is an argument \<open>kw\<close>: its answer may depend on whether the write side is
  shut down, on the number of writes so far and on the length. User callbacks are an argument too:
  what they call on the connection, as a list of actions.
\<close>

section \<open>State\<close>

datatype conn_state = kDisconnected | kConnecting | kConnected | kDisconnecting

datatype write_result = Wrote nat | WriteErr errno

type_synonym kernel_write = "bool \<Rightarrow> nat \<Rightarrow> nat \<Rightarrow> write_result"

text \<open>
  write(2): never more than asked for; and \<open>EPIPE\<close> once the write side is shut down.
\<close>

definition write_ok :: "kernel_write \<Rightarrow> bool" where
  "write_ok kw \<longleftrightarrow> (\<forall>fin t len n. kw fin t len = Wrote n \<longrightarrow> n \<le> len) \<and>
     (\<forall>t len. 0 < len \<longrightarrow> kw True t len = WriteErr EPIPE)"

datatype conn_functor =
    SendInLoop string
  | ShutdownInLoop
  | WriteComplete
  | HighWaterMark nat

datatype user_event = CbConnection conn_state | CbMessage | CbClose

datatype user_action = USend string | UShutdown | URetrieve nat | URetrieveAll

record tconn =
  t_cid :: nat
  t_state :: conn_state
  t_channel :: channel
  t_in :: buffer
  t_out :: buffer
  t_highWaterMark :: nat
  t_writeComplete :: bool
  t_highWaterMarkCb :: bool
  t_sent :: string
  t_writes :: nat
  t_fin :: bool
  t_pending :: "conn_functor list"
  t_calls :: "user_event list"
  t_poller :: "poller_cmd list"
  t_accepted :: string

type_synonym user = "user_event \<Rightarrow> tconn \<Rightarrow> user_action list"

definition newConn :: "nat \<Rightarrow> int \<Rightarrow> bool \<Rightarrow> bool \<Rightarrow> tconn" where
  "newConn cid fd wc hwm = \<lparr>t_cid = cid, t_state = kConnecting,
     t_channel = setErrorCallback True (setCloseCallback True (setWriteCallback True
       (setReadCallback True (newChannel fd)))),
     t_in = newBuffer, t_out = newBuffer, t_highWaterMark = 64 * 1024 * 1024,
     t_writeComplete = wc, t_highWaterMarkCb = hwm, t_sent = [], t_writes = 0, t_fin = False,
     t_pending = [], t_calls = [], t_poller = [], t_accepted = []\<rparr>"

definition setHighWaterMarkCallback :: "nat \<Rightarrow> tconn \<Rightarrow> tconn" where
  "setHighWaterMarkCallback n c = c\<lparr>t_highWaterMarkCb := True, t_highWaterMark := n\<rparr>"

definition connected :: "tconn \<Rightarrow> bool" where
  "connected c \<longleftrightarrow> t_state c = kConnected"

text \<open>The channel calls of a connection: the mask changes, and the poller is told.\<close>

definition chan_set :: "channel_op \<Rightarrow> tconn \<Rightarrow> tconn" where
  "chan_set op c = c\<lparr>t_channel := (t_channel c)\<lparr>ch_events := op_events op (ch_events (t_channel c))\<rparr>,
     t_poller := t_poller c @ [CmdSet op (t_cid c)]\<rparr>"

definition chan_remove :: "tconn \<Rightarrow> tconn result" where
  "chan_remove c =
     bindE (assertE (isNoneEvent (t_channel c)) ''isNoneEvent()'') (\<lambda>_.
     Inr (c\<lparr>t_poller := t_poller c @ [CmdRemove (t_cid c)]\<rparr>))"

definition queue_functor :: "conn_functor \<Rightarrow> tconn \<Rightarrow> tconn" where
  "queue_functor f c = c\<lparr>t_pending := t_pending c @ [f]\<rparr>"

section \<open>Sending\<close>

text \<open>
  The first half of \<open>sendInLoop\<close>: when nothing is queued, try to write directly. Returns the
  number of bytes written, what remains and whether the connection is broken.
\<close>

definition direct_write :: "kernel_write \<Rightarrow> string \<Rightarrow> tconn \<Rightarrow> tconn \<times> nat \<times> nat \<times> bool" where
  "direct_write kw data c =
     (if \<not> isWriting (t_channel c) \<and> readableBytes (t_out c) = 0 then
        let c' = c\<lparr>t_writes := Suc (t_writes c)\<rparr> in
        case kw (t_fin c) (t_writes c) (length data) of
          Wrote n \<Rightarrow>
            let remaining = size_sub (length data) n;
                c'' = c'\<lparr>t_sent := t_sent c' @ take n data\<rparr> in
            (if remaining = 0 \<and> t_writeComplete c'' then queue_functor WriteComplete c'' else c'',
             n, remaining, False)
        | WriteErr e \<Rightarrow> (c', 0, length data, e \<noteq> EWOULDBLOCK \<and> e = EPIPE)
      else (c, 0, length data, False))"

definition sendInLoop :: "kernel_write \<Rightarrow> string \<Rightarrow> tconn \<Rightarrow> tconn result" where
  "sendInLoop kw data c =
     (if t_state c = kDisconnected then Inr c
      else case direct_write kw data c of (c1, nwrote, remaining, err) \<Rightarrow>
        bindE (assertE (remaining \<le> length data) ''remaining <= len'') (\<lambda>_.
        let c2 = (if err then c1 else c1\<lparr>t_accepted := t_accepted c1 @ data\<rparr>) in
        if \<not> err \<and> 0 < remaining then
          let oldLen = readableBytes (t_out c2);
              c3 = (if t_highWaterMark c2 \<le> size_add oldLen remaining \<and> oldLen < t_highWaterMark c2 \<and>
                       t_highWaterMarkCb c2
                    then queue_functor (HighWaterMark (size_add oldLen remaining)) c2 else c2) in
          bindE (appendBuf (drop nwrote data) (t_out c3)) (\<lambda>b.
          let c4 = c3\<lparr>t_out := b\<rparr> in
          Inr (if \<not> isWriting (t_channel c4) then chan_set EnableWriting c4 else c4))
        else Inr c2))"

text \<open>\<open>send(const void*, size_t)\<close> and \<open>send(const StringPiece&)\<close>.\<close>

definition send :: "kernel_write \<Rightarrow> bool \<Rightarrow> string \<Rightarrow> tconn \<Rightarrow> tconn result" where
  "send kw inLoop data c =
     (if t_state c = kConnected then
        if inLoop then sendInLoop kw data c else Inr (queue_functor (SendInLoop data) c)
      else Inr c)"

text \<open>\<open>send(Buffer*)\<close> also empties the argument.\<close>

definition send_buffer :: "kernel_write \<Rightarrow> bool \<Rightarrow> buffer \<Rightarrow> tconn \<Rightarrow> (tconn \<times> buffer) result" where
  "send_buffer kw inLoop buf c =
     (if t_state c = kConnected then
        if inLoop then
          bindE (sendInLoop kw (contents buf) c) (\<lambda>c'. Inr (c', retrieveAll buf))
        else
          bindE (retrieveAllAsString buf) (\<lambda>(s, buf').
          Inr (queue_functor (SendInLoop s) c, buf'))
      else Inr (c, buf))"

definition shutdownInLoop :: "tconn \<Rightarrow> tconn" where
  "shutdownInLoop c = (if \<not> isWriting (t_channel c) then c\<lparr>t_fin := True\<rparr> else c)"

definition shutdown :: "bool \<Rightarrow> tconn \<Rightarrow> tconn" where
  "shutdown inLoop c =
     (if t_state c = kConnected then
        let c' = c\<lparr>t_state := kDisconnecting\<rparr> in
        if inLoop then shutdownInLoop c' else queue_functor ShutdownInLoop c'
      else c)"

section \<open>Callbacks\<close>

fun run_action :: "kernel_write \<Rightarrow> user_action \<Rightarrow> tconn \<Rightarrow> tconn result" where
  "run_action kw (USend data) c = send kw True data c"
| "run_action kw UShutdown c = Inr (shutdown True c)"
| "run_action kw (URetrieve n) c = bindE (retrieve n (t_in c)) (\<lambda>b. Inr (c\<lparr>t_in := b\<rparr>))"
| "run_action kw URetrieveAll c = Inr (c\<lparr>t_in := retrieveAll (t_in c)\<rparr>)"

definition callback :: "kernel_write \<Rightarrow> user \<Rightarrow> user_event \<Rightarrow> tconn \<Rightarrow> tconn result" where
  "callback kw user ev c =
     foldE (run_action kw) (user ev c) (c\<lparr>t_calls := t_calls c @ [ev]\<rparr>)"

definition connectEstablished :: "kernel_write \<Rightarrow> user \<Rightarrow> tconn \<Rightarrow> tconn result" where
  "connectEstablished kw user c =
     bindE (assertE (t_state c = kConnecting) ''state_ == kConnecting'') (\<lambda>_.
     let c1 = c\<lparr>t_state := kConnected\<rparr>;
         c2 = c1\<lparr>t_channel := tie (t_channel c1)\<rparr>;
         c3 = chan_set EnableReading c2 in
     callback kw user (CbConnection (t_state c3)) c3)"

definition connectDestroyed :: "kernel_write \<Rightarrow> user \<Rightarrow> tconn \<Rightarrow> tconn result" where
  "connectDestroyed kw user c =
     bindE (if t_state c = kConnected then
              let c1 = chan_set DisableAll (c\<lparr>t_state := kDisconnected\<rparr>) in
              callback kw user (CbConnection (t_state c1)) c1
            else Inr c) (\<lambda>c'.
     chan_remove c')"

definition handleClose :: "kernel_write \<Rightarrow> user \<Rightarrow> tconn \<Rightarrow> tconn result" where
  "handleClose kw user c =
     bindE (assertE (t_state c = kConnected \<or> t_state c = kDisconnecting)
              ''state_ == kConnected || state_ == kDisconnecting'') (\<lambda>_.
     let c1 = chan_set DisableAll (c\<lparr>t_state := kDisconnected\<rparr>) in
     bindE (callback kw user (CbConnection (t_state c1)) c1) (\<lambda>c2.
     Inr (c2\<lparr>t_calls := t_calls c2 @ [CbClose]\<rparr>)))"

text \<open>\<open>handleError\<close> only logs the pending socket error.\<close>

definition handleError :: "tconn \<Rightarrow> tconn" where
  "handleError c = c"

definition handleRead :: "kernel_write \<Rightarrow> user \<Rightarrow> nat + string \<Rightarrow> tconn \<Rightarrow> tconn result" where
  "handleRead kw user readv c =
     bindE (readFd readv (t_in c)) (\<lambda>(n, savedErrno, b).
     let c1 = c\<lparr>t_in := b\<rparr> in
     if 0 < n then callback kw user CbMessage c1
     else if n = 0 then handleClose kw user c1
     else Inr (handleError c1))"

definition handleWrite :: "kernel_write \<Rightarrow> tconn \<Rightarrow> tconn result" where
  "handleWrite kw c =
     (if isWriting (t_channel c) then
        let c1 = c\<lparr>t_writes := Suc (t_writes c)\<rparr> in
        case kw (t_fin c) (t_writes c) (readableBytes (t_out c)) of
          Wrote n \<Rightarrow>
            if 0 < n then
              bindE (retrieve n (t_out c1)) (\<lambda>b.
              let c2 = c1\<lparr>t_out := b, t_sent := t_sent c1 @ take n (contents (t_out c1))\<rparr> in
              if readableBytes (t_out c2) = 0 then
                let c3 = chan_set DisableWriting c2;
                    c4 = (if t_writeComplete c3 then queue_functor WriteComplete c3 else c3) in
                Inr (if t_state c4 = kDisconnecting then shutdownInLoop c4 else c4)
              else Inr c2)
            else Inr c1
        | WriteErr e \<Rightarrow> Inr c1
      else Inr c)"

text \<open>The loop runs the functors a connection queued, oldest first.\<close>

fun run_functor :: "kernel_write \<Rightarrow> conn_functor \<Rightarrow> tconn \<Rightarrow> tconn result" where
  "run_functor kw (SendInLoop data) c = sendInLoop kw data c"
| "run_functor kw ShutdownInLoop c = Inr (shutdownInLoop c)"
| "run_functor kw WriteComplete c = Inr c"
| "run_functor kw (HighWaterMark n) c = Inr c"

definition doPending :: "kernel_write \<Rightarrow> tconn \<Rightarrow> tconn result" where
  "doPending kw c = (case t_pending c of
     [] \<Rightarrow> Inr c | f # fs \<Rightarrow> run_functor kw f (c\<lparr>t_pending := fs\<rparr>))"

text \<open>
  \<open>defaultMessageCallback\<close>: the callback a server or client has when the user sets none.
\<close>

definition defaultMessageCallback :: "buffer \<Rightarrow> buffer" where
  "defaultMessageCallback buf = retrieveAll buf"

section \<open>The invariant\<close>

definition str_ok :: "string \<Rightarrow> bool" where
  "str_ok s \<longleftrightarrow> length s \<le> vector_max"

fun functor_ok :: "conn_functor \<Rightarrow> bool" where
  "functor_ok (SendInLoop s) \<longleftrightarrow> str_ok s"
| "functor_ok _ \<longleftrightarrow> True"

definition reading :: "tconn \<Rightarrow> bool" where
  "reading c \<longleftrightarrow> bit (ch_events (t_channel c)) 0"

abbreviation writing :: "tconn \<Rightarrow> bool" where
  "writing c \<equiv> isWriting (t_channel c)"

abbreviation backlog :: "tconn \<Rightarrow> string" where
  "backlog c \<equiv> contents (t_out c)"

text \<open>
  In each state: what is watched, how the backlog and the write interest hang together, and that a
  requested half close is done, or still to be done by a functor or by the write handler.
\<close>

fun state_ok :: "conn_state \<Rightarrow> tconn \<Rightarrow> bool" where
  "state_ok kConnecting c \<longleftrightarrow> isNoneEvent (t_channel c) \<and> backlog c = [] \<and> \<not> t_fin c \<and> t_pending c = []"
| "state_ok kConnected c \<longleftrightarrow> reading c \<and> (writing c \<longleftrightarrow> backlog c \<noteq> []) \<and> \<not> t_fin c \<and>
     ShutdownInLoop \<notin> set (t_pending c)"
| "state_ok kDisconnecting c \<longleftrightarrow> reading c \<and> (writing c \<longleftrightarrow> backlog c \<noteq> []) \<and>
     (t_fin c \<longrightarrow> backlog c = []) \<and> (t_fin c \<or> writing c \<or> ShutdownInLoop \<in> set (t_pending c))"
| "state_ok kDisconnected c \<longleftrightarrow> isNoneEvent (t_channel c)"

text \<open>
  The commands given to the poller are a history of the channel's mask: set commands that add up to
  the present mask, the first of them with the first state change, then at most one removal, of a
  channel without events.
\<close>

definition removed :: "tconn \<Rightarrow> bool" where
  "removed c \<longleftrightarrow> CmdRemove (t_cid c) \<in> set (t_poller c)"

definition plog_ok :: "tconn \<Rightarrow> bool" where
  "plog_ok c \<longleftrightarrow> (\<exists>ops. t_poller c = map (\<lambda>op. CmdSet op (t_cid c)) ops @
       (if removed c then [CmdRemove (t_cid c)] else []) \<and>
     foldl (\<lambda>ev op. op_events op ev) 0 ops = ch_events (t_channel c) \<and>
     (ops = [] \<longleftrightarrow> t_state c = kConnecting)) \<and>
     (removed c \<longrightarrow> t_state c = kDisconnected)"

definition conn_ok :: "tconn \<Rightarrow> bool" where
  "conn_ok c \<longleftrightarrow> buf_ok (t_in c) \<and> buf_ok (t_out c) \<and> t_sent c @ backlog c = t_accepted c \<and>
     list_all functor_ok (t_pending c) \<and> plog_ok c \<and> state_ok (t_state c) c"

lemma conn_okD:
  assumes "conn_ok c"
  shows "buf_ok (t_in c)" "buf_ok (t_out c)" "t_sent c @ backlog c = t_accepted c"
    "list_all functor_ok (t_pending c)" "plog_ok c" "state_ok (t_state c) c"
  using assms by (simp_all add: conn_ok_def)

lemma conn_okI:
  assumes "buf_ok (t_in c)" "buf_ok (t_out c)" "t_sent c @ backlog c = t_accepted c"
    "list_all functor_ok (t_pending c)" "plog_ok c" "state_ok (t_state c) c"
  shows "conn_ok c"
  using assms by (simp add: conn_ok_def)

text \<open>The interest bits of a channel under the four operations.\<close>

lemma bit0_masks [simp]: "bit kReadEvent 0" "\<not> bit kWriteEvent 0" "\<not> bit kNoneEvent 0"
  by (simp_all add: poll_flags)

lemma reading_ops:
  "bit (op_events EnableReading e) 0" "bit (op_events EnableWriting e) 0 \<longleftrightarrow> bit e 0"
  "bit (op_events DisableWriting e) 0 \<longleftrightarrow> bit e 0" "\<not> bit (op_events DisableAll e) 0"
  by (simp_all add: bit_or_iff bit_and_iff bit_not_iff)

lemma chan_set_simps [simp]:
  "t_cid (chan_set op c) = t_cid c" "t_state (chan_set op c) = t_state c"
  "t_in (chan_set op c) = t_in c" "t_out (chan_set op c) = t_out c"
  "t_sent (chan_set op c) = t_sent c" "t_fin (chan_set op c) = t_fin c"
  "t_pending (chan_set op c) = t_pending c" "t_accepted (chan_set op c) = t_accepted c"
  "t_writeComplete (chan_set op c) = t_writeComplete c" "t_writes (chan_set op c) = t_writes c"
  "t_calls (chan_set op c) = t_calls c"
  "t_highWaterMarkCb (chan_set op c) = t_highWaterMarkCb c"
  "t_highWaterMark (chan_set op c) = t_highWaterMark c"
  by (simp_all add: chan_set_def)

lemma chan_set_masks [simp]:
  "reading (chan_set EnableReading c)" "reading (chan_set EnableWriting c) \<longleftrightarrow> reading c"
  "reading (chan_set DisableWriting c) \<longleftrightarrow> reading c"
  "writing (chan_set EnableReading c) \<longleftrightarrow> writing c" "writing (chan_set EnableWriting c)"
  "\<not> writing (chan_set DisableWriting c)" "isNoneEvent (t_channel (chan_set DisableAll c))"
  by (simp_all add: chan_set_def reading_def reading_ops isWriting_bit bit_or_iff kWriteEvent_bit
      bit_and_iff bit_not_iff isNoneEvent_def)
     (simp add: poll_flags)

lemma removed_chan_set [simp]: "removed (chan_set op c) \<longleftrightarrow> removed c"
  by (simp add: removed_def chan_set_def)

lemma plog_chan_set:
  assumes "plog_ok c" and "\<not> removed c" and "t_state d \<noteq> kConnecting" and "t_cid d = t_cid c"
    and "t_poller d = t_poller c" and "t_channel d = t_channel c"
  shows "plog_ok (chan_set op d)"
proof -
  from assms(1,2) obtain ops where ops: "t_poller c = map (\<lambda>op. CmdSet op (t_cid c)) ops"
    "foldl (\<lambda>ev op. op_events op ev) 0 ops = ch_events (t_channel c)" by (auto simp: plog_ok_def)
  have "\<not> removed d" using assms by (simp add: removed_def)
  then show ?thesis unfolding plog_ok_def
    using ops assms by (auto simp: chan_set_def removed_def intro!: exI [of _ "ops @ [op]"])
qed

text \<open>Changes that leave the poller log, the channel's mask and the connection phase alone.\<close>

lemma plog_cong:
  assumes "plog_ok c" and "t_cid d = t_cid c" and "t_poller d = t_poller c"
    and "ch_events (t_channel d) = ch_events (t_channel c)"
    and "t_state d = t_state c \<or> (t_state c \<noteq> kConnecting \<and> t_state d \<noteq> kConnecting \<and> \<not> removed c)"
  shows "plog_ok d"
  using assms unfolding plog_ok_def removed_def by auto

lemma reading_not_none: "reading c \<Longrightarrow> \<not> isNoneEvent (t_channel c)"
  by (auto simp: reading_def isNoneEvent_def)

lemma open_not_removed:
  assumes "conn_ok c" and "t_state c \<noteq> kDisconnected"
  shows "\<not> removed c"
  using conn_okD(5) [OF assms(1)] assms(2) by (simp add: plog_ok_def)

section \<open>Every operation keeps the invariant\<close>

abbreviation is_open :: "tconn \<Rightarrow> bool" where
  "is_open c \<equiv> t_state c = kConnected \<or> t_state c = kDisconnecting"

lemma open_state:
  assumes "conn_ok c" and "is_open c"
  shows "reading c" "writing c \<longleftrightarrow> backlog c \<noteq> []" "t_fin c \<Longrightarrow> backlog c = []"
  using conn_okD(6) [OF assms(1)] assms(2) by auto

text \<open>What the direct write does, and what it leaves alone.\<close>

lemma direct_write_spec:
  assumes kw: "write_ok kw" and inv: "conn_ok c" and op: "is_open c"
    and d: "direct_write kw data c = (c1, nwrote, remaining, err)"
  shows "nwrote \<le> length data \<and> remaining = length data - nwrote \<and> (0 < nwrote \<longrightarrow> backlog c = []) \<and>
    (err \<longrightarrow> nwrote = 0) \<and> (t_fin c \<longrightarrow> err \<or> remaining = 0) \<and>
    (\<exists>ps w. set ps \<subseteq> {WriteComplete} \<and>
      c1 = c\<lparr>t_sent := t_sent c @ take nwrote data, t_pending := t_pending c @ ps, t_writes := w\<rparr>)"
proof (cases "\<not> writing c \<and> readableBytes (t_out c) = 0")
  case False
  then have "t_fin c \<Longrightarrow> False"
    using open_state [OF inv op] readableBytes_ok [OF conn_okD(2) [OF inv]] by auto
  then show ?thesis using False d
    by (auto simp: direct_write_def intro!: exI [of _ "[]"] exI [of _ "t_writes c"])
next
  case True
  then have bl: "backlog c = []" using readableBytes_ok [OF conn_okD(2) [OF inv]] by simp
  show ?thesis
  proof (cases "kw (t_fin c) (t_writes c) (length data)")
    case (Wrote n)
    then have n: "n \<le> length data" using kw by (simp add: write_ok_def)
    have fin: "t_fin c \<Longrightarrow> data = []" using Wrote kw by (cases data) (auto simp: write_ok_def)
    show ?thesis
      using d True Wrote n bl fin
      by (auto simp: direct_write_def Let_def queue_functor_def
          intro!: exI [of _ "if length data = n \<and> t_writeComplete c then [WriteComplete] else []"]
            exI [of _ "Suc (t_writes c)"] split: if_splits)
  next
    case (WriteErr e)
    have fin: "t_fin c \<Longrightarrow> data = [] \<or> e = EPIPE" using WriteErr kw by (cases data) (auto simp: write_ok_def)
    show ?thesis
      using d True WriteErr bl fin
      by (auto simp: direct_write_def Let_def intro!: exI [of _ "[]"] exI [of _ "Suc (t_writes c)"])
  qed
qed

text \<open>Queueing unsent bytes: the backlog grows and the channel starts to watch for writability.\<close>

lemma append_backlog_ok:
  assumes inv: "conn_ok c" and op: "is_open c" and b: "buf_ok b"
    and stream: "t_sent d @ contents b = t_accepted d" and "contents b \<noteq> []" and "\<not> t_fin c"
    and d: "t_in d = t_in c" "t_state d = t_state c" "t_channel d = t_channel c" "t_fin d = t_fin c"
      "t_poller d = t_poller c" "t_cid d = t_cid c"
    and pend: "list_all functor_ok (t_pending d)"
      "ShutdownInLoop \<in> set (t_pending d) \<longleftrightarrow> ShutdownInLoop \<in> set (t_pending c)"
  shows "conn_ok (if \<not> writing (d\<lparr>t_out := b\<rparr>) then chan_set EnableWriting (d\<lparr>t_out := b\<rparr>)
    else d\<lparr>t_out := b\<rparr>)" (is "conn_ok ?d'")
proof (rule conn_okI)
  have sn: "\<not> removed c" using open_not_removed [OF inv] op by auto
  have "plog_ok (d\<lparr>t_out := b\<rparr>)" by (rule plog_cong [OF conn_okD(5) [OF inv]]) (simp_all add: d)
  moreover have "plog_ok (chan_set EnableWriting (d\<lparr>t_out := b\<rparr>))"
    by (rule plog_chan_set [OF conn_okD(5) [OF inv] sn]) (use op in \<open>auto simp: d\<close>)
  ultimately show "plog_ok ?d'" by simp
  have "reading ?d'" using open_state(1) [OF inv op] by (simp add: reading_def d chan_set_def bit_or_iff)
  moreover have "writing ?d'" by simp
  ultimately show "state_ok (t_state ?d') ?d'"
    using conn_okD(6) [OF inv] op assms(5,6) pend(2) by (auto simp: d)
qed (use conn_okD [OF inv] b stream pend in \<open>simp_all add: d\<close>)

text \<open>When the direct write took all bytes or failed, nothing is queued.\<close>

lemma sendInLoop_all_ok:
  assumes kw: "write_ok kw" and inv: "conn_ok c" and op: "is_open c"
    and d: "direct_write kw data c = (c1, nwrote, remaining, err)" and all: "err \<or> remaining = 0"
  shows "\<exists>c'. sendInLoop kw data c = Inr c' \<and> conn_ok c' \<and> t_state c' = t_state c \<and> t_fin c' = t_fin c \<and>
      set (t_pending c) \<subseteq> set (t_pending c') \<and> t_cid c' = t_cid c"
proof -
  from direct_write_spec [OF kw inv op d] obtain ps w where
    n: "nwrote \<le> length data" "remaining = length data - nwrote" "0 < nwrote \<Longrightarrow> backlog c = []"
    and e: "err \<Longrightarrow> nwrote = 0" and ps: "set ps \<subseteq> {WriteComplete}"
    and c1: "c1 = c\<lparr>t_sent := t_sent c @ take nwrote data, t_pending := t_pending c @ ps, t_writes := w\<rparr>"
    by blast
  define c2 where "c2 = (if err then c1 else c1\<lparr>t_accepted := t_accepted c1 @ data\<rparr>)"
  have psok: "list_all functor_ok ps" "ShutdownInLoop \<notin> set ps" using ps by (auto simp: list_all_iff)
  have "conn_ok c2"
  proof (rule conn_okI)
    show "plog_ok c2"
      by (rule plog_cong [OF conn_okD(5) [OF inv]]) (simp_all add: c2_def c1)
    show "t_sent c2 @ backlog c2 = t_accepted c2"
      using all e n conn_okD(3) [OF inv] by (cases "nwrote = 0") (auto simp: c2_def c1)
    show "state_ok (t_state c2) c2"
      using conn_okD(6) [OF inv] op psok by (auto simp: c2_def c1 reading_def)
  qed (use conn_okD [OF inv] psok in \<open>simp_all add: c2_def c1\<close>)
  moreover have "sendInLoop kw data c = Inr c2"
    using all op n by (auto simp: sendInLoop_def d c2_def Let_def)
  ultimately show ?thesis by (auto simp: c2_def c1)
qed

text \<open>The bytes the direct write left over go behind the backlog, or the buffer cannot grow.\<close>

lemma sendInLoop_rest_ok:
  assumes kw: "write_ok kw" and inv: "conn_ok c" and data: "str_ok data" and op: "is_open c"
    and d: "direct_write kw data c = (c1, nwrote, remaining, err)" and rest: "\<not> err" "0 < remaining"
  shows "(\<exists>c'. sendInLoop kw data c = Inr c' \<and> conn_ok c' \<and> t_state c' = t_state c \<and> t_fin c' = t_fin c \<and>
      set (t_pending c) \<subseteq> set (t_pending c') \<and> t_cid c' = t_cid c)
    \<or> sendInLoop kw data c = Inl (Cpp_Exception ''length_error'')"
proof -
  from direct_write_spec [OF kw inv op d] obtain ps w where
    n: "nwrote \<le> length data" "remaining = length data - nwrote" "0 < nwrote \<Longrightarrow> backlog c = []"
    and e: "t_fin c \<Longrightarrow> err \<or> remaining = 0" and ps: "set ps \<subseteq> {WriteComplete}"
    and c1: "c1 = c\<lparr>t_sent := t_sent c @ take nwrote data, t_pending := t_pending c @ ps, t_writes := w\<rparr>"
    by blast
  define c2 where "c2 = c1\<lparr>t_accepted := t_accepted c1 @ data\<rparr>"
  define c3 where "c3 = (if t_highWaterMark c2 \<le> size_add (readableBytes (t_out c2)) remaining \<and>
      readableBytes (t_out c2) < t_highWaterMark c2 \<and> t_highWaterMarkCb c2
    then queue_functor (HighWaterMark (size_add (readableBytes (t_out c2)) remaining)) c2 else c2)"
  have c3: "t_out c3 = t_out c" "t_in c3 = t_in c" "t_state c3 = t_state c" "t_channel c3 = t_channel c"
    "t_fin c3 = t_fin c" "t_poller c3 = t_poller c" "t_cid c3 = t_cid c"
    "t_sent c3 = t_sent c @ take nwrote data" "t_accepted c3 = t_accepted c @ data"
    by (simp_all add: c3_def c2_def c1 queue_functor_def)
  have pend: "list_all functor_ok (t_pending c3)" "set (t_pending c) \<subseteq> set (t_pending c3)"
    "ShutdownInLoop \<in> set (t_pending c3) \<longleftrightarrow> ShutdownInLoop \<in> set (t_pending c)"
    using ps conn_okD(4) [OF inv] by (auto simp: c3_def c2_def c1 queue_functor_def list_all_iff)
  have run: "sendInLoop kw data c = bindE (appendBuf (drop nwrote data) (t_out c3)) (\<lambda>b.
      let c4 = c3\<lparr>t_out := b\<rparr> in Inr (if \<not> writing c4 then chan_set EnableWriting c4 else c4))"
    using rest op n by (auto simp: sendInLoop_def d Let_def c2_def c3_def cong: if_cong)
  have "length (drop nwrote data) \<le> vector_max" using data by (simp add: str_ok_def)
  from appendBuf_cases [OF conn_okD(2) [OF inv] this] consider
    b where "appendBuf (drop nwrote data) (t_out c) = Inr b" "buf_ok b"
      "contents b = backlog c @ drop nwrote data"
    | "appendBuf (drop nwrote data) (t_out c) = Inl (Cpp_Exception ''length_error'')" by blast
  then show ?thesis
  proof cases
    case 1
    have "t_sent c3 @ contents b = t_accepted c3"
      using 1(3) n(3) conn_okD(3) [OF inv] by (cases "nwrote = 0") (auto simp: c3)
    from append_backlog_ok [OF inv op 1(2) this] show ?thesis
      using 1 rest n e c3 pend run by (auto simp: Let_def)
  qed (use run in \<open>simp add: c3\<close>)
qed

text \<open>
  \<open>sendInLoop\<close> never trips an assertion; the one error left is that of a buffer that would exceed
  what a vector can hold.
\<close>

lemma sendInLoop_ok:
  assumes kw: "write_ok kw" and inv: "conn_ok c" and data: "str_ok data" and st: "t_state c \<noteq> kConnecting"
  shows "(\<exists>c'. sendInLoop kw data c = Inr c' \<and> conn_ok c' \<and> t_state c' = t_state c \<and> t_fin c' = t_fin c \<and>
      set (t_pending c) \<subseteq> set (t_pending c') \<and> t_cid c' = t_cid c)
    \<or> sendInLoop kw data c = Inl (Cpp_Exception ''length_error'')"
proof (cases "t_state c = kDisconnected")
  case True
  then show ?thesis using inv by (simp add: sendInLoop_def)
next
  case False
  then have op: "is_open c" using st by (cases "t_state c") auto
  obtain c1 nwrote remaining err where d: "direct_write kw data c = (c1, nwrote, remaining, err)"
    by (cases "direct_write kw data c") auto
  show ?thesis
    using sendInLoop_all_ok [OF kw inv op d] sendInLoop_rest_ok [OF kw inv data op d] by blast
qed

text \<open>
  The outcome of an operation that is allowed to run user code: an error, or a state in which the
  invariant holds, whose connection is the same and no earlier in its life, and in which an agreed
  half close is not forgotten.
\<close>

fun life :: "conn_state \<Rightarrow> nat" where
  "life kConnecting = 0" | "life kConnected = 1" | "life kDisconnecting = 2" | "life kDisconnected = 3"

definition advances :: "tconn \<Rightarrow> tconn \<Rightarrow> bool" where
  "advances c c' \<longleftrightarrow> conn_ok c' \<and> t_cid c' = t_cid c \<and> life (t_state c) \<le> life (t_state c')"

definition keeps :: "tconn \<Rightarrow> tconn result \<Rightarrow> bool" where
  "keeps c r \<longleftrightarrow> (\<forall>c'. r = Inr c' \<longrightarrow> advances c c')"

lemma keepsI: "(\<And>c'. r = Inr c' \<Longrightarrow> advances c c') \<Longrightarrow> keeps c r"
  by (simp add: keeps_def)

lemma keeps_Inr [simp]: "keeps c (Inr c') \<longleftrightarrow> advances c c'"
  by (simp add: keeps_def)

lemma keeps_Inl [simp]: "keeps c (Inl e)"
  by (simp add: keeps_def)

lemma advances_refl [simp]: "conn_ok c \<Longrightarrow> advances c c"
  by (simp add: advances_def)

lemma advances_trans: "advances a b \<Longrightarrow> advances b c \<Longrightarrow> advances a c"
  by (auto simp: advances_def)

lemma advances_ok: "advances a b \<Longrightarrow> conn_ok b"
  by (simp add: advances_def)

lemma keeps_bindE:
  assumes "keeps a m" and "\<And>b. m = Inr b \<Longrightarrow> advances a b \<Longrightarrow> keeps b (f b)"
  shows "keeps a (bindE m f)"
  using assms by (cases m) (auto simp: keeps_def intro: advances_trans)

lemma sendInLoop_keeps:
  assumes "write_ok kw" and "conn_ok c" and "str_ok data" and "t_state c \<noteq> kConnecting"
  shows "keeps c (sendInLoop kw data c)"
  using sendInLoop_ok [OF assms] by (auto simp: keeps_def advances_def)

lemma shutdownInLoop_ok:
  assumes "conn_ok c" and "t_state c = kDisconnecting \<or> t_state c = kDisconnected"
  shows "advances c (shutdownInLoop c)"
proof -
  have "plog_ok (c\<lparr>t_fin := True\<rparr>)" by (rule plog_cong [OF conn_okD(5) [OF assms(1)]]) simp_all
  then have "conn_ok (c\<lparr>t_fin := True\<rparr>)" if "\<not> writing c"
    using assms that by (auto simp: conn_ok_def reading_def)
  then show ?thesis using assms(1) by (auto simp: shutdownInLoop_def advances_def)
qed

text \<open>Queueing a functor that is not a half close changes nothing else.\<close>

lemma queue_ok:
  assumes "conn_ok c" and "functor_ok f" and "f \<noteq> ShutdownInLoop" and "t_state c \<noteq> kConnecting"
  shows "advances c (queue_functor f c)"
proof -
  have "plog_ok (queue_functor f c)"
    by (rule plog_cong [OF conn_okD(5) [OF assms(1)]]) (simp_all add: queue_functor_def)
  then show ?thesis
    using assms by (cases "t_state c") (auto simp: advances_def conn_ok_def queue_functor_def reading_def)
qed

lemma shutdown_ok:
  assumes inv: "conn_ok c"
  shows "advances c (shutdown inLoop c)"
proof (cases "t_state c = kConnected")
  case False
  then show ?thesis using inv by (simp add: shutdown_def)
next
  case True
  have sn: "\<not> removed c" using open_not_removed [OF inv] True by simp
  have st: "reading c" "writing c \<longleftrightarrow> backlog c \<noteq> []" "\<not> t_fin c" using conn_okD(6) [OF inv] True by auto
  have plog: "plog_ok d" if "t_state d = kDisconnecting" "t_cid d = t_cid c" "t_poller d = t_poller c"
    "t_channel d = t_channel c" for d
    by (rule plog_cong [OF conn_okD(5) [OF inv]]) (use that True sn in auto)
  have "conn_ok (queue_functor ShutdownInLoop (c\<lparr>t_state := kDisconnecting\<rparr>))"
    using inv st plog [of "queue_functor ShutdownInLoop (c\<lparr>t_state := kDisconnecting\<rparr>)"]
    by (auto simp: conn_ok_def queue_functor_def reading_def)
  moreover have "conn_ok (shutdownInLoop (c\<lparr>t_state := kDisconnecting\<rparr>))"
    using inv st plog [of "shutdownInLoop (c\<lparr>t_state := kDisconnecting\<rparr>)"]
    by (auto simp: conn_ok_def shutdownInLoop_def reading_def)
  ultimately show ?thesis
    using True by (auto simp: shutdown_def Let_def advances_def queue_functor_def shutdownInLoop_def)
qed

text \<open>Code the user may run inside a callback.\<close>

fun action_ok :: "user_action \<Rightarrow> bool" where
  "action_ok (USend s) \<longleftrightarrow> str_ok s"
| "action_ok _ \<longleftrightarrow> True"

definition user_ok :: "user \<Rightarrow> bool" where
  "user_ok user \<longleftrightarrow> (\<forall>ev c. list_all action_ok (user ev c))"

lemma input_ok:
  assumes "conn_ok c" and "buf_ok b"
  shows "advances c (c\<lparr>t_in := b\<rparr>)"
proof -
  have "plog_ok (c\<lparr>t_in := b\<rparr>)" by (rule plog_cong [OF conn_okD(5) [OF assms(1)]]) simp_all
  then show ?thesis
    using assms by (cases "t_state c") (auto simp: advances_def conn_ok_def reading_def)
qed

lemma run_action_keeps:
  assumes kw: "write_ok kw" and inv: "conn_ok c" and a: "action_ok a"
  shows "keeps c (run_action kw a c)"
proof (cases a)
  case (USend s)
  then show ?thesis using a sendInLoop_keeps [OF kw inv] inv by (auto simp: send_def)
next
  case UShutdown
  then show ?thesis using shutdown_ok [OF inv] by simp
next
  case (URetrieve n)
  have "retrieve n (t_in c) = Inr b \<Longrightarrow> buf_ok b" for b
    using retrieve_ok [OF conn_okD(1) [OF inv], of n] retrieve_error [OF conn_okD(1) [OF inv], of n]
    by (cases "n \<le> length (contents (t_in c))") auto
  then show ?thesis using URetrieve input_ok [OF inv]
    by (cases "retrieve n (t_in c)") auto
next
  case URetrieveAll
  then show ?thesis using input_ok [OF inv] buf_ok_retrieveAll conn_okD(1) [OF inv] by simp
qed

lemma run_actions_keep:
  assumes "write_ok kw" and "conn_ok c" and "list_all action_ok as"
  shows "keeps c (foldE (run_action kw) as c)"
  using assms(2,3)
proof (induction as arbitrary: c)
  case (Cons a as)
  then show ?case
    using run_action_keeps [OF assms(1)] by (auto intro!: keeps_bindE intro: advances_ok)
qed simp

lemma log_call_ok:
  assumes "conn_ok c"
  shows "advances c (c\<lparr>t_calls := x\<rparr>)"
proof -
  have "plog_ok (c\<lparr>t_calls := x\<rparr>)" by (rule plog_cong [OF conn_okD(5) [OF assms]]) simp_all
  then show ?thesis
    using assms by (cases "t_state c") (auto simp: advances_def conn_ok_def reading_def)
qed

lemma callback_keeps:
  assumes "write_ok kw" and "user_ok user" and "conn_ok c"
  shows "keeps c (callback kw user ev c)"
proof -
  let ?c = "c\<lparr>t_calls := t_calls c @ [ev]\<rparr>"
  have a: "advances c ?c" by (rule log_call_ok [OF assms(3)])
  have "keeps ?c (callback kw user ev c)"
    unfolding callback_def using assms advances_ok [OF a]
    by (intro run_actions_keep) (auto simp: user_ok_def)
  then show ?thesis using a by (auto simp: keeps_def intro: advances_trans)
qed

section \<open>The handlers\<close>

lemma keeps_from: "advances a b \<Longrightarrow> keeps b r \<Longrightarrow> keeps a r"
  by (auto simp: keeps_def intro: advances_trans)

lemma connectEstablished_keeps:
  assumes "write_ok kw" and "user_ok user" and inv: "conn_ok c"
  shows "keeps c (connectEstablished kw user c)"
proof (cases "t_state c = kConnecting")
  case False
  then show ?thesis by (simp add: connectEstablished_def)
next
  case True
  let ?c1 = "c\<lparr>t_state := kConnected, t_channel := tie (t_channel c)\<rparr>"
  let ?c3 = "chan_set EnableReading ?c1"
  have st: "isNoneEvent (t_channel c)" "backlog c = []" "\<not> t_fin c" "t_pending c = []"
    using conn_okD(6) [OF inv] True by auto
  then have "\<not> writing ?c1"
    by (simp add: isWriting_bit tie_def isNoneEvent_def kNoneEvent_def)
  then have "\<not> writing ?c3" by simp
  moreover have "plog_ok ?c3"
  proof -
    have "plog_ok (c\<lparr>t_channel := tie (t_channel c)\<rparr>)"
      by (rule plog_cong [OF conn_okD(5) [OF inv]]) (simp_all add: tie_def)
    then show ?thesis
      by (rule plog_chan_set) (use open_not_removed [OF inv] True in \<open>auto simp: removed_def\<close>)
  qed
  ultimately have "conn_ok ?c3" using inv st by (simp add: conn_ok_def)
  then have "advances c ?c3" using True by (simp add: advances_def)
  moreover have "keeps ?c3 (callback kw user (CbConnection (t_state ?c3)) ?c3)"
    by (rule callback_keeps [OF assms(1,2) \<open>conn_ok ?c3\<close>])
  ultimately show ?thesis
    using True by (auto simp: connectEstablished_def intro: keeps_from)
qed

text \<open>Closing: the state first, then the interest, then the callbacks.\<close>

lemma close_ok:
  assumes inv: "conn_ok c" and op: "is_open c"
  shows "advances c (chan_set DisableAll (c\<lparr>t_state := kDisconnected\<rparr>))"
proof -
  have "\<not> removed c" using open_not_removed [OF inv] op by auto
  then have "plog_ok (chan_set DisableAll (c\<lparr>t_state := kDisconnected\<rparr>))"
    by (rule plog_chan_set [OF conn_okD(5) [OF inv]]) simp_all
  then show ?thesis using inv op by (auto simp: advances_def conn_ok_def)
qed

lemma handleClose_keeps:
  assumes "write_ok kw" and "user_ok user" and inv: "conn_ok c"
  shows "keeps c (handleClose kw user c)"
proof (cases "is_open c")
  case False
  then show ?thesis by (simp add: handleClose_def)
next
  case True
  let ?c1 = "chan_set DisableAll (c\<lparr>t_state := kDisconnected\<rparr>)"
  have a: "advances c ?c1" by (rule close_ok [OF inv True])
  have "keeps ?c1 (bindE (callback kw user (CbConnection (t_state ?c1)) ?c1) (\<lambda>c2.
      Inr (c2\<lparr>t_calls := t_calls c2 @ [CbClose]\<rparr>)))"
    by (rule keeps_bindE [OF callback_keeps [OF assms(1,2) advances_ok [OF a]]])
       (auto intro: log_call_ok advances_ok)
  then have "keeps c (bindE (callback kw user (CbConnection (t_state ?c1)) ?c1) (\<lambda>c2.
      Inr (c2\<lparr>t_calls := t_calls c2 @ [CbClose]\<rparr>)))"
    by (rule keeps_from [OF a])
  then show ?thesis using True by (simp add: handleClose_def Let_def)
qed

definition read_ok :: "nat + string \<Rightarrow> tconn \<Rightarrow> bool" where
  "read_ok r c \<longleftrightarrow> (case r of Inl _ \<Rightarrow> True
     | Inr bs \<Rightarrow> length bs \<le> writableBytes (t_in c) + extrabuf_size)"

lemma handleRead_keeps:
  assumes "write_ok kw" and "user_ok user" and inv: "conn_ok c" and r: "read_ok r c"
  shows "keeps c (handleRead kw user r c)"
proof (cases r)
  case (Inl e)
  then show ?thesis using input_ok [OF inv conn_okD(1) [OF inv]]
    by (simp add: handleRead_def readFd_def Let_def handleError_def)
next
  case (Inr bs)
  have len: "length bs \<le> writableBytes (t_in c) + extrabuf_size" using r Inr by (simp add: read_ok_def)
  from readFd_cases [OF conn_okD(1) [OF inv] len] show ?thesis
  proof (elim disjE exE conjE)
    fix b assume b: "readFd (Inr bs) (t_in c) = Inr (int (length bs), None, b)" "buf_ok b"
    let ?c1 = "c\<lparr>t_in := b\<rparr>"
    have a: "advances c ?c1" by (rule input_ok [OF inv b(2)])
    have "keeps ?c1 (callback kw user CbMessage ?c1)" "keeps ?c1 (handleClose kw user ?c1)"
      using callback_keeps handleClose_keeps assms(1,2) advances_ok [OF a] by blast+
    then show ?thesis using a b(1) Inr
      by (auto simp: handleRead_def Let_def handleError_def intro: keeps_from)
  qed (simp add: handleRead_def Inr)
qed

text \<open>
  \<open>handleWrite\<close>: the bytes the kernel took leave the backlog; when it is empty the write interest
  is dropped, and a requested half close is carried out.
\<close>

lemma handleWrite_step:
  assumes kw: "write_ok kw" and inv: "conn_ok c" and w: "writing c" and n: "0 < n"
    and k: "kw (t_fin c) (t_writes c) (length (backlog c)) = Wrote n"
  shows "\<exists>b c'. handleWrite kw c = Inr c' \<and> buf_ok b \<and> contents b = drop n (backlog c) \<and> advances c c' \<and>
    t_sent c' = t_sent c @ take n (backlog c) \<and> backlog c' = drop n (backlog c) \<and>
    (writing c' \<longleftrightarrow> n < length (backlog c)) \<and>
    t_pending c' = t_pending c @
      (if n = length (backlog c) \<and> t_writeComplete c then [WriteComplete] else []) \<and>
    t_fin c' = (t_fin c \<or> n = length (backlog c) \<and> t_state c = kDisconnecting) \<and>
    t_state c' = t_state c"
proof -
  have op: "is_open c"
    using conn_okD(6) [OF inv] w by (cases "t_state c") (auto simp: isWriting_def isNoneEvent_def kNoneEvent_def)
  have sn: "\<not> removed c" using open_not_removed [OF inv] op by auto
  have le: "n \<le> length (backlog c)" using kw k by (simp add: write_ok_def)
  obtain b where b: "retrieve n (t_out c) = Inr b" "buf_ok b" "contents b = drop n (backlog c)"
    using retrieve_ok [OF conn_okD(2) [OF inv] le] by blast
  have rb: "readableBytes (t_out c) = length (backlog c)" by (rule readableBytes_ok [OF conn_okD(2) [OF inv]])
  have rb': "readableBytes b = length (backlog c) - n" using readableBytes_ok [OF b(2)] b(3) by simp
  let ?c2 = "c\<lparr>t_writes := Suc (t_writes c), t_out := b, t_sent := t_sent c @ take n (backlog c)\<rparr>"
  let ?c3 = "chan_set DisableWriting ?c2"
  let ?c4 = "if t_writeComplete c then queue_functor WriteComplete ?c3 else ?c3"
  let ?c5 = "if t_state c = kDisconnecting then ?c4\<lparr>t_fin := True\<rparr> else ?c4"
  have st: "reading c" "\<not> t_fin c" using open_state [OF inv op] w by auto
  have stream: "(t_sent c @ take n (backlog c)) @ contents b = t_accepted c"
    using conn_okD(3) [OF inv] b(3) by simp
  show ?thesis
  proof (cases "n = length (backlog c)")
    case False
    then have run: "handleWrite kw c = Inr ?c2"
      using w k n b(1) rb rb' le by (simp add: handleWrite_def Let_def)
    have "plog_ok ?c2" by (rule plog_cong [OF conn_okD(5) [OF inv]]) simp_all
    then have "conn_ok ?c2"
      using inv b w st stream op False le by (auto simp: conn_ok_def reading_def)
    then show ?thesis using run b False le w by (auto simp: advances_def)
  next
    case True
    have w4: "\<not> writing ?c4" by (simp add: queue_functor_def)
    have run: "handleWrite kw c = Inr ?c5"
      using w k n b(1) rb rb' True w4 by (simp add: handleWrite_def Let_def shutdownInLoop_def queue_functor_def)
    have "plog_ok ?c3"
      by (rule plog_chan_set [OF conn_okD(5) [OF inv] sn]) (use op in auto)
    then have "plog_ok ?c5" by (rule plog_cong) (simp_all add: queue_functor_def)
    moreover have "reading ?c5" using st(1) by (simp add: reading_def queue_functor_def chan_set_def bit_and_iff bit_not_iff)
    moreover have "\<not> writing ?c5" using w4 by simp
    ultimately have "conn_ok ?c5"
      using inv b st stream op True by (auto simp: conn_ok_def queue_functor_def)
    then show ?thesis using run b True \<open>\<not> writing ?c5\<close> st(2)
      by (auto simp: advances_def queue_functor_def)
  qed
qed

lemma writes_ok:
  assumes "conn_ok c"
  shows "advances c (c\<lparr>t_writes := x\<rparr>)"
proof -
  have "plog_ok (c\<lparr>t_writes := x\<rparr>)" by (rule plog_cong [OF conn_okD(5) [OF assms]]) simp_all
  then show ?thesis
    using assms by (cases "t_state c") (auto simp: advances_def conn_ok_def reading_def)
qed

lemma handleWrite_keeps:
  assumes kw: "write_ok kw" and inv: "conn_ok c"
  shows "keeps c (handleWrite kw c)"
proof (cases "writing c")
  case False
  then show ?thesis using inv by (simp add: handleWrite_def)
next
  case w: True
  have rb: "readableBytes (t_out c) = length (backlog c)" by (rule readableBytes_ok [OF conn_okD(2) [OF inv]])
  show ?thesis
  proof (cases "kw (t_fin c) (t_writes c) (length (backlog c))")
    case (Wrote n)
    show ?thesis
    proof (cases "0 < n")
      case True
      from handleWrite_step [OF kw inv w True Wrote] show ?thesis by auto
    next
      case False
      then show ?thesis using w Wrote rb writes_ok [OF inv] by (simp add: handleWrite_def Let_def)
    qed
  next
    case (WriteErr e)
    then show ?thesis using w rb writes_ok [OF inv] by (simp add: handleWrite_def Let_def)
  qed
qed

text \<open>A closed connection gives no more commands to the poller: user code cannot reach it.\<close>

lemma disconnected_actions_poller:
  assumes "t_state c = kDisconnected" and "foldE (run_action kw) as c = Inr d"
  shows "t_poller d = t_poller c \<and> t_state d = kDisconnected"
  using assms
proof (induction as arbitrary: c)
  case (Cons a as)
  then obtain e where e: "run_action kw a c = Inr e" "foldE (run_action kw) as e = Inr d" by auto
  have "t_poller e = t_poller c \<and> t_state e = kDisconnected"
    using e(1) Cons.prems(1) by (cases a) (auto simp: send_def shutdown_def)
  then show ?case using Cons.IH [OF _ e(2)] by simp
qed simp

lemma disconnected_callback_poller:
  assumes "callback kw user ev c = Inr d" and "t_state c = kDisconnected"
  shows "t_poller d = t_poller c"
  using assms disconnected_actions_poller
    [of "c\<lparr>t_calls := t_calls c @ [ev]\<rparr>" kw "user ev c" d] by (simp add: callback_def)

lemma connectDestroyed_ok:
  assumes "write_ok kw" and "user_ok user" and inv: "conn_ok c" and "t_state c \<noteq> kConnecting"
    and "\<not> removed c" and run: "connectDestroyed kw user c = Inr c'"
  shows "advances c c' \<and> removed c'"
proof -
  have rem: "advances d c' \<and> removed c'" if d: "conn_ok d" "t_state d \<noteq> kConnecting" "\<not> removed d"
    "chan_remove d = Inr c'" for d
  proof -
    from d(4) have none: "isNoneEvent (t_channel d)"
      and c': "c' = d\<lparr>t_poller := t_poller d @ [CmdRemove (t_cid d)]\<rparr>"
      by (auto simp: chan_remove_def)
    have st: "t_state d = kDisconnected"
      using conn_okD(6) [OF d(1)] d(2) none reading_not_none [of d] by (cases "t_state d") auto
    from conn_okD(5) [OF d(1)] d(3) obtain ops where
      "t_poller d = map (\<lambda>op. CmdSet op (t_cid d)) ops"
      "foldl (\<lambda>ev op. op_events op ev) 0 ops = ch_events (t_channel d)" "ops \<noteq> []"
      using st by (auto simp: plog_ok_def)
    then have "plog_ok c'" unfolding plog_ok_def
      using st by (intro conjI exI [of _ ops]) (auto simp: c' removed_def)
    then show ?thesis using d(1) st none
      by (auto simp: advances_def conn_ok_def c' removed_def)
  qed
  show ?thesis
  proof (cases "t_state c = kConnected")
    case False
    then show ?thesis using run rem [OF inv assms(4,5)] by (simp add: connectDestroyed_def)
  next
    case True
    let ?c1 = "chan_set DisableAll (c\<lparr>t_state := kDisconnected\<rparr>)"
    have a: "advances c ?c1" by (rule close_ok [OF inv]) (simp add: True)
    from run True obtain d where cb: "callback kw user (CbConnection kDisconnected) ?c1 = Inr d"
      and d: "chan_remove d = Inr c'" by (auto simp: connectDestroyed_def Let_def)
    have ad: "advances ?c1 d"
      using callback_keeps [OF assms(1,2) advances_ok [OF a]] cb by (auto simp: keeps_def)
    then have dd: "t_state d = kDisconnected" by (cases "t_state d") (auto simp: advances_def)
    have "advances d c' \<and> removed c'"
    proof (rule rem [OF advances_ok [OF ad] _ _ d])
      have "t_poller d = t_poller ?c1"
        using cb by (rule disconnected_callback_poller) simp
      then show "\<not> removed d" using assms(5) ad by (simp add: removed_def advances_def chan_set_def)
    qed (simp add: dd)
    then show ?thesis using advances_trans [OF a advances_trans [OF ad]] by blast
  qed
qed

section \<open>The life of a connection\<close>

text \<open>
  One step: an operation that returned normally. An operation that fails (\<open>Inl\<close>: an assertion, an
  exception) ends the program and is no step; in particular \<open>connectDestroyed\<close> of a connection in
  \<open>kDisconnecting\<close>, which fails in \<open>Channel::remove\<close>, has no successor here and is stated as a lemma
  of its own below. Events of the channel are delivered only while the channel is registered with
  some interest; \<open>connectDestroyed\<close> is called once, by the owner, on a connection that was
  established.
\<close>

inductive conn_step :: "kernel_write \<Rightarrow> user \<Rightarrow> tconn \<Rightarrow> tconn \<Rightarrow> bool" for kw user where
  established: "connectEstablished kw user c = Inr c' \<Longrightarrow> conn_step kw user c c'"
| sends: "str_ok data \<Longrightarrow> send kw inLoop data c = Inr c' \<Longrightarrow> conn_step kw user c c'"
| sends_buffer: "buf_ok buf \<Longrightarrow> send_buffer kw inLoop buf c = Inr (c', buf') \<Longrightarrow> conn_step kw user c c'"
| shuts: "conn_step kw user c (shutdown inLoop c)"
| pending: "doPending kw c = Inr c' \<Longrightarrow> conn_step kw user c c'"
| readable: "\<not> isNoneEvent (t_channel c) \<Longrightarrow> read_ok r c \<Longrightarrow> handleRead kw user r c = Inr c' \<Longrightarrow>
    conn_step kw user c c'"
| writable: "writing c \<Longrightarrow> handleWrite kw c = Inr c' \<Longrightarrow> conn_step kw user c c'"
| hangup: "\<not> isNoneEvent (t_channel c) \<Longrightarrow> handleClose kw user c = Inr c' \<Longrightarrow> conn_step kw user c c'"
| destroyed: "t_state c \<noteq> kConnecting \<Longrightarrow> \<not> removed c \<Longrightarrow> connectDestroyed kw user c = Inr c' \<Longrightarrow>
    conn_step kw user c c'"

definition conn_init :: "tconn \<Rightarrow> bool" where
  "conn_init c \<longleftrightarrow> (\<exists>cid fd wc hwm. c = newConn cid fd wc hwm)"

lemma newConn_ok: "conn_ok (newConn cid fd wc hwm)"
  by (auto simp: conn_ok_def newConn_def plog_ok_def removed_def isNoneEvent_def newChannel_def
      setReadCallback_def setWriteCallback_def setCloseCallback_def setErrorCallback_def kNoneEvent_def)

lemma doPending_keeps:
  assumes kw: "write_ok kw" and inv: "conn_ok c"
  shows "keeps c (doPending kw c)"
proof (cases "t_pending c")
  case Nil
  then show ?thesis using inv by (simp add: doPending_def)
next
  case (Cons f fs)
  have st: "t_state c \<noteq> kConnecting" using conn_okD(6) [OF inv] Cons by auto
  have plog: "plog_ok (c\<lparr>t_pending := fs\<rparr>)" by (rule plog_cong [OF conn_okD(5) [OF inv]]) simp_all
  show ?thesis
  proof (cases "f = ShutdownInLoop")
    case True
    then have "t_state c \<noteq> kConnected" using conn_okD(6) [OF inv] Cons by auto
    then have "conn_ok (shutdownInLoop (c\<lparr>t_pending := fs\<rparr>))"
      using inv Cons st plog_cong [OF plog, of "shutdownInLoop (c\<lparr>t_pending := fs\<rparr>)"]
      by (cases "t_state c") (auto simp: conn_ok_def shutdownInLoop_def reading_def)
    then show ?thesis using True Cons by (simp add: doPending_def advances_def shutdownInLoop_def)
  next
    case False
    have ok: "conn_ok (c\<lparr>t_pending := fs\<rparr>)"
      using inv Cons st plog False by (cases "t_state c") (auto simp: conn_ok_def reading_def)
    then have "advances c (c\<lparr>t_pending := fs\<rparr>)" by (simp add: advances_def)
    moreover have "keeps (c\<lparr>t_pending := fs\<rparr>) (run_functor kw f (c\<lparr>t_pending := fs\<rparr>))"
      using ok st conn_okD(4) [OF inv] Cons False sendInLoop_keeps [OF kw ok] by (cases f) auto
    ultimately show ?thesis using Cons by (auto simp: doPending_def intro: keeps_from)
  qed
qed

lemma send_keeps:
  assumes "write_ok kw" and "conn_ok c" and "str_ok data"
  shows "keeps c (send kw inLoop data c)"
  using sendInLoop_keeps [OF assms] queue_ok [OF assms(2), of "SendInLoop data"] assms
  by (auto simp: send_def)

lemma contents_str_ok: "buf_ok b \<Longrightarrow> str_ok (contents b)"
  by (auto simp: str_ok_def buf_ok_def length_contents)

lemma send_buffer_keeps:
  assumes kw: "write_ok kw" and inv: "conn_ok c" and b: "buf_ok buf"
    and run: "send_buffer kw inLoop buf c = Inr (c', buf')"
  shows "advances c c'"
proof -
  obtain b' where b': "retrieveAllAsString buf = Inr (contents buf, b')"
    using retrieveAllAsString_ok [OF b] by blast
  have "send kw inLoop (contents buf) c = Inr c'"
    using run b' by (auto simp: send_buffer_def send_def split: if_splits)
  then show ?thesis
    using send_keeps [OF kw inv contents_str_ok [OF b], of inLoop] by (simp add: keeps_def)
qed

lemma step_ok:
  assumes "conn_step kw user c c'" and "write_ok kw" and "user_ok user" and "conn_ok c"
  shows "advances c c'"
  using assms
proof (cases rule: conn_step.cases)
  case established
  then show ?thesis using connectEstablished_keeps [OF assms(2-4)] by (simp add: keeps_def)
next
  case (sends data inLoop)
  then show ?thesis using send_keeps [OF assms(2,4), of data inLoop] by (simp add: keeps_def)
next
  case (sends_buffer buf inLoop buf')
  then show ?thesis using send_buffer_keeps [OF assms(2,4)] by blast
next
  case (shuts inLoop)
  then show ?thesis using shutdown_ok [OF assms(4)] by simp
next
  case pending
  then show ?thesis using doPending_keeps [OF assms(2,4)] by (simp add: keeps_def)
next
  case (readable r)
  then show ?thesis using handleRead_keeps [OF assms(2-4)] by (simp add: keeps_def)
next
  case writable
  then show ?thesis using handleWrite_keeps [OF assms(2,4)] by (simp add: keeps_def)
next
  case hangup
  then show ?thesis using handleClose_keeps [OF assms(2-4)] by (simp add: keeps_def)
next
  case destroyed
  then show ?thesis using connectDestroyed_ok [OF assms(2-4)] by blast
qed

text \<open>The invariant of the transition system, for a kernel and user code that keep their contracts.\<close>

definition tcp_inv :: "kernel_write \<Rightarrow> user \<Rightarrow> tconn \<Rightarrow> bool" where
  "tcp_inv kw user c \<longleftrightarrow> (write_ok kw \<and> user_ok user \<longrightarrow> conn_ok c)"

interpretation tcp: step_invariant conn_init "conn_step kw user" "tcp_inv kw user" for kw user
  by unfold_locales
     (auto simp: conn_init_def tcp_inv_def newConn_ok intro: advances_ok step_ok)

lemma reach_conn_ok:
  assumes "write_ok kw" and "user_ok user" and "reach conn_init (conn_step kw user) c"
  shows "conn_ok c"
  using tcp.reach_inv [OF assms(3)] assms(1,2) by (simp add: tcp_inv_def)

section \<open>Properties\<close>

text \<open>
  C1. The byte stream is never corrupted: in every reachable state of a connection, whatever the
  kernel and the user callbacks do, the bytes the kernel took followed by the output buffer are
  exactly the data the connection took charge of, in order; and while the connection is open it
  watches for writability exactly when the output buffer is not empty.
\<close>

theorem tcp_stream_integrity:
  assumes "write_ok kw" and "user_ok user" and "reach conn_init (conn_step kw user) c"
  shows "t_sent c @ contents (t_out c) = t_accepted c \<and>
    (t_state c = kConnected \<or> t_state c = kDisconnecting \<longrightarrow>
       (isWriting (t_channel c) \<longleftrightarrow> contents (t_out c) \<noteq> []))"
  using reach_conn_ok [OF assms] by (auto simp: conn_ok_def)

definition demo_write :: kernel_write where
  "demo_write fin t len = (if fin \<and> 0 < len then WriteErr EPIPE else Wrote (min len 3))"

definition demo_user :: user where
  "demo_user ev c = (case ev of CbConnection kConnected \<Rightarrow> [USend ''hello''] | _ \<Rightarrow> [])"

lemma demo_write_ok: "write_ok demo_write"
  by (simp add: write_ok_def demo_write_def)

lemma demo_user_ok: "user_ok demo_user"
  by (simp add: user_ok_def demo_user_def str_ok_def vector_max_def split: user_event.splits conn_state.splits)

lemmas conn_eval = connectEstablished_def callback_def demo_user_def send_def sendInLoop_def
  direct_write_def demo_write_def chan_set_def newConn_def newChannel_def tie_def Let_def
  setReadCallback_def setWriteCallback_def setCloseCallback_def setErrorCallback_def
  queue_functor_def isWriting_def poll_flags

text \<open>A connection whose peer reads slowly: three of five bytes are taken at once.\<close>

lemma demo_established:
  "\<exists>c. connectEstablished demo_write demo_user (newConn 1 7 True False) = Inr c \<and>
     t_state c = kConnected \<and> t_sent c = ''hel'' \<and> t_accepted c = ''hello'' \<and>
     t_poller c = [CmdSet EnableReading 1, CmdSet EnableWriting 1] \<and> t_writes c = 1 \<and> \<not> t_fin c \<and>
     t_writeComplete c"
proof -
  have "buf_room newBuffer (length ''lo'')" by (simp add: kCheapPrepend_def vector_max_def)
  then obtain b where b: "appendBuf ''lo'' newBuffer = Inr b"
    using appendBuf_ok [OF buf_ok_newBuffer] by blast
  have "readableBytes newBuffer = 0" by (simp add: readableBytes_def newBuffer_def)
  then show ?thesis by (simp add: conn_eval b)
qed

lemma demo_reach:
  "\<exists>c. reach conn_init (conn_step demo_write demo_user) c \<and> t_state c = kConnected \<and> t_sent c = ''hel'' \<and>
     t_accepted c = ''hello'' \<and> t_writes c = 1 \<and> \<not> t_fin c \<and> t_writeComplete c"
  using demo_established
  by (metis (no_types, lifting) conn_init_def established reach_init reach_step)

theorem tcp_stream_integrity_witness:
  "\<exists>c. reach conn_init (conn_step demo_write demo_user) c \<and> t_sent c = ''hel'' \<and>
     contents (t_out c) = ''lo'' \<and> isWriting (t_channel c)"
proof -
  obtain c where c: "reach conn_init (conn_step demo_write demo_user) c" "t_state c = kConnected"
    "t_sent c = ''hel''" "t_accepted c = ''hello''" using demo_reach by blast
  from tcp_stream_integrity [OF demo_write_ok demo_user_ok c(1)] c show ?thesis by auto
qed

text \<open>
  C28. A graceful close is neither early nor forgotten: while a connection is closing, the write side
  is shut down only with an empty output buffer, and until then either unsent data keeps the write
  handler busy or the half close is still queued on the loop.
\<close>

theorem tcp_half_close:
  assumes "write_ok kw" and "user_ok user" and "reach conn_init (conn_step kw user) c"
    and "t_state c = kDisconnecting"
  shows "(t_fin c \<longrightarrow> contents (t_out c) = []) \<and>
    (t_fin c \<or> isWriting (t_channel c) \<or> ShutdownInLoop \<in> set (t_pending c))"
  using reach_conn_ok [OF assms(1-3)] assms(4) by (auto simp: conn_ok_def)

theorem tcp_half_close_witness:
  "\<exists>c. reach conn_init (conn_step demo_write demo_user) c \<and> t_state c = kDisconnecting \<and>
     \<not> t_fin c \<and> isWriting (t_channel c)"
proof -
  obtain c where c: "reach conn_init (conn_step demo_write demo_user) c" "t_state c = kConnected"
    "t_sent c = ''hel''" "t_accepted c = ''hello''" "\<not> t_fin c" using demo_reach by blast
  have ok: "conn_ok c" by (rule reach_conn_ok [OF demo_write_ok demo_user_ok c(1)])
  let ?d = "shutdown True c"
  have "reach conn_init (conn_step demo_write demo_user) ?d" by (rule reach_step [OF c(1) shuts])
  moreover have st: "t_state ?d = kDisconnecting" using c(2) by (simp add: shutdown_def shutdownInLoop_def Let_def)
  moreover have "\<not> t_fin ?d" "t_pending ?d = t_pending c"
    using c(2-5) conn_okD [OF ok] by (auto simp: shutdown_def shutdownInLoop_def Let_def)
  moreover have "ShutdownInLoop \<notin> set (t_pending c)" using conn_okD(6) [OF ok] c(2) by simp
  ultimately show ?thesis
    using tcp_half_close [OF demo_write_ok demo_user_ok, of ?d] by auto
qed

text \<open>
  An event can only arrive while the connection is open: in every reachable state in which the
  channel has any interest the state is connected or disconnecting, so the assertion of
  \<open>handleClose\<close> holds; in every other state a late write event does nothing.
\<close>

theorem tcp_events_only_open:
  assumes "write_ok kw" and "user_ok user" and "reach conn_init (conn_step kw user) c"
  shows "(\<not> isNoneEvent (t_channel c) \<longrightarrow> t_state c = kConnected \<or> t_state c = kDisconnecting) \<and>
    (t_state c = kConnecting \<or> t_state c = kDisconnected \<longrightarrow> handleWrite kw c = Inr c)"
proof -
  have "\<not> writing c" if "isNoneEvent (t_channel c)"
    using that by (simp add: isWriting_def isNoneEvent_def kNoneEvent_def)
  then show ?thesis
    using conn_okD(6) [OF reach_conn_ok [OF assms]]
    by (cases "t_state c") (auto simp: handleWrite_def)
qed

theorem tcp_events_only_open_witness:
  "handleWrite demo_write (newConn 1 7 True False) = Inr (newConn 1 7 True False)"
proof -
  have "reach conn_init (conn_step demo_write demo_user) (newConn 1 7 True False)"
    by (rule reach_init) (auto simp: conn_init_def)
  from tcp_events_only_open [OF demo_write_ok demo_user_ok this] show ?thesis
    by (simp add: newConn_def)
qed

text \<open>
  \<open>handleWrite\<close> makes progress: when the kernel takes \<open>n > 0\<close> bytes, exactly these leave the
  front of the output buffer; when it becomes empty the write interest is dropped, the write-complete
  callback is queued if there is one, and a closing connection shuts down its write side.
\<close>

theorem tcp_handleWrite_drains:
  assumes "write_ok kw" and "conn_ok c" and "isWriting (t_channel c)" and "0 < n"
    and "kw (t_fin c) (t_writes c) (length (contents (t_out c))) = Wrote n"
  shows "\<exists>c'. handleWrite kw c = Inr c' \<and> conn_ok c' \<and>
    t_sent c' = t_sent c @ take n (contents (t_out c)) \<and>
    contents (t_out c') = drop n (contents (t_out c)) \<and>
    (isWriting (t_channel c') \<longleftrightarrow> n < length (contents (t_out c))) \<and>
    t_pending c' = t_pending c @
      (if n = length (contents (t_out c)) \<and> t_writeComplete c then [WriteComplete] else []) \<and>
    t_fin c' = (t_fin c \<or> n = length (contents (t_out c)) \<and> t_state c = kDisconnecting)"
  using handleWrite_step [OF assms] by (auto simp: advances_def)

theorem tcp_handleWrite_drains_witness:
  "\<exists>c c'. t_sent c = ''hel'' \<and> handleWrite demo_write c = Inr c' \<and> t_sent c' = ''hello'' \<and>
     \<not> isWriting (t_channel c') \<and> WriteComplete \<in> set (t_pending c')"
proof -
  obtain c where c: "reach conn_init (conn_step demo_write demo_user) c" "t_state c = kConnected"
    "t_sent c = ''hel''" "t_accepted c = ''hello''" "\<not> t_fin c" "t_writeComplete c"
    using demo_reach by blast
  have ok: "conn_ok c" by (rule reach_conn_ok [OF demo_write_ok demo_user_ok c(1)])
  have bl: "backlog c = ''lo''" using conn_okD(3) [OF ok] c(3,4) by simp
  then have w: "writing c" using conn_okD(6) [OF ok] c(2) by simp
  have "demo_write (t_fin c) (t_writes c) (length (backlog c)) = Wrote 2"
    using c(5) bl by (simp add: demo_write_def)
  from tcp_handleWrite_drains [OF demo_write_ok ok w _ this] obtain c' where
    "handleWrite demo_write c = Inr c'" "t_sent c' = t_sent c @ take 2 (backlog c)"
    "writing c' \<longleftrightarrow> 2 < length (backlog c)"
    "t_pending c' = t_pending c @ (if 2 = length (backlog c) \<and> t_writeComplete c then [WriteComplete] else [])"
    by auto
  then show ?thesis using c(3,6) bl by (intro exI [of _ c] exI [of _ c']) simp
qed

text \<open>
  \<open>connectDestroyed\<close> on a connection that is closing aborts: it disables the channel only in the
  connected state, so the assertion of \<open>Channel::remove\<close> fails. This is what the destructor of
  \<open>TcpServer\<close> does to a connection whose half close is under way.
\<close>

theorem tcp_destroy_disconnecting_aborts:
  assumes "conn_ok c" and "t_state c = kDisconnecting"
  shows "connectDestroyed kw user c = Inl (AssertionFailed ''isNoneEvent()'')"
  using open_state(1) [OF assms(1)] reading_not_none [of c] assms(2)
  by (simp add: connectDestroyed_def chan_remove_def)

theorem tcp_destroy_disconnecting_aborts_witness:
  "\<exists>c. reach conn_init (conn_step demo_write demo_user) c \<and>
     connectDestroyed demo_write demo_user c = Inl (AssertionFailed ''isNoneEvent()'')"
proof -
  obtain c where c: "reach conn_init (conn_step demo_write demo_user) c" "t_state c = kConnected"
    using demo_reach by blast
  let ?d = "shutdown True c"
  have r: "reach conn_init (conn_step demo_write demo_user) ?d" by (rule reach_step [OF c(1) shuts])
  have "t_state ?d = kDisconnecting" using c(2) by (simp add: shutdown_def shutdownInLoop_def Let_def)
  from tcp_destroy_disconnecting_aborts [OF reach_conn_ok [OF demo_write_ok demo_user_ok r] this]
  show ?thesis using r by blast
qed

text \<open>
  A message handed to \<open>send\<close> by another thread while the connection is up is lost when the loop
  thread shuts the connection down first: its write happens after the half close and fails.
\<close>

theorem tcp_send_shutdown_race:
  "\<exists>c c1 c2. t_state c = kConnected \<and> t_out c = newBuffer \<and>
     send demo_write False ''bye'' c = Inr c1 \<and> doPending demo_write (shutdown True c1) = Inr c2 \<and>
     t_fin c2 \<and> t_sent c2 = t_sent c \<and> t_out c2 = newBuffer \<and> t_pending c2 = []"
proof -
  let ?c = "(newConn 1 7 False False)\<lparr>t_state := kConnected\<rparr>"
  have "readableBytes newBuffer = 0" by (simp add: readableBytes_def newBuffer_def)
  then have "\<exists>c1 c2. send demo_write False ''bye'' ?c = Inr c1 \<and>
      doPending demo_write (shutdown True c1) = Inr c2 \<and> t_fin c2 \<and> t_sent c2 = t_sent ?c \<and>
      t_out c2 = newBuffer \<and> t_pending c2 = []"
    by (simp add: conn_eval shutdown_def shutdownInLoop_def doPending_def)
  moreover have "t_state ?c = kConnected" "t_out ?c = newBuffer" by (simp_all add: newConn_def)
  ultimately show ?thesis by blast
qed

text \<open>
  While earlier data is still queued, sending queues the whole message behind it, and the
  high-water-mark callback is queued, with the new length, exactly when this message takes the output
  buffer from below the mark to the mark or beyond.
\<close>

theorem tcp_send_behind_backlog:
  assumes "conn_ok c" and "t_state c = kConnected" and "contents (t_out c) \<noteq> []" and "data \<noteq> []"
    and "length (contents (t_out c)) + length data \<le> vector_max" and "buf_room (t_out c) (length data)"
  shows "\<exists>c'. sendInLoop kw data c = Inr c' \<and>
    contents (t_out c') = contents (t_out c) @ data \<and> t_sent c' = t_sent c \<and>
    t_pending c' = t_pending c @
      (if length (contents (t_out c)) < t_highWaterMark c \<and>
          t_highWaterMark c \<le> length (contents (t_out c)) + length data \<and> t_highWaterMarkCb c
       then [HighWaterMark (length (contents (t_out c)) + length data)] else [])"
proof -
  have w: "writing c" using conn_okD(6) [OF assms(1)] assms(2,3) by simp
  have rb: "readableBytes (t_out c) = length (backlog c)"
    by (rule readableBytes_ok [OF conn_okD(2) [OF assms(1)]])
  have sum: "size_add (length (backlog c)) (length data) = length (backlog c) + length data"
    using assms(5) by simp
  obtain b where b: "appendBuf data (t_out c) = Inr b" "contents b = backlog c @ data"
    using appendBuf_ok [OF conn_okD(2) [OF assms(1)] assms(6)] by blast
  show ?thesis
    using assms(2,4) w b
    by (auto simp: sendInLoop_def direct_write_def Let_def rb sum queue_functor_def)
qed

theorem tcp_send_behind_backlog_witness:
  "\<exists>c c'. contents (t_out c) = ''lo'' \<and> sendInLoop demo_write ''!'' (setHighWaterMarkCallback 3 c) = Inr c' \<and>
     contents (t_out c') = ''lo!'' \<and> HighWaterMark 3 \<in> set (t_pending c')"
proof -
  obtain b where b: "appendBuf ''lo'' newBuffer = Inr b" "buf_ok b" "contents b = ''lo''"
    "writerIndex b \<le> writerIndex newBuffer + length ''lo''"
    using appendBuf_ok [OF buf_ok_newBuffer, of "''lo''"]
    by (auto simp: kCheapPrepend_def vector_max_def)
  obtain c where c: "reach conn_init (conn_step demo_write demo_user) c" "t_state c = kConnected"
    "t_sent c = ''hel''" "t_accepted c = ''hello''" using demo_reach by blast
  have ok: "conn_ok c" by (rule reach_conn_ok [OF demo_write_ok demo_user_ok c(1)])
  let ?d = "c\<lparr>t_out := b\<rparr>"
  let ?e = "setHighWaterMarkCallback 3 ?d"
  have bl: "backlog c = ''lo''" using conn_okD(3) [OF ok] c(3,4) by simp
  have "plog_ok ?e"
    by (rule plog_cong [OF conn_okD(5) [OF ok]]) (simp_all add: setHighWaterMarkCallback_def)
  then have "conn_ok ?e"
    using ok b(2,3) bl c(2) by (simp add: conn_ok_def setHighWaterMarkCallback_def reading_def)
  moreover have "t_state ?e = kConnected" "contents (t_out ?e) = ''lo''" "t_highWaterMark ?e = 3"
    "t_highWaterMarkCb ?e" using c(2) b(3) by (simp_all add: setHighWaterMarkCallback_def)
  moreover have "buf_room (t_out ?e) 1"
    using b(4) by (simp add: setHighWaterMarkCallback_def buf_room_def newBuffer_def kCheapPrepend_def
        vector_max_def)
  ultimately have "\<exists>c'. sendInLoop demo_write ''!'' ?e = Inr c' \<and> contents (t_out c') = ''lo!'' \<and>
      HighWaterMark 3 \<in> set (t_pending c')"
    using tcp_send_behind_backlog [of ?e "''!''" demo_write] by (fastforce simp: vector_max_def)
  moreover have "contents (t_out ?d) = ''lo''" using b(3) by simp
  ultimately show ?thesis by blast
qed

end
