(* ===== verification/Tcp_Lifetime.thy ===== *)
theory Tcp_Lifetime
  imports Tcp_Connection
begin

text \<open>
  The life of one \<open>TcpConnection\<close> object of a \<open>TcpServer\<close>: who holds a \<open>shared_ptr\<close> to it, and which
  functors of its loop were bound to it by \<open>shared_ptr\<close> and which by a plain \<open>this\<close>
  (\<open>src/muduo/net/TcpConnection.cc\<close>, \<open>TcpServer.cc\<close>, \<open>EventLoop::doPendingFunctors\<close>).

  The server runs in one loop thread, the connection in another, and any number of user threads copy
  the pointer, call \<open>send\<close> and \<open>shutdown\<close>, and drop the pointer. A call from a user thread is two steps:
  the test of \<open>state_\<close>, then, with the change of \<open>state_\<close> for \<open>shutdown\<close>, the queueing. The functors
  that \<open>doPendingFunctors\<close> has swapped out keep what they are bound to until it returns. The object is
  freed when nothing refers to it.
\<close>

section \<open>The object and its references\<close>

datatype life_functor =
    Bound_established
  | Bound_destroyed
  | Bound_this nat

datatype user_pc = No_pointer | Holds | Tested bool

record life =
  lf_state :: conn_state
  lf_enabled :: bool
  lf_registered :: bool
  lf_inMap :: bool
  lf_base :: nat
  lf_pending :: "life_functor list"
  lf_todo :: "life_functor list"
  lf_batch :: "life_functor list"
  lf_inBatch :: bool
  lf_user :: "nat \<Rightarrow> user_pc"

definition life_new :: life where
  "life_new = \<lparr>lf_state = kConnecting, lf_enabled = False, lf_registered = False, lf_inMap = True, lf_base = 0,
     lf_pending = [Bound_established], lf_todo = [], lf_batch = [], lf_inBatch = False, lf_user = \<lambda>_. No_pointer\<rparr>"

definition owns :: "life_functor \<Rightarrow> bool" where
  "owns f \<longleftrightarrow> f = Bound_established \<or> f = Bound_destroyed"

definition referenced :: "life \<Rightarrow> bool" where
  "referenced s \<longleftrightarrow> lf_inMap s \<or> 0 < lf_base s \<or> (\<exists>i. lf_user s i \<noteq> No_pointer) \<or>
     (\<exists>f\<in>set (lf_pending s @ lf_todo s @ lf_batch s). owns f)"

section \<open>The steps\<close>

text \<open>\<open>TcpConnection::handleClose\<close> and \<open>TcpServer::removeConnection\<close>, in the loop of the connection.\<close>

definition life_close :: "life \<Rightarrow> life result" where
  "life_close s =
     bindE (assertE (lf_state s = kConnected \<or> lf_state s = kDisconnecting) ''state_ == kConnected || state_ == kDisconnecting'') (\<lambda>_.
     Inr (s\<lparr>lf_state := kDisconnected, lf_enabled := False, lf_base := Suc (lf_base s)\<rparr>))"

text \<open>\<open>TcpServer::removeConnectionInLoop\<close>, in the loop of the server.\<close>

definition life_remove :: "life \<Rightarrow> life result" where
  "life_remove s =
     bindE (assertE (lf_inMap s) ''n == 1'') (\<lambda>_.
     Inr (s\<lparr>lf_inMap := False, lf_base := lf_base s - 1, lf_pending := lf_pending s @ [Bound_destroyed]\<rparr>))"

text \<open>One functor; the first one reads the object in every case.\<close>

fun life_call :: "life_functor \<Rightarrow> life \<Rightarrow> life result" where
  "life_call Bound_established s =
     bindE (assertE (lf_state s = kConnecting) ''state_ == kConnecting'') (\<lambda>_.
     Inr (s\<lparr>lf_state := kConnected, lf_enabled := True, lf_registered := True\<rparr>))"
| "life_call Bound_destroyed s =
     (let s' = (if lf_state s = kConnected then s\<lparr>lf_state := kDisconnected, lf_enabled := False\<rparr> else s) in
      bindE (assertE (\<not> lf_enabled s') ''isNoneEvent()'') (\<lambda>_. Inr (s'\<lparr>lf_registered := False\<rparr>)))"
| "life_call (Bound_this i) s =
     (if referenced s then Inr s else Inl (Undefined_Behaviour ''use after free''))"

definition life_run :: "life \<Rightarrow> life result" where
  "life_run s = (case lf_todo s of
     [] \<Rightarrow> Inr s
   | f # fs \<Rightarrow> life_call f (s\<lparr>lf_todo := fs, lf_batch := lf_batch s @ [f]\<rparr>))"

definition life_swap :: "life \<Rightarrow> life" where
  "life_swap s = s\<lparr>lf_inBatch := True, lf_todo := lf_pending s, lf_pending := []\<rparr>"

definition life_end :: "life \<Rightarrow> life" where
  "life_end s = s\<lparr>lf_inBatch := False, lf_batch := []\<rparr>"

definition set_user :: "nat \<Rightarrow> user_pc \<Rightarrow> life \<Rightarrow> life" where
  "set_user i p s = s\<lparr>lf_user := (lf_user s)(i := p)\<rparr>"

text \<open>\<open>send\<close> (\<open>False\<close>) and \<open>shutdown\<close> (\<open>True\<close>) of another thread: the test, and the rest.\<close>

definition call_test :: "nat \<Rightarrow> bool \<Rightarrow> life \<Rightarrow> life" where
  "call_test i sh s = (if lf_state s = kConnected then set_user i (Tested sh) s else s)"

definition call_queue :: "nat \<Rightarrow> bool \<Rightarrow> life \<Rightarrow> life" where
  "call_queue i sh s = set_user i Holds (s\<lparr>lf_state := (if sh then kDisconnecting else lf_state s),
     lf_pending := lf_pending s @ [Bound_this i]\<rparr>)"

text \<open>
  The flag says whether user threads are patient: they keep the pointer while a functor of theirs
  waits.
\<close>

inductive life_step :: "bool \<Rightarrow> life \<Rightarrow> life \<Rightarrow> bool" for patient where
  LifeCopy: "referenced s \<Longrightarrow> lf_user s i = No_pointer \<Longrightarrow> life_step patient s (set_user i Holds s)"
| LifeTest: "lf_user s i = Holds \<Longrightarrow> life_step patient s (call_test i sh s)"
| LifeQueue: "lf_user s i = Tested sh \<Longrightarrow> life_step patient s (call_queue i sh s)"
| LifeDrop: "lf_user s i = Holds \<Longrightarrow> (patient \<longrightarrow> Bound_this i \<notin> set (lf_pending s @ lf_todo s)) \<Longrightarrow>
    life_step patient s (set_user i No_pointer s)"
| LifeClose: "lf_enabled s \<Longrightarrow> \<not> lf_inBatch s \<Longrightarrow> life_close s = Inr s' \<Longrightarrow> life_step patient s s'"
| LifeRemove: "0 < lf_base s \<Longrightarrow> life_remove s = Inr s' \<Longrightarrow> life_step patient s s'"
| LifeSwap: "\<not> lf_inBatch s \<Longrightarrow> life_step patient s (life_swap s)"
| LifeRun: "lf_inBatch s \<Longrightarrow> lf_todo s \<noteq> [] \<Longrightarrow> life_run s = Inr s' \<Longrightarrow> life_step patient s s'"
| LifeEnd: "lf_inBatch s \<Longrightarrow> lf_todo s = [] \<Longrightarrow> life_step patient s (life_end s)"

section \<open>Phases\<close>

abbreviation waiting :: "life \<Rightarrow> life_functor list" where
  "waiting s \<equiv> lf_pending s @ lf_todo s"

datatype phase = Starting | Open | Closing | Ending | Gone

text \<open>What holds of the bookkeeping in each phase: the functors still to come and the registrations.\<close>

definition in_phase :: "phase \<Rightarrow> life \<Rightarrow> bool" where
  "in_phase p s \<longleftrightarrow>
     count_list (waiting s) Bound_established = (if p = Starting then 1 else 0) \<and>
     count_list (waiting s) Bound_destroyed = (if p = Ending then 1 else 0) \<and>
     lf_base s = (if p = Closing then 1 else 0) \<and>
     lf_inMap s = (p = Starting \<or> p = Open \<or> p = Closing) \<and>
     lf_registered s = (p = Open \<or> p = Closing \<or> p = Ending) \<and> lf_enabled s = (p = Open) \<and>
     (p = Starting \<longrightarrow> lf_state s = kConnecting \<and> (\<forall>i sh. lf_user s i \<noteq> Tested sh)) \<and>
     (p = Open \<longrightarrow> lf_state s = kConnected \<or> lf_state s = kDisconnecting) \<and>
     (p \<noteq> Starting \<longrightarrow> lf_state s \<noteq> kConnecting) \<and>
     (p \<noteq> Starting \<and> p \<noteq> Open \<longrightarrow> lf_state s \<noteq> kConnected)"

definition life_inv :: "life \<Rightarrow> bool" where
  "life_inv s \<longleftrightarrow> (\<exists>p. in_phase p s) \<and> (\<not> lf_inBatch s \<longrightarrow> lf_todo s = [] \<and> lf_batch s = [])"

definition patient_inv :: "life \<Rightarrow> bool" where
  "patient_inv s \<longleftrightarrow> (\<forall>i. Bound_this i \<in> set (waiting s) \<longrightarrow> lf_user s i \<noteq> No_pointer)"

lemma in_phase_user:
  assumes "in_phase p s" and "p = Starting \<Longrightarrow> u \<noteq> Tested True \<and> u \<noteq> Tested False"
  shows "in_phase p (set_user i u s)"
  using assms by (auto simp: in_phase_def set_user_def)

lemma in_phase_test: "in_phase p s \<Longrightarrow> in_phase p (call_test i sh s)"
  by (auto simp: call_test_def in_phase_def set_user_def)

lemma in_phase_queue:
  assumes "in_phase p s" and "lf_user s i = Tested sh"
  shows "in_phase p (call_queue i sh s)"
  using assms by (auto simp: call_queue_def in_phase_def set_user_def)

lemma in_phase_close:
  assumes "in_phase p s" and "lf_enabled s"
  shows "\<exists>s'. life_close s = Inr s' \<and> in_phase Closing s' \<and> lf_todo s' = lf_todo s \<and> lf_batch s' = lf_batch s \<and>
    lf_inBatch s' = lf_inBatch s \<and> waiting s' = waiting s \<and> lf_user s' = lf_user s"
proof -
  have "p = Open" using assms by (auto simp: in_phase_def)
  then show ?thesis using assms by (auto simp: life_close_def in_phase_def)
qed

lemma in_phase_remove:
  assumes "in_phase p s" and "0 < lf_base s"
  shows "\<exists>s'. life_remove s = Inr s' \<and> in_phase Ending s' \<and> lf_todo s' = lf_todo s \<and> lf_batch s' = lf_batch s \<and>
    lf_inBatch s' = lf_inBatch s \<and> set (waiting s') = insert Bound_destroyed (set (waiting s)) \<and> lf_user s' = lf_user s"
proof -
  have "p = Closing" using assms by (auto simp: in_phase_def split: if_splits)
  then show ?thesis using assms by (auto simp: life_remove_def in_phase_def)
qed

text \<open>Running the next functor: the phase moves on, and only a functor bound to \<open>this\<close> can fail.\<close>

lemma in_phase_run:
  assumes "in_phase p s" and "lf_todo s = f # fs"
  shows "(\<exists>p' s'. life_run s = Inr s' \<and> in_phase p' s' \<and> lf_todo s' = fs \<and> lf_batch s' = lf_batch s @ [f] \<and>
      lf_inBatch s' = lf_inBatch s \<and> lf_pending s' = lf_pending s \<and> lf_user s' = lf_user s)
    \<or> (\<exists>i. f = Bound_this i) \<and> \<not> referenced (s\<lparr>lf_todo := fs, lf_batch := lf_batch s @ [f]\<rparr>)"
proof (cases f)
  case Bound_established
  then have "p = Starting" using assms by (auto simp: in_phase_def split: if_splits)
  then have "in_phase Open (s\<lparr>lf_todo := fs, lf_batch := lf_batch s @ [f], lf_state := kConnected, lf_enabled := True,
      lf_registered := True\<rparr>)" "lf_state s = kConnecting"
    using assms Bound_established by (auto simp: in_phase_def)
  then show ?thesis using assms(2) Bound_established by (auto simp: life_run_def)
next
  case Bound_destroyed
  then have "p = Ending" using assms by (auto simp: in_phase_def split: if_splits)
  then have "in_phase Gone (s\<lparr>lf_todo := fs, lf_batch := lf_batch s @ [f], lf_registered := False\<rparr>)"
    "lf_state s \<noteq> kConnected" "\<not> lf_enabled s"
    using assms Bound_destroyed by (auto simp: in_phase_def)
  then show ?thesis using assms(2) Bound_destroyed by (auto simp: life_run_def Let_def)
next
  case (Bound_this i)
  have "in_phase p (s\<lparr>lf_todo := fs, lf_batch := lf_batch s @ [f]\<rparr>)"
    using assms Bound_this by (auto simp: in_phase_def)
  then show ?thesis using assms(2) Bound_this by (auto simp: life_run_def)
qed

lemma life_inv_step:
  assumes "life_inv s" and "life_step patient s s'"
  shows "life_inv s'"
proof -
  obtain p where p: "in_phase p s" and b: "\<not> lf_inBatch s \<Longrightarrow> lf_todo s = [] \<and> lf_batch s = []"
    using assms(1) by (auto simp: life_inv_def)
  show ?thesis using assms(2)
  proof (cases rule: life_step.cases)
    case (LifeCopy i)
    then have "in_phase p s'" using in_phase_user [OF p, of Holds i] by simp
    then show ?thesis using b LifeCopy by (auto simp: life_inv_def set_user_def)
  next
    case (LifeTest i sh)
    then have "in_phase p s'" using in_phase_test [OF p] by simp
    then show ?thesis using b LifeTest by (auto simp: life_inv_def call_test_def set_user_def)
  next
    case (LifeQueue i sh)
    then have "in_phase p s'" using in_phase_queue [OF p] by simp
    then show ?thesis using b LifeQueue by (auto simp: life_inv_def call_queue_def set_user_def)
  next
    case (LifeDrop i)
    then have "in_phase p s'" using in_phase_user [OF p, of No_pointer i] by simp
    then show ?thesis using b LifeDrop by (auto simp: life_inv_def set_user_def)
  next
    case LifeClose
    then show ?thesis using in_phase_close [OF p] b by (auto simp: life_inv_def)
  next
    case LifeRemove
    then show ?thesis using in_phase_remove [OF p] b by (auto simp: life_inv_def)
  next
    case LifeSwap
    then have "in_phase p s'" using p b by (simp add: in_phase_def life_swap_def)
    then show ?thesis using LifeSwap by (auto simp: life_inv_def life_swap_def)
  next
    case LifeRun
    then obtain f fs where f: "lf_todo s = f # fs" by (cases "lf_todo s") auto
    from in_phase_run [OF p f] LifeRun f show ?thesis
      by (auto simp: life_inv_def life_run_def)
  next
    case LifeEnd
    then have "in_phase p s'" using p by (simp add: in_phase_def life_end_def)
    then show ?thesis using LifeEnd by (auto simp: life_inv_def life_end_def)
  qed
qed

lemma life_run_keeps:
  assumes "life_run s = Inr s'"
  shows "set (waiting s') \<subseteq> set (waiting s)" and "lf_user s' = lf_user s"
proof -
  have "set (waiting s') \<subseteq> set (waiting s) \<and> lf_user s' = lf_user s"
  proof (cases "lf_todo s")
    case (Cons f fs)
    then show ?thesis using assms by (cases f) (auto simp: life_run_def Let_def split: if_splits)
  qed (use assms in \<open>auto simp: life_run_def\<close>)
  then show "set (waiting s') \<subseteq> set (waiting s)" and "lf_user s' = lf_user s" by auto
qed

lemma patient_inv_step:
  assumes "patient_inv s" and "life_step True s s'"
  shows "patient_inv s'"
  using assms(2)
proof (cases rule: life_step.cases)
  case (LifeQueue i sh)
  then show ?thesis using assms(1) by (auto simp: patient_inv_def call_queue_def set_user_def)
next
  case LifeRun
  then show ?thesis using assms(1) life_run_keeps [of s s'] unfolding patient_inv_def by auto
qed (use assms(1) in \<open>auto simp: patient_inv_def set_user_def call_test_def life_close_def life_remove_def life_swap_def
      life_end_def\<close>)

interpretation life: step_invariant "\<lambda>s. s = life_new" "life_step patient" life_inv
proof
  show "life_inv s" if "s = life_new" for s
    using that by (auto simp: life_inv_def life_new_def in_phase_def intro!: exI [of _ Starting])
qed (rule life_inv_step)

interpretation patient_life: step_invariant "\<lambda>s. s = life_new" "life_step True" patient_inv
proof
  show "patient_inv s" if "s = life_new" for s using that by (simp add: patient_inv_def life_new_def)
qed (rule patient_inv_step)

text \<open>
  C12. The object behind a server connection, in every interleaving of the two loops and any number of
  user threads: it is freed only after its channel has left the poller, and every callback bound to a
  \<open>shared_ptr\<close> passes its assertions. If moreover every user thread keeps its pointer until the calls
  it made have run, no functor ever touches the object after it was freed.
\<close>

theorem connection_lifetime_safe:
  assumes "reach (\<lambda>s. s = life_new) (life_step patient) s"
  shows "(\<not> referenced s \<longrightarrow> \<not> lf_registered s \<and> \<not> lf_enabled s) \<and>
    (lf_enabled s \<longrightarrow> (\<exists>s'. life_close s = Inr s')) \<and> (0 < lf_base s \<longrightarrow> (\<exists>s'. life_remove s = Inr s')) \<and>
    (\<forall>f fs. lf_todo s = f # fs \<and> owns f \<longrightarrow> (\<exists>s'. life_run s = Inr s')) \<and>
    (patient \<longrightarrow> (\<exists>s'. life_run s = Inr s'))"
proof -
  obtain p where p: "in_phase p s" using life.reach_inv [OF assms] by (auto simp: life_inv_def)
  have gone: "\<not> lf_registered s \<and> \<not> lf_enabled s" if "\<not> referenced s"
  proof -
    have "Bound_established \<notin> set (waiting s)" "Bound_destroyed \<notin> set (waiting s)" "\<not> lf_inMap s"
      using that by (auto simp: referenced_def owns_def)
    then have "count_list (waiting s) Bound_destroyed = 0" by (metis count_list_0_iff)
    then show ?thesis using p \<open>\<not> lf_inMap s\<close> by (cases p) (auto simp: in_phase_def)
  qed
  have bound: "\<exists>s'. life_run s = Inr s'" if "lf_todo s = f # fs" "owns f" for f fs
    using in_phase_run [OF p that(1)] that(2) by (auto simp: owns_def)
  have safe: "\<exists>s'. life_run s = Inr s'" if patient
  proof (cases "lf_todo s")
    case Nil
    then show ?thesis by (simp add: life_run_def)
  next
    case (Cons f fs)
    have "patient_inv s" using patient_life.reach_inv assms that by simp
    then have "referenced (s\<lparr>lf_todo := fs, lf_batch := lf_batch s @ [f]\<rparr>)" if "f = Bound_this i" for i
      using Cons that by (auto simp: patient_inv_def referenced_def)
    then show ?thesis using in_phase_run [OF p Cons] by auto
  qed
  show ?thesis using gone bound safe in_phase_close [OF p] in_phase_remove [OF p] by blast
qed

section \<open>A run\<close>

text \<open>The states of a run in which user thread 1 calls \<open>send\<close> while the peer closes the connection.\<close>

definition run_state :: "conn_state \<Rightarrow> bool \<Rightarrow> bool \<Rightarrow> bool \<Rightarrow> nat \<Rightarrow> life_functor list \<Rightarrow> life_functor list \<Rightarrow>
    life_functor list \<Rightarrow> bool \<Rightarrow> user_pc \<Rightarrow> life" where
  "run_state st en reg inmap base pending todo batch inb u =
     \<lparr>lf_state = st, lf_enabled = en, lf_registered = reg, lf_inMap = inmap, lf_base = base, lf_pending = pending,
      lf_todo = todo, lf_batch = batch, lf_inBatch = inb, lf_user = (\<lambda>_. No_pointer)(1 := u)\<rparr>"

lemma life_new_run_state: "life_new = run_state kConnecting False False True 0 [Bound_established] [] [] False No_pointer"
  by (auto simp: life_new_def run_state_def)

abbreviation life_reach :: "bool \<Rightarrow> life \<Rightarrow> bool" where
  "life_reach patient \<equiv> reach (\<lambda>s. s = life_new) (life_step patient)"

lemmas life_ops = run_state_def life_swap_def life_run_def life_end_def life_close_def life_remove_def call_test_def
  call_queue_def set_user_def referenced_def owns_def

lemma run_open: "life_reach patient (run_state kConnected True True True 0 [] [] [] False Holds)"
proof -
  let ?s1 = "run_state kConnecting False False True 0 [] [Bound_established] [] True No_pointer"
  let ?s2 = "run_state kConnected True True True 0 [] [] [Bound_established] True No_pointer"
  let ?s3 = "run_state kConnected True True True 0 [] [] [] False No_pointer"
  have "life_reach patient life_new" by (rule reach_init) simp
  moreover have "life_step patient life_new ?s1" using LifeSwap [of life_new patient]
    by (simp add: life_new_run_state life_ops)
  ultimately have "life_reach patient ?s1" by (rule reach_step)
  moreover have "life_step patient ?s1 ?s2" by (rule LifeRun) (simp_all add: life_ops)
  ultimately have "life_reach patient ?s2" by (rule reach_step)
  moreover have "life_step patient ?s2 ?s3" using LifeEnd [of ?s2 patient] by (simp add: life_ops)
  ultimately have "life_reach patient ?s3" by (rule reach_step)
  moreover have "life_step patient ?s3 (run_state kConnected True True True 0 [] [] [] False Holds)"
    using LifeCopy [of ?s3 1 patient] by (simp add: life_ops)
  ultimately show ?thesis by (rule reach_step)
qed

lemma run_late: "life_reach patient (run_state kDisconnected False False False 0 [Bound_this 1] [] [Bound_destroyed] True Holds)"
proof -
  let ?s4 = "run_state kConnected True True True 0 [] [] [] False (Tested False)"
  let ?s5 = "run_state kDisconnected False True True 1 [] [] [] False (Tested False)"
  let ?s6 = "run_state kDisconnected False True False 0 [Bound_destroyed] [] [] False (Tested False)"
  let ?s7 = "run_state kDisconnected False True False 0 [] [Bound_destroyed] [] True (Tested False)"
  let ?s8 = "run_state kDisconnected False False False 0 [] [] [Bound_destroyed] True (Tested False)"
  have "life_step patient (run_state kConnected True True True 0 [] [] [] False Holds) ?s4"
    using LifeTest [of "run_state kConnected True True True 0 [] [] [] False Holds" 1 patient False] by (simp add: life_ops)
  with run_open have "life_reach patient ?s4" by (rule reach_step)
  moreover have "life_step patient ?s4 ?s5" by (rule LifeClose) (simp_all add: life_ops)
  ultimately have "life_reach patient ?s5" by (rule reach_step)
  moreover have "life_step patient ?s5 ?s6" by (rule LifeRemove) (simp_all add: life_ops)
  ultimately have "life_reach patient ?s6" by (rule reach_step)
  moreover have "life_step patient ?s6 ?s7" using LifeSwap [of ?s6 patient] by (simp add: life_ops)
  ultimately have "life_reach patient ?s7" by (rule reach_step)
  moreover have "life_step patient ?s7 ?s8" by (rule LifeRun) (simp_all add: life_ops)
  ultimately have "life_reach patient ?s8" by (rule reach_step)
  moreover have "life_step patient ?s8 (run_state kDisconnected False False False 0 [Bound_this 1] [] [Bound_destroyed] True Holds)"
    using LifeQueue [of ?s8 1 False patient] by (simp add: life_ops)
  ultimately show ?thesis by (rule reach_step)
qed

theorem connection_lifetime_safe_witness:
  "life_reach True (run_state kDisconnected False False False 0 [Bound_this 1] [] [Bound_destroyed] True Holds) \<and>
   (\<exists>s'. life_run (run_state kDisconnected False False False 0 [Bound_this 1] [] [Bound_destroyed] True Holds) = Inr s')"
  using run_late [of True] connection_lifetime_safe [OF run_late [of True]] by simp

text \<open>
  C40. \<open>send\<close> and \<open>shutdown\<close> bind the functors they queue to a plain \<open>this\<close> (marked FIXME in the source). A
  user thread that has found the connection open, queues its call after the connection was closed and
  destroyed, and then drops its pointer, leaves a functor that runs on the freed object.
\<close>

theorem connection_raw_this_dangles:
  "\<exists>s. reach (\<lambda>s. s = life_new) (life_step False) s \<and> \<not> referenced s \<and> lf_todo s = [Bound_this 1] \<and>
     life_run s = Inl (Undefined_Behaviour ''use after free'')"
proof -
  let ?s9 = "run_state kDisconnected False False False 0 [Bound_this 1] [] [Bound_destroyed] True Holds"
  let ?s10 = "run_state kDisconnected False False False 0 [Bound_this 1] [] [Bound_destroyed] True No_pointer"
  let ?s11 = "run_state kDisconnected False False False 0 [Bound_this 1] [] [] False No_pointer"
  let ?s12 = "run_state kDisconnected False False False 0 [] [Bound_this 1] [] True No_pointer"
  have "life_step False ?s9 ?s10" using LifeDrop [of ?s9 1 False] by (simp add: life_ops)
  with run_late have "life_reach False ?s10" by (rule reach_step)
  moreover have "life_step False ?s10 ?s11" using LifeEnd [of ?s10 False] by (simp add: life_ops)
  ultimately have "life_reach False ?s11" by (rule reach_step)
  moreover have "life_step False ?s11 ?s12" using LifeSwap [of ?s11 False] by (simp add: life_ops)
  ultimately have "life_reach False ?s12" by (rule reach_step)
  moreover have "\<not> referenced ?s12" "lf_todo ?s12 = [Bound_this 1]" by (simp_all add: life_ops)
  moreover have "life_run ?s12 = Inl (Undefined_Behaviour ''use after free'')" by (simp add: life_ops)
  ultimately show ?thesis by blast
qed

end
