(* ===== verification/Timer_Queue.thy ===== *)
theory Timer_Queue
  imports Complex_Main Prelude "HOL-Library.Product_Lexorder"
begin

text \<open>
  \<open>src/muduo/net/TimerQueue.cc\<close>, \<open>Timer.h\<close>, \<open>Timer.cc\<close>, \<open>TimerId.h\<close> and the arithmetic of
  \<open>src/muduo/base/Timestamp.h\<close>.

  A \<open>Timestamp\<close> is its number of microseconds. Timers live in a heap, a map from addresses to timer
  objects; \<open>new\<close> takes the address it returns as an argument and throws when that is not free, so
  every behaviour of the allocator is covered. \<open>timers_\<close>, a \<open>std::set\<close> of pairs, is a sorted list;
  \<open>activeTimers_\<close> and \<open>cancelingTimers_\<close> are sets. A timer callback is user code: the argument
  \<open>cb\<close> says which timers it adds and cancels. Each call of \<open>Timestamp::now()\<close> reads the next value
  of the argument \<open>clk\<close>.
\<close>

section \<open>Time\<close>

definition kMicroSecondsPerSecond :: int where
  "kMicroSecondsPerSecond = 1000 * 1000"

definition timestamp_valid :: "int \<Rightarrow> bool" where
  "timestamp_valid t \<longleftrightarrow> 0 < t"

text \<open>Conversion of a floating point number to an integer drops the fraction.\<close>

definition truncate_rat :: "rat \<Rightarrow> int" where
  "truncate_rat x = (if 0 \<le> x then \<lfloor>x\<rfloor> else \<lceil>x\<rceil>)"

definition addTime :: "int \<Rightarrow> rat \<Rightarrow> int" where
  "addTime timestamp seconds = timestamp + truncate_rat (seconds * of_int kMicroSecondsPerSecond)"

definition howMuchTimeFromNow :: "int \<Rightarrow> int \<Rightarrow> int \<times> int" where
  "howMuchTimeFromNow when now =
     (let microseconds = when - now;
          microseconds' = (if microseconds < 100 then 100 else microseconds) in
      (microseconds' sdiv kMicroSecondsPerSecond, (microseconds' smod kMicroSecondsPerSecond) * 1000))"

section \<open>Timers\<close>

record timer =
  tm_callback :: nat
  tm_expiration :: int
  tm_interval :: rat
  tm_repeat :: bool
  tm_sequence :: nat

definition Timer_new :: "nat \<Rightarrow> int \<Rightarrow> rat \<Rightarrow> nat \<Rightarrow> timer" where
  "Timer_new callback when interval sequence = \<lparr>tm_callback = callback, tm_expiration = when,
     tm_interval = interval, tm_repeat = (0 < interval), tm_sequence = sequence\<rparr>"

definition Timer_restart :: "int \<Rightarrow> timer \<Rightarrow> timer" where
  "Timer_restart now t =
     (if tm_repeat t then t\<lparr>tm_expiration := addTime now (tm_interval t)\<rparr>
      else t\<lparr>tm_expiration := 0\<rparr>)"

type_synonym entry = "int \<times> nat"

type_synonym timer_id = "nat \<times> nat"

datatype timer_action = AddTimer nat nat int rat | CancelTimer timer_id

record tqueue =
  tq_timers :: "entry list"
  tq_active :: "timer_id set"
  tq_canceling :: "timer_id set"
  tq_calling :: bool
  tq_heap :: "nat \<rightharpoonup> timer"
  tq_numCreated :: nat
  tq_clock :: nat
  tq_armed :: "(int \<times> int) option"
  tq_ran :: "nat list"

type_synonym timer_cb = "nat \<Rightarrow> tqueue \<Rightarrow> timer_action list"

definition newTimerQueue :: tqueue where
  "newTimerQueue = \<lparr>tq_timers = [], tq_active = {}, tq_canceling = {}, tq_calling = False,
     tq_heap = Map.empty, tq_numCreated = 0, tq_clock = 0, tq_armed = None, tq_ran = []\<rparr>"

definition UINTPTR_MAX :: nat where
  "UINTPTR_MAX = 2 ^ 64 - 1"

definition deref :: "nat \<Rightarrow> tqueue \<Rightarrow> timer result" where
  "deref addr q = (case tq_heap q addr of
     None \<Rightarrow> Inl (Undefined_Behaviour ''dangling Timer*'') | Some t \<Rightarrow> Inr t)"

definition delete_timer :: "nat \<Rightarrow> tqueue \<Rightarrow> tqueue result" where
  "delete_timer addr q = bindE (deref addr q) (\<lambda>_. Inr (q\<lparr>tq_heap := (tq_heap q)(addr := None)\<rparr>))"

text \<open>\<open>Timestamp::now()\<close>.\<close>

definition timestamp_now :: "(nat \<Rightarrow> int) \<Rightarrow> tqueue \<Rightarrow> int \<times> tqueue" where
  "timestamp_now clk q = (clk (tq_clock q), q\<lparr>tq_clock := Suc (tq_clock q)\<rparr>)"

text \<open>
  \<open>resetTimerfd\<close> arms the descriptor; recorded are the time of the call and the interval in
  microseconds that the \<open>timespec\<close> denotes.
\<close>

definition resetTimerfd :: "(nat \<Rightarrow> int) \<Rightarrow> int \<Rightarrow> tqueue \<Rightarrow> tqueue" where
  "resetTimerfd clk expiration q =
     (case timestamp_now clk q of (now, q') \<Rightarrow>
      case howMuchTimeFromNow expiration now of (sec, nsec) \<Rightarrow>
      q'\<lparr>tq_armed := Some (now, sec * kMicroSecondsPerSecond + nsec sdiv 1000)\<rparr>)"

definition sizes_agree :: "tqueue \<Rightarrow> unit result" where
  "sizes_agree q = assertE (length (tq_timers q) = card (tq_active q))
     ''timers_.size() == activeTimers_.size()''"

definition TQ_insert :: "nat \<Rightarrow> tqueue \<Rightarrow> (bool \<times> tqueue) result" where
  "TQ_insert addr q =
     bindE (sizes_agree q) (\<lambda>_.
     bindE (deref addr q) (\<lambda>t.
     let when = tm_expiration t;
         earliestChanged = (tq_timers q = [] \<or> when < fst (hd (tq_timers q))) in
     bindE (assertE ((when, addr) \<notin> set (tq_timers q)) ''result.second'') (\<lambda>_.
     bindE (assertE ((addr, tm_sequence t) \<notin> tq_active q) ''result.second'') (\<lambda>_.
     let q' = q\<lparr>tq_timers := insort (when, addr) (tq_timers q),
                tq_active := insert (addr, tm_sequence t) (tq_active q)\<rparr> in
     bindE (sizes_agree q') (\<lambda>_. Inr (earliestChanged, q'))))))"

definition addTimerInLoop :: "(nat \<Rightarrow> int) \<Rightarrow> nat \<Rightarrow> tqueue \<Rightarrow> tqueue result" where
  "addTimerInLoop clk addr q =
     bindE (TQ_insert addr q) (\<lambda>(earliestChanged, q').
     if earliestChanged then
       bindE (deref addr q') (\<lambda>t. Inr (resetTimerfd clk (tm_expiration t) q'))
     else Inr q')"

text \<open>\<open>addTimer\<close> called in the loop thread; \<open>new Timer\<close> takes the next sequence number.\<close>

definition addTimer :: "(nat \<Rightarrow> int) \<Rightarrow> nat \<Rightarrow> nat \<Rightarrow> int \<Rightarrow> rat \<Rightarrow> tqueue \<Rightarrow> (timer_id \<times> tqueue) result"
where
  "addTimer clk addr callback when interval q =
     (if tq_heap q addr = None \<and> addr < UINTPTR_MAX then
        let sequence = tq_numCreated q + 1;
            q' = q\<lparr>tq_numCreated := sequence,
                   tq_heap := (tq_heap q)(addr \<mapsto> Timer_new callback when interval sequence)\<rparr> in
        bindE (addTimerInLoop clk addr q') (\<lambda>q''. Inr ((addr, sequence), q''))
      else Inl (Cpp_Exception ''bad_alloc''))"

text \<open>
  \<open>cancelInLoop\<close>. Whenever the timer is found, the source erases \<open>it\<close> from \<open>activeTimers_\<close> and then reads
  \<open>it->first\<close>, that is, the node of the set that has just been freed, to delete the timer. C++ leaves that undefined. The argument \<open>intact\<close> says for
  every id whether its freed node still has its contents at that moment, which depends on the allocator; where it has not, the
  result is the undefined behaviour. An id is erased at most once, so the argument covers every outcome of every cancellation.
\<close>

abbreviation erased_iterator :: error where
  "erased_iterator \<equiv> Undefined_Behaviour ''it->first after activeTimers_.erase(it)''"

definition read_erased :: "(timer_id \<Rightarrow> bool) \<Rightarrow> timer_id \<Rightarrow> nat result" where
  "read_erased intact it = (if intact it then Inr (fst it) else Inl erased_iterator)"

definition cancelInLoop :: "(timer_id \<Rightarrow> bool) \<Rightarrow> timer_id \<Rightarrow> tqueue \<Rightarrow> tqueue result" where
  "cancelInLoop intact timerId q =
     bindE (sizes_agree q) (\<lambda>_.
     bindE (if timerId \<in> tq_active q then
              bindE (deref (fst timerId) q) (\<lambda>t.
              let e = (tm_expiration t, fst timerId) in
              bindE (assertE (e \<in> set (tq_timers q)) ''n == 1'') (\<lambda>_.
              let q1 = q\<lparr>tq_timers := remove1 e (tq_timers q), tq_active := tq_active q - {timerId}\<rparr> in
              bindE (read_erased intact timerId) (\<lambda>addr. delete_timer addr q1)))
            else if tq_calling q then Inr (q\<lparr>tq_canceling := insert timerId (tq_canceling q)\<rparr>)
            else Inr q) (\<lambda>q'.
     bindE (sizes_agree q') (\<lambda>_. Inr q')))"

fun run_timer_action :: "(timer_id \<Rightarrow> bool) \<Rightarrow> (nat \<Rightarrow> int) \<Rightarrow> timer_action \<Rightarrow> tqueue \<Rightarrow> tqueue result" where
  "run_timer_action intact clk (AddTimer addr callback when interval) q =
     bindE (addTimer clk addr callback when interval q) (\<lambda>(i, q'). Inr q')"
| "run_timer_action intact clk (CancelTimer i) q = cancelInLoop intact i q"

definition erase_active :: "entry \<Rightarrow> tqueue \<Rightarrow> tqueue result" where
  "erase_active e q =
     bindE (deref (snd e) q) (\<lambda>t.
     bindE (assertE ((snd e, tm_sequence t) \<in> tq_active q) ''n == 1'') (\<lambda>_.
     Inr (q\<lparr>tq_active := tq_active q - {(snd e, tm_sequence t)}\<rparr>)))"

definition getExpired :: "int \<Rightarrow> tqueue \<Rightarrow> (entry list \<times> tqueue) result" where
  "getExpired now q =
     bindE (sizes_agree q) (\<lambda>_.
     let sentry = (now, UINTPTR_MAX);
         expired = takeWhile (\<lambda>e. e < sentry) (tq_timers q);
         rest = dropWhile (\<lambda>e. e < sentry) (tq_timers q) in
     bindE (assertE (rest = [] \<or> now < fst (hd rest)) ''end == timers_.end() || now < end->first'') (\<lambda>_.
     bindE (foldE erase_active expired (q\<lparr>tq_timers := rest\<rparr>)) (\<lambda>q'.
     bindE (sizes_agree q') (\<lambda>_. Inr (expired, q')))))"

definition run_timer :: "(timer_id \<Rightarrow> bool) \<Rightarrow> (nat \<Rightarrow> int) \<Rightarrow> timer_cb \<Rightarrow> entry \<Rightarrow> tqueue \<Rightarrow> tqueue result" where
  "run_timer intact clk cb e q =
     bindE (deref (snd e) q) (\<lambda>t.
     foldE (run_timer_action intact clk) (cb (tm_callback t) q) (q\<lparr>tq_ran := tq_ran q @ [snd e]\<rparr>))"

definition reset1 :: "int \<Rightarrow> entry \<Rightarrow> tqueue \<Rightarrow> tqueue result" where
  "reset1 now e q =
     bindE (deref (snd e) q) (\<lambda>t.
     if tm_repeat t \<and> (snd e, tm_sequence t) \<notin> tq_canceling q then
       bindE (TQ_insert (snd e) (q\<lparr>tq_heap := (tq_heap q)(snd e \<mapsto> Timer_restart now t)\<rparr>))
         (\<lambda>(b, q'). Inr q')
     else delete_timer (snd e) q)"

definition TQ_reset :: "(nat \<Rightarrow> int) \<Rightarrow> entry list \<Rightarrow> int \<Rightarrow> tqueue \<Rightarrow> tqueue result" where
  "TQ_reset clk expired now q =
     bindE (foldE (reset1 now) expired q) (\<lambda>q'.
     bindE (if tq_timers q' \<noteq> [] then
              bindE (deref (snd (hd (tq_timers q'))) q') (\<lambda>t. Inr (tm_expiration t))
            else Inr 0) (\<lambda>nextExpire.
     Inr (if timestamp_valid nextExpire then resetTimerfd clk nextExpire q' else q')))"

definition TQ_handleRead :: "(timer_id \<Rightarrow> bool) \<Rightarrow> (nat \<Rightarrow> int) \<Rightarrow> timer_cb \<Rightarrow> tqueue \<Rightarrow> tqueue result" where
  "TQ_handleRead intact clk cb q =
     (case timestamp_now clk q of (now, q0) \<Rightarrow>
      bindE (getExpired now q0) (\<lambda>(expired, q1).
      bindE (foldE (run_timer intact clk cb) expired (q1\<lparr>tq_calling := True, tq_canceling := {}\<rparr>)) (\<lambda>q2.
      TQ_reset clk expired now (q2\<lparr>tq_calling := False\<rparr>))))"

section \<open>The invariant\<close>

text \<open>
  \<open>timers_\<close> is sorted and has one entry per live timer, keyed by the timer's own expiration;
  \<open>activeTimers_\<close> holds the same timers with their sequence numbers. The addresses in \<open>E\<close> are
  the timers that \<open>handleRead\<close> has taken out and still has to reset.
\<close>

definition active_of :: "(nat \<rightharpoonup> timer) \<Rightarrow> entry list \<Rightarrow> timer_id set" where
  "active_of h ts = (\<lambda>a. (a, tm_sequence (the (h a)))) ` snd ` set ts"

definition tq_inv :: "nat set \<Rightarrow> tqueue \<Rightarrow> bool" where
  "tq_inv E q \<longleftrightarrow> sorted (tq_timers q) \<and> distinct (map snd (tq_timers q)) \<and>
     (\<forall>e\<in>set (tq_timers q). snd e < UINTPTR_MAX \<and> (\<exists>t. tq_heap q (snd e) = Some t \<and> tm_expiration t = fst e)) \<and>
     tq_active q = active_of (tq_heap q) (tq_timers q) \<and>
     (\<forall>a\<in>E. a < UINTPTR_MAX \<and> tq_heap q a \<noteq> None \<and> a \<notin> snd ` set (tq_timers q))"

lemma tq_invD:
  assumes "tq_inv E q"
  shows "sorted (tq_timers q)" "distinct (map snd (tq_timers q))"
    "e \<in> set (tq_timers q) \<Longrightarrow> snd e < UINTPTR_MAX"
    "e \<in> set (tq_timers q) \<Longrightarrow> \<exists>t. tq_heap q (snd e) = Some t \<and> tm_expiration t = fst e"
    "tq_active q = active_of (tq_heap q) (tq_timers q)"
    "a \<in> E \<Longrightarrow> a < UINTPTR_MAX" "a \<in> E \<Longrightarrow> tq_heap q a \<noteq> None" "a \<in> E \<Longrightarrow> a \<notin> snd ` set (tq_timers q)"
  using assms unfolding tq_inv_def by auto

lemma card_active_of: "distinct (map snd ts) \<Longrightarrow> card (active_of h ts) = length ts"
  unfolding active_of_def using distinct_card [of "map snd ts"]
  by (subst card_image) (auto simp: inj_on_def)

lemma sizes_agree_ok [simp]: "tq_inv E q \<Longrightarrow> sizes_agree q = Inr ()"
  by (simp add: sizes_agree_def tq_inv_def card_active_of)

lemma active_of_iff:
  "(a, n) \<in> active_of h ts \<longleftrightarrow> a \<in> snd ` set ts \<and> n = tm_sequence (the (h a))"
  by (auto simp: active_of_def)

lemma active_of_insort: "active_of h (insort (w, a) ts) = insert (a, tm_sequence (the (h a))) (active_of h ts)"
  by (auto simp: active_of_def set_insort_key)

lemma active_of_cong:
  assumes "\<And>a. a \<in> snd ` set ts \<Longrightarrow> h a = h' a"
  shows "active_of h ts = active_of h' ts"
  unfolding active_of_def by (rule image_cong) (use assms in auto)

lemma active_of_upd: "a \<notin> snd ` set ts \<Longrightarrow> active_of (h(a := x)) ts = active_of h ts"
proof (rule active_of_cong)
  fix b assume "a \<notin> snd ` set ts" and "b \<in> snd ` set ts"
  then have "b \<noteq> a" by blast
  then show "(h(a := x)) b = h b" by simp
qed

lemma deref_eq [simp]: "deref a q = Inr t \<longleftrightarrow> tq_heap q a = Some t"
  by (auto simp: deref_def split: option.splits)

lemma distinct_snd_insort:
  "distinct (map snd (insort x ts)) \<longleftrightarrow> snd x \<notin> snd ` set ts \<and> distinct (map snd ts)"
  by (induction ts) (auto simp: set_insort_key)

lemma TQ_insert_ok:
  assumes inv: "tq_inv (insert a E) q" and a: "a \<notin> E" and t: "tq_heap q a = Some t"
  shows "\<exists>q'. TQ_insert a q = Inr (tq_timers q = [] \<or> tm_expiration t < fst (hd (tq_timers q)), q') \<and>
    tq_inv E q' \<and> q' = q\<lparr>tq_timers := insort (tm_expiration t, a) (tq_timers q),
      tq_active := insert (a, tm_sequence t) (tq_active q)\<rparr>"
proof -
  let ?q = "q\<lparr>tq_timers := insort (tm_expiration t, a) (tq_timers q),
      tq_active := insert (a, tm_sequence t) (tq_active q)\<rparr>"
  have na: "a \<notin> snd ` set (tq_timers q)" "a < UINTPTR_MAX" using tq_invD [OF inv] by auto
  then have "(tm_expiration t, a) \<notin> set (tq_timers q)" "(a, tm_sequence t) \<notin> tq_active q"
    using tq_invD(5) [OF inv] by (auto simp: active_of_iff) force
  moreover have "tq_inv E ?q"
    using inv na a t unfolding tq_inv_def
    by (auto simp: sorted_insort distinct_snd_insort active_of_insort set_insort_key)
  ultimately show ?thesis using inv t
    by (simp add: TQ_insert_def Let_def deref_def)
qed

text \<open>Arming the timer descriptor changes nothing but the descriptor and the clock.\<close>

lemma resetTimerfd_other [simp]:
  "tq_timers (resetTimerfd clk w q) = tq_timers q" "tq_active (resetTimerfd clk w q) = tq_active q"
  "tq_canceling (resetTimerfd clk w q) = tq_canceling q" "tq_calling (resetTimerfd clk w q) = tq_calling q"
  "tq_heap (resetTimerfd clk w q) = tq_heap q" "tq_ran (resetTimerfd clk w q) = tq_ran q"
  "tq_numCreated (resetTimerfd clk w q) = tq_numCreated q"
  by (simp_all add: resetTimerfd_def timestamp_now_def split: prod.splits)

lemma tq_inv_cong:
  assumes "tq_inv E q" and "tq_timers q' = tq_timers q" and "tq_active q' = tq_active q"
    and "tq_heap q' = tq_heap q"
  shows "tq_inv E q'"
  using assms by (simp add: tq_inv_def)

lemma tq_inv_new:
  assumes inv: "tq_inv E q" and "tq_heap q a = None" and "a < UINTPTR_MAX"
    and "tq_timers q' = tq_timers q" "tq_active q' = tq_active q" "tq_heap q' = (tq_heap q)(a \<mapsto> t)"
  shows "tq_inv (insert a E) q' \<and> a \<notin> E"
proof -
  have na: "a \<notin> snd ` set (tq_timers q)" using tq_invD(4) [OF inv] assms(2) by force
  then have "active_of ((tq_heap q)(a \<mapsto> t)) (tq_timers q) = active_of (tq_heap q) (tq_timers q)"
    by (rule active_of_upd)
  moreover have "a \<notin> E" using tq_invD(7) [OF inv, of a] assms(2) by auto
  ultimately show ?thesis using inv na assms unfolding tq_inv_def by auto
qed

text \<open>
  Adding a timer: it is in the queue under a fresh sequence number, and the queue is otherwise as
  before. The only failure is that of the allocator.
\<close>

lemma addTimer_ok:
  assumes inv: "tq_inv E q"
  shows "(\<exists>q'. addTimer clk addr callback when interval q = Inr ((addr, tq_numCreated q + 1), q') \<and>
      tq_inv E q' \<and> set (tq_timers q') = insert (when, addr) (set (tq_timers q)) \<and>
      tq_heap q' = (tq_heap q)(addr \<mapsto> Timer_new callback when interval (tq_numCreated q + 1)) \<and>
      tq_heap q addr = None \<and> tq_calling q' = tq_calling q \<and> tq_canceling q' = tq_canceling q \<and>
      tq_ran q' = tq_ran q \<and> tq_numCreated q' = tq_numCreated q + 1)
    \<or> \<not> (tq_heap q addr = None \<and> addr < UINTPTR_MAX) \<and>
      addTimer clk addr callback when interval q = Inl (Cpp_Exception ''bad_alloc'')"
proof (cases "tq_heap q addr = None \<and> addr < UINTPTR_MAX")
  case False
  then show ?thesis by (auto simp: addTimer_def)
next
  case True
  let ?t = "Timer_new callback when interval (tq_numCreated q + 1)"
  let ?q = "q\<lparr>tq_numCreated := tq_numCreated q + 1, tq_heap := (tq_heap q)(addr \<mapsto> ?t)\<rparr>"
  have inv': "tq_inv (insert addr E) ?q" "addr \<notin> E" using tq_inv_new [OF inv, of addr ?q ?t] True by auto
  have t: "tq_heap ?q addr = Some ?t" "tm_expiration ?t = when" by (simp_all add: Timer_new_def)
  from TQ_insert_ok [OF inv' t(1)] obtain ch q' where
    q': "TQ_insert addr ?q = Inr (ch, q')" "tq_inv E q'"
      "q' = ?q\<lparr>tq_timers := insort (when, addr) (tq_timers ?q),
        tq_active := insert (addr, tm_sequence ?t) (tq_active ?q)\<rparr>" using t(2) by auto
  have "tq_inv E (resetTimerfd clk when q')" by (rule tq_inv_cong [OF q'(2)]) simp_all
  moreover have "addTimerInLoop clk addr ?q = Inr (if ch then resetTimerfd clk when q' else q')"
    using q'(1) t by (simp add: addTimerInLoop_def deref_def q'(3))
  ultimately show ?thesis
    using True q'(2) by (auto simp: addTimer_def Let_def q'(3) set_insort_key)
qed

text \<open>Cancelling fails at the freed node only; a timer that is not queued is only noted while callbacks run.\<close>

lemma set_remove1_snd:
  assumes "distinct (map snd ts)" and "e \<in> set ts"
  shows "set (remove1 e ts) = {x \<in> set ts. snd x \<noteq> snd e}" and "distinct (map snd (remove1 e ts))"
    and "snd ` set (remove1 e ts) = snd ` set ts - {snd e}"
proof -
  have d: "distinct ts" using assms(1) by (simp add: distinct_map)
  have inj: "inj_on snd (set ts)" using assms(1) by (simp add: distinct_map)
  show *: "set (remove1 e ts) = {x \<in> set ts. snd x \<noteq> snd e}"
    using d inj assms(2) by (auto simp: set_remove1_eq dest: inj_onD)
  show "distinct (map snd (remove1 e ts))"
    using assms(1) d inj by (auto simp: distinct_map set_remove1_eq inj_on_diff)
  show "snd ` set (remove1 e ts) = snd ` set ts - {snd e}" unfolding * by auto
qed

lemma cancelInLoop_ok:
  assumes inv: "tq_inv E q" and that: "i \<in> tq_active q \<longrightarrow> intact i"
  shows "\<exists>q'. cancelInLoop intact i q = Inr q' \<and> tq_inv E q' \<and> i \<notin> tq_active q' \<and>
    (i \<in> tq_active q \<longrightarrow> fst i \<notin> E \<and> fst i \<notin> snd ` set (tq_timers q') \<and>
       set (tq_timers q') = {e \<in> set (tq_timers q). snd e \<noteq> fst i} \<and>
       tq_heap q' = (tq_heap q)(fst i := None) \<and> tq_canceling q' = tq_canceling q) \<and>
    (i \<notin> tq_active q \<longrightarrow> tq_timers q' = tq_timers q \<and> tq_heap q' = tq_heap q \<and>
       tq_canceling q' = (if tq_calling q then insert i (tq_canceling q) else tq_canceling q)) \<and>
    tq_calling q' = tq_calling q \<and> tq_ran q' = tq_ran q"
proof (cases "i \<in> tq_active q")
  case False
  have c: "tq_inv E (q\<lparr>tq_canceling := x\<rparr>)" for x by (rule tq_inv_cong [OF inv]) simp_all
  then show ?thesis
    using False inv sizes_agree_ok [OF inv] sizes_agree_ok [OF c] by (simp add: cancelInLoop_def)
next
  case True
  obtain a n where i: "i = (a, n)" by force
  from True tq_invD(5) [OF inv] have a: "a \<in> snd ` set (tq_timers q)" "n = tm_sequence (the (tq_heap q a))"
    by (auto simp: i active_of_iff)
  then obtain w t where e: "(w, a) \<in> set (tq_timers q)" "tq_heap q a = Some t" "tm_expiration t = w"
    using tq_invD(4) [OF inv] by fastforce
  note r = set_remove1_snd [OF tq_invD(2) [OF inv] e(1)]
  let ?q = "q\<lparr>tq_timers := remove1 (w, a) (tq_timers q), tq_active := tq_active q - {i},
    tq_heap := (tq_heap q)(a := None)\<rparr>"
  have nE: "a \<notin> E" using tq_invD(8) [OF inv, of a] a(1) by blast
  have "active_of ((tq_heap q)(a := None)) (remove1 (w, a) (tq_timers q)) = tq_active q - {i}"
    using r(3) a(2) e(2) by (auto simp: tq_invD(5) [OF inv] active_of_def i)
  then have "tq_inv E ?q"
    using inv r nE unfolding tq_inv_def by (auto simp: sorted_remove1)
  then show ?thesis
    using True inv e a r nE that
    by (auto simp: cancelInLoop_def i Let_def delete_timer_def deref_def read_erased_def)
qed

lemma cancelInLoop_erased:
  assumes inv: "tq_inv E q" and i: "i \<in> tq_active q" "\<not> intact i"
  shows "cancelInLoop intact i q = Inl erased_iterator"
proof -
  obtain a n where p: "i = (a, n)" by force
  from i(1) tq_invD(5) [OF inv] have "a \<in> snd ` set (tq_timers q)" by (auto simp: p active_of_iff)
  then obtain w t where "(w, a) \<in> set (tq_timers q)" "tq_heap q a = Some t" "tm_expiration t = w"
    using tq_invD(4) [OF inv] by fastforce
  then show ?thesis using i inv by (simp add: cancelInLoop_def p Let_def deref_def read_erased_def)
qed

text \<open>What user code in a timer callback cannot touch: the timers \<open>handleRead\<close> has taken out.\<close>

definition tq_frame :: "nat set \<Rightarrow> tqueue \<Rightarrow> tqueue \<Rightarrow> bool" where
  "tq_frame E q q' \<longleftrightarrow> tq_inv E q' \<and> (\<forall>a\<in>E. tq_heap q' a = tq_heap q a) \<and>
     tq_calling q' = tq_calling q \<and> tq_canceling q \<subseteq> tq_canceling q' \<and> tq_ran q' = tq_ran q"

lemma tq_frame_trans: "tq_frame E q1 q2 \<Longrightarrow> tq_frame E q2 q3 \<Longrightarrow> tq_frame E q1 q3"
  by (auto simp: tq_frame_def)

abbreviation bad_alloc :: error where
  "bad_alloc \<equiv> Cpp_Exception ''bad_alloc''"

text \<open>The only failures: the allocator's, and a freed node whose contents are gone.\<close>

definition tq_fails :: "(timer_id \<Rightarrow> bool) \<Rightarrow> error \<Rightarrow> bool" where
  "tq_fails intact e \<longleftrightarrow> e = bad_alloc \<or> e = erased_iterator \<and> (\<exists>i. \<not> intact i)"

lemma tq_fails_simps [simp]: "tq_fails intact bad_alloc" "\<not> intact i \<Longrightarrow> tq_fails intact erased_iterator"
  unfolding tq_fails_def by blast+

lemma cancel_framed:
  assumes inv: "tq_inv E q" and "i \<in> tq_active q \<longrightarrow> intact i"
  shows "\<exists>q'. cancelInLoop intact i q = Inr q' \<and> tq_frame E q q'"
proof -
  from cancelInLoop_ok [OF inv, of i intact] assms(2) obtain q' where q': "cancelInLoop intact i q = Inr q'" "tq_inv E q'"
    "i \<in> tq_active q \<longrightarrow> fst i \<notin> E \<and> tq_heap q' = (tq_heap q)(fst i := None) \<and> tq_canceling q' = tq_canceling q"
    "i \<notin> tq_active q \<longrightarrow> tq_heap q' = tq_heap q \<and>
       tq_canceling q' = (if tq_calling q then insert i (tq_canceling q) else tq_canceling q)"
    "tq_calling q' = tq_calling q" "tq_ran q' = tq_ran q" by blast
  then have "tq_frame E q q'" by (cases "i \<in> tq_active q") (auto simp: tq_frame_def)
  then show ?thesis using q'(1) by blast
qed

lemma run_timer_action_ok:
  assumes inv: "tq_inv E q"
  shows "(\<exists>q'. run_timer_action intact clk act q = Inr q' \<and> tq_frame E q q') \<or>
    (\<exists>e. run_timer_action intact clk act q = Inl e \<and> tq_fails intact e)"
proof (cases act)
  case (AddTimer addr callback w interval)
  have "addr \<notin> E" if "tq_heap q addr = None" using tq_invD(7) [OF inv, of addr] that by auto
  then show ?thesis
    using addTimer_ok [OF inv, of clk addr callback w interval] AddTimer by (fastforce simp: tq_frame_def)
next
  case (CancelTimer i)
  then show ?thesis using cancel_framed [OF inv, of i intact] cancelInLoop_erased [OF inv, of i intact]
    by (cases "i \<in> tq_active q \<longrightarrow> intact i") auto
qed

lemma run_timer_actions_ok:
  assumes "tq_inv E q"
  shows "(\<exists>q'. foldE (run_timer_action intact clk) acts q = Inr q' \<and> tq_frame E q q')
    \<or> (\<exists>e. foldE (run_timer_action intact clk) acts q = Inl e \<and> tq_fails intact e)"
  using assms
proof (induction acts arbitrary: q)
  case Nil
  then show ?case by (simp add: tq_frame_def)
next
  case (Cons act acts)
  from run_timer_action_ok [OF Cons.prems, of intact clk act] show ?case
  proof (elim disjE exE conjE)
    fix q1 assume q1: "run_timer_action intact clk act q = Inr q1" "tq_frame E q q1"
    then have "tq_inv E q1" by (simp add: tq_frame_def)
    from Cons.IH [OF this] q1 show ?thesis by (auto intro: tq_frame_trans)
  qed simp
qed

text \<open>The callbacks of the expired timers run once each, in order.\<close>

lemma run_timers_ok:
  assumes "tq_inv E q" and "snd ` set es \<subseteq> E"
  shows "(\<exists>q'. foldE (run_timer intact clk cb) es q = Inr q' \<and> tq_inv E q' \<and> (\<forall>a\<in>E. tq_heap q' a = tq_heap q a) \<and>
      tq_calling q' = tq_calling q \<and> tq_canceling q \<subseteq> tq_canceling q' \<and>
      tq_ran q' = tq_ran q @ map snd es)
    \<or> (\<exists>e. foldE (run_timer intact clk cb) es q = Inl e \<and> tq_fails intact e)"
  using assms
proof (induction es arbitrary: q)
  case Nil
  then show ?case by simp
next
  case (Cons e es)
  then obtain t where t: "tq_heap q (snd e) = Some t" using tq_invD(7) [OF Cons.prems(1), of "snd e"] by auto
  let ?q = "q\<lparr>tq_ran := tq_ran q @ [snd e]\<rparr>"
  have "tq_inv E ?q" by (rule tq_inv_cong [OF Cons.prems(1)]) simp_all
  from run_timer_actions_ok [OF this, of intact clk "cb (tm_callback t) q"] show ?case
  proof (elim disjE exE conjE)
    fix q1 assume q1: "foldE (run_timer_action intact clk) (cb (tm_callback t) q) ?q = Inr q1" "tq_frame E ?q q1"
    then have inv1: "tq_inv E q1" and run: "run_timer intact clk cb e q = Inr q1"
      using t by (auto simp: tq_frame_def run_timer_def deref_def)
    from Cons.IH [OF inv1] Cons.prems(2) q1(2) run show ?thesis
      by (fastforce simp: tq_frame_def)
  qed (use t in \<open>simp add: run_timer_def deref_def\<close>)
qed

section \<open>Taking out the expired timers\<close>

lemma takeWhile_sorted:
  fixes ts :: "'a :: linorder list"
  shows "sorted ts \<Longrightarrow> takeWhile (\<lambda>e. e < x) ts = filter (\<lambda>e. e < x) ts"
    and "sorted ts \<Longrightarrow> dropWhile (\<lambda>e. e < x) ts = filter (\<lambda>e. \<not> e < x) ts"
proof -
  have none: "filter (\<lambda>e. e < x) ts = []" if "sorted (t # ts)" "\<not> t < x" for t ts
    using that by (auto simp: filter_empty_conv)
  have all: "filter (\<lambda>e. \<not> e < x) ts = ts" if "sorted (t # ts)" "\<not> t < x" for t ts
    using that by (auto simp: filter_id_conv)
  show "sorted ts \<Longrightarrow> takeWhile (\<lambda>e. e < x) ts = filter (\<lambda>e. e < x) ts"
    by (induction ts) (auto simp: none)
  show "sorted ts \<Longrightarrow> dropWhile (\<lambda>e. e < x) ts = filter (\<lambda>e. \<not> e < x) ts"
    by (induction ts) (auto simp: all)
qed

lemma below_sentry:
  fixes e :: entry
  shows "snd e < UINTPTR_MAX \<Longrightarrow> e < (now, UINTPTR_MAX) \<longleftrightarrow> fst e \<le> now"
  by (cases e) (auto simp: less_prod_def)

lemma erase_active_all:
  assumes "distinct (map snd es)"
    and "\<And>e. e \<in> set es \<Longrightarrow> \<exists>t. tq_heap q (snd e) = Some t \<and> (snd e, tm_sequence t) \<in> tq_active q"
  shows "foldE erase_active es q = Inr (q\<lparr>tq_active := tq_active q - active_of (tq_heap q) es\<rparr>)"
  using assms
proof (induction es arbitrary: q)
  case Nil
  then show ?case by (simp add: active_of_def)
next
  case (Cons e es)
  obtain t where t: "tq_heap q (snd e) = Some t" "(snd e, tm_sequence t) \<in> tq_active q"
    using Cons.prems(2) [of e] by auto
  let ?q = "q\<lparr>tq_active := tq_active q - {(snd e, tm_sequence t)}\<rparr>"
  have "erase_active e q = Inr ?q" using t by (simp add: erase_active_def deref_def)
  moreover have "foldE erase_active es ?q = Inr (?q\<lparr>tq_active := tq_active ?q - active_of (tq_heap ?q) es\<rparr>)"
  proof (rule Cons.IH)
    show "distinct (map snd es)" using Cons.prems(1) by simp
    fix e' assume e': "e' \<in> set es"
    then have "snd e' \<noteq> snd e" using Cons.prems(1) by (auto simp: image_iff)
    then show "\<exists>t. tq_heap ?q (snd e') = Some t \<and> (snd e', tm_sequence t) \<in> tq_active ?q"
      using Cons.prems(2) [of e'] e' by auto
  qed
  moreover have "tq_active q - active_of (tq_heap q) (e # es) =
      tq_active q - {(snd e, tm_sequence t)} - active_of (tq_heap q) es"
    using t by (auto simp: active_of_def)
  ultimately show ?case by simp
qed

definition due_timers :: "int \<Rightarrow> entry list \<Rightarrow> entry list" where
  "due_timers now ts = filter (\<lambda>e. fst e \<le> now) ts"

definition later_timers :: "int \<Rightarrow> entry list \<Rightarrow> entry list" where
  "later_timers now ts = filter (\<lambda>e. now < fst e) ts"

text \<open>The sentry cuts the queue into the timers that are due and the later ones.\<close>

lemma cut_at_sentry:
  assumes "tq_inv E q"
  shows "takeWhile (\<lambda>e. e < (now, UINTPTR_MAX)) (tq_timers q) = due_timers now (tq_timers q)"
    and "dropWhile (\<lambda>e. e < (now, UINTPTR_MAX)) (tq_timers q) = later_timers now (tq_timers q)"
proof -
  show "takeWhile (\<lambda>e. e < (now, UINTPTR_MAX)) (tq_timers q) = due_timers now (tq_timers q)"
    unfolding takeWhile_sorted(1) [OF tq_invD(1) [OF assms]] due_timers_def
    by (rule filter_cong) (use tq_invD(3) [OF assms] below_sentry in auto)
  show "dropWhile (\<lambda>e. e < (now, UINTPTR_MAX)) (tq_timers q) = later_timers now (tq_timers q)"
    unfolding takeWhile_sorted(2) [OF tq_invD(1) [OF assms]] later_timers_def
    by (rule filter_cong) (use tq_invD(3) [OF assms] below_sentry in \<open>auto simp: not_le\<close>)
qed

lemma due_not_later:
  assumes "distinct (map snd ts)" and "a \<in> snd ` set (due_timers now ts)"
  shows "a \<notin> snd ` set (later_timers now ts)"
proof
  assume "a \<in> snd ` set (later_timers now ts)"
  then obtain e where e: "e \<in> set ts" "now < fst e" "snd e = a" by (auto simp: later_timers_def)
  from assms(2) obtain d where d: "d \<in> set ts" "fst d \<le> now" "snd d = a" by (auto simp: due_timers_def)
  have "inj_on snd (set ts)" using assms(1) by (simp add: distinct_map)
  then have "d = e" using inj_onD d e by metis
  then show False using d(2) e(2) by simp
qed

lemma active_later:
  assumes "distinct (map snd ts)"
  shows "active_of h ts - active_of h (due_timers now ts) = active_of h (later_timers now ts)"
proof -
  have "set ts = set (due_timers now ts) \<union> set (later_timers now ts)" by (auto simp: due_timers_def later_timers_def)
  then have "snd ` set ts = snd ` set (due_timers now ts) \<union> snd ` set (later_timers now ts)" by (simp only: image_Un)
  then have "snd ` set ts - snd ` set (due_timers now ts) = snd ` set (later_timers now ts)"
    using due_not_later [OF assms] by blast
  moreover have "active_of h a - active_of h b = (\<lambda>x. (x, tm_sequence (the (h x)))) ` (snd ` set a - snd ` set b)" for a b
    unfolding active_of_def by (subst image_set_diff) (auto simp: inj_on_def)
  ultimately show ?thesis by simp (simp add: active_of_def)
qed

lemma getExpired_ok:
  assumes inv: "tq_inv E q"
  shows "\<exists>q'. getExpired now q = Inr (due_timers now (tq_timers q), q') \<and>
    tq_inv (snd ` set (due_timers now (tq_timers q)) \<union> E) q' \<and>
    q' = q\<lparr>tq_timers := later_timers now (tq_timers q),
      tq_active := active_of (tq_heap q) (later_timers now (tq_timers q))\<rparr>"
proof -
  let ?ts = "tq_timers q"
  let ?d = "due_timers now ?ts" and ?l = "later_timers now ?ts"
  note dist = tq_invD(2) [OF inv]
  have dist': "distinct (map snd ?d)" "distinct (map snd ?l)"
    using dist by (auto simp: due_timers_def later_timers_def distinct_map_filter)
  have sub: "set ?d \<subseteq> set ?ts" "set ?l \<subseteq> set ?ts" by (auto simp: due_timers_def later_timers_def)
  have "\<exists>t. tq_heap q (snd e) = Some t \<and> (snd e, tm_sequence t) \<in> tq_active q" if "e \<in> set ?d" for e
    using tq_invD(4) [OF inv subsetD [OF sub(1) that]] subsetD [OF sub(1) that] tq_invD(5) [OF inv]
    by (auto simp: active_of_iff)
  then have fold: "foldE erase_active ?d (q\<lparr>tq_timers := ?l\<rparr>) =
      Inr (q\<lparr>tq_timers := ?l, tq_active := active_of (tq_heap q) ?l\<rparr>)"
    using erase_active_all [OF dist'(1), of "q\<lparr>tq_timers := ?l\<rparr>"] active_later [OF dist, of "tq_heap q" now] tq_invD(5) [OF inv]
    by simp
  have "sorted ?l" using sorted_wrt_filter [OF tq_invD(1) [OF inv]] by (simp add: later_timers_def)
  moreover have "a < UINTPTR_MAX \<and> tq_heap q a \<noteq> None" if "a \<in> snd ` set ?d" for a
    using that sub(1) tq_invD(3,4) [OF inv] by fastforce
  moreover have "a < UINTPTR_MAX \<and> tq_heap q a \<noteq> None \<and> a \<notin> snd ` set ?l" if "a \<in> E" for a
    using that sub(2) tq_invD(6-8) [OF inv, of a] by blast
  ultimately have inv': "tq_inv (snd ` set ?d \<union> E) (q\<lparr>tq_timers := ?l, tq_active := active_of (tq_heap q) ?l\<rparr>)"
    using dist' due_not_later [OF dist, of _ now] sub(2) tq_invD(3,4) [OF inv] by (auto simp: tq_inv_def)
  have "?l = [] \<or> now < fst (hd ?l)"
    by (cases ?l) (use filter_set [of "\<lambda>e. now < fst e" ?ts] in \<open>auto simp: later_timers_def filter_eq_Cons_iff\<close>)
  then have "getExpired now q =
      Inr (?d, q\<lparr>tq_timers := ?l, tq_active := active_of (tq_heap q) ?l\<rparr>)"
    unfolding getExpired_def Let_def cut_at_sentry [OF inv] fold
    using sizes_agree_ok [OF inv] sizes_agree_ok [OF inv'] by simp
  then show ?thesis using inv' by blast
qed

section \<open>Restarting and deleting\<close>

text \<open>Whether an expired timer is restarted.\<close>

definition again :: "timer_id set \<Rightarrow> (nat \<rightharpoonup> timer) \<Rightarrow> nat \<Rightarrow> bool" where
  "again cancelled h a \<longleftrightarrow> (\<exists>t. h a = Some t \<and> tm_repeat t \<and> (a, tm_sequence t) \<notin> cancelled)"

text \<open>The entries of the timers among \<open>A\<close> that are restarted at \<open>now\<close>.\<close>

definition rearmed :: "int \<Rightarrow> timer_id set \<Rightarrow> (nat \<rightharpoonup> timer) \<Rightarrow> nat set \<Rightarrow> entry set" where
  "rearmed now cancelled h A =
     (\<lambda>a. (addTime now (tm_interval (the (h a))), a)) ` {a \<in> A. again cancelled h a}"

lemma again_cong: "h a = h' a \<Longrightarrow> again cs h a \<longleftrightarrow> again cs h' a"
  by (simp add: again_def)

lemma rearmed_cong: "(\<And>a. a \<in> A \<Longrightarrow> h a = h' a) \<Longrightarrow> rearmed now cs h A = rearmed now cs h' A"
  unfolding rearmed_def by (rule image_cong) (auto simp: again_def)

lemma rearmed_insert:
  "rearmed now cs h (insert a A) = (if again cs h a
     then insert (addTime now (tm_interval (the (h a))), a) (rearmed now cs h A) else rearmed now cs h A)"
  by (auto simp: rearmed_def)

lemma tq_inv_heap:
  assumes inv: "tq_inv (insert a E) q"
  shows "tq_inv (insert a E) (q\<lparr>tq_heap := (tq_heap q)(a \<mapsto> t)\<rparr>)"
    and "a \<notin> E \<Longrightarrow> tq_inv E (q\<lparr>tq_heap := (tq_heap q)(a := None)\<rparr>)"
proof -
  have na: "a \<notin> snd ` set (tq_timers q)" using tq_invD(8) [OF inv, of a] by blast
  then have ne: "snd e \<noteq> a" if "e \<in> set (tq_timers q)" for e using that by blast
  note act = active_of_upd [OF na, of "tq_heap q"]
  show "tq_inv (insert a E) (q\<lparr>tq_heap := (tq_heap q)(a \<mapsto> t)\<rparr>)"
    using inv ne by (auto simp: tq_inv_def act)
  show "tq_inv E (q\<lparr>tq_heap := (tq_heap q)(a := None)\<rparr>)" if "a \<notin> E"
    using inv ne that by (auto simp: tq_inv_def act)
qed

lemma reset1_ok:
  assumes inv: "tq_inv (insert (snd e) E) q" and e: "snd e \<notin> E" and t: "tq_heap q (snd e) = Some t"
  shows "\<exists>q'. reset1 now e q = Inr q' \<and> tq_inv E q' \<and> tq_canceling q' = tq_canceling q \<and>
    tq_calling q' = tq_calling q \<and> tq_ran q' = tq_ran q \<and>
    (if again (tq_canceling q) (tq_heap q) (snd e)
     then tq_heap q' = (tq_heap q)(snd e \<mapsto> Timer_restart now t) \<and>
       set (tq_timers q') = insert (addTime now (tm_interval t), snd e) (set (tq_timers q))
     else tq_heap q' = (tq_heap q)(snd e := None) \<and> tq_timers q' = tq_timers q)"
proof (cases "again (tq_canceling q) (tq_heap q) (snd e)")
  case True
  let ?t = "Timer_restart now t"
  let ?q = "q\<lparr>tq_heap := (tq_heap q)(snd e \<mapsto> ?t)\<rparr>"
  have r: "tm_repeat t" "(snd e, tm_sequence t) \<notin> tq_canceling q" using True t by (auto simp: again_def)
  have inv': "tq_inv (insert (snd e) E) ?q" by (rule tq_inv_heap(1) [OF inv])
  from TQ_insert_ok [OF inv' e, of ?t] obtain b q' where
    "TQ_insert (snd e) ?q = Inr (b, q')" "tq_inv E q'"
    "q' = ?q\<lparr>tq_timers := insort (tm_expiration ?t, snd e) (tq_timers ?q),
       tq_active := insert (snd e, tm_sequence ?t) (tq_active ?q)\<rparr>" by auto
  then show ?thesis using True r t
    by (auto simp: reset1_def deref_def set_insort_key Timer_restart_def)
next
  case False
  have "tq_inv E (q\<lparr>tq_heap := (tq_heap q)(snd e := None)\<rparr>)" by (rule tq_inv_heap(2) [OF inv e])
  then show ?thesis using False t
    by (auto simp: reset1_def deref_def delete_timer_def again_def)
qed

lemma reset_all_ok:
  assumes "tq_inv (snd ` set es \<union> E) q" and "distinct (map snd es)" and "snd ` set es \<inter> E = {}"
  shows "\<exists>q'. foldE (reset1 now) es q = Inr q' \<and> tq_inv E q' \<and> tq_ran q' = tq_ran q \<and>
    tq_calling q' = tq_calling q \<and> tq_canceling q' = tq_canceling q \<and>
    set (tq_timers q') = set (tq_timers q) \<union> rearmed now (tq_canceling q) (tq_heap q) (snd ` set es) \<and>
    (\<forall>a. a \<in> snd ` set es \<longrightarrow> (tq_heap q' a = None \<longleftrightarrow> \<not> again (tq_canceling q) (tq_heap q) a)) \<and>
    (\<forall>a. a \<notin> snd ` set es \<longrightarrow> tq_heap q' a = tq_heap q a)"
  using assms
proof (induction es arbitrary: q)
  case Nil
  then show ?case by (simp add: rearmed_def)
next
  case (Cons e es)
  let ?E = "snd ` set es \<union> E"
  have inv: "tq_inv (insert (snd e) ?E) q" using Cons.prems(1) by simp
  have ne: "snd e \<notin> ?E" using Cons.prems(2,3) by auto
  obtain t where t: "tq_heap q (snd e) = Some t" using tq_invD(7) [OF inv, of "snd e"] by auto
  from reset1_ok [OF inv ne t, of now] obtain q1 where q1: "reset1 now e q = Inr q1" "tq_inv ?E q1"
    "tq_canceling q1 = tq_canceling q" "tq_calling q1 = tq_calling q" "tq_ran q1 = tq_ran q"
    and h1: "if again (tq_canceling q) (tq_heap q) (snd e)
     then tq_heap q1 = (tq_heap q)(snd e \<mapsto> Timer_restart now t) \<and>
       set (tq_timers q1) = insert (addTime now (tm_interval t), snd e) (set (tq_timers q))
     else tq_heap q1 = (tq_heap q)(snd e := None) \<and> tq_timers q1 = tq_timers q" by blast
  have same: "tq_heap q1 a = tq_heap q a" if "a \<noteq> snd e" for a using h1 that by (auto split: if_splits)
  have same': "tq_heap q1 a = tq_heap q a" if "a \<in> snd ` set es" for a by (rule same) (use that ne in blast)
  from Cons.IH [OF q1(2)] Cons.prems(2,3) obtain q' where q': "foldE (reset1 now) es q1 = Inr q'" "tq_inv E q'"
    "tq_ran q' = tq_ran q1" "tq_calling q' = tq_calling q1" "tq_canceling q' = tq_canceling q1"
    and ts: "set (tq_timers q') = set (tq_timers q1) \<union> rearmed now (tq_canceling q1) (tq_heap q1) (snd ` set es)"
    and h: "\<forall>a. a \<in> snd ` set es \<longrightarrow> (tq_heap q' a = None \<longleftrightarrow> \<not> again (tq_canceling q1) (tq_heap q1) a)"
    and o: "\<forall>a. a \<notin> snd ` set es \<longrightarrow> tq_heap q' a = tq_heap q1 a" by auto
  have ts': "rearmed now (tq_canceling q1) (tq_heap q1) (snd ` set es) =
      rearmed now (tq_canceling q) (tq_heap q) (snd ` set es)"
    unfolding q1(3) by (rule rearmed_cong) (rule same')
  have es: "snd ` set (e # es) = insert (snd e) (snd ` set es)" by simp
  have "set (tq_timers q') = set (tq_timers q) \<union>
      rearmed now (tq_canceling q) (tq_heap q) (snd ` set (e # es))"
    unfolding ts ts' es rearmed_insert using h1 t by (auto split: if_splits)
  moreover have "tq_heap q' a = None \<longleftrightarrow> \<not> again (tq_canceling q) (tq_heap q) a"
    if a: "a \<in> snd ` set (e # es)" for a
  proof (cases "a = snd e")
    case True
    then have "tq_heap q' a = tq_heap q1 (snd e)" using o [rule_format, of a] ne by simp
    then show ?thesis using h1 True by (simp split: if_splits)
  next
    case False
    then have ae: "a \<in> snd ` set es" using a unfolding es by simp
    then show ?thesis using h [rule_format, OF ae] again_cong [of "tq_heap q1" a "tq_heap q"] same' [OF ae] q1(3) by simp
  qed
  moreover have "tq_heap q' a = tq_heap q a" if a: "a \<notin> snd ` set (e # es)" for a
    using a o [rule_format, of a] same [of a] unfolding es by simp
  moreover have "foldE (reset1 now) (e # es) q = Inr q'" using q1(1) q'(1) by simp
  ultimately show ?case using q1(3-5) q'(2-5) by (intro exI [of _ q']) simp
qed

text \<open>The descriptor is armed for the expiration, or for 100 microseconds when that is nearer.\<close>

lemma resetTimerfd_armed:
  "tq_armed (resetTimerfd clk w q) = Some (clk (tq_clock q), max 100 (w - clk (tq_clock q)))"
proof -
  define us where "us = max 100 (w - clk (tq_clock q))"
  have pos: "0 \<le> us" by (simp add: us_def)
  have "howMuchTimeFromNow w (clk (tq_clock q)) = (us div 1000000, (us mod 1000000) * 1000)"
    using pos by (auto simp: howMuchTimeFromNow_def us_def Let_def kMicroSecondsPerSecond_def
        signed_divide_int_def signed_modulo_int_def max_def)
  moreover have "((us mod 1000000) * 1000) sdiv 1000 = us mod 1000000"
    using pos_mod_bound [of 1000000 us] by (auto simp: signed_divide_int_def sgn_if)
  ultimately show ?thesis
    by (simp add: resetTimerfd_def timestamp_now_def us_def [symmetric] kMicroSecondsPerSecond_def)
qed

lemma TQ_reset_ok:
  assumes inv: "tq_inv (snd ` set es \<union> E) q" and d: "distinct (map snd es)" and e: "snd ` set es \<inter> E = {}"
  shows "\<exists>q'. TQ_reset clk es now q = Inr q' \<and> tq_inv E q' \<and> (\<forall>a\<in>E. tq_heap q' a = tq_heap q a) \<and> tq_ran q' = tq_ran q \<and>
    tq_calling q' = tq_calling q \<and> tq_canceling q' = tq_canceling q \<and>
    set (tq_timers q') = set (tq_timers q) \<union> rearmed now (tq_canceling q) (tq_heap q) (snd ` set es) \<and>
    (\<forall>a \<in> snd ` set es. tq_heap q' a = None \<longleftrightarrow> \<not> again (tq_canceling q) (tq_heap q) a) \<and>
    (tq_timers q' \<noteq> [] \<longrightarrow> 0 < fst (hd (tq_timers q')) \<longrightarrow>
       (\<exists>t0. tq_armed q' = Some (t0, max 100 (fst (hd (tq_timers q')) - t0))))"
proof -
  from reset_all_ok [OF inv d e, of now] obtain q1 where q1: "foldE (reset1 now) es q = Inr q1" "tq_inv E q1"
    "tq_ran q1 = tq_ran q" "tq_calling q1 = tq_calling q" "tq_canceling q1 = tq_canceling q"
    "set (tq_timers q1) = set (tq_timers q) \<union> rearmed now (tq_canceling q) (tq_heap q) (snd ` set es)"
    "\<forall>a. a \<in> snd ` set es \<longrightarrow> (tq_heap q1 a = None \<longleftrightarrow> \<not> again (tq_canceling q) (tq_heap q) a)" "\<forall>a. a \<notin> snd ` set es \<longrightarrow> tq_heap q1 a = tq_heap q a" by blast
  have same: "tq_heap q1 a = tq_heap q a" if "a \<in> E" for a using q1(8) e that by blast
  show ?thesis
  proof (cases "tq_timers q1 = []")
    case True
    then have "TQ_reset clk es now q = Inr q1"
      using q1(1) by (simp add: TQ_reset_def timestamp_valid_def)
    then show ?thesis using q1(1-7) same True by auto
  next
    case False
    let ?w = "fst (hd (tq_timers q1))"
    let ?q = "if 0 < ?w then resetTimerfd clk ?w q1 else q1"
    obtain t where "tq_heap q1 (snd (hd (tq_timers q1))) = Some t" "tm_expiration t = ?w"
      using tq_invD(4) [OF q1(2) hd_in_set [OF False]] by blast
    then have "TQ_reset clk es now q = Inr ?q"
      using q1(1) False by (simp add: TQ_reset_def deref_def timestamp_valid_def)
    moreover have "tq_inv E ?q" using q1(2) tq_inv_cong [OF q1(2), of "resetTimerfd clk ?w q1"] by simp
    ultimately show ?thesis using q1(3-7) same False by (intro exI [of _ ?q]) (auto simp: resetTimerfd_armed)
  qed
qed

section \<open>Properties\<close>

lemma handleRead_ok:
  assumes inv: "tq_inv E q"
  shows "let now = clk (tq_clock q); due = due_timers now (tq_timers q) in
    (\<exists>q'. TQ_handleRead intact clk cb q = Inr q' \<and> tq_inv E q' \<and> \<not> tq_calling q' \<and> (\<forall>a\<in>E. tq_heap q' a = tq_heap q a) \<and>
      tq_ran q' = tq_ran q @ map snd due \<and>
      (\<forall>a\<in>snd ` set due. tq_heap q' a = None \<longleftrightarrow> \<not> again (tq_canceling q') (tq_heap q) a) \<and>
      rearmed now (tq_canceling q') (tq_heap q) (snd ` set due) \<subseteq> set (tq_timers q') \<and>
      (tq_timers q' \<noteq> [] \<longrightarrow> 0 < fst (hd (tq_timers q')) \<longrightarrow>
        (\<exists>t0. tq_armed q' = Some (t0, max 100 (fst (hd (tq_timers q')) - t0)))))
    \<or> (\<exists>e. TQ_handleRead intact clk cb q = Inl e \<and> tq_fails intact e)"
proof -
  let ?now = "clk (tq_clock q)"
  let ?due = "due_timers ?now (tq_timers q)"
  let ?E = "snd ` set ?due" and ?F = "snd ` set ?due \<union> E"
  let ?q0 = "q\<lparr>tq_clock := Suc (tq_clock q)\<rparr>"
  have inv0: "tq_inv E ?q0" by (rule tq_inv_cong [OF inv]) simp_all
  have d: "distinct (map snd ?due)"
    using tq_invD(2) [OF inv] by (auto simp: due_timers_def distinct_map_filter)
  have disj: "?E \<inter> E = {}" using tq_invD(8) [OF inv] by (auto simp: due_timers_def)
  from getExpired_ok [OF inv0, of ?now] obtain q1 where q1: "getExpired ?now ?q0 = Inr (?due, q1)"
    "tq_inv ?F q1" "tq_heap q1 = tq_heap q" "tq_ran q1 = tq_ran q" by auto
  let ?q1 = "q1\<lparr>tq_calling := True, tq_canceling := {}\<rparr>"
  have "tq_inv ?F ?q1" by (rule tq_inv_cong [OF q1(2)]) simp_all
  from run_timers_ok [OF this Un_upper1, of intact clk cb] show ?thesis
  proof (elim disjE exE conjE)
    fix q2 assume q2: "foldE (run_timer intact clk cb) ?due ?q1 = Inr q2" "tq_inv ?F q2"
      "\<forall>a\<in>?F. tq_heap q2 a = tq_heap ?q1 a" "tq_ran q2 = tq_ran ?q1 @ map snd ?due"
    let ?q2 = "q2\<lparr>tq_calling := False\<rparr>"
    have "tq_inv ?F ?q2" by (rule tq_inv_cong [OF q2(2)]) simp_all
    from TQ_reset_ok [OF this d disj, of clk ?now] obtain q3 where q3: "TQ_reset clk ?due ?now ?q2 = Inr q3"
      "tq_inv E q3" "\<forall>a\<in>E. tq_heap q3 a = tq_heap q2 a" "tq_ran q3 = tq_ran q2" "\<not> tq_calling q3" "tq_canceling q3 = tq_canceling q2"
      "rearmed ?now (tq_canceling q2) (tq_heap q2) ?E \<subseteq> set (tq_timers q3)"
      "\<forall>a\<in>?E. tq_heap q3 a = None \<longleftrightarrow> \<not> again (tq_canceling q2) (tq_heap q2) a"
      "tq_timers q3 \<noteq> [] \<longrightarrow> 0 < fst (hd (tq_timers q3)) \<longrightarrow>
        (\<exists>t0. tq_armed q3 = Some (t0, max 100 (fst (hd (tq_timers q3)) - t0)))" by auto
    have h: "tq_heap q2 a = tq_heap q a" if "a \<in> ?F" for a
      using q2(3) [rule_format, OF that] q1(3) by simp
    have "again c (tq_heap q2) a = again c (tq_heap q) a" if "a \<in> ?E" for a c
      using h [of a] that by (simp add: again_def)
    moreover have "rearmed ?now c (tq_heap q2) ?E = rearmed ?now c (tq_heap q) ?E" for c
      by (rule rearmed_cong) (simp add: h)
    moreover have "TQ_handleRead intact clk cb q = Inr q3"
      using q1(1) q2(1) q3(1) by (simp add: TQ_handleRead_def timestamp_now_def)
    moreover have "\<forall>a\<in>E. tq_heap q3 a = tq_heap q a" using q3(3) h by simp
    ultimately show ?thesis using q3 q2(4) q1(4) unfolding Let_def
      by (intro disjI1 exI [of _ q3]) auto
  qed (use q1(1) in \<open>simp_all add: TQ_handleRead_def timestamp_now_def Let_def\<close>)
qed

text \<open>
  C6. When the timer descriptor fires, \<open>handleRead\<close> runs exactly the timers whose expiration is not
  after the present time, once each and in the order of expiration, whatever timers their callbacks
  add or cancel; no assertion fails and no dangling timer is used. It fails in two ways only: allocation
  fails, or a callback cancels a queued timer and \<open>cancelInLoop\<close>, which reads the set's node it has just erased, no longer finds
  its contents there (\<open>intact\<close> is false of some id), which C++ leaves undefined.
  Afterwards a repeating timer that was not cancelled is queued again one interval from now, every
  other expired timer is deleted, and the descriptor is armed for the earliest timer. The timers in \<open>E\<close>, which
  other threads have created and the loop has not yet taken in, are left alone.
\<close>

theorem timers_handleRead_exact:
  assumes inv: "tq_inv E q"
  shows "let now = clk (tq_clock q); due = due_timers now (tq_timers q) in
    (\<exists>q'. TQ_handleRead intact clk cb q = Inr q' \<and> tq_inv E q' \<and> \<not> tq_calling q' \<and> (\<forall>a\<in>E. tq_heap q' a = tq_heap q a) \<and>
      tq_ran q' = tq_ran q @ map snd due \<and>
      (\<forall>a\<in>snd ` set due. tq_heap q' a = None \<longleftrightarrow> \<not> again (tq_canceling q') (tq_heap q) a) \<and>
      rearmed now (tq_canceling q') (tq_heap q) (snd ` set due) \<subseteq> set (tq_timers q') \<and>
      (tq_timers q' \<noteq> [] \<longrightarrow> 0 < fst (hd (tq_timers q')) \<longrightarrow>
        (\<exists>t0. tq_armed q' = Some (t0, max 100 (fst (hd (tq_timers q')) - t0)))))
    \<or> TQ_handleRead intact clk cb q = Inl (Cpp_Exception ''bad_alloc'')
    \<or> TQ_handleRead intact clk cb q = Inl (Undefined_Behaviour ''it->first after activeTimers_.erase(it)'') \<and> (\<exists>i. \<not> intact i)"
  using handleRead_ok [OF inv, of clk intact cb] unfolding Let_def tq_fails_def by blast

text \<open>A timer that cancels itself and another one that is queued, and one that repeats every ten microseconds.\<close>

definition demo_cb :: timer_cb where
  "demo_cb n q = (if n = 0 then [CancelTimer (1, 1), AddTimer 9 2 500 0, CancelTimer (3, 3)] else [])"

definition demo_intact :: "timer_id \<Rightarrow> bool" where
  "demo_intact i \<longleftrightarrow> i = (3, 3)"

definition demo_timers :: tqueue where
  "demo_timers = newTimerQueue\<lparr>tq_timers := [(100, 1), (100, 2), (300, 3)],
     tq_active := {(1, 1), (2, 2), (3, 3)}, tq_numCreated := 3,
     tq_heap := [1 \<mapsto> Timer_new 0 100 (1 / 100000) 1, 2 \<mapsto> Timer_new 1 100 (1 / 100000) 2,
       3 \<mapsto> Timer_new 1 300 0 3]\<rparr>"

lemma demo_timers_ok: "tq_inv {} demo_timers"
  by (auto simp: tq_inv_def demo_timers_def newTimerQueue_def active_of_def Timer_new_def
      UINTPTR_MAX_def less_eq_prod_def)

theorem timers_handleRead_exact_witness:
  "\<exists>q'. TQ_handleRead demo_intact (\<lambda>n. 200) demo_cb demo_timers = Inr q' \<and> tq_ran q' = [1, 2] \<and>
     (1, 1) \<in> tq_canceling q' \<and> tq_heap q' 1 = None \<and> (210, 2) \<in> set (tq_timers q')"
proof -
  let ?clk = "\<lambda>n. 200 :: int"
  have "\<exists>q'. TQ_handleRead demo_intact ?clk demo_cb demo_timers = Inr q' \<and> tq_canceling q' = {(1, 1)}"
    by (simp add: TQ_handleRead_def timestamp_now_def getExpired_def sizes_agree_def demo_timers_def
        newTimerQueue_def UINTPTR_MAX_def less_prod_def erase_active_def deref_def Timer_new_def Let_def
        run_timer_def demo_cb_def demo_intact_def read_erased_def cancelInLoop_def addTimer_def addTimerInLoop_def TQ_insert_def
        less_eq_prod_def TQ_reset_def reset1_def delete_timer_def Timer_restart_def addTime_def
        truncate_rat_def kMicroSecondsPerSecond_def resetTimerfd_def split: prod.splits)
  then obtain q' where q': "TQ_handleRead demo_intact ?clk demo_cb demo_timers = Inr q'" "tq_canceling q' = {(1, 1)}"
    by blast
  have due: "due_timers 200 (tq_timers demo_timers) = [(100, 1), (100, 2)]"
    by (simp add: due_timers_def demo_timers_def)
  have "\<not> again {(1, 1)} (tq_heap demo_timers) 1" "again {(1, 1)} (tq_heap demo_timers) 2"
    by (simp_all add: again_def demo_timers_def Timer_new_def)
  moreover have "addTime 200 (tm_interval (the (tq_heap demo_timers 2))) = 210"
    by (simp add: demo_timers_def Timer_new_def addTime_def truncate_rat_def kMicroSecondsPerSecond_def)
  moreover have "tq_ran demo_timers = []" by (simp add: demo_timers_def newTimerQueue_def)
  ultimately show ?thesis
    using timers_handleRead_exact [OF demo_timers_ok, of ?clk demo_intact demo_cb] q'
    by (simp add: Let_def due rearmed_insert)
qed

text \<open>
  Cancelling a timer fails only when the timer is queued and the freed node of \<open>activeTimers_\<close> has lost its contents. A queued timer is removed from both sets and deleted, and every
  other timer stays; a timer that is not queued (it expired, or was cancelled before) is left alone,
  and noted if the callbacks of expired timers are running, so that it is not restarted.
\<close>

theorem timers_cancel:
  assumes "tq_inv E q"
  shows "if i \<in> tq_active q \<and> \<not> intact i then cancelInLoop intact i q = Inl erased_iterator else
    (\<exists>q'. cancelInLoop intact i q = Inr q' \<and> tq_inv E q' \<and> i \<notin> tq_active q' \<and>
    (i \<in> tq_active q \<longrightarrow> set (tq_timers q') = {e \<in> set (tq_timers q). snd e \<noteq> fst i} \<and>
       tq_heap q' = (tq_heap q)(fst i := None)) \<and>
    (i \<notin> tq_active q \<longrightarrow> tq_timers q' = tq_timers q \<and> tq_heap q' = tq_heap q \<and>
       tq_canceling q' = (if tq_calling q then insert i (tq_canceling q) else tq_canceling q)))"
  using cancelInLoop_ok [OF assms, of i intact] cancelInLoop_erased [OF assms, of i intact] by auto

theorem timers_cancel_witness:
  "\<exists>q'. cancelInLoop (\<lambda>_. True) (2, 2) demo_timers = Inr q' \<and> set (tq_timers q') = {(100, 1), (300, 3)}"
proof -
  have "(2, 2) \<in> tq_active demo_timers" by (simp add: demo_timers_def)
  moreover have "{e \<in> set (tq_timers demo_timers). snd e \<noteq> fst (2, 2)} = {(100, 1), (300, 3)}"
    by (auto simp: demo_timers_def)
  ultimately show ?thesis using timers_cancel [OF demo_timers_ok, of "(2, 2)" "\<lambda>_. True"] by auto
qed

text \<open>
  Adding a timer gives it the next sequence number and queues it beside the timers already there;
  only allocation can fail. If it is the earliest timer, the descriptor is armed for it, or for 100
  microseconds when it is due sooner.
\<close>

theorem timers_add:
  assumes inv: "tq_inv {} q" and "tq_heap q addr = None" and "addr < UINTPTR_MAX"
  shows "\<exists>q'. addTimer clk addr callback when interval q = Inr ((addr, tq_numCreated q + 1), q') \<and>
    tq_inv {} q' \<and> set (tq_timers q') = insert (when, addr) (set (tq_timers q)) \<and>
    ((\<forall>e\<in>set (tq_timers q). when < fst e) \<longrightarrow>
       tq_armed q' = Some (clk (tq_clock q), max 100 (when - clk (tq_clock q))))"
proof -
  let ?t = "Timer_new callback when interval (tq_numCreated q + 1)"
  let ?q = "q\<lparr>tq_numCreated := tq_numCreated q + 1, tq_heap := (tq_heap q)(addr \<mapsto> ?t)\<rparr>"
  have inv': "tq_inv (insert addr {}) ?q" "addr \<notin> {}" using tq_inv_new [OF inv, of addr ?q ?t] assms by auto
  have t: "tq_heap ?q addr = Some ?t" "tm_expiration ?t = when" by (simp_all add: Timer_new_def)
  have early: "tq_timers q = [] \<or> when < fst (hd (tq_timers q))" if "\<forall>e\<in>set (tq_timers q). when < fst e"
    using that by (cases "tq_timers q") auto
  have "tq_armed q' = Some (clk (tq_clock q), max 100 (when - clk (tq_clock q)))"
    if "addTimer clk addr callback when interval q = Inr (i, q')" "\<forall>e\<in>set (tq_timers q). when < fst e" for i q'
    using TQ_insert_ok [OF inv' t(1)] that t early [OF that(2)] assms(2,3)
    by (auto simp: addTimer_def addTimerInLoop_def Let_def deref_def resetTimerfd_armed)
  moreover obtain q' where "addTimer clk addr callback when interval q = Inr ((addr, tq_numCreated q + 1), q')"
    "tq_inv {} q'" "set (tq_timers q') = insert (when, addr) (set (tq_timers q))"
    using addTimer_ok [OF inv, of clk addr callback "when" interval] assms(2,3) by auto
  ultimately show ?thesis by blast
qed

theorem timers_add_witness:
  "\<exists>q'. addTimer (\<lambda>n. 40) 7 0 50 0 demo_timers = Inr ((7, 4), q') \<and> (50, 7) \<in> set (tq_timers q') \<and>
     tq_armed q' = Some (40, 100)"
proof -
  have "tq_heap demo_timers 7 = None" "7 < UINTPTR_MAX" "tq_numCreated demo_timers = 3"
    "\<forall>e\<in>set (tq_timers demo_timers). 50 < fst e"
    by (simp_all add: demo_timers_def UINTPTR_MAX_def)
  with timers_add [OF demo_timers_ok, of 7 "\<lambda>n. 40" 0 50 0] show ?thesis by auto
qed

end
