(* ===== verification/Event_Loop.thy ===== *)
theory Event_Loop
  imports Timer_Queue
begin

text \<open>
  \<open>src/muduo/net/EventLoop.cc\<close>, \<open>EventLoopThread.cc\<close> and \<open>EventLoopThreadPool.cc\<close>: the loop as
  a transition system in which the loop thread and other threads interleave.

  The program counter of the loop thread says where in \<open>loop()\<close> and \<open>doPendingFunctors()\<close> it is.
  \<open>queueInLoop\<close> and \<open>quit\<close> called by another thread are two steps, since that thread first changes
  \<open>pendingFunctors_\<close> or \<open>quit_\<close> and then writes to the event descriptor; \<open>el_inflight\<close> counts the
  threads between the two. A functor is a number. Three components are there for the statements
  only: \<open>el_queued\<close> and \<open>el_done\<close>, the functors queued and run so far, and \<open>el_early\<close>, whether a
  functor was queued by the loop's own thread before \<open>loop()\<close>.
\<close>

section \<open>The loop\<close>

text \<open>
  \<open>PcPending\<close> is the point where \<open>callingPendingFunctors_\<close> is set and the swap is still to come.
\<close>

datatype loop_pc =
    PcIdle
  | PcTest
  | PcPoll
  | PcHandle "nat list"
  | PcPending
  | PcFunctors "nat list"
  | PcExit

record eloop =
  el_pc :: loop_pc
  el_looping :: bool
  el_quit :: bool
  el_eventHandling :: bool
  el_calling :: bool
  el_iteration :: nat
  el_pending :: "nat list"
  el_wakeup :: nat
  el_inflight :: nat
  el_queued :: "nat list"
  el_done :: "nat list"
  el_early :: bool

definition newEventLoop :: eloop where
  "newEventLoop = \<lparr>el_pc = PcIdle, el_looping = False, el_quit = False, el_eventHandling = False,
     el_calling = False, el_iteration = 0, el_pending = [], el_wakeup = 0, el_inflight = 0,
     el_queued = [], el_done = [], el_early = False\<rparr>"

text \<open>The channel of the event descriptor; its callback \<open>handleRead\<close> resets the counter.\<close>

definition wakeupChannel :: nat where "wakeupChannel = 0"

definition wakeup :: "eloop \<Rightarrow> eloop" where
  "wakeup s = s\<lparr>el_wakeup := Suc (el_wakeup s)\<rparr>"

definition EL_handleRead :: "eloop \<Rightarrow> eloop" where
  "EL_handleRead s = s\<lparr>el_wakeup := 0\<rparr>"

definition push_pending :: "nat \<Rightarrow> eloop \<Rightarrow> eloop" where
  "push_pending f s = s\<lparr>el_pending := el_pending s @ [f], el_queued := el_queued s @ [f]\<rparr>"

text \<open>\<open>queueInLoop\<close> in the loop thread, and its first half in another thread.\<close>

definition queueInLoop :: "nat \<Rightarrow> eloop \<Rightarrow> eloop" where
  "queueInLoop f s =
     (let s' = push_pending f s in if el_calling s' then wakeup s' else s')"

definition queueInLoop_remote :: "nat \<Rightarrow> eloop \<Rightarrow> eloop" where
  "queueInLoop_remote f s = (push_pending f s)\<lparr>el_inflight := Suc (el_inflight s)\<rparr>"

definition EL_quit :: "eloop \<Rightarrow> eloop" where
  "EL_quit s = s\<lparr>el_quit := True\<rparr>"

definition EL_quit_remote :: "eloop \<Rightarrow> eloop" where
  "EL_quit_remote s = s\<lparr>el_quit := True, el_inflight := Suc (el_inflight s)\<rparr>"

text \<open>The second half of a call from another thread.\<close>

definition remote_wakeup :: "eloop \<Rightarrow> eloop" where
  "remote_wakeup s = wakeup (s\<lparr>el_inflight := el_inflight s - 1\<rparr>)"

text \<open>\<open>loop()\<close> up to its \<open>while\<close>, and the branches of the \<open>while\<close>.\<close>

definition loop_enter :: "eloop \<Rightarrow> eloop result" where
  "loop_enter s =
     bindE (assertE (\<not> el_looping s) ''!looping_'') (\<lambda>_.
     Inr (s\<lparr>el_looping := True, el_quit := False, el_pc := PcTest\<rparr>))"

definition loop_test :: "eloop \<Rightarrow> eloop" where
  "loop_test s = (if el_quit s then s\<lparr>el_looping := False, el_pc := PcExit\<rparr> else s\<lparr>el_pc := PcPoll\<rparr>)"

definition poll_returns :: "nat list \<Rightarrow> eloop \<Rightarrow> eloop" where
  "poll_returns active s = s\<lparr>el_iteration := Suc (el_iteration s), el_eventHandling := True,
     el_pc := PcHandle active\<rparr>"

definition handle_channel :: "nat \<Rightarrow> nat list \<Rightarrow> eloop \<Rightarrow> eloop" where
  "handle_channel c rest s =
     (if c = wakeupChannel then EL_handleRead s else s)\<lparr>el_pc := PcHandle rest\<rparr>"

definition pending_begin :: "eloop \<Rightarrow> eloop" where
  "pending_begin s = s\<lparr>el_eventHandling := False, el_calling := True, el_pc := PcPending\<rparr>"

definition pending_swap :: "eloop \<Rightarrow> eloop" where
  "pending_swap s = s\<lparr>el_pc := PcFunctors (el_pending s), el_pending := [], el_early := False\<rparr>"

definition run_pending :: "nat \<Rightarrow> nat list \<Rightarrow> eloop \<Rightarrow> eloop" where
  "run_pending f rest s = s\<lparr>el_done := el_done s @ [f], el_pc := PcFunctors rest\<rparr>"

definition pending_end :: "eloop \<Rightarrow> eloop" where
  "pending_end s = s\<lparr>el_calling := False, el_pc := PcTest\<rparr>"

text \<open>Where user code runs in the loop thread.\<close>

fun in_user_code :: "loop_pc \<Rightarrow> bool" where
  "in_user_code PcIdle = True"
| "in_user_code (PcHandle cs) = True"
| "in_user_code (PcFunctors fs) = True"
| "in_user_code _ = False"

inductive loop_step :: "eloop \<Rightarrow> eloop \<Rightarrow> bool" where
  enter: "el_pc s = PcIdle \<Longrightarrow> loop_enter s = Inr s' \<Longrightarrow> loop_step s s'"
| test: "el_pc s = PcTest \<Longrightarrow> loop_step s (loop_test s)"
| poll: "el_pc s = PcPoll \<Longrightarrow> (wakeupChannel \<in> set active \<longleftrightarrow> 0 < el_wakeup s) \<Longrightarrow>
    loop_step s (poll_returns active s)"
| handle: "el_pc s = PcHandle (c # cs) \<Longrightarrow> loop_step s (handle_channel c cs s)"
| pend: "el_pc s = PcHandle [] \<Longrightarrow> loop_step s (pending_begin s)"
| swap: "el_pc s = PcPending \<Longrightarrow> loop_step s (pending_swap s)"
| run: "el_pc s = PcFunctors (f # fs) \<Longrightarrow> loop_step s (run_pending f fs s)"
| finish: "el_pc s = PcFunctors [] \<Longrightarrow> loop_step s (pending_end s)"
| queue: "in_user_code (el_pc s) \<Longrightarrow>
    loop_step s ((queueInLoop f s)\<lparr>el_early := (el_early s \<or> el_pc s = PcIdle)\<rparr>)"
| quit: "in_user_code (el_pc s) \<Longrightarrow> loop_step s (EL_quit s)"
| remote_queue: "loop_step s (queueInLoop_remote f s)"
| remote_quit: "loop_step s (EL_quit_remote s)"
| remote_wake: "0 < el_inflight s \<Longrightarrow> loop_step s (remote_wakeup s)"

inductive_cases loop_stepE: "loop_step s s'"

text \<open>The functors taken out of the queue and not yet run.\<close>

fun taken :: "loop_pc \<Rightarrow> nat list" where
  "taken (PcFunctors fs) = fs"
| "taken _ = []"

fun may_block :: "loop_pc \<Rightarrow> bool" where
  "may_block PcIdle = True"
| "may_block PcTest = True"
| "may_block PcPoll = True"
| "may_block (PcFunctors fs) = True"
| "may_block _ = False"

definition loop_inv :: "eloop \<Rightarrow> bool" where
  "loop_inv s \<longleftrightarrow>
     el_done s @ taken (el_pc s) @ el_pending s = el_queued s \<and>
     (may_block (el_pc s) \<longrightarrow> el_pending s \<noteq> [] \<longrightarrow> 0 < el_wakeup s \<or> 0 < el_inflight s \<or> el_early s) \<and>
     (el_pc s = PcPoll \<longrightarrow> el_quit s \<longrightarrow> 0 < el_wakeup s \<or> 0 < el_inflight s) \<and>
     (el_calling s \<longleftrightarrow> el_pc s = PcPending \<or> (\<exists>fs. el_pc s = PcFunctors fs)) \<and>
     (el_eventHandling s \<longleftrightarrow> (\<exists>cs. el_pc s = PcHandle cs)) \<and>
     (el_looping s \<longleftrightarrow> el_pc s \<noteq> PcIdle \<and> el_pc s \<noteq> PcExit)"

lemmas loop_defs = loop_enter_def loop_test_def poll_returns_def handle_channel_def pending_begin_def
  pending_swap_def run_pending_def pending_end_def queueInLoop_def queueInLoop_remote_def push_pending_def
  EL_quit_def EL_quit_remote_def remote_wakeup_def wakeup_def EL_handleRead_def Let_def

lemma loop_inv_init: "loop_inv newEventLoop"
  by (simp add: loop_inv_def newEventLoop_def)

lemma loop_inv_step:
  assumes inv: "loop_inv s" and step: "loop_step s t"
  shows "loop_inv t"
  using step
proof (cases rule: loop_step.cases)
  case enter
  then show ?thesis using inv by (auto simp: loop_inv_def loop_defs)
next
  case test
  then show ?thesis using inv by (auto simp: loop_inv_def loop_defs)
next
  case (poll active)
  then show ?thesis using inv by (auto simp: loop_inv_def loop_defs)
next
  case (handle c cs)
  then show ?thesis using inv by (auto simp: loop_inv_def loop_defs)
next
  case pend
  then show ?thesis using inv by (auto simp: loop_inv_def loop_defs)
next
  case swap
  then show ?thesis using inv by (auto simp: loop_inv_def loop_defs)
next
  case (run f fs)
  then show ?thesis using inv by (auto simp: loop_inv_def loop_defs)
next
  case finish
  then show ?thesis using inv by (auto simp: loop_inv_def loop_defs)
next
  case (queue f)
  then show ?thesis using inv by (cases "el_pc s") (auto simp: loop_inv_def loop_defs)
next
  case quit
  then show ?thesis using inv by (cases "el_pc s") (auto simp: loop_inv_def loop_defs)
next
  case (remote_queue f)
  then show ?thesis using inv by (cases "el_pc s") (auto simp: loop_inv_def loop_defs)
next
  case remote_quit
  then show ?thesis using inv by (auto simp: loop_inv_def loop_defs)
next
  case remote_wake
  then show ?thesis using inv by (auto simp: loop_inv_def loop_defs)
qed

interpretation el: step_invariant "\<lambda>s. s = newEventLoop" loop_step loop_inv
  by unfold_locales (auto intro: loop_inv_init loop_inv_step)

abbreviation loop_reach :: "eloop \<Rightarrow> bool" where
  "loop_reach \<equiv> reach (\<lambda>s. s = newEventLoop) loop_step"

section \<open>Timers of the loop\<close>

text \<open>\<open>runAt\<close>, \<open>runAfter\<close> and \<open>runEvery\<close> in the loop thread; the address is the allocator's.\<close>

definition runAt :: "(nat \<Rightarrow> int) \<Rightarrow> nat \<Rightarrow> int \<Rightarrow> nat \<Rightarrow> tqueue \<Rightarrow> (timer_id \<times> tqueue) result" where
  "runAt clk addr time cb q = addTimer clk addr cb time 0 q"

definition runAfter :: "(nat \<Rightarrow> int) \<Rightarrow> nat \<Rightarrow> rat \<Rightarrow> nat \<Rightarrow> tqueue \<Rightarrow> (timer_id \<times> tqueue) result" where
  "runAfter clk addr delay cb q =
     (case timestamp_now clk q of (now, q') \<Rightarrow> runAt clk addr (addTime now delay) cb q')"

definition runEvery :: "(nat \<Rightarrow> int) \<Rightarrow> nat \<Rightarrow> rat \<Rightarrow> nat \<Rightarrow> tqueue \<Rightarrow> (timer_id \<times> tqueue) result" where
  "runEvery clk addr interval cb q =
     (case timestamp_now clk q of (now, q') \<Rightarrow> addTimer clk addr cb (addTime now interval) interval q')"

section \<open>Loop threads\<close>

text \<open>
  \<open>EventLoopThread\<close>: the thread that called \<open>startLoop\<close> waits for \<open>loop_\<close>; the new thread
  constructs the loop, calls the callback, publishes the loop and enters it.
\<close>

datatype elt_pc = NotStarted | Constructing | CallingBack | Publishing | Looping | Finished

record elthread =
  elt_thread :: elt_pc
  elt_loop :: bool
  elt_called :: bool
  elt_returned :: "bool option"
  elt_exiting :: bool

definition newEventLoopThread :: elthread where
  "newEventLoopThread = \<lparr>elt_thread = NotStarted, elt_loop = False, elt_called = False,
     elt_returned = None, elt_exiting = False\<rparr>"

inductive elt_step :: "bool \<Rightarrow> elthread \<Rightarrow> elthread \<Rightarrow> bool" for callback where
  start: "elt_thread s = NotStarted \<Longrightarrow> elt_step callback s (s\<lparr>elt_thread := Constructing\<rparr>)"
| construct: "elt_thread s = Constructing \<Longrightarrow>
    elt_step callback s (s\<lparr>elt_thread := if callback then CallingBack else Publishing\<rparr>)"
| call: "elt_thread s = CallingBack \<Longrightarrow>
    elt_step callback s (s\<lparr>elt_called := True, elt_thread := Publishing\<rparr>)"
| publish: "elt_thread s = Publishing \<Longrightarrow> elt_step callback s (s\<lparr>elt_loop := True, elt_thread := Looping\<rparr>)"
| start_returns: "elt_thread s \<noteq> NotStarted \<Longrightarrow> elt_loop s \<Longrightarrow>
    elt_step callback s (s\<lparr>elt_returned := Some (elt_loop s)\<rparr>)"
| leave: "elt_thread s = Looping \<Longrightarrow> elt_step callback s (s\<lparr>elt_thread := Finished\<rparr>)"

text \<open>The destructor calls \<open>loop_->quit()\<close> without looking at the pointer.\<close>

definition EventLoopThread_dtor :: "elthread \<Rightarrow> elthread result" where
  "EventLoopThread_dtor s =
     (let s' = s\<lparr>elt_exiting := True\<rparr> in
      if elt_loop s' then Inr s' else Inl (Undefined_Behaviour ''null EventLoop*''))"

definition elt_inv :: "bool \<Rightarrow> elthread \<Rightarrow> bool" where
  "elt_inv callback s \<longleftrightarrow> (elt_loop s \<longleftrightarrow> elt_thread s = Looping \<or> elt_thread s = Finished) \<and>
     (elt_thread s \<in> {Publishing, Looping, Finished} \<longrightarrow> callback \<longrightarrow> elt_called s) \<and>
     (elt_returned s = None \<or> elt_returned s = Some True \<and> elt_loop s)"

interpretation elt: step_invariant "\<lambda>s. s = newEventLoopThread" "elt_step callback" "elt_inv callback"
  for callback
proof
  show "elt_inv callback s" if "s = newEventLoopThread" for s
    using that by (simp add: elt_inv_def newEventLoopThread_def)
  show "elt_inv callback t" if "elt_inv callback s" and "elt_step callback s t" for s t
    using that(2,1) by (cases rule: elt_step.cases) (auto simp: elt_inv_def)
qed

section \<open>The pool of loops\<close>

record elpool =
  tp_baseLoop :: nat
  tp_started :: bool
  tp_numThreads :: nat
  tp_next :: nat
  tp_loops :: "nat list"

definition newEventLoopThreadPool :: "nat \<Rightarrow> elpool" where
  "newEventLoopThreadPool baseLoop = \<lparr>tp_baseLoop = baseLoop, tp_started = False, tp_numThreads = 0,
     tp_next = 0, tp_loops = []\<rparr>"

text \<open>
  \<open>start\<close>: the loops that the new threads return are an argument; the second component says for
  which loops the initialisation callback ran in this thread.
\<close>

definition TP_start :: "bool \<Rightarrow> (nat \<Rightarrow> nat) \<Rightarrow> bool \<Rightarrow> elpool \<Rightarrow> (elpool \<times> nat list) result" where
  "TP_start inLoop new cb p =
     bindE (assertE (\<not> tp_started p) ''!started_'') (\<lambda>_.
     if \<not> inLoop then Inl (FatalLog ''EventLoop::abortNotInLoopThread'')
     else Inr (p\<lparr>tp_started := True, tp_loops := tp_loops p @ map new [0..<tp_numThreads p]\<rparr>,
               if tp_numThreads p = 0 \<and> cb then [tp_baseLoop p] else []))"

definition getNextLoop :: "bool \<Rightarrow> elpool \<Rightarrow> (nat \<times> elpool) result" where
  "getNextLoop inLoop p =
     (if \<not> inLoop then Inl (FatalLog ''EventLoop::abortNotInLoopThread'')
      else if tp_loops p \<noteq> [] then
        if tp_next p < length (tp_loops p) then
          let nxt = tp_next p + 1 in
          Inr (tp_loops p ! tp_next p, p\<lparr>tp_next := if length (tp_loops p) \<le> nxt then 0 else nxt\<rparr>)
        else Inl (Undefined_Behaviour ''loops_[next_] out of range'')
      else Inr (tp_baseLoop p, p))"

fun next_loops :: "nat \<Rightarrow> elpool \<Rightarrow> (nat list \<times> elpool) result" where
  "next_loops 0 p = Inr ([], p)"
| "next_loops (Suc k) p =
     bindE (getNextLoop True p) (\<lambda>(l, p'). bindE (next_loops k p') (\<lambda>(ls, p''). Inr (l # ls, p'')))"

lemma getNextLoop_ok:
  assumes "tp_loops p \<noteq> []" and "tp_next p < length (tp_loops p)"
  shows "getNextLoop True p = Inr (tp_loops p ! tp_next p,
    p\<lparr>tp_next := Suc (tp_next p) mod length (tp_loops p)\<rparr>)"
  using assms by (auto simp: getNextLoop_def Let_def mod_Suc le_Suc_eq)

section \<open>Properties\<close>

text \<open>
  C9. In every interleaving of the loop thread with other threads, the functors given to
  \<open>queueInLoop\<close> are run in the order in which they were queued, none is dropped and none runs twice:
  the functors already run, those taken out of the queue and those still queued are together exactly
  the functors queued so far.
\<close>

theorem eventloop_fifo:
  assumes "loop_reach s"
  shows "el_done s @ taken (el_pc s) @ el_pending s = el_queued s"
  using el.reach_inv [OF assms] by (simp add: loop_inv_def)

text \<open>A run: a functor is queued by another thread while the loop is in its poll.\<close>

definition demo_loop :: eloop where
  "demo_loop = queueInLoop_remote 5 (loop_test (newEventLoop\<lparr>el_looping := True, el_pc := PcTest\<rparr>))"

lemma demo_loop_reach: "loop_reach demo_loop"
proof -
  have "loop_reach newEventLoop" by (rule reach_init) simp
  then have "loop_reach (newEventLoop\<lparr>el_looping := True, el_pc := PcTest\<rparr>)"
    by (rule reach_step) (rule enter, simp_all add: newEventLoop_def loop_enter_def)
  then have "loop_reach (loop_test (newEventLoop\<lparr>el_looping := True, el_pc := PcTest\<rparr>))"
    by (rule reach_step) (rule test, simp)
  then show ?thesis unfolding demo_loop_def by (rule reach_step) (rule remote_queue)
qed

theorem eventloop_fifo_witness:
  "el_done demo_loop @ taken (el_pc demo_loop) @ el_pending demo_loop = [5]"
  using eventloop_fifo [OF demo_loop_reach]
  by (simp add: demo_loop_def loop_defs newEventLoop_def)

text \<open>
  C8. No wake-up is lost: whenever the loop thread is blocked in the poller while a functor is queued
  or \<open>quit\<close> was called, the event descriptor is readable or a thread is about to write to it, unless
  the functor was queued by the loop's own thread before it entered \<open>loop()\<close>.
\<close>

theorem eventloop_no_lost_wakeup:
  assumes "loop_reach s" and "el_pc s = PcPoll"
    and "el_quit s \<or> el_pending s \<noteq> [] \<and> \<not> el_early s"
  shows "0 < el_wakeup s \<or> 0 < el_inflight s"
  using el.reach_inv [OF assms(1)] assms(2,3) by (auto simp: loop_inv_def)

theorem eventloop_no_lost_wakeup_witness:
  "0 < el_wakeup demo_loop \<or> 0 < el_inflight demo_loop"
  by (rule eventloop_no_lost_wakeup [OF demo_loop_reach])
     (simp_all add: demo_loop_def loop_defs newEventLoop_def)

text \<open>
  What happens before \<open>loop()\<close> can be missed. A functor queued by the loop's own thread before
  \<open>loop()\<close> does not wake the first poll, which then blocks although work is queued; and a \<open>quit()\<close>
  that comes before \<open>loop()\<close> is overwritten, so the loop polls as if it had never been called.
\<close>

theorem eventloop_before_loop_gaps:
  "(\<exists>s. loop_reach s \<and> el_pc s = PcPoll \<and> el_pending s = [5] \<and> el_wakeup s = 0 \<and> el_inflight s = 0) \<and>
   (\<exists>s t. loop_reach s \<and> loop_step s (EL_quit_remote s) \<and> loop_step\<^sup>*\<^sup>* (EL_quit_remote s) t \<and>
      el_pc t = PcPoll \<and> \<not> el_quit t)"
proof
  let ?n = newEventLoop
  let ?q = "(queueInLoop 5 ?n)\<lparr>el_early := (el_early ?n \<or> el_pc ?n = PcIdle)\<rparr>"
  let ?e = "?q\<lparr>el_looping := True, el_quit := False, el_pc := PcTest\<rparr>"
  have r: "loop_reach ?n" by (rule reach_init) simp
  have "loop_step ?n ?q" by (rule queue) (simp add: newEventLoop_def)
  moreover have "loop_step ?q ?e" by (rule enter) (simp_all add: newEventLoop_def loop_defs)
  moreover have "loop_step ?e (loop_test ?e)" by (rule test) simp
  ultimately have "loop_reach (loop_test ?e)" using r by (meson reach_step)
  then show "\<exists>s. loop_reach s \<and> el_pc s = PcPoll \<and> el_pending s = [5] \<and> el_wakeup s = 0 \<and> el_inflight s = 0"
    by (rule exI [of _ "loop_test ?e", OF conjI]) (simp add: newEventLoop_def loop_defs)
next
  let ?n = newEventLoop
  let ?q = "EL_quit_remote ?n"
  let ?e = "?q\<lparr>el_looping := True, el_quit := False, el_pc := PcTest\<rparr>"
  have r: "loop_reach ?n" by (rule reach_init) simp
  have a: "loop_step ?n ?q" by (rule remote_quit)
  have "loop_step ?q ?e" by (rule enter) (simp_all add: newEventLoop_def loop_defs)
  moreover have "loop_step ?e (loop_test ?e)" by (rule test) simp
  ultimately have "loop_step\<^sup>*\<^sup>* ?q (loop_test ?e)" by (meson converse_rtranclp_into_rtranclp rtranclp.rtrancl_refl)
  then show "\<exists>s t. loop_reach s \<and> loop_step s (EL_quit_remote s) \<and> loop_step\<^sup>*\<^sup>* (EL_quit_remote s) t \<and>
      el_pc t = PcPoll \<and> \<not> el_quit t"
    using r a by (intro exI [of _ ?n] exI [of _ "loop_test ?e"]) (simp add: loop_test_def)
qed

text \<open>
  \<open>startLoop\<close> returns only after the new thread has published its loop, and the initialisation
  callback has then been called; destroying an \<open>EventLoopThread\<close> that was never started
  dereferences a null pointer.
\<close>

theorem eventloopthread_start:
  assumes "reach (\<lambda>s. s = newEventLoopThread) (elt_step callback) s"
  shows "(elt_returned s \<noteq> None \<longrightarrow> elt_returned s = Some True \<and> (callback \<longrightarrow> elt_called s)) \<and>
    EventLoopThread_dtor newEventLoopThread = Inl (Undefined_Behaviour ''null EventLoop*'')"
  using elt.reach_inv [OF assms]
  by (auto simp: elt_inv_def EventLoopThread_dtor_def newEventLoopThread_def)

theorem eventloopthread_start_witness:
  "\<exists>s. reach (\<lambda>s. s = newEventLoopThread) (elt_step True) s \<and> elt_returned s = Some True \<and> elt_called s"
proof -
  let ?n = newEventLoopThread
  let ?a = "?n\<lparr>elt_thread := Constructing\<rparr>"
  let ?b = "?a\<lparr>elt_thread := if True then CallingBack else Publishing\<rparr>"
  let ?c = "?b\<lparr>elt_called := True, elt_thread := Publishing\<rparr>"
  let ?d = "?c\<lparr>elt_loop := True, elt_thread := Looping\<rparr>"
  let ?e = "?d\<lparr>elt_returned := Some (elt_loop ?d)\<rparr>"
  have "reach (\<lambda>s. s = ?n) (elt_step True) ?n" by (rule reach_init) simp
  moreover have "elt_step True ?n ?a" by (rule start) (simp add: newEventLoopThread_def)
  moreover have "elt_step True ?a ?b" by (rule construct) simp
  moreover have "elt_step True ?b ?c" by (rule call) simp
  moreover have "elt_step True ?c ?d" by (rule publish) simp
  moreover have "elt_step True ?d ?e" by (rule start_returns) simp_all
  ultimately have r: "reach (\<lambda>s. s = ?n) (elt_step True) ?e" by (meson reach_step)
  have "elt_returned ?e = Some True" by simp
  with eventloopthread_start [OF r] r show ?thesis by auto
qed

text \<open>
  \<open>getNextLoop\<close> deals out the loops of the pool in turn: \<open>k\<close> calls on a pool of \<open>n > 0\<close> loops
  return the loops at the positions \<open>next, next + 1, \<dots>\<close> modulo \<open>n\<close>, and never read outside the
  vector; without threads every call returns the base loop.
\<close>

theorem pool_round_robin:
  assumes "tp_next p < length (tp_loops p) \<or> tp_loops p = []"
  shows "\<exists>p'. next_loops k p = Inr (map (\<lambda>i. if tp_loops p = [] then tp_baseLoop p
      else tp_loops p ! ((tp_next p + i) mod length (tp_loops p))) [0..<k], p')"
  using assms
proof (induction k arbitrary: p)
  case 0
  then show ?case by simp
next
  case (Suc k)
  show ?case
  proof (cases "tp_loops p = []")
    case True
    then have "getNextLoop True p = Inr (tp_baseLoop p, p)" by (simp add: getNextLoop_def)
    then show ?thesis using Suc.IH [OF Suc.prems] True by (auto simp: map_replicate_const)
  next
    case False
    let ?n = "length (tp_loops p)"
    let ?p = "p\<lparr>tp_next := Suc (tp_next p) mod ?n\<rparr>"
    have g: "getNextLoop True p = Inr (tp_loops p ! tp_next p, ?p)"
      using getNextLoop_ok False Suc.prems by blast
    have "tp_next ?p < length (tp_loops ?p) \<or> tp_loops ?p = []" using False by simp
    from Suc.IH [OF this] obtain p' where p': "next_loops k ?p =
        Inr (map (\<lambda>i. tp_loops p ! ((Suc (tp_next p) mod ?n + i) mod ?n)) [0..<k], p')"
      using False by auto
    have "map (\<lambda>i. tp_loops p ! ((tp_next p + i) mod ?n)) [0..<Suc k] =
        tp_loops p ! tp_next p # map (\<lambda>i. tp_loops p ! ((Suc (tp_next p) mod ?n + i) mod ?n)) [0..<k]"
      using Suc.prems False
      by (subst upt_conv_Cons) (auto simp: map_Suc_upt [symmetric] mod_add_left_eq simp del: upt_Suc)
    then show ?thesis using g p' False by simp
  qed
qed

theorem pool_round_robin_witness:
  "\<exists>p p'. TP_start True (\<lambda>i. 10 + i) False ((newEventLoopThreadPool 1)\<lparr>tp_numThreads := 3\<rparr>) = Inr (p, []) \<and>
     next_loops 4 p = Inr ([10, 11, 12, 10], p')"
proof -
  let ?p = "(newEventLoopThreadPool 1)\<lparr>tp_numThreads := 3, tp_started := True, tp_loops := [10, 11, 12]\<rparr>"
  have upt3: "[0..<3] = [0, 1, 2 :: nat]" and upt4: "[0..<4] = [0, 1, 2, 3 :: nat]"
    by (simp_all add: upt_conv_Cons)
  have "TP_start True (\<lambda>i. 10 + i) False ((newEventLoopThreadPool 1)\<lparr>tp_numThreads := 3\<rparr>) = Inr (?p, [])"
    by (simp add: TP_start_def newEventLoopThreadPool_def upt3)
  moreover have "tp_next ?p < length (tp_loops ?p) \<or> tp_loops ?p = []" "tp_next ?p = 0"
    by (simp_all add: newEventLoopThreadPool_def)
  moreover from pool_round_robin [OF this(1), of 4] this(2)
  have "\<exists>p'. next_loops 4 ?p = Inr ([10, 11, 12, 10], p')" by (simp add: upt4)
  ultimately show ?thesis by blast
qed

end
