(* ===== verification/Loop_Timers.thy ===== *)
theory Loop_Timers
  imports Event_Loop
begin

text \<open>
  Timers and threads (\<open>src/muduo/net/TimerQueue.cc\<close>, \<open>EventLoop.cc\<close>): \<open>addTimer\<close> and \<open>cancel\<close> can be called from any
  thread. They create the \<open>Timer\<close> there and go through \<open>runInLoop\<close>, so that in the thread of the loop the
  queue is changed at once, and for another thread a functor is queued. The loop of \<open>Event_Loop\<close> and the
  queue of \<open>Timer_Queue\<close> are put together here; functor number \<open>f\<close> of the loop is entry \<open>f\<close> of a list.
\<close>

section \<open>Ids in the queue\<close>

text \<open>Sequence numbers only grow, and an id enters the queue only as a new one.\<close>

definition tq_grows :: "tqueue \<Rightarrow> tqueue \<Rightarrow> bool" where
  "tq_grows q q' \<longleftrightarrow> tq_numCreated q \<le> tq_numCreated q' \<and>
     tq_active q' \<subseteq> tq_active q \<union> {i. tq_numCreated q < snd i \<and> snd i \<le> tq_numCreated q'}"

lemma tq_grows_refl [simp]: "tq_grows q q"
  by (simp add: tq_grows_def)

lemma tq_grows_trans: "tq_grows q1 q2 \<Longrightarrow> tq_grows q2 q3 \<Longrightarrow> tq_grows q1 q3"
  by (fastforce simp: tq_grows_def)

lemma insert_active:
  assumes "TQ_insert a q = Inr (b, q')"
  shows "\<exists>t. tq_heap q a = Some t \<and> q' = q\<lparr>tq_timers := insort (tm_expiration t, a) (tq_timers q),
    tq_active := insert (a, tm_sequence t) (tq_active q)\<rparr>"
  using assms by (auto simp: TQ_insert_def Let_def)

lemma addTimer_grows: "addTimer clk a cb w iv q = Inr (i, q') \<Longrightarrow> tq_grows q q'"
  by (auto simp: addTimer_def addTimerInLoop_def Let_def tq_grows_def Timer_new_def dest!: insert_active split: if_splits)

lemma cancel_grows: "cancelInLoop intact i q = Inr q' \<Longrightarrow> tq_grows q q'"
  by (auto simp: cancelInLoop_def delete_timer_def read_erased_def Let_def tq_grows_def split: if_splits)

lemma cancel_frame:
  assumes "tq_inv E q" and "i \<in> tq_active q \<longrightarrow> intact i"
  shows "\<exists>q'. cancelInLoop intact i q = Inr q' \<and> tq_inv E q' \<and> i \<notin> tq_active q' \<and> (\<forall>a\<in>E. tq_heap q' a = tq_heap q a)"
proof -
  from cancelInLoop_ok [OF assms(1), of i intact] assms(2) obtain q' where q': "cancelInLoop intact i q = Inr q'" "tq_inv E q'" "i \<notin> tq_active q'"
    "i \<in> tq_active q \<longrightarrow> fst i \<notin> E \<and> tq_heap q' = (tq_heap q)(fst i := None)" "i \<notin> tq_active q \<longrightarrow> tq_heap q' = tq_heap q" by blast
  have "tq_heap q' a = tq_heap q a" if "a \<in> E" for a using q'(4,5) that by (cases "i \<in> tq_active q") auto
  then show ?thesis using q'(1-3) by blast
qed

lemma run_timer_grows: "run_timer intact clk cb e q = Inr q' \<Longrightarrow> tq_grows q q'"
proof -
  have act: "tq_grows q1 q2" if "run_timer_action intact clk act q1 = Inr q2" for act q1 q2
    using that by (cases act) (auto dest: addTimer_grows cancel_grows)
  have acts: "tq_grows q1 q2" if "foldE (run_timer_action intact clk) acts q1 = Inr q2" for acts q1 q2
    using that by (induction acts arbitrary: q1) (auto intro: tq_grows_trans dest: act)
  assume "run_timer intact clk cb e q = Inr q'"
  then obtain t :: timer where "foldE (run_timer_action intact clk) (cb (tm_callback t) q) (q\<lparr>tq_ran := tq_ran q @ [snd e]\<rparr>) = Inr q'"
    unfolding run_timer_def by (elim bindE_InrE)
  from acts [OF this] show ?thesis by (simp add: tq_grows_def)
qed

lemma run_timers_grow: "foldE (run_timer intact clk cb) es q = Inr q' \<Longrightarrow> tq_grows q q'"
  by (induction es arbitrary: q) (auto intro: tq_grows_trans dest: run_timer_grows)

abbreviation id_at :: "tqueue \<Rightarrow> nat \<Rightarrow> timer_id" where
  "id_at q a \<equiv> (a, tm_sequence (the (tq_heap q a)))"

lemma reset1_active:
  assumes "reset1 now e q = Inr q'"
  shows "tq_active q' \<subseteq> insert (id_at q (snd e)) (tq_active q)" and "tq_numCreated q' = tq_numCreated q"
    and "a \<noteq> snd e \<Longrightarrow> tq_heap q' a = tq_heap q a"
  using assms by (auto simp: reset1_def delete_timer_def Timer_restart_def dest!: insert_active split: if_splits)

lemma reset_active:
  assumes "foldE (reset1 now) es q = Inr q'" and "distinct (map snd es)"
  shows "tq_active q' \<subseteq> tq_active q \<union> id_at q ` snd ` set es \<and> tq_numCreated q' = tq_numCreated q"
  using assms
proof (induction es arbitrary: q)
  case (Cons e es)
  then obtain q1 where q1: "reset1 now e q = Inr q1" "foldE (reset1 now) es q1 = Inr q'" by auto
  have "id_at q1 a = id_at q a" if "a \<in> snd ` set es" for a
  proof -
    have "a \<noteq> snd e" using Cons.prems(2) that by (metis distinct.simps(2) list.set_map list.simps(9))
    then show ?thesis using reset1_active(3) [OF q1(1)] by simp
  qed
  then have eq: "id_at q1 ` snd ` set es = id_at q ` snd ` set es" by (rule image_cong [OF refl])
  define X where "X = id_at q ` snd ` set es"
  have 1: "tq_active q' \<subseteq> tq_active q1 \<union> X" "tq_numCreated q' = tq_numCreated q1"
    using Cons.IH [OF q1(2)] Cons.prems(2) unfolding eq X_def by simp_all
  have 2: "id_at q ` snd ` set (e # es) = insert (id_at q (snd e)) X" by (simp add: X_def)
  have "tq_active q' \<subseteq> tq_active q \<union> insert (id_at q (snd e)) X" using 1(1) reset1_active(1) [OF q1(1)] by blast
  then show ?case unfolding 2 using 1(2) reset1_active(2) [OF q1(1)] by simp
qed simp

lemma handleRead_grows:
  assumes inv: "tq_inv E q" and run: "TQ_handleRead intact clk cb q = Inr q'"
  shows "tq_grows q q'"
proof -
  let ?now = "clk (tq_clock q)" and ?q0 = "q\<lparr>tq_clock := Suc (tq_clock q)\<rparr>"
  let ?due = "due_timers ?now (tq_timers q)"
  have inv0: "tq_inv E ?q0" by (rule tq_inv_cong [OF inv]) simp_all
  from getExpired_ok [OF inv0, of ?now] obtain q1 where q1: "getExpired ?now ?q0 = Inr (?due, q1)" "tq_inv (snd ` set ?due \<union> E) q1"
    "q1 = ?q0\<lparr>tq_timers := later_timers ?now (tq_timers q), tq_active := active_of (tq_heap q) (later_timers ?now (tq_timers q))\<rparr>" by auto
  let ?q1 = "q1\<lparr>tq_calling := True, tq_canceling := {}\<rparr>"
  from run q1(1) obtain q2 where q2: "foldE (run_timer intact clk cb) ?due ?q1 = Inr q2"
    "TQ_reset clk ?due ?now (q2\<lparr>tq_calling := False\<rparr>) = Inr q'" by (auto simp: TQ_handleRead_def timestamp_now_def)
  have inv1: "tq_inv (snd ` set ?due \<union> E) ?q1" by (rule tq_inv_cong [OF q1(2)]) simp_all
  from run_timers_ok [OF inv1 Un_upper1, of intact clk cb] q2(1) have h: "tq_heap q2 a = tq_heap q a" if "a \<in> snd ` set ?due" for a
    using that by (auto simp: q1(3))
  have g: "tq_grows ?q1 q2" by (rule run_timers_grow [OF q2(1)])
  have d: "distinct (map snd ?due)" using tq_invD(2) [OF inv] by (auto simp: due_timers_def distinct_map_filter)
  from q2(2) obtain q3 where q3: "foldE (reset1 ?now) ?due (q2\<lparr>tq_calling := False\<rparr>) = Inr q3" "tq_active q' = tq_active q3"
    "tq_numCreated q' = tq_numCreated q3" by (auto simp: TQ_reset_def split: if_splits)
  have r: "tq_active q' \<subseteq> tq_active q2 \<union> id_at q2 ` snd ` set ?due" "tq_numCreated q' = tq_numCreated q2"
    using reset_active [OF q3(1) d] q3(2,3) by simp_all
  have "id_at q2 ` snd ` set ?due = active_of (tq_heap q) ?due" unfolding active_of_def by (rule image_cong) (simp_all add: h)
  moreover have "active_of (tq_heap q) ?due \<subseteq> tq_active q" "active_of (tq_heap q) (later_timers ?now (tq_timers q)) \<subseteq> tq_active q"
    unfolding tq_invD(5) [OF inv] by (auto simp: active_of_def due_timers_def later_timers_def)
  moreover have "tq_numCreated q \<le> tq_numCreated q2" "tq_active q2 \<subseteq> active_of (tq_heap q) (later_timers ?now (tq_timers q)) \<union>
      {i. tq_numCreated q < snd i \<and> snd i \<le> tq_numCreated q2}" using g by (simp_all add: tq_grows_def q1(3))
  ultimately show ?thesis using r unfolding tq_grows_def by (simp only: r(2)) blast
qed

section \<open>The loop with its timers\<close>

text \<open>A functor of the timer queue, with the id that \<open>addTimer\<close> returned, or one of the user.\<close>

datatype timer_functor = Bound_add timer_id | Bound_cancel timer_id | Bound_user

record timer_loop =
  lt_loop :: eloop
  lt_queue :: tqueue
  lt_functors :: "timer_functor list"

definition timerfdChannel :: nat where "timerfdChannel = 1"

text \<open>\<open>new Timer\<close>, in the thread of the caller.\<close>

definition new_timer :: "nat \<Rightarrow> nat \<Rightarrow> int \<Rightarrow> rat \<Rightarrow> tqueue \<Rightarrow> (timer_id \<times> tqueue) result" where
  "new_timer addr callback w interval q =
     (if tq_heap q addr = None \<and> addr < UINTPTR_MAX then
        let sequence = tq_numCreated q + 1 in
        Inr ((addr, sequence), q\<lparr>tq_numCreated := sequence,
          tq_heap := (tq_heap q)(addr \<mapsto> Timer_new callback w interval sequence)\<rparr>)
      else Inl (Cpp_Exception ''bad_alloc''))"

lemma addTimer_split:
  "addTimer clk addr callback w interval q =
     bindE (new_timer addr callback w interval q) (\<lambda>(i, q'). bindE (addTimerInLoop clk addr q') (\<lambda>q''. Inr (i, q'')))"
  by (simp add: addTimer_def new_timer_def Let_def)

text \<open>\<open>runInLoop\<close> by another thread.\<close>

definition lt_post :: "timer_functor \<Rightarrow> timer_loop \<Rightarrow> timer_loop" where
  "lt_post fn s = s\<lparr>lt_functors := lt_functors s @ [fn], lt_loop := queueInLoop_remote (length (lt_functors s)) (lt_loop s)\<rparr>"

definition remote_addTimer :: "nat \<Rightarrow> nat \<Rightarrow> int \<Rightarrow> rat \<Rightarrow> timer_loop \<Rightarrow> (timer_id \<times> timer_loop) result" where
  "remote_addTimer addr callback w interval s =
     bindE (new_timer addr callback w interval (lt_queue s)) (\<lambda>(i, q).
     Inr (i, lt_post (Bound_add i) (s\<lparr>lt_queue := q\<rparr>)))"

definition remote_cancel :: "timer_id \<Rightarrow> timer_loop \<Rightarrow> timer_loop" where
  "remote_cancel i s = lt_post (Bound_cancel i) s"

definition own_addTimer :: "(nat \<Rightarrow> int) \<Rightarrow> nat \<Rightarrow> nat \<Rightarrow> int \<Rightarrow> rat \<Rightarrow> timer_loop \<Rightarrow> (timer_id \<times> timer_loop) result" where
  "own_addTimer clk addr callback w interval s =
     bindE (addTimer clk addr callback w interval (lt_queue s)) (\<lambda>(i, q). Inr (i, s\<lparr>lt_queue := q\<rparr>))"

definition own_cancel :: "(timer_id \<Rightarrow> bool) \<Rightarrow> timer_id \<Rightarrow> timer_loop \<Rightarrow> timer_loop result" where
  "own_cancel intact i s = bindE (cancelInLoop intact i (lt_queue s)) (\<lambda>q. Inr (s\<lparr>lt_queue := q\<rparr>))"

fun call_functor :: "(timer_id \<Rightarrow> bool) \<Rightarrow> (nat \<Rightarrow> int) \<Rightarrow> timer_functor \<Rightarrow> tqueue \<Rightarrow> tqueue result" where
  "call_functor intact clk (Bound_add i) q = addTimerInLoop clk (fst i) q"
| "call_functor intact clk (Bound_cancel i) q = cancelInLoop intact i q"
| "call_functor intact clk Bound_user q = Inr q"

definition lt_run :: "(timer_id \<Rightarrow> bool) \<Rightarrow> (nat \<Rightarrow> int) \<Rightarrow> nat \<Rightarrow> nat list \<Rightarrow> timer_loop \<Rightarrow> timer_loop result" where
  "lt_run intact clk f rest s = bindE (call_functor intact clk (lt_functors s ! f) (lt_queue s)) (\<lambda>q.
     Inr (s\<lparr>lt_queue := q, lt_loop := run_pending f rest (lt_loop s)\<rparr>))"

definition lt_fire :: "(timer_id \<Rightarrow> bool) \<Rightarrow> (nat \<Rightarrow> int) \<Rightarrow> timer_cb \<Rightarrow> nat list \<Rightarrow> timer_loop \<Rightarrow> timer_loop result" where
  "lt_fire intact clk cb rest s = bindE (TQ_handleRead intact clk cb (lt_queue s)) (\<lambda>q.
     Inr (s\<lparr>lt_queue := q, lt_loop := handle_channel timerfdChannel rest (lt_loop s)\<rparr>))"

text \<open>
  A step of the loop that neither queues nor runs a functor nor handles the timer descriptor is one of the loop alone.
\<close>

inductive lt_step :: "(timer_id \<Rightarrow> bool) \<Rightarrow> (nat \<Rightarrow> int) \<Rightarrow> timer_cb \<Rightarrow> timer_loop result \<Rightarrow> timer_loop result \<Rightarrow> bool" for intact clk cb where
  lt_loops: "loop_step (lt_loop s) l \<Longrightarrow> el_queued l = el_queued (lt_loop s) \<Longrightarrow> el_done l = el_done (lt_loop s) \<Longrightarrow>
    (\<nexists>cs. el_pc (lt_loop s) = PcHandle (timerfdChannel # cs)) \<Longrightarrow> lt_step intact clk cb (Inr s) (Inr (s\<lparr>lt_loop := l\<rparr>))"
| lt_runs: "el_pc (lt_loop s) = PcFunctors (f # fs) \<Longrightarrow> lt_step intact clk cb (Inr s) (lt_run intact clk f fs s)"
| lt_fires: "el_pc (lt_loop s) = PcHandle (timerfdChannel # cs) \<Longrightarrow> lt_step intact clk cb (Inr s) (lt_fire intact clk cb cs s)"
| lt_own_add: "in_user_code (el_pc (lt_loop s)) \<Longrightarrow>
    lt_step intact clk cb (Inr s) (bindE (own_addTimer clk addr callback w interval s) (\<lambda>(i, s'). Inr s'))"
| lt_own_cancel: "in_user_code (el_pc (lt_loop s)) \<Longrightarrow> lt_step intact clk cb (Inr s) (own_cancel intact i s)"
| lt_remote_add: "lt_step intact clk cb (Inr s) (bindE (remote_addTimer addr callback w interval s) (\<lambda>(i, s'). Inr s'))"
| lt_remote_cancel: "lt_step intact clk cb (Inr s) (Inr (remote_cancel i s))"
| lt_remote_user: "lt_step intact clk cb (Inr s) (Inr (lt_post Bound_user s))"

definition lt_init :: "timer_loop result \<Rightarrow> bool" where
  "lt_init r \<longleftrightarrow> r = Inr \<lparr>lt_loop = newEventLoop, lt_queue = newTimerQueue, lt_functors = []\<rparr>"

section \<open>Invariant\<close>

fun added :: "timer_functor \<Rightarrow> timer_id list" where
  "added (Bound_add i) = [i]"
| "added _ = []"

definition adds :: "timer_functor list \<Rightarrow> timer_id list" where
  "adds fns = concat (map added fns)"

text \<open>The timers that other threads created and the loop has not yet taken in.\<close>

definition waiting :: "timer_loop \<Rightarrow> timer_id list" where
  "waiting s = adds (drop (length (el_done (lt_loop s))) (lt_functors s))"

text \<open>The ids whose cancellation was queued after their addition, and has run.\<close>

definition cancelled_in_order :: "timer_loop \<Rightarrow> timer_id \<Rightarrow> bool" where
  "cancelled_in_order s i \<longleftrightarrow> (\<exists>f g. f < g \<and> g < length (el_done (lt_loop s)) \<and>
     lt_functors s ! f = Bound_add i \<and> lt_functors s ! g = Bound_cancel i)"

definition lt_inv :: "timer_loop \<Rightarrow> bool" where
  "lt_inv s \<longleftrightarrow> loop_inv (lt_loop s) \<and> el_queued (lt_loop s) = [0..<length (lt_functors s)] \<and>
     distinct (adds (lt_functors s)) \<and> distinct (map fst (waiting s)) \<and>
     (\<forall>i\<in>set (adds (lt_functors s)) \<union> tq_active (lt_queue s). snd i \<le> tq_numCreated (lt_queue s)) \<and>
     tq_inv (fst ` set (waiting s)) (lt_queue s) \<and>
     (\<forall>i\<in>set (waiting s). \<exists>t. tq_heap (lt_queue s) (fst i) = Some t \<and> tm_sequence t = snd i) \<and>
     (\<forall>i. cancelled_in_order s i \<longrightarrow> i \<notin> tq_active (lt_queue s))"

lemma adds_simps [simp]: "adds [] = []" "adds (fn # fns) = added fn @ adds fns" "adds (xs @ ys) = adds xs @ adds ys"
  by (simp_all add: adds_def)

lemma adds_nth: "f < length fns \<Longrightarrow> fns ! f = Bound_add i \<Longrightarrow> i \<in> set (adds fns)"
  using nth_mem [of f fns] by (auto simp: adds_def intro!: bexI [of _ "Bound_add i"])

text \<open>How far the loop is in the list of functors.\<close>

lemma functors_left:
  assumes "loop_inv l" and "el_queued l = [0..<n]"
  shows "length (el_done l) \<le> n" and "taken (el_pc l) @ el_pending l = [length (el_done l)..<n]"
proof -
  have e: "el_done l @ taken (el_pc l) @ el_pending l = [0..<n]" using assms by (simp add: loop_inv_def)
  then have "length (el_done l) + length (taken (el_pc l) @ el_pending l) = n" by (metis length_append length_upt diff_zero)
  then show le: "length (el_done l) \<le> n" by simp
  have "taken (el_pc l) @ el_pending l = drop (length (el_done l)) [0..<n]" by (metis e append_eq_conv_conj)
  then show "taken (el_pc l) @ el_pending l = [length (el_done l)..<n]" by (simp add: drop_upt)
qed

lemma lt_invD:
  assumes "lt_inv s"
  shows "loop_inv (lt_loop s)" "el_queued (lt_loop s) = [0..<length (lt_functors s)]" "distinct (adds (lt_functors s))"
    "distinct (map fst (waiting s))" "i \<in> set (adds (lt_functors s)) \<Longrightarrow> snd i \<le> tq_numCreated (lt_queue s)"
    "i \<in> tq_active (lt_queue s) \<Longrightarrow> snd i \<le> tq_numCreated (lt_queue s)" "tq_inv (fst ` set (waiting s)) (lt_queue s)"
    "i \<in> set (waiting s) \<Longrightarrow> \<exists>t. tq_heap (lt_queue s) (fst i) = Some t \<and> tm_sequence t = snd i"
    "cancelled_in_order s i \<Longrightarrow> i \<notin> tq_active (lt_queue s)"
    "length (el_done (lt_loop s)) \<le> length (lt_functors s)"
  using assms functors_left(1) [of "lt_loop s" "length (lt_functors s)"] unfolding lt_inv_def by blast+

lemma cancelled_added:
  assumes "lt_inv s" and "cancelled_in_order s i"
  shows "i \<in> set (adds (lt_functors s))"
proof -
  obtain f g where "f < g" "g < length (el_done (lt_loop s))" "lt_functors s ! f = Bound_add i"
    using assms(2) unfolding cancelled_in_order_def by blast
  then show ?thesis using lt_invD(10) [OF assms(1)] by (intro adds_nth [of f]) simp_all
qed

lemma cancelled_append:
  assumes "length (el_done (lt_loop s)) \<le> length (lt_functors s)" and "el_done (lt_loop s') = el_done (lt_loop s)"
    and "lt_functors s' = lt_functors s @ fns"
  shows "cancelled_in_order s' i \<longleftrightarrow> cancelled_in_order s i"
  unfolding cancelled_in_order_def assms(2,3)
  by (intro ex_cong1 conj_cong refl) (use assms(1) in \<open>simp_all add: nth_append\<close>)

text \<open>A change of the queue that leaves the waiting timers alone, together with a step of the loop alone.\<close>

lemma lt_inv_frame:
  assumes inv: "lt_inv s" and l: "loop_inv l" "el_queued l = el_queued (lt_loop s)" "el_done l = el_done (lt_loop s)"
    and q: "tq_inv (fst ` set (waiting s)) q" "\<forall>a\<in>fst ` set (waiting s). tq_heap q a = tq_heap (lt_queue s) a" "tq_grows (lt_queue s) q"
  shows "lt_inv (s\<lparr>lt_queue := q, lt_loop := l\<rparr>)"
proof -
  let ?s = "s\<lparr>lt_queue := q, lt_loop := l\<rparr>"
  have w: "waiting ?s = waiting s" by (simp add: waiting_def l(3))
  have c: "cancelled_in_order ?s i \<longleftrightarrow> cancelled_in_order s i" for i by (simp add: cancelled_in_order_def l(3))
  have "i \<notin> tq_active q" if "cancelled_in_order s i" for i
    using lt_invD(9) [OF inv that] lt_invD(5) [OF inv cancelled_added [OF inv that]] q(3) by (force simp: tq_grows_def)
  moreover have "snd i \<le> tq_numCreated q" if "i \<in> set (adds (lt_functors s)) \<union> tq_active q" for i
    using that lt_invD(5,6) [OF inv, of i] q(3) by (auto simp: tq_grows_def)
  ultimately show ?thesis
    unfolding lt_inv_def w c using lt_invD [OF inv] l q(1,2) by simp
qed

lemma lt_post_waiting: "lt_inv s \<Longrightarrow> waiting (lt_post fn s) = waiting s @ added fn"
  using lt_invD(10) [of s] by (simp add: waiting_def lt_post_def queueInLoop_remote_def push_pending_def)

lemma lt_post_inv:
  assumes inv: "lt_inv s" and fn: "added fn = []"
  shows "lt_inv (lt_post fn s)"
proof -
  have "loop_inv (lt_loop (lt_post fn s))" using loop_inv_step [OF lt_invD(1) [OF inv] remote_queue] by (simp add: lt_post_def)
  moreover have "cancelled_in_order (lt_post fn s) i = cancelled_in_order s i" for i
    by (rule cancelled_append [OF lt_invD(10) [OF inv]]) (simp_all add: lt_post_def queueInLoop_remote_def push_pending_def)
  moreover have "el_queued (lt_loop (lt_post fn s)) = [0..<length (lt_functors (lt_post fn s))]" "lt_queue (lt_post fn s) = lt_queue s"
    "adds (lt_functors (lt_post fn s)) = adds (lt_functors s)"
    using lt_invD(2) [OF inv] fn by (simp_all add: lt_post_def queueInLoop_remote_def push_pending_def)
  ultimately show ?thesis using inv unfolding lt_inv_def lt_post_waiting [OF inv] fn by simp
qed

lemma remote_add_inv:
  assumes inv: "lt_inv s" and run: "remote_addTimer addr callback w interval s = Inr (i, s')"
  shows "lt_inv s'"
proof -
  let ?q = "lt_queue s"
  let ?n = "tq_numCreated ?q + 1"
  let ?q' = "?q\<lparr>tq_numCreated := ?n, tq_heap := (tq_heap ?q)(addr \<mapsto> Timer_new callback w interval ?n)\<rparr>"
  from run have free: "tq_heap ?q addr = None" "addr < UINTPTR_MAX" and i: "i = (addr, ?n)"
    and s': "s' = lt_post (Bound_add i) (s\<lparr>lt_queue := ?q'\<rparr>)"
    by (auto simp: remote_addTimer_def new_timer_def Let_def split: if_splits)
  from tq_inv_new [OF lt_invD(7) [OF inv] free, of ?q' "Timer_new callback w interval ?n"]
  have q': "tq_inv (insert addr (fst ` set (waiting s))) ?q'" "addr \<notin> fst ` set (waiting s)" by simp_all
  have w: "waiting s' = waiting s @ [i]"
    using lt_invD(10) [OF inv] by (simp add: s' waiting_def lt_post_def queueInLoop_remote_def push_pending_def)
  have fn: "lt_functors s' = lt_functors s @ [Bound_add i]" "lt_queue s' = ?q'" by (simp_all add: s' lt_post_def)
  have "loop_inv (lt_loop s')" using loop_inv_step [OF lt_invD(1) [OF inv] remote_queue] by (simp add: s' lt_post_def)
  moreover have "el_queued (lt_loop s') = [0..<length (lt_functors s')]"
    using lt_invD(2) [OF inv] by (simp add: s' lt_post_def queueInLoop_remote_def push_pending_def)
  moreover have "cancelled_in_order s' j = cancelled_in_order s j" for j
    by (rule cancelled_append [OF lt_invD(10) [OF inv]]) (simp_all add: s' lt_post_def queueInLoop_remote_def push_pending_def)
  moreover have "i \<notin> set (adds (lt_functors s))" using lt_invD(5) [OF inv, of i] by (auto simp: i)
  moreover have "\<exists>t. tq_heap ?q' (fst j) = Some t \<and> tm_sequence t = snd j" if "j \<in> set (waiting s')" for j
  proof (cases "fst j = addr")
    case True
    then have "j \<notin> set (waiting s)" using q'(2) by blast
    then have "j = i" using that by (simp add: w)
    then show ?thesis by (simp add: i Timer_new_def)
  next
    case False
    then show ?thesis using that lt_invD(8) [OF inv, of j] by (auto simp: w i)
  qed
  moreover have "snd j \<le> ?n" if "j \<in> set (adds (lt_functors s')) \<union> tq_active ?q" for j
    using that lt_invD(5,6) [OF inv, of j] by (auto simp: fn i)
  moreover have "distinct (map fst (waiting s'))" using lt_invD(4) [OF inv] q'(2) by (simp add: w i)
  moreover have "tq_inv (fst ` set (waiting s')) ?q'" using q'(1) by (simp add: w i)
  ultimately show ?thesis
    unfolding lt_inv_def fn(2) using lt_invD(3,9) [OF inv] by (simp add: fn(1))
qed

text \<open>Running a functor is running the first of those left.\<close>

lemma run_first:
  assumes inv: "lt_inv s" and pc: "el_pc (lt_loop s) = PcFunctors (f # rest)"
  shows "f = length (el_done (lt_loop s))" and "f < length (lt_functors s)"
    and "waiting s = added (lt_functors s ! f) @ adds (drop (Suc f) (lt_functors s))"
proof -
  let ?k = "length (el_done (lt_loop s))" and ?n = "length (lt_functors s)"
  have e: "f # rest @ el_pending (lt_loop s) = [?k..<?n]" using functors_left(2) [OF lt_invD(1,2) [OF inv]] pc by simp
  then have "?k < ?n" by (metis list.distinct(1) upt_eq_Nil_conv not_le_imp_less)
  moreover have "f = hd [?k..<?n]" by (metis e list.sel(1))
  ultimately show f: "f = ?k" "f < ?n" by (simp_all add: hd_upt)
  then show "waiting s = added (lt_functors s ! f) @ adds (drop (Suc f) (lt_functors s))"
    unfolding waiting_def by (metis Cons_nth_drop_Suc adds_simps(2))
qed

lemma adds_once:
  assumes "distinct (adds fns)" and "f < g" and "g < length fns" and "fns ! f = Bound_add i"
  shows "fns ! g \<noteq> Bound_add i"
proof
  assume g: "fns ! g = Bound_add i"
  have "i \<in> set (adds (take g fns))" by (rule adds_nth [of f]) (use assms in simp_all)
  moreover have "adds fns = adds (take g fns) @ added (fns ! g) @ adds (drop (Suc g) fns)"
    by (metis id_take_nth_drop [OF assms(3)] adds_simps(2,3))
  ultimately show False using assms(1) g by simp
qed

lemma run_inv_frame:
  assumes inv: "lt_inv s" and pc: "el_pc (lt_loop s) = PcFunctors (f # rest)" and run: "call_functor intact clk (lt_functors s ! f) (lt_queue s) = Inr q"
    and q: "tq_inv (fst ` set (adds (drop (Suc f) (lt_functors s)))) q"
      "\<forall>a\<in>fst ` set (adds (drop (Suc f) (lt_functors s))). tq_heap q a = tq_heap (lt_queue s) a"
      "tq_numCreated (lt_queue s) \<le> tq_numCreated q" "\<forall>i\<in>tq_active q. snd i \<le> tq_numCreated q"
    and c: "\<And>i. cancelled_in_order s i \<Longrightarrow> i \<notin> tq_active q" "\<And>i. lt_functors s ! f = Bound_cancel i \<Longrightarrow> i \<notin> tq_active q"
  shows "\<exists>s'. lt_run intact clk f rest s = Inr s' \<and> lt_inv s'"
proof -
  note first = run_first [OF inv pc]
  let ?s = "s\<lparr>lt_queue := q, lt_loop := run_pending f rest (lt_loop s)\<rparr>"
  have d: "el_done (run_pending f rest (lt_loop s)) = el_done (lt_loop s) @ [f]" "el_queued (run_pending f rest (lt_loop s)) = el_queued (lt_loop s)"
    by (simp_all add: run_pending_def)
  have len: "length (el_done (run_pending f rest (lt_loop s))) = Suc f" using first(1) by (simp add: run_pending_def)
  have w: "waiting ?s = adds (drop (Suc f) (lt_functors s))" by (simp add: waiting_def len)
  have "loop_inv (run_pending f rest (lt_loop s))" by (rule loop_inv_step [OF lt_invD(1) [OF inv] loop_step.run]) (rule pc)
  moreover have "i \<notin> tq_active q" if "cancelled_in_order ?s i" for i
  proof -
    from that obtain h g where hg: "h < g" "g < Suc f" "lt_functors s ! h = Bound_add i" "lt_functors s ! g = Bound_cancel i"
      by (auto simp: cancelled_in_order_def len)
    show ?thesis
    proof (cases "g = f")
      case False
      then have "cancelled_in_order s i" using hg first(1) unfolding cancelled_in_order_def by (intro exI [of _ h] exI [of _ g]) simp
      then show ?thesis by (rule c(1))
    qed (use hg c(2) in simp)
  qed
  moreover have "distinct (map fst (adds (drop (Suc f) (lt_functors s))))"
    "\<forall>i\<in>set (adds (drop (Suc f) (lt_functors s))). \<exists>t. tq_heap q (fst i) = Some t \<and> tm_sequence t = snd i"
    using lt_invD(4,8) [OF inv] q(2) by (auto simp: first(3))
  moreover have "\<forall>i\<in>set (adds (lt_functors s)) \<union> tq_active q. snd i \<le> tq_numCreated q"
    using lt_invD(5) [OF inv] q(3,4) by (auto intro: order_trans)
  ultimately have "lt_inv ?s" unfolding lt_inv_def w using q(1) lt_invD(2,3) [OF inv] by (simp add: d)
  then show ?thesis using run by (intro exI [of _ ?s]) (simp add: lt_run_def)
qed

lemma run_add_inv:
  assumes inv: "lt_inv s" and pc: "el_pc (lt_loop s) = PcFunctors (f # rest)" and fn: "lt_functors s ! f = Bound_add i"
  shows "\<exists>s'. lt_run intact clk f rest s = Inr s' \<and> lt_inv s'"
    and "\<exists>q. addTimerInLoop clk (fst i) (lt_queue s) = Inr q \<and> tq_active q = insert i (tq_active (lt_queue s))"
proof -
  note first = run_first [OF inv pc]
  let ?W = "adds (drop (Suc f) (lt_functors s))" and ?q = "lt_queue s"
  have w: "waiting s = i # ?W" by (simp add: first(3) fn)
  obtain t where t: "tq_heap ?q (fst i) = Some t" "tm_sequence t = snd i" using lt_invD(8) [OF inv, of i] by (auto simp: w)
  have "tq_inv (insert (fst i) (fst ` set ?W)) ?q" "fst i \<notin> fst ` set ?W" using lt_invD(4,7) [OF inv] by (auto simp: w)
  from TQ_insert_ok [OF this t(1)] obtain e q1 where q1: "TQ_insert (fst i) ?q = Inr (e, q1)" "tq_inv (fst ` set ?W) q1"
    "q1 = ?q\<lparr>tq_timers := insort (tm_expiration t, fst i) (tq_timers ?q), tq_active := insert (fst i, tm_sequence t) (tq_active ?q)\<rparr>" by auto
  define q where "q = (if e then resetTimerfd clk (tm_expiration t) q1 else q1)"
  have run: "addTimerInLoop clk (fst i) ?q = Inr q" using q1(1,3) t by (simp add: addTimerInLoop_def q_def deref_def)
  have q: "tq_inv (fst ` set ?W) q" by (rule tq_inv_cong [OF q1(2)]) (simp_all add: q_def)
  have same: "tq_active q = insert i (tq_active ?q)" "tq_heap q = tq_heap ?q" "tq_numCreated q = tq_numCreated ?q"
    using t(2) by (simp_all add: q_def q1(3))
  then show "\<exists>q. addTimerInLoop clk (fst i) ?q = Inr q \<and> tq_active q = insert i (tq_active ?q)" using run by blast
  have "j \<notin> tq_active q" if "cancelled_in_order s j" for j
  proof -
    from that obtain h g where hg: "h < g" "g < f" "lt_functors s ! h = Bound_add j" by (auto simp: cancelled_in_order_def first(1))
    then have "j \<noteq> i" using adds_once [OF lt_invD(3) [OF inv], of h f j] first(2) fn by auto
    then show ?thesis using lt_invD(9) [OF inv that] same(1) by simp
  qed
  moreover have "snd j \<le> tq_numCreated q" if "j \<in> tq_active q" for j
    using that lt_invD(5) [OF inv adds_nth [OF first(2) fn]] lt_invD(6) [OF inv, of j] by (auto simp: same)
  moreover have "call_functor intact clk (lt_functors s ! f) ?q = Inr q" using run by (simp add: fn)
  ultimately show "\<exists>s'. lt_run intact clk f rest s = Inr s' \<and> lt_inv s'"
    using q same by (intro run_inv_frame [OF inv pc, where q = q]) (simp_all add: fn)
qed

definition lt_ok :: "(timer_id \<Rightarrow> bool) \<Rightarrow> timer_loop result \<Rightarrow> bool" where
  "lt_ok intact r \<longleftrightarrow> (\<exists>e. r = Inl e \<and> tq_fails intact e) \<or> (\<exists>s. r = Inr s \<and> lt_inv s)"

lemma lt_ok_simps [simp]: "lt_ok intact (Inl e) \<longleftrightarrow> tq_fails intact e" "lt_ok intact (Inr s) \<longleftrightarrow> lt_inv s"
  by (simp_all add: lt_ok_def)

lemma run_inv:
  assumes inv: "lt_inv s" and pc: "el_pc (lt_loop s) = PcFunctors (f # rest)"
  shows "lt_ok intact (lt_run intact clk f rest s)"
proof (cases "lt_functors s ! f")
  case (Bound_add i)
  then show ?thesis using run_add_inv(1) [OF inv pc Bound_add, of intact clk] by auto
next
  case (Bound_cancel i)
  let ?W = "adds (drop (Suc f) (lt_functors s))" and ?q = "lt_queue s"
  have w: "waiting s = ?W" using run_first(3) [OF inv pc] Bound_cancel by simp
  have iq: "tq_inv (fst ` set ?W) ?q" using lt_invD(7) [OF inv] by (simp add: w)
  show ?thesis
  proof (cases "i \<in> tq_active ?q \<longrightarrow> intact i")
    case False
    then show ?thesis using cancelInLoop_erased [OF iq, of i intact] by (auto simp: lt_run_def Bound_cancel)
  next
    case True
    from cancel_frame [OF iq, of i intact] True obtain q where q: "cancelInLoop intact i ?q = Inr q" "tq_inv (fst ` set ?W) q" "i \<notin> tq_active q"
      "\<forall>a\<in>fst ` set ?W. tq_heap q a = tq_heap ?q a" by blast
    have g: "tq_grows ?q q" by (rule cancel_grows [OF q(1)])
    have "j \<notin> tq_active q" if "cancelled_in_order s j" for j
      using lt_invD(9) [OF inv that] lt_invD(5) [OF inv cancelled_added [OF inv that]] g by (force simp: tq_grows_def)
    moreover have "snd j \<le> tq_numCreated q" if "j \<in> tq_active q" for j using that g lt_invD(6) [OF inv, of j] by (auto simp: tq_grows_def)
    ultimately have "\<exists>s'. lt_run intact clk f rest s = Inr s' \<and> lt_inv s'"
      using q g by (intro run_inv_frame [OF inv pc, where q = q]) (simp_all add: Bound_cancel tq_grows_def)
    then show ?thesis by auto
  qed
next
  case Bound_user
  have "waiting s = adds (drop (Suc f) (lt_functors s))" using run_first(3) [OF inv pc] Bound_user by simp
  then have "\<exists>s'. lt_run intact clk f rest s = Inr s' \<and> lt_inv s'"
    using lt_invD(6,7,9) [OF inv] by (intro run_inv_frame [OF inv pc, where q = "lt_queue s"]) (auto simp: Bound_user)
  then show ?thesis by auto
qed

lemma own_add_inv:
  assumes "lt_inv s" and "own_addTimer clk addr callback w interval s = Inr (i, s')"
  shows "lt_inv s'"
proof -
  let ?E = "fst ` set (waiting s)"
  note inv = lt_invD(7) [OF assms(1)]
  from assms(2) obtain q where q: "addTimer clk addr callback w interval (lt_queue s) = Inr (i, q)" "s' = s\<lparr>lt_queue := q\<rparr>"
    by (auto simp: own_addTimer_def)
  have "tq_inv ?E q" "tq_heap (lt_queue s) addr = None" "tq_heap q = (tq_heap (lt_queue s))(addr \<mapsto> Timer_new callback w interval (tq_numCreated (lt_queue s) + 1))"
    using addTimer_ok [OF inv, of clk addr callback w interval] q(1) by auto
  moreover have "\<forall>a\<in>?E. tq_heap q a = tq_heap (lt_queue s) a" using calculation(2,3) tq_invD(7) [OF inv] by (auto simp del: not_None_eq)
  ultimately have "lt_inv (s\<lparr>lt_queue := q, lt_loop := lt_loop s\<rparr>)"
    using addTimer_grows [OF q(1)] lt_invD(1) [OF assms(1)] by (intro lt_inv_frame [OF assms(1)]) simp_all
  then show ?thesis by (simp add: q(2))
qed

lemma own_cancel_inv:
  assumes inv: "lt_inv s"
  shows "lt_ok intact (own_cancel intact i s)"
proof (cases "i \<in> tq_active (lt_queue s) \<longrightarrow> intact i")
  case False
  then show ?thesis using cancelInLoop_erased [OF lt_invD(7) [OF inv], of i intact] by (auto simp: own_cancel_def)
next
  case True
  with cancel_frame [OF lt_invD(7) [OF inv], of i intact] obtain q where q: "cancelInLoop intact i (lt_queue s) = Inr q"
    "tq_inv (fst ` set (waiting s)) q" "\<forall>a\<in>fst ` set (waiting s). tq_heap q a = tq_heap (lt_queue s) a" by blast
  then have "lt_inv (s\<lparr>lt_queue := q, lt_loop := lt_loop s\<rparr>)"
    using cancel_grows [OF q(1)] lt_invD(1) [OF inv] by (intro lt_inv_frame [OF inv]) simp_all
  then show ?thesis using q(1) by (simp add: own_cancel_def)
qed

lemma fire_inv:
  assumes "lt_inv s" and pc: "el_pc (lt_loop s) = PcHandle (timerfdChannel # cs)"
  shows "lt_ok intact (lt_fire intact clk cb cs s)"
proof -
  let ?E = "fst ` set (waiting s)" and ?l = "handle_channel timerfdChannel cs (lt_loop s)"
  have l: "loop_inv ?l" by (rule loop_inv_step [OF lt_invD(1) [OF assms(1)] loop_step.handle]) (rule pc)
  have same: "el_queued ?l = el_queued (lt_loop s)" "el_done ?l = el_done (lt_loop s)" by (simp_all add: handle_channel_def EL_handleRead_def)
  note inv = lt_invD(7) [OF assms(1)]
  show ?thesis
  proof (cases "TQ_handleRead intact clk cb (lt_queue s)")
    case (Inl e)
    then show ?thesis using handleRead_ok [OF inv, of clk intact cb] by (auto simp: lt_fire_def Let_def)
  next
    case (Inr q)
    then have "tq_inv ?E q \<and> (\<forall>a\<in>?E. tq_heap q a = tq_heap (lt_queue s) a)"
      using handleRead_ok [OF inv, of clk intact cb] by (simp add: Let_def)
    then have "lt_inv (s\<lparr>lt_queue := q, lt_loop := ?l\<rparr>)"
      using handleRead_grows [OF inv Inr] l same by (intro lt_inv_frame [OF assms(1)]) simp_all
    then show ?thesis using Inr by (simp add: lt_fire_def lt_ok_def)
  qed
qed

interpretation lt: step_invariant lt_init "lt_step intact clk cb" "lt_ok intact" for intact clk cb
proof
  show "lt_ok intact r" if "lt_init r" for r
    using that loop_inv_init by (auto simp: lt_init_def lt_ok_def lt_inv_def waiting_def cancelled_in_order_def newEventLoop_def
        newTimerQueue_def tq_inv_def active_of_def)
  show "lt_ok intact t" if "lt_ok intact r" "lt_step intact clk cb r t" for r t
    using that(2)
  proof (cases rule: lt_step.cases)
    case (lt_loops s l)
    then have inv: "lt_inv s" using that(1) by (simp add: lt_ok_def)
    have "lt_inv (s\<lparr>lt_queue := lt_queue s, lt_loop := l\<rparr>)"
      using loop_inv_step [OF lt_invD(1) [OF inv] lt_loops(3)] lt_loops(4,5) lt_invD(7) [OF inv] by (intro lt_inv_frame [OF inv]) simp_all
    then show ?thesis by (simp add: lt_ok_def lt_loops(2))
  next
    case (lt_runs s f fs)
    then show ?thesis using that(1) run_inv [of s f fs intact clk] by (auto simp: lt_ok_def)
  next
    case (lt_fires s cs)
    then show ?thesis using that(1) fire_inv [of s cs intact clk cb] by (auto simp: lt_ok_def)
  next
    case (lt_own_add s addr callback w interval)
    then have inv: "lt_inv s" using that(1) by (simp add: lt_ok_def)
    show ?thesis
    proof (cases "own_addTimer clk addr callback w interval s")
      case (Inl e)
      then show ?thesis using addTimer_ok [OF lt_invD(7) [OF inv], of clk addr callback w interval] lt_own_add(2)
        by (auto simp: own_addTimer_def lt_ok_def)
    next
      case (Inr p)
      then show ?thesis using own_add_inv [OF inv, of clk addr callback w interval] lt_own_add(2) by (cases p) (auto simp: lt_ok_def)
    qed
  next
    case (lt_own_cancel s i)
    then show ?thesis using that(1) own_cancel_inv [of s intact i] by (auto simp: lt_ok_def)
  next
    case (lt_remote_add s addr callback w interval)
    then have inv: "lt_inv s" using that(1) by (simp add: lt_ok_def)
    show ?thesis
    proof (cases "remote_addTimer addr callback w interval s")
      case (Inl e)
      then show ?thesis using lt_remote_add(2) by (auto simp: remote_addTimer_def new_timer_def lt_ok_def Let_def split: if_splits)
    next
      case (Inr p)
      then show ?thesis using remote_add_inv [OF inv] lt_remote_add(2) by (cases p) (auto simp: lt_ok_def)
    qed
  next
    case (lt_remote_cancel s i)
    then show ?thesis using that(1) lt_post_inv [of s "Bound_cancel i"] by (auto simp: lt_ok_def remote_cancel_def)
  next
    case (lt_remote_user s)
    then show ?thesis using that(1) lt_post_inv [of s Bound_user] by (auto simp: lt_ok_def)
  qed
qed

section \<open>Properties\<close>


definition demo_start :: timer_loop where
  "demo_start = \<lparr>lt_loop = newEventLoop, lt_queue = newTimerQueue, lt_functors = []\<rparr>"

lemma demo_start_reach: "reach lt_init (lt_step intact clk cb) (Inr demo_start)"
  by (rule reach_init) (simp add: lt_init_def demo_start_def)


text \<open>
  C39. A cancellation in the loop thread can come too early: when another thread adds a timer and hands its id to code in the loop
  thread, \<open>cancel\<close> there runs at once, before the queued addition, finds nothing and changes nothing; when the
  addition runs later, the timer becomes active, although it was cancelled before.
\<close>

theorem timer_cancel_too_early:
  assumes "reach lt_init (lt_step intact clk cb) (Inr s)" and "\<not> tq_calling (lt_queue s)"
    and "remote_addTimer addr callback w interval s = Inr (i, s1)"
  shows "own_cancel intact i s1 = Inr s1 \<and>
    (\<forall>s2 f rest. reach lt_init (lt_step intact clk cb) (Inr s2) \<longrightarrow> el_pc (lt_loop s2) = PcFunctors (f # rest) \<longrightarrow>
       lt_functors s2 ! f = Bound_add i \<longrightarrow> (\<exists>s3. lt_run intact clk f rest s2 = Inr s3 \<and> i \<in> tq_active (lt_queue s3)))"
proof (intro conjI allI impI)
  have inv: "lt_inv s" using lt.reach_inv [OF assms(1)] by (simp add: lt_ok_def)
  have inv1: "lt_inv s1" by (rule remote_add_inv [OF inv assms(3)])
  have i: "i = (addr, tq_numCreated (lt_queue s) + 1)" "tq_active (lt_queue s1) = tq_active (lt_queue s)" "\<not> tq_calling (lt_queue s1)"
    using assms(2,3) by (auto simp: remote_addTimer_def new_timer_def lt_post_def Let_def split: if_splits)
  then have "i \<notin> tq_active (lt_queue s1)" using lt_invD(6) [OF inv, of i] by auto
  then show "own_cancel intact i s1 = Inr s1" using i(3) sizes_agree_ok [OF lt_invD(7) [OF inv1]] by (simp add: own_cancel_def cancelInLoop_def)
next
  fix s2 f rest
  assume r: "reach lt_init (lt_step intact clk cb) (Inr s2)" and f: "el_pc (lt_loop s2) = PcFunctors (f # rest)" "lt_functors s2 ! f = Bound_add i"
  have "lt_inv s2" using lt.reach_inv [OF r] by (simp add: lt_ok_def)
  from run_add_inv(2) [OF this f, of clk] f(2) show "\<exists>s3. lt_run intact clk f rest s2 = Inr s3 \<and> i \<in> tq_active (lt_queue s3)"
    by (auto simp: lt_run_def)
qed

theorem timer_cancel_too_early_witness:
  "\<exists>s1. remote_addTimer 5 0 1000 0 demo_start = Inr ((5, 1), s1) \<and> own_cancel (\<lambda>_. False) (5, 1) s1 = Inr s1"
proof -
  obtain s1 where s1: "remote_addTimer 5 0 1000 0 demo_start = Inr ((5, 1), s1)"
    by (simp add: remote_addTimer_def new_timer_def demo_start_def newTimerQueue_def UINTPTR_MAX_def)
  have "\<not> tq_calling (lt_queue demo_start)" by (simp add: demo_start_def newTimerQueue_def)
  from timer_cancel_too_early [OF demo_start_reach this s1, of "\<lambda>_. False" "\<lambda>_. 0" "\<lambda>_ _. []"] s1 show ?thesis by blast
qed

end
