(* ===== verification/Log_Stream.thy ===== *)
theory Log_Stream
  imports Decimal
begin

text \<open>
  \<open>src/muduo/base/LogStream.{h,cc}\<close>: the fixed-size buffer \<open>FixedBuffer<SIZE>\<close> and the formatting
  operators of \<open>LogStream\<close> that write into it.

  A buffer is the array \<open>data_\<close>, a list of \<open>SIZE\<close> bytes, and the position \<open>cur_\<close> in it. Every write
  to memory goes through \<open>fb_write\<close>, which is \<open>Undefined_Behaviour\<close> outside the array. The text
  \<open>snprintf\<close> makes of a floating point number is an argument \<open>g12\<close> of the definitions.
\<close>

section \<open>FixedBuffer\<close>

definition kSmallBuffer :: nat where "kSmallBuffer = 4000"
definition kLargeBuffer :: nat where "kLargeBuffer = 4000 * 1000"

record fixed_buffer =
  fb_data :: string
  fb_cur :: nat

text \<open>A new buffer: its memory is not initialised.\<close>

definition newFixedBuffer :: "string \<Rightarrow> fixed_buffer" where
  "newFixedBuffer memory = \<lparr>fb_data = memory, fb_cur = 0\<rparr>"

definition fb_write :: "string \<Rightarrow> fixed_buffer \<Rightarrow> fixed_buffer result" where
  "fb_write bytes b =
     (if fb_cur b + length bytes \<le> length (fb_data b)
      then Inr (b\<lparr>fb_data := overwrite (fb_cur b) bytes (fb_data b)\<rparr>)
      else Inl (Undefined_Behaviour ''write behind data_''))"

definition fb_length :: "fixed_buffer \<Rightarrow> nat" where "fb_length b = fb_cur b"

definition fb_avail :: "fixed_buffer \<Rightarrow> int" where
  "fb_avail b = int (length (fb_data b)) - int (fb_cur b)"

definition fb_add :: "nat \<Rightarrow> fixed_buffer \<Rightarrow> fixed_buffer" where
  "fb_add len b = b\<lparr>fb_cur := fb_cur b + len\<rparr>"

definition fb_append :: "string \<Rightarrow> fixed_buffer \<Rightarrow> fixed_buffer result" where
  "fb_append buf b =
     (if fb_avail b > int (length buf) then bindE (fb_write buf b) (\<lambda>b'. Inr (fb_add (length buf) b')) else Inr b)"

definition fb_reset :: "fixed_buffer \<Rightarrow> fixed_buffer" where
  "fb_reset b = b\<lparr>fb_cur := 0\<rparr>"

definition fb_bzero :: "fixed_buffer \<Rightarrow> fixed_buffer" where
  "fb_bzero b = b\<lparr>fb_data := replicate (length (fb_data b)) (CHR 0x00)\<rparr>"

text \<open>\<open>debugString\<close>: the data up to the zero it writes.\<close>

definition debugString :: "fixed_buffer \<Rightarrow> (string \<times> fixed_buffer) result" where
  "debugString b = bindE (fb_write [CHR 0x00] b) (\<lambda>b'. Inr (takeWhile (\<lambda>c. c \<noteq> CHR 0x00) (fb_data b'), b'))"

definition asString :: "fixed_buffer \<Rightarrow> string" where
  "asString b = take (fb_cur b) (fb_data b)"

section \<open>Numbers\<close>

definition digits :: string where "digits = ''9876543210123456789''"

definition digitsHex :: string where "digitsHex = ''0123456789ABCDEF''"

text \<open>\<open>zero[lsd]\<close>, where \<open>zero\<close> points to the middle of \<open>digits\<close> and \<open>lsd\<close> may be negative.\<close>

definition zero_at :: "int \<Rightarrow> char" where
  "zero_at lsd = digits ! nat (9 + lsd)"

lemma abs_sdiv10: "\<bar>i sdiv 10\<bar> = \<bar>i :: int\<bar> div 10"
  by (cases "i = 0") (simp_all add: signed_divide_int_def abs_mult abs_sgn_eq)

lemma abs_smod10: "\<bar>i smod 10\<bar> = \<bar>i :: int\<bar> mod 10"
  by (cases "i = 0") (simp_all add: signed_modulo_int_def abs_mult abs_sgn_eq)

lemma sdiv10_less: "i sdiv 10 \<noteq> 0 \<Longrightarrow> \<bar>i sdiv 10\<bar> < \<bar>i :: int\<bar>"
proof -
  assume "i sdiv 10 \<noteq> 0"
  then have "\<bar>i\<bar> div 10 \<noteq> 0" using abs_sdiv10 [of i] by simp
  then show ?thesis unfolding abs_sdiv10 by linarith
qed

text \<open>The loops of \<open>convert\<close> and \<open>convertHex\<close>: the characters in the order they are written.\<close>

function convert_loop :: "int \<Rightarrow> string" where
  "convert_loop i =
     (let lsd = i smod 10; i' = i sdiv 10 in zero_at lsd # (if i' \<noteq> 0 then convert_loop i' else []))"
  by auto
termination by (relation "measure (\<lambda>i. nat \<bar>i\<bar>)") (auto intro: sdiv10_less)

fun convertHex_loop :: "nat \<Rightarrow> string" where
  "convertHex_loop i =
     (let lsd = i mod 16; i' = i div 16 in digitsHex ! lsd # (if i' \<noteq> 0 then convertHex_loop i' else []))"

declare convert_loop.simps [simp del] convertHex_loop.simps [simp del]

text \<open>What \<open>convert\<close> leaves at \<open>buf\<close> before the terminating zero; it returns its length.\<close>

definition convert :: "int \<Rightarrow> string" where
  "convert v = rev (if v < 0 then convert_loop v @ ''-'' else convert_loop v)"

definition convertHex :: "nat \<Rightarrow> string" where
  "convertHex v = rev (convertHex_loop v)"

definition kMaxNumericSize :: int where "kMaxNumericSize = 32"

definition formatInteger :: "int \<Rightarrow> fixed_buffer \<Rightarrow> fixed_buffer result" where
  "formatInteger v b =
     (if fb_avail b \<ge> kMaxNumericSize then
        let s = convert v in bindE (fb_write (s @ [CHR 0x00]) b) (\<lambda>b'. Inr (fb_add (length s) b'))
      else Inr b)"

definition formatPointer :: "nat \<Rightarrow> fixed_buffer \<Rightarrow> fixed_buffer result" where
  "formatPointer v b =
     (if fb_avail b \<ge> kMaxNumericSize then
        let s = convertHex v in bindE (fb_write (''0x'' @ s @ [CHR 0x00]) b) (\<lambda>b'. Inr (fb_add (length s + 2) b'))
      else Inr b)"

text \<open>
  \<open>snprintf(buffer_.current(), kMaxNumericSize, "%.12g", v)\<close> writes at most \<open>kMaxNumericSize\<close> bytes
  but returns the length of the whole text.
\<close>

definition formatDouble :: "('d \<Rightarrow> string) \<Rightarrow> 'd \<Rightarrow> fixed_buffer \<Rightarrow> fixed_buffer result" where
  "formatDouble g12 v b =
     (if fb_avail b \<ge> kMaxNumericSize then
        bindE (fb_write (snprintf (nat kMaxNumericSize) (g12 v) @ [CHR 0x00]) b) (\<lambda>b'.
        Inr (fb_add (length (g12 v)) b'))
      else Inr b)"

section \<open>The operators of LogStream\<close>

text \<open>The overloads of \<open>operator<<\<close>; a \<open>Fmt\<close> is the text its \<open>snprintf\<close> makes.\<close>

datatype 'd log_arg =
    ABool bool | AShort int | AUShort int | AInt int | AUInt int | ALong int | AULong int
  | ALongLong int | AULongLong int | APtr nat | AFloat 'd | ADouble 'd | AChar char
  | ACStr string | AString string | APiece string | AFmt string

definition Fmt :: "string \<Rightarrow> string result" where
  "Fmt s = bindE (assertE (length s < 32) ''length_ < sizeof(buf_)'') (\<lambda>_. Inr (snprintf 32 s))"

fun log_put :: "('d \<Rightarrow> string) \<Rightarrow> 'd log_arg \<Rightarrow> fixed_buffer \<Rightarrow> fixed_buffer result" where
  "log_put g12 (ABool v) b = fb_append (if v then ''1'' else ''0'') b"
| "log_put g12 (AShort v) b = formatInteger v b"
| "log_put g12 (AUShort v) b = formatInteger v b"
| "log_put g12 (AInt v) b = formatInteger v b"
| "log_put g12 (AUInt v) b = formatInteger v b"
| "log_put g12 (ALong v) b = formatInteger v b"
| "log_put g12 (AULong v) b = formatInteger v b"
| "log_put g12 (ALongLong v) b = formatInteger v b"
| "log_put g12 (AULongLong v) b = formatInteger v b"
| "log_put g12 (APtr p) b = formatPointer p b"
| "log_put g12 (AFloat v) b = formatDouble g12 v b"
| "log_put g12 (ADouble v) b = formatDouble g12 v b"
| "log_put g12 (AChar v) b = fb_append [v] b"
| "log_put g12 (ACStr v) b = fb_append (takeWhile (\<lambda>c. c \<noteq> CHR 0x00) v) b"
| "log_put g12 (AString v) b = fb_append v b"
| "log_put g12 (APiece v) b = fb_append v b"
| "log_put g12 (AFmt s) b = bindE (Fmt s) (\<lambda>t. fb_append t b)"

section \<open>Conversions\<close>

lemma zero_at_digit: "\<bar>k\<bar> < 10 \<Longrightarrow> zero_at k = digit (nat \<bar>k\<bar>)"
proof -
  assume "\<bar>k\<bar> < 10"
  then have "k \<in> {-9, -8, -7, -6, -5, -4, -3, -2, -1, 0, 1, 2, 3, 4, 5, 6, 7, 8, 9}"
    unfolding insert_iff empty_iff by presburger
  then show ?thesis by (elim insertE emptyE) (simp_all add: zero_at_def digits_def digit_def char_of_def bit_0)
qed

lemma convert_loop_dec: "convert_loop i = rev (dec (nat \<bar>i\<bar>))"
proof (induction i rule: convert_loop.induct)
  case (1 i)
  have n: "nat \<bar>i smod 10\<bar> = nat \<bar>i\<bar> mod 10" "nat \<bar>i sdiv 10\<bar> = nat \<bar>i\<bar> div 10"
    unfolding abs_smod10 abs_sdiv10 by (simp_all add: nat_mod_distrib nat_div_distrib)
  have z: "zero_at (i smod 10) = digit (nat \<bar>i\<bar> mod 10)" using zero_at_digit [of "i smod 10"] abs_smod10 [of i] n by simp
  have "i sdiv 10 \<noteq> 0 \<longleftrightarrow> \<not> nat \<bar>i\<bar> < 10" using n(2) by auto
  then show ?case using 1 z n(2) by (subst convert_loop.simps, subst dec.simps) (simp add: Let_def)
qed

lemma convert_dec: "convert v = dec_int v"
  by (simp add: convert_def convert_loop_dec dec_int_def)

fun hex :: "nat \<Rightarrow> string" where
  "hex n = (if n < 16 then [digitsHex ! n] else hex (n div 16) @ [digitsHex ! (n mod 16)])"

declare hex.simps [simp del]

lemma convertHex_hex: "convertHex n = hex n"
proof -
  have "convertHex_loop n = rev (hex n)"
  proof (induction n rule: hex.induct)
    case (1 n)
    then show ?case by (subst convertHex_loop.simps, subst hex.simps) (auto simp: Let_def)
  qed
  then show ?thesis by (simp add: convertHex_def)
qed

lemma length_hex: "n < 16 ^ k \<Longrightarrow> 0 < k \<Longrightarrow> length (hex n) \<le> k"
proof (induction n arbitrary: k rule: hex.induct)
  case (1 n)
  show ?case
  proof (cases "n < 16")
    case True
    then show ?thesis using 1(3) by (subst hex.simps) simp
  next
    case False
    then obtain j where k: "k = Suc j" "0 < j" using 1(2,3) by (cases k; cases "k - 1") auto
    then have "n div 16 < 16 ^ j" using 1(2) by (simp add: less_mult_imp_div_less)
    from 1(1) [OF False this k(2)] show ?thesis using False k by (subst hex.simps) simp
  qed
qed

lemma length_dec_int: "- (2 ^ 63) \<le> v \<Longrightarrow> v < 2 ^ 64 \<Longrightarrow> length (dec_int v) \<le> 20"
proof -
  assume v: "- (2 ^ 63) \<le> v" "v < 2 ^ 64"
  have "length (dec (nat (- v))) \<le> 19" by (rule length_dec_le) (use v in auto)
  moreover have "length (dec (nat v)) \<le> 20" by (rule length_dec_le) (use v in auto)
  ultimately show ?thesis by (simp add: dec_int_def)
qed

section \<open>Streams of operators\<close>

definition fb_ok :: "fixed_buffer \<Rightarrow> bool" where
  "fb_ok b \<longleftrightarrow> fb_cur b \<le> length (fb_data b)"

text \<open>The range of the argument types; the text of a floating point number and of a \<open>Fmt\<close> is short.\<close>

fun arg_ok :: "('d \<Rightarrow> string) \<Rightarrow> 'd log_arg \<Rightarrow> bool" where
  "arg_ok g12 (AShort v) \<longleftrightarrow> - (2 ^ 15) \<le> v \<and> v < 2 ^ 15"
| "arg_ok g12 (AUShort v) \<longleftrightarrow> 0 \<le> v \<and> v < 2 ^ 16"
| "arg_ok g12 (AInt v) \<longleftrightarrow> - (2 ^ 31) \<le> v \<and> v < 2 ^ 31"
| "arg_ok g12 (AUInt v) \<longleftrightarrow> 0 \<le> v \<and> v < 2 ^ 32"
| "arg_ok g12 (ALong v) \<longleftrightarrow> - (2 ^ 63) \<le> v \<and> v < 2 ^ 63"
| "arg_ok g12 (AULong v) \<longleftrightarrow> 0 \<le> v \<and> v < 2 ^ 64"
| "arg_ok g12 (ALongLong v) \<longleftrightarrow> - (2 ^ 63) \<le> v \<and> v < 2 ^ 63"
| "arg_ok g12 (AULongLong v) \<longleftrightarrow> 0 \<le> v \<and> v < 2 ^ 64"
| "arg_ok g12 (APtr p) \<longleftrightarrow> p < 2 ^ 64"
| "arg_ok g12 (AFloat v) \<longleftrightarrow> length (g12 v) < 32"
| "arg_ok g12 (ADouble v) \<longleftrightarrow> length (g12 v) < 32"
| "arg_ok g12 (AFmt s) \<longleftrightarrow> length s < 32"
| "arg_ok g12 _ \<longleftrightarrow> True"

fun arg_text :: "('d \<Rightarrow> string) \<Rightarrow> 'd log_arg \<Rightarrow> string" where
  "arg_text g12 (ABool v) = (if v then ''1'' else ''0'')"
| "arg_text g12 (AShort v) = dec_int v"
| "arg_text g12 (AUShort v) = dec_int v"
| "arg_text g12 (AInt v) = dec_int v"
| "arg_text g12 (AUInt v) = dec_int v"
| "arg_text g12 (ALong v) = dec_int v"
| "arg_text g12 (AULong v) = dec_int v"
| "arg_text g12 (ALongLong v) = dec_int v"
| "arg_text g12 (AULongLong v) = dec_int v"
| "arg_text g12 (APtr p) = ''0x'' @ hex p"
| "arg_text g12 (AFloat v) = g12 v"
| "arg_text g12 (ADouble v) = g12 v"
| "arg_text g12 (AChar v) = [v]"
| "arg_text g12 (ACStr v) = takeWhile (\<lambda>c. c \<noteq> CHR 0x00) v"
| "arg_text g12 (AString v) = v"
| "arg_text g12 (APiece v) = v"
| "arg_text g12 (AFmt s) = s"

fun is_number :: "'d log_arg \<Rightarrow> bool" where
  "is_number (ABool _) = False"
| "is_number (AChar _) = False"
| "is_number (ACStr _) = False"
| "is_number (AString _) = False"
| "is_number (APiece _) = False"
| "is_number (AFmt _) = False"
| "is_number _ = True"

text \<open>Numbers are written when 32 bytes are left, other texts when at least one more byte than they need is.\<close>

definition arg_put :: "('d \<Rightarrow> string) \<Rightarrow> nat \<Rightarrow> string \<Rightarrow> 'd log_arg \<Rightarrow> string" where
  "arg_put g12 n acc a =
     (if (if is_number a then 32 \<le> n - length acc else length (arg_text g12 a) < n - length acc)
      then acc @ arg_text g12 a else acc)"

text \<open>Writing text and what follows it at the end, and moving behind the text.\<close>

lemma fb_write_add:
  assumes "fb_ok b" and "fb_cur b + length (s @ t) \<le> length (fb_data b)"
  shows "\<exists>b'. bindE (fb_write (s @ t) b) (\<lambda>b'. Inr (fb_add (length s) b')) = Inr b' \<and> fb_ok b' \<and>
    length (fb_data b') = length (fb_data b) \<and> asString b' = asString b @ s"
proof -
  let ?d = "overwrite (fb_cur b) (s @ t) (fb_data b)"
  have "take (fb_cur b + length s) ?d = take (fb_cur b) (fb_data b) @ s"
    using assms by (simp add: overwrite_def fb_ok_def take_add)
  then show ?thesis using assms by (simp add: fb_write_def fb_add_def fb_ok_def asString_def)
qed

text \<open>An operation that appends a text if a condition holds and otherwise leaves the buffer as it is.\<close>

definition puts :: "fixed_buffer \<Rightarrow> fixed_buffer result \<Rightarrow> bool \<Rightarrow> string \<Rightarrow> bool" where
  "puts b r c s \<longleftrightarrow> (\<exists>b'. r = Inr b' \<and> fb_ok b' \<and> length (fb_data b') = length (fb_data b) \<and>
     asString b' = (if c then asString b @ s else asString b))"

lemma fb_avail_room:
  assumes "fb_ok b"
  shows "fb_avail b \<ge> kMaxNumericSize \<longleftrightarrow> 32 \<le> length (fb_data b) - fb_cur b"
    and "fb_avail b > int k \<longleftrightarrow> k < length (fb_data b) - fb_cur b"
  using assms by (auto simp: fb_avail_def kMaxNumericSize_def fb_ok_def)

lemma puts_append: "fb_ok b \<Longrightarrow> puts b (fb_append s b) (length s < length (fb_data b) - fb_cur b) s"
  using fb_write_add [of b s "[]"] by (auto simp: puts_def fb_append_def fb_avail_room)

lemma puts_char: "fb_ok b \<Longrightarrow> puts b (fb_append [c] b) (Suc 0 < length (fb_data b) - fb_cur b) [c]"
  using puts_append [of b "[c]"] by simp

lemma puts_number:
  assumes "fb_ok b" and "length s < 32"
    and "\<And>r. r = (if fb_avail b \<ge> kMaxNumericSize
           then bindE (fb_write (s @ [CHR 0x00]) b) (\<lambda>b'. Inr (fb_add (length s) b')) else Inr b) \<Longrightarrow> op = r"
  shows "puts b op (32 \<le> length (fb_data b) - fb_cur b) s"
  using fb_write_add [OF assms(1), of s "[CHR 0x00]"] assms by (auto simp: puts_def fb_avail_room)

lemma puts_integer:
  assumes "fb_ok b" and "- (2 ^ 63) \<le> v" and "v < 2 ^ 64"
  shows "puts b (formatInteger v b) (32 \<le> length (fb_data b) - fb_cur b) (dec_int v)"
  by (rule puts_number [OF assms(1)]) (use length_dec_int [OF assms(2,3)] in \<open>auto simp: formatInteger_def convert_dec Let_def\<close>)

lemma puts_pointer:
  assumes "fb_ok b" and "p < 2 ^ 64"
  shows "puts b (formatPointer p b) (32 \<le> length (fb_data b) - fb_cur b) (''0x'' @ hex p)"
  by (rule puts_number [OF assms(1)]) (use length_hex [of p 16] assms(2) in \<open>auto simp: formatPointer_def convertHex_hex Let_def\<close>)

lemma puts_double:
  assumes "fb_ok b" and "length (g12 v) < 32"
  shows "puts b (formatDouble g12 v b) (32 \<le> length (fb_data b) - fb_cur b) (g12 v)"
proof -
  have "snprintf (nat kMaxNumericSize) (g12 v) = g12 v" using assms(2) by (simp add: snprintf_def kMaxNumericSize_def)
  then show ?thesis by (intro puts_number [OF assms]) (simp add: formatDouble_def)
qed

lemma log_put_ok:
  assumes "fb_ok b" and "arg_ok g12 a"
  shows "\<exists>b'. log_put g12 a b = Inr b' \<and> fb_ok b' \<and> length (fb_data b') = length (fb_data b) \<and>
    asString b' = arg_put g12 (length (fb_data b)) (asString b) a"
proof -
  let ?r = "length (fb_data b) - fb_cur b"
  have "puts b (log_put g12 a b) (if is_number a then 32 \<le> ?r else length (arg_text g12 a) < ?r) (arg_text g12 a)"
    using assms(2) puts_append [OF assms(1)] puts_char [OF assms(1)] puts_integer [OF assms(1)] puts_pointer [OF assms(1)] puts_double [OF assms(1), of g12]
    by (cases a) (simp_all add: Fmt_def snprintf_def)
  moreover have "length (asString b) = fb_cur b" using assms(1) by (simp add: asString_def fb_ok_def)
  ultimately show ?thesis by (simp only: puts_def arg_put_def)
qed

lemma log_stream_run:
  assumes "fb_ok b" and "list_all (arg_ok g12) args"
  shows "\<exists>b'. foldE (log_put g12) args b = Inr b' \<and> fb_ok b' \<and> length (fb_data b') = length (fb_data b) \<and>
    asString b' = foldl (arg_put g12 (length (fb_data b))) (asString b) args"
  using assms
proof (induction args arbitrary: b)
  case (Cons a args)
  from Cons.prems log_put_ok [of b g12 a] obtain b1 where
    b1: "log_put g12 a b = Inr b1" "fb_ok b1" "length (fb_data b1) = length (fb_data b)"
      "asString b1 = arg_put g12 (length (fb_data b)) (asString b) a" by auto
  from Cons.IH [OF b1(2)] Cons.prems(2) show ?case using b1 by auto
qed simp

text \<open>
  C33. \<open>LogStream\<close> stays inside its buffer and loses whole arguments only: for every sequence of
  operators with arguments of their types, in a buffer of any size, every byte is written inside \<open>data_\<close>, including the
  terminating zeros of numbers, and the buffer then holds the texts of the arguments in order,
  decimal for the integers of every width (also the most negative ones) and hexadecimal for pointers,
  except the arguments that found too little room.
\<close>

theorem log_stream_bounds:
  assumes "fb_ok b" and "list_all (arg_ok g12) args"
  shows "\<exists>b'. foldE (log_put g12) args b = Inr b' \<and> fb_ok b' \<and> length (fb_data b') = length (fb_data b) \<and>
    asString b' = foldl (arg_put g12 (length (fb_data b))) (asString b) args"
  by (rule log_stream_run [OF assms])

theorem log_stream_bounds_witness:
  "\<exists>b'. foldE (log_put (\<lambda>d :: unit. ''1.5'')) [ACStr ''n='', ALong (- 128), APtr 255, AInt 7]
      (newFixedBuffer (replicate 60 (CHR ''?''))) = Inr b' \<and> asString b' = ''n=-1280xFF7''"
proof -
  have h: "dec_int (- 128) = ''-128''" "dec_int 7 = ''7''" "hex 255 = ''FF''"
    by code_simp+
  have "foldl (arg_put (\<lambda>d :: unit. ''1.5'') 60) [] [ACStr ''n='', ALong (- 128), APtr 255, AInt 7] =
      ''n=-1280xFF7''" by (simp add: arg_put_def h)
  moreover have "fb_ok (newFixedBuffer (replicate 60 (CHR ''?'')))" by (simp add: fb_ok_def newFixedBuffer_def)
  moreover have "list_all (arg_ok (\<lambda>d :: unit. ''1.5'')) [ACStr ''n='', ALong (- 128), APtr 255, AInt 7]" by simp
  ultimately show ?thesis
    using log_stream_bounds [of "newFixedBuffer (replicate 60 (CHR ''?''))" "\<lambda>d :: unit. ''1.5''"]
    by (fastforce simp: newFixedBuffer_def asString_def)
qed

end
