(* ===== verification/Calendar.thy ===== *)
theory Calendar
  imports Decimal
begin

text \<open>
  \<open>src/muduo/base/Date.{h,cc}\<close> and the UTC conversions of \<open>TimeZone.cc\<close>: the Julian day number of
  a date and back, the day of the week, and the broken-down time of a number of seconds.

  The code computes with \<open>int\<close>. The definitions compute with integers, divided by the truncating
  \<open>sdiv\<close> and \<open>smod\<close>, and list with \<open>no_overflow\<close> every intermediate value that has to fit into an
  \<open>int\<close>; one that does not makes the result \<open>Undefined_Behaviour\<close>. The reference is the
  Gregorian calendar given by the lengths of its months (\<open>days_in_month\<close>, \<open>next_day\<close>).
\<close>

section \<open>Arithmetic of int\<close>

definition int_ok :: "int \<Rightarrow> bool" where
  "int_ok n \<longleftrightarrow> - (2 ^ 31) \<le> n \<and> n < 2 ^ 31"

definition no_overflow :: "int list \<Rightarrow> 'a \<Rightarrow> 'a result" where
  "no_overflow xs v = (if list_all int_ok xs then Inr v else Inl (Undefined_Behaviour ''signed overflow''))"

lemma no_overflow_Inr [simp]: "list_all int_ok xs \<Longrightarrow> no_overflow xs v = Inr v"
  by (simp add: no_overflow_def)

text \<open>The truncating division is the flooring one on non-negative numbers.\<close>

lemma sdiv_nonneg [simp]: "0 \<le> (a :: int) \<Longrightarrow> 0 < b \<Longrightarrow> a sdiv b = a div b"
  by (simp add: signed_divide_int_def sgn_if)

lemma smod_nonneg [simp]: "0 \<le> (a :: int) \<Longrightarrow> 0 < b \<Longrightarrow> a smod b = a mod b"
  by (simp add: signed_modulo_int_def signed_divide_int_def sgn_if minus_div_mult_eq_mod)

section \<open>Date\<close>

record year_month_day =
  ymd_year :: int
  ymd_month :: int
  ymd_day :: int

definition getJulianDayNumber :: "int \<Rightarrow> int \<Rightarrow> int \<Rightarrow> int result" where
  "getJulianDayNumber year month day =
     (let a = (14 - month) sdiv 12;
          y = year + 4800 - a;
          m = month + 12 * a - 3;
          s1 = day + (153 * m + 2) sdiv 5;
          s2 = s1 + y * 365;
          s3 = s2 + y sdiv 4;
          s4 = s3 - y sdiv 100;
          s5 = s4 + y sdiv 400
      in no_overflow [14 - month, year + 4800, y, 12 * a, month + 12 * a, m, 153 * m, 153 * m + 2,
           s1, y * 365, s2, s3, s4, s5, s5 - 32045] (s5 - 32045))"

definition getYearMonthDay :: "int \<Rightarrow> year_month_day result" where
  "getYearMonthDay julianDayNumber =
     (let a = julianDayNumber + 32044;
          b = (4 * a + 3) sdiv 146097;
          c = a - (b * 146097) sdiv 4;
          d = (4 * c + 3) sdiv 1461;
          e = c - (1461 * d) sdiv 4;
          m = (5 * e + 2) sdiv 153
      in no_overflow [a, 4 * a, 4 * a + 3, b * 146097, c, 4 * c, 4 * c + 3, 1461 * d, e, 5 * e, 5 * e + 2,
           153 * m, 153 * m + 2, e - (153 * m + 2) sdiv 5, e - (153 * m + 2) sdiv 5 + 1,
           m + 3, 12 * (m sdiv 10), m + 3 - 12 * (m sdiv 10),
           b * 100, b * 100 + d, b * 100 + d - 4800, b * 100 + d - 4800 + m sdiv 10]
         \<lparr>ymd_year = b * 100 + d - 4800 + m sdiv 10, ymd_month = m + 3 - 12 * (m sdiv 10),
          ymd_day = e - (153 * m + 2) sdiv 5 + 1\<rparr>)"

definition kJulianDayOf1970_01_01 :: int where
  "kJulianDayOf1970_01_01 = (case getJulianDayNumber 1970 1 1 of Inr j \<Rightarrow> j | Inl _ \<Rightarrow> 0)"

definition kDaysPerWeek :: int where "kDaysPerWeek = 7"

definition Date_valid :: "int \<Rightarrow> bool" where
  "Date_valid jdn \<longleftrightarrow> jdn > 0"

definition weekDay :: "int \<Rightarrow> int result" where
  "weekDay jdn = no_overflow [jdn + 1] ((jdn + 1) smod kDaysPerWeek)"

text \<open>\<open>%4d\<close> pads with blanks, \<open>%02d\<close> with zeros.\<close>

definition toIsoString :: "int \<Rightarrow> string result" where
  "toIsoString jdn = bindE (getYearMonthDay jdn) (\<lambda>ymd.
     Inr (snprintf 32 (pad 4 (CHR '' '') (dec_int (ymd_year ymd)) @ ''-'' @
       pad 2 (CHR ''0'') (dec_int (ymd_month ymd)) @ ''-'' @ pad 2 (CHR ''0'') (dec_int (ymd_day ymd)))))"

section \<open>The Gregorian calendar\<close>

definition leap :: "int \<Rightarrow> bool" where
  "leap y \<longleftrightarrow> y mod 4 = 0 \<and> (y mod 100 \<noteq> 0 \<or> y mod 400 = 0)"

definition days_in_month :: "int \<Rightarrow> int \<Rightarrow> int" where
  "days_in_month y m = (if m = 2 then (if leap y then 29 else 28)
     else if m = 4 \<or> m = 6 \<or> m = 9 \<or> m = 11 then 30 else 31)"

definition gregorian :: "int \<Rightarrow> int \<Rightarrow> int \<Rightarrow> bool" where
  "gregorian y m d \<longleftrightarrow> 1 \<le> m \<and> m \<le> 12 \<and> 1 \<le> d \<and> d \<le> days_in_month y m"

definition next_day :: "int \<times> int \<times> int \<Rightarrow> int \<times> int \<times> int" where
  "next_day t = (case t of (y, m, d) \<Rightarrow>
     if d < days_in_month y m then (y, m, d + 1) else if m < 12 then (y, m + 1, 1) else (y + 1, 1, 1))"

text \<open>
  Years start in March: \<open>march_day Y e\<close> is the number of days before day \<open>e\<close> of the \<open>Y\<close>-th March year.
\<close>

definition march_day :: "int \<Rightarrow> int \<Rightarrow> int" where
  "march_day Y e = 365 * Y + Y div 4 - Y div 100 + Y div 400 + e"

definition month_start :: "int \<Rightarrow> int" where
  "month_start m = (153 * m + 2) div 5"

lemma div_eqI: "n * q \<le> a \<Longrightarrow> a < n * q + n \<Longrightarrow> (a :: int) div n = q"
  by (rule int_div_pos_eq [where r = "a - n * q"]) simp_all

lemma march_day_century:
  assumes "0 \<le> D" and "D < 100"
  shows "march_day (100 * B + D) e = (146097 * B) div 4 + (1461 * D) div 4 + e"
proof -
  define q r u v where d: "q = B div 4" "r = B mod 4" "u = D div 4" "v = D mod 4"
  have B: "B = 4 * q + r" "0 \<le> r" "r \<le> 3" and D: "D = 4 * u + v" "0 \<le> v" "v \<le> 3"
    using d by (simp_all add: pos_mod_bound [of 4, simplified] add1_zle_eq [symmetric])
  have "(100 * B + D) div 4 = 25 * B + u" "(100 * B + D) div 100 = B" "(100 * B + D) div 400 = q"
    "(146097 * B) div 4 = 36524 * B + q" "(1461 * D) div 4 = 365 * D + u"
    by (safe intro!: div_eqI) (use assms B D in simp_all)
  then show ?thesis by (simp add: march_day_def)
qed

text \<open>A March year has a 366th day exactly when the February at its end has 29 days.\<close>

lemma leap_century:
  assumes "leap (100 * B + D + 1)" and "0 \<le> D" and "D < 100"
  shows "D mod 4 = 3" and "D = 99 \<Longrightarrow> B mod 4 = 3"
proof -
  have m: "(100 * B + D + 1) mod 4 = 0" using assms(1) by (simp add: leap_def)
  have "(100 * B + D + 1) mod 4 = (D + 1) mod 4"
    using mod_mult_self1 [of "D + 1" "25 * B" 4] by (simp add: algebra_simps)
  then have "(D + 1) mod 4 = 0" using m by simp
  then show "D mod 4 = 3" by presburger
  assume D: "D = 99"
  then have "(100 * B + D + 1) mod 400 = 0" using assms(1) by (simp add: leap_def)
  then have "(100 * (B + 1)) mod (100 * 4) = 0" using D by (simp add: algebra_simps)
  then have "(B + 1) mod 4 = 0" unfolding mult_mod_right [symmetric] by simp
  then show "B mod 4 = 3" by presburger
qed

lemma march_year_found:
  assumes "0 \<le> Y" and "0 \<le> e" and "e \<le> 365" and "e = 365 \<Longrightarrow> leap (Y + 1)"
    and "a = march_day Y e" and "b = (4 * a + 3) div 146097" and "c = a - (b * 146097) div 4"
  shows "b = Y div 100" and "(4 * c + 3) div 1461 = Y mod 100" and "c - (1461 * (Y mod 100)) div 4 = e"
    and "0 \<le> c" and "0 \<le> a"
proof -
  define B D where BD: "B = Y div 100" "D = Y mod 100"
  have Y: "Y = 100 * B + D" "0 \<le> D" "D \<le> 99" "0 \<le> B" using assms(1) BD by simp_all
  define q r u v where d: "q = B div 4" "r = B mod 4" "u = D div 4" "v = D mod 4"
  have B: "B = 4 * q + r" "0 \<le> r" "r \<le> 3" and D: "D = 4 * u + v" "0 \<le> v" "v \<le> 3" "0 \<le> u"
    using d Y(2) by simp_all
  have q: "0 \<le> q" using d(1) Y(4) by simp
  have f: "(146097 * B) div 4 = 36524 * B + q" "(1461 * D) div 4 = 365 * D + u"
    by (safe intro!: div_eqI) (use Y B D in simp_all)
  have a: "a = 36524 * B + q + 365 * D + u + e"
    using march_day_century [OF Y(2), of B e] f assms(5) Y(1,3) by simp
  have last: "e = 365 \<Longrightarrow> v = 3" "e = 365 \<Longrightarrow> D = 99 \<Longrightarrow> r = 3"
    using leap_century [of B D] assms(4) Y d by auto
  have full: "365 * D + u + e \<le> 36523 + (if r = 3 then 1 else 0)"
    using last assms(3) Y(2,3) D by (cases "D = 99"; cases "e = 365"; cases "r = 3"; simp; linarith)
  have b: "b = B" unfolding assms(6) a
    by (rule div_eqI) (use full assms(2) Y B D in \<open>simp_all split: if_splits\<close>)
  then have c: "c = 365 * D + u + e" using assms(7) a f(1) by (simp add: mult.commute)
  show "b = Y div 100" using b BD by simp
  have "(4 * c + 3) div 1461 = D" unfolding c
    by (rule div_eqI) (use last(1) assms(2,3) D in \<open>cases "e = 365"; simp\<close>)+
  then show "(4 * c + 3) div 1461 = Y mod 100" using BD by simp
  show "c - (1461 * (Y mod 100)) div 4 = e" using c f(2) BD by simp
  show "0 \<le> c" "0 \<le> a" using c a assms(2) D q by (simp_all add: Y(2,4))
qed

text \<open>Month and day within a March year: month 0 is March, month 11 February.\<close>

lemma march_month_found:
  assumes "0 \<le> m" and "m \<le> 11" and "1 \<le> d" and "d \<le> (if m = 11 then 29 else if m = 1 \<or> m = 3 \<or> m = 6 \<or> m = 8 then 30 else 31)"
  shows "(5 * (month_start m + d - 1) + 2) div 153 = m" and "0 \<le> month_start m" and "month_start m + d - 1 \<le> 365"
    and "month_start m + d - 1 = 365 \<longleftrightarrow> m = 11 \<and> d = 29"
proof -
  have "m \<in> {0, 1, 2, 3, 4, 5, 6, 7, 8, 9, 10, 11}"
    using assms(1,2) unfolding insert_iff empty_iff by presburger
  then show "(5 * (month_start m + d - 1) + 2) div 153 = m" "0 \<le> month_start m" "month_start m + d - 1 \<le> 365"
    "month_start m + d - 1 = 365 \<longleftrightarrow> m = 11 \<and> d = 29"
    using assms(3,4) by (auto simp: month_start_def intro!: div_eqI)
qed

definition date_range :: "int \<Rightarrow> bool" where
  "date_range year \<longleftrightarrow> - 4799 \<le> year \<and> year \<le> 1465000"

text \<open>March year and month of a date.\<close>

definition march_year :: "int \<Rightarrow> int \<Rightarrow> int" where
  "march_year y m = (if m \<le> 2 then y + 4799 else y + 4800)"

definition march_month :: "int \<Rightarrow> int" where
  "march_month m = (if m \<le> 2 then m + 9 else m - 3)"

lemma march_day_bounds:
  assumes "0 \<le> Y" and "Y \<le> 1469800" and "0 \<le> e" and "e \<le> 365"
  shows "0 \<le> march_day Y e" and "march_day Y e \<le> 536870000"
proof -
  have "0 \<le> Y div 400" "Y div 400 \<le> 3674" "0 \<le> Y div 4" "Y div 4 \<le> 367450" "Y div 100 \<le> Y div 4" "0 \<le> Y div 100"
    "4 * (Y div 4) \<le> Y"
    using assms by (auto intro: zdiv_mono1 zdiv_mono2 simp: div_int_pos_iff intro!: order_trans [OF zdiv_mono1 [OF assms(2)]])
  then show "0 \<le> march_day Y e" "march_day Y e \<le> 536870000" using assms by (auto simp: march_day_def)
qed

section \<open>Dates and day numbers\<close>

lemma leap_shift: "leap (y + 4800) = leap y"
  using mod_mult_self1 [of y 1200 4] mod_mult_self1 [of y 48 100] mod_mult_self1 [of y 12 400] by (simp add: leap_def)

lemma march_of_date:
  assumes "gregorian y m d" and "date_range y"
  shows "0 \<le> march_year y m" and "march_year y m \<le> 1469800"
    and "0 \<le> march_month m" and "march_month m \<le> 11" and "1 \<le> d"
    and "d \<le> (if march_month m = 11 then 29 else if march_month m = 1 \<or> march_month m = 3 \<or> march_month m = 6 \<or> march_month m = 8 then 30 else 31)"
    and "month_start (march_month m) + d - 1 = 365 \<Longrightarrow> leap (march_year y m + 1)"
proof -
  show "0 \<le> march_year y m" "march_year y m \<le> 1469800" "0 \<le> march_month m" "march_month m \<le> 11" "1 \<le> d"
    using assms by (auto simp: gregorian_def date_range_def march_year_def march_month_def)
  show d: "d \<le> (if march_month m = 11 then 29 else if march_month m = 1 \<or> march_month m = 3 \<or> march_month m = 6 \<or> march_month m = 8 then 30 else 31)"
    using assms(1) by (auto simp: gregorian_def march_month_def days_in_month_def split: if_splits)
  assume "month_start (march_month m) + d - 1 = 365"
  then have "march_month m = 11" "d = 29" using march_month_found(4) [OF _ _ _ d] assms(1)
    by (auto simp: gregorian_def march_month_def)
  then have "leap y" "m = 2" using assms(1) by (auto simp: gregorian_def march_month_def days_in_month_def split: if_splits)
  then show "leap (march_year y m + 1)" using leap_shift [of y] by (simp add: march_year_def add.commute)
qed

lemma getJulianDayNumber_march:
  assumes "gregorian y m d" and "date_range y"
  shows "getJulianDayNumber y m d = Inr (march_day (march_year y m) (month_start (march_month m) + d - 1) - 32044)"
proof -
  note b = march_of_date [OF assms]
  note mm = march_month_found [OF b(3-6)]
  have "0 \<le> month_start (march_month m) + d - 1" using mm(2) b(5) by simp
  note mb = march_day_bounds [OF b(1,2) this mm(3)]
  define a where "a = (14 - m) sdiv 12"
  have m: "1 \<le> m" "m \<le> 12" using assms(1) by (simp_all add: gregorian_def)
  then have a: "a = (if m \<le> 2 then 1 else 0)" unfolding a_def by (auto intro!: div_eqI)
  have y: "y + 4800 - a = march_year y m" "m + 12 * a - 3 = march_month m" by (simp_all add: a march_year_def march_month_def)
  define Y M ms q4 q100 q400 where YM: "Y = march_year y m" "M = march_month m" "ms = month_start M"
    and q: "q4 = Y div 4" "q100 = Y div 100" "q400 = Y div 400"
  have div: "0 \<le> q4" "q4 \<le> Y" "0 \<le> q100" "q100 \<le> Y" "0 \<le> q400" "q400 \<le> Y"
    using b(1) YM(1) zdiv_mono2 [of Y 1 4] zdiv_mono2 [of Y 1 100] zdiv_mono2 [of Y 1 400]
    unfolding q by (simp_all add: div_int_pos_iff)
  have s: "(153 * M + 2) sdiv 5 = ms" "Y sdiv 4 = q4" "Y sdiv 100 = q100" "Y sdiv 400 = q400"
    using b(1,3) by (simp_all add: YM q month_start_def)
  have r: "march_day Y (ms + d - 1) = 365 * Y + q4 - q100 + q400 + (ms + d - 1)" by (simp add: march_day_def q)
  have yb: "- 4799 \<le> y" "y \<le> 1465000" using assms(2) by (simp_all add: date_range_def)
  have ab: "0 \<le> a" "a \<le> 1" by (simp_all add: a)
  note facts = b(1-5) mm(2,3) mb(2) div m yb ab
  have "list_all int_ok [14 - m, y + 4800, Y, 12 * a, m + 12 * a, M, 153 * M, 153 * M + 2, d + ms, Y * 365,
      d + ms + Y * 365, d + ms + Y * 365 + q4, d + ms + Y * 365 + q4 - q100, d + ms + Y * 365 + q4 - q100 + q400,
      d + ms + Y * 365 + q4 - q100 + q400 - 32045]"
    using facts unfolding YM [symmetric] r unfolding list.pred_inject int_ok_def by simp
  then show ?thesis
    unfolding getJulianDayNumber_def Let_def a_def [symmetric] y YM [symmetric] s r by simp
qed

lemma getYearMonthDay_march:
  assumes Y: "0 \<le> Y" "Y \<le> 1469800" and m: "0 \<le> m" "m \<le> 11" and d: "1 \<le> d"
    "d \<le> (if m = 11 then 29 else if m = 1 \<or> m = 3 \<or> m = 6 \<or> m = 8 then 30 else 31)"
    and l: "month_start m + d - 1 = 365 \<Longrightarrow> leap (Y + 1)"
  shows "getYearMonthDay (march_day Y (month_start m + d - 1) - 32044) =
    Inr \<lparr>ymd_year = Y - 4800 + m div 10, ymd_month = m + 3 - 12 * (m div 10), ymd_day = d\<rparr>"
proof -
  note mm = march_month_found [OF m d]
  define e where "e = month_start m + d - 1"
  have e: "0 \<le> e" "e \<le> 365" using mm d unfolding e_def by simp_all
  define a where "a = march_day Y e"
  define b where "b = (4 * a + 3) div 146097"
  define c where "c = a - (b * 146097) div 4"
  note f = march_year_found [OF Y(1) e _ a_def b_def c_def]
  have l': "e = 365 \<Longrightarrow> leap (Y + 1)" using l unfolding e_def by simp
  have bb: "0 \<le> b" "b = Y div 100" "(4 * c + 3) div 1461 = Y mod 100" "c - (1461 * (Y mod 100)) div 4 = e" "0 \<le> c" "0 \<le> a"
    using f [OF l'] Y(1) by simp_all
  have c: "c \<le> a" using bb(1) by (simp add: c_def)
  have big: "a \<le> 536870000" using march_day_bounds(2) [OF Y e] by (simp add: a_def)
  have D: "0 \<le> Y mod 100" "Y mod 100 \<le> 99" by simp_all
  have bY: "b * 100 + Y mod 100 = Y" "b \<le> 14698" using bb(2) Y by (simp_all add: zdiv_mono1 [of Y 1469800 100, simplified])
  have m': "(5 * e + 2) div 153 = m" "(153 * m + 2) div 5 = month_start m" "0 \<le> m div 10" "m div 10 \<le> 1"
    using mm(1) m by (auto simp: e_def month_start_def)
  have a': "a - 32044 + 32044 = a" by simp
  have s1: "(4 * a + 3) sdiv 146097 = b" using bb(6) by (simp add: b_def)
  have s2: "a - (b * 146097) sdiv 4 = c" using bb(1) by (simp add: c_def)
  have s3: "(4 * c + 3) sdiv 1461 = Y mod 100" unfolding bb(3) [symmetric] by (rule sdiv_nonneg) (use bb(5) in simp_all)
  have s4: "c - (1461 * (Y mod 100)) sdiv 4 = e" unfolding bb(4) [symmetric] by (subst sdiv_nonneg) simp_all
  have s5: "(5 * e + 2) sdiv 153 = m" unfolding m'(1) [symmetric] by (rule sdiv_nonneg) (use e(1) in simp_all)
  have s6: "(153 * m + 2) sdiv 5 = month_start m" unfolding m'(2) [symmetric] by (rule sdiv_nonneg) (use m(1) in simp_all)
  have s7: "m sdiv 10 = m div 10" by (rule sdiv_nonneg) (use m(1) in simp_all)
  have b': "b * 146097 \<le> 4 * a + 3"
    using div_mult_mod_eq [of "4 * a + 3" 146097] pos_mod_sign [of 146097 "4 * a + 3"] unfolding b_def by linarith
  note facts = bb(1,5,6) c big D bY(2) m m'(3,4) e d(1) mm(2) b' Y
  have "month_start m = e - d + 1" by (simp add: e_def)
  with facts show ?thesis
    unfolding getYearMonthDay_def Let_def e_def [symmetric] a_def [symmetric] a' s1 s2 s3 s4 s5 s6 s7 bY
    by (intro trans [OF no_overflow_Inr]) (unfold list.pred_inject int_ok_def, auto)
qed

lemma date_julian_date:
  assumes "gregorian y m d" and "date_range y"
  shows "\<exists>j. getJulianDayNumber y m d = Inr j \<and> getYearMonthDay j = Inr \<lparr>ymd_year = y, ymd_month = m, ymd_day = d\<rparr>"
proof -
  note b = march_of_date [OF assms]
  have "march_year y m - 4800 + march_month m div 10 = y" "march_month m + 3 - 12 * (march_month m div 10) = m"
    using assms(1) by (auto simp: march_year_def march_month_def gregorian_def)
  then show ?thesis
    using getJulianDayNumber_march [OF assms] getYearMonthDay_march [OF b] by simp
qed

lemma div_succ: "0 < n \<Longrightarrow> (x + 1 :: int) div n = x div n + (if (x + 1) mod n = 0 then 1 else 0)"
proof -
  assume n: "0 < n"
  have x: "x = n * (x div n) + x mod n" "0 \<le> x mod n" "x mod n < n" using n by simp_all
  show ?thesis
  proof (cases "x mod n + 1 = n")
    case True
    then have "x + 1 = n * (x div n + 1)" unfolding distrib_left mult_1_right using x(1) by linarith
    then show ?thesis using n by (metis mod_mult_self1_is_0 nonzero_mult_div_cancel_left order_less_irrefl)
  next
    case False
    then have "(x + 1) div n = x div n" using x by (intro div_eqI) linarith+
    moreover have "(x + 1) mod n = x mod n + 1"
      by (rule int_mod_pos_eq [where q = "x div n"]) (use x False in linarith)+
    ultimately show ?thesis using x(2) by simp
  qed
qed

lemma march_year_length: "march_day (Y + 1) 0 = march_day Y (if leap (Y + 1) then 366 else 365)"
proof -
  define q4 q100 q400 where q: "q4 = Y div 4" "q100 = Y div 100" "q400 = Y div 400"
  define p4 p100 p400 where p: "p4 \<longleftrightarrow> (Y + 1) mod 4 = 0" "p100 \<longleftrightarrow> (Y + 1) mod 100 = 0" "p400 \<longleftrightarrow> (Y + 1) mod 400 = 0"
  have "100 dvd Y + 1 \<Longrightarrow> 4 dvd Y + 1" "400 dvd Y + 1 \<Longrightarrow> 100 dvd Y + 1"
    by (erule dvd_trans [rotated]; simp)+
  then have i: "p100 \<longrightarrow> p4" "p400 \<longrightarrow> p100" unfolding p dvd_eq_mod_eq_0 by blast+
  have s4: "(Y + 1) div 4 = q4 + (if p4 then 1 else 0)" unfolding p q by (rule div_succ) simp
  have s100: "(Y + 1) div 100 = q100 + (if p100 then 1 else 0)" unfolding p q by (rule div_succ) simp
  have s400: "(Y + 1) div 400 = q400 + (if p400 then 1 else 0)" unfolding p q by (rule div_succ) simp
  show ?thesis unfolding march_day_def leap_def s4 s100 s400 p [symmetric] q [symmetric] using i by (cases p4; cases p100; cases p400) simp_all
qed

lemma march_day_add: "march_day Y e = march_day Y 0 + e"
  by (simp add: march_day_def)

lemma month_start_step:
  assumes "1 \<le> m" and "m \<le> 12" and "m \<noteq> 2"
  shows "month_start (march_month (if m < 12 then m + 1 else 1)) = month_start (march_month m) + days_in_month y m"
proof -
  have "m \<in> {1, 3, 4, 5, 6, 7, 8, 9, 10, 11, 12}" using assms unfolding insert_iff empty_iff by presburger
  then show ?thesis by (elim insertE emptyE) (simp_all add: month_start_def march_month_def days_in_month_def)
qed

lemma julian_next_day:
  assumes "gregorian y m d" and "date_range y" and "next_day (y, m, d) = (y', m', d')" and "date_range y'"
    and "getJulianDayNumber y m d = Inr j"
  shows "gregorian y' m' d' \<and> getJulianDayNumber y' m' d' = Inr (j + 1)"
proof -
  have g: "gregorian y' m' d'"
    using assms(1,3) by (auto simp: gregorian_def next_day_def days_in_month_def split: if_splits)
  have "march_day (march_year y' m') (month_start (march_month m') + d' - 1) =
    march_day (march_year y m) (month_start (march_month m) + d - 1) + 1"
  proof (cases "m = 2 \<and> d = days_in_month y 2")
    case True
    note l = leap_shift [of y]
    have n: "(y', m', d') = (y, 3, 1)" using True assms(3) by (simp add: next_day_def)
    have s: "month_start (march_month 3) = 0" "month_start (march_month 2) = 337"
      "march_year y 3 = y + 4799 + 1" "march_year y 2 = y + 4799" by (simp_all add: month_start_def march_month_def march_year_def)
    have "337 + days_in_month y 2 = (if leap y then 366 else 365)" by (simp add: days_in_month_def)
    then show ?thesis using True n s march_year_length [of "y + 4799"] l
      march_day_add [of "y + 4799" "if leap y then 366 else 365"] march_day_add [of "y + 4799" "337 + days_in_month y 2 - 1"]
      by (cases "leap y") (simp_all add: add.commute [of y 4800])
  next
    case False
    have "march_year y' m' = march_year y m" 
      using False assms(1,3) by (auto simp: march_year_def next_day_def gregorian_def split: if_splits)
    moreover have "month_start (march_month m') + d' = month_start (march_month m) + d + 1"
      using month_start_step [of m y] False assms(1,3) by (auto simp: next_day_def gregorian_def split: if_splits)
    ultimately show ?thesis
      using march_day_add [of "march_year y m" "month_start (march_month m') + d' - 1"]
        march_day_add [of "march_year y m" "month_start (march_month m) + d - 1"] by simp
  qed
  then show ?thesis using g assms(5) getJulianDayNumber_march [OF assms(1,2)] getJulianDayNumber_march [OF g assms(4)] by simp
qed

text \<open>The day numbers of the dates in range are consecutive, so every number in range is one.\<close>

lemma julian_year_bound:
  assumes "gregorian y m d" and "date_range y" and "getJulianDayNumber y m d = Inr j" and "j \<le> 535000000"
  shows "y < 1465000"
proof -
  note b = march_of_date [OF assms(1,2)]
  define Y q4 q100 q400 where Y: "Y = march_year y m" and q: "q4 = Y div 4" "q100 = Y div 100" "q400 = Y div 400"
  have "0 \<le> month_start (march_month m) + d - 1" using march_month_found(2) [OF b(3-6)] b(5) by simp
  moreover have "q100 \<le> q4" "0 \<le> q400" using zdiv_mono2 [of Y 4 100] b(1) unfolding q Y by (simp_all add: div_int_pos_iff)
  moreover have "j = 365 * Y + q4 - q100 + q400 + (month_start (march_month m) + d - 1) - 32044"
    using getJulianDayNumber_march [OF assms(1,2)] assms(3) by (simp add: march_day_def Y q)
  ultimately have "365 * Y \<le> 535032044" using assms(4) by linarith
  then show ?thesis by (simp add: Y march_year_def split: if_splits)
qed

lemma julian_dates:
  assumes "int n - 31738 \<le> 535000000"
  shows "\<exists>y m d. gregorian y m d \<and> date_range y \<and> getJulianDayNumber y m d = Inr (int n - 31738)"
  using assms
proof (induction n)
  case 0
  have "gregorian (- 4799) 1 1 \<and> date_range (- 4799) \<and> getJulianDayNumber (- 4799) 1 1 = Inr (- 31738)" by code_simp
  then show ?case by force
next
  case (Suc n)
  then obtain y m d where ymd: "gregorian y m d" "date_range y" "getJulianDayNumber y m d = Inr (int n - 31738)" by force
  obtain y' m' d' where n: "next_day (y, m, d) = (y', m', d')" by (cases "next_day (y, m, d)") auto
  have "y < 1465000" using julian_year_bound [OF ymd] Suc.prems by simp
  then have "date_range y'" using n ymd(2) by (auto simp: date_range_def next_day_def split: if_splits)
  from julian_next_day [OF ymd(1,2) n this ymd(3)] this show ?case by (auto intro!: exI)
qed

lemma julian_date_julian:
  assumes "- 31738 \<le> j" and "j \<le> 535000000"
  shows "\<exists>y m d. getYearMonthDay j = Inr \<lparr>ymd_year = y, ymd_month = m, ymd_day = d\<rparr> \<and>
    gregorian y m d \<and> date_range y \<and> getJulianDayNumber y m d = Inr j"
proof -
  define n where "n = nat (j + 31738)"
  then have n: "j = int n - 31738" using assms(1) by simp
  from julian_dates [of n] assms(2) n obtain y m d where
    ymd: "gregorian y m d" "date_range y" "getJulianDayNumber y m d = Inr j" by auto
  then show ?thesis using date_julian_date [OF ymd(1,2)] by auto
qed

text \<open>
  C35. \<open>Date\<close> is the Gregorian calendar: for every date of the years -4799 to 1465000 the Julian day
  number is computed without overflow, \<open>yearMonthDay\<close> gives the date back, and the next day has the
  next number; conversely every number up to 535000000 gives a date of the calendar
  with that number. 1970-01-01 has the number 2440588, as in the astronomical count.
\<close>

theorem date_julian_roundtrip:
  assumes "gregorian y m d" and "date_range y" and "next_day (y, m, d) = (y', m', d')" and "date_range y'"
    and "- 31738 \<le> k" and "k \<le> 535000000"
  shows "(\<exists>j. getJulianDayNumber y m d = Inr j \<and> getYearMonthDay j = Inr \<lparr>ymd_year = y, ymd_month = m, ymd_day = d\<rparr> \<and>
      getJulianDayNumber y' m' d' = Inr (j + 1)) \<and>
    (\<exists>ymd. getYearMonthDay k = Inr ymd \<and> gregorian (ymd_year ymd) (ymd_month ymd) (ymd_day ymd) \<and>
      getJulianDayNumber (ymd_year ymd) (ymd_month ymd) (ymd_day ymd) = Inr k) \<and>
    getJulianDayNumber 1970 1 1 = Inr 2440588"
proof (intro conjI)
  show "\<exists>j. getJulianDayNumber y m d = Inr j \<and> getYearMonthDay j = Inr \<lparr>ymd_year = y, ymd_month = m, ymd_day = d\<rparr> \<and>
      getJulianDayNumber y' m' d' = Inr (j + 1)"
    using date_julian_date [OF assms(1,2)] julian_next_day [OF assms(1-4)] by auto
  show "\<exists>ymd. getYearMonthDay k = Inr ymd \<and> gregorian (ymd_year ymd) (ymd_month ymd) (ymd_day ymd) \<and>
      getJulianDayNumber (ymd_year ymd) (ymd_month ymd) (ymd_day ymd) = Inr k"
    using julian_date_julian [OF assms(5,6)] by force
  show "getJulianDayNumber 1970 1 1 = Inr 2440588" by code_simp
qed

theorem date_julian_roundtrip_witness:
  "(\<exists>j. getJulianDayNumber 2000 2 29 = Inr j \<and> getYearMonthDay j = Inr \<lparr>ymd_year = 2000, ymd_month = 2, ymd_day = 29\<rparr> \<and>
     getJulianDayNumber 2000 3 1 = Inr (j + 1)) \<and> ok (getYearMonthDay 0)"
proof -
  have h: "gregorian 2000 2 29" "date_range 2000" "next_day (2000, 2, 29) = (2000, 3, 1)" by code_simp+
  have k: "- 31738 \<le> (0 :: int)" "(0 :: int) \<le> 535000000" by simp_all
  show ?thesis using date_julian_roundtrip [OF h h(2) k] by blast
qed

end
