(* ===== verification/Time_Zone.thy ===== *)
theory Time_Zone
  imports Calendar
begin

text \<open>
  \<open>src/muduo/base/TimeZone.{h,cc}\<close>: the UTC conversions, the reader of zone files, and the
  conversions between UTC and the local time of a zone.

  \<open>time_t\<close> is a 64-bit integer and the values stay far below its limits, so it is \<open>int\<close> here;
  values of type \<open>int\<close> are checked as in \<open>Calendar\<close>. The C library's \<open>gmtime_r\<close> and \<open>timegm\<close> are
  the Gregorian calendar: \<open>gmtime\<close> gives nothing outside the range where the day can be computed.
  A zone file is its content, \<open>None\<close> when it cannot be opened.
\<close>

section \<open>UTC\<close>

record tm =
  tm_sec :: int
  tm_min :: int
  tm_hour :: int
  tm_mday :: int
  tm_mon :: int
  tm_year :: int
  tm_wday :: int
  tm_yday :: int
  tm_isdst :: bool
  tm_gmtoff :: int
  tm_zone :: string

text \<open>\<open>bzero(&tm, sizeof tm)\<close>.\<close>

definition tm_zero :: tm where
  "tm_zero = \<lparr>tm_sec = 0, tm_min = 0, tm_hour = 0, tm_mday = 0, tm_mon = 0, tm_year = 0, tm_wday = 0,
     tm_yday = 0, tm_isdst = False, tm_gmtoff = 0, tm_zone = []\<rparr>"

definition kSecondsPerDay :: int where "kSecondsPerDay = 24 * 60 * 60"

definition fillHMS :: "int \<Rightarrow> tm \<Rightarrow> tm" where
  "fillHMS seconds utc =
     (let minutes = seconds div 60 in
      utc\<lparr>tm_sec := seconds mod 60, tm_min := minutes mod 60, tm_hour := minutes div 60\<rparr>)"

definition toUtcTime :: "int \<Rightarrow> bool \<Rightarrow> tm result" where
  "toUtcTime secondsSinceEpoch yday =
     (let utc = tm_zero\<lparr>tm_zone := ''GMT''\<rparr>;
          seconds = cast_int (secondsSinceEpoch smod kSecondsPerDay);
          days = cast_int (secondsSinceEpoch sdiv kSecondsPerDay);
          seconds' = (if seconds < 0 then seconds + kSecondsPerDay else seconds);
          days' = (if seconds < 0 then days - 1 else days);
          utc' = fillHMS seconds' utc in
      bindE (no_overflow [days', days' + kJulianDayOf1970_01_01] (days' + kJulianDayOf1970_01_01)) (\<lambda>date.
      bindE (getYearMonthDay date) (\<lambda>ymd.
      bindE (weekDay date) (\<lambda>wday.
      let utc'' = utc'\<lparr>tm_year := ymd_year ymd - 1900, tm_mon := ymd_month ymd - 1, tm_mday := ymd_day ymd,
                       tm_wday := wday\<rparr> in
      if yday then
        bindE (getJulianDayNumber (ymd_year ymd) 1 1) (\<lambda>startOfYear.
        no_overflow [date - startOfYear] (utc''\<lparr>tm_yday := date - startOfYear\<rparr>))
      else Inr utc''))))"

definition fromUtcTime6 :: "int \<Rightarrow> int \<Rightarrow> int \<Rightarrow> int \<Rightarrow> int \<Rightarrow> int \<Rightarrow> int result" where
  "fromUtcTime6 year month day hour minute seconds =
     bindE (getJulianDayNumber year month day) (\<lambda>date.
     let secondsInDay = hour * 3600 + minute * 60 + seconds in
     no_overflow [hour * 3600, minute * 60, hour * 3600 + minute * 60, secondsInDay, date - kJulianDayOf1970_01_01]
       ((date - kJulianDayOf1970_01_01) * kSecondsPerDay + secondsInDay))"

definition fromUtcTime :: "tm \<Rightarrow> int result" where
  "fromUtcTime utc =
     bindE (no_overflow [tm_year utc + 1900, tm_mon utc + 1] ()) (\<lambda>_.
     fromUtcTime6 (tm_year utc + 1900) (tm_mon utc + 1) (tm_mday utc) (tm_hour utc) (tm_min utc) (tm_sec utc))"

section \<open>Seconds and broken-down time\<close>

lemma kJulian_eq [simp]: "kJulianDayOf1970_01_01 = 2440588"
  by code_simp

lemma kSecondsPerDay_eq [simp]: "kSecondsPerDay = 86400"
  by (simp add: kSecondsPerDay_def)

text \<open>The correction after the truncating division makes it the flooring one.\<close>

lemma sdiv_floor:
  fixes s :: int
  shows "(if s smod 86400 < 0 then s smod 86400 + 86400 else s smod 86400) = s mod 86400"
    and "(if s smod 86400 < 0 then s sdiv 86400 - 1 else s sdiv 86400) = s div 86400"
proof -
  define q r where qr: "q = s div 86400" "r = s mod 86400"
  have s: "s = 86400 * q + r" "0 \<le> r" "r < 86400" using qr by simp_all
  have "(if s smod 86400 < 0 then s smod 86400 + 86400 else s smod 86400) = r \<and>
    (if s smod 86400 < 0 then s sdiv 86400 - 1 else s sdiv 86400) = q"
  proof (cases "0 \<le> s")
    case True
    then show ?thesis using qr by simp
  next
    case False
    then have neg: "s sdiv 86400 = - ((- s) div 86400)" by (simp add: signed_divide_int_def)
    have smod: "s smod 86400 = s + ((- s) div 86400) * 86400"
    proof -
      have "s smod 86400 = - ((- s) mod 86400)" using False by (simp add: signed_modulo_int_def)
      then show ?thesis using div_mult_mod_eq [of "- s" 86400] by linarith
    qed
    show ?thesis
    proof (cases "r = 0")
      case True
      then have "(- s) div 86400 = - q" by (intro div_eqI) (use s in simp_all)
      then show ?thesis using neg smod s True by simp
    next
      case r: False
      then have "(- s) div 86400 = - q - 1" by (intro div_eqI) (use s in simp_all)
      then show ?thesis using neg smod s r by simp
    qed
  qed
  then show "(if s smod 86400 < 0 then s smod 86400 + 86400 else s smod 86400) = s mod 86400"
    "(if s smod 86400 < 0 then s sdiv 86400 - 1 else s sdiv 86400) = s div 86400" using qr by simp_all
qed

definition time_range :: "int \<Rightarrow> bool" where
  "time_range s \<longleftrightarrow> 0 \<le> s div 86400 + 2440588 \<and> s div 86400 + 2440588 \<le> 535000000"

lemma time_range_limits:
  assumes "time_range s"
  shows "- (2 ^ 31) \<le> s sdiv 86400" and "s sdiv 86400 < 2 ^ 31"
    and "- (2 ^ 31) \<le> s smod 86400" and "s smod 86400 < 2 ^ 31"
proof -
  have "0 \<le> s mod 86400" "s mod 86400 < 86400" by simp_all
  then show "- (2 ^ 31) \<le> s sdiv 86400" "s sdiv 86400 < 2 ^ 31" "- (2 ^ 31) \<le> s smod 86400" "s smod 86400 < 2 ^ 31"
    using sdiv_floor [of s] assms unfolding time_range_def by (simp_all split: if_splits)
qed

text \<open>What \<open>toUtcTime\<close> computes, on the range.\<close>

lemma toUtcTime_eq:
  assumes "time_range s" and "j = s div 86400 + 2440588" and "getYearMonthDay j = Inr ymd"
    and "getJulianDayNumber (ymd_year ymd) 1 1 = Inr j0" and "int_ok (j - j0)"
  shows "toUtcTime s yday = Inr \<lparr>tm_sec = s mod 86400 mod 60, tm_min = s mod 86400 div 60 mod 60,
    tm_hour = s mod 86400 div 60 div 60, tm_mday = ymd_day ymd, tm_mon = ymd_month ymd - 1, tm_year = ymd_year ymd - 1900,
    tm_wday = (j + 1) mod 7, tm_yday = (if yday then j - j0 else 0), tm_isdst = False, tm_gmtoff = 0, tm_zone = ''GMT''\<rparr>"
proof -
  note lim = time_range_limits [OF assms(1)]
  have j: "0 \<le> j" "j \<le> 535000000" using assms(1,2) by (simp_all add: time_range_def)
  have days: "(if s smod 86400 < 0 then s sdiv 86400 - 1 else s sdiv 86400) = j - 2440588" using sdiv_floor(2) [of s] assms(2) by simp
  have chk: "no_overflow [j - 2440588, j - 2440588 + 2440588] (j - 2440588 + 2440588) = Inr j"
    using j by (simp add: no_overflow_def int_ok_def)
  have "weekDay j = Inr ((j + 1) mod 7)" using j by (simp add: weekDay_def kDaysPerWeek_def no_overflow_def int_ok_def)
  then show ?thesis
    unfolding toUtcTime_def Let_def kSecondsPerDay_eq kJulian_eq cast_int_id [OF lim(1,2)] cast_int_id [OF lim(3,4)]
      sdiv_floor(1) days chk
    using assms(3-5) by (simp add: tm_zero_def fillHMS_def Let_def no_overflow_def)
qed

text \<open>The day of the year: the days of the months before, and the day of the month.\<close>

definition day_of_year :: "int \<Rightarrow> int \<Rightarrow> int \<Rightarrow> int" where
  "day_of_year y m d = sum_list (map (days_in_month y) [1..m - 1]) + d - 1"

lemma months_before:
  assumes "1 \<le> m" and "m \<le> 12"
  shows "sum_list (map (days_in_month y) [1..m - 1]) =
    (if m \<le> 2 then month_start (m + 9) - 306 else month_start (m - 3) + 59 + (if leap y then 1 else 0))"
proof -
  have "m \<in> {1, 2, 3, 4, 5, 6, 7, 8, 9, 10, 11, 12}" using assms unfolding insert_iff empty_iff by presburger
  then show ?thesis
    by (elim insertE emptyE) (simp_all add: upto.simps days_in_month_def month_start_def)
qed

lemma day_of_year_diff:
  assumes "gregorian y m d" and "date_range y" and "getJulianDayNumber y m d = Inr j"
  shows "getJulianDayNumber y 1 1 = Inr (j - day_of_year y m d)" and "0 \<le> day_of_year y m d" and "day_of_year y m d \<le> 365"
proof -
  have m: "1 \<le> m" "m \<le> 12" using assms(1) by (simp_all add: gregorian_def)
  note b = march_of_date [OF assms(1,2)]
  note mm = march_month_found [OF b(3-6)]
  have g: "gregorian y 1 1" by (simp add: gregorian_def days_in_month_def)
  have s: "month_start 10 = 306" by (simp add: month_start_def)
  define c where "c = march_day (y + 4799) 0"
  have j0: "getJulianDayNumber y 1 1 = Inr (c + 306 - 32044)"
    using getJulianDayNumber_march [OF g assms(2)] march_day_add [of "y + 4799" 306] s
    by (simp add: march_year_def march_month_def c_def)
  have next_year: "march_day (y + 4800) e = c + (if leap y then 366 else 365) + e" for e
    using march_year_length [of "y + 4799"] march_day_add [of "y + 4800" e] leap_shift [of y]
      march_day_add [of "y + 4799" "if leap y then 366 else 365"] by (simp add: c_def add.commute)
  have "j = march_day (march_year y m) (month_start (march_month m) + d - 1) - 32044"
    using getJulianDayNumber_march [OF assms(1,2)] assms(3) by simp
  then have j: "j = c + 306 - 32044 + day_of_year y m d"
    using march_day_add [of "y + 4799" "month_start (m + 9) + d - 1"]
    by (simp add: march_year_def march_month_def next_year day_of_year_def months_before [OF m] c_def split: if_splits)
  then show "getJulianDayNumber y 1 1 = Inr (j - day_of_year y m d)" using j0 by simp
  have e: "month_start (march_month m) + d - 1 \<le> 305" if "\<not> m \<le> 2"
  proof -
    have "(5 * (month_start (march_month m) + d - 1) + 2) div 153 \<le> 9" using mm(1) that m by (simp add: march_month_def)
    then have "5 * (month_start (march_month m) + d - 1) + 2 < 153 * 10" by linarith
    then show ?thesis by simp
  qed
  have "306 \<le> month_start (m + 9)" if "m \<le> 2" using that m by (auto simp: month_start_def)
  then show "0 \<le> day_of_year y m d" "day_of_year y m d \<le> 365"
    using mm(2,3) b(5) e by (auto simp: day_of_year_def months_before [OF m] march_month_def split: if_splits)
qed

lemma hms:
  fixes r :: int
  assumes "0 \<le> r" and "r < 86400"
  shows "r div 60 div 60 * 3600 + r div 60 mod 60 * 60 + r mod 60 = r" and "0 \<le> r mod 60" and "r mod 60 < 60"
    and "0 \<le> r div 60 mod 60" and "r div 60 mod 60 < 60" and "0 \<le> r div 60 div 60" and "r div 60 div 60 < 24"
proof -
  show "0 \<le> r mod 60" "r mod 60 < 60" "0 \<le> r div 60 mod 60" "r div 60 mod 60 < 60" by simp_all
  have "r div 60 < 1440" using assms(2) by linarith
  then show "r div 60 div 60 < 24" by linarith
  show "0 \<le> r div 60 div 60" using assms(1) by (simp add: div_int_pos_iff)
  show "r div 60 div 60 * 3600 + r div 60 mod 60 * 60 + r mod 60 = r"
    using div_mult_mod_eq [of r 60] div_mult_mod_eq [of "r div 60" 60] by linarith
qed

lemma toUtcTime_fields:
  assumes "time_range s"
  shows "\<exists>t. toUtcTime s yday = Inr t \<and> fromUtcTime t = Inr s \<and>
    tm_hour t * 3600 + tm_min t * 60 + tm_sec t = s mod 86400 \<and>
    0 \<le> tm_sec t \<and> tm_sec t < 60 \<and> 0 \<le> tm_min t \<and> tm_min t < 60 \<and> 0 \<le> tm_hour t \<and> tm_hour t < 24 \<and>
    gregorian (tm_year t + 1900) (tm_mon t + 1) (tm_mday t) \<and>
    getJulianDayNumber (tm_year t + 1900) (tm_mon t + 1) (tm_mday t) = Inr (s div 86400 + 2440588) \<and>
    tm_wday t = (s div 86400 + 4) mod 7 \<and>
    (yday \<longrightarrow> tm_yday t = day_of_year (tm_year t + 1900) (tm_mon t + 1) (tm_mday t))"
proof -
  define j where "j = s div 86400 + 2440588"
  have j: "0 \<le> j" "j \<le> 535000000" using assms by (simp_all add: j_def time_range_def)
  from julian_date_julian [of j] j obtain y m d where
    ymd: "getYearMonthDay j = Inr \<lparr>ymd_year = y, ymd_month = m, ymd_day = d\<rparr>" "gregorian y m d" "date_range y"
      "getJulianDayNumber y m d = Inr j" by auto
  note yd = day_of_year_diff [OF ymd(2-4)]
  have "int_ok (day_of_year y m d)" using yd(2,3) by (simp add: int_ok_def)
  then have t: "toUtcTime s yday = Inr \<lparr>tm_sec = s mod 86400 mod 60, tm_min = s mod 86400 div 60 mod 60,
    tm_hour = s mod 86400 div 60 div 60, tm_mday = d, tm_mon = m - 1, tm_year = y - 1900,
    tm_wday = (j + 1) mod 7, tm_yday = (if yday then day_of_year y m d else 0), tm_isdst = False, tm_gmtoff = 0, tm_zone = ''GMT''\<rparr>"
    using toUtcTime_eq [OF assms j_def ymd(1), of "j - day_of_year y m d"] yd(1) by simp
  define hh mi se r w where d: "hh = s mod 86400 div 60 div 60" "mi = s mod 86400 div 60 mod 60" "se = s mod 86400 mod 60"
    and rw: "r = s mod 86400" "w = (s div 86400 + 4) mod 7"
  have "0 \<le> s mod 86400" "s mod 86400 < 86400" by simp_all
  note h = hms [OF this, folded d, folded rw]
  have w: "(j + 1) mod 7 = w" using mod_mult_self1 [of "s div 86400 + 4" 348655 7] by (simp add: j_def rw)
  have yb: "- 4799 \<le> y" "y \<le> 1465000" "1 \<le> m" "m \<le> 12" using ymd(2,3) by (simp_all add: date_range_def gregorian_def)
  have "list_all int_ok [hh * 3600, mi * 60, hh * 3600 + mi * 60, hh * 3600 + mi * 60 + se, j - 2440588]"
    using h(2-7) j unfolding list.pred_inject int_ok_def by simp
  then have "fromUtcTime6 y m d hh mi se = Inr ((j - 2440588) * 86400 + r)"
    using h(1) ymd(4) by (simp add: fromUtcTime6_def Let_def)
  moreover have "(j - 2440588) * 86400 + r = s" by (simp add: j_def rw)
  ultimately have f: "fromUtcTime6 y m d hh mi se = Inr s" by simp
  show ?thesis unfolding t [folded d, unfolded w] rw [symmetric] j_def [symmetric]
    using f h ymd yb by (simp add: fromUtcTime_def int_ok_def)
qed

text \<open>
  The UTC conversions agree with the calendar and invert each other: for every time whose day
  number is between 0 and 535000000, \<open>toUtcTime\<close> gives a time of day and a date of the Gregorian calendar whose
  Julian day is the day of the time, its weekday (the epoch was a Thursday) and, if asked for, its
  day of the year, and \<open>fromUtcTime\<close> gives the seconds back.
\<close>

theorem utc_roundtrip:
  assumes "time_range s"
  shows "\<exists>t. toUtcTime s yday = Inr t \<and> fromUtcTime t = Inr s \<and>
    0 \<le> tm_sec t \<and> tm_sec t < 60 \<and> 0 \<le> tm_min t \<and> tm_min t < 60 \<and> 0 \<le> tm_hour t \<and> tm_hour t < 24 \<and>
    gregorian (tm_year t + 1900) (tm_mon t + 1) (tm_mday t) \<and>
    getJulianDayNumber (tm_year t + 1900) (tm_mon t + 1) (tm_mday t) = Inr (s div 86400 + 2440588) \<and>
    tm_wday t = (s div 86400 + 4) mod 7 \<and>
    (yday \<longrightarrow> tm_yday t = day_of_year (tm_year t + 1900) (tm_mon t + 1) (tm_mday t))"
  using toUtcTime_fields [OF assms] by blast

theorem utc_roundtrip_witness:
  "\<exists>t. toUtcTime (- 1) True = Inr t \<and> fromUtcTime t = Inr (- 1) \<and> tm_wday t = 3 \<and>
    tm_yday t = day_of_year (tm_year t + 1900) (tm_mon t + 1) (tm_mday t)"
proof -
  have "time_range (- 1)" by (simp add: time_range_def)
  from utc_roundtrip [OF this, of True] show ?thesis by auto
qed

section \<open>Zones\<close>

record transition =
  gmttime :: int
  localtime :: int
  localtimeIdx :: nat

record localtime_type =
  gmtOffset :: int
  isDst :: bool
  arrbIdx :: nat

record zone_data =
  z_transitions :: "transition list"
  z_localtimes :: "localtime_type list"
  z_names :: "string list"
  z_abbreviation :: string

text \<open>\<open>Comp(compareGmt)\<close>: the comparison and \<open>equal\<close>.\<close>

definition comp_key :: "bool \<Rightarrow> transition \<Rightarrow> int" where
  "comp_key compareGmt t = (if compareGmt then gmttime t else localtime t)"

definition comp_less :: "bool \<Rightarrow> transition \<Rightarrow> transition \<Rightarrow> bool" where
  "comp_less compareGmt lhs rhs \<longleftrightarrow> comp_key compareGmt lhs < comp_key compareGmt rhs"

definition comp_equal :: "bool \<Rightarrow> transition \<Rightarrow> transition \<Rightarrow> bool" where
  "comp_equal compareGmt lhs rhs \<longleftrightarrow> comp_key compareGmt lhs = comp_key compareGmt rhs"

text \<open>
  \<open>std::lower_bound\<close>: the range is halved until it is empty; \<open>lt x\<close> says that \<open>x\<close> is less than the
  value sought.
\<close>

fun lower_bound :: "('a \<Rightarrow> bool) \<Rightarrow> 'a list \<Rightarrow> nat \<Rightarrow> nat \<Rightarrow> nat" where
  "lower_bound lt xs first len =
     (if len = 0 then first
      else
        let half = len div 2; middle = first + half in
        if lt (xs ! middle) then lower_bound lt xs (middle + 1) (len - half - 1)
        else lower_bound lt xs first half)"

declare lower_bound.simps [simp del]

text \<open>Element access of the vector of local time types.\<close>

definition localtime_at :: "zone_data \<Rightarrow> nat \<Rightarrow> localtime_type result" where
  "localtime_at data i = (if i < length (z_localtimes data) then Inr (z_localtimes data ! i)
     else Inl (Undefined_Behaviour ''localtimes index''))"

definition findLocaltime :: "zone_data \<Rightarrow> transition \<Rightarrow> bool \<Rightarrow> localtime_type result" where
  "findLocaltime data sentry cmp =
     (let ts = z_transitions data in
      if ts = [] \<or> comp_less cmp sentry (hd ts) then localtime_at data 0
      else
        let transI = lower_bound (\<lambda>t. comp_less cmp t sentry) ts 0 (length ts) in
        if transI < length ts then
          if \<not> comp_equal cmp sentry (ts ! transI) then
            bindE (assertE (transI \<noteq> 0) ''transI != data.transitions.begin()'') (\<lambda>_.
            localtime_at data (localtimeIdx (ts ! (transI - 1))))
          else localtime_at data (localtimeIdx (ts ! transI))
        else localtime_at data (localtimeIdx (last ts)))"

text \<open>The C library: \<open>gmtime_r\<close> and \<open>timegm\<close>, which also accepts months out of range.\<close>

definition gmtime :: "int \<Rightarrow> tm option" where
  "gmtime s = (case toUtcTime s True of Inr t \<Rightarrow> Some t | Inl _ \<Rightarrow> None)"

definition timegm :: "tm \<Rightarrow> int" where
  "timegm t =
     (let y = tm_year t + 1900 + tm_mon t div 12; m = tm_mon t mod 12 + 1;
          j = march_day (march_year y m) (month_start (march_month m) + tm_mday t - 1) - 32044 in
      (j - 2440588) * 86400 + tm_hour t * 3600 + tm_min t * 60 + tm_sec t)"

text \<open>The zero-terminated string that starts at an index of the abbreviations.\<close>

definition abbreviation_at :: "zone_data \<Rightarrow> nat \<Rightarrow> string result" where
  "abbreviation_at data i = (if i \<le> length (z_abbreviation data)
     then Inr (takeWhile (\<lambda>c. c \<noteq> CHR 0x00) (drop i (z_abbreviation data)))
     else Inl (Undefined_Behaviour ''abbreviation index''))"

text \<open>\<open>TimeZone\<close> is its data, \<open>None\<close> when the pointer is null.\<close>

definition toLocalTime :: "zone_data option \<Rightarrow> int \<Rightarrow> tm result" where
  "toLocalTime data seconds = (case data of
     None \<Rightarrow> Inl (AssertionFailed ''data_ != NULL'')
   | Some data \<Rightarrow>
     bindE (findLocaltime data \<lparr>gmttime = seconds, localtime = 0, localtimeIdx = 0\<rparr> True) (\<lambda>local.
     let localSeconds = seconds + gmtOffset local;
         localTime = (case gmtime localSeconds of Some t \<Rightarrow> t | None \<Rightarrow> tm_zero) in
     bindE (abbreviation_at data (arrbIdx local)) (\<lambda>name.
     Inr (localTime\<lparr>tm_isdst := isDst local, tm_gmtoff := gmtOffset local, tm_zone := name\<rparr>))))"

definition fromLocalTime :: "zone_data option \<Rightarrow> tm \<Rightarrow> int result" where
  "fromLocalTime data localTm = (case data of
     None \<Rightarrow> Inl (AssertionFailed ''data_ != NULL'')
   | Some d \<Rightarrow>
     let seconds = timegm localTm in
     bindE (findLocaltime d \<lparr>gmttime = 0, localtime = seconds, localtimeIdx = 0\<rparr> False) (\<lambda>local.
     if tm_isdst localTm then
       bindE (toLocalTime data (seconds - gmtOffset local)) (\<lambda>tryTm.
       let seconds' = (if \<not> tm_isdst tryTm \<and> tm_hour tryTm = tm_hour localTm \<and> tm_min tryTm = tm_min localTm
                       then seconds - 3600 else seconds) in
       Inr (seconds' - gmtOffset local))
     else Inr (seconds - gmtOffset local)))"

section \<open>The local time of a zone\<close>

text \<open>A predicate that holds on a prefix only: \<open>lower_bound\<close> finds its length.\<close>

lemma lower_bound_correct:
  assumes "k \<le> length xs" and "\<And>i. i < length xs \<Longrightarrow> lt (xs ! i) \<longleftrightarrow> i < k"
    and "first \<le> k" and "k \<le> first + len" and "first + len \<le> length xs"
  shows "lower_bound lt xs first len = k"
  using assms(3-5)
proof (induction len arbitrary: first rule: less_induct)
  case (less len)
  show ?case
  proof (cases "len = 0")
    case True
    then show ?thesis using less.prems by (simp add: lower_bound.simps)
  next
    case False
    let ?h = "len div 2"
    have h: "?h < len" "first + ?h < length xs" using False less.prems(3) by simp_all
    show ?thesis
    proof (cases "first + ?h < k")
      case True
      then have "lower_bound lt xs (first + ?h + 1) (len - ?h - 1) = k"
        using less.prems h by (intro less.IH) simp_all
      then show ?thesis using True False assms(2) [OF h(2)] by (subst lower_bound.simps) (simp add: Let_def)
    next
      case k: False
      then have "lower_bound lt xs first ?h = k" using less.prems h by (intro less.IH) simp_all
      then show ?thesis using k False assms(2) [OF h(2)] by (subst lower_bound.simps) (simp add: Let_def)
    qed
  qed
qed

text \<open>
  The period \<open>k\<close> of a zone is the time before the first transition for \<open>k = 0\<close> and the time from
  transition \<open>k - 1\<close> on otherwise; \<open>period_type\<close> is its local time type.
\<close>

definition period_type :: "zone_data \<Rightarrow> nat \<Rightarrow> localtime_type" where
  "period_type data k = z_localtimes data ! (if k = 0 then 0 else localtimeIdx (z_transitions data ! (k - 1)))"

definition in_period :: "zone_data \<Rightarrow> bool \<Rightarrow> int \<Rightarrow> nat \<Rightarrow> bool" where
  "in_period data gmt t k \<longleftrightarrow> k \<le> length (z_transitions data) \<and>
     (0 < k \<longrightarrow> comp_key gmt (z_transitions data ! (k - 1)) \<le> t) \<and>
     (k < length (z_transitions data) \<longrightarrow> t < comp_key gmt (z_transitions data ! k))"

text \<open>
  A proper zone: types exist, transitions are in ascending order in both clocks, and the time between two transitions is not
  shorter than what the clock is set back by at either of them. The zones of the tz database are of this kind, whichever way and by
  whatever amount they set the clock.
\<close>

definition zone_ok :: "zone_data \<Rightarrow> bool" where
  "zone_ok data \<longleftrightarrow> z_localtimes data \<noteq> [] \<and>
     (\<forall>t \<in> set (z_transitions data). localtimeIdx t < length (z_localtimes data) \<and>
        localtime t = gmttime t + gmtOffset (z_localtimes data ! localtimeIdx t)) \<and>
     (\<forall>l \<in> set (z_localtimes data). arrbIdx l \<le> length (z_abbreviation data)) \<and>
     (\<forall>k < length (z_transitions data) - 1. \<forall>gmt. comp_key gmt (z_transitions data ! k) < comp_key gmt (z_transitions data ! (k + 1))) \<and>
     (\<forall>k < length (z_transitions data) - 1. let before = gmttime (z_transitions data ! k) + gmtOffset (period_type data k) in
        before \<le> gmttime (z_transitions data ! (k + 1)) + gmtOffset (period_type data (k + 1)) \<and>
        before \<le> localtime (z_transitions data ! (k + 1)))"

lemma zone_keys:
  assumes "zone_ok data" and "i < j" and "j < length (z_transitions data)"
  shows "comp_key g (z_transitions data ! i) < comp_key g (z_transitions data ! j)"
  using assms(2,3)
proof (induction j)
  case (Suc j)
  have "comp_key g (z_transitions data ! j) < comp_key g (z_transitions data ! Suc j)"
    using assms(1) Suc.prems(2) by (auto simp: zone_ok_def)
  then show ?case using Suc by (cases "i = j") auto
qed simp

lemma zone_keys_less_iff:
  assumes "zone_ok data" and "in_period data g t k" and "i < length (z_transitions data)"
  shows "comp_key g (z_transitions data ! i) \<le> t \<longleftrightarrow> i < k"
proof (cases "i < k")
  case True
  then have "i = k - 1 \<or> i < k - 1" "k - 1 < length (z_transitions data)" using assms(2) by (auto simp: in_period_def)
  then show ?thesis using True zone_keys [OF assms(1), of i "k - 1" g] assms(2) by (auto simp: in_period_def)
next
  case False
  then have "i = k \<or> k < i" by auto
  then show ?thesis using False zone_keys [OF assms(1), of k i g] assms(2,3) by (auto simp: in_period_def)
qed

lemma period_exists: "\<exists>k. in_period data g t k"
proof -
  have *: "\<exists>k \<le> n. (0 < k \<longrightarrow> key (k - 1) \<le> t) \<and> (k < n \<longrightarrow> t < key k)" for n :: nat and key :: "nat \<Rightarrow> int"
  proof (induction n)
    case (Suc n)
    then obtain k where k: "k \<le> n" "0 < k \<longrightarrow> key (k - 1) \<le> t" "k < n \<longrightarrow> t < key k" by blast
    show ?case
    proof (cases "k < n \<or> t < key n")
      case True
      then show ?thesis using k by (intro exI [of _ k]) (auto simp: le_less)
    next
      case False
      then show ?thesis by (intro exI [of _ "Suc n"]) auto
    qed
  qed simp
  show ?thesis
    using * [of "length (z_transitions data)" "\<lambda>i. comp_key g (z_transitions data ! i)"] by (auto simp: in_period_def)
qed

lemma localtime_at_period:
  assumes "zone_ok data" and "k \<le> length (z_transitions data)"
  shows "localtime_at data (if k = 0 then 0 else localtimeIdx (z_transitions data ! (k - 1))) = Inr (period_type data k)"
  using assms by (auto simp: localtime_at_def period_type_def zone_ok_def)

lemma findLocaltime_period:
  assumes z: "zone_ok data" and p: "in_period data g t k" and s: "comp_key g sentry = t"
  shows "findLocaltime data sentry g = Inr (period_type data k)"
proof -
  let ?ts = "z_transitions data"
  have k: "k \<le> length ?ts" using p by (simp add: in_period_def)
  note at = localtime_at_period [OF z k]
  show ?thesis
  proof (cases "k = 0")
    case True
    then have "?ts = [] \<or> comp_less g sentry (hd ?ts)"
      using p s by (cases ?ts) (auto simp: in_period_def comp_less_def)
    then show ?thesis using at True by (simp add: findLocaltime_def Let_def)
  next
    case False
    define i where "i = (if comp_key g (?ts ! (k - 1)) = t then k - 1 else k)"
    have k1: "k - 1 < length ?ts" using k False by auto
    have lt: "comp_key g (?ts ! j) < t \<longleftrightarrow> j < i" if "j < length ?ts" for j
    proof (cases "comp_key g (?ts ! (k - 1)) = t")
      case eq: True
      have "j < k - 1 \<Longrightarrow> comp_key g (?ts ! j) < t" using zone_keys [OF z _ k1, of j g] eq by simp
      then show ?thesis using eq zone_keys_less_iff [OF z p that] False by (cases "j = k - 1") (auto simp: i_def)
    next
      case ne: False
      have "comp_key g (?ts ! (k - 1)) < t" using ne p False by (auto simp: in_period_def)
      then have "j < k \<Longrightarrow> comp_key g (?ts ! j) < t" using zone_keys [OF z _ k1, of j g] by (cases "j < k - 1"; cases "j = k - 1") auto
      then show ?thesis using ne zone_keys_less_iff [OF z p that] by (auto simp: i_def)
    qed
    have lb: "lower_bound (\<lambda>u. comp_less g u sentry) ?ts 0 (length ?ts) = i"
      by (rule lower_bound_correct) (use k lt s in \<open>auto simp: i_def comp_less_def\<close>)
    have front: "\<not> (?ts = [] \<or> comp_less g sentry (hd ?ts))"
      using zone_keys_less_iff [OF z p, of 0] k False s by (cases ?ts) (auto simp: comp_less_def)
    have last: "last ?ts = ?ts ! (k - 1)" if "k = length ?ts" using that False by (simp add: last_conv_nth)
    show ?thesis
      using front lb at False k s p last zone_keys_less_iff [OF z p]
      by (auto simp: findLocaltime_def Let_def i_def comp_equal_def in_period_def split: if_splits)
  qed
qed

lemma timegm_gmtime:
  assumes "time_range s"
  shows "\<exists>t. gmtime s = Some t \<and> (\<forall>b off z. timegm (t\<lparr>tm_isdst := b, tm_gmtoff := off, tm_zone := z\<rparr>) = s)"
proof -
  from toUtcTime_fields [OF assms, of True] obtain t where
    t: "toUtcTime s True = Inr t" "tm_hour t * 3600 + tm_min t * 60 + tm_sec t = s mod 86400"
      "gregorian (tm_year t + 1900) (tm_mon t + 1) (tm_mday t)"
      "getJulianDayNumber (tm_year t + 1900) (tm_mon t + 1) (tm_mday t) = Inr (s div 86400 + 2440588)" by blast
  define j where "j = s div 86400 + 2440588"
  have j: "0 \<le> j" "j \<le> 535000000" using assms by (simp_all add: j_def time_range_def)
  from julian_date_julian [of j] j obtain y m d where
    ymd: "getYearMonthDay j = Inr \<lparr>ymd_year = y, ymd_month = m, ymd_day = d\<rparr>" "gregorian y m d" "date_range y"
      "getJulianDayNumber y m d = Inr j" by auto
  have f: "tm_year t = y - 1900" "tm_mon t = m - 1" "tm_mday t = d"
  proof -
    note yd = day_of_year_diff [OF ymd(2-4)]
    have "int_ok (day_of_year y m d)" using yd(2,3) by (simp add: int_ok_def)
    then show "tm_year t = y - 1900" "tm_mon t = m - 1" "tm_mday t = d"
      using toUtcTime_eq [OF assms j_def ymd(1), of "j - day_of_year y m d" True] yd(1) t(1) by auto
  qed
  have m: "1 \<le> m" "m \<le> 12" using ymd(2) by (simp_all add: gregorian_def)
  then have m': "(m - 1) div 12 = 0" "(m - 1) mod 12 = m - 1" by simp_all
  have "march_day (march_year y m) (month_start (march_month m) + d - 1) - 32044 = j"
    using getJulianDayNumber_march [OF ymd(2,3)] ymd(4) by simp
  then have "timegm (t\<lparr>tm_isdst := b, tm_gmtoff := off, tm_zone := z\<rparr>) =
      (j - 2440588) * 86400 + (tm_hour t * 3600 + tm_min t * 60 + tm_sec t)" for b off z
    unfolding timegm_def Let_def by (simp add: f m')
  moreover have "(j - 2440588) * 86400 + s mod 86400 = s" by (simp add: j_def)
  ultimately have "timegm (t\<lparr>tm_isdst := b, tm_gmtoff := off, tm_zone := z\<rparr>) = s" for b off z using t(2) by metis
  then show ?thesis using t(1) by (auto simp: gmtime_def)
qed

text \<open>What \<open>toLocalTime\<close> gives in a period.\<close>

lemma toLocalTime_period:
  assumes "zone_ok data" and "in_period data True s k" and "gmtime (s + gmtOffset (period_type data k)) = Some u"
  shows "\<exists>z. toLocalTime (Some data) s =
    Inr (u\<lparr>tm_isdst := isDst (period_type data k), tm_gmtoff := gmtOffset (period_type data k), tm_zone := z\<rparr>)"
proof -
  have "k \<le> length (z_transitions data)" using assms(2) by (simp add: in_period_def)
  then have "period_type data k \<in> set (z_localtimes data)"
    using assms(1) by (auto simp: period_type_def zone_ok_def)
  then have "arrbIdx (period_type data k) \<le> length (z_abbreviation data)" using assms(1) by (auto simp: zone_ok_def)
  moreover have "findLocaltime data \<lparr>gmttime = s, localtime = 0, localtimeIdx = 0\<rparr> True = Inr (period_type data k)"
    by (rule findLocaltime_period [OF assms(1,2)]) (simp add: comp_key_def)
  ultimately show ?thesis using assms(3) by (auto simp: toLocalTime_def abbreviation_at_def Let_def intro!: exI)
qed

lemma period_local:
  assumes "zone_ok data" and "k < length (z_transitions data)"
  shows "comp_key False (z_transitions data ! k) =
    comp_key True (z_transitions data ! k) + gmtOffset (period_type data (k + 1))"
  using assms by (auto simp: zone_ok_def comp_key_def period_type_def)

text \<open>
  A reading of the local clock is repeated when the clock is set back at the next transition and shows it again afterwards. Then it
  lies in the next period of the local clock, and so does the time that long later.
\<close>

definition repeated :: "zone_data \<Rightarrow> int \<Rightarrow> nat \<Rightarrow> bool" where
  "repeated data s k \<longleftrightarrow> k < length (z_transitions data) \<and>
     gmttime (z_transitions data ! k) + gmtOffset (period_type data (k + 1)) \<le> s + gmtOffset (period_type data k)"

lemma local_period:
  assumes z: "zone_ok data" and p: "in_period data True s k" and r: "\<not> repeated data s k"
  shows "in_period data False (s + gmtOffset (period_type data k)) k"
  using p r period_local [OF z, of "k - 1"] period_local [OF z, of k] by (auto simp: in_period_def repeated_def comp_key_def)

lemma repeated_period:
  assumes z: "zone_ok data" and p: "in_period data True s k" and r: "repeated data s k"
  shows "in_period data False (s + gmtOffset (period_type data k)) (k + 1)"
    and "in_period data True (s + gmtOffset (period_type data k) - gmtOffset (period_type data (k + 1))) (k + 1)"
proof -
  let ?ts = "z_transitions data"
  have k: "k < length ?ts" "s < gmttime (?ts ! k)" using p r by (simp_all add: repeated_def in_period_def comp_key_def)
  have "gmttime (?ts ! k) + gmtOffset (period_type data k) \<le> gmttime (?ts ! (k + 1)) + gmtOffset (period_type data (k + 1))"
    "gmttime (?ts ! k) + gmtOffset (period_type data k) \<le> localtime (?ts ! (k + 1))" if "k + 1 < length ?ts"
    using z that by (auto simp: zone_ok_def Let_def)
  then show "in_period data False (s + gmtOffset (period_type data k)) (k + 1)"
    "in_period data True (s + gmtOffset (period_type data k) - gmtOffset (period_type data (k + 1))) (k + 1)"
    using k r period_local [OF z k(1)] by (fastforce simp: in_period_def repeated_def comp_key_def)+
qed

text \<open>
  C34. Local time there and back, exactly: in every proper zone \<open>toLocalTime\<close> gives the time in the period that
  contains it, found by binary search, and \<open>fromLocalTime\<close> gives the same time back whenever the reading of the clock is not
  one that is repeated when the clock is next set back. A repeated reading is taken for the later of its two times, \<open>d\<close> seconds later when the clock is set back by \<open>d\<close>
  seconds; but when daylight saving time ends there, an hour is subtracted. So in a
  repeated reading the time comes back exactly when daylight saving time ends and the clock is set back by
  an hour, and otherwise the result is wrong by \<open>d\<close>, or by \<open>d\<close> less an hour. A zone is proper when its indices are valid, its
  transitions ascend in both clocks and are not closer together than the clock is set back by.
\<close>

theorem zone_local_roundtrip:
  assumes "zone_ok data" and "in_period data True s k" and "time_range (s + gmtOffset (period_type data k))"
  defines "p \<equiv> period_type data k" and "q \<equiv> period_type data (k + 1)"
  defines "d \<equiv> gmtOffset p - gmtOffset q"
  shows "\<exists>t. toLocalTime (Some data) s = Inr t \<and> tm_gmtoff t = gmtOffset p \<and>
    tm_isdst t = isDst p \<and> timegm t = s + gmtOffset p \<and>
    fromLocalTime (Some data) t = Inr (if repeated data s k then s + d - (if isDst p \<and> \<not> isDst q then 3600 else 0) else s) \<and>
    (fromLocalTime (Some data) t = Inr s \<longleftrightarrow> \<not> repeated data s k \<or> isDst p \<and> \<not> isDst q \<and> d = 3600)"
proof -
  define L where "L = s + gmtOffset p"
  from timegm_gmtime [OF assms(3)] obtain u where
    u: "gmtime L = Some u" "\<And>b off z. timegm (u\<lparr>tm_isdst := b, tm_gmtoff := off, tm_zone := z\<rparr>) = L" by (auto simp: L_def p_def)
  from toLocalTime_period [OF assms(1,2)] u(1) obtain z where
    t: "toLocalTime (Some data) s = Inr (u\<lparr>tm_isdst := isDst p, tm_gmtoff := gmtOffset p, tm_zone := z\<rparr>)" by (auto simp: L_def p_def)
  let ?t = "u\<lparr>tm_isdst := isDst p, tm_gmtoff := gmtOffset p, tm_zone := z\<rparr>"
  have find: "findLocaltime data \<lparr>gmttime = 0, localtime = L, localtimeIdx = 0\<rparr> False = Inr (period_type data i)"
    if "in_period data False L i" for i
    by (rule findLocaltime_period [OF assms(1) that]) (simp add: comp_key_def)
  have "fromLocalTime (Some data) ?t = Inr (if repeated data s k then s + d - (if isDst p \<and> \<not> isDst q then 3600 else 0) else s)"
  proof (cases "repeated data s k")
    case False
    then have "in_period data False L k" using local_period [OF assms(1,2)] by (simp add: L_def p_def)
    from find [OF this] show ?thesis using t u(2) False by (simp add: fromLocalTime_def Let_def L_def p_def)
  next
    case True
    note r = repeated_period [OF assms(1,2) True, folded p_def q_def, folded L_def]
    have q: "findLocaltime data \<lparr>gmttime = 0, localtime = L, localtimeIdx = 0\<rparr> False = Inr q" using find [OF r(1)] by (simp add: q_def)
    obtain z' where "toLocalTime (Some data) (L - gmtOffset q) = Inr (u\<lparr>tm_isdst := isDst q, tm_gmtoff := gmtOffset q, tm_zone := z'\<rparr>)"
      using toLocalTime_period [OF assms(1) r(2), of u] u(1) by (auto simp: q_def)
    then show ?thesis using q u(2) True by (auto simp: fromLocalTime_def Let_def d_def L_def)
  qed
  moreover have "0 < d" if "repeated data s k"
    using that assms(2) by (auto simp: repeated_def in_period_def comp_key_def d_def p_def q_def)
  ultimately show ?thesis using t u(2) by (intro exI [of _ ?t]) (auto simp: L_def)
qed

text \<open>
  A zone with one summer, and a time in the hour that is repeated at its end; and one in which the clock is set back by half an hour without
  a change of daylight saving time.
\<close>

definition demo_zone :: zone_data where
  "demo_zone = \<lparr>
     z_transitions = [\<lparr>gmttime = 10000, localtime = - 4400, localtimeIdx = 1\<rparr>, \<lparr>gmttime = 30000, localtime = 12000, localtimeIdx = 0\<rparr>,
       \<lparr>gmttime = 90000, localtime = 70200, localtimeIdx = 2\<rparr>],
     z_localtimes = [\<lparr>gmtOffset = - 18000, isDst = False, arrbIdx = 4\<rparr>, \<lparr>gmtOffset = - 14400, isDst = True, arrbIdx = 0\<rparr>,
       \<lparr>gmtOffset = - 19800, isDst = False, arrbIdx = 4\<rparr>],
     z_names = [], z_abbreviation = ''EDT'' @ [CHR 0x00] @ ''EST'' @ [CHR 0x00]\<rparr>"

theorem zone_local_roundtrip_witness:
  "(\<exists>t. toLocalTime (Some demo_zone) 28000 = Inr t \<and> tm_isdst t \<and> fromLocalTime (Some demo_zone) t = Inr 28000) \<and>
   (\<exists>t. toLocalTime (Some demo_zone) 89000 = Inr t \<and> fromLocalTime (Some demo_zone) t = Inr 90800)"
proof -
  have z: "zone_ok demo_zone" by code_simp
  have "in_period demo_zone True 28000 1" "time_range (28000 + gmtOffset (period_type demo_zone 1))" by code_simp+
  note 1 = zone_local_roundtrip [OF z this]
  have "in_period demo_zone True 89000 2" "time_range (89000 + gmtOffset (period_type demo_zone 2))" by code_simp+
  note 2 = zone_local_roundtrip [OF z this]
  have "period_type demo_zone 1 = \<lparr>gmtOffset = - 14400, isDst = True, arrbIdx = 0\<rparr>"
    "period_type demo_zone 2 = \<lparr>gmtOffset = - 18000, isDst = False, arrbIdx = 4\<rparr>"
    "period_type demo_zone 3 = \<lparr>gmtOffset = - 19800, isDst = False, arrbIdx = 4\<rparr>" "repeated demo_zone 28000 1" "repeated demo_zone 89000 2"
    by code_simp+
  then show ?thesis using 1 2 by (auto simp: numeral_eq_Suc)
qed

section \<open>Zone files\<close>

definition be_value :: "string \<Rightarrow> nat" where
  "be_value s = foldl (\<lambda>v c. 256 * v + of_char c) 0 s"

text \<open>The readers of the class \<open>File\<close>: what they return and the rest of the file.\<close>

definition File_readBytes :: "int \<Rightarrow> string \<Rightarrow> (string \<times> string) result" where
  "File_readBytes n file =
     (if n < 0 then Inl (Undefined_Behaviour ''size of buf'')
      else if length file < nat n then Inl (Cpp_Exception ''no enough data'')
      else Inr (take (nat n) file, drop (nat n) file))"

definition File_readInt32 :: "string \<Rightarrow> (int \<times> string) result" where
  "File_readInt32 file =
     (if length file < 4 then Inl (Cpp_Exception ''bad int32_t data'')
      else Inr (cast_int (int (be_value (take 4 file))), drop 4 file))"

definition File_readUInt8 :: "string \<Rightarrow> (nat \<times> string) result" where
  "File_readUInt8 file = (case file of
     [] \<Rightarrow> Inl (Cpp_Exception ''bad uint8_t data'')
   | c # rest \<Rightarrow> Inr (of_char c, rest))"

primrec read_many :: "(string \<Rightarrow> ('a \<times> string) result) \<Rightarrow> nat \<Rightarrow> string \<Rightarrow> ('a list \<times> string) result" where
  "read_many rd 0 file = Inr ([], file)"
| "read_many rd (Suc n) file =
     bindE (rd file) (\<lambda>(x, file1). bindE (read_many rd n file1) (\<lambda>(xs, file2). Inr (x # xs, file2)))"

text \<open>Head and counts; the counts of UT and standard indicators are read and not used.\<close>

definition read_head :: "string \<Rightarrow> ((int \<times> int \<times> int) \<times> string) result" where
  "read_head file =
     bindE (File_readBytes 4 file) (\<lambda>(head, f1).
     if head \<noteq> ''TZif'' then Inl (Cpp_Exception ''bad head'')
     else
       bindE (File_readBytes 1 f1) (\<lambda>(version, f2).
       bindE (File_readBytes 15 f2) (\<lambda>(_, f3).
       bindE (File_readInt32 f3) (\<lambda>(isgmtcnt, f4).
       bindE (File_readInt32 f4) (\<lambda>(isstdcnt, f5).
       bindE (File_readInt32 f5) (\<lambda>(leapcnt, f6).
       bindE (File_readInt32 f6) (\<lambda>(timecnt, f7).
       bindE (File_readInt32 f7) (\<lambda>(typecnt, f8).
       bindE (File_readInt32 f8) (\<lambda>(charcnt, f9).
       Inr ((timecnt, typecnt, charcnt), f9))))))))))"

definition read_type :: "string \<Rightarrow> (localtime_type \<times> string) result" where
  "read_type file =
     bindE (File_readInt32 file) (\<lambda>(gmtoff, f1).
     bindE (File_readUInt8 f1) (\<lambda>(isdst, f2).
     bindE (File_readUInt8 f2) (\<lambda>(abbrind, f3).
     Inr (\<lparr>gmtOffset = gmtoff, isDst = (isdst \<noteq> 0), arrbIdx = abbrind\<rparr>, f3))))"

text \<open>The types read before a failure stay in the data.\<close>

primrec read_types :: "nat \<Rightarrow> zone_data \<Rightarrow> string \<Rightarrow> error option \<times> zone_data \<times> string" where
  "read_types 0 data file = (None, data, file)"
| "read_types (Suc n) data file = (case read_type file of
     Inl e \<Rightarrow> (Some e, data, file)
   | Inr (l, file1) \<Rightarrow> read_types n (data\<lparr>z_localtimes := z_localtimes data @ [l]\<rparr>) file1)"

definition push_transition :: "int \<times> nat \<Rightarrow> zone_data \<Rightarrow> zone_data result" where
  "push_transition ti data = (case ti of (trs, localIdx) \<Rightarrow>
     bindE (localtime_at data localIdx) (\<lambda>l.
     Inr (data\<lparr>z_transitions := z_transitions data @
       [\<lparr>gmttime = trs, localtime = trs + gmtOffset l, localtimeIdx = localIdx\<rparr>]\<rparr>)))"

text \<open>
  The body of the \<open>try\<close> block: the error it ends with, if any, and the data. \<open>reserve\<close> with a
  negative count throws \<open>length_error\<close>, which is a \<open>logic_error\<close>.
\<close>

definition read_zone :: "string \<Rightarrow> zone_data \<Rightarrow> error option \<times> zone_data" where
  "read_zone file data = (case read_head file of
     Inl e \<Rightarrow> (Some e, data)
   | Inr ((timecnt, typecnt, charcnt), f1) \<Rightarrow>
     if timecnt < 0 then (Some (Cpp_Exception ''vector::reserve''), data)
     else (case bindE (read_many File_readInt32 (nat timecnt) f1) (\<lambda>(trs, f2).
                bindE (read_many File_readUInt8 (nat timecnt) f2) (\<lambda>(localtimes, f3).
                Inr (trs, localtimes, f3))) of
       Inl e \<Rightarrow> (Some e, data)
     | Inr (trs, localtimes, f3) \<Rightarrow> (case read_types (nat typecnt) data f3 of
         (Some e, d, _) \<Rightarrow> (Some e, d)
       | (None, d, f4) \<Rightarrow> (case foldE push_transition (zip trs localtimes) d of
           Inl e \<Rightarrow> (Some e, d)
         | Inr d' \<Rightarrow> (case File_readBytes charcnt f4 of
             Inl e \<Rightarrow> (Some e, d')
           | Inr (chars, _) \<Rightarrow> (None, d'\<lparr>z_abbreviation := chars\<rparr>))))))"

definition readTimeZoneFile :: "string option \<Rightarrow> zone_data \<Rightarrow> (bool \<times> zone_data) result" where
  "readTimeZoneFile zonefile data = (case zonefile of
     None \<Rightarrow> Inr (True, data)
   | Some file \<Rightarrow> (case read_zone file data of
       (None, d) \<Rightarrow> Inr (True, d)
     | (Some (Cpp_Exception _), d) \<Rightarrow> Inr (True, d)
     | (Some e, _) \<Rightarrow> Inl e))"

definition newZoneData :: zone_data where
  "newZoneData = \<lparr>z_transitions = [], z_localtimes = [], z_names = [], z_abbreviation = []\<rparr>"

definition newTimeZone :: "string option \<Rightarrow> zone_data option result" where
  "newTimeZone zonefile = bindE (readTimeZoneFile zonefile newZoneData) (\<lambda>(good, data).
     Inr (if good then Some data else None))"

text \<open>A file for given data: big-endian integers, the times, their types, the types, the names.\<close>

primrec be_bytes :: "nat \<Rightarrow> nat \<Rightarrow> string" where
  "be_bytes 0 n = []"
| "be_bytes (Suc k) n = be_bytes k (n div 256) @ [char_of (n mod 256)]"

definition be_int :: "int \<Rightarrow> string" where
  "be_int n = be_bytes 4 (nat (n mod 2 ^ 32))"

definition type_text :: "localtime_type \<Rightarrow> string" where
  "type_text l = be_int (gmtOffset l) @ [char_of (of_bool (isDst l) :: nat), char_of (arrbIdx l)]"

definition zone_text :: "string \<Rightarrow> int \<Rightarrow> int \<Rightarrow> int \<Rightarrow> zone_data \<Rightarrow> string" where
  "zone_text reserved isgmtcnt isstdcnt leapcnt z =
     ''TZif'' @ reserved @ be_int isgmtcnt @ be_int isstdcnt @ be_int leapcnt @
     be_int (int (length (z_transitions z))) @ be_int (int (length (z_localtimes z))) @
     be_int (int (length (z_abbreviation z))) @
     concat (map (\<lambda>t. be_int (gmttime t)) (z_transitions z)) @
     map (\<lambda>t. char_of (localtimeIdx t)) (z_transitions z) @
     concat (map type_text (z_localtimes z)) @ z_abbreviation z"

definition zone_encodable :: "zone_data \<Rightarrow> bool" where
  "zone_encodable z \<longleftrightarrow>
     list_all (\<lambda>t. int_ok (gmttime t) \<and> localtimeIdx t < 256 \<and> localtimeIdx t < length (z_localtimes z) \<and>
       localtime t = gmttime t + gmtOffset (z_localtimes z ! localtimeIdx t)) (z_transitions z) \<and>
     list_all (\<lambda>l. int_ok (gmtOffset l) \<and> arrbIdx l < 256) (z_localtimes z) \<and> z_names z = [] \<and>
     length (z_transitions z) < 2 ^ 31 \<and> length (z_localtimes z) < 2 ^ 31 \<and> length (z_abbreviation z) < 2 ^ 31"

lemma length_be_bytes [simp]: "length (be_bytes k n) = k"
  by (induction k arbitrary: n) simp_all

lemma be_value_be_bytes: "be_value (be_bytes k n) = n mod 256 ^ k"
proof (induction k arbitrary: n)
  case (Suc k)
  then have "be_value (be_bytes (Suc k) n) = 256 * (n div 256 mod 256 ^ k) + n mod 256"
    by (simp add: be_value_def of_char_of)
  then show ?case by (simp add: mod_mult2_eq)
qed (simp add: be_value_def)

lemma length_be_int [simp]: "length (be_int n) = 4"
  by (simp add: be_int_def)

lemma readInt32_be_int [simp]: "int_ok n \<Longrightarrow> File_readInt32 (be_int n @ rest) = Inr (n, rest)"
proof -
  assume n: "int_ok n"
  have "int (be_value (be_int n)) = n mod 2 ^ 32" by (simp add: be_int_def be_value_be_bytes nat_less_iff)
  moreover have "cast_int (n mod 2 ^ 32) = n"
  proof -
    have "(n mod 2 ^ 32 + 2 ^ 31) mod 2 ^ 32 = (n + 2 ^ 31) mod 2 ^ 32" by (simp add: mod_add_left_eq)
    then show ?thesis using n cast_int_id [of n] by (simp add: cast_int_def int_ok_def)
  qed
  ultimately show ?thesis by (simp add: File_readInt32_def)
qed

lemma readUInt8_char [simp]: "n < 256 \<Longrightarrow> File_readUInt8 (char_of n # rest) = Inr (n, rest)"
  by (simp add: File_readUInt8_def of_char_of)

lemma readBytes_append [simp]: "length xs = nat n \<Longrightarrow> 0 \<le> n \<Longrightarrow> File_readBytes n (xs @ rest) = Inr (xs, rest)"
  by (simp add: File_readBytes_def)

lemma read_many_texts:
  assumes "\<And>x rest. x \<in> set xs \<Longrightarrow> rd (tx x @ rest) = Inr (v x, rest)"
  shows "read_many rd (length xs) (concat (map tx xs) @ rest) = Inr (map v xs, rest)"
  using assms by (induction xs) simp_all

lemma read_types_texts:
  assumes "list_all (\<lambda>l. int_ok (gmtOffset l) \<and> arrbIdx l < 256) ls"
  shows "read_types (length ls) data (concat (map type_text ls) @ rest) =
    (None, data\<lparr>z_localtimes := z_localtimes data @ ls\<rparr>, rest)"
  using assms
proof (induction ls arbitrary: data)
  case (Cons l ls)
  have "read_type (type_text l @ tl) = Inr (l, tl)" for tl
    using Cons.prems by (cases l) (simp add: read_type_def type_text_def)
  then show ?case using Cons by simp
qed simp

lemma push_transitions:
  assumes "list_all (\<lambda>t. localtimeIdx t < length (z_localtimes data) \<and>
      localtime t = gmttime t + gmtOffset (z_localtimes data ! localtimeIdx t)) ts"
  shows "foldE push_transition (zip (map gmttime ts) (map localtimeIdx ts)) data =
    Inr (data\<lparr>z_transitions := z_transitions data @ ts\<rparr>)"
  using assms
proof (induction ts arbitrary: data)
  case (Cons t ts)
  then have "push_transition (gmttime t, localtimeIdx t) data = Inr (data\<lparr>z_transitions := z_transitions data @ [t]\<rparr>)"
    by (cases t) (simp add: push_transition_def localtime_at_def)
  then show ?case using Cons by simp
qed simp

text \<open>
  Zone files are read back: for data whose times and offsets fit the format, the file with the
  standard layout, whatever follows it, is read into exactly that data, whatever the version,
  the reserved bytes and the counts that are not used.
\<close>

theorem zone_file_roundtrip:
  assumes "zone_encodable z" and "length reserved = 16" and "int_ok isgmtcnt" and "int_ok isstdcnt" and "int_ok leapcnt"
  shows "newTimeZone (Some (zone_text reserved isgmtcnt isstdcnt leapcnt z @ rest)) = Inr (Some z)"
proof -
  let ?ts = "z_transitions z" and ?ls = "z_localtimes z"
  have len: "int_ok (int (length ?ts))" "int_ok (int (length ?ls))" "int_ok (int (length (z_abbreviation z)))"
    using assms(1) by (simp_all add: zone_encodable_def int_ok_def)
  define body where "body = concat (map (\<lambda>t. be_int (gmttime t)) ?ts) @ map (\<lambda>t. char_of (localtimeIdx t)) ?ts @
    concat (map type_text ?ls) @ z_abbreviation z @ rest"
  have "\<exists>v r. reserved = v @ r \<and> length v = 1 \<and> length r = 15"
    by (rule exI [of _ "take 1 reserved"], rule exI [of _ "drop 1 reserved"]) (use assms(2) in simp)
  then obtain v r where vr: "reserved = v @ r" "length v = 1" "length r = 15" by blast
  have "File_readBytes 4 (''TZif'' @ xs) = Inr (''TZif'', xs)" for xs by (rule readBytes_append) simp_all
  then have head: "read_head (zone_text reserved isgmtcnt isstdcnt leapcnt z @ rest) =
      Inr ((int (length ?ts), int (length ?ls), int (length (z_abbreviation z))), body)"
    using vr assms(3-5) len by (simp add: read_head_def zone_text_def body_def del: append_Cons)
  have times: "read_many File_readInt32 (length ?ts) (concat (map (\<lambda>t. be_int (gmttime t)) ?ts) @ xs) = Inr (map gmttime ?ts, xs)" for xs
    by (rule read_many_texts) (use assms(1) in \<open>auto simp: zone_encodable_def list_all_iff\<close>)
  have "read_many File_readUInt8 (length ?ts) (concat (map (\<lambda>t. [char_of (localtimeIdx t)]) ?ts) @ xs) = Inr (map localtimeIdx ?ts, xs)" for xs
    by (rule read_many_texts) (use assms(1) in \<open>auto simp: zone_encodable_def list_all_iff\<close>)
  then have idx: "read_many File_readUInt8 (length ?ts) (map (\<lambda>t. char_of (localtimeIdx t)) ?ts @ xs) = Inr (map localtimeIdx ?ts, xs)" for xs
    by simp
  have types: "read_types (length ?ls) newZoneData (concat (map type_text ?ls) @ xs) = (None, newZoneData\<lparr>z_localtimes := ?ls\<rparr>, xs)" for xs
    using read_types_texts [of ?ls newZoneData] assms(1) by (simp add: zone_encodable_def newZoneData_def)
  have trans: "foldE push_transition (zip (map gmttime ?ts) (map localtimeIdx ?ts)) (newZoneData\<lparr>z_localtimes := ?ls\<rparr>) =
      Inr (newZoneData\<lparr>z_localtimes := ?ls, z_transitions := ?ts\<rparr>)"
    using push_transitions [of "newZoneData\<lparr>z_localtimes := ?ls\<rparr>" ?ts] assms(1)
    by (simp add: zone_encodable_def newZoneData_def list_all_iff)
  have fin: "newZoneData\<lparr>z_localtimes := ?ls, z_transitions := ?ts, z_abbreviation := z_abbreviation z\<rparr> = z"
    using assms(1) by (cases z) (simp add: newZoneData_def zone_encodable_def)
  have "read_zone (zone_text reserved isgmtcnt isstdcnt leapcnt z @ rest) newZoneData = (None, z)"
    using fin unfolding read_zone_def head by (simp add: body_def times idx types trans)
  then show ?thesis by (simp add: newTimeZone_def readTimeZoneFile_def)
qed

theorem zone_file_roundtrip_witness:
  "newTimeZone (Some (zone_text (replicate 16 (CHR 0x00)) 0 0 0 demo_zone @ ''more'')) = Inr (Some demo_zone)"
proof -
  have "zone_encodable demo_zone" by (simp add: zone_encodable_def demo_zone_def int_ok_def)
  moreover have "length (replicate 16 (CHR 0x00)) = 16" "int_ok 0" by (simp_all add: int_ok_def)
  ultimately show ?thesis using zone_file_roundtrip [of demo_zone] by blast
qed

text \<open>
  A zone file that is missing or is no zone file goes unnoticed: the constructor still reports a
  valid zone, because the reader returns true on every path; the zone has no local time types, and the
  first conversion of a time reads the front of an empty vector.
\<close>

theorem zone_bad_file_accepted:
  assumes "zonefile = None \<or> (\<exists>file. zonefile = Some file \<and> take 4 file \<noteq> ''TZif'')"
  shows "newTimeZone zonefile = Inr (Some newZoneData) \<and>
    toLocalTime (Some newZoneData) seconds = Inl (Undefined_Behaviour ''localtimes index'')"
proof
  have "\<exists>m. read_zone f data = (Some (Cpp_Exception m), data)" if "take 4 f \<noteq> ''TZif''" for f data
    using that by (auto simp: read_zone_def read_head_def File_readBytes_def)
  note bad = this
  show "newTimeZone zonefile = Inr (Some newZoneData)"
  proof (cases zonefile)
    case (Some f)
    then obtain m where "read_zone f newZoneData = (Some (Cpp_Exception m), newZoneData)" using assms bad by blast
    then show ?thesis using Some by (simp add: newTimeZone_def readTimeZoneFile_def)
  qed (simp add: newTimeZone_def readTimeZoneFile_def)
  show "toLocalTime (Some newZoneData) seconds = Inl (Undefined_Behaviour ''localtimes index'')"
    by (simp add: toLocalTime_def findLocaltime_def newZoneData_def localtime_at_def)
qed

theorem zone_bad_file_accepted_witness:
  "newTimeZone (Some ''garbage'') = Inr (Some newZoneData) \<and>
    toLocalTime (Some newZoneData) 0 = Inl (Undefined_Behaviour ''localtimes index'')"
proof -
  have "Some ''garbage'' = None \<or> (\<exists>file. Some ''garbage'' = Some file \<and> take 4 file \<noteq> ''TZif'')" by simp
  from zone_bad_file_accepted [OF this] show ?thesis .
qed

end
