(* ===== verification/Logging.thy ===== *)
theory Logging
  imports Log_Stream Time_Zone
begin

text \<open>
  \<open>src/muduo/base/Logging.{h,cc}\<close>, the thread identifier of \<open>Thread.cc\<close> and \<open>CurrentThread.h\<close>, and
  the texts of \<open>Timestamp\<close>: how a log line is put together.

  A thread has the cached identifier and the cached text of the last second (\<open>log_thread\<close>); a logger
  has its stream, level and place. The identifier of the calling thread, the time and the text of an
  error number are arguments.
\<close>

section \<open>CurrentThread\<close>

record log_thread =
  t_cachedTid :: int
  t_tidString :: string
  t_lastSecond :: int
  t_time :: string

definition new_thread :: log_thread where
  "new_thread = \<lparr>t_cachedTid = 0, t_tidString = [], t_lastSecond = 0, t_time = []\<rparr>"

definition cacheTid :: "int \<Rightarrow> log_thread \<Rightarrow> log_thread result" where
  "cacheTid gettid th =
     (if t_cachedTid th = 0 then
        let s = pad 5 (CHR '' '') (dec_int gettid) @ '' '' in
        bindE (assertE (length s = 6) ''n == 6'') (\<lambda>_.
        Inr (th\<lparr>t_cachedTid := gettid, t_tidString := snprintf 32 s\<rparr>))
      else Inr th)"

definition tid :: "int \<Rightarrow> log_thread \<Rightarrow> (int \<times> log_thread) result" where
  "tid gettid th =
     bindE (if t_cachedTid th = 0 then cacheTid gettid th else Inr th) (\<lambda>th'. Inr (t_cachedTid th', th'))"

section \<open>Timestamp texts\<close>

text \<open>\<open>%0wd\<close> puts the sign before the zeros.\<close>

definition zpad :: "nat \<Rightarrow> int \<Rightarrow> string" where
  "zpad w i = (if i < 0 then ''-'' @ pad (w - 1) (CHR ''0'') (dec (nat (- i))) else pad w (CHR ''0'') (dec (nat i)))"

definition Timestamp_toString :: "int \<Rightarrow> string" where
  "Timestamp_toString us = snprintf 31 (dec_int (us sdiv 1000000) @ ''.'' @ zpad 6 (us smod 1000000))"

text \<open>\<open>%4d%02d%02d %02d:%02d:%02d\<close> of the broken-down time.\<close>

definition second_text :: "tm \<Rightarrow> string" where
  "second_text t = pad 4 (CHR '' '') (dec_int (tm_year t + 1900)) @ zpad 2 (tm_mon t + 1) @ zpad 2 (tm_mday t) @ '' '' @
     zpad 2 (tm_hour t) @ '':'' @ zpad 2 (tm_min t) @ '':'' @ zpad 2 (tm_sec t)"

text \<open>Where \<open>gmtime_r\<close> fails the code prints an uninitialised structure.\<close>

definition Timestamp_toFormattedString :: "int \<Rightarrow> string result" where
  "Timestamp_toFormattedString us = (case gmtime (us sdiv 1000000) of
     None \<Rightarrow> Inl (Undefined_Behaviour ''tm_time'')
   | Some tm_time \<Rightarrow> Inr (snprintf 32 (second_text tm_time @ ''.'' @ zpad 6 (cast_int (us smod 1000000)))))"

section \<open>Logger\<close>

datatype log_level = TRACE | DEBUG | INFO | WARN | LOG_ERROR | FATAL

definition initLogLevel :: "bool \<Rightarrow> bool \<Rightarrow> log_level" where
  "initLogLevel log_trace log_debug = (if log_trace then TRACE else if log_debug then DEBUG else INFO)"

fun LogLevelName :: "log_level \<Rightarrow> string" where
  "LogLevelName TRACE = ''TRACE ''"
| "LogLevelName DEBUG = ''DEBUG ''"
| "LogLevelName INFO = ''INFO  ''"
| "LogLevelName WARN = ''WARN  ''"
| "LogLevelName LOG_ERROR = ''ERROR ''"
| "LogLevelName FATAL = ''FATAL ''"

text \<open>\<open>SourceFile\<close>: what follows the last slash of the path.\<close>

definition SourceFile :: "string \<Rightarrow> string" where
  "SourceFile filename = rev (takeWhile (\<lambda>c. c \<noteq> CHR ''/'') (rev filename))"

record logger =
  lg_stream :: fixed_buffer
  lg_level :: log_level
  lg_line :: int
  lg_basename :: string

text \<open>The helper class \<open>T\<close> checks the length it is given.\<close>

definition put_T :: "string \<Rightarrow> nat \<Rightarrow> fixed_buffer \<Rightarrow> fixed_buffer result" where
  "put_T str len b = bindE (assertE (length str = len) ''strlen(str) == len_'') (\<lambda>_. fb_append str b)"

definition formatTime :: "int \<Rightarrow> log_thread \<Rightarrow> fixed_buffer \<Rightarrow> (log_thread \<times> fixed_buffer) result" where
  "formatTime us th stream =
     (let seconds = us sdiv 1000000; microseconds = cast_int (us smod 1000000) in
      bindE (if seconds \<noteq> t_lastSecond th then
               (case gmtime seconds of
                  None \<Rightarrow> Inl (Undefined_Behaviour ''tm_time'')
                | Some tm_time \<Rightarrow>
                    let s = second_text tm_time in
                    bindE (assertE (length s = 17) ''len == 17'') (\<lambda>_.
                    Inr (th\<lparr>t_lastSecond := seconds, t_time := snprintf 32 s\<rparr>)))
             else Inr th) (\<lambda>th'.
      bindE (Fmt (''.'' @ zpad 6 microseconds @ ''Z '')) (\<lambda>us.
      bindE (assertE (length us = 9) ''us.length() == 9'') (\<lambda>_.
      bindE (put_T (t_time th') 17 stream) (\<lambda>s1.
      bindE (put_T us 9 s1) (\<lambda>s2. Inr (th', s2)))))))"

definition Logger_Impl ::
  "('d \<Rightarrow> string) \<Rightarrow> (int \<Rightarrow> string) \<Rightarrow> int \<Rightarrow> int \<Rightarrow> string \<Rightarrow> log_level \<Rightarrow> int \<Rightarrow> string \<Rightarrow> int \<Rightarrow> log_thread \<Rightarrow>
     (log_thread \<times> logger) result" where
  "Logger_Impl g12 strerror gettid now memory level savedErrno file line th =
     bindE (formatTime now th (newFixedBuffer memory)) (\<lambda>(th1, s1).
     bindE (tid gettid th1) (\<lambda>(_, th2).
     bindE (put_T (t_tidString th2) 6 s1) (\<lambda>s2.
     bindE (put_T (LogLevelName level) 6 s2) (\<lambda>s3.
     bindE (if savedErrno \<noteq> 0
            then foldE (log_put g12) [ACStr (strerror savedErrno), ACStr '' (errno='', AInt savedErrno, ACStr '') ''] s3
            else Inr s3) (\<lambda>s4.
     Inr (th2, \<lparr>lg_stream = s4, lg_level = level, lg_line = line, lg_basename = file\<rparr>))))))"

definition finish :: "('d \<Rightarrow> string) \<Rightarrow> logger \<Rightarrow> logger result" where
  "finish g12 lg =
     bindE (foldE (log_put g12) [ACStr '' - '', APiece (lg_basename lg), AChar (CHR '':''), AInt (lg_line lg),
        AChar (CHR 0x0A)] (lg_stream lg)) (\<lambda>s. Inr (lg\<lparr>lg_stream := s\<rparr>))"

text \<open>The four constructors.\<close>

datatype logger_kind =
    Logger_plain | Logger_level log_level | Logger_func log_level string | Logger_sys bool int

fun kind_level :: "logger_kind \<Rightarrow> log_level" where
  "kind_level Logger_plain = INFO"
| "kind_level (Logger_level l) = l"
| "kind_level (Logger_func l _) = l"
| "kind_level (Logger_sys toAbort _) = (if toAbort then FATAL else LOG_ERROR)"

fun kind_errno :: "logger_kind \<Rightarrow> int" where
  "kind_errno (Logger_sys _ e) = e"
| "kind_errno _ = 0"

definition newLogger ::
  "('d \<Rightarrow> string) \<Rightarrow> (int \<Rightarrow> string) \<Rightarrow> int \<Rightarrow> int \<Rightarrow> string \<Rightarrow> logger_kind \<Rightarrow> string \<Rightarrow> int \<Rightarrow> log_thread \<Rightarrow>
     (log_thread \<times> logger) result" where
  "newLogger g12 strerror gettid now memory kind file line th =
     bindE (Logger_Impl g12 strerror gettid now memory (kind_level kind) (kind_errno kind) (SourceFile file) line th) (\<lambda>(th', lg).
     case kind of
       Logger_func _ func \<Rightarrow>
         bindE (foldE (log_put g12) [ACStr func, AChar (CHR '' '')] (lg_stream lg)) (\<lambda>s. Inr (th', lg\<lparr>lg_stream := s\<rparr>))
     | _ \<Rightarrow> Inr (th', lg))"

text \<open>\<open>~Logger\<close>: the text handed to \<open>g_output\<close>, and whether the process is flushed and aborted.\<close>

definition delete_logger :: "('d \<Rightarrow> string) \<Rightarrow> logger \<Rightarrow> (string \<times> bool) result" where
  "delete_logger g12 lg = bindE (finish g12 lg) (\<lambda>lg'. Inr (asString (lg_stream lg'), lg_level lg' = FATAL))"

text \<open>One logging statement: constructor, the arguments of the user, destructor.\<close>

definition log_statement ::
  "('d \<Rightarrow> string) \<Rightarrow> (int \<Rightarrow> string) \<Rightarrow> int \<Rightarrow> int \<Rightarrow> string \<Rightarrow> logger_kind \<Rightarrow> string \<Rightarrow> int \<Rightarrow> 'd log_arg list \<Rightarrow>
     log_thread \<Rightarrow> (log_thread \<times> string \<times> bool) result" where
  "log_statement g12 strerror gettid now memory kind file line args th =
     bindE (newLogger g12 strerror gettid now memory kind file line th) (\<lambda>(th', lg).
     bindE (foldE (log_put g12) args (lg_stream lg)) (\<lambda>s.
     bindE (delete_logger g12 (lg\<lparr>lg_stream := s\<rparr>)) (\<lambda>(out, fatal). Inr (th', out, fatal))))"

section \<open>Log lines\<close>

definition tid_text :: "int \<Rightarrow> string" where
  "tid_text t = pad 5 (CHR '' '') (dec_int t) @ '' ''"

definition us_text :: "int \<Rightarrow> string" where
  "us_text us = ''.'' @ pad 6 (CHR ''0'') (dec (nat us)) @ ''Z ''"

text \<open>
  The caches of a thread hold the texts of its identifier and of the last second it logged in; both
  are empty in a new thread, which takes second 0 for the last one.
\<close>

definition thread_ok :: "int \<Rightarrow> log_thread \<Rightarrow> bool" where
  "thread_ok gettid th \<longleftrightarrow>
     (t_cachedTid th = 0 \<or> t_cachedTid th = gettid \<and> t_tidString th = tid_text gettid) \<and>
     (t_lastSecond th \<noteq> 0 \<longrightarrow> (\<exists>t. gmtime (t_lastSecond th) = Some t \<and> t_time th = second_text t))"

lemma length_pad: "length (pad w c s) = max w (length s)"
  by (simp add: pad_def max_def)

lemma length_dec2: "0 \<le> i \<Longrightarrow> i < 100 \<Longrightarrow> length (zpad 2 i) = 2"
  using length_dec_le [of "nat i" 2] by (simp add: zpad_def length_pad)

lemma length_us_text: "0 \<le> us \<Longrightarrow> us < 1000000 \<Longrightarrow> length (us_text us) = 9"
  using length_dec_le [of "nat us" 6] by (simp add: us_text_def length_pad)

lemma length_tid_text: "0 < t \<Longrightarrow> t < 100000 \<Longrightarrow> length (tid_text t) = 6"
  using length_dec_le [of "nat t" 5] by (simp add: tid_text_def length_pad dec_int_def)

lemma length_LogLevelName [simp]: "length (LogLevelName l) = 6"
  by (cases l) simp_all

lemma length_second_text:
  assumes "time_range s" and "gmtime s = Some t" and "1000 \<le> tm_year t + 1900" and "tm_year t + 1900 \<le> 9999"
  shows "length (second_text t) = 17"
proof -
  from toUtcTime_fields [OF assms(1), of True] assms(2) have
    f: "0 \<le> tm_sec t" "tm_sec t < 60" "0 \<le> tm_min t" "tm_min t < 60" "0 \<le> tm_hour t" "tm_hour t < 24"
      "gregorian (tm_year t + 1900) (tm_mon t + 1) (tm_mday t)" by (auto simp: gmtime_def)
  then have g: "0 \<le> tm_mon t + 1" "tm_mon t + 1 < 100" "0 \<le> tm_mday t" "tm_mday t < 100"
    by (auto simp: gregorian_def days_in_month_def split: if_splits)
  have "length (dec (nat (tm_year t + 1900))) \<le> 4" by (rule length_dec_le) (use assms(4) in auto)
  then have "length (pad 4 (CHR '' '') (dec_int (tm_year t + 1900))) = 4" using assms(3) by (simp add: dec_int_def length_pad)
  then show ?thesis using f g by (simp add: second_text_def length_dec2)
qed

lemma put_T_eq: "length str = len \<Longrightarrow> put_T str len b = log_put g12 (AString str) b"
  by (simp add: put_T_def)

text \<open>What the time of a log line has to satisfy: four-digit years, after the first second of the epoch.\<close>

definition log_time :: "int \<Rightarrow> tm \<Rightarrow> bool" where
  "log_time us t \<longleftrightarrow> 1000000 \<le> us \<and> time_range (us div 1000000) \<and> gmtime (us div 1000000) = Some t \<and>
     1000 \<le> tm_year t + 1900 \<and> tm_year t + 1900 \<le> 9999"

lemma formatTime_eq:
  assumes "thread_ok gettid th" and "log_time us t"
  shows "\<exists>th'. thread_ok gettid th' \<and> t_cachedTid th' = t_cachedTid th \<and> t_lastSecond th' = us div 1000000 \<and>
    (\<forall>b. formatTime us th b =
      bindE (foldE (log_put g12) [AString (second_text t), AString (us_text (us mod 1000000))] b) (\<lambda>s. Inr (th', s)))"
proof -
  have us: "us sdiv 1000000 = us div 1000000" "us smod 1000000 = us mod 1000000" "0 < us div 1000000"
    using assms(2) by (simp_all add: log_time_def pos_imp_zdiv_pos_iff)
  have c: "cast_int (us mod 1000000) = us mod 1000000" by (rule cast_int_id) (simp_all add: order_trans [of _ 0])
  have z: "zpad 6 (us mod 1000000) = pad 6 (CHR ''0'') (dec (nat (us mod 1000000)))"
    using pos_mod_sign [of 1000000 us] by (simp only: zpad_def not_less [symmetric] zero_less_numeral if_False simp_thms)
  have len: "length (second_text t) = 17" "length (us_text (us mod 1000000)) = 9"
    using length_second_text [of "us div 1000000" t] assms(2) length_us_text [of "us mod 1000000"] by (simp_all add: log_time_def)
  define th' where "th' = (if us div 1000000 \<noteq> t_lastSecond th
    then th\<lparr>t_lastSecond := us div 1000000, t_time := second_text t\<rparr> else th)"
  have th': "t_time th' = second_text t" "thread_ok gettid th'" "t_cachedTid th' = t_cachedTid th" "t_lastSecond th' = us div 1000000"
    using assms us(3) by (auto simp: th'_def thread_ok_def log_time_def)
  have upd: "(if us div 1000000 \<noteq> t_lastSecond th then
      (case gmtime (us div 1000000) of None \<Rightarrow> Inl (Undefined_Behaviour ''tm_time'')
       | Some tm_time \<Rightarrow> let s = second_text tm_time in bindE (assertE (length s = 17) ''len == 17'') (\<lambda>_.
           Inr (th\<lparr>t_lastSecond := us div 1000000, t_time := snprintf 32 s\<rparr>)))
      else Inr th) = Inr th'"
    using assms(2) len(1) by (auto simp: th'_def log_time_def snprintf_def)
  have fmt: "Fmt (''.'' @ pad 6 (CHR ''0'') (dec (nat (us mod 1000000))) @ ''Z '') = Inr (us_text (us mod 1000000))"
    using len(2) by (simp add: Fmt_def us_text_def snprintf_def)
  have "formatTime us th b =
      bindE (foldE (log_put g12) [AString (second_text t), AString (us_text (us mod 1000000))] b) (\<lambda>s. Inr (th', s))" for b
    unfolding formatTime_def Let_def us c z upd [unfolded Let_def] fmt bindE_simps th'(1)
    using len by (simp add: put_T_def bindE_assoc)
  then show ?thesis using th' by blast
qed

definition head_args :: "int \<Rightarrow> int \<Rightarrow> tm \<Rightarrow> log_level \<Rightarrow> 'd log_arg list" where
  "head_args gettid us t level =
     [AString (second_text t), AString (us_text (us mod 1000000)), AString (tid_text gettid), AString (LogLevelName level)]"

definition errno_args :: "(int \<Rightarrow> string) \<Rightarrow> int \<Rightarrow> 'd log_arg list" where
  "errno_args strerror e = (if e = 0 then [] else [ACStr (strerror e), ACStr '' (errno='', AInt e, ACStr '') ''])"

fun func_args :: "logger_kind \<Rightarrow> 'd log_arg list" where
  "func_args (Logger_func _ func) = [ACStr func, AChar (CHR '' '')]"
| "func_args _ = []"

definition tail_args :: "string \<Rightarrow> int \<Rightarrow> 'd log_arg list" where
  "tail_args file line = [ACStr '' - '', APiece (SourceFile file), AChar (CHR '':''), AInt line, AChar (CHR 0x0A)]"

lemma tid_ok:
  assumes "thread_ok gettid th" and "0 < gettid" and "gettid < 100000"
  shows "\<exists>th'. thread_ok gettid th' \<and> tid gettid th = Inr (gettid, th') \<and> t_tidString th' = tid_text gettid"
proof (cases "t_cachedTid th = 0")
  case True
  have "length (tid_text gettid) = 6" by (rule length_tid_text [OF assms(2,3)])
  then show ?thesis using True assms by (auto simp: tid_def cacheTid_def tid_text_def thread_ok_def snprintf_def)
next
  case False
  then show ?thesis using assms by (auto simp: tid_def thread_ok_def)
qed

lemma log_statement_args:
  assumes "thread_ok gettid th" and "0 < gettid" and "gettid < 100000" and "log_time us t"
  shows "\<exists>th'. thread_ok gettid th' \<and> log_statement g12 strerror gettid us memory kind file line args th =
    bindE (foldE (log_put g12) (head_args gettid us t (kind_level kind) @ errno_args strerror (kind_errno kind) @
        func_args kind @ args @ tail_args file line) (newFixedBuffer memory))
      (\<lambda>s. Inr (th', asString s, kind_level kind = FATAL))"
proof -
  from formatTime_eq [OF assms(1,4), of g12] obtain th1 where
    th1: "thread_ok gettid th1"
      "\<And>b. formatTime us th b =
        bindE (foldE (log_put g12) [AString (second_text t), AString (us_text (us mod 1000000))] b) (\<lambda>s. Inr (th1, s))" by blast
  have len: "length (tid_text gettid) = 6" by (rule length_tid_text [OF assms(2,3)])
  from tid_ok [OF th1(1) assms(2,3)] obtain th2 where
    th2: "thread_ok gettid th2" "tid gettid th1 = Inr (gettid, th2)" "t_tidString th2 = tid_text gettid" by blast
  have impl: "Logger_Impl g12 strerror gettid us memory level e f line th =
      bindE (foldE (log_put g12) (head_args gettid us t level @ errno_args strerror e) (newFixedBuffer memory))
        (\<lambda>s. Inr (th2, \<lparr>lg_stream = s, lg_level = level, lg_line = line, lg_basename = f\<rparr>))" for level e f
    using len by (simp add: Logger_Impl_def th1(2) th2 head_args_def errno_args_def bindE_assoc put_T_def)
  have new: "newLogger g12 strerror gettid us memory kind file line th =
      bindE (foldE (log_put g12) (head_args gettid us t (kind_level kind) @ errno_args strerror (kind_errno kind) @ func_args kind)
          (newFixedBuffer memory))
        (\<lambda>s. Inr (th2, \<lparr>lg_stream = s, lg_level = kind_level kind, lg_line = line, lg_basename = SourceFile file\<rparr>))"
    unfolding newLogger_def impl by (cases kind) (simp_all add: foldE_append bindE_assoc)
  show ?thesis
    using th2(1) unfolding log_statement_def new delete_logger_def finish_def tail_args_def
    by (intro exI [of _ th2]) (simp add: foldE_append bindE_assoc)
qed

text \<open>An identifier of more than five digits is never cached: the first statement of the thread fails.\<close>

lemma tid_long:
  assumes "t_cachedTid th = 0" and "100000 \<le> gettid"
  shows "tid gettid th = Inl (AssertionFailed ''n == 6'')"
proof -
  have "5 < length (dec (nat gettid))" by (rule length_dec_ge) (use assms(2) in auto)
  then have "length (pad 5 (CHR '' '') (dec_int gettid) @ '' '') \<noteq> 6" using assms(2) by (simp add: dec_int_def length_pad)
  then show ?thesis using assms(1) by (simp add: tid_def cacheTid_def)
qed

lemma log_statement_long:
  assumes "thread_ok gettid th" and "t_cachedTid th = 0" and "100000 \<le> gettid" and "log_time us t" and "length memory = kSmallBuffer"
  shows "log_statement g12 strerror gettid us memory kind file line args th = Inl (AssertionFailed ''n == 6'')"
proof -
  let ?b = "newFixedBuffer memory" and ?ts = "[AString (second_text t), AString (us_text (us mod 1000000))]"
  from formatTime_eq [OF assms(1,4), of g12] assms(2) obtain th1 where
    th1: "t_cachedTid th1 = 0" "formatTime us th ?b = bindE (foldE (log_put g12) ?ts ?b) (\<lambda>s. Inr (th1, s))" by auto
  have "fb_ok ?b" "list_all (arg_ok g12) ?ts" by (simp_all add: newFixedBuffer_def fb_ok_def)
  from log_stream_run [OF this] obtain b' where "foldE (log_put g12) ?ts ?b = Inr b'" by blast
  then have "formatTime us th ?b = Inr (th1, b')" using th1(2) by simp
  then show ?thesis by (simp add: log_statement_def newLogger_def Logger_Impl_def tid_long [OF th1(1) assms(3)])
qed

text \<open>The caches and the stream together: the whole statement.\<close>

lemma log_line_run:
  assumes "thread_ok gettid th" and "0 < gettid" and "gettid < 100000" and "log_time us t"
    and "length memory = kSmallBuffer" and "list_all (arg_ok g12) args"
    and "int_ok line" and "int_ok (kind_errno kind)"
  shows "\<exists>th'. thread_ok gettid th' \<and> log_statement g12 strerror gettid us memory kind file line args th =
    Inr (th', foldl (arg_put g12 kSmallBuffer) [] (head_args gettid us t (kind_level kind) @
      errno_args strerror (kind_errno kind) @ func_args kind @ args @ tail_args file line), kind_level kind = FATAL)"
proof -
  let ?b = "newFixedBuffer memory"
  let ?args = "head_args gettid us t (kind_level kind) @ errno_args strerror (kind_errno kind) @ func_args kind @ args @
    tail_args file line"
  have ok: "list_all (arg_ok g12) ?args"
    using assms(6-8) by (cases kind) (simp_all add: head_args_def errno_args_def tail_args_def int_ok_def)
  have b: "fb_ok ?b" "length (fb_data ?b) = kSmallBuffer" "asString ?b = []"
    using assms(5) by (simp_all add: newFixedBuffer_def fb_ok_def asString_def)
  from log_stream_run [OF b(1) ok] obtain b' where
    b': "foldE (log_put g12) ?args ?b = Inr b'" "asString b' = foldl (arg_put g12 kSmallBuffer) [] ?args"
    using b(2,3) by auto
  from log_statement_args [OF assms(1-4), of g12 strerror memory kind "file" line args] obtain th' where
    "thread_ok gettid th'" "log_statement g12 strerror gettid us memory kind file line args th =
      bindE (foldE (log_put g12) ?args ?b) (\<lambda>s. Inr (th', asString s, kind_level kind = FATAL))" by blast
  then show ?thesis using b' by auto
qed

text \<open>
  A log line: for a thread whose caches are in order and whose identifier has at most five digits,
  every kind of logger and every sequence of user arguments, the logging statement passes its
  assertions, writes inside the 4000 bytes of its buffer, and hands to the output the time, the
  thread, the level, the error if there is one, the function if there is one, the user's arguments
  and the place, in this order, without the arguments that did not fit; it aborts exactly for the level
  FATAL. The caches are in order afterwards, so the cached second is always the right one.
\<close>

theorem log_line:
  assumes "thread_ok gettid th" and "0 < gettid" and "gettid < 100000" and "log_time us t"
    and "length memory = kSmallBuffer" and "list_all (arg_ok g12) args"
    and "int_ok line" and "int_ok (kind_errno kind)"
  shows "\<exists>th'. thread_ok gettid th' \<and> log_statement g12 strerror gettid us memory kind file line args th =
    Inr (th', foldl (arg_put g12 kSmallBuffer) [] (head_args gettid us t (kind_level kind) @
      errno_args strerror (kind_errno kind) @ func_args kind @ args @ tail_args file line), kind_level kind = FATAL)"
  using assms by (rule log_line_run)

text \<open>A new thread, in the morning of June 3, 2012.\<close>

definition demo_tm :: tm where
  "demo_tm = \<lparr>tm_sec = 46, tm_min = 42, tm_hour = 8, tm_mday = 3, tm_mon = 5, tm_year = 112, tm_wday = 0, tm_yday = 154,
     tm_isdst = False, tm_gmtoff = 0, tm_zone = ''GMT''\<rparr>"

lemma demo_log_time: "log_time 1338712966000770 demo_tm"
proof -
  have r: "time_range 1338712966" by (simp add: time_range_def)
  have "getYearMonthDay 2456082 = Inr \<lparr>ymd_year = 2012, ymd_month = 6, ymd_day = 3\<rparr>"
    "getJulianDayNumber 2012 1 1 = Inr 2455928"
    by code_simp+
  then have "gmtime 1338712966 = Some demo_tm"
    using toUtcTime_eq [OF r, of 2456082 "\<lparr>ymd_year = 2012, ymd_month = 6, ymd_day = 3\<rparr>" 2455928 True]
    by (simp add: gmtime_def demo_tm_def int_ok_def)
  then show ?thesis using r by (simp add: log_time_def demo_tm_def)
qed

lemma demo_line:
  "foldl (arg_put (\<lambda>d :: unit. []) kSmallBuffer) [] (head_args 42 1338712966000770 demo_tm (kind_level (Logger_level WARN)) @
      errno_args (\<lambda>e. []) (kind_errno (Logger_level WARN)) @ func_args (Logger_level WARN) @ [ACStr ''x='', AInt 5] @
      tail_args ''/src/a.cc'' 7) =
    ''20120603 08:42:46.000770Z    42 WARN  x=5 - a.cc:7'' @ [CHR 0x0A]"
proof -
  have d: "dec 2012 = ''2012''" "dec 770 = ''770''" "dec 42 = ''42''" "dec 46 = ''46''" "dec 8 = ''8''" "dec 6 = ''6''" "dec 3 = ''3''"
    "dec 5 = ''5''" "dec 7 = ''7''" by code_simp+
  then show ?thesis
    by (simp add: arg_put_def head_args_def tail_args_def second_text_def us_text_def tid_text_def demo_tm_def pad_def zpad_def
        dec_int_def kSmallBuffer_def SourceFile_def errno_args_def numeral_3_eq_3)
qed

theorem log_line_witness:
  "\<exists>th'. log_statement (\<lambda>d :: unit. []) (\<lambda>e. []) 42 1338712966000770 (replicate 4000 (CHR 0x00)) (Logger_level WARN)
      ''/src/a.cc'' 7 [ACStr ''x='', AInt 5] new_thread =
    Inr (th', ''20120603 08:42:46.000770Z    42 WARN  x=5 - a.cc:7'' @ [CHR 0x0A], False)"
proof -
  have "thread_ok 42 new_thread" by (simp add: thread_ok_def new_thread_def)
  moreover have "list_all (arg_ok (\<lambda>d :: unit. [])) [ACStr ''x='', AInt 5]" by simp
  moreover define mem where "mem = replicate 4000 (CHR 0x00)"
  then have "length mem = kSmallBuffer" by (simp add: kSmallBuffer_def)
  moreover have "int_ok 7" "int_ok (kind_errno (Logger_level WARN))" by (simp_all add: int_ok_def)
  ultimately have "\<exists>th'. log_statement (\<lambda>d :: unit. []) (\<lambda>e. []) 42 1338712966000770
      mem (Logger_level WARN) ''/src/a.cc'' 7 [ACStr ''x='', AInt 5] new_thread =
    Inr (th', foldl (arg_put (\<lambda>d :: unit. []) kSmallBuffer) [] (head_args 42 1338712966000770 demo_tm (kind_level (Logger_level WARN)) @
      errno_args (\<lambda>e. []) (kind_errno (Logger_level WARN)) @ func_args (Logger_level WARN) @ [ACStr ''x='', AInt 5] @
      tail_args ''/src/a.cc'' 7), kind_level (Logger_level WARN) = FATAL)"
    using log_line [of 42 new_thread 1338712966000770 demo_tm mem "\<lambda>d :: unit. []"
        "[ACStr ''x='', AInt 5]" 7 "Logger_level WARN" "\<lambda>e. []" "''/src/a.cc''"] demo_log_time by auto
  then show ?thesis unfolding demo_line mem_def by simp
qed

text \<open>
  A thread identifier of six digits aborts the process: the text of the identifier is then longer
  than the six characters the code asserts, so in a fresh thread the first \<open>tid()\<close>, and with it the first log
  statement or event loop of that thread, fails. Linux gives such identifiers when
  \<open>pid_max\<close> is above 100000, as is usual on large machines.
\<close>

theorem long_tid_aborts:
  assumes "t_cachedTid th = 0" and "100000 \<le> gettid"
  shows "tid gettid th = Inl (AssertionFailed ''n == 6'')"
  using assms by (rule tid_long)

theorem long_tid_aborts_witness: "tid 123456 new_thread = Inl (AssertionFailed ''n == 6'')"
  by (rule long_tid_aborts) (simp_all add: new_thread_def)

end
