(* ===== verification/Atomic.thy ===== *)
theory Atomic
  imports Prelude
begin

text \<open>
  \<open>src/muduo/base/Atomic.h\<close>: \<open>AtomicIntegerT\<close> over the GCC built-ins, for any width.

  A built-in is one atomic step on the value, which wraps around; \<open>addAndGet\<close> adds once more to the
  fetched value outside the atomic step, with the signed addition of C++, whose overflow is undefined.
  Threads are step machines: an atomic step, and for \<open>addAndGet\<close> the local addition afterwards,
  with steps of other threads between them.
\<close>

section \<open>The built-ins and the operations\<close>

definition sync_val_compare_and_swap :: "'w word \<Rightarrow> 'w word \<Rightarrow> 'w :: len word \<Rightarrow> 'w word \<times> 'w word" where
  "sync_val_compare_and_swap oldval newval v = (v, if v = oldval then newval else v)"

definition sync_fetch_and_add :: "'w word \<Rightarrow> 'w :: len word \<Rightarrow> 'w word \<times> 'w word" where
  "sync_fetch_and_add x v = (v, v + x)"

definition sync_lock_test_and_set :: "'w word \<Rightarrow> 'w :: len word \<Rightarrow> 'w word \<times> 'w word" where
  "sync_lock_test_and_set x v = (v, x)"

definition signed_add :: "'w :: len word \<Rightarrow> 'w word \<Rightarrow> 'w word result" where
  "signed_add a b =
     (if - (2 ^ (LENGTH('w) - 1)) \<le> sint a + sint b \<and> sint a + sint b < 2 ^ (LENGTH('w) - 1) then Inr (a + b)
      else Inl (Undefined_Behaviour ''signed overflow''))"

definition AtomicIntegerT :: "'w :: len word" where
  "AtomicIntegerT = 0"

definition at_get :: "'w :: len word \<Rightarrow> 'w word \<times> 'w word" where
  "at_get v = sync_val_compare_and_swap 0 0 v"

definition getAndAdd :: "'w word \<Rightarrow> 'w :: len word \<Rightarrow> 'w word \<times> 'w word" where
  "getAndAdd x v = sync_fetch_and_add x v"

text \<open>The result of the local addition, and the new value.\<close>

definition addAndGet :: "'w word \<Rightarrow> 'w :: len word \<Rightarrow> 'w word result \<times> 'w word" where
  "addAndGet x v = (let (r, v') = getAndAdd x v in (signed_add r x, v'))"

definition incrementAndGet :: "'w :: len word \<Rightarrow> 'w word result \<times> 'w word" where
  "incrementAndGet v = addAndGet 1 v"

definition decrementAndGet :: "'w :: len word \<Rightarrow> 'w word result \<times> 'w word" where
  "decrementAndGet v = addAndGet (- 1) v"

definition at_add :: "'w word \<Rightarrow> 'w :: len word \<Rightarrow> 'w word" where
  "at_add x v = snd (getAndAdd x v)"

definition at_increment :: "'w :: len word \<Rightarrow> 'w word result" where
  "at_increment v = (let (r, v') = incrementAndGet v in bindE r (\<lambda>_. Inr v'))"

definition at_decrement :: "'w :: len word \<Rightarrow> 'w word result" where
  "at_decrement v = (let (r, v') = decrementAndGet v in bindE r (\<lambda>_. Inr v'))"

definition getAndSet :: "'w word \<Rightarrow> 'w :: len word \<Rightarrow> 'w word \<times> 'w word" where
  "getAndSet newValue v = sync_lock_test_and_set newValue v"

lemmas atomic_defs = sync_val_compare_and_swap_def sync_fetch_and_add_def sync_lock_test_and_set_def
  AtomicIntegerT_def at_get_def getAndAdd_def addAndGet_def incrementAndGet_def decrementAndGet_def at_add_def
  getAndSet_def

section \<open>Threads\<close>

text \<open>The calls a thread can make, and each of them run alone: its result and the new value.\<close>

datatype 'v at_call = CallGet | CallGetAndAdd 'v | CallAddAndGet 'v | CallIncrementAndGet | CallDecrementAndGet | CallGetAndSet 'v

fun at_alone :: "'w :: len word at_call \<Rightarrow> 'w word \<Rightarrow> 'w word result \<times> 'w word" where
  "at_alone CallGet v = map_prod Inr id (at_get v)"
| "at_alone (CallGetAndAdd x) v = map_prod Inr id (getAndAdd x v)"
| "at_alone (CallAddAndGet x) v = addAndGet x v"
| "at_alone CallIncrementAndGet v = incrementAndGet v"
| "at_alone CallDecrementAndGet v = decrementAndGet v"
| "at_alone (CallGetAndSet x) v = map_prod Inr id (getAndSet x v)"

text \<open>
  A thread is outside, or between the atomic step of \<open>addAndGet\<close> and the local addition. The history
  has the calls in the order of their atomic steps; \<open>at_returned\<close> has the results handed out, with the
  position of the call in the history.
\<close>

datatype 'v at_pc = Outside | Fetched nat 'v 'v

record 'v atomic_state =
  at_value :: 'v
  at_pc :: "nat \<Rightarrow> 'v at_pc"
  at_history :: "'v at_call list"
  at_returned :: "(nat \<times> 'v result) list"

definition at_return :: "nat \<Rightarrow> 'w word result \<Rightarrow> 'w :: len word atomic_state \<Rightarrow> 'w word atomic_state" where
  "at_return k r s = s\<lparr>at_returned := at_returned s @ [(k, r)]\<rparr>"

text \<open>The calls that add a second time, and what they add.\<close>

fun added_again :: "'w :: len word at_call \<Rightarrow> 'w word option" where
  "added_again (CallAddAndGet x) = Some x"
| "added_again CallIncrementAndGet = Some 1"
| "added_again CallDecrementAndGet = Some (- 1)"
| "added_again _ = None"

definition at_begin :: "nat \<Rightarrow> 'w :: len word at_call \<Rightarrow> 'w word atomic_state \<Rightarrow> 'w word atomic_state" where
  "at_begin i c s = (case added_again c of
     Some x \<Rightarrow> (let (r, v) = getAndAdd x (at_value s) in
       s\<lparr>at_value := v, at_pc := (at_pc s)(i := Fetched (length (at_history s)) r x), at_history := at_history s @ [c]\<rparr>)
   | None \<Rightarrow> (let (r, v) = at_alone c (at_value s) in
       at_return (length (at_history s)) r (s\<lparr>at_value := v, at_history := at_history s @ [c]\<rparr>)))"

lemma at_alone_again: "added_again c = Some x \<Longrightarrow> at_alone c v = addAndGet x v"
  by (cases c) (auto simp: incrementAndGet_def decrementAndGet_def)

definition at_finish :: "nat \<Rightarrow> 'w :: len word atomic_state \<Rightarrow> 'w word atomic_state" where
  "at_finish i s = (case at_pc s i of
     Outside \<Rightarrow> s
   | Fetched k r x \<Rightarrow> at_return k (signed_add r x) (s\<lparr>at_pc := (at_pc s)(i := Outside)\<rparr>))"

inductive at_step :: "'w :: len word atomic_state \<Rightarrow> 'w word atomic_state \<Rightarrow> bool" where
  AtBegin: "at_pc s i = Outside \<Longrightarrow> at_step s (at_begin i c s)"
| AtFinish: "at_pc s i \<noteq> Outside \<Longrightarrow> at_step s (at_finish i s)"

definition at_init :: "'w :: len word atomic_state \<Rightarrow> bool" where
  "at_init s \<longleftrightarrow> s = \<lparr>at_value = AtomicIntegerT, at_pc = \<lambda>_. Outside, at_history = [], at_returned = []\<rparr>"

text \<open>The value after a sequence of calls, each run alone.\<close>

definition at_after :: "'w :: len word at_call list \<Rightarrow> 'w word" where
  "at_after cs = foldl (\<lambda>v c. snd (at_alone c v)) AtomicIntegerT cs"

lemma at_after_simps [simp]: "at_after [] = 0" "at_after (cs @ [c]) = snd (at_alone c (at_after cs))"
  by (simp_all add: at_after_def AtomicIntegerT_def)

definition at_result :: "'w :: len word at_call list \<Rightarrow> nat \<Rightarrow> 'w word result" where
  "at_result cs k = fst (at_alone (cs ! k) (at_after (take k cs)))"

lemma at_result_append: "k < length cs \<Longrightarrow> at_result (cs @ [c]) k = at_result cs k"
  by (simp add: at_result_def nth_append)

lemma at_result_last: "at_result (cs @ [c]) (length cs) = fst (at_alone c (at_after cs))"
  by (simp add: at_result_def)

section \<open>Linearisability\<close>

definition at_inv :: "'w :: len word atomic_state \<Rightarrow> bool" where
  "at_inv s \<longleftrightarrow> at_value s = at_after (at_history s) \<and>
     (\<forall>(k, r)\<in>set (at_returned s). k < length (at_history s) \<and> r = at_result (at_history s) k) \<and>
     (\<forall>i k r x. at_pc s i = Fetched k r x \<longrightarrow> k < length (at_history s) \<and> added_again (at_history s ! k) = Some x \<and>
        r = at_after (take k (at_history s)) \<and> k \<notin> fst ` set (at_returned s) \<and>
        (\<forall>j r' x'. at_pc s j = Fetched k r' x' \<longrightarrow> j = i)) \<and>
     distinct (map fst (at_returned s))"

lemma at_inv_begin:
  assumes "at_inv s" and "at_pc s i = Outside"
  shows "at_inv (at_begin i c s)"
proof (cases "added_again c")
  case (Some x)
  show ?thesis
    using assms at_alone_again [OF Some] unfolding at_inv_def
    by (auto simp: at_begin_def Some getAndAdd_def sync_fetch_and_add_def addAndGet_def nth_append at_result_append
        split: if_splits dest: less_imp_neq) fastforce+
next
  case None
  then show ?thesis using assms
    by (auto simp: at_begin_def at_inv_def at_return_def nth_append at_result_append at_result_last split_beta
        split: if_splits dest: less_imp_neq; fastforce)
qed

lemma at_inv_finish:
  assumes "at_inv s"
  shows "at_inv (at_finish i s)"
proof (cases "at_pc s i")
  case (Fetched k r x)
  have k: "k < length (at_history s)" "added_again (at_history s ! k) = Some x" "r = at_after (take k (at_history s))"
    "k \<notin> fst ` set (at_returned s)" "\<forall>j r' x'. at_pc s j = Fetched k r' x' \<longrightarrow> j = i"
    using assms Fetched unfolding at_inv_def by blast+
  have res: "signed_add r x = at_result (at_history s) k"
    by (simp add: at_result_def at_alone_again [OF k(2)] k(3) addAndGet_def getAndAdd_def sync_fetch_and_add_def)
  have "at_inv (at_return k (at_result (at_history s) k) (s\<lparr>at_pc := (at_pc s)(i := Outside)\<rparr>))"
    using assms k unfolding at_inv_def at_return_def by (auto split: if_splits)
  then show ?thesis by (simp add: at_finish_def Fetched res)
qed (use assms in \<open>simp add: at_finish_def\<close>)

interpretation atomic: step_invariant at_init "at_step :: 'w :: len word atomic_state \<Rightarrow> _" at_inv
proof
  show "at_inv s" if "at_init s" for s :: "'w word atomic_state"
    using that by (simp add: at_init_def at_inv_def AtomicIntegerT_def)
  show "at_inv t" if "at_inv s" and "at_step s t" for s t :: "'w word atomic_state"
    using that(2,1) by (cases rule: at_step.cases) (auto intro: at_inv_begin at_inv_finish)
qed

lemma at_reach_begin: "reach at_init at_step s \<Longrightarrow> at_pc s i = Outside \<Longrightarrow> reach at_init at_step (at_begin i c s)"
  by (erule reach_step) (rule AtBegin)

lemma at_reach_finish: "reach at_init at_step s \<Longrightarrow> at_pc s i \<noteq> Outside \<Longrightarrow> reach at_init at_step (at_finish i s)"
  by (erule reach_step) (rule AtFinish)

section \<open>Over the integers\<close>

text \<open>
  The specification of a signed integer of \<open>n\<close> bits: the value is a mathematical integer that wraps around into its range; a result
  outside of the range is undefined behaviour of the signed addition.
\<close>

definition wrap_signed :: "nat \<Rightarrow> int \<Rightarrow> int" where
  "wrap_signed n i = (i + 2 ^ (n - 1)) mod 2 ^ n - 2 ^ (n - 1)"

fun spec_result :: "nat \<Rightarrow> int at_call \<Rightarrow> int \<Rightarrow> int result" where
  "spec_result n CallGet v = Inr v"
| "spec_result n (CallGetAndAdd x) v = Inr v"
| "spec_result n (CallGetAndSet x) v = Inr v"
| "spec_result n (CallAddAndGet x) v = (if wrap_signed n (v + x) = v + x then Inr (v + x) else Inl (Undefined_Behaviour ''signed overflow''))"
| "spec_result n CallIncrementAndGet v = (if wrap_signed n (v + 1) = v + 1 then Inr (v + 1) else Inl (Undefined_Behaviour ''signed overflow''))"
| "spec_result n CallDecrementAndGet v = (if wrap_signed n (v - 1) = v - 1 then Inr (v - 1) else Inl (Undefined_Behaviour ''signed overflow''))"

fun spec_value :: "nat \<Rightarrow> int at_call \<Rightarrow> int \<Rightarrow> int" where
  "spec_value n CallGet v = v"
| "spec_value n (CallGetAndAdd x) v = wrap_signed n (v + x)"
| "spec_value n (CallGetAndSet x) v = x"
| "spec_value n (CallAddAndGet x) v = wrap_signed n (v + x)"
| "spec_value n CallIncrementAndGet v = wrap_signed n (v + 1)"
| "spec_value n CallDecrementAndGet v = wrap_signed n (v - 1)"

text \<open>The value after calls one after the other, from zero on.\<close>

definition spec_after :: "nat \<Rightarrow> int at_call list \<Rightarrow> int" where
  "spec_after n cs = fold (spec_value n) cs 0"

lemma sint_add_wrap: "sint (a + b) = wrap_signed LENGTH('w) (sint a + sint (b :: 'w :: len word))"
proof -
  obtain m where m: "LENGTH('w) = Suc m" using len_gt_0 [where 'a = 'w] gr0_conv_Suc by blast
  have "sint (a + b) = signed_take_bit (LENGTH('w) - 1) (sint a + sint b)" by (rule sint_word_add)
  then show ?thesis by (simp add: wrap_signed_def m signed_take_bit_eq_take_bit_shift take_bit_eq_mod)
qed

lemma wrap_signed_id:
  assumes "0 < n"
  shows "wrap_signed n i = i \<longleftrightarrow> - (2 ^ (n - 1)) \<le> i \<and> i < 2 ^ (n - 1)"
proof -
  obtain m where m: "n = Suc m" using assms gr0_conv_Suc by blast
  define h :: int where "h = 2 ^ m"
  have h: "0 < h" "2 ^ n = 2 * h" "2 ^ (n - 1) = h" by (simp_all add: h_def m)
  have "(i + h) mod (2 * h) = i + h \<longleftrightarrow> 0 \<le> i + h \<and> i + h < 2 * h"
  proof
    assume "(i + h) mod (2 * h) = i + h"
    moreover have "0 \<le> (i + h) mod (2 * h)" and "(i + h) mod (2 * h) < 2 * h" using h(1) by simp_all
    ultimately show "0 \<le> i + h \<and> i + h < 2 * h" by linarith
  qed (simp add: mod_pos_pos_trivial)
  then show ?thesis unfolding wrap_signed_def h(2,3) by auto
qed

text \<open>Every operation meets its specification, from one bit more than a sign on.\<close>

lemma sint_one_minus:
  assumes "1 < LENGTH('w)"
  shows "sint (1 :: 'w :: len word) = 1" and "sint (- 1 :: 'w word) = - 1"
proof -
  have "(1 :: int) < 2 ^ (LENGTH('w) - 1)" by (rule one_less_power) (use assms in simp_all)
  then show "sint (1 :: 'w word) = 1" using assms by (simp add: signed_1)
  show "sint (- 1 :: 'w word) = - 1" by simp
qed

lemma signed_add_spec:
  fixes v x :: "'w :: len word"
  shows "map_sum id sint (signed_add v x) = (if wrap_signed LENGTH('w) (sint v + sint x) = sint v + sint x then Inr (sint v + sint x)
    else Inl (Undefined_Behaviour ''signed overflow''))"
  using sint_add_wrap [of v x] wrap_signed_id [OF len_gt_0 [where 'a = 'w], of "sint v + sint x"] by (auto simp: signed_add_def)

lemma alone_spec:
  fixes v :: "'w :: len word"
  assumes "1 < LENGTH('w)"
  shows "sint (snd (at_alone c v)) = spec_value LENGTH('w) (map_at_call sint c) (sint v)"
    and "map_sum id sint (fst (at_alone c v)) = spec_result LENGTH('w) (map_at_call sint c) (sint v)"
proof -
  have one: "sint (v + 1) = wrap_signed LENGTH('w) (sint v + 1)" and minus: "sint (v + - 1) = wrap_signed LENGTH('w) (sint v + - 1)"
    unfolding sint_add_wrap sint_one_minus [OF assms] by (rule refl)+
  show "sint (snd (at_alone c v)) = spec_value LENGTH('w) (map_at_call sint c) (sint v)"
    using one minus by (cases c) (simp_all add: atomic_defs sint_add_wrap [symmetric])
  have "map_sum id sint (signed_add v 1) = spec_result LENGTH('w) CallIncrementAndGet (sint v)"
    and "map_sum id sint (signed_add v (- 1)) = spec_result LENGTH('w) CallDecrementAndGet (sint v)"
    unfolding signed_add_spec sint_one_minus [OF assms] by simp_all
  then show "map_sum id sint (fst (at_alone c v)) = spec_result LENGTH('w) (map_at_call sint c) (sint v)"
    by (cases c) (simp_all add: atomic_defs signed_add_spec del: spec_result.simps(5,6))
qed

lemma after_spec:
  fixes cs :: "'w :: len word at_call list"
  assumes "1 < LENGTH('w)"
  shows "sint (at_after cs) = spec_after LENGTH('w) (map (map_at_call sint) cs)"
  by (induction cs rule: rev_induct) (simp_all add: spec_after_def alone_spec(1) [OF assms])


text \<open>Two threads add to the counter; the second one moves it before the first has computed its result.\<close>

definition demo_atomic :: "32 word atomic_state" where
  "demo_atomic = at_finish 0 (at_begin 1 (CallGetAndAdd 5) (at_begin 0 CallDecrementAndGet
     \<lparr>at_value = AtomicIntegerT, at_pc = \<lambda>_. Outside, at_history = [], at_returned = []\<rparr>))"

lemma demo_atomic_reach: "reach at_init at_step demo_atomic"
proof -
  let ?s0 = "\<lparr>at_value = AtomicIntegerT, at_pc = \<lambda>_. Outside, at_history = [], at_returned = []\<rparr> :: 32 word atomic_state"
  have "reach at_init at_step (at_begin 0 CallDecrementAndGet ?s0)"
    by (rule at_reach_begin [OF reach_init]) (simp_all add: at_init_def)
  then have "reach at_init at_step (at_begin 1 (CallGetAndAdd 5) (at_begin 0 CallDecrementAndGet ?s0))"
    by (rule at_reach_begin) (simp add: at_begin_def getAndAdd_def sync_fetch_and_add_def)
  then show ?thesis unfolding demo_atomic_def
    by (rule at_reach_finish) (simp add: at_begin_def at_return_def getAndAdd_def sync_fetch_and_add_def)
qed


section \<open>Tickets\<close>

text \<open>
  Numbers drawn with \<open>incrementAndGet\<close>, such as the sequence numbers of timers, are unique
  whatever the interleaving: while fewer than half the range have been drawn, every result is one more
  than the position of its call in the order of the atomic steps.
\<close>

lemma sint_word_of_nat:
  assumes "n < 2 ^ (LENGTH('w) - 1)"
  shows "sint (word_of_nat n :: 'w :: len word) = int n"
proof -
  have "int n < 2 ^ (LENGTH('w) - 1)" using assms by simp
  then show ?thesis by (simp add: signed_of_nat signed_take_bit_int_eq_self order_trans [of _ 0])
qed

lemma after_tickets:
  assumes "0 < n" and "set cs \<subseteq> {CallIncrementAndGet}" and "length cs < 2 ^ (n - 1)"
  shows "spec_after n cs = int (length cs)"
  using assms(2,3)
proof (induction cs rule: rev_induct)
  case (snoc c cs)
  then have IH: "spec_after n cs = int (length cs)" and "c = CallIncrementAndGet" by simp_all
  moreover have "int (length cs) + 1 < 2 ^ (n - 1)"
  proof -
    have "int (Suc (length cs)) < int (2 ^ (n - 1))" using snoc.prems(2) by (simp only: of_nat_less_iff length_append_singleton)
    then show ?thesis by simp
  qed
  then have "wrap_signed n (int (length cs) + 1) = int (length cs) + 1"
    by (subst wrap_signed_id [OF assms(1)]) (simp add: order_trans [of _ 0])
  ultimately show ?case by (simp add: spec_after_def)
qed (simp add: spec_after_def)

end
