(* ===== verification/Exceptions.thy ===== *)
theory Exceptions
  imports Prelude
begin

text \<open>
  \<open>src/muduo/base/Exception.{h,cc}\<close>: an exception with a message and the stack at the place it was made. The
  C library's \<open>backtrace\<close> and \<open>backtrace_symbols\<close> are arguments: the return addresses of the innermost frames,
  at most as many as asked for, and their texts, or \<open>None\<close> when there is no memory for them.
\<close>

record exception_obj =
  xc_message :: string
  xc_stack :: string

type_synonym 'a stack_env = "(nat \<Rightarrow> 'a list) \<times> ('a list \<Rightarrow> string list option)"

definition fillStackTrace :: "'a stack_env \<Rightarrow> exception_obj \<Rightarrow> exception_obj" where
  "fillStackTrace env ex = (case env of (backtrace, backtrace_symbols) \<Rightarrow>
     let buffer = backtrace 200; nptrs = length buffer in
     case backtrace_symbols buffer of
       None \<Rightarrow> ex
     | Some strings \<Rightarrow> fold (\<lambda>i e. e\<lparr>xc_stack := xc_stack e @ strings ! i @ [CHR 0x0A]\<rparr>) [0..<nptrs] ex)"

definition newException :: "'a stack_env \<Rightarrow> string \<Rightarrow> exception_obj" where
  "newException env msg = fillStackTrace env \<lparr>xc_message = msg, xc_stack = []\<rparr>"

text \<open>\<open>c_str()\<close> as its readers see it: up to the first zero byte.\<close>

definition c_str :: "string \<Rightarrow> string" where
  "c_str s = takeWhile (\<lambda>c. c \<noteq> CHR 0x00) s"

definition exception_what :: "exception_obj \<Rightarrow> string" where
  "exception_what ex = c_str (xc_message ex)"

definition stackTrace :: "exception_obj \<Rightarrow> string" where
  "stackTrace ex = c_str (xc_stack ex)"

lemma c_str_id [simp]: "CHR 0x00 \<notin> set s \<Longrightarrow> c_str s = s"
  by (auto simp: c_str_def takeWhile_eq_all_conv)

lemma fold_stack:
  "fold (\<lambda>i e. e\<lparr>xc_stack := xc_stack e @ strings ! i @ [CHR 0x0A]\<rparr>) is ex =
     ex\<lparr>xc_stack := xc_stack ex @ concat (map (\<lambda>i. strings ! i @ [CHR 0x0A]) is)\<rparr>"
  by (induction "is" arbitrary: ex) simp_all

text \<open>
  What the C library promises: at most \<open>n\<close> frames, and one text without zero bytes for each of them.
\<close>

definition stack_env_ok :: "'a stack_env \<Rightarrow> bool" where
  "stack_env_ok env \<longleftrightarrow> (case env of (backtrace, backtrace_symbols) \<Rightarrow> (\<forall>n. length (backtrace n) \<le> n) \<and>
     (\<forall>b strings. backtrace_symbols b = Some strings \<longrightarrow> length strings = length b \<and> (\<forall>s\<in>set strings. CHR 0x00 \<notin> set s)))"

text \<open>The trace has one line for each frame, at most two hundred, and the message is kept.\<close>

lemma exception_trace:
  assumes "stack_env_ok env" and "env = (backtrace, backtrace_symbols)" and "CHR 0x00 \<notin> set msg"
  shows "exception_what (newException env msg) = msg \<and>
    (case backtrace_symbols (backtrace 200) of
       None \<Rightarrow> stackTrace (newException env msg) = []
     | Some strings \<Rightarrow> length strings \<le> 200 \<and>
         stackTrace (newException env msg) = concat (map (\<lambda>s. s @ [CHR 0x0A]) strings))"
proof (cases "backtrace_symbols (backtrace 200)")
  case None
  then show ?thesis using assms(2,3)
    by (simp add: newException_def fillStackTrace_def exception_what_def stackTrace_def)
next
  case (Some strings)
  then have len: "length strings = length (backtrace 200)" "length strings \<le> 200" "\<forall>s\<in>set strings. CHR 0x00 \<notin> set s"
    using assms(1) by (auto simp: stack_env_ok_def assms(2))
  have "map (\<lambda>i. strings ! i @ [CHR 0x0A]) [0..<length (backtrace 200)] = map (\<lambda>s. s @ [CHR 0x0A]) strings"
    by (rule nth_equalityI) (simp_all add: len(1) [symmetric])
  then have "newException env msg = \<lparr>xc_message = msg, xc_stack = concat (map (\<lambda>s. s @ [CHR 0x0A]) strings)\<rparr>"
    using Some by (simp add: newException_def fillStackTrace_def assms(2) Let_def fold_stack)
  then show ?thesis using Some assms(3) len(2,3) by (auto simp: exception_what_def stackTrace_def)
qed

end
