(* ===== verification/Threads.thy ===== *)
theory Threads
  imports Logging Atomic Exceptions
begin

text \<open>
  \<open>src/muduo/base/Thread.{h,cc}\<close>: the life of a \<open>Thread\<close> object and what \<open>CurrentThread\<close> says in it.

  The variables of a running thread are its cached identifier (\<open>log_thread\<close> of the logging code) and
  its name. The answers of the kernel (\<open>gettid\<close>, \<open>getpid\<close>, \<open>pthread_create\<close>, \<open>pthread_join\<close>) are
  arguments. The function of a thread is a map from what it can see, the object and its thread
  variables, to what it prints to the error output and how it ends.
\<close>

record os_thread =
  ot_log :: log_thread
  ot_name :: string

record thread_obj =
  th_started :: bool
  th_pthreadId :: nat
  th_tid :: int
  th_name :: string

definition new_os_thread :: os_thread where
  "new_os_thread = \<lparr>ot_log = new_thread, ot_name = ''unknown''\<rparr>"

definition current_tid :: "int \<Rightarrow> os_thread \<Rightarrow> (int \<times> os_thread) result" where
  "current_tid gettid ot = bindE (tid gettid (ot_log ot)) (\<lambda>(i, l). Inr (i, ot\<lparr>ot_log := l\<rparr>))"

definition isMainThread :: "int \<Rightarrow> int \<Rightarrow> os_thread \<Rightarrow> (bool \<times> os_thread) result" where
  "isMainThread gettid getpid ot = bindE (current_tid gettid ot) (\<lambda>(i, ot'). Inr (i = getpid, ot'))"

text \<open>Run in the child after a fork, in the copy of the thread that called it.\<close>

definition afterFork :: "int \<Rightarrow> os_thread \<Rightarrow> os_thread result" where
  "afterFork gettid ot =
     bindE (current_tid gettid (ot\<lparr>ot_log := (ot_log ot)\<lparr>t_cachedTid := 0\<rparr>, ot_name := ''main''\<rparr>)) (\<lambda>(_, ot').
     Inr ot')"

definition ThreadNameInitializer :: "int \<Rightarrow> os_thread \<Rightarrow> os_thread result" where
  "ThreadNameInitializer gettid ot = bindE (current_tid gettid (ot\<lparr>ot_name := ''main''\<rparr>)) (\<lambda>(_, ot'). Inr ot')"

definition newThread :: "string \<Rightarrow> 32 word \<Rightarrow> (thread_obj \<times> 32 word) result" where
  "newThread n numCreated =
     bindE (at_increment numCreated) (\<lambda>c.
     Inr (\<lparr>th_started = False, th_pthreadId = 0, th_tid = 0, th_name = n\<rparr>, c))"

definition thread_start :: "int \<Rightarrow> nat \<Rightarrow> thread_obj \<Rightarrow> thread_obj result" where
  "thread_start err pthreadId th =
     bindE (assertE (\<not> th_started th) ''!started_'') (\<lambda>_.
     if err \<noteq> 0 then Inl (FatalLog ''Failed in pthread_create'')
     else Inr (th\<lparr>th_started := True, th_pthreadId := pthreadId\<rparr>))"

definition thread_join :: "(nat \<Rightarrow> int) \<Rightarrow> thread_obj \<Rightarrow> int result" where
  "thread_join pthread_join th =
     bindE (assertE (th_started th) ''started_'') (\<lambda>_. Inr (pthread_join (th_pthreadId th)))"

text \<open>How the function of a thread ends, and what becomes of the process.\<close>

datatype func_end = Returned | Throws_muduo exception_obj | Throws_std string | Throws_other | Calls_abort

datatype thread_end = Finished | Process_aborted | Rethrown

text \<open>The \<open>try\<close> block of \<open>runInThread\<close>: the end, the lines printed, and the name the thread has then.\<close>

definition thread_catch :: "string \<Rightarrow> string list \<times> func_end \<Rightarrow> thread_end \<times> string list \<times> string" where
  "thread_catch name r = (case r of (out, e) \<Rightarrow>
     let caught = ''exception caught in Thread '' @ c_str name in
     case e of
       Returned \<Rightarrow> (Finished, out, ''finished'')
     | Throws_muduo ex \<Rightarrow> (Process_aborted, out @ [caught, ''reason: '' @ exception_what ex, ''stack trace: '' @ stackTrace ex], ''crashed'')
     | Throws_std what \<Rightarrow> (Process_aborted, out @ [caught, ''reason: '' @ what], ''crashed'')
     | Throws_other \<Rightarrow> (Rethrown, out @ [''unknown '' @ caught], ''crashed'')
     | Calls_abort \<Rightarrow> (Process_aborted, out, c_str name))"

definition runInThread ::
  "int \<Rightarrow> (thread_obj \<Rightarrow> os_thread \<Rightarrow> string list \<times> func_end) \<Rightarrow> thread_obj \<Rightarrow> os_thread \<Rightarrow>
     (thread_end \<times> string list \<times> thread_obj \<times> os_thread) result" where
  "runInThread gettid func th ot =
     bindE (current_tid gettid ot) (\<lambda>(i, ot1).
     let th' = th\<lparr>th_tid := i\<rparr>; ot2 = ot1\<lparr>ot_name := c_str (th_name th)\<rparr> in
     Inr (case thread_catch (th_name th) (func th' ot2) of (e, out, name) \<Rightarrow> (e, out, th', ot2\<lparr>ot_name := name\<rparr>)))"

definition startThread ::
  "int \<Rightarrow> (thread_obj \<Rightarrow> os_thread \<Rightarrow> string list \<times> func_end) \<Rightarrow> thread_obj \<Rightarrow>
     (thread_end \<times> string list \<times> thread_obj \<times> os_thread) result" where
  "startThread gettid func th = runInThread gettid func th new_os_thread"

text \<open>A fresh thread whose identifier has at most five digits can cache it.\<close>

lemma length_pad5:
  assumes "0 < g" and "g < 100000"
  shows "length (pad 5 (CHR '' '') (dec_int g) @ '' '') = 6"
proof -
  have "length (dec (nat g)) \<le> 5" by (rule length_dec_le) (use assms in auto)
  then show ?thesis using assms by (simp add: pad_def dec_int_def)
qed

lemma tid_fresh:
  assumes "0 < g" and "g < 100000" and "t_cachedTid l = 0"
  shows "\<exists>l'. tid g l = Inr (g, l') \<and> t_cachedTid l' = g \<and> t_tidString l' = pad 5 (CHR '' '') (dec_int g) @ '' ''"
  using length_pad5 [OF assms(1,2)] assms(3)
  by (simp add: tid_def cacheTid_def snprintf_def del: append_assoc)

text \<open>
  A started \<open>Thread\<close> whose identifier has at most five digits runs its function once, with
  \<open>tid()\<close> the identifier of the kernel, \<open>CurrentThread::name()\<close> the given name and the cached text for
  log lines already made. It finishes exactly when the function returns; an exception is reported with the
  name of the thread and takes the process down. Starting twice and joining before the start fail
  their assertions.
\<close>

lemma thread_run_outcomes:
  assumes "0 < g" and "g < 100000" and "CHR 0x00 \<notin> set n"
    and "newThread n c = Inr (th0, c')" and "thread_start 0 p th0 = Inr th"
  shows "\<exists>th' ot e out name. th_tid th' = g \<and> th_name th' = n \<and> ot_name ot = n \<and> t_cachedTid (ot_log ot) = g \<and>
      startThread g func th = Inr (e, out, th', ot\<lparr>ot_name := name\<rparr>) \<and> thread_catch n (func th' ot) = (e, out, name)"
    and "thread_start e q th = Inl (AssertionFailed ''!started_'')"
    and "thread_join j th0 = Inl (AssertionFailed ''started_'') \<and> thread_join j th = Inr (j p)"
proof -
  have th0: "th0 = \<lparr>th_started = False, th_pthreadId = 0, th_tid = 0, th_name = n\<rparr>"
    using assms(4) by (auto simp: newThread_def)
  then have th: "th = th0\<lparr>th_started := True, th_pthreadId := p\<rparr>" using assms(5) by (simp add: thread_start_def)
  obtain l where l: "tid g new_thread = Inr (g, l)" "t_cachedTid l = g"
    using tid_fresh [OF assms(1,2), of new_thread] by (auto simp: new_thread_def)
  let ?th' = "th\<lparr>th_tid := g\<rparr>" and ?ot = "\<lparr>ot_log = l, ot_name = n\<rparr>"
  obtain te out name where "thread_catch n (func ?th' ?ot) = (te, out, name)" by (cases "thread_catch n (func ?th' ?ot)") auto
  moreover have "current_tid g new_os_thread = Inr (g, \<lparr>ot_log = l, ot_name = ''unknown''\<rparr>)"
    by (simp add: current_tid_def new_os_thread_def l)
  ultimately show "\<exists>th' ot e out name. th_tid th' = g \<and> th_name th' = n \<and> ot_name ot = n \<and> t_cachedTid (ot_log ot) = g \<and>
      startThread g func th = Inr (e, out, th', ot\<lparr>ot_name := name\<rparr>) \<and> thread_catch n (func th' ot) = (e, out, name)"
    using l assms(3) by (intro exI [of _ ?th'] exI [of _ ?ot] exI) (simp add: th th0 startThread_def runInThread_def Let_def)
  show "thread_start e q th = Inl (AssertionFailed ''!started_'')" by (simp add: thread_start_def th)
  show "thread_join j th0 = Inl (AssertionFailed ''started_'') \<and> thread_join j th = Inr (j p)"
    by (simp add: thread_join_def th th0)
qed

lemma thread_catch_end:
  assumes "thread_catch n (out, e) = (te, out', name)"
  shows "te = Finished \<longleftrightarrow> e = Returned" and "te = Finished \<Longrightarrow> out' = out"
    and "e \<noteq> Returned \<Longrightarrow> e \<noteq> Calls_abort \<Longrightarrow> \<exists>u rest. out' = out @ (u @ ''exception caught in Thread '' @ c_str n) # rest"
  using assms by (auto simp: thread_catch_def Let_def split: func_end.splits)

text \<open>
  A forked child sees its own identifier and is its main thread; without \<open>afterFork\<close> it would keep the
  cached identifier of the parent's thread.
\<close>

lemma fork_main_thread:
  assumes "0 < g" and "g < 100000" and "t_cachedTid (ot_log ot) = parent" and "0 < parent" and "parent \<noteq> g"
  shows "\<exists>ot' ot''. afterFork g ot = Inr ot' \<and> ot_name ot' = ''main'' \<and> isMainThread g g ot' = Inr (True, ot'') \<and>
    isMainThread g g ot = Inr (False, ot)"
proof -
  obtain l where "tid g ((ot_log ot)\<lparr>t_cachedTid := 0\<rparr>) = Inr (g, l)" "t_cachedTid l = g"
    using tid_fresh [OF assms(1,2), of "(ot_log ot)\<lparr>t_cachedTid := 0\<rparr>"] by auto
  then show ?thesis using assms
    by (simp add: afterFork_def isMainThread_def current_tid_def tid_def [of g "ot_log ot"] tid_def [of g l])
qed

text \<open>The static counter has the number of \<open>Thread\<close> objects ever made.\<close>

lemma numCreated_counts:
  assumes "k < 2 ^ 31 - 1"
  shows "\<exists>th. newThread n (word_of_nat k) = Inr (th, word_of_nat (Suc k))"
proof -
  have "sint (word_of_nat k :: 32 word) = int k" by (rule sint_word_of_nat) (use assms in simp)
  then show ?thesis using assms
    by (simp add: newThread_def at_increment_def atomic_defs signed_add_def add.commute)
qed

end
