(* ===== verification/Loop_Life.thy ===== *)
theory Loop_Life
  imports Event_Loop Threads
begin

text \<open>
  Creation and destruction of event loops: \<open>EventLoop::EventLoop\<close> and \<open>~EventLoop\<close>, the thread-local
  pointer \<open>t_loopInThisThread\<close>, and the descriptors of the loop, its timer queue and its poller
  (\<open>src/muduo/net/EventLoop.cc\<close>, \<open>TimerQueue.cc\<close>, \<open>poller/EPollPoller.cc\<close>).

  A process has its open descriptors, for each thread the pointer \<open>t_loopInThisThread\<close>, and the loops
  that exist. The kernel is the argument \<open>alloc\<close>: from the open descriptors it picks a new one or
  fails. Pointers to loops are numbers that are not used twice.
\<close>

section \<open>Descriptors\<close>

type_synonym fd_alloc = "int set \<Rightarrow> int + int"

definition open_fd :: "string \<Rightarrow> fd_alloc \<Rightarrow> int set \<Rightarrow> (int \<times> int set) result" where
  "open_fd what alloc fds = (case alloc fds of
     Inl e \<Rightarrow> Inl (FatalLog what)
   | Inr fd \<Rightarrow> Inr (fd, insert fd fds))"

definition createEventfd :: "fd_alloc \<Rightarrow> int set \<Rightarrow> (int \<times> int set) result" where
  "createEventfd = open_fd ''Failed in eventfd''"

definition createTimerfd :: "fd_alloc \<Rightarrow> int set \<Rightarrow> (int \<times> int set) result" where
  "createTimerfd = open_fd ''Failed in timerfd_create''"

definition newEPollPoller :: "fd_alloc \<Rightarrow> int set \<Rightarrow> (int \<times> int set) result" where
  "newEPollPoller = open_fd ''EPollPoller::EPollPoller''"

text \<open>\<open>newDefaultPoller\<close>: the epoll descriptor, or none with \<open>MUDUO_USE_POLL\<close>.\<close>

definition newPoller :: "bool \<Rightarrow> fd_alloc \<Rightarrow> int set \<Rightarrow> (int option \<times> int set) result" where
  "newPoller use_poll alloc fds =
     (if use_poll then Inr (None, fds)
      else bindE (newEPollPoller alloc fds) (\<lambda>(fd, fds'). Inr (Some fd, fds')))"

section \<open>Event loops\<close>

record loop_obj =
  lo_threadId :: int
  lo_epollfd :: "int option"
  lo_timerfd :: int
  lo_wakeupFd :: int

record process =
  pr_fds :: "int set"
  pr_current :: "int \<rightharpoonup> nat"
  pr_loops :: "nat \<rightharpoonup> loop_obj"
  pr_next :: nat
  pr_badClose :: bool

definition getEventLoopOfCurrentThread :: "int \<Rightarrow> process \<Rightarrow> nat option" where
  "getEventLoopOfCurrentThread t p = pr_current p t"

definition EventLoop_new :: "bool \<Rightarrow> fd_alloc \<Rightarrow> int \<Rightarrow> process \<Rightarrow> (nat \<times> process) result" where
  "EventLoop_new use_poll alloc t p =
     bindE (newPoller use_poll alloc (pr_fds p)) (\<lambda>(epollfd, fds1).
     bindE (createTimerfd alloc fds1) (\<lambda>(timerfd, fds2).
     bindE (createEventfd alloc fds2) (\<lambda>(wakeupFd, fds3).
     if pr_current p t \<noteq> None then Inl (FatalLog ''Another EventLoop exists in this thread'')
     else
       let self = pr_next p in
       Inr (self, p\<lparr>pr_fds := fds3, pr_next := Suc self, pr_current := (pr_current p)(t \<mapsto> self),
         pr_loops := (pr_loops p)(self \<mapsto> \<lparr>lo_threadId = t, lo_epollfd = epollfd, lo_timerfd = timerfd,
           lo_wakeupFd = wakeupFd\<rparr>)\<rparr>))))"

text \<open>\<open>close\<close>; closing what is not open is noted, since it may hit a descriptor somebody else gets.\<close>

definition close_fd :: "int \<Rightarrow> process \<Rightarrow> process" where
  "close_fd fd p = p\<lparr>pr_fds := pr_fds p - {fd}, pr_badClose := (pr_badClose p \<or> fd \<notin> pr_fds p)\<rparr>"

text \<open>The destructor, in thread \<open>t\<close>, then the members in reverse order: the timer queue, the poller.\<close>

definition EventLoop_delete :: "int \<Rightarrow> nat \<Rightarrow> process \<Rightarrow> process result" where
  "EventLoop_delete t self p = (case pr_loops p self of
     None \<Rightarrow> Inl (Undefined_Behaviour ''dangling EventLoop*'')
   | Some lo \<Rightarrow>
       let p1 = (close_fd (lo_wakeupFd lo) p)\<lparr>pr_current := (pr_current p)(t := None)\<rparr>;
           p2 = close_fd (lo_timerfd lo) p1;
           p3 = (case lo_epollfd lo of None \<Rightarrow> p2 | Some fd \<Rightarrow> close_fd fd p2) in
       Inr (p3\<lparr>pr_loops := (pr_loops p3)(self := None)\<rparr>))"

definition isInLoopThread :: "int \<Rightarrow> nat \<Rightarrow> process \<Rightarrow> bool result" where
  "isInLoopThread t self p = (case pr_loops p self of
     None \<Rightarrow> Inl (Undefined_Behaviour ''dangling EventLoop*'')
   | Some lo \<Rightarrow> Inr (lo_threadId lo = t))"

definition abortNotInLoopThread :: "unit result" where
  "abortNotInLoopThread = Inl (FatalLog ''EventLoop::abortNotInLoopThread'')"

definition loop_assertInLoopThread :: "int \<Rightarrow> nat \<Rightarrow> process \<Rightarrow> unit result" where
  "loop_assertInLoopThread t self p =
     bindE (isInLoopThread t self p) (\<lambda>inside. if \<not> inside then abortNotInLoopThread else Inr ())"

text \<open>\<open>runInLoop\<close>: at once in the thread of the loop, else queued; \<open>call\<close> runs the functor.\<close>

definition runInLoop :: "bool \<Rightarrow> (nat \<Rightarrow> eloop \<Rightarrow> eloop) \<Rightarrow> nat \<Rightarrow> eloop \<Rightarrow> eloop" where
  "runInLoop inLoopThread call cb s = (if inLoopThread then call cb s else queueInLoop_remote cb s)"

section \<open>TimerQueue: the rest\<close>

text \<open>\<open>~TimerQueue\<close>: every timer in \<open>timers_\<close> is deleted.\<close>

definition TimerQueue_delete :: "tqueue \<Rightarrow> tqueue result" where
  "TimerQueue_delete q = foldE (\<lambda>e. delete_timer (snd e)) (tq_timers q) q"

text \<open>\<open>readTimerfd\<close>: an answer other than eight bytes is logged and ignored.\<close>

definition readTimerfd :: "int \<Rightarrow> string option" where
  "readTimerfd n = (if n \<noteq> 8 then Some (''TimerQueue::handleRead() reads '' @ dec_int n @ '' bytes instead of 8'') else None)"

section \<open>One loop per thread\<close>

definition loop_fds :: "loop_obj \<Rightarrow> int list" where
  "loop_fds lo = lo_wakeupFd lo # lo_timerfd lo # (case lo_epollfd lo of None \<Rightarrow> [] | Some fd \<Rightarrow> [fd])"

text \<open>
  The descriptors of the loops are open and all different; the pointers of the threads are exactly
  the loops that exist, each in its own thread. \<open>base\<close> are the descriptors of others.
\<close>

definition pr_inv :: "int set \<Rightarrow> process \<Rightarrow> bool" where
  "pr_inv base p \<longleftrightarrow>
     pr_fds p = base \<union> (\<Union>lo\<in>ran (pr_loops p). set (loop_fds lo)) \<and>
     (\<forall>l lo. pr_loops p l = Some lo \<longrightarrow> distinct (loop_fds lo) \<and> set (loop_fds lo) \<inter> base = {} \<and> l < pr_next p \<and>
        (\<forall>k lk. pr_loops p k = Some lk \<and> k \<noteq> l \<longrightarrow> set (loop_fds lo) \<inter> set (loop_fds lk) = {})) \<and>
     (\<forall>t l. pr_current p t = Some l \<longleftrightarrow> (\<exists>lo. pr_loops p l = Some lo \<and> lo_threadId lo = t)) \<and> \<not> pr_badClose p"

definition fresh_alloc :: "fd_alloc \<Rightarrow> bool" where
  "fresh_alloc alloc \<longleftrightarrow> (\<forall>fds fd. alloc fds = Inr fd \<longrightarrow> fd \<notin> fds)"

lemma open_fd_fresh:
  assumes "fresh_alloc alloc" and "open_fd w alloc fds = Inr (fd, fds')"
  shows "fd \<notin> fds" and "fds' = insert fd fds"
  using assms by (auto simp: open_fd_def fresh_alloc_def split: sum.splits)

lemma EventLoop_new_fds:
  assumes "fresh_alloc alloc" and "EventLoop_new use_poll alloc t p = Inr (l, p')"
  shows "\<exists>lo. lo_threadId lo = t \<and> l = pr_next p \<and> pr_current p t = None \<and> distinct (loop_fds lo) \<and>
    set (loop_fds lo) \<inter> pr_fds p = {} \<and>
    p' = p\<lparr>pr_fds := pr_fds p \<union> set (loop_fds lo), pr_next := Suc l, pr_current := (pr_current p)(t \<mapsto> l),
      pr_loops := (pr_loops p)(l \<mapsto> lo)\<rparr>"
proof -
  obtain e fds1 tf fds2 w fds3 where
    e: "newPoller use_poll alloc (pr_fds p) = Inr (e, fds1)" and
    t: "createTimerfd alloc fds1 = Inr (tf, fds2)" and w: "createEventfd alloc fds2 = Inr (w, fds3)" and
    none: "pr_current p t = None" and
    p': "l = pr_next p" "p' = p\<lparr>pr_fds := fds3, pr_next := Suc l, pr_current := (pr_current p)(t \<mapsto> l),
         pr_loops := (pr_loops p)(l \<mapsto> \<lparr>lo_threadId = t, lo_epollfd = e, lo_timerfd = tf, lo_wakeupFd = w\<rparr>)\<rparr>"
    using assms(2) by (auto simp: EventLoop_new_def Let_def split: if_splits)
  have 1: "fds1 = pr_fds p \<union> set_option e \<and> set_option e \<inter> pr_fds p = {}"
    using e assms(1) by (auto simp: newPoller_def newEPollPoller_def open_fd_def fresh_alloc_def split: if_splits sum.splits)
  have 2: "tf \<notin> fds1 \<and> fds2 = insert tf fds1" using open_fd_fresh [OF assms(1)] t by (auto simp: createTimerfd_def)
  have 3: "w \<notin> fds2 \<and> fds3 = insert w fds2" using open_fd_fresh [OF assms(1)] w by (auto simp: createEventfd_def)
  let ?lo = "\<lparr>lo_threadId = t, lo_epollfd = e, lo_timerfd = tf, lo_wakeupFd = w\<rparr>"
  have "distinct (loop_fds ?lo)" "set (loop_fds ?lo) \<inter> pr_fds p = {}" "fds3 = pr_fds p \<union> set (loop_fds ?lo)"
    using 1 2 3 by (auto simp: loop_fds_def split: option.splits)
  then show ?thesis using none p' by (intro exI [of _ ?lo]) simp
qed

lemma pr_inv_new:
  assumes "fresh_alloc alloc" and "pr_inv base p" and "EventLoop_new use_poll alloc t p = Inr (l, p')"
  shows "pr_inv base p'"
proof -
  obtain lo where lo: "lo_threadId lo = t" "l = pr_next p" "pr_current p t = None" "distinct (loop_fds lo)"
    "set (loop_fds lo) \<inter> pr_fds p = {}"
    "p' = p\<lparr>pr_fds := pr_fds p \<union> set (loop_fds lo), pr_next := Suc l, pr_current := (pr_current p)(t \<mapsto> l),
      pr_loops := (pr_loops p)(l \<mapsto> lo)\<rparr>"
    using EventLoop_new_fds [OF assms(1,3)] by blast
  have l: "pr_loops p l = None" using assms(2) lo(2) unfolding pr_inv_def by (metis less_irrefl not_None_eq)
  have fds: "pr_fds p = base \<union> (\<Union>lo\<in>ran (pr_loops p). set (loop_fds lo))" using assms(2) by (simp add: pr_inv_def)
  have sub: "set (loop_fds lk) \<subseteq> pr_fds p" if "pr_loops p k = Some lk" for k lk
    using fds that by (auto simp: ran_def)
  have one: "\<forall>k lk. pr_loops p k = Some lk \<longrightarrow> set (loop_fds lo) \<inter> set (loop_fds lk) = {}" using sub lo(5) by blast
  have base: "set (loop_fds lo) \<inter> base = {}" using lo(5) fds by blast
  have curr: "\<forall>u k. pr_current p u = Some k \<longleftrightarrow> (\<exists>lo. pr_loops p k = Some lo \<and> lo_threadId lo = u)"
    using assms(2) by (simp add: pr_inv_def)
  have other: "\<forall>k lk. pr_loops p k = Some lk \<longrightarrow> lo_threadId lk \<noteq> t" using curr lo(3) by (metis option.distinct(1))
  have "\<forall>u k. pr_current p' u = Some k \<longleftrightarrow> (\<exists>lo. pr_loops p' k = Some lo \<and> lo_threadId lo = u)"
  proof (intro allI)
    fix u k
    show "pr_current p' u = Some k \<longleftrightarrow> (\<exists>lo. pr_loops p' k = Some lo \<and> lo_threadId lo = u)"
      using curr l lo(1,3,6) other by (cases "k = l"; cases "u = t") auto
  qed
  moreover have "pr_fds p' = base \<union> (\<Union>lo\<in>ran (pr_loops p'). set (loop_fds lo))"
    using fds l lo(6) by (auto simp: ran_map_upd)
  moreover have "\<forall>k lk. pr_loops p' k = Some lk \<longrightarrow> distinct (loop_fds lk) \<and> set (loop_fds lk) \<inter> base = {} \<and>
      k < pr_next p' \<and> (\<forall>j lj. pr_loops p' j = Some lj \<and> j \<noteq> k \<longrightarrow> set (loop_fds lk) \<inter> set (loop_fds lj) = {})"
    using assms(2) lo(2,4,6) one base unfolding pr_inv_def by (auto simp: less_Suc_eq)
  moreover have "\<not> pr_badClose p'" using assms(2) lo(6) by (simp add: pr_inv_def)
  ultimately show ?thesis unfolding pr_inv_def by blast
qed

lemma EventLoop_delete_fds:
  assumes "pr_loops p l = Some lo" and "set (loop_fds lo) \<subseteq> pr_fds p" and "distinct (loop_fds lo)"
  shows "EventLoop_delete t l p = Inr (p\<lparr>pr_fds := pr_fds p - set (loop_fds lo), pr_current := (pr_current p)(t := None),
    pr_loops := (pr_loops p)(l := None)\<rparr>)"
proof (cases "lo_epollfd lo")
  case None
  then show ?thesis using assms
    by (auto simp: EventLoop_delete_def close_fd_def loop_fds_def Let_def intro!: process.equality)
next
  case (Some fd)
  then show ?thesis using assms
    by (auto simp: EventLoop_delete_def close_fd_def loop_fds_def Let_def intro!: process.equality)
qed

lemma pr_inv_delete:
  assumes inv: "pr_inv base p" and l: "pr_loops p l = Some lo" and t: "t = lo_threadId lo"
  shows "\<exists>p'. EventLoop_delete t l p = Inr p' \<and> pr_inv base p' \<and> pr_loops p' = (pr_loops p)(l := None) \<and>
    pr_fds p' = pr_fds p - set (loop_fds lo)"
proof -
  have fds: "pr_fds p = base \<union> (\<Union>lo\<in>ran (pr_loops p). set (loop_fds lo))" using inv by (simp add: pr_inv_def)
  have lo: "distinct (loop_fds lo)" "set (loop_fds lo) \<inter> base = {}"
    "\<forall>k lk. pr_loops p k = Some lk \<and> k \<noteq> l \<longrightarrow> set (loop_fds lo) \<inter> set (loop_fds lk) = {}"
    using inv l unfolding pr_inv_def by blast+
  have sub: "set (loop_fds lo) \<subseteq> pr_fds p" using fds l by (auto simp: ran_def)
  let ?p = "p\<lparr>pr_fds := pr_fds p - set (loop_fds lo), pr_current := (pr_current p)(t := None),
    pr_loops := (pr_loops p)(l := None)\<rparr>"
  have ran: "ran ((pr_loops p)(l := None)) = {lk. \<exists>k. k \<noteq> l \<and> pr_loops p k = Some lk}" by (auto simp: ran_def)
  have "(\<Union>lk\<in>ran (pr_loops p). set (loop_fds lk)) - set (loop_fds lo) = (\<Union>lk\<in>ran ((pr_loops p)(l := None)). set (loop_fds lk))"
  proof -
    have "ran (pr_loops p) = insert lo (ran ((pr_loops p)(l := None)))" using l unfolding ran by (auto simp: ran_def) (metis option.inject)
    moreover have "\<forall>lk\<in>ran ((pr_loops p)(l := None)). set (loop_fds lo) \<inter> set (loop_fds lk) = {}"
      using lo(3) unfolding ran by blast
    ultimately show ?thesis by auto
  qed
  then have f: "pr_fds ?p = base \<union> (\<Union>lk\<in>ran (pr_loops ?p). set (loop_fds lk))" using fds lo(2) by auto
  have curr: "\<forall>u k. pr_current p u = Some k \<longleftrightarrow> (\<exists>lo. pr_loops p k = Some lo \<and> lo_threadId lo = u)"
    using inv by (simp add: pr_inv_def)
  have "\<forall>u k. pr_current ?p u = Some k \<longleftrightarrow> (\<exists>lo. pr_loops ?p k = Some lo \<and> lo_threadId lo = u)"
  proof (intro allI)
    fix u k
    have "pr_current p t = Some l" using curr l t by blast
    then have uniq: "\<not> (\<exists>lk. pr_loops p k = Some lk \<and> lo_threadId lk = t)" if "k \<noteq> l"
      using curr that by (metis option.inject)
    show "pr_current ?p u = Some k \<longleftrightarrow> (\<exists>lo. pr_loops ?p k = Some lo \<and> lo_threadId lo = u)"
    proof (cases "k = l")
      case True
      have "pr_current p u \<noteq> Some l" if "u \<noteq> t" using curr l t that by (metis option.inject)
      then show ?thesis using True by simp
    next
      case False
      show ?thesis using False uniq [OF False] curr [rule_format, of u k] by simp
    qed
  qed
  with f have "pr_inv base ?p" using inv unfolding pr_inv_def by auto
  then show ?thesis using EventLoop_delete_fds [OF l sub lo(1), of t] by auto
qed

text \<open>Any life of a process: threads make loops and destroy their own.\<close>

inductive loops_step :: "fd_alloc \<Rightarrow> process \<Rightarrow> process \<Rightarrow> bool" for alloc where
  LoopNew: "EventLoop_new use_poll alloc t p = Inr (l, p') \<Longrightarrow> loops_step alloc p p'"
| LoopDelete: "getEventLoopOfCurrentThread t p = Some l \<Longrightarrow> EventLoop_delete t l p = Inr p' \<Longrightarrow> loops_step alloc p p'"

definition loops_init :: "int set \<Rightarrow> process \<Rightarrow> bool" where
  "loops_init base p \<longleftrightarrow> p = \<lparr>pr_fds = base, pr_current = Map.empty, pr_loops = Map.empty, pr_next = 0, pr_badClose = False\<rparr>"

lemma pr_inv_reach:
  assumes "fresh_alloc alloc" and "reach (loops_init base) (loops_step alloc) p"
  shows "pr_inv base p"
  using assms(2)
proof (induction rule: reach.induct)
  case (reach_init p)
  then show ?case by (simp add: loops_init_def pr_inv_def)
next
  case (reach_step p p')
  from reach_step(2) show ?case
  proof (cases rule: loops_step.cases)
    case (LoopNew up t l)
    then show ?thesis using pr_inv_new [OF assms(1) reach_step.IH] by blast
  next
    case (LoopDelete t l)
    have "\<forall>t l. pr_current p t = Some l \<longleftrightarrow> (\<exists>lo. pr_loops p l = Some lo \<and> lo_threadId lo = t)"
      using reach_step.IH by (simp add: pr_inv_def)
    then obtain lo where "pr_loops p l = Some lo" "t = lo_threadId lo"
      using LoopDelete(1) unfolding getEventLoopOfCurrentThread_def by metis
    from pr_inv_delete [OF reach_step.IH this] obtain p1 where "EventLoop_delete t l p = Inr p1" "pr_inv base p1" by blast
    then show ?thesis using LoopDelete(2) by simp
  qed
qed

lemma EventLoop_new_refused:
  assumes "pr_current p t = Some l"
  shows "\<exists>e. EventLoop_new use_poll alloc t p = Inl (FatalLog e)"
  using assms by (auto simp: EventLoop_new_def newPoller_def newEPollPoller_def createTimerfd_def createEventfd_def
      open_fd_def bindE_def split: sum.splits)

text \<open>
  C14. One loop per thread: as long as threads destroy their own loops, in every sequence of creations
  and destructions a thread has at most one loop and \<open>getEventLoopOfCurrentThread\<close> gives exactly that
  one; a second loop in a thread is refused; the open descriptors are those of the existing loops, three
  or two each and none shared, so that destroying a loop closes exactly its descriptors, none twice,
  and nothing leaks.
\<close>

theorem one_loop_per_thread:
  assumes "fresh_alloc alloc" and "reach (loops_init base) (loops_step alloc) p"
  shows "(getEventLoopOfCurrentThread t p = Some l \<longleftrightarrow> (\<exists>lo. pr_loops p l = Some lo \<and> lo_threadId lo = t)) \<and>
    (getEventLoopOfCurrentThread t p = Some l \<longrightarrow> (\<exists>e. EventLoop_new use_poll alloc t p = Inl (FatalLog e)) \<and>
      loop_assertInLoopThread t l p = Inr () \<and>
      (\<exists>lo p'. pr_loops p l = Some lo \<and> EventLoop_delete t l p = Inr p' \<and> pr_fds p' = pr_fds p - set (loop_fds lo) \<and>
        \<not> pr_badClose p' \<and> getEventLoopOfCurrentThread t p' = None)) \<and>
    pr_fds p = base \<union> (\<Union>lo\<in>ran (pr_loops p). set (loop_fds lo))"
proof -
  have inv: "pr_inv base p" by (rule pr_inv_reach [OF assms])
  have cur: "getEventLoopOfCurrentThread t p = Some l \<longleftrightarrow> (\<exists>lo. pr_loops p l = Some lo \<and> lo_threadId lo = t)"
    using inv by (simp add: pr_inv_def getEventLoopOfCurrentThread_def)
  have "(\<exists>e. EventLoop_new use_poll alloc t p = Inl (FatalLog e)) \<and> loop_assertInLoopThread t l p = Inr () \<and>
      (\<exists>lo p'. pr_loops p l = Some lo \<and> EventLoop_delete t l p = Inr p' \<and> pr_fds p' = pr_fds p - set (loop_fds lo) \<and>
        \<not> pr_badClose p' \<and> getEventLoopOfCurrentThread t p' = None)"
    if has: "getEventLoopOfCurrentThread t p = Some l"
  proof -
    obtain lo where lo: "pr_loops p l = Some lo" "t = lo_threadId lo" using has cur by blast
    from pr_inv_delete [OF inv lo] obtain p' where p': "EventLoop_delete t l p = Inr p'" "pr_inv base p'"
      "pr_loops p' = (pr_loops p)(l := None)" "pr_fds p' = pr_fds p - set (loop_fds lo)" by blast
    have "getEventLoopOfCurrentThread t p' = None"
      using p'(1) lo by (auto simp: EventLoop_delete_def close_fd_def getEventLoopOfCurrentThread_def Let_def split: option.splits)
    moreover have "\<exists>e. EventLoop_new use_poll alloc t p = Inl (FatalLog e)"
      using has by (intro EventLoop_new_refused) (simp add: getEventLoopOfCurrentThread_def)
    moreover have "loop_assertInLoopThread t l p = Inr ()" using lo by (simp add: loop_assertInLoopThread_def isInLoopThread_def)
    ultimately show ?thesis using p' lo(1) by (auto simp: pr_inv_def)
  qed
  then show ?thesis using cur inv unfolding pr_inv_def by blast
qed

text \<open>A kernel with a limit of nine descriptors that gives the lowest free one.\<close>

definition small_alloc :: fd_alloc where
  "small_alloc fds = (case List.find (\<lambda>fd. fd \<notin> fds) [3, 4, 5, 6, 7, 8] of None \<Rightarrow> Inl 24 | Some fd \<Rightarrow> Inr fd)"

lemma small_alloc_fresh: "fresh_alloc small_alloc"
  unfolding fresh_alloc_def
proof (intro allI impI)
  fix fds fd assume "small_alloc fds = Inr fd"
  then show "fd \<notin> fds" by (simp add: small_alloc_def split: if_splits)
qed

definition demo_process :: process where
  "demo_process = \<lparr>pr_fds = {0, 1, 2, 3, 4, 5}, pr_current = [100 \<mapsto> 0],
     pr_loops = [0 \<mapsto> \<lparr>lo_threadId = 100, lo_epollfd = Some 3, lo_timerfd = 4, lo_wakeupFd = 5\<rparr>],
     pr_next = 1, pr_badClose = False\<rparr>"

lemma demo_process_reached: "reach (loops_init {0, 1, 2}) (loops_step small_alloc) demo_process"
proof (rule reach_step)
  let ?p = "\<lparr>pr_fds = {0, 1, 2}, pr_current = Map.empty, pr_loops = Map.empty, pr_next = 0, pr_badClose = False\<rparr>"
  show "reach (loops_init {0, 1, 2}) (loops_step small_alloc) ?p"
    by (rule reach_init) (simp add: loops_init_def)
  have "EventLoop_new False small_alloc 100 ?p = Inr (0, demo_process)"
    by (auto simp: EventLoop_new_def newPoller_def newEPollPoller_def createTimerfd_def createEventfd_def open_fd_def
        small_alloc_def Let_def demo_process_def)
  then show "loops_step small_alloc ?p demo_process" by (rule LoopNew)
qed

theorem one_loop_per_thread_witness:
  "getEventLoopOfCurrentThread 100 demo_process = Some 0 \<and>
   (\<exists>e. EventLoop_new True small_alloc 100 demo_process = Inl (FatalLog e)) \<and>
   (\<exists>p'. EventLoop_delete 100 0 demo_process = Inr p' \<and> pr_fds p' = {0, 1, 2})"
proof -
  have cur: "getEventLoopOfCurrentThread 100 demo_process = Some 0"
    by (simp add: getEventLoopOfCurrentThread_def demo_process_def)
  have fds: "pr_fds demo_process - set (loop_fds lo) = {0, 1, 2}" if "pr_loops demo_process 0 = Some lo" for lo
    using that by (auto simp: demo_process_def loop_fds_def)
  show ?thesis
    using one_loop_per_thread [OF small_alloc_fresh demo_process_reached, of 100 0 True] cur fds by metis
qed

text \<open>
  The destructor clears the pointer of the thread it runs in, not of the loop's thread: a loop destroyed in another thread than its own leaves \<open>t_loopInThisThread\<close> of its own thread
  pointing to the deleted loop: every use of that pointer is undefined, that thread can never make a loop
  again, and the destroying thread, if it has a loop, loses it: it then can make a second one.
\<close>

theorem foreign_destroy_dangles:
  assumes "pr_inv base p" and "pr_loops p l = Some lo" and "t \<noteq> lo_threadId lo"
  shows "\<exists>p'. EventLoop_delete t l p = Inr p' \<and> getEventLoopOfCurrentThread (lo_threadId lo) p' = Some l \<and>
    loop_assertInLoopThread u l p' = Inl (Undefined_Behaviour ''dangling EventLoop*'') \<and>
    (\<exists>e. EventLoop_new use_poll alloc (lo_threadId lo) p' = Inl (FatalLog e)) \<and>
    getEventLoopOfCurrentThread t p' = None \<and>
    (getEventLoopOfCurrentThread t p = Some k \<longrightarrow> isInLoopThread t k p' = Inr True)"
proof -
  have cur: "\<forall>t l. pr_current p t = Some l \<longleftrightarrow> (\<exists>lo. pr_loops p l = Some lo \<and> lo_threadId lo = t)"
    and fds: "pr_fds p = base \<union> (\<Union>lo\<in>ran (pr_loops p). set (loop_fds lo))" and dis: "distinct (loop_fds lo)"
    using assms(1,2) unfolding pr_inv_def by blast+
  have sub: "set (loop_fds lo) \<subseteq> pr_fds p" using fds assms(2) by (auto simp: ran_def)
  let ?p = "p\<lparr>pr_fds := pr_fds p - set (loop_fds lo), pr_current := (pr_current p)(t := None),
    pr_loops := (pr_loops p)(l := None)\<rparr>"
  have own: "pr_current ?p (lo_threadId lo) = Some l" using cur assms(2,3) by simp
  then have "\<exists>e. EventLoop_new use_poll alloc (lo_threadId lo) ?p = Inl (FatalLog e)" by (rule EventLoop_new_refused)
  moreover have "isInLoopThread t k ?p = Inr True" if k: "pr_current p t = Some k"
  proof -
    obtain lk where "pr_loops p k = Some lk" "lo_threadId lk = t" using cur k by blast
    moreover have "k \<noteq> l" using calculation assms(2,3) by auto
    ultimately show ?thesis by (simp add: isInLoopThread_def)
  qed
  moreover have "loop_assertInLoopThread u l ?p = Inl (Undefined_Behaviour ''dangling EventLoop*'')"
    by (simp add: loop_assertInLoopThread_def isInLoopThread_def bindE_def)
  ultimately show ?thesis using own
    by (intro exI [of _ ?p]) (simp add: EventLoop_delete_fds [OF assms(2) sub dis] getEventLoopOfCurrentThread_def)
qed

theorem foreign_destroy_dangles_witness:
  "\<exists>p'. EventLoop_delete 200 0 demo_process = Inr p' \<and> getEventLoopOfCurrentThread 100 p' = Some 0 \<and>
     (\<exists>e. EventLoop_new False small_alloc 100 p' = Inl (FatalLog e))"
proof -
  have "pr_inv {0, 1, 2} demo_process" by (rule pr_inv_reach [OF small_alloc_fresh demo_process_reached])
  moreover have "pr_loops demo_process 0 = Some \<lparr>lo_threadId = 100, lo_epollfd = Some 3, lo_timerfd = 4, lo_wakeupFd = 5\<rparr>"
    by (simp add: demo_process_def)
  ultimately show ?thesis
    using foreign_destroy_dangles [of "{0, 1, 2}" demo_process 0 _ 200 0 False small_alloc 0] by fastforce
qed

section \<open>The end of a timer queue\<close>

text \<open>\<open>~TimerQueue\<close> deletes every queued timer once: none is freed twice and none is left.\<close>

lemma delete_timers_all:
  "distinct (map snd es) \<Longrightarrow> snd ` set es \<subseteq> dom (tq_heap q) \<Longrightarrow>
   foldE (\<lambda>e. delete_timer (snd e)) es q = Inr (q\<lparr>tq_heap := tq_heap q |` (- snd ` set es)\<rparr>)"
proof (induction es arbitrary: q)
  case Nil
  then show ?case by simp
next
  case (Cons e es)
  let ?q = "q\<lparr>tq_heap := (tq_heap q)(snd e := None)\<rparr>"
  have "delete_timer (snd e) q = Inr ?q" using Cons.prems(2) by (auto simp: delete_timer_def deref_def)
  moreover have "snd ` set es \<subseteq> dom (tq_heap ?q)" using Cons.prems by (auto simp: image_iff)
  moreover have "(tq_heap q)(snd e := None) |` (- snd ` set es) = tq_heap q |` (- snd ` set (e # es))"
    by (auto simp: restrict_map_def)
  ultimately show ?case using Cons.IH [of ?q] Cons.prems(1) by (simp del: restrict_fun_upd add: fun_upd_def)
qed

lemma TimerQueue_delete_all:
  assumes "tq_inv E q"
  shows "\<exists>q'. TimerQueue_delete q = Inr q' \<and> dom (tq_heap q') = dom (tq_heap q) - snd ` set (tq_timers q)"
proof -
  have "snd ` set (tq_timers q) \<subseteq> dom (tq_heap q)" using tq_invD(4) [OF assms] by force
  then show ?thesis using delete_timers_all [OF tq_invD(2) [OF assms]]
    by (auto simp: TimerQueue_delete_def restrict_map_def dom_def split: if_splits)
qed

end
