(* ===== verification/Tcp_Events.thy ===== *)
theory Tcp_Events
  imports Tcp_Connection
begin

text \<open>
  What the owner of a connection (\<open>TcpServer\<close> or \<open>TcpClient\<close>) sees of it: the events its loop
  delivers, and when its close callback is called. An event runs one of the operations of
  \<open>Tcp_Connection\<close>; the close callback is the owner's, so an event that logged \<open>CbClose\<close> is
  followed by the owner's reaction.
\<close>

datatype conn_event =
    EvRead "nat + string"
  | EvWrite
  | EvClose
  | EvFunctor
  | EvSend bool string
  | EvShutdown bool

fun run_event :: "kernel_write \<Rightarrow> user \<Rightarrow> conn_event \<Rightarrow> tconn \<Rightarrow> tconn result" where
  "run_event kw user (EvRead r) c = handleRead kw user r c"
| "run_event kw user EvWrite c = handleWrite kw c"
| "run_event kw user EvClose c = handleClose kw user c"
| "run_event kw user EvFunctor c = doPending kw c"
| "run_event kw user (EvSend inLoop s) c = send kw inLoop s c"
| "run_event kw user (EvShutdown inLoop) c = Inr (shutdown inLoop c)"

text \<open>Which events can arrive: the poller reports only what a registered channel asked for.\<close>

fun event_ok :: "conn_event \<Rightarrow> tconn \<Rightarrow> bool" where
  "event_ok (EvRead r) c \<longleftrightarrow> \<not> isNoneEvent (t_channel c) \<and> read_ok r c"
| "event_ok EvWrite c \<longleftrightarrow> writing c"
| "event_ok EvClose c \<longleftrightarrow> \<not> isNoneEvent (t_channel c)"
| "event_ok EvFunctor c \<longleftrightarrow> True"
| "event_ok (EvSend inLoop s) c \<longleftrightarrow> str_ok s"
| "event_ok (EvShutdown inLoop) c \<longleftrightarrow> True"

definition closes :: "tconn \<Rightarrow> nat" where
  "closes c = count_list (t_calls c) CbClose"

lemma run_event_step:
  assumes "event_ok ev c" and "run_event kw user ev c = Inr c'"
  shows "conn_step kw user c c'"
  using assms by (cases ev) (auto intro: conn_step.intros)

lemma newConn_phase [simp]:
  "t_state (newConn cid fd wc hwm) = kConnecting" "t_cid (newConn cid fd wc hwm) = cid"
  "closes (newConn cid fd wc hwm) = 0" "\<not> removed (newConn cid fd wc hwm)"
  by (simp_all add: newConn_def closes_def removed_def)

text \<open>Operations that neither call the close callback nor end the connection.\<close>

definition quiet :: "tconn \<Rightarrow> tconn \<Rightarrow> bool" where
  "quiet c c' \<longleftrightarrow> closes c' = closes c \<and> (t_state c' = kDisconnected \<longleftrightarrow> t_state c = kDisconnected) \<and>
     (t_state c' = kConnecting \<longleftrightarrow> t_state c = kConnecting) \<and> removed c' = removed c"

lemma quiet_refl [simp]: "quiet c c"
  by (simp add: quiet_def)

lemma quiet_trans: "quiet a b \<Longrightarrow> quiet b c \<Longrightarrow> quiet a c"
  by (simp add: quiet_def)

lemma quiet_eqI:
  assumes "t_calls c' = t_calls c" and "t_state c' = t_state c" and "t_poller c' = t_poller c" and "t_cid c' = t_cid c"
  shows "quiet c c'"
  using assms by (simp add: quiet_def closes_def removed_def)

lemma quiet_chan_set [simp]: "quiet c (chan_set op d) \<longleftrightarrow> quiet c d"
  by (simp add: quiet_def closes_def)

lemma quiet_queue [simp]: "quiet c (queue_functor f d) \<longleftrightarrow> quiet c d"
  by (simp add: quiet_def closes_def queue_functor_def removed_def)

text \<open>Updates of the other fields are quiet.\<close>

lemma quiet_updates [simp]:
  "quiet c (d\<lparr>t_out := b\<rparr>) \<longleftrightarrow> quiet c d" "quiet c (d\<lparr>t_in := b\<rparr>) \<longleftrightarrow> quiet c d"
  "quiet c (d\<lparr>t_accepted := x\<rparr>) \<longleftrightarrow> quiet c d" "quiet c (d\<lparr>t_sent := x\<rparr>) \<longleftrightarrow> quiet c d"
  "quiet c (d\<lparr>t_writes := n\<rparr>) \<longleftrightarrow> quiet c d" "quiet c (d\<lparr>t_pending := fs\<rparr>) \<longleftrightarrow> quiet c d"
  "quiet c (d\<lparr>t_fin := z\<rparr>) \<longleftrightarrow> quiet c d" "quiet c (d\<lparr>t_channel := ch\<rparr>) \<longleftrightarrow> quiet c d"
  by (simp_all add: quiet_def closes_def removed_def)

lemma direct_write_quiet:
  assumes "direct_write kw data c = (c', rest)"
  shows "quiet c c'"
  using assms by (auto simp: direct_write_def Let_def split: if_splits write_result.splits)

lemma sendInLoop_quiet:
  assumes "sendInLoop kw data c = Inr c'"
  shows "quiet c c'"
proof (cases "t_state c = kDisconnected")
  case True
  then show ?thesis using assms by (simp add: sendInLoop_def)
next
  case False
  obtain c1 nwrote remaining err where d: "direct_write kw data c = (c1, nwrote, remaining, err)"
    by (cases "direct_write kw data c") auto
  have "quiet c c1" by (rule direct_write_quiet [OF d])
  then show ?thesis using assms False by (auto simp: sendInLoop_def d Let_def split: if_splits)
qed

lemma send_quiet: "send kw inLoop data c = Inr c' \<Longrightarrow> quiet c c'"
  by (auto simp: send_def intro: sendInLoop_quiet split: if_splits)

lemma shutdown_quiet [simp]: "quiet c (shutdownInLoop c)" "quiet c (shutdown inLoop c)"
  by (auto simp: shutdown_def shutdownInLoop_def quiet_def closes_def removed_def Let_def queue_functor_def)

lemma run_action_quiet: "run_action kw a c = Inr c' \<Longrightarrow> quiet c c'"
  by (cases a) (auto intro: send_quiet)

lemma run_actions_quiet: "foldE (run_action kw) as c = Inr c' \<Longrightarrow> quiet c c'"
proof (induction as arbitrary: c)
  case (Cons a as)
  then show ?case by (auto intro: quiet_trans run_action_quiet)
qed simp

lemma callback_quiet:
  assumes "callback kw user ev c = Inr c'" and "ev \<noteq> CbClose"
  shows "quiet c c'"
proof -
  have "quiet c (c\<lparr>t_calls := t_calls c @ [ev]\<rparr>)" using assms(2) by (simp add: quiet_def closes_def removed_def)
  then show ?thesis using assms(1) by (auto simp: callback_def intro: quiet_trans run_actions_quiet)
qed

lemma handleWrite_quiet: "handleWrite kw c = Inr c' \<Longrightarrow> quiet c c'"
proof -
  assume run: "handleWrite kw c = Inr c'"
  have s: "quiet c d \<Longrightarrow> quiet c (shutdownInLoop d)" for d by (rule quiet_trans [OF _ shutdown_quiet(1)])
  show ?thesis using run
    by (auto simp: handleWrite_def Let_def intro!: s split: if_splits write_result.splits)
qed

lemma doPending_quiet:
  assumes "doPending kw c = Inr c'"
  shows "quiet c c'"
proof (cases "t_pending c")
  case (Cons f fs)
  have "quiet (c\<lparr>t_pending := fs\<rparr>) c'" using assms Cons
    by (cases f) (auto simp: doPending_def intro: sendInLoop_quiet)
  then show ?thesis by (rule quiet_trans [rotated]) simp
qed (use assms in \<open>simp add: doPending_def\<close>)

text \<open>
  Closing: the only operation that calls the close callback, once, and ends the connection.
\<close>

definition ends :: "tconn \<Rightarrow> tconn \<Rightarrow> bool" where
  "ends c c' \<longleftrightarrow> is_open c \<and> t_state c' = kDisconnected \<and> closes c' = Suc (closes c) \<and> removed c' = removed c"

lemma handleClose_ends:
  assumes "handleClose kw user c = Inr c'"
  shows "ends c c'"
proof -
  let ?c1 = "chan_set DisableAll (c\<lparr>t_state := kDisconnected\<rparr>)"
  from assms obtain c2 where op: "is_open c" and cb: "callback kw user (CbConnection (t_state ?c1)) ?c1 = Inr c2"
    and c': "c' = c2\<lparr>t_calls := t_calls c2 @ [CbClose]\<rparr>"
    by (auto simp: handleClose_def Let_def)
  have "quiet ?c1 c2" by (rule callback_quiet [OF cb]) simp
  moreover have "removed (c\<lparr>t_state := kDisconnected\<rparr>) = removed c" by (simp add: removed_def)
  ultimately show ?thesis using op
    by (simp add: ends_def quiet_def closes_def c' chan_set_def removed_def)
qed

text \<open>
  Every event is quiet or ends the connection; so the close callback is called at most once in a
  connection's life, and its owner learns of the end exactly when the state becomes
  \<open>kDisconnected\<close>.
\<close>

lemma run_event_cases:
  assumes "run_event kw user ev c = Inr c'"
  shows "quiet c c' \<or> ends c c'"
proof (cases ev)
  case (EvRead r)
  from assms EvRead obtain n e b where r: "readFd r (t_in c) = Inr (n, e, b)"
    and d: "(if 0 < n then callback kw user CbMessage (c\<lparr>t_in := b\<rparr>)
      else if n = 0 then handleClose kw user (c\<lparr>t_in := b\<rparr>) else Inr (handleError (c\<lparr>t_in := b\<rparr>))) = Inr c'"
    by (auto simp: handleRead_def Let_def)
  have "quiet (c\<lparr>t_in := b\<rparr>) c' \<or> ends (c\<lparr>t_in := b\<rparr>) c'"
    using d callback_quiet handleClose_ends by (auto simp: handleError_def split: if_splits)
  then show ?thesis by (simp add: quiet_def ends_def closes_def removed_def)
qed (use assms handleClose_ends in \<open>auto intro: handleWrite_quiet doPending_quiet send_quiet\<close>)

lemma connectEstablished_phase:
  assumes "connectEstablished kw user c = Inr c'"
  shows "t_state c = kConnecting \<and> is_open c' \<and> closes c' = closes c \<and> removed c' = removed c"
proof -
  let ?c3 = "chan_set EnableReading (c\<lparr>t_state := kConnected, t_channel := tie (t_channel c)\<rparr>)"
  from assms have st: "t_state c = kConnecting"
    and cb: "callback kw user (CbConnection (t_state ?c3)) ?c3 = Inr c'"
    by (auto simp: connectEstablished_def Let_def)
  have "quiet ?c3 c'" by (rule callback_quiet [OF cb]) simp
  then show ?thesis using st by (cases "t_state c'") (auto simp: quiet_def closes_def chan_set_def removed_def)
qed

lemma connectDestroyed_disconnected:
  assumes "conn_ok c" and "t_state c = kDisconnected"
  obtains c' where "connectDestroyed kw user c = Inr c'" "t_state c' = kDisconnected"
    "closes c' = closes c" "removed c'" "t_cid c' = t_cid c"
proof -
  have "isNoneEvent (t_channel c)" using conn_okD(6) [OF assms(1)] assms(2) by simp
  then show ?thesis using assms(2) that
    by (simp add: connectDestroyed_def chan_remove_def closes_def removed_def)
qed

section \<open>Sending on an open connection\<close>

text \<open>While the peer reads, no write fails with a broken pipe, and all data is taken charge of.\<close>

definition no_epipe :: "kernel_write \<Rightarrow> bool" where
  "no_epipe kw \<longleftrightarrow> (\<forall>t len. kw False t len \<noteq> WriteErr EPIPE)"

lemma sendInLoop_takes:
  assumes kw: "write_ok kw" "no_epipe kw" and inv: "conn_ok c" and st: "t_state c = kConnected"
    and room: "writerIndex (t_out c) + length data \<le> vector_max"
  shows "\<exists>c'. sendInLoop kw data c = Inr c' \<and> conn_ok c' \<and> t_state c' = kConnected \<and>
    t_accepted c' = t_accepted c @ data \<and> t_in c' = t_in c \<and>
    writerIndex (t_out c') \<le> writerIndex (t_out c) + length data"
proof -
  have op: "is_open c" using st by simp
  have fin: "\<not> t_fin c" using conn_okD(6) [OF inv] st by simp
  obtain c1 n rem err where d: "direct_write kw data c = (c1, n, rem, err)" by (cases "direct_write kw data c") auto
  from direct_write_spec [OF kw(1) inv op d] obtain ps w where
    n: "n \<le> length data" "rem = length data - n"
    and c1: "c1 = c\<lparr>t_sent := t_sent c @ take n data, t_pending := t_pending c @ ps, t_writes := w\<rparr>" by blast
  have err: "\<not> err" using d kw(2) fin by (auto simp: direct_write_def no_epipe_def Let_def split: if_splits write_result.splits)
  have "buf_room (t_out c) (length (drop n data))" using room by (simp add: buf_room_def)
  from appendBuf_ok [OF conn_okD(2) [OF inv] this] obtain b where
    b: "appendBuf (drop n data) (t_out c) = Inr b" "writerIndex b \<le> writerIndex (t_out c) + length (drop n data)" by blast
  have "\<exists>c'. sendInLoop kw data c = Inr c' \<and> t_accepted c' = t_accepted c @ data \<and> t_in c' = t_in c \<and>
      writerIndex (t_out c') \<le> writerIndex (t_out c) + length data"
    using d st err n b by (auto simp: sendInLoop_def c1 Let_def queue_functor_def chan_set_def)
  moreover have "str_ok data" using room by (simp add: str_ok_def)
  ultimately show ?thesis using sendInLoop_ok [OF kw(1) inv, of data] st by fastforce
qed

text \<open>An open connection whose output buffer has room for \<open>n\<close> more bytes.\<close>

definition open_conn :: "nat \<Rightarrow> tconn \<Rightarrow> bool" where
  "open_conn n c \<longleftrightarrow> conn_ok c \<and> t_state c = kConnected \<and> writerIndex (t_out c) + n \<le> vector_max"

text \<open>A connection that was just established.\<close>

lemma established_open:
  assumes kw: "write_ok kw" and room: "kCheapPrepend + n \<le> vector_max"
  shows "\<exists>c. connectEstablished kw (\<lambda>_ _. []) (newConn cid fd wc hwm) = Inr c \<and> open_conn n c \<and> t_accepted c = [] \<and>
    t_in c = newBuffer"
proof -
  let ?c = "newConn cid fd wc hwm"
  have u: "user_ok (\<lambda>_ _. [])" by (simp add: user_ok_def)
  obtain c where c: "connectEstablished kw (\<lambda>_ _. []) ?c = Inr c" "t_state c = kConnected" "t_out c = newBuffer"
    "t_accepted c = []" "t_in c = newBuffer"
    by (auto simp: connectEstablished_def callback_def newConn_def Let_def)
  have "reach conn_init (conn_step kw (\<lambda>_ _. [])) ?c" by (rule reach_init) (auto simp: conn_init_def)
  then have "reach conn_init (conn_step kw (\<lambda>_ _. [])) c" by (rule reach_step) (rule established [OF c(1)])
  from reach_conn_ok [OF kw u this] show ?thesis
    using c room by (intro exI [of _ c]) (simp add: open_conn_def newBuffer_def)
qed

lemma demo_open: "\<exists>c. open_conn 1000 c \<and> t_accepted c = [] \<and> t_in c = newBuffer"
  using established_open [OF demo_write_ok, of 1000 1 7 False False] by (auto simp: kCheapPrepend_def vector_max_def)

end
