(* ===== verification/Std_Map.thy ===== *)
theory Std_Map
  imports Prelude "HOL-Library.Char_ord" "HOL-Library.List_Lexorder"
begin

text \<open>
  \<open>std::map\<close>: key and value pairs in ascending key order, one per key. Iteration is list
  iteration; \<open>m[k] = v\<close> is \<open>map_put\<close>, \<open>find\<close> is \<open>map_of\<close> and \<open>erase(k)\<close> is \<open>map_erase\<close>.
\<close>

type_synonym ('k, 'v) std_map = "('k \<times> 'v) list"

definition map_valid :: "('k :: linorder, 'v) std_map \<Rightarrow> bool" where
  "map_valid m \<longleftrightarrow> sorted (map fst m) \<and> distinct (map fst m)"

definition map_erase :: "'k \<Rightarrow> ('k, 'v) std_map \<Rightarrow> ('k, 'v) std_map" where
  "map_erase k m = filter (\<lambda>p. fst p \<noteq> k) m"

definition map_put :: "'k :: linorder \<Rightarrow> 'v \<Rightarrow> ('k, 'v) std_map \<Rightarrow> ('k, 'v) std_map" where
  "map_put k v m = insort_key fst (k, v) (map_erase k m)"

text \<open>The number of elements with the key, as \<open>erase\<close> returns it.\<close>

definition map_count :: "'k \<Rightarrow> ('k, 'v) std_map \<Rightarrow> nat" where
  "map_count k m = length (filter (\<lambda>p. fst p = k) m)"

lemma map_valid_Nil [simp]: "map_valid []"
  by (simp add: map_valid_def)

lemma map_valid_erase [simp]: "map_valid m \<Longrightarrow> map_valid (map_erase k m)"
  by (auto simp: map_valid_def map_erase_def sorted_filter distinct_map inj_on_def)

lemma map_fst_insort: "map fst (insort_key fst p m) = insort (fst p) (map fst m)"
  by (induction m) auto

lemma map_erase_keys: "k \<notin> set (map fst (map_erase k m))"
  by (auto simp: map_erase_def)

lemma map_valid_put [simp]: "map_valid m \<Longrightarrow> map_valid (map_put k v m)"
  using map_valid_erase [of m k] map_erase_keys [of k m]
  by (simp add: map_valid_def map_put_def map_fst_insort sorted_insort distinct_insort)

lemma map_of_insort: "fst p \<notin> fst ` set m \<Longrightarrow> map_of (insort_key fst p m) = (map_of m)(fst p \<mapsto> snd p)"
  by (induction m) (auto simp: fun_eq_iff)

lemma map_of_erase [simp]: "map_of (map_erase k m) = (map_of m)(k := None)"
  by (induction m) (auto simp: map_erase_def fun_eq_iff)

lemma map_of_put [simp]: "map_of (map_put k v m) = (map_of m)(k \<mapsto> v)"
  using map_erase_keys [of k m] by (simp add: map_put_def map_of_insort)

lemma map_count_valid:
  assumes "map_valid m"
  shows "map_count k m = (if map_of m k = None then 0 else 1)"
proof -
  have "distinct (map fst m)" using assms by (simp add: map_valid_def)
  then show ?thesis
    by (induction m) (auto simp: map_count_def filter_empty_conv map_of_eq_None_iff image_iff)
qed

end
