(* ===== verification/Tcp_Server.thy ===== *)
theory Tcp_Server
  imports Tcp_Events Event_Loop Decimal Std_Map
begin

text \<open>
  \<open>src/muduo/net/Acceptor.cc\<close> and \<open>TcpServer.cc\<close>: accepting connections, giving each one a name and
  an I/O loop, and taking it apart second through three queued functors.

  A loop is a number; the server's own loop is \<open>tp_baseLoop\<close> of its pool. \<open>sv_queue\<close> holds, for each
  loop, the functors \<open>queueInLoop\<close> put there and that have not run; \<open>runInLoop\<close> runs at once when the
  caller is in that loop's thread. \<open>sv_objs\<close> is the store of connection objects (shared pointers
  keep an object alive as long as a functor or the map refers to it; the model never frees one).
\<close>

section \<open>The acceptor\<close>

text \<open>
  \<open>ac_closed\<close> lists the descriptors closed so far, \<open>ac_handed\<close> those given to the callback; \<open>-1\<close> in
  \<open>ac_idleFd\<close> stands for a failed \<open>open\<close> or \<open>accept\<close>.
\<close>

record acceptor =
  ac_fd :: int
  ac_listenning :: bool
  ac_reading :: bool
  ac_idleFd :: int
  ac_callback :: bool
  ac_closed :: "int list"
  ac_handed :: "int list"

definition ac_close :: "int \<Rightarrow> acceptor \<Rightarrow> acceptor" where
  "ac_close fd a = (if fd < 0 then a else a\<lparr>ac_closed := ac_closed a @ [fd]\<rparr>)"

definition newAcceptor :: "errno + int \<Rightarrow> int \<Rightarrow> errno + unit \<Rightarrow> acceptor result" where
  "newAcceptor sock idle bindRes =
     bindE (createNonblockingOrDie sock) (\<lambda>fd.
     bindE (assertE (0 \<le> idle) ''idleFd_ >= 0'') (\<lambda>_.
     bindE (bindOrDie bindRes) (\<lambda>_.
     Inr \<lparr>ac_fd = fd, ac_listenning = False, ac_reading = False, ac_idleFd = idle, ac_callback = False,
          ac_closed = [], ac_handed = []\<rparr>)))"

definition Acceptor_listen :: "errno + unit \<Rightarrow> acceptor \<Rightarrow> acceptor result" where
  "Acceptor_listen listenRes a =
     (let a' = a\<lparr>ac_listenning := True\<rparr> in
      bindE (listenOrDie listenRes) (\<lambda>_. Inr (a'\<lparr>ac_reading := True\<rparr>)))"

text \<open>
  \<open>handleRead\<close>: the first \<open>accept\<close>; when the process is out of descriptors, the spare one is given
  up, the waiting connection accepted (\<open>second\<close>) and closed at once, and a new spare opened. The
  second component is the connection handed to the callback.
\<close>

definition Acceptor_handleRead ::
  "errno + int \<Rightarrow> sockaddr_in \<Rightarrow> errno + int \<Rightarrow> errno + int \<Rightarrow> acceptor
     \<Rightarrow> (acceptor \<times> (int \<times> sockaddr_in) option) result" where
  "Acceptor_handleRead r addr second spare a =
     bindE (Socket_accept r addr (InetAddress_any 0)) (\<lambda>(connfd, peerAddr).
     case connfd of
       Inr fd \<Rightarrow>
         Inr (if ac_callback a then (a\<lparr>ac_handed := ac_handed a @ [fd]\<rparr>, Some (fd, peerAddr))
              else (ac_close fd a, None))
     | Inl e \<Rightarrow>
         Inr (if e = EMFILE then
                let a1 = ac_close (ac_idleFd a) a;
                    a2 = a1\<lparr>ac_idleFd := (case second of Inr fd \<Rightarrow> fd | Inl _ \<Rightarrow> -1)\<rparr>;
                    a3 = ac_close (ac_idleFd a2) a2
                in (a3\<lparr>ac_idleFd := (case spare of Inr fd \<Rightarrow> fd | Inl _ \<Rightarrow> -1)\<rparr>, None)
              else (a, None)))"

definition Acceptor_dtor :: "acceptor \<Rightarrow> acceptor" where
  "Acceptor_dtor a = ac_close (ac_idleFd a) (a\<lparr>ac_reading := False\<rparr>)"

section \<open>State of the server\<close>

record sconn =
  sc_name :: string
  sc_loop :: nat
  sc_conn :: tconn

datatype sv_functor = FListen | FEstablished nat | FRemove nat | FDestroyed nat

record tserver =
  sv_hostport :: string
  sv_name :: string
  sv_acceptor :: acceptor
  sv_pool :: elpool
  sv_writeComplete :: bool
  sv_started :: bool
  sv_nextConnId :: nat
  sv_connections :: "(string, nat) std_map"
  sv_objs :: "nat \<rightharpoonup> sconn"
  sv_queue :: "nat \<Rightarrow> sv_functor list"

abbreviation sv_base :: "tserver \<Rightarrow> nat" where
  "sv_base s \<equiv> tp_baseLoop (sv_pool s)"

definition newTcpServer :: "nat \<Rightarrow> sockaddr_in \<Rightarrow> string \<Rightarrow> acceptor \<Rightarrow> tserver result" where
  "newTcpServer loop listenAddr nameArg acc =
     bindE (InetAddress_toIpPort listenAddr) (\<lambda>hostport.
     Inr \<lparr>sv_hostport = hostport, sv_name = nameArg, sv_acceptor = acc\<lparr>ac_callback := True\<rparr>,
      sv_pool = newEventLoopThreadPool loop, sv_writeComplete = False, sv_started = False, sv_nextConnId = 1,
      sv_connections = [], sv_objs = Map.empty, sv_queue = (\<lambda>_. [])\<rparr>)"

definition setThreadNum :: "int \<Rightarrow> tserver \<Rightarrow> tserver result" where
  "setThreadNum numThreads s =
     bindE (assertE (0 \<le> numThreads) ''0 <= numThreads'') (\<lambda>_.
     Inr (s\<lparr>sv_pool := (sv_pool s)\<lparr>tp_numThreads := nat numThreads\<rparr>\<rparr>))"

definition queue_on :: "nat \<Rightarrow> sv_functor \<Rightarrow> tserver \<Rightarrow> tserver" where
  "queue_on l f s = s\<lparr>sv_queue := (sv_queue s)(l := sv_queue s l @ [f])\<rparr>"

definition sv_listen :: "errno + unit \<Rightarrow> tserver \<Rightarrow> tserver result" where
  "sv_listen listenRes s =
     bindE (Acceptor_listen listenRes (sv_acceptor s)) (\<lambda>a. Inr (s\<lparr>sv_acceptor := a\<rparr>))"

text \<open>\<open>start\<close>; \<open>inLoop\<close> says whether the caller is the thread of the server's loop.\<close>

definition TcpServer_start :: "bool \<Rightarrow> (nat \<Rightarrow> nat) \<Rightarrow> bool \<Rightarrow> errno + unit \<Rightarrow> tserver \<Rightarrow> tserver result" where
  "TcpServer_start inLoop new cb listenRes s =
     bindE (if \<not> sv_started s
            then bindE (TP_start inLoop new cb (sv_pool s)) (\<lambda>(p, _). Inr (s\<lparr>sv_started := True, sv_pool := p\<rparr>))
            else Inr s) (\<lambda>s'.
     if \<not> ac_listenning (sv_acceptor s')
     then if inLoop then sv_listen listenRes s' else Inr (queue_on (sv_base s') FListen s')
     else Inr s')"

section \<open>Connections\<close>

text \<open>The name: \<open>snprintf\<close> into 32 bytes, so at most 31 characters after the server's name.\<close>

definition server_conn_name :: "string \<Rightarrow> string \<Rightarrow> nat \<Rightarrow> string" where
  "server_conn_name name hostport n = name @ snprintf 32 ('':'' @ hostport @ ''#'' @ dec n)"

definition put_conn :: "nat \<Rightarrow> tconn \<Rightarrow> sconn \<Rightarrow> tserver \<Rightarrow> tserver" where
  "put_conn cid c o1 s = s\<lparr>sv_objs := (sv_objs s)(cid \<mapsto> o1\<lparr>sc_conn := c\<rparr>)\<rparr>"

text \<open>Running an operation of a connection object of the store.\<close>

definition on_conn :: "(tconn \<Rightarrow> tconn result) \<Rightarrow> nat \<Rightarrow> tserver \<Rightarrow> tserver result" where
  "on_conn f cid s = (case sv_objs s cid of
     None \<Rightarrow> Inl (Undefined_Behaviour ''dangling connection'')
   | Some o1 \<Rightarrow> bindE (f (sc_conn o1)) (\<lambda>c. Inr (put_conn cid c o1 s)))"

definition sv_newConnection :: "kernel_write \<Rightarrow> user \<Rightarrow> int \<Rightarrow> tserver \<Rightarrow> tserver result" where
  "sv_newConnection kw user sockfd s =
     bindE (getNextLoop True (sv_pool s)) (\<lambda>(ioLoop, pool).
     let cid = sv_nextConnId s;
         connName = server_conn_name (sv_name s) (sv_hostport s) cid in
     if cid = 2 ^ 31 - 1 then Inl (Undefined_Behaviour ''signed overflow of nextConnId_'') else
     let s' = s\<lparr>sv_pool := pool, sv_nextConnId := cid + 1,
                sv_objs := (sv_objs s)(cid \<mapsto> \<lparr>sc_name = connName, sc_loop = ioLoop,
                   sc_conn = newConn cid sockfd (sv_writeComplete s) False\<rparr>),
                sv_connections := map_put connName cid (sv_connections s)\<rparr> in
     if ioLoop = sv_base s' then on_conn (connectEstablished kw user) cid s'
     else Inr (queue_on ioLoop (FEstablished cid) s'))"

definition removeConnectionInLoop :: "nat \<Rightarrow> tserver \<Rightarrow> tserver result" where
  "removeConnectionInLoop cid s = (case sv_objs s cid of
     None \<Rightarrow> Inl (Undefined_Behaviour ''dangling connection'')
   | Some o1 \<Rightarrow>
       let n = map_count (sc_name o1) (sv_connections s);
           s' = s\<lparr>sv_connections := map_erase (sc_name o1) (sv_connections s)\<rparr> in
       bindE (assertE (n = 1) ''n == 1'') (\<lambda>_.
       Inr (queue_on (sc_loop o1) (FDestroyed cid) s')))"

text \<open>\<open>removeConnection\<close>, the close callback, is called in the thread of the connection's loop.\<close>

definition removeConnection :: "nat \<Rightarrow> tserver \<Rightarrow> tserver result" where
  "removeConnection cid s = (case sv_objs s cid of
     None \<Rightarrow> Inl (Undefined_Behaviour ''dangling connection'')
   | Some o1 \<Rightarrow> if sc_loop o1 = sv_base s then removeConnectionInLoop cid s
               else Inr (queue_on (sv_base s) (FRemove cid) s))"

text \<open>An event on a connection, followed by the server's close callback when it was called.\<close>

definition sv_event :: "kernel_write \<Rightarrow> user \<Rightarrow> nat \<Rightarrow> conn_event \<Rightarrow> tserver \<Rightarrow> tserver result" where
  "sv_event kw user cid ev s = (case sv_objs s cid of
     None \<Rightarrow> Inl (Undefined_Behaviour ''dangling connection'')
   | Some o1 \<Rightarrow>
       bindE (run_event kw user ev (sc_conn o1)) (\<lambda>c.
       let s' = put_conn cid c o1 s in
       if closes (sc_conn o1) < closes c then removeConnection cid s' else Inr s'))"

fun run_sv_functor :: "kernel_write \<Rightarrow> user \<Rightarrow> errno + unit \<Rightarrow> sv_functor \<Rightarrow> tserver \<Rightarrow> tserver result" where
  "run_sv_functor kw user listenRes FListen s = sv_listen listenRes s"
| "run_sv_functor kw user listenRes (FEstablished cid) s = on_conn (connectEstablished kw user) cid s"
| "run_sv_functor kw user listenRes (FRemove cid) s = removeConnectionInLoop cid s"
| "run_sv_functor kw user listenRes (FDestroyed cid) s = on_conn (connectDestroyed kw user) cid s"

definition sv_pop :: "nat \<Rightarrow> tserver \<Rightarrow> tserver" where
  "sv_pop l s = s\<lparr>sv_queue := (sv_queue s)(l := tl (sv_queue s l))\<rparr>"

definition sv_run :: "kernel_write \<Rightarrow> user \<Rightarrow> errno + unit \<Rightarrow> nat \<Rightarrow> tserver \<Rightarrow> tserver result" where
  "sv_run kw user listenRes l s = (case sv_queue s l of
     [] \<Rightarrow> Inr s | f # fs \<Rightarrow> run_sv_functor kw user listenRes f (sv_pop l s))"

text \<open>The destructor of the server: \<open>connectDestroyed\<close> for every connection left, in map order.\<close>

definition sv_destroy1 :: "kernel_write \<Rightarrow> user \<Rightarrow> string \<times> nat \<Rightarrow> tserver \<Rightarrow> tserver result" where
  "sv_destroy1 kw user p s = (case sv_objs s (snd p) of
     None \<Rightarrow> Inl (Undefined_Behaviour ''dangling connection'')
   | Some o1 \<Rightarrow> if sc_loop o1 = sv_base s then on_conn (connectDestroyed kw user) (snd p) s
               else Inr (queue_on (sc_loop o1) (FDestroyed (snd p)) s))"

definition TcpServer_dtor :: "kernel_write \<Rightarrow> user \<Rightarrow> tserver \<Rightarrow> tserver result" where
  "TcpServer_dtor kw user s =
     bindE (foldE (sv_destroy1 kw user) (sv_connections s) s) (\<lambda>s'.
     Inr (s'\<lparr>sv_connections := [], sv_acceptor := Acceptor_dtor (sv_acceptor s')\<rparr>))"

section \<open>The life of a server\<close>

definition sv_init :: "tserver \<Rightarrow> bool" where
  "sv_init s \<longleftrightarrow> (\<exists>loop addr name acc. newTcpServer loop addr name acc = Inr s)"

text \<open>
  One step of a living server: a call that returned normally. The destructor is not a step: it ends
  the server, and functors queued before or by it run without it. What it does in a state that the
  steps reach is told by \<open>TcpServer_dtor\<close>, on every path, and proved below.
\<close>

inductive sv_step :: "kernel_write \<Rightarrow> user \<Rightarrow> tserver \<Rightarrow> tserver \<Rightarrow> bool" for kw user where
  threads: "\<not> sv_started s \<Longrightarrow> setThreadNum n s = Inr s' \<Longrightarrow> sv_step kw user s s'"
| starts: "TcpServer_start inLoop new cb listenRes s = Inr s' \<Longrightarrow> sv_step kw user s s'"
| accepts: "sv_newConnection kw user fd s = Inr s' \<Longrightarrow> sv_step kw user s s'"
| events: "sv_objs s cid = Some o1 \<Longrightarrow> event_ok ev (sc_conn o1) \<Longrightarrow> sv_event kw user cid ev s = Inr s' \<Longrightarrow>
    sv_step kw user s s'"
| runs: "sv_run kw user listenRes l s = Inr s' \<Longrightarrow> sv_step kw user s s'"

text \<open>
  The phases of a connection, told by its state, by how often the three functors are queued (\<open>e\<close>
  establish, \<open>r\<close> remove, \<open>d\<close> destroy) and by whether the map has it (\<open>m\<close>): waiting to be established;
  open; closed and waiting for removal; removed and waiting to be destroyed; destroyed.
\<close>

definition sv_phase :: "nat \<Rightarrow> nat \<Rightarrow> nat \<Rightarrow> bool \<Rightarrow> tconn \<Rightarrow> bool" where
  "sv_phase e r d m c \<longleftrightarrow>
     (t_state c = kConnecting \<and> e = 1 \<and> r = 0 \<and> d = 0 \<and> m \<and> closes c = 0 \<and> \<not> removed c) \<or>
     (is_open c \<and> e = 0 \<and> r = 0 \<and> d = 0 \<and> m \<and> closes c = 0 \<and> \<not> removed c) \<or>
     (t_state c = kDisconnected \<and> e = 0 \<and> closes c = 1 \<and>
       (r = 1 \<and> d = 0 \<and> m \<and> \<not> removed c \<or> r = 0 \<and> d = 1 \<and> \<not> m \<and> \<not> removed c \<or>
        r = 0 \<and> d = 0 \<and> \<not> m \<and> removed c))"

definition obj_phase :: "tserver \<Rightarrow> nat \<Rightarrow> sconn \<Rightarrow> bool" where
  "obj_phase s cid o1 \<longleftrightarrow> sv_phase (count_list (sv_queue s (sc_loop o1)) (FEstablished cid))
     (count_list (sv_queue s (sv_base s)) (FRemove cid)) (count_list (sv_queue s (sc_loop o1)) (FDestroyed cid))
     (map_of (sv_connections s) (sc_name o1) = Some cid) (sc_conn o1)"

definition obj_ok :: "tserver \<Rightarrow> nat \<Rightarrow> sconn \<Rightarrow> bool" where
  "obj_ok s cid o1 \<longleftrightarrow> cid < sv_nextConnId s \<and> t_cid (sc_conn o1) = cid \<and>
     sc_name o1 = server_conn_name (sv_name s) (sv_hostport s) cid \<and> conn_ok (sc_conn o1) \<and> obj_phase s cid o1"

fun functor_id :: "sv_functor \<Rightarrow> nat option" where
  "functor_id FListen = None"
| "functor_id (FEstablished cid) = Some cid"
| "functor_id (FRemove cid) = Some cid"
| "functor_id (FDestroyed cid) = Some cid"

fun home :: "tserver \<Rightarrow> nat \<Rightarrow> sv_functor \<Rightarrow> bool" where
  "home s l FListen \<longleftrightarrow> True"
| "home s l (FEstablished cid) \<longleftrightarrow> (\<exists>o1. sv_objs s cid = Some o1 \<and> sc_loop o1 = l)"
| "home s l (FRemove cid) \<longleftrightarrow> sv_objs s cid \<noteq> None \<and> l = sv_base s"
| "home s l (FDestroyed cid) \<longleftrightarrow> (\<exists>o1. sv_objs s cid = Some o1 \<and> sc_loop o1 = l)"

definition sv_ok :: "tserver \<Rightarrow> bool" where
  "sv_ok s \<longleftrightarrow> map_valid (sv_connections s) \<and> (\<forall>cid o1. sv_objs s cid = Some o1 \<longrightarrow> obj_ok s cid o1) \<and>
     (\<forall>nm cid. map_of (sv_connections s) nm = Some cid \<longrightarrow> (\<exists>o1. sv_objs s cid = Some o1 \<and> sc_name o1 = nm)) \<and>
     (\<forall>l. \<forall>f \<in> set (sv_queue s l). home s l f)"

lemma sv_okD:
  assumes "sv_ok s"
  shows "map_valid (sv_connections s)" "sv_objs s cid = Some o1 \<Longrightarrow> obj_ok s cid o1"
    "map_of (sv_connections s) nm = Some cid \<Longrightarrow> \<exists>o1. sv_objs s cid = Some o1 \<and> sc_name o1 = nm"
    "f \<in> set (sv_queue s l) \<Longrightarrow> home s l f"
  using assms unfolding sv_ok_def by blast+

text \<open>Names of different connections differ as long as \<open>snprintf\<close> does not cut them.\<close>

definition names_fit :: "tserver \<Rightarrow> bool" where
  "names_fit s \<longleftrightarrow> length (sv_hostport s) \<le> 21 \<and> sv_nextConnId s \<le> 10 ^ 8"

lemma server_conn_name_exact:
  assumes "length hostport \<le> 21" and "n < 10 ^ 8"
  shows "server_conn_name name hostport n = name @ '':'' @ hostport @ ''#'' @ dec n"
  using length_dec_le [OF assms(2)] assms(1) by (simp add: server_conn_name_def snprintf_def)

lemma server_conn_name_inj:
  assumes "length hostport \<le> 21" and "m < 10 ^ 8" and "n < 10 ^ 8"
  shows "server_conn_name name hostport m = server_conn_name name hostport n \<longleftrightarrow> m = n"
  using assms by (simp add: server_conn_name_exact)

text \<open>
  A change that concerns one connection \<open>x\<close>: its object, its functors and its map entry. Everything
  about the other connections stays.
\<close>

lemma sv_ok_change:
  assumes ok: "sv_ok s" and fit: "names_fit s'"
    and const: "sv_hostport s' = sv_hostport s" "sv_name s' = sv_name s" "sv_base s' = sv_base s"
      "sv_nextConnId s \<le> sv_nextConnId s'"
    and valid: "map_valid (sv_connections s')"
    and x: "sv_objs s' = (sv_objs s)(x \<mapsto> o1)" "obj_ok s' x o1"
    and others: "\<And>l g. functor_id g \<noteq> Some x \<Longrightarrow> count_list (sv_queue s' l) g = count_list (sv_queue s l) g"
    and entry: "map_of (sv_connections s') = (map_of (sv_connections s))(sc_name o1 := e)" "e = None \<or> e = Some x"
    and homes: "\<And>l g. functor_id g = Some x \<Longrightarrow> g \<in> set (sv_queue s' l) \<Longrightarrow> home s' l g"
  shows "sv_ok s'"
  unfolding sv_ok_def
proof (intro conjI allI impI ballI)
  show "map_valid (sv_connections s')" by (rule valid)
next
  fix cid o2 assume o2: "sv_objs s' cid = Some o2"
  show "obj_ok s' cid o2"
  proof (cases "cid = x")
    case True
    then show ?thesis using x o2 by simp
  next
    case False
    then have "obj_ok s cid o2" using o2 x(1) sv_okD(2) [OF ok] by simp
    moreover have "sc_name o2 \<noteq> sc_name o1"
      using calculation x(2) False fit const server_conn_name_inj
      by (auto simp: obj_ok_def names_fit_def)
    ultimately show ?thesis using False const others entry(1)
      by (auto simp: obj_ok_def obj_phase_def)
  qed
next
  fix nm cid assume m: "map_of (sv_connections s') nm = Some cid"
  show "\<exists>o2. sv_objs s' cid = Some o2 \<and> sc_name o2 = nm"
  proof (cases "nm = sc_name o1")
    case True
    then show ?thesis using m entry x(1) by auto
  next
    case False
    then obtain o2 where o2: "sv_objs s cid = Some o2" "sc_name o2 = nm"
      using m entry(1) sv_okD(3) [OF ok] by auto
    moreover have "cid \<noteq> x" using o2 False x(2) sv_okD(2) [OF ok o2(1)] const by (auto simp: obj_ok_def)
    ultimately show ?thesis using x(1) by simp
  qed
next
  fix l g assume g: "g \<in> set (sv_queue s' l)"
  show "home s' l g"
  proof (cases "functor_id g = Some x")
    case False
    then have "g \<in> set (sv_queue s l)" using others g by (metis count_list_0_iff)
    then have "home s l g" by (rule sv_okD(4) [OF ok])
    then show ?thesis using False x(1) const by (cases g) auto
  qed (use homes g in blast)
qed

text \<open>A change that concerns no connection.\<close>

lemma sv_ok_cong:
  assumes ok: "sv_ok s"
    and "sv_hostport s' = sv_hostport s" "sv_name s' = sv_name s" "sv_base s' = sv_base s"
      "sv_nextConnId s' = sv_nextConnId s" "sv_connections s' = sv_connections s" "sv_objs s' = sv_objs s"
    and others: "\<And>l g. g \<noteq> FListen \<Longrightarrow> count_list (sv_queue s' l) g = count_list (sv_queue s l) g"
  shows "sv_ok s'"
proof -
  have "home s' l g" if g: "g \<in> set (sv_queue s' l)" for l g
  proof (cases "g = FListen")
    case False
    then have "g \<in> set (sv_queue s l)" using others g by (metis count_list_0_iff)
    then have "home s l g" by (rule sv_okD(4) [OF ok])
    then show ?thesis using assms by (cases g) auto
  qed simp
  then show ?thesis using ok assms by (simp add: sv_ok_def obj_ok_def obj_phase_def)
qed

section \<open>Every step keeps the invariant\<close>

lemma newServer_ok: "sv_init s \<Longrightarrow> sv_ok s"
  by (auto simp: sv_init_def newTcpServer_def sv_ok_def)

lemma in_queue_iff: "x \<in> set xs \<longleftrightarrow> count_list xs x \<noteq> 0"
  by (simp add: count_list_0_iff)

lemma getNextLoop_base: "getNextLoop b p = Inr (l, p') \<Longrightarrow> tp_baseLoop p' = tp_baseLoop p"
  by (auto simp: getNextLoop_def Let_def split: if_splits)

lemma fresh_functors:
  assumes "sv_ok s" and "functor_id g = Some (sv_nextConnId s)"
  shows "count_list (sv_queue s l) g = 0"
proof -
  have "sv_objs s (sv_nextConnId s) = None"
    using sv_okD(2) [OF assms(1), of "sv_nextConnId s"] by (cases "sv_objs s (sv_nextConnId s)") (auto simp: obj_ok_def)
  then have "\<not> home s l g" using assms(2) by (cases g) auto
  then show ?thesis using sv_okD(4) [OF assms(1)] by (auto simp: count_list_0_iff)
qed

lemma established_conn:
  assumes "write_ok kw" and "user_ok user" and "conn_ok c" and "connectEstablished kw user c = Inr c'"
  shows "conn_ok c'" "t_cid c' = t_cid c" "is_open c'" "closes c' = closes c" "removed c' = removed c"
    "t_state c = kConnecting"
  using connectEstablished_keeps [OF assms(1-3)] connectEstablished_phase [OF assms(4)] assms(4)
  by (auto simp: keeps_def advances_def)

lemma accept_ok:
  assumes kw: "write_ok kw" "user_ok user" and ok: "sv_ok s" and run: "sv_newConnection kw user fd s = Inr s'"
    and fit: "names_fit s'"
  shows "sv_ok s'"
proof -
  let ?cid = "sv_nextConnId s"
  let ?nm = "server_conn_name (sv_name s) (sv_hostport s) ?cid"
  let ?conn = "newConn ?cid fd (sv_writeComplete s) False"
  from run obtain ioLoop pool where g: "getNextLoop True (sv_pool s) = Inr (ioLoop, pool)"
    and n: "?cid \<noteq> 2 ^ 31 - 1"
    by (auto simp: sv_newConnection_def Let_def split: if_splits)
  define s1 where "s1 = s\<lparr>sv_pool := pool, sv_nextConnId := ?cid + 1,
    sv_objs := (sv_objs s)(?cid \<mapsto> \<lparr>sc_name = ?nm, sc_loop = ioLoop, sc_conn = ?conn\<rparr>),
    sv_connections := map_put ?nm ?cid (sv_connections s)\<rparr>"
  have base: "tp_baseLoop pool = sv_base s" by (rule getNextLoop_base [OF g])
  note fresh = fresh_functors [OF ok]
  have run': "(if ioLoop = sv_base s1 then on_conn (connectEstablished kw user) ?cid s1
      else Inr (queue_on ioLoop (FEstablished ?cid) s1)) = Inr s'"
    using run g n by (simp add: sv_newConnection_def Let_def s1_def split: if_splits)
  show ?thesis
  proof (cases "ioLoop = sv_base s1")
    case True
    let ?o = "\<lparr>sc_name = ?nm, sc_loop = ioLoop, sc_conn = ?conn\<rparr>"
    have "sv_objs s1 ?cid = Some ?o" by (simp add: s1_def)
    then have "bindE (connectEstablished kw user ?conn) (\<lambda>c. Inr (put_conn ?cid c ?o s1)) = Inr s'"
      using run' True by (simp add: on_conn_def)
    then obtain c where c: "connectEstablished kw user ?conn = Inr c" and s': "s' = put_conn ?cid c ?o s1"
      by (auto simp: bindE_eq_Inr)
    have e: "conn_ok c" "t_cid c = ?cid" "is_open c" "closes c = 0" "\<not> removed c"
      using established_conn [OF kw newConn_ok c] by simp_all
    show ?thesis
    proof (rule sv_ok_change [OF ok fit, where x = ?cid and e = "Some ?cid"
          and ?o1.0 = "\<lparr>sc_name = ?nm, sc_loop = ioLoop, sc_conn = c\<rparr>"])
      show "obj_ok s' ?cid \<lparr>sc_name = ?nm, sc_loop = ioLoop, sc_conn = c\<rparr>"
        using e fresh by (auto simp: obj_ok_def obj_phase_def sv_phase_def s' s1_def put_conn_def base)
      show "home s' l g" if "functor_id g = Some ?cid" "g \<in> set (sv_queue s' l)" for l g
        using that fresh by (auto simp: s' s1_def put_conn_def count_list_0_iff)
    qed (use sv_okD(1) [OF ok] in \<open>simp_all add: s' s1_def put_conn_def base\<close>)
  next
    case False
    then have s': "s' = queue_on ioLoop (FEstablished ?cid) s1" using run' by simp
    show ?thesis
    proof (rule sv_ok_change [OF ok fit, where x = ?cid and e = "Some ?cid"
          and ?o1.0 = "\<lparr>sc_name = ?nm, sc_loop = ioLoop, sc_conn = ?conn\<rparr>"])
      show "obj_ok s' ?cid \<lparr>sc_name = ?nm, sc_loop = ioLoop, sc_conn = ?conn\<rparr>"
        using fresh by (auto simp: obj_ok_def obj_phase_def sv_phase_def s' s1_def queue_on_def base newConn_ok)
      show "home s' l g" if "functor_id g = Some ?cid" "g \<in> set (sv_queue s' l)" for l g
        using that fresh by (auto simp: s' s1_def queue_on_def count_list_0_iff split: if_splits)
    qed (use sv_okD(1) [OF ok] in \<open>auto simp: s' s1_def queue_on_def base\<close>)
  qed
qed

text \<open>An event that is quiet leaves the phase alone; one that ends the connection starts its removal.\<close>

lemma sv_phase_quiet:
  assumes "sv_phase e r d m c" and "quiet c c'"
  shows "sv_phase e r d m c'"
proof -
  have "is_open c' \<longleftrightarrow> is_open c"
    using assms(2) by (cases "t_state c"; cases "t_state c'") (simp_all add: quiet_def)
  then show ?thesis using assms unfolding sv_phase_def quiet_def by simp
qed

lemma quiet_ok:
  assumes ok: "sv_ok s" and fit: "names_fit s" and o1: "sv_objs s cid = Some o1"
    and c: "conn_ok c" "t_cid c = t_cid (sc_conn o1)" "quiet (sc_conn o1) c"
  shows "sv_ok (put_conn cid c o1 s)"
proof (rule sv_ok_change [OF ok, where x = cid and ?o1.0 = "o1\<lparr>sc_conn := c\<rparr>"
      and e = "map_of (sv_connections s) (sc_name o1)"])
  have old: "obj_ok s cid o1" by (rule sv_okD(2) [OF ok o1])
  show "obj_ok (put_conn cid c o1 s) cid (o1\<lparr>sc_conn := c\<rparr>)"
    using old c(1,2) by (auto simp: obj_ok_def obj_phase_def put_conn_def intro: sv_phase_quiet [OF _ c(3)])
  show "map_of (sv_connections s) (sc_name o1) = None \<or> map_of (sv_connections s) (sc_name o1) = Some cid"
  proof (cases "map_of (sv_connections s) (sc_name o1)")
    case (Some y)
    from sv_okD(3) [OF ok Some] obtain o2 where o2: "sv_objs s y = Some o2" "sc_name o2 = sc_name o1" by blast
    then have "y = cid" using sv_okD(2) [OF ok o2(1)] old fit server_conn_name_inj
      by (auto simp: obj_ok_def names_fit_def)
    then show ?thesis using Some by simp
  qed simp
  show "home (put_conn cid c o1 s) l g"
    if "functor_id g = Some cid" "g \<in> set (sv_queue (put_conn cid c o1 s) l)" for l g
    using that sv_okD(4) [OF ok, of g l] o1 by (cases g) (auto simp: put_conn_def)
qed (use fit sv_okD(1) [OF ok] in \<open>simp_all add: put_conn_def names_fit_def\<close>)

text \<open>Erasing the map entry and queueing the destruction.\<close>

lemma erase_ok:
  assumes ok: "sv_ok s" and fit: "names_fit s" and o1: "sv_objs s cid = Some o1"
    and c: "conn_ok c" "t_cid c = cid" "t_state c = kDisconnected" "closes c = 1" "\<not> removed c"
    and q: "count_list (q (sc_loop o1)) (FEstablished cid) = 0" "count_list (q (sv_base s)) (FRemove cid) = 0"
      "count_list (q (sc_loop o1)) (FDestroyed cid) = 0"
    and others: "\<And>l g. functor_id g \<noteq> Some cid \<Longrightarrow> count_list (q l) g = count_list (sv_queue s l) g"
    and sub: "\<And>l. set (q l) \<subseteq> set (sv_queue s l)"
    and m: "map_of (sv_connections s) (sc_name o1) = Some cid"
  shows "\<exists>s'. removeConnectionInLoop cid (put_conn cid c o1 (s\<lparr>sv_queue := q\<rparr>)) = Inr s' \<and> sv_ok s' \<and>
    sv_objs s' cid = Some (o1\<lparr>sc_conn := c\<rparr>) \<and> map_of (sv_connections s') (sc_name o1) = None"
proof -
  let ?s1 = "put_conn cid c o1 (s\<lparr>sv_queue := q\<rparr>)"
  let ?s' = "queue_on (sc_loop o1) (FDestroyed cid) (?s1\<lparr>sv_connections := map_erase (sc_name o1) (sv_connections s)\<rparr>)"
  have old: "obj_ok s cid o1" by (rule sv_okD(2) [OF ok o1])
  have "map_count (sc_name o1) (sv_connections s) = 1"
    using m map_count_valid [OF sv_okD(1) [OF ok]] by simp
  then have run: "removeConnectionInLoop cid ?s1 = Inr ?s'"
    by (simp add: removeConnectionInLoop_def put_conn_def Let_def)
  have "sv_ok ?s'"
  proof (rule sv_ok_change [OF ok, where x = cid and ?o1.0 = "o1\<lparr>sc_conn := c\<rparr>" and e = None])
    show "obj_ok ?s' cid (o1\<lparr>sc_conn := c\<rparr>)"
      using old c q by (auto simp: obj_ok_def obj_phase_def sv_phase_def put_conn_def queue_on_def)
    show "home ?s' l g" if "functor_id g = Some cid" "g \<in> set (sv_queue ?s' l)" for l g
    proof -
      have "g \<in> set (sv_queue s l) \<or> (g = FDestroyed cid \<and> l = sc_loop o1)"
        using that(2) sub by (auto simp: put_conn_def queue_on_def split: if_splits)
      then show ?thesis using sv_okD(4) [OF ok, of g l] o1 that(1)
        by (cases g) (auto simp: put_conn_def queue_on_def)
    qed
    show "count_list (sv_queue ?s' l) g = count_list (sv_queue s l) g" if "functor_id g \<noteq> Some cid" for l g
      using that others by (auto simp: put_conn_def queue_on_def)
  qed (use fit sv_okD(1) [OF ok] in \<open>simp_all add: put_conn_def names_fit_def queue_on_def\<close>)
  then show ?thesis using run by (auto simp: put_conn_def queue_on_def)
qed

lemma live_phase:
  assumes "obj_ok s cid o1" and "is_open (sc_conn o1)"
  shows "count_list (sv_queue s (sc_loop o1)) (FEstablished cid) = 0"
    "count_list (sv_queue s (sv_base s)) (FRemove cid) = 0"
    "count_list (sv_queue s (sc_loop o1)) (FDestroyed cid) = 0"
    "map_of (sv_connections s) (sc_name o1) = Some cid" "closes (sc_conn o1) = 0" "\<not> removed (sc_conn o1)"
  using assms by (auto simp: obj_ok_def obj_phase_def sv_phase_def)

text \<open>The end of a connection of another loop queues its removal on the base loop.\<close>

lemma queue_remove_ok:
  assumes ok: "sv_ok s" and fit: "names_fit s" and o1: "sv_objs s cid = Some o1"
    and other: "sc_loop o1 \<noteq> sv_base s"
    and cok: "conn_ok c" and tc: "t_cid c = cid" and c1: "t_state c = kDisconnected"
    and c2: "closes c = 1" "\<not> removed c" and op: "is_open (sc_conn o1)"
  shows "sv_ok (queue_on (sv_base s) (FRemove cid) (put_conn cid c o1 s))" (is "sv_ok ?s'")
proof (rule sv_ok_change [OF ok, where x = cid and ?o1.0 = "o1\<lparr>sc_conn := c\<rparr>" and e = "Some cid"])
  note old = sv_okD(2) [OF ok o1]
  note live = live_phase [OF old op]
  show "obj_ok ?s' cid (o1\<lparr>sc_conn := c\<rparr>)"
    using old live other cok tc c1 c2
    by (simp add: obj_ok_def obj_phase_def sv_phase_def put_conn_def queue_on_def)
  show "home ?s' l g" if "functor_id g = Some cid" "g \<in> set (sv_queue ?s' l)" for l g
  proof -
    have "g \<in> set (sv_queue s l) \<or> (g = FRemove cid \<and> l = sv_base s)"
      using that(2) by (auto simp: put_conn_def queue_on_def split: if_splits)
    then show ?thesis using sv_okD(4) [OF ok, of g l] o1 that(1)
      by (cases g) (auto simp: put_conn_def queue_on_def)
  qed
  show "count_list (sv_queue ?s' l) g = count_list (sv_queue s l) g" if "functor_id g \<noteq> Some cid" for l g
    using that by (auto simp: put_conn_def queue_on_def)
qed (use fit sv_okD(1) [OF ok] live_phase [OF sv_okD(2) [OF ok o1] op] in
    \<open>simp_all add: put_conn_def names_fit_def queue_on_def fun_upd_idem\<close>)

lemma event_ok_step:
  assumes kw: "write_ok kw" "user_ok user" and ok: "sv_ok s" and fit: "names_fit s"
    and o1: "sv_objs s cid = Some o1" and ev: "event_ok ev (sc_conn o1)"
    and run: "sv_event kw user cid ev s = Inr s'"
  shows "sv_ok s'"
proof -
  have old: "obj_ok s cid o1" by (rule sv_okD(2) [OF ok o1])
  let ?c0 = "sc_conn o1"
  from run o1 obtain c where c: "run_event kw user ev ?c0 = Inr c"
    and s': "(if closes ?c0 < closes c then removeConnection cid (put_conn cid c o1 s)
      else Inr (put_conn cid c o1 s)) = Inr s'"
    by (auto simp: sv_event_def Let_def)
  have "advances ?c0 c"
    by (rule step_ok [OF run_event_step [OF ev c] kw]) (use old in \<open>simp add: obj_ok_def\<close>)
  then have cok: "conn_ok c" "t_cid c = t_cid ?c0" by (simp_all add: advances_def)
  from run_event_cases [OF c] show ?thesis
  proof
    assume q: "quiet ?c0 c"
    then have "s' = put_conn cid c o1 s" using s' by (simp add: quiet_def)
    then show ?thesis using quiet_ok [OF ok fit o1 cok q] by simp
  next
    assume e: "ends ?c0 c"
    then have op: "is_open ?c0" and c1: "t_state c = kDisconnected" "closes c = Suc (closes ?c0)"
      "removed c = removed ?c0" by (auto simp: ends_def)
    note live = live_phase [OF old op]
    have tc: "t_cid c = cid" using cok(2) old by (simp add: obj_ok_def)
    have c2: "closes c = 1" "\<not> removed c" using c1 live by simp_all
    have rm: "removeConnection cid (put_conn cid c o1 s) = Inr s'" using s' c1 by simp
    show ?thesis
    proof (cases "sc_loop o1 = sv_base s")
      case True
      then have "removeConnectionInLoop cid (put_conn cid c o1 (s\<lparr>sv_queue := sv_queue s\<rparr>)) = Inr s'"
        using rm by (simp add: removeConnection_def put_conn_def)
      with erase_ok [OF ok fit o1 cok(1) tc c1(1) c2 live(1-3) refl subset_refl live(4)] show ?thesis by auto
    next
      case False
      then have s1: "s' = queue_on (sv_base s) (FRemove cid) (put_conn cid c o1 s)"
        using rm by (auto simp: removeConnection_def put_conn_def)
      show ?thesis unfolding s1
        by (rule queue_remove_ok [OF ok fit o1 False cok(1) tc c1(1) c2 op])
    qed
  qed
qed

lemma pop_count:
  assumes "sv_queue s l = f # fs"
  shows "count_list (sv_queue (sv_pop l s) l') g = count_list (sv_queue s l') g - (if l' = l \<and> g = f then 1 else 0)"
  using assms by (simp add: sv_pop_def)

lemma pop_set: "set (sv_queue (sv_pop l s) l') \<subseteq> set (sv_queue s l')"
  by (cases "sv_queue s l") (auto simp: sv_pop_def)

lemma pop_fields [simp]:
  "sv_hostport (sv_pop l s) = sv_hostport s" "sv_name (sv_pop l s) = sv_name s"
  "sv_pool (sv_pop l s) = sv_pool s" "sv_nextConnId (sv_pop l s) = sv_nextConnId s"
  "sv_connections (sv_pop l s) = sv_connections s" "sv_objs (sv_pop l s) = sv_objs s"
  "sv_acceptor (sv_pop l s) = sv_acceptor s"
  by (simp_all add: sv_pop_def)

text \<open>Popping a functor of \<open>cid\<close> and giving its connection a new state, in step.\<close>

lemma pop_ok:
  assumes ok: "sv_ok s" and fit: "names_fit s" and o1: "sv_objs s cid = Some o1"
    and q: "sv_queue s l = f # fs" "functor_id f = Some cid"
    and new: "obj_ok (put_conn cid c o1 (sv_pop l s)) cid (o1\<lparr>sc_conn := c\<rparr>)"
    and m: "map_of (sv_connections s) (sc_name o1) = None \<or> map_of (sv_connections s) (sc_name o1) = Some cid"
  shows "sv_ok (put_conn cid c o1 (sv_pop l s))" (is "sv_ok ?s'")
proof (rule sv_ok_change [OF ok, where x = cid and ?o1.0 = "o1\<lparr>sc_conn := c\<rparr>"
      and e = "map_of (sv_connections s) (sc_name o1)"])
  show "obj_ok ?s' cid (o1\<lparr>sc_conn := c\<rparr>)" by (rule new)
  show "home ?s' l' g" if "functor_id g = Some cid" "g \<in> set (sv_queue ?s' l')" for l' g
  proof -
    have "g \<in> set (sv_queue s l')" using that(2) pop_set [of l s l'] by (auto simp: put_conn_def)
    then have "home s l' g" by (rule sv_okD(4) [OF ok])
    then show ?thesis using o1 that(1) by (cases g) (auto simp: put_conn_def)
  qed
  show "count_list (sv_queue ?s' l') g = count_list (sv_queue s l') g" if "functor_id g \<noteq> Some cid" for l' g
    using that q pop_count [OF q(1)] by (auto simp: put_conn_def)
  show "map_of (sv_connections s) (sc_name o1) = None \<or> map_of (sv_connections s) (sc_name o1) = Some cid"
    by (rule m)
qed (use fit sv_okD(1) [OF ok] in \<open>simp_all add: put_conn_def names_fit_def\<close>)

text \<open>The three functors, run by the loop they were queued on.\<close>

lemma run_established_ok:
  assumes kw: "write_ok kw" "user_ok user" and ok: "sv_ok s" and fit: "names_fit s"
    and q: "sv_queue s l = FEstablished cid # fs"
    and run: "on_conn (connectEstablished kw user) cid (sv_pop l s) = Inr s'"
  shows "sv_ok s'"
proof -
  have "home s l (FEstablished cid)" using sv_okD(4) [OF ok, of "FEstablished cid" l] q by simp
  then obtain o1 where o1: "sv_objs s cid = Some o1" "sc_loop o1 = l" by auto
  have old: "obj_ok s cid o1" by (rule sv_okD(2) [OF ok o1(1)])
  from run o1 obtain c where c: "connectEstablished kw user (sc_conn o1) = Inr c"
    and s': "s' = put_conn cid c o1 (sv_pop l s)" by (auto simp: on_conn_def)
  have e: "conn_ok c" "t_cid c = t_cid (sc_conn o1)" "is_open c" "closes c = closes (sc_conn o1)"
    "removed c = removed (sc_conn o1)" "t_state (sc_conn o1) = kConnecting"
    using established_conn [OF kw _ c] old by (simp_all add: obj_ok_def)
  have ph: "count_list (sv_queue s l) (FEstablished cid) = 1" "count_list (sv_queue s (sv_base s)) (FRemove cid) = 0"
    "count_list (sv_queue s l) (FDestroyed cid) = 0" "map_of (sv_connections s) (sc_name o1) = Some cid"
    "closes (sc_conn o1) = 0" "\<not> removed (sc_conn o1)"
    using old e(6) o1(2) by (auto simp: obj_ok_def obj_phase_def sv_phase_def)
  show ?thesis unfolding s'
  proof (rule pop_ok [OF ok fit o1(1) q])
    show "obj_ok (put_conn cid c o1 (sv_pop l s)) cid (o1\<lparr>sc_conn := c\<rparr>)"
      using old e ph o1(2) pop_count [OF q]
      by (auto simp: obj_ok_def obj_phase_def sv_phase_def put_conn_def)
  qed (simp_all add: ph)
qed

lemma removal_phase:
  assumes ok: "sv_ok s" and q: "sv_queue s l = FRemove cid # fs"
  obtains o1 where "sv_objs s cid = Some o1" "l = sv_base s" "t_state (sc_conn o1) = kDisconnected"
    "closes (sc_conn o1) = 1" "\<not> removed (sc_conn o1)" "map_of (sv_connections s) (sc_name o1) = Some cid"
    "count_list (sv_queue s (sc_loop o1)) (FEstablished cid) = 0" "count_list (sv_queue s l) (FRemove cid) = 1"
    "count_list (sv_queue s (sc_loop o1)) (FDestroyed cid) = 0" "obj_ok s cid o1"
proof -
  have "home s l (FRemove cid)" using sv_okD(4) [OF ok, of "FRemove cid" l] q by simp
  then obtain o1 where o1: "sv_objs s cid = Some o1" "l = sv_base s" by auto
  have old: "obj_ok s cid o1" by (rule sv_okD(2) [OF ok o1(1)])
  then show ?thesis using that [OF o1] o1(2) q by (auto simp: obj_ok_def obj_phase_def sv_phase_def)
qed

lemma run_remove_ok:
  assumes ok: "sv_ok s" and fit: "names_fit s" and q: "sv_queue s l = FRemove cid # fs"
  shows "\<exists>s'. removeConnectionInLoop cid (sv_pop l s) = Inr s' \<and> sv_ok s' \<and>
    (\<exists>o1. sv_objs s' cid = Some o1 \<and> map_of (sv_connections s') (sc_name o1) = None)"
proof -
  from removal_phase [OF ok q] obtain o1 where o1: "sv_objs s cid = Some o1" "l = sv_base s"
    "t_state (sc_conn o1) = kDisconnected" "closes (sc_conn o1) = 1" "\<not> removed (sc_conn o1)"
    "map_of (sv_connections s) (sc_name o1) = Some cid"
    "count_list (sv_queue s (sc_loop o1)) (FEstablished cid) = 0" "count_list (sv_queue s l) (FRemove cid) = 1"
    "count_list (sv_queue s (sc_loop o1)) (FDestroyed cid) = 0" "obj_ok s cid o1" by blast
  have cok: "conn_ok (sc_conn o1)" "t_cid (sc_conn o1) = cid" using o1(10) by (simp_all add: obj_ok_def)
  have same: "put_conn cid (sc_conn o1) o1 (s\<lparr>sv_queue := sv_queue (sv_pop l s)\<rparr>) = sv_pop l s"
    using o1(1) by (simp add: put_conn_def sv_pop_def fun_upd_idem)
  have "\<exists>s'. removeConnectionInLoop cid (put_conn cid (sc_conn o1) o1 (s\<lparr>sv_queue := sv_queue (sv_pop l s)\<rparr>)) = Inr s' \<and>
      sv_ok s' \<and> sv_objs s' cid = Some (o1\<lparr>sc_conn := sc_conn o1\<rparr>) \<and> map_of (sv_connections s') (sc_name o1) = None"
    by (rule erase_ok [OF ok fit o1(1) cok o1(3-5)])
       (use o1 pop_count [OF q] pop_set in \<open>auto split: if_splits\<close>)
  then show ?thesis unfolding same by auto
qed

lemma run_destroyed_ok:
  assumes kw: "write_ok kw" "user_ok user" and ok: "sv_ok s" and fit: "names_fit s"
    and q: "sv_queue s l = FDestroyed cid # fs"
  shows "\<exists>s'. on_conn (connectDestroyed kw user) cid (sv_pop l s) = Inr s' \<and> sv_ok s' \<and>
    (\<exists>o1. sv_objs s' cid = Some o1 \<and> removed (sc_conn o1))"
proof -
  have "home s l (FDestroyed cid)" using sv_okD(4) [OF ok, of "FDestroyed cid" l] q by simp
  then obtain o1 where o1: "sv_objs s cid = Some o1" "sc_loop o1 = l" by auto
  have old: "obj_ok s cid o1" by (rule sv_okD(2) [OF ok o1(1)])
  then have ph: "t_state (sc_conn o1) = kDisconnected" "closes (sc_conn o1) = 1" "\<not> removed (sc_conn o1)"
    "count_list (sv_queue s l) (FEstablished cid) = 0" "count_list (sv_queue s (sv_base s)) (FRemove cid) = 0"
    "count_list (sv_queue s l) (FDestroyed cid) = 1" "map_of (sv_connections s) (sc_name o1) \<noteq> Some cid"
    and cok: "conn_ok (sc_conn o1)"
    using q o1(2) by (auto simp: obj_ok_def obj_phase_def sv_phase_def)
  from connectDestroyed_disconnected [OF cok ph(1)] obtain c where
    c: "connectDestroyed kw user (sc_conn o1) = Inr c" "t_state c = kDisconnected"
    "closes c = closes (sc_conn o1)" "removed c" "t_cid c = t_cid (sc_conn o1)" by blast
  have cok': "conn_ok c"
    using connectDestroyed_ok [OF kw cok _ ph(3) c(1)] ph(1) by (simp add: advances_def)
  have none: "map_of (sv_connections s) (sc_name o1) = None"
  proof (cases "map_of (sv_connections s) (sc_name o1)")
    case (Some y)
    from sv_okD(3) [OF ok Some] obtain o2 where o2: "sv_objs s y = Some o2" "sc_name o2 = sc_name o1" by blast
    then have "y = cid" using sv_okD(2) [OF ok o2(1)] old fit server_conn_name_inj
      by (auto simp: obj_ok_def names_fit_def)
    then show ?thesis using ph(7) Some by simp
  qed
  let ?s' = "put_conn cid c o1 (sv_pop l s)"
  have "sv_ok ?s'"
  proof (rule pop_ok [OF ok fit o1(1) q])
    show "obj_ok ?s' cid (o1\<lparr>sc_conn := c\<rparr>)"
      using old c cok' ph o1(2) pop_count [OF q]
      by (auto simp: obj_ok_def obj_phase_def sv_phase_def put_conn_def)
  qed (simp_all add: none)
  moreover have "on_conn (connectDestroyed kw user) cid (sv_pop l s) = Inr ?s'"
    using o1(1) c(1) by (simp add: on_conn_def)
  ultimately show ?thesis using c(4) by (auto simp: put_conn_def)
qed

lemma run_ok:
  assumes "write_ok kw" "user_ok user" and ok: "sv_ok s" and "names_fit s"
    and run: "sv_run kw user listenRes l s = Inr s'"
  shows "sv_ok s'"
proof (cases "sv_queue s l")
  case Nil
  then show ?thesis using ok run by (simp add: sv_run_def)
next
  case (Cons f fs)
  then have r: "run_sv_functor kw user listenRes f (sv_pop l s) = Inr s'" using run by (simp add: sv_run_def)
  show ?thesis
  proof (cases f)
    case FListen
    then obtain a where s': "s' = (sv_pop l s)\<lparr>sv_acceptor := a\<rparr>" using r by (auto simp: sv_listen_def)
    show ?thesis by (rule sv_ok_cong [OF ok]) (use Cons FListen in \<open>simp_all add: s' pop_count\<close>)
  next
    case (FEstablished cid)
    then show ?thesis using r Cons by (intro run_established_ok [OF assms(1-4), of l cid fs s']) simp_all
  next
    case (FRemove cid)
    then show ?thesis using r run_remove_ok [OF ok assms(4), of l cid fs] Cons by auto
  next
    case (FDestroyed cid)
    then show ?thesis using r run_destroyed_ok [OF assms(1-4), of l cid fs] Cons by auto
  qed
qed

lemma start_ok:
  assumes ok: "sv_ok s" and run: "TcpServer_start inLoop new cb listenRes s = Inr s'"
  shows "sv_ok s'"
proof -
  from run obtain s1 where s1: "(if \<not> sv_started s
      then bindE (TP_start inLoop new cb (sv_pool s)) (\<lambda>(p, _). Inr (s\<lparr>sv_started := True, sv_pool := p\<rparr>))
      else Inr s) = Inr s1"
    and r: "(if \<not> ac_listenning (sv_acceptor s1)
      then if inLoop then sv_listen listenRes s1 else Inr (queue_on (sv_base s1) FListen s1) else Inr s1) = Inr s'"
    unfolding TcpServer_start_def by blast
  have "sv_hostport s1 = sv_hostport s" "sv_name s1 = sv_name s" "sv_base s1 = sv_base s"
      "sv_nextConnId s1 = sv_nextConnId s" "sv_connections s1 = sv_connections s" "sv_objs s1 = sv_objs s"
      "sv_queue s1 = sv_queue s"
    using s1 by (auto simp: TP_start_def split: if_splits)
  then show ?thesis using r
    by (intro sv_ok_cong [OF ok]) (auto simp: sv_listen_def queue_on_def split: if_splits)
qed

lemma sv_run_const:
  assumes "sv_run kw user listenRes l s = Inr s'"
  shows "sv_hostport s' = sv_hostport s \<and> sv_nextConnId s' = sv_nextConnId s"
proof (cases "sv_queue s l")
  case (Cons f fs)
  then show ?thesis using assms
    by (cases f) (auto simp: sv_run_def sv_listen_def on_conn_def removeConnectionInLoop_def
        put_conn_def queue_on_def Let_def split: option.splits)
qed (use assms in \<open>simp add: sv_run_def\<close>)

lemma step_const:
  assumes "sv_step kw user s s'"
  shows "sv_hostport s' = sv_hostport s \<and> sv_nextConnId s \<le> sv_nextConnId s'"
  using assms
  by (cases rule: sv_step.cases)
     (auto simp: setThreadNum_def TcpServer_start_def TP_start_def sv_listen_def queue_on_def
       sv_newConnection_def sv_event_def removeConnection_def removeConnectionInLoop_def on_conn_def put_conn_def
       Let_def dest: sv_run_const split: if_splits option.splits)

definition sv_inv :: "kernel_write \<Rightarrow> user \<Rightarrow> tserver \<Rightarrow> bool" where
  "sv_inv kw user s \<longleftrightarrow> length (sv_hostport s) \<le> 21 \<and>
     (write_ok kw \<and> user_ok user \<and> sv_nextConnId s \<le> 10 ^ 8 \<longrightarrow> sv_ok s)"

lemma sv_inv_init: "sv_init s \<Longrightarrow> sv_inv kw user s"
proof -
  assume i: "sv_init s"
  then obtain addr where "InetAddress_toIpPort addr = Inr (sv_hostport s)"
    by (auto simp: sv_init_def newTcpServer_def)
  then have "sv_hostport s = inet_ntop (s_addr addr) @ '':'' @ dec (unat (networkToHost16 (sin_port addr)))"
    by (simp add: InetAddress_toIpPort_def toIpPort_exact)
  then have "length (sv_hostport s) \<le> 21"
    using length_inet_ntop [of "s_addr addr"] length_dec_port [of "networkToHost16 (sin_port addr)"] by simp
  then show ?thesis using newServer_ok [OF i] by (simp add: sv_inv_def)
qed

lemma sv_inv_step:
  assumes inv: "sv_inv kw user s" and step: "sv_step kw user s s'"
  shows "sv_inv kw user s'"
proof -
  have "sv_ok s'" if kw: "write_ok kw" "user_ok user" and le: "sv_nextConnId s' \<le> 10 ^ 8"
  proof -
    have ok: "sv_ok s" and fit: "names_fit s" "names_fit s'"
      using inv step_const [OF step] kw le by (auto simp: sv_inv_def names_fit_def)
    from step show ?thesis
    proof (cases rule: sv_step.cases)
      case (threads n)
      then show ?thesis by (intro sv_ok_cong [OF ok]) (auto simp: setThreadNum_def)
    next
      case (starts inLoop new cb listenRes)
      then show ?thesis using start_ok [OF ok] by blast
    next
      case (accepts fd)
      then show ?thesis using accept_ok [OF kw ok _ fit(2)] by blast
    next
      case (events cid o1 ev)
      then show ?thesis using event_ok_step [OF kw ok fit(1)] by blast
    next
      case (runs listenRes l)
      then show ?thesis using run_ok [OF kw ok fit(1)] by blast
    qed
  qed
  then show ?thesis using inv step_const [OF step] by (simp add: sv_inv_def)
qed

interpretation srv: step_invariant sv_init "sv_step kw user" "sv_inv kw user" for kw user
  by unfold_locales (auto intro: sv_inv_init sv_inv_step)

lemma reach_sv_ok:
  assumes "write_ok kw" and "user_ok user" and "reach sv_init (sv_step kw user) s" and "sv_nextConnId s \<le> 10 ^ 8"
  shows "sv_ok s" "names_fit s"
  using srv.reach_inv [OF assms(3)] assms by (simp_all add: sv_inv_def names_fit_def)

section \<open>Properties\<close>

text \<open>
  C5. The life of every connection of a server, in every interleaving of accepts, connection events
  and the functors of all loops, for the first hundred million connections: the connection map has
  the connection exactly until \<open>removeConnectionInLoop\<close> ran for it; the close callback is called at
  most once; each of the three functors is queued at most once, and once the connection is destroyed
  none is left; and the channel is taken out of its poller only after the map entry is gone.
\<close>

theorem server_connection_life:
  assumes "write_ok kw" and "user_ok user" and "reach sv_init (sv_step kw user) s"
    and "sv_nextConnId s \<le> 10 ^ 8" and "sv_objs s cid = Some o1"
  shows "(map_of (sv_connections s) (sc_name o1) = Some cid \<longleftrightarrow>
        t_state (sc_conn o1) \<noteq> kDisconnected \<or> FRemove cid \<in> set (sv_queue s (sv_base s))) \<and>
    closes (sc_conn o1) = (if t_state (sc_conn o1) = kDisconnected then 1 else 0) \<and>
    count_list (sv_queue s (sc_loop o1)) (FEstablished cid) = (if t_state (sc_conn o1) = kConnecting then 1 else 0) \<and>
    count_list (sv_queue s (sv_base s)) (FRemove cid) + count_list (sv_queue s (sc_loop o1)) (FDestroyed cid) =
      (if t_state (sc_conn o1) = kDisconnected \<and> \<not> removed (sc_conn o1) then 1 else 0) \<and>
    (removed (sc_conn o1) \<longrightarrow> map_of (sv_connections s) (sc_name o1) \<noteq> Some cid)"
proof -
  have "obj_ok s cid o1" by (rule sv_okD(2) [OF reach_sv_ok(1) [OF assms(1-4)] assms(5)])
  then show ?thesis by (auto simp: obj_ok_def obj_phase_def sv_phase_def in_queue_iff)
qed

text \<open>A server with two I/O threads, and one connection accepted and queued for establishment.\<close>

definition demo_acceptor :: acceptor where
  "demo_acceptor = \<lparr>ac_fd = 3, ac_listenning = False, ac_reading = False, ac_idleFd = 4, ac_callback = False,
     ac_closed = [], ac_handed = []\<rparr>"

definition demo_hostport :: string where
  "demo_hostport = inet_ntop 0 @ '':'' @ dec (unat (networkToHost16 0))"

definition demo_server :: tserver where
  "demo_server = \<lparr>sv_hostport = demo_hostport, sv_name = ''srv'', sv_acceptor = demo_acceptor\<lparr>ac_callback := True\<rparr>,
     sv_pool = newEventLoopThreadPool 0, sv_writeComplete = False, sv_started = False, sv_nextConnId = 1,
     sv_connections = [], sv_objs = Map.empty, sv_queue = (\<lambda>_. [])\<rparr>"

definition demo_started :: tserver where
  "demo_started = demo_server\<lparr>sv_started := True,
     sv_acceptor := (sv_acceptor demo_server)\<lparr>ac_listenning := True, ac_reading := True\<rparr>,
     sv_pool := (newEventLoopThreadPool 0)\<lparr>tp_numThreads := 2, tp_started := True, tp_loops := [1, 2]\<rparr>\<rparr>"

definition demo_accepted :: tserver where
  "demo_accepted = demo_started\<lparr>sv_pool := (sv_pool demo_started)\<lparr>tp_next := 1\<rparr>, sv_nextConnId := Suc 1,
     sv_objs := [1 \<mapsto> \<lparr>sc_name = server_conn_name ''srv'' demo_hostport 1, sc_loop = 1,
       sc_conn = newConn 1 7 False False\<rparr>],
     sv_connections := [(server_conn_name ''srv'' demo_hostport 1, 1)],
     sv_queue := (\<lambda>_. [])(1 := [FEstablished 1])\<rparr>"

lemma demo_sv_init: "sv_init demo_server"
proof -
  have "newTcpServer 0 zero_addr ''srv'' demo_acceptor = Inr demo_server"
    by (simp add: newTcpServer_def InetAddress_toIpPort_def toIpPort_exact zero_addr_def demo_server_def
        demo_hostport_def)
  then show ?thesis unfolding sv_init_def by blast
qed

lemma demo_sv_reach: "reach sv_init (sv_step kw user) demo_accepted"
proof -
  have "reach sv_init (sv_step kw user) demo_server" by (rule reach_init) (rule demo_sv_init)
  moreover have "sv_step kw user demo_server (demo_server\<lparr>sv_pool := (newEventLoopThreadPool 0)\<lparr>tp_numThreads := 2\<rparr>\<rparr>)"
    by (rule threads [of _ 2]) (simp_all add: demo_server_def setThreadNum_def)
  moreover have "sv_step kw user (demo_server\<lparr>sv_pool := (newEventLoopThreadPool 0)\<lparr>tp_numThreads := 2\<rparr>\<rparr>) demo_started"
    by (rule starts [of True Suc False "Inr ()"])
       (simp add: TcpServer_start_def TP_start_def demo_server_def demo_started_def newEventLoopThreadPool_def
         sv_listen_def Acceptor_listen_def listenOrDie_def demo_acceptor_def upt_conv_Cons)
  moreover have "sv_step kw user demo_started demo_accepted"
    by (rule accepts [where fd = 7])
       (simp add: sv_newConnection_def getNextLoop_def demo_started_def demo_server_def demo_accepted_def
         newEventLoopThreadPool_def queue_on_def map_put_def map_erase_def Let_def)
  ultimately show ?thesis by (blast intro: reach_step)
qed

theorem server_connection_life_witness:
  "reach sv_init (sv_step demo_write demo_user) demo_accepted \<and>
   map_of (sv_connections demo_accepted) (server_conn_name ''srv'' demo_hostport 1) = Some 1 \<and>
   count_list (sv_queue demo_accepted 1) (FEstablished 1) = 1"
  using server_connection_life [OF demo_write_ok demo_user_ok demo_sv_reach, of 1] demo_sv_reach
  by (simp add: demo_accepted_def)

text \<open>
  When \<open>connectDestroyed\<close> returns for a connection: not while a half close is in progress (the
  channel still has its interest, \<open>Channel::remove\<close> asserts that it has none), and on an open one
  only when the user's connection callback returns.
\<close>

definition destroyable :: "kernel_write \<Rightarrow> user \<Rightarrow> tconn \<Rightarrow> bool" where
  "destroyable kw user c \<longleftrightarrow> t_state c \<noteq> kDisconnecting \<and> (t_state c = kConnected \<longrightarrow>
     \<not> isl (callback kw user (CbConnection kDisconnected) (chan_set DisableAll (c\<lparr>t_state := kDisconnected\<rparr>))))"

lemma connectDestroyed_returns:
  assumes "write_ok kw" "user_ok user" and inv: "conn_ok c"
  shows "\<not> isl (connectDestroyed kw user c) \<longleftrightarrow> destroyable kw user c"
proof (cases "t_state c = kConnected")
  case True
  let ?c1 = "chan_set DisableAll (c\<lparr>t_state := kDisconnected\<rparr>)"
  have a: "advances c ?c1" by (rule close_ok [OF inv]) (simp add: True)
  have "isNoneEvent (t_channel d)" if "callback kw user (CbConnection kDisconnected) ?c1 = Inr d" for d
  proof -
    have ad: "advances ?c1 d"
      using callback_keeps [OF assms(1,2) advances_ok [OF a]] that by (auto simp: keeps_def)
    then have "t_state d = kDisconnected" by (cases "t_state d") (auto simp: advances_def)
    then show ?thesis using conn_okD(6) [OF advances_ok [OF ad]] by simp
  qed
  then show ?thesis using True
    by (cases "callback kw user (CbConnection kDisconnected) ?c1")
       (auto simp: connectDestroyed_def destroyable_def chan_remove_def Let_def)
next
  case False
  then show ?thesis
    using conn_okD(6) [OF inv] tcp_destroy_disconnecting_aborts [OF inv]
    by (cases "t_state c") (auto simp: connectDestroyed_def destroyable_def chan_remove_def)
qed

text \<open>The loop of the destructor works on different connections.\<close>

lemma foldE_destroy1:
  assumes "distinct (map snd ps)" and "\<forall>p \<in> set ps. sv_objs s (snd p) \<noteq> None"
  shows "\<not> isl (foldE (sv_destroy1 kw user) ps s) \<longleftrightarrow> (\<forall>p \<in> set ps. \<forall>o1. sv_objs s (snd p) = Some o1 \<longrightarrow>
    sc_loop o1 = sv_base s \<longrightarrow> \<not> isl (connectDestroyed kw user (sc_conn o1)))"
  using assms
proof (induction ps arbitrary: s)
  case (Cons p ps)
  from Cons.prems(2) obtain o1 where o1: "sv_objs s (snd p) = Some o1" by auto
  have new: "snd p \<notin> snd ` set ps" "distinct (map snd ps)" using Cons.prems(1) by auto
  show ?case
  proof (cases "sv_destroy1 kw user p s")
    case (Inl e)
    then have "sc_loop o1 = sv_base s" "isl (connectDestroyed kw user (sc_conn o1))"
      using o1 by (cases "connectDestroyed kw user (sc_conn o1)";
        auto simp: sv_destroy1_def on_conn_def split: if_splits)+
    then show ?thesis using Inl o1 by auto
  next
    case (Inr s')
    then have same: "sv_base s' = sv_base s" "\<And>i. i \<noteq> snd p \<Longrightarrow> sv_objs s' i = sv_objs s i"
      and here: "sc_loop o1 = sv_base s \<Longrightarrow> \<not> isl (connectDestroyed kw user (sc_conn o1))"
      using o1 by (auto simp: sv_destroy1_def on_conn_def put_conn_def queue_on_def split: if_splits)
    have objs: "sv_objs s' (snd q) = sv_objs s (snd q)" if "q \<in> set ps" for q
      using that new(1) by (intro same(2)) (metis imageI)
    have "\<not> isl (foldE (sv_destroy1 kw user) ps s') \<longleftrightarrow> (\<forall>q \<in> set ps. \<forall>o1. sv_objs s' (snd q) = Some o1 \<longrightarrow>
        sc_loop o1 = sv_base s' \<longrightarrow> \<not> isl (connectDestroyed kw user (sc_conn o1)))"
      by (rule Cons.IH [OF new(2)]) (use objs Cons.prems(2) in auto)
    then show ?thesis using Inr o1 here objs same(1) by auto
  qed
qed simp

lemma map_ids_distinct:
  assumes "sv_ok s"
  shows "distinct (map snd (sv_connections s))"
proof -
  have d: "distinct (map fst (sv_connections s))" using sv_okD(1) [OF assms] by (simp add: map_valid_def)
  have "m = n" if "(m, i) \<in> set (sv_connections s)" "(n, i) \<in> set (sv_connections s)" for m n i
    using sv_okD(3) [OF assms map_of_is_SomeI [OF d that(1)]] sv_okD(3) [OF assms map_of_is_SomeI [OF d that(2)]]
    by auto
  then show ?thesis using d by (auto simp: distinct_map inj_on_def)
qed

lemma dtor_returns:
  assumes kw: "write_ok kw" "user_ok user" and ok: "sv_ok s"
  shows "\<not> isl (TcpServer_dtor kw user s) \<longleftrightarrow>
    (\<forall>cid o1. sv_objs s cid = Some o1 \<longrightarrow> sc_loop o1 = sv_base s \<longrightarrow> destroyable kw user (sc_conn o1))"
proof -
  have d: "distinct (map fst (sv_connections s))" using sv_okD(1) [OF ok] by (simp add: map_valid_def)
  have objs: "\<forall>p \<in> set (sv_connections s). sv_objs s (snd p) \<noteq> None"
    using sv_okD(3) [OF ok] map_of_is_SomeI [OF d] by fastforce
  have ret: "\<not> isl (connectDestroyed kw user (sc_conn o1)) \<longleftrightarrow> destroyable kw user (sc_conn o1)"
    if "sv_objs s cid = Some o1" for cid o1
    by (rule connectDestroyed_returns [OF kw]) (use sv_okD(2) [OF ok that] in \<open>simp add: obj_ok_def\<close>)
  have out: "destroyable kw user (sc_conn o1) \<or> (sc_name o1, cid) \<in> set (sv_connections s)"
    if "sv_objs s cid = Some o1" for cid o1
    using sv_okD(2) [OF ok that] map_of_SomeD [of "sv_connections s" "sc_name o1" cid]
    by (auto simp: obj_ok_def obj_phase_def sv_phase_def destroyable_def)
  have "\<not> isl (TcpServer_dtor kw user s) \<longleftrightarrow> \<not> isl (foldE (sv_destroy1 kw user) (sv_connections s) s)"
    by (cases "foldE (sv_destroy1 kw user) (sv_connections s) s") (simp_all add: TcpServer_dtor_def)
  also have "\<dots> \<longleftrightarrow> (\<forall>p \<in> set (sv_connections s). \<forall>o1. sv_objs s (snd p) = Some o1 \<longrightarrow>
      sc_loop o1 = sv_base s \<longrightarrow> \<not> isl (connectDestroyed kw user (sc_conn o1)))"
    by (rule foldE_destroy1 [OF map_ids_distinct [OF ok] objs])
  also have "\<dots> \<longleftrightarrow> (\<forall>cid o1. sv_objs s cid = Some o1 \<longrightarrow> sc_loop o1 = sv_base s \<longrightarrow> destroyable kw user (sc_conn o1))"
    using ret out by fastforce
  finally show ?thesis .
qed



text \<open>
  Beyond that the names collide: for an address that prints with 21 characters, \<open>snprintf\<close> cuts the
  name of connection number \<open>10^8\<close> to the name of connection \<open>10^7\<close>. When two connections share a
  name, removing one takes the other's map entry, and removing the other trips the assertion
  \<open>n == 1\<close>.
\<close>

theorem server_names_collide:
  assumes "length hostport = 21"
  shows "server_conn_name name hostport (10 ^ 8) = server_conn_name name hostport (10 ^ 7) \<and>
    (\<forall>s s' a b oa ob. sv_objs s a = Some oa \<and> sv_objs s b = Some ob \<and> sc_name oa = sc_name ob \<and>
       removeConnectionInLoop a s = Inr s' \<longrightarrow> removeConnectionInLoop b s' = Inl (AssertionFailed ''n == 1''))"
proof (intro conjI allI impI)
  have d: "take 8 (dec (10 ^ 8)) = dec (10 ^ 7)" by (simp add: dec.simps)
  have "take 31 ('':'' @ hostport @ ''#'' @ dec n) = '':'' @ hostport @ ''#'' @ take 8 (dec n)" for n
    using assms by (simp add: take_Cons')
  moreover have "take 8 (dec (10 ^ 7)) = dec (10 ^ 7)" using length_dec_le [of "10 ^ 7" 8] by simp
  ultimately show "server_conn_name name hostport (10 ^ 8) = server_conn_name name hostport (10 ^ 7)"
    using d by (simp add: server_conn_name_def snprintf_def)
next
  fix s s' a b oa ob
  assume h: "sv_objs s a = Some oa \<and> sv_objs s b = Some ob \<and> sc_name oa = sc_name ob \<and>
    removeConnectionInLoop a s = Inr s'"
  then have "sv_connections s' = map_erase (sc_name ob) (sv_connections s)" "sv_objs s' b = Some ob"
    by (auto simp: removeConnectionInLoop_def Let_def queue_on_def)
  then show "removeConnectionInLoop b s' = Inl (AssertionFailed ''n == 1'')"
    by (simp add: removeConnectionInLoop_def map_count_def map_erase_def Let_def)
qed

theorem server_names_collide_witness:
  "server_conn_name ''srv'' ''192.168.100.200:12345'' (10 ^ 8) = server_conn_name ''srv'' ''192.168.100.200:12345'' (10 ^ 7)"
  using server_names_collide [of "''192.168.100.200:12345''"] by simp

text \<open>
  The acceptor: an accepted descriptor goes to the callback; when the process is out of
  descriptors and the kernel gives back the one that was kept spare, the waiting connection is
  accepted and closed at once and a new spare is opened; the other transient errors change nothing
  and every other error aborts. When the spare cannot be reopened, it is lost: the next time nothing
  is closed, so nothing is accepted and the listening socket stays readable.
\<close>

theorem acceptor_handleRead_cases:
  "(ac_callback a \<longrightarrow> Acceptor_handleRead (Inr fd) addr second spare a =
      Inr (a\<lparr>ac_handed := ac_handed a @ [fd]\<rparr>, Some (fd, addr))) \<and>
   (0 \<le> ac_idleFd a \<and> 0 \<le> fd \<longrightarrow> Acceptor_handleRead (Inl EMFILE) addr (Inr fd) (Inr fd') a =
      Inr (a\<lparr>ac_closed := ac_closed a @ [ac_idleFd a, fd], ac_idleFd := fd'\<rparr>, None)) \<and>
   (e \<noteq> EMFILE \<and> accept_transient e \<longrightarrow> Acceptor_handleRead (Inl e) addr second spare a = Inr (a, None)) \<and>
   (\<not> accept_transient e \<longrightarrow> (\<exists>m. Acceptor_handleRead (Inl e) addr second spare a = Inl (FatalLog m))) \<and>
   (ac_idleFd a = -1 \<longrightarrow> Acceptor_handleRead (Inl EMFILE) addr (Inl EMFILE) (Inl EMFILE) a = Inr (a, None))"
  by (auto simp: Acceptor_handleRead_def Socket_accept_def sockets_accept_def ac_close_def Let_def)

theorem acceptor_handleRead_cases_witness:
  "newAcceptor (Inr 3) 4 (Inr ()) = Inr demo_acceptor \<and>
     Acceptor_handleRead (Inl EMFILE) zero_addr (Inr 5) (Inr 6) demo_acceptor =
       Inr (demo_acceptor\<lparr>ac_closed := [4, 5], ac_idleFd := 6\<rparr>, None)"
proof -
  have "newAcceptor (Inr 3) 4 (Inr ()) = Inr demo_acceptor"
    by (simp add: newAcceptor_def createNonblockingOrDie_def bindOrDie_def demo_acceptor_def)
  moreover have "0 \<le> ac_idleFd demo_acceptor \<and> (0 :: int) \<le> 5" by (simp add: demo_acceptor_def)
  then have "Acceptor_handleRead (Inl EMFILE) zero_addr (Inr 5) (Inr 6) demo_acceptor =
      Inr (demo_acceptor\<lparr>ac_closed := ac_closed demo_acceptor @ [ac_idleFd demo_acceptor, 5], ac_idleFd := 6\<rparr>, None)"
    using acceptor_handleRead_cases by blast
  ultimately show ?thesis by (simp add: demo_acceptor_def)
qed

end
