(* ===== verification/Connector.thy ===== *)
theory Connector
  imports Sockets "HOL-Library.Multiset"
begin

text \<open>
  \<open>src/muduo/net/Connector.cc\<close>: establishing a connection with exponential back-off.

  The outcomes of the system calls are arguments. \<open>cn_created\<close>, \<open>cn_closed\<close> and \<open>cn_handed\<close> are the
  sockets created, closed and given to \<open>newConnectionCallback_\<close> so far; \<open>cn_queue\<close> holds the functors
  queued on the loop and \<open>cn_timers\<close> the delays, in milliseconds, of the timers registered so far.
\<close>

section \<open>State\<close>

datatype connector_state = CnDisconnected | CnConnecting | CnConnected

datatype connector_functor = CnResetChannel | CnStartInLoop | CnStopInLoop

record connector =
  cn_state :: connector_state
  cn_connect :: bool
  cn_retryDelayMs :: int
  cn_channel :: "int option"
  cn_queue :: "connector_functor list"
  cn_timers :: "int list"
  cn_created :: "int list"
  cn_closed :: "int list"
  cn_handed :: "int list"

definition kMaxRetryDelayMs :: int where "kMaxRetryDelayMs = 30 * 1000"
definition kInitRetryDelayMs :: int where "kInitRetryDelayMs = 500"

definition newConnector :: connector where
  "newConnector = \<lparr>cn_state = CnDisconnected, cn_connect = False, cn_retryDelayMs = kInitRetryDelayMs,
     cn_channel = None, cn_queue = [], cn_timers = [], cn_created = [], cn_closed = [], cn_handed = []\<rparr>"

section \<open>Operations\<close>

definition cn_close :: "int \<Rightarrow> connector \<Rightarrow> connector" where
  "cn_close fd c = c\<lparr>cn_closed := cn_closed c @ [fd]\<rparr>"

text \<open>\<open>retry\<close>: close the socket and, if still wanted, try again later.\<close>

definition cn_retry :: "int \<Rightarrow> connector \<Rightarrow> connector" where
  "cn_retry sockfd c =
     (let c' = (cn_close sockfd c)\<lparr>cn_state := CnDisconnected\<rparr> in
      if cn_connect c'
      then c'\<lparr>cn_timers := cn_timers c' @ [cn_retryDelayMs c'],
              cn_retryDelayMs := min (cn_retryDelayMs c' * 2) kMaxRetryDelayMs\<rparr>
      else c')"

definition cn_connecting :: "int \<Rightarrow> connector \<Rightarrow> connector result" where
  "cn_connecting sockfd c =
     (let c' = c\<lparr>cn_state := CnConnecting\<rparr> in
      bindE (assertE (cn_channel c' = None) ''!channel_'') (\<lambda>_.
      Inr (c'\<lparr>cn_channel := Some sockfd\<rparr>)))"

text \<open>The three groups of the \<open>switch\<close> in \<open>connect\<close>.\<close>

fun connect_proceeds :: "errno option \<Rightarrow> bool" where
  "connect_proceeds None = True"
| "connect_proceeds (Some EINPROGRESS) = True"
| "connect_proceeds (Some EINTR) = True"
| "connect_proceeds (Some EISCONN) = True"
| "connect_proceeds _ = False"

fun connect_retries :: "errno option \<Rightarrow> bool" where
  "connect_retries (Some EAGAIN) = True"
| "connect_retries (Some EADDRINUSE) = True"
| "connect_retries (Some EADDRNOTAVAIL) = True"
| "connect_retries (Some ECONNREFUSED) = True"
| "connect_retries (Some ENETUNREACH) = True"
| "connect_retries _ = False"

definition cn_do_connect :: "errno + int \<Rightarrow> errno option \<Rightarrow> connector \<Rightarrow> connector result" where
  "cn_do_connect sock savedErrno c =
     bindE (createNonblockingOrDie sock) (\<lambda>sockfd.
     let c' = c\<lparr>cn_created := cn_created c @ [sockfd]\<rparr> in
     if connect_proceeds savedErrno then cn_connecting sockfd c'
     else if connect_retries savedErrno then Inr (cn_retry sockfd c')
     else Inr (cn_close sockfd c'))"

definition startInLoop :: "errno + int \<Rightarrow> errno option \<Rightarrow> connector \<Rightarrow> connector result" where
  "startInLoop sock savedErrno c =
     bindE (assertE (cn_state c = CnDisconnected) ''state_ == kDisconnected'') (\<lambda>_.
     if cn_connect c then cn_do_connect sock savedErrno c else Inr c)"

text \<open>\<open>start\<close>: in the loop thread at once, otherwise queued.\<close>

definition cn_start :: "bool \<Rightarrow> errno + int \<Rightarrow> errno option \<Rightarrow> connector \<Rightarrow> connector result" where
  "cn_start inLoop sock savedErrno c =
     (let c' = c\<lparr>cn_connect := True\<rparr> in
      if inLoop then startInLoop sock savedErrno c'
      else Inr (c'\<lparr>cn_queue := cn_queue c' @ [CnStartInLoop]\<rparr>))"

text \<open>
  \<open>removeAndResetChannel\<close>: the channel object is destroyed later, by a queued functor, since its
  event handler may be running.
\<close>

definition removeAndResetChannel :: "connector \<Rightarrow> (int \<times> connector) result" where
  "removeAndResetChannel c = (case cn_channel c of
     None \<Rightarrow> Inl (Undefined_Behaviour ''null channel_'')
   | Some sockfd \<Rightarrow> Inr (sockfd, c\<lparr>cn_queue := cn_queue c @ [CnResetChannel]\<rparr>))"

definition resetChannel :: "connector \<Rightarrow> connector" where
  "resetChannel c = c\<lparr>cn_channel := None\<rparr>"

definition stopInLoop :: "connector \<Rightarrow> connector result" where
  "stopInLoop c =
     (if cn_state c = CnConnecting then
        bindE (removeAndResetChannel (c\<lparr>cn_state := CnDisconnected\<rparr>)) (\<lambda>(sockfd, c').
        Inr (cn_retry sockfd c'))
      else Inr c)"

definition cn_stop :: "bool \<Rightarrow> connector \<Rightarrow> connector result" where
  "cn_stop inLoop c =
     (let c' = c\<lparr>cn_connect := False\<rparr> in
      if inLoop then stopInLoop c' else Inr (c'\<lparr>cn_queue := cn_queue c' @ [CnStopInLoop]\<rparr>))"

definition cn_restart :: "errno + int \<Rightarrow> errno option \<Rightarrow> connector \<Rightarrow> connector result" where
  "cn_restart sock savedErrno c =
     startInLoop sock savedErrno (c\<lparr>cn_state := CnDisconnected, cn_retryDelayMs := kInitRetryDelayMs,
       cn_connect := True\<rparr>)"

definition cn_handleWrite :: "errno option \<Rightarrow> bool \<Rightarrow> connector \<Rightarrow> connector result" where
  "cn_handleWrite err selfConnect c =
     (if cn_state c = CnConnecting then
        bindE (removeAndResetChannel c) (\<lambda>(sockfd, c').
        Inr (if err \<noteq> None then cn_retry sockfd c'
             else if selfConnect then cn_retry sockfd c'
             else let c'' = c'\<lparr>cn_state := CnConnected\<rparr> in
               if cn_connect c'' then c''\<lparr>cn_handed := cn_handed c'' @ [sockfd]\<rparr>
               else cn_close sockfd c''))
      else bindE (assertE (cn_state c = CnDisconnected) ''state_ == kDisconnected'') (\<lambda>_. Inr c))"

definition cn_handleError :: "connector \<Rightarrow> connector result" where
  "cn_handleError c =
     bindE (assertE (cn_state c = CnConnecting) ''state_ == kConnecting'') (\<lambda>_.
     bindE (removeAndResetChannel c) (\<lambda>(sockfd, c').
     Inr (cn_retry sockfd c')))"

definition Connector_dtor :: "connector \<Rightarrow> unit result" where
  "Connector_dtor c = assertE (cn_channel c = None) ''!channel_''"

fun run_connector_functor :: "errno + int \<Rightarrow> errno option \<Rightarrow> connector_functor \<Rightarrow> connector \<Rightarrow> connector result"
where
  "run_connector_functor sock e CnResetChannel c = Inr (resetChannel c)"
| "run_connector_functor sock e CnStartInLoop c = startInLoop sock e c"
| "run_connector_functor sock e CnStopInLoop c = stopInLoop c"

section \<open>The life of a connector\<close>

text \<open>
  Steps that return normally. The channel's events arrive only while the channel is registered,
  which is in the connecting state; a timer that was registered runs \<open>startInLoop\<close>; \<open>restart\<close> is
  called when the established connection went away.
\<close>

inductive cn_step :: "connector \<Rightarrow> connector \<Rightarrow> bool" where
  starts: "cn_start inLoop sock e c = Inr c' \<Longrightarrow> cn_step c c'"
| stops: "cn_stop inLoop c = Inr c' \<Longrightarrow> cn_step c c'"
| restarts: "cn_state c = CnConnected \<Longrightarrow> cn_restart sock e c = Inr c' \<Longrightarrow> cn_step c c'"
| writes: "cn_state c = CnConnecting \<Longrightarrow> cn_handleWrite err self c = Inr c' \<Longrightarrow> cn_step c c'"
| errors: "cn_state c = CnConnecting \<Longrightarrow> cn_handleError c = Inr c' \<Longrightarrow> cn_step c c'"
| timer: "cn_timers c \<noteq> [] \<Longrightarrow> startInLoop sock e c = Inr c' \<Longrightarrow> cn_step c c'"
| functors: "cn_queue c = f # fs \<Longrightarrow> run_connector_functor sock e f (c\<lparr>cn_queue := fs\<rparr>) = Inr c' \<Longrightarrow>
    cn_step c c'"

text \<open>
  Who owns the sockets, and that the back-off stays in range. While the connection is being
  established the channel owns its socket, and no functor is about to drop the channel.
\<close>

definition cn_inv :: "connector \<Rightarrow> bool" where
  "cn_inv c \<longleftrightarrow>
     mset (cn_created c) = mset (cn_closed c) + mset (cn_handed c) +
       (if cn_state c = CnConnecting then {#the (cn_channel c)#} else {#}) \<and>
     (cn_state c = CnConnecting \<longrightarrow> cn_channel c \<noteq> None) \<and>
     count_list (cn_queue c) CnResetChannel =
       (if cn_state c \<noteq> CnConnecting \<and> cn_channel c \<noteq> None then 1 else 0) \<and>
     kInitRetryDelayMs \<le> cn_retryDelayMs c \<and> cn_retryDelayMs c \<le> kMaxRetryDelayMs"

lemmas cn_defs = cn_retry_def cn_close_def cn_connecting_def removeAndResetChannel_def resetChannel_def Let_def

lemma cn_retry_inv:
  assumes "mset (cn_created c) = mset (cn_closed c) + mset (cn_handed c) + {#fd#}"
    and "count_list (cn_queue c) CnResetChannel = (if cn_channel c \<noteq> None then 1 else 0)"
    and "kInitRetryDelayMs \<le> cn_retryDelayMs c" and "cn_retryDelayMs c \<le> kMaxRetryDelayMs"
  shows "cn_inv (cn_retry fd c)"
  using assms by (auto simp: cn_inv_def cn_defs kMaxRetryDelayMs_def kInitRetryDelayMs_def)

text \<open>Giving up the socket of the channel: afterwards its owner is whoever gets it next.\<close>

lemma cn_inv_release:
  assumes "cn_inv c" and "cn_state c = CnConnecting"
  obtains fd where "cn_channel c = Some fd"
    and "removeAndResetChannel c = Inr (fd, c\<lparr>cn_queue := cn_queue c @ [CnResetChannel]\<rparr>)"
    and "mset (cn_created c) = mset (cn_closed c) + mset (cn_handed c) + {#fd#}"
    and "count_list (cn_queue c @ [CnResetChannel]) CnResetChannel = 1"
    and "kInitRetryDelayMs \<le> cn_retryDelayMs c" and "cn_retryDelayMs c \<le> kMaxRetryDelayMs"
  using assms by (auto simp: cn_inv_def removeAndResetChannel_def)

lemma stopInLoop_inv:
  assumes "cn_inv c" and "stopInLoop c = Inr c'"
  shows "cn_inv c'"
proof (cases "cn_state c = CnConnecting")
  case False
  then show ?thesis using assms by (simp add: stopInLoop_def)
next
  case True
  from cn_inv_release [OF assms(1) True] obtain fd where fd: "cn_channel c = Some fd"
    "mset (cn_created c) = mset (cn_closed c) + mset (cn_handed c) + {#fd#}"
    "count_list (cn_queue c @ [CnResetChannel]) CnResetChannel = 1"
    "kInitRetryDelayMs \<le> cn_retryDelayMs c" "cn_retryDelayMs c \<le> kMaxRetryDelayMs" by metis
  then have "c' = cn_retry fd (c\<lparr>cn_state := CnDisconnected, cn_queue := cn_queue c @ [CnResetChannel]\<rparr>)"
    using assms(2) True by (simp add: stopInLoop_def removeAndResetChannel_def)
  then show ?thesis using fd cn_retry_inv
    [of "c\<lparr>cn_state := CnDisconnected, cn_queue := cn_queue c @ [CnResetChannel]\<rparr>" fd] by simp
qed

lemma startInLoop_inv:
  assumes inv: "cn_inv c" and run: "startInLoop sock e c = Inr c'"
  shows "cn_inv c'"
proof (cases "cn_connect c")
  case False
  then show ?thesis using assms by (auto simp: startInLoop_def)
next
  case True
  have st: "cn_state c = CnDisconnected" using run by (auto simp: startInLoop_def)
  obtain fd where sock: "sock = Inr fd"
    using run True by (cases sock) (auto simp: startInLoop_def cn_do_connect_def createNonblockingOrDie_def)
  let ?c = "c\<lparr>cn_created := cn_created c @ [fd]\<rparr>"
  have own: "mset (cn_created ?c) = mset (cn_closed ?c) + mset (cn_handed ?c) + {#fd#}"
    using inv st by (simp add: cn_inv_def)
  consider "connect_proceeds e" | "\<not> connect_proceeds e" "connect_retries e" | "\<not> connect_proceeds e" "\<not> connect_retries e"
    by blast
  then show ?thesis
  proof cases
    case 1
    then have "cn_connecting fd ?c = Inr c'"
      using run True st sock by (simp add: startInLoop_def cn_do_connect_def createNonblockingOrDie_def Let_def)
    then show ?thesis using inv own st by (auto simp: cn_inv_def cn_connecting_def Let_def)
  next
    case 2
    then have "c' = cn_retry fd ?c"
      using run True st sock by (simp add: startInLoop_def cn_do_connect_def createNonblockingOrDie_def Let_def)
    then show ?thesis using cn_retry_inv [of ?c fd] own inv st by (auto simp: cn_inv_def)
  next
    case 3
    then have "c' = cn_close fd ?c"
      using run True st sock by (simp add: startInLoop_def cn_do_connect_def createNonblockingOrDie_def Let_def)
    then show ?thesis using own inv st by (auto simp: cn_inv_def cn_close_def)
  qed
qed

lemma cn_inv_cong:
  assumes "cn_inv c" and "cn_state c = cn_state d" "cn_channel c = cn_channel d"
    "cn_created c = cn_created d" "cn_closed c = cn_closed d" "cn_handed c = cn_handed d"
    "count_list (cn_queue c) CnResetChannel = count_list (cn_queue d) CnResetChannel"
    "cn_retryDelayMs c = cn_retryDelayMs d"
  shows "cn_inv d"
  using assms by (simp add: cn_inv_def)

lemma cn_handleWrite_inv:
  assumes inv: "cn_inv c" and st: "cn_state c = CnConnecting" and run: "cn_handleWrite err self c = Inr c'"
  shows "cn_inv c'"
proof -
  from cn_inv_release [OF inv st] obtain fd where fd: "cn_channel c = Some fd"
    "mset (cn_created c) = mset (cn_closed c) + mset (cn_handed c) + {#fd#}"
    "count_list (cn_queue c @ [CnResetChannel]) CnResetChannel = 1"
    "kInitRetryDelayMs \<le> cn_retryDelayMs c" "cn_retryDelayMs c \<le> kMaxRetryDelayMs" by metis
  let ?c = "c\<lparr>cn_queue := cn_queue c @ [CnResetChannel]\<rparr>"
  have "cn_inv (cn_retry fd ?c)" using cn_retry_inv [of ?c fd] fd by simp
  moreover have "cn_inv (?c\<lparr>cn_state := CnConnected, cn_handed := cn_handed c @ [fd]\<rparr>)"
    "cn_inv (cn_close fd (?c\<lparr>cn_state := CnConnected\<rparr>))"
    using fd by (auto simp: cn_inv_def cn_close_def)
  ultimately show ?thesis
    using run st fd(1) by (auto simp: cn_handleWrite_def removeAndResetChannel_def Let_def split: if_splits)
qed

lemma cn_functor_inv:
  assumes inv: "cn_inv c" and functors: "cn_queue c = f # fs"
    "run_connector_functor sock e f (c\<lparr>cn_queue := fs\<rparr>) = Inr c'"
  shows "cn_inv c'"
proof -
  have q: "count_list (cn_queue c) CnResetChannel = (if f = CnResetChannel then 1 else 0) +
      count_list fs CnResetChannel" using functors(1) by simp
  show ?thesis
  proof (cases f)
    case CnResetChannel
    then show ?thesis using functors(2) inv q by (auto simp: cn_inv_def resetChannel_def split: if_splits)
  next
    case CnStartInLoop
    have "cn_inv (c\<lparr>cn_queue := fs\<rparr>)" by (rule cn_inv_cong [OF inv]) (use q CnStartInLoop in simp_all)
    then show ?thesis using functors(2) CnStartInLoop startInLoop_inv by auto
  next
    case CnStopInLoop
    have "cn_inv (c\<lparr>cn_queue := fs\<rparr>)" by (rule cn_inv_cong [OF inv]) (use q CnStopInLoop in simp_all)
    then show ?thesis using functors(2) CnStopInLoop stopInLoop_inv by auto
  qed
qed

lemma cn_inv_step:
  assumes inv: "cn_inv c" and step: "cn_step c c'"
  shows "cn_inv c'"
  using step
proof (cases rule: cn_step.cases)
  case (starts inLoop sock e)
  have i: "cn_inv (c\<lparr>cn_connect := True\<rparr>)"
    "cn_inv (c\<lparr>cn_connect := True, cn_queue := cn_queue c @ [CnStartInLoop]\<rparr>)"
    by (rule cn_inv_cong [OF inv]; simp)+
  show ?thesis using starts startInLoop_inv [OF i(1)] i(2)
    by (auto simp: cn_start_def Let_def split: if_splits)
next
  case (stops inLoop)
  have i: "cn_inv (c\<lparr>cn_connect := False\<rparr>)"
    "cn_inv (c\<lparr>cn_connect := False, cn_queue := cn_queue c @ [CnStopInLoop]\<rparr>)"
    by (rule cn_inv_cong [OF inv]; simp)+
  show ?thesis using stops stopInLoop_inv [OF i(1)] i(2)
    by (auto simp: cn_stop_def Let_def split: if_splits)
next
  case (restarts sock e)
  have "cn_inv (c\<lparr>cn_state := CnDisconnected, cn_retryDelayMs := kInitRetryDelayMs, cn_connect := True\<rparr>)"
    using inv restarts(1) by (auto simp: cn_inv_def kInitRetryDelayMs_def kMaxRetryDelayMs_def)
  then show ?thesis using restarts(2) startInLoop_inv by (auto simp: cn_restart_def)
next
  case (writes err self)
  then show ?thesis using cn_handleWrite_inv [OF inv] by blast
next
  case errors
  have "cn_handleWrite (Some EPIPE) False c = Inr c'"
    using errors by (simp add: cn_handleError_def cn_handleWrite_def)
  then show ?thesis using cn_handleWrite_inv [OF inv errors(1)] by blast
next
  case (timer sock e)
  then show ?thesis using startInLoop_inv [OF inv] by blast
next
  case (functors f fs sock e)
  then show ?thesis by (rule cn_functor_inv [OF inv])
qed

interpretation cn: step_invariant "\<lambda>c. c = newConnector" cn_step cn_inv
proof
  show "cn_inv c" if "c = newConnector" for c
    using that by (simp add: cn_inv_def newConnector_def kInitRetryDelayMs_def kMaxRetryDelayMs_def)
qed (rule cn_inv_step)

section \<open>Properties\<close>

text \<open>
  C13. A connector neither leaks nor closes a socket twice: in every reachable state each socket it
  created was closed exactly once, or was handed to the connection callback exactly once, or belongs
  to the channel of the connection being established; and the retry delay is between half a second
  and thirty seconds.
\<close>

theorem connector_owns_sockets:
  assumes "reach (\<lambda>c. c = newConnector) cn_step c"
  shows "mset (cn_created c) = mset (cn_closed c) + mset (cn_handed c) +
      (if cn_state c = CnConnecting then {#the (cn_channel c)#} else {#}) \<and>
    500 \<le> cn_retryDelayMs c \<and> cn_retryDelayMs c \<le> 30000"
  using cn.reach_inv [OF assms] by (simp add: cn_inv_def kInitRetryDelayMs_def kMaxRetryDelayMs_def)

lemma demo_connecting:
  "cn_start True (Inr 3) (Some EINPROGRESS) newConnector =
     Inr (newConnector\<lparr>cn_connect := True, cn_state := CnConnecting, cn_channel := Some 3, cn_created := [3]\<rparr>)"
  by (simp add: cn_start_def startInLoop_def cn_do_connect_def createNonblockingOrDie_def cn_connecting_def
      newConnector_def)

theorem connector_owns_sockets_witness:
  "\<exists>c. reach (\<lambda>c. c = newConnector) cn_step c \<and> cn_state c = CnConnecting \<and>
     mset (cn_created c) = mset (cn_closed c) + mset (cn_handed c) + {#3#}"
proof -
  let ?c = "newConnector\<lparr>cn_connect := True, cn_state := CnConnecting, cn_channel := Some 3, cn_created := [3]\<rparr>"
  have "reach (\<lambda>c. c = newConnector) cn_step newConnector" by (rule reach_init) simp
  then have r: "reach (\<lambda>c. c = newConnector) cn_step ?c"
    by (rule reach_step) (rule starts [OF demo_connecting])
  from connector_owns_sockets [OF this] r show ?thesis by (intro exI [of _ ?c]) simp
qed

text \<open>
  The back-off doubles from half a second up to thirty seconds: \<open>k\<close> failed attempts after a fresh
  start register timers of \<open>500, 1000, 2000, \<dots>\<close> milliseconds, never more than 30000.
\<close>

theorem connector_backoff:
  assumes "cn_connect c" and "cn_retryDelayMs c = kInitRetryDelayMs"
  shows "cn_timers ((cn_retry fd ^^ k) c) = cn_timers c @ map (\<lambda>i. min (500 * 2 ^ i) 30000) [0..<k]"
proof -
  have "cn_timers ((cn_retry fd ^^ k) c) = cn_timers c @ map (\<lambda>i. min (500 * 2 ^ i) 30000) [0..<k] \<and>
      cn_connect ((cn_retry fd ^^ k) c) \<and> cn_retryDelayMs ((cn_retry fd ^^ k) c) = min (500 * 2 ^ k) 30000"
  proof (induction k)
    case 0
    then show ?case using assms by (simp add: kInitRetryDelayMs_def)
  next
    case (Suc k)
    have "min (min (500 * 2 ^ k) 30000 * 2) 30000 = min (500 * 2 ^ Suc k) (30000 :: int)" by auto
    then show ?case using Suc by (simp add: cn_retry_def cn_close_def Let_def kMaxRetryDelayMs_def)
  qed
  then show ?thesis by blast
qed

theorem connector_backoff_witness:
  "cn_timers ((cn_retry 3 ^^ 8) (newConnector\<lparr>cn_connect := True\<rparr>)) =
     [500, 1000, 2000, 4000, 8000, 16000, 30000, 30000]"
proof -
  have "cn_connect (newConnector\<lparr>cn_connect := True\<rparr>)"
    "cn_retryDelayMs (newConnector\<lparr>cn_connect := True\<rparr>) = kInitRetryDelayMs"
    by (simp_all add: newConnector_def)
  from connector_backoff [OF this, where k = 8 and fd = 3] show ?thesis
    by (simp add: newConnector_def upt_conv_Cons)
qed

text \<open>
  Two ways to make a connector abort. Stopping it while a retry timer is registered and starting
  it again leads to two attempts: when the old timer fires, \<open>startInLoop\<close> trips its assertion. And a
  connector that has connected once cannot be started again with \<open>start\<close>, only with \<open>restart\<close>.
\<close>

theorem connector_start_twice_aborts:
  "\<exists>c1 c2 c3 c4. cn_start True (Inr 3) (Some ECONNREFUSED) newConnector = Inr c1 \<and> cn_timers c1 = [500] \<and>
     cn_stop True c1 = Inr c2 \<and> cn_start True (Inr 4) (Some EINPROGRESS) c2 = Inr c3 \<and>
     startInLoop (Inr 5) None c3 = Inl (AssertionFailed ''state_ == kDisconnected'') \<and>
     cn_handleWrite None False c3 = Inr c4 \<and>
     cn_start True (Inr 6) None c4 = Inl (AssertionFailed ''state_ == kDisconnected'')"
  by (simp add: cn_start_def cn_stop_def startInLoop_def stopInLoop_def cn_do_connect_def cn_defs
      createNonblockingOrDie_def newConnector_def cn_handleWrite_def kInitRetryDelayMs_def)

end
