(* ===== verification/Tcp_Client.thy ===== *)
theory Tcp_Client
  imports Connector Tcp_Events
begin

text \<open>
  \<open>src/muduo/net/TcpClient.cc\<close>: a connector and at most one connection.

  Connection objects live in the store \<open>cl_objs\<close>, numbered by their connection id; \<open>cl_connection\<close>
  is the member \<open>connection_\<close>. \<open>cl_queue\<close> holds the \<open>connectDestroyed\<close> functors queued on the loop.
  The connector calls \<open>newConnection\<close> from its write handler; the close callback of a connection is
  \<open>removeConnection\<close>, or \<open>detail::removeConnection\<close> once the client was destroyed (\<open>cl_detached\<close>).
\<close>

section \<open>State and operations\<close>

record tclient =
  cl_name :: string
  cl_connector :: connector
  cl_retry :: bool
  cl_connect :: bool
  cl_writeComplete :: bool
  cl_nextConnId :: nat
  cl_connection :: "nat option"
  cl_objs :: "nat \<rightharpoonup> string \<times> tconn"
  cl_queue :: "nat list"
  cl_detached :: bool

definition newTcpClient :: "string \<Rightarrow> tclient" where
  "newTcpClient name = \<lparr>cl_name = name, cl_connector = newConnector, cl_retry = False, cl_connect = True,
     cl_writeComplete = False, cl_nextConnId = 1, cl_connection = None, cl_objs = Map.empty, cl_queue = [],
     cl_detached = False\<rparr>"

definition enableRetry :: "tclient \<Rightarrow> tclient" where
  "enableRetry cl = cl\<lparr>cl_retry := True\<rparr>"

definition TcpClient_connect :: "bool \<Rightarrow> errno + int \<Rightarrow> errno option \<Rightarrow> tclient \<Rightarrow> tclient result" where
  "TcpClient_connect inLoop sock e cl =
     (let cl' = cl\<lparr>cl_connect := True\<rparr> in
      bindE (cn_start inLoop sock e (cl_connector cl')) (\<lambda>c. Inr (cl'\<lparr>cl_connector := c\<rparr>)))"

definition TcpClient_disconnect :: "bool \<Rightarrow> tclient \<Rightarrow> tclient" where
  "TcpClient_disconnect inLoop cl =
     (let cl' = cl\<lparr>cl_connect := False\<rparr> in
      case cl_connection cl' of
        None \<Rightarrow> cl'
      | Some cid \<Rightarrow> cl'\<lparr>cl_objs := (cl_objs cl')(cid := map_option (\<lambda>(n, c). (n, shutdown inLoop c)) (cl_objs cl' cid))\<rparr>)"

definition TcpClient_stop :: "bool \<Rightarrow> tclient \<Rightarrow> tclient result" where
  "TcpClient_stop inLoop cl =
     (let cl' = cl\<lparr>cl_connect := False\<rparr> in
      bindE (cn_stop inLoop (cl_connector cl')) (\<lambda>c. Inr (cl'\<lparr>cl_connector := c\<rparr>)))"

definition client_conn_name :: "string \<Rightarrow> string \<Rightarrow> nat \<Rightarrow> string" where
  "client_conn_name name peer n = name @ snprintf 32 ('':'' @ peer @ ''#'' @ dec n)"

definition TcpClient_newConnection ::
  "kernel_write \<Rightarrow> user \<Rightarrow> errno + sockaddr_in \<Rightarrow> int \<Rightarrow> tclient \<Rightarrow> tclient result" where
  "TcpClient_newConnection kw user peer sockfd cl =
     bindE (InetAddress_toIpPort (getPeerAddr peer)) (\<lambda>peerStr.
     let cid = cl_nextConnId cl;
         connName = client_conn_name (cl_name cl) peerStr cid;
         conn = newConn cid sockfd (cl_writeComplete cl) False;
         cl' = cl\<lparr>cl_nextConnId := cid + 1, cl_connection := Some cid\<rparr> in
     bindE (connectEstablished kw user conn) (\<lambda>c.
     Inr (cl'\<lparr>cl_objs := (cl_objs cl')(cid \<mapsto> (connName, c))\<rparr>)))"

text \<open>The write event of the connector's channel: on success it calls \<open>newConnection\<close>.\<close>

definition client_handleWrite ::
  "kernel_write \<Rightarrow> user \<Rightarrow> errno + sockaddr_in \<Rightarrow> errno option \<Rightarrow> bool \<Rightarrow> tclient \<Rightarrow> tclient result" where
  "client_handleWrite kw user peer err selfConnect cl =
     bindE (cn_handleWrite err selfConnect (cl_connector cl)) (\<lambda>c.
     let cl' = cl\<lparr>cl_connector := c\<rparr> in
     if length (cn_handed (cl_connector cl)) < length (cn_handed c)
     then TcpClient_newConnection kw user peer (last (cn_handed c)) cl'
     else Inr cl')"

definition detail_removeConnection :: "nat \<Rightarrow> tclient \<Rightarrow> tclient" where
  "detail_removeConnection cid cl = cl\<lparr>cl_queue := cl_queue cl @ [cid]\<rparr>"

definition TcpClient_removeConnection :: "errno + int \<Rightarrow> errno option \<Rightarrow> nat \<Rightarrow> tclient \<Rightarrow> tclient result" where
  "TcpClient_removeConnection sock e cid cl =
     bindE (assertE (cl_connection cl = Some cid) ''connection_ == conn'') (\<lambda>_.
     let cl' = cl\<lparr>cl_connection := None, cl_queue := cl_queue cl @ [cid]\<rparr> in
     if cl_retry cl' \<and> cl_connect cl'
     then bindE (cn_restart sock e (cl_connector cl')) (\<lambda>c. Inr (cl'\<lparr>cl_connector := c\<rparr>))
     else Inr cl')"

definition client_event ::
  "kernel_write \<Rightarrow> user \<Rightarrow> errno + int \<Rightarrow> errno option \<Rightarrow> nat \<Rightarrow> conn_event \<Rightarrow> tclient \<Rightarrow> tclient result" where
  "client_event kw user sock e cid ev cl = (case cl_objs cl cid of
     None \<Rightarrow> Inl (Undefined_Behaviour ''dangling connection'')
   | Some (n, c) \<Rightarrow>
       bindE (run_event kw user ev c) (\<lambda>c'.
       let cl' = cl\<lparr>cl_objs := (cl_objs cl)(cid \<mapsto> (n, c'))\<rparr> in
       if closes c < closes c'
       then if cl_detached cl' then Inr (detail_removeConnection cid cl')
            else TcpClient_removeConnection sock e cid cl'
       else Inr cl'))"

definition client_destroy :: "kernel_write \<Rightarrow> user \<Rightarrow> tclient \<Rightarrow> tclient result" where
  "client_destroy kw user cl = (case cl_queue cl of
     [] \<Rightarrow> Inr cl
   | cid # cids \<Rightarrow> (case cl_objs cl cid of
       None \<Rightarrow> Inl (Undefined_Behaviour ''dangling connection'')
     | Some (n, c) \<Rightarrow> bindE (connectDestroyed kw user c) (\<lambda>c'.
         Inr (cl\<lparr>cl_queue := cids, cl_objs := (cl_objs cl)(cid \<mapsto> (n, c'))\<rparr>))))"

text \<open>
  The destructor: with a connection, replace its close callback; otherwise stop the connector and
  keep it alive for one second by a timer.
\<close>

definition TcpClient_dtor :: "bool \<Rightarrow> tclient \<Rightarrow> tclient result" where
  "TcpClient_dtor inLoop cl =
     (if cl_connection cl \<noteq> None then Inr (cl\<lparr>cl_detached := True\<rparr>)
      else bindE (cn_stop inLoop (cl_connector cl)) (\<lambda>c. Inr (cl\<lparr>cl_connector := c, cl_detached := True\<rparr>)))"

section \<open>The life of a client\<close>

text \<open>The connector's own steps, between the client's: its error handler, timers and functors.\<close>

inductive cl_step :: "kernel_write \<Rightarrow> user \<Rightarrow> tclient \<Rightarrow> tclient \<Rightarrow> bool" for kw user where
  retries: "cl_step kw user cl (enableRetry cl)"
| connects: "TcpClient_connect inLoop sock e cl = Inr cl' \<Longrightarrow> cl_step kw user cl cl'"
| disconnects: "cl_step kw user cl (TcpClient_disconnect inLoop cl)"
| stops_client: "TcpClient_stop inLoop cl = Inr cl' \<Longrightarrow> cl_step kw user cl cl'"
| writes_client: "cn_state (cl_connector cl) = CnConnecting \<Longrightarrow>
    client_handleWrite kw user peer err self cl = Inr cl' \<Longrightarrow> cl_step kw user cl cl'"
| errs: "cn_state (cl_connector cl) = CnConnecting \<Longrightarrow> cn_handleError (cl_connector cl) = Inr c \<Longrightarrow>
    cl_step kw user cl (cl\<lparr>cl_connector := c\<rparr>)"
| timer_client: "cn_timers (cl_connector cl) \<noteq> [] \<Longrightarrow> startInLoop sock e (cl_connector cl) = Inr c \<Longrightarrow>
    cl_step kw user cl (cl\<lparr>cl_connector := c\<rparr>)"
| functors_client: "cn_queue (cl_connector cl) = f # fs \<Longrightarrow>
    run_connector_functor sock e f ((cl_connector cl)\<lparr>cn_queue := fs\<rparr>) = Inr c \<Longrightarrow>
    cl_step kw user cl (cl\<lparr>cl_connector := c\<rparr>)"
| conn_events: "cl_objs cl cid = Some (n, c) \<Longrightarrow> event_ok ev c \<Longrightarrow> client_event kw user sock e cid ev cl = Inr cl' \<Longrightarrow>
    cl_step kw user cl cl'"
| destroys: "client_destroy kw user cl = Inr cl' \<Longrightarrow> cl_step kw user cl cl'"

text \<open>
  At most one connection is open, and it is \<open>connection_\<close>; while there is one the connector is in the
  state \<open>kConnected\<close>, in which it opens no socket. A connection whose destruction is queued is closed
  and still registered, and queued once.
\<close>

definition client_obj_ok :: "tclient \<Rightarrow> nat \<Rightarrow> tconn \<Rightarrow> bool" where
  "client_obj_ok cl cid c \<longleftrightarrow> cid < cl_nextConnId cl \<and> conn_ok c \<and> t_state c \<noteq> kConnecting \<and>
     (t_state c \<noteq> kDisconnected \<longleftrightarrow> cl_connection cl = Some cid) \<and>
     count_list (cl_queue cl) cid = (if t_state c = kDisconnected \<and> \<not> removed c then 1 else 0)"

definition cl_ok :: "tclient \<Rightarrow> bool" where
  "cl_ok cl \<longleftrightarrow> (\<forall>cid n c. cl_objs cl cid = Some (n, c) \<longrightarrow> client_obj_ok cl cid c) \<and>
     (\<forall>cid. cl_connection cl = Some cid \<longrightarrow> cl_objs cl cid \<noteq> None \<and> cn_state (cl_connector cl) = CnConnected) \<and>
     (\<forall>cid \<in> set (cl_queue cl). cl_objs cl cid \<noteq> None) \<and> \<not> cl_detached cl"

lemma cl_okD:
  assumes "cl_ok cl"
  shows "cl_objs cl cid = Some (n, c) \<Longrightarrow> client_obj_ok cl cid c"
    "cl_connection cl = Some cid \<Longrightarrow> cl_objs cl cid \<noteq> None \<and> cn_state (cl_connector cl) = CnConnected"
    "cid \<in> set (cl_queue cl) \<Longrightarrow> cl_objs cl cid \<noteq> None" "\<not> cl_detached cl"
  using assms unfolding cl_ok_def by blast+

text \<open>Connector steps that keep the state \<open>kConnected\<close>.\<close>

definition cn_keeps :: "connector \<Rightarrow> connector \<Rightarrow> bool" where
  "cn_keeps c c' \<longleftrightarrow> (cn_state c = CnConnected \<longrightarrow> cn_state c' = CnConnected)"

lemma cn_keeps_steps:
  "startInLoop sock e c = Inr c' \<Longrightarrow> cn_keeps c c'"
  "stopInLoop c = Inr c' \<Longrightarrow> cn_keeps c c'"
  "cn_handleError c = Inr c' \<Longrightarrow> cn_keeps c c'"
  by (auto simp: startInLoop_def stopInLoop_def cn_handleError_def cn_keeps_def)

lemma cn_keeps_calls:
  "cn_start inLoop sock e c = Inr c' \<Longrightarrow> cn_keeps c c'"
  "cn_stop inLoop c = Inr c' \<Longrightarrow> cn_keeps c c'"
  by (auto simp: cn_start_def cn_stop_def startInLoop_def stopInLoop_def cn_keeps_def Let_def split: if_splits)

lemma cn_keeps_functor:
  "run_connector_functor sock e f (c\<lparr>cn_queue := fs\<rparr>) = Inr c' \<Longrightarrow> cn_keeps c c'"
  by (cases f) (auto simp: resetChannel_def cn_keeps_def dest: cn_keeps_steps)

lemma cl_ok_connector:
  assumes "cl_ok cl" and "cn_keeps (cl_connector cl) c"
  shows "cl_ok (cl\<lparr>cl_connector := c\<rparr>)" "cl_ok (cl\<lparr>cl_connect := b, cl_connector := c\<rparr>)"
  using assms by (auto simp: cl_ok_def client_obj_ok_def cn_keeps_def)

text \<open>A step that changes one connection object, which keeps its place in the life cycle.\<close>

lemma cl_ok_quiet:
  assumes ok: "cl_ok cl" and c: "cl_objs cl cid = Some (n, c)" and c': "conn_ok c'" "quiet c c'"
  shows "cl_ok (cl\<lparr>cl_objs := (cl_objs cl)(cid \<mapsto> (n, c'))\<rparr>)"
proof -
  have "client_obj_ok cl cid c'"
    using cl_okD(1) [OF ok c] c' by (auto simp: client_obj_ok_def quiet_def)
  then show ?thesis using ok by (auto simp: cl_ok_def client_obj_ok_def)
qed

lemma handleWrite_handed:
  assumes "cn_handleWrite err self c = Inr c'"
  shows "length (cn_handed c) < length (cn_handed c') \<Longrightarrow> cn_state c' = CnConnected"
  using assms by (auto simp: cn_handleWrite_def removeAndResetChannel_def cn_retry_def cn_close_def Let_def
      split: if_splits option.splits)

lemma newConnection_ok:
  assumes kw: "write_ok kw" "user_ok user" and ok: "cl_ok cl" and none: "cl_connection cl = None"
    and st: "cn_state (cl_connector cl) = CnConnected"
    and run: "TcpClient_newConnection kw user peer fd cl = Inr cl'"
  shows "cl_ok cl'"
proof -
  let ?cid = "cl_nextConnId cl"
  let ?conn = "newConn ?cid fd (cl_writeComplete cl) False"
  from run obtain nm c where c: "connectEstablished kw user ?conn = Inr c"
    and cl': "cl' = cl\<lparr>cl_nextConnId := ?cid + 1, cl_connection := Some ?cid, cl_objs := (cl_objs cl)(?cid \<mapsto> (nm, c))\<rparr>"
    by (auto simp: TcpClient_newConnection_def Let_def)
  have "advances ?conn c" using connectEstablished_keeps [OF kw newConn_ok] c by (auto simp: keeps_def)
  moreover have "is_open c" "removed c = removed ?conn" using connectEstablished_phase [OF c] by auto
  moreover have "?cid \<notin> set (cl_queue cl)"
    using cl_okD(1) [OF ok] cl_okD(3) [OF ok, of ?cid] by (force simp: client_obj_ok_def)
  moreover have "\<not> removed ?conn" by (simp add: newConn_def removed_def)
  ultimately have "client_obj_ok cl' ?cid c"
    by (auto simp: cl' client_obj_ok_def advances_def count_list_0_iff)
  moreover have "client_obj_ok cl' i d \<and> i \<noteq> ?cid" if "cl_objs cl i = Some (m, d)" for i m d
    using cl_okD(1) [OF ok that] none by (auto simp: cl' client_obj_ok_def)
  ultimately show ?thesis using cl_okD(3,4) [OF ok] st by (auto simp: cl_ok_def cl' split: if_splits)
qed

lemma client_write_ok:
  assumes kw: "write_ok kw" "user_ok user" and ok: "cl_ok cl"
    and st: "cn_state (cl_connector cl) = CnConnecting"
    and run: "client_handleWrite kw user peer err self cl = Inr cl'"
  shows "cl_ok cl'"
proof -
  from run obtain c where c: "cn_handleWrite err self (cl_connector cl) = Inr c"
    and r: "(if length (cn_handed (cl_connector cl)) < length (cn_handed c)
      then TcpClient_newConnection kw user peer (last (cn_handed c)) (cl\<lparr>cl_connector := c\<rparr>)
      else Inr (cl\<lparr>cl_connector := c\<rparr>)) = Inr cl'"
    by (auto simp: client_handleWrite_def Let_def)
  have none: "cl_connection cl = None" using cl_okD(2) [OF ok] st by (cases "cl_connection cl") auto
  have ok': "cl_ok (cl\<lparr>cl_connector := c\<rparr>)" using ok none by (auto simp: cl_ok_def client_obj_ok_def)
  show ?thesis
  proof (cases "length (cn_handed (cl_connector cl)) < length (cn_handed c)")
    case True
    then show ?thesis using r newConnection_ok [OF kw ok', of peer "last (cn_handed c)" cl'] none
        handleWrite_handed [OF c] by simp
  qed (use r ok' in simp)
qed

lemma client_event_ok:
  assumes kw: "write_ok kw" "user_ok user" and ok: "cl_ok cl" and c: "cl_objs cl cid = Some (n, c)"
    and ev: "event_ok ev c" and run: "client_event kw user sock e cid ev cl = Inr cl'"
  shows "cl_ok cl'"
proof -
  let ?cl = "\<lambda>c'. cl\<lparr>cl_objs := (cl_objs cl)(cid \<mapsto> (n, c'))\<rparr>"
  have old: "client_obj_ok cl cid c" by (rule cl_okD(1) [OF ok c])
  from run c obtain c' where c': "run_event kw user ev c = Inr c'"
    and r: "(if closes c < closes c' then if cl_detached (?cl c') then Inr (detail_removeConnection cid (?cl c'))
        else TcpClient_removeConnection sock e cid (?cl c') else Inr (?cl c')) = Inr cl'"
    by (auto simp: client_event_def Let_def)
  have cok: "conn_ok c'"
    using step_ok [OF run_event_step [OF ev c'] kw] old by (simp add: client_obj_ok_def advances_def)
  from run_event_cases [OF c'] show ?thesis
  proof
    assume q: "quiet c c'"
    then show ?thesis using r cl_ok_quiet [OF ok c cok q] by (simp add: quiet_def)
  next
    assume en: "ends c c'"
    then have c1: "is_open c" "t_state c' = kDisconnected" "closes c < closes c'" "removed c' = removed c"
      by (auto simp: ends_def)
    then have cur: "cl_connection cl = Some cid" "count_list (cl_queue cl) cid = 0"
      using old by (auto simp: client_obj_ok_def)
    have nr: "\<not> removed c'" using open_not_removed [of c] c1 old by (auto simp: client_obj_ok_def)
    let ?d = "(?cl c')\<lparr>cl_connection := None, cl_queue := cl_queue cl @ [cid]\<rparr>"
    have "client_obj_ok ?d i d" if "cl_objs cl i = Some (m, d)" "i \<noteq> cid" for i m d
      using cl_okD(1) [OF ok that(1)] that(2) cur(1) by (auto simp: client_obj_ok_def)
    moreover have "client_obj_ok ?d cid c'" using old cok c1(2) nr cur(2) by (simp add: client_obj_ok_def)
    ultimately have d: "cl_ok (?d\<lparr>cl_connector := x\<rparr>)" for x
      using ok by (auto simp: cl_ok_def client_obj_ok_def split: if_splits)
    from d [of "cl_connector cl"] have d0: "cl_ok ?d" by simp
    have "TcpClient_removeConnection sock e cid (?cl c') = Inr cl'"
      using r c1(3) cl_okD(4) [OF ok] by simp
    then show ?thesis using d d0 cur(1)
      by (auto simp: TcpClient_removeConnection_def Let_def split: if_splits)
  qed
qed

lemma client_destroy_ok:
  assumes kw: "write_ok kw" "user_ok user" and ok: "cl_ok cl"
  shows "\<exists>cl'. client_destroy kw user cl = Inr cl' \<and> cl_ok cl'"
proof (cases "cl_queue cl")
  case Nil
  then show ?thesis using ok by (simp add: client_destroy_def)
next
  case (Cons cid cids)
  then obtain n c where c: "cl_objs cl cid = Some (n, c)" using cl_okD(3) [OF ok, of cid] by auto
  have old: "client_obj_ok cl cid c" by (rule cl_okD(1) [OF ok c])
  then have st: "t_state c = kDisconnected" "\<not> removed c" "conn_ok c" "count_list cids cid = 0"
    using Cons by (auto simp: client_obj_ok_def split: if_splits)
  from connectDestroyed_disconnected [OF st(3,1)] obtain c' where
    c': "connectDestroyed kw user c = Inr c'" "t_state c' = kDisconnected" "removed c'" by blast
  have cok: "conn_ok c'"
    using connectDestroyed_ok [OF kw st(3) _ st(2) c'(1)] st(1) by (simp add: advances_def)
  let ?cl = "cl\<lparr>cl_queue := cids, cl_objs := (cl_objs cl)(cid \<mapsto> (n, c'))\<rparr>"
  have "client_obj_ok ?cl i d" if "cl_objs cl i = Some (m, d)" "i \<noteq> cid" for i m d
    using cl_okD(1) [OF ok that(1)] that(2) Cons by (simp add: client_obj_ok_def)
  moreover have "client_obj_ok ?cl cid c'" using old cok c' st by (simp add: client_obj_ok_def)
  ultimately have "cl_ok ?cl" using ok Cons by (auto simp: cl_ok_def split: if_splits)
  then show ?thesis using c c'(1) Cons by (simp add: client_destroy_def)
qed

lemma client_disconnect_ok:
  assumes ok: "cl_ok cl"
  shows "cl_ok (TcpClient_disconnect inLoop cl)"
proof (cases "cl_connection cl")
  case None
  then show ?thesis using ok by (auto simp: TcpClient_disconnect_def cl_ok_def client_obj_ok_def)
next
  case (Some cid)
  then obtain n c where c: "cl_objs cl cid = Some (n, c)" using cl_okD(2) [OF ok] by auto
  have "conn_ok (shutdown inLoop c)"
    using shutdown_ok [of c inLoop] cl_okD(1) [OF ok c] by (simp add: client_obj_ok_def advances_def)
  then have "cl_ok (cl\<lparr>cl_objs := (cl_objs cl)(cid \<mapsto> (n, shutdown inLoop c))\<rparr>)"
    by (rule cl_ok_quiet [OF ok c]) simp
  then show ?thesis using Some c by (simp add: TcpClient_disconnect_def cl_ok_def client_obj_ok_def)
qed

lemma cl_step_ok:
  assumes kw: "write_ok kw" "user_ok user" and ok: "cl_ok cl" and step: "cl_step kw user cl cl'"
  shows "cl_ok cl'"
  using step
proof (cases rule: cl_step.cases)
  case retries
  then show ?thesis using ok by (simp add: enableRetry_def cl_ok_def client_obj_ok_def)
next
  case (connects inLoop sock e)
  then show ?thesis using cl_ok_connector(2) [OF ok cn_keeps_calls(1)]
    by (auto simp: TcpClient_connect_def)
next
  case (stops_client inLoop)
  then show ?thesis using cl_ok_connector(2) [OF ok cn_keeps_calls(2)]
    by (auto simp: TcpClient_stop_def)
next
  case (errs c)
  then show ?thesis using cl_ok_connector(1) [OF ok cn_keeps_steps(3)] by blast
next
  case (timer_client sock e c)
  then show ?thesis using cl_ok_connector(1) [OF ok cn_keeps_steps(1)] by blast
next
  case (functors_client f fs sock e c)
  then show ?thesis using cl_ok_connector(1) [OF ok cn_keeps_functor] by blast
next
  case (destroys)
  then show ?thesis using client_destroy_ok [OF kw ok] by auto
qed (use client_disconnect_ok [OF ok] client_write_ok [OF kw ok] client_event_ok [OF kw ok] in blast)+

definition cl_init :: "tclient \<Rightarrow> bool" where
  "cl_init cl \<longleftrightarrow> (\<exists>name. cl = newTcpClient name)"

definition cl_inv :: "kernel_write \<Rightarrow> user \<Rightarrow> tclient \<Rightarrow> bool" where
  "cl_inv kw user cl \<longleftrightarrow> (write_ok kw \<and> user_ok user \<longrightarrow> cl_ok cl)"

interpretation client: step_invariant cl_init "cl_step kw user" "cl_inv kw user" for kw user
proof unfold_locales
  show "cl_init cl \<Longrightarrow> cl_inv kw user cl" for cl
    by (auto simp: cl_init_def cl_inv_def newTcpClient_def cl_ok_def)
  show "cl_inv kw user cl \<Longrightarrow> cl_step kw user cl cl' \<Longrightarrow> cl_inv kw user cl'" for cl cl'
    by (auto simp: cl_inv_def intro: cl_step_ok)
qed

section \<open>Properties\<close>

text \<open>
  C11. A client has at most one open connection at any time: an object that is not closed is the one
  \<open>connection_\<close> points to, and while there is one the connector is connected and opens no socket, so
  \<open>newConnection\<close> never overwrites a live connection. When that connection closes, the assertion
  \<open>connection_ == conn\<close> of \<open>removeConnection\<close> holds, and every queued destruction runs to the end.
\<close>

theorem client_single_connection:
  assumes "write_ok kw" and "user_ok user" and "reach cl_init (cl_step kw user) cl"
  shows "(\<forall>cid n c. cl_objs cl cid = Some (n, c) \<and> t_state c \<noteq> kDisconnected \<longrightarrow>
      cl_connection cl = Some cid \<and> cn_state (cl_connector cl) = CnConnected) \<and>
    (\<forall>cid n c c' ev sock e. cl_objs cl cid = Some (n, c) \<and> run_event kw user ev c = Inr c' \<and> closes c < closes c' \<longrightarrow>
      client_event kw user sock e cid ev cl \<noteq> Inl (AssertionFailed ''connection_ == conn'')) \<and>
    (\<exists>cl'. client_destroy kw user cl = Inr cl')"
proof (intro conjI allI impI; (elim conjE)?)
  have ok: "cl_ok cl" using client.reach_inv [OF assms(3)] assms(1,2) by (simp add: cl_inv_def)
  show "cl_connection cl = Some cid" "cn_state (cl_connector cl) = CnConnected"
    if "cl_objs cl cid = Some (n, c)" "t_state c \<noteq> kDisconnected" for cid n c
    using cl_okD(1) [OF ok that(1)] cl_okD(2) [OF ok, of cid] that(2) by (auto simp: client_obj_ok_def)
  show "client_event kw user sock e cid ev cl \<noteq> Inl (AssertionFailed ''connection_ == conn'')"
    if h: "cl_objs cl cid = Some (n, c)" "run_event kw user ev c = Inr c'" "closes c < closes c'" for cid n c c' ev sock e
  proof -
    have "is_open c" using run_event_cases [OF h(2)] h(3) by (auto simp: quiet_def ends_def)
    then have cur: "cl_connection cl = Some cid" using cl_okD(1) [OF ok h(1)] by (auto simp: client_obj_ok_def)
    have "startInLoop sock e c1 \<noteq> Inl (AssertionFailed ''connection_ == conn'')" for c1
      by (auto simp: startInLoop_def assertE_def cn_do_connect_def createNonblockingOrDie_def cn_connecting_def
          Let_def split: sum.splits)
    then show ?thesis using h cur cl_okD(4) [OF ok]
      by (auto simp: client_event_def TcpClient_removeConnection_def cn_restart_def Let_def bindE_def
          split: sum.splits)
  qed
  show "\<exists>cl'. client_destroy kw user cl = Inr cl'" using client_destroy_ok [OF assms(1,2) ok] by blast
qed

text \<open>A client whose first attempt succeeds.\<close>

definition silent_user :: user where
  "silent_user ev c = []"

lemma silent_user_ok: "user_ok silent_user"
  by (simp add: user_ok_def silent_user_def)

lemma demo_client:
  obtains cl c where "reach cl_init (cl_step demo_write silent_user) cl" "cl_objs cl 1 = Some c"
    "cl_connection cl = Some 1"
proof -
  let ?cl0 = "newTcpClient ''cli''"
  let ?c1 = "newConnector\<lparr>cn_connect := True, cn_created := [7], cn_state := CnConnecting, cn_channel := Some 7\<rparr>"
  let ?cl1 = "?cl0\<lparr>cl_connect := True, cl_connector := ?c1\<rparr>"
  have "TcpClient_connect True (Inr 7) (Some EINPROGRESS) ?cl0 = Inr ?cl1"
    by (simp add: TcpClient_connect_def cn_start_def startInLoop_def cn_do_connect_def createNonblockingOrDie_def
        cn_connecting_def newTcpClient_def newConnector_def Let_def)
  then have s1: "cl_step demo_write silent_user ?cl0 ?cl1" by (rule connects)
  obtain c where c: "connectEstablished demo_write silent_user (newConn 1 7 False False) = Inr c"
    by (simp add: connectEstablished_def callback_def silent_user_def Let_def)
  obtain nm where "client_handleWrite demo_write silent_user (Inr zero_addr) None False ?cl1 =
      Inr (?cl1\<lparr>cl_connector := ?c1\<lparr>cn_queue := [CnResetChannel], cn_state := CnConnected, cn_handed := [7]\<rparr>,
        cl_nextConnId := 2, cl_connection := Some 1, cl_objs := [1 \<mapsto> (nm, c)]\<rparr>)"
    using c by (auto simp: client_handleWrite_def cn_handleWrite_def removeAndResetChannel_def
        TcpClient_newConnection_def InetAddress_toIpPort_def toIpPort_exact newTcpClient_def newConnector_def Let_def)
  then obtain cl2 where w: "client_handleWrite demo_write silent_user (Inr zero_addr) None False ?cl1 = Inr cl2"
    and cl2: "cl_objs cl2 1 = Some (nm, c)" "cl_connection cl2 = Some 1" by simp
  have s2: "cl_step demo_write silent_user ?cl1 cl2" by (rule writes_client [OF _ w]) simp
  have r0: "reach cl_init (cl_step demo_write silent_user) ?cl0" by (rule reach_init) (auto simp: cl_init_def)
  have r1: "reach cl_init (cl_step demo_write silent_user) ?cl1" by (rule reach_step [where s = ?cl0]) (rule r0, rule s1)
  have r2: "reach cl_init (cl_step demo_write silent_user) cl2" by (rule reach_step [where s = ?cl1]) (rule r1, rule s2)
  show thesis by (rule that [OF r2 cl2])
qed

theorem client_single_connection_witness:
  "\<exists>cl cl'. reach cl_init (cl_step demo_write silent_user) cl \<and> cl_connection cl = Some 1 \<and>
     client_destroy demo_write silent_user cl = Inr cl'"
proof -
  from demo_client obtain cl c where r: "reach cl_init (cl_step demo_write silent_user) cl"
    "cl_connection cl = Some 1" by blast
  from client_single_connection [OF demo_write_ok silent_user_ok r(1)] r show ?thesis by blast
qed

end
