(* ===== verification/Http.thy ===== *)
theory Http
  imports Tcp_Events Std_Map Decimal
begin

text \<open>
  \<open>src/muduo/net/http\<close>: the request parser, the response printer and the server's message handler.

  A request is parsed line by line out of the connection's input buffer; the parser state is kept
  between messages in the context bound to the connection. The loop of \<open>parseRequest\<close> does not
  return in the states \<open>kExpectBody\<close> and \<open>kGotAll\<close>, so it is a \<open>partial_function\<close> whose value
  \<open>None\<close> is not returning. \<open>http_lines\<close> is the same parser on strings, total and without buffer.
\<close>

section \<open>Requests\<close>

datatype http_method = kInvalid | kGet | kPost | kHead | kPut | kDelete

datatype http_version = kUnknown | kHttp10 | kHttp11

record http_request =
  rq_method :: http_method
  rq_version :: http_version
  rq_path :: string
  rq_receiveTime :: int
  rq_headers :: "(string, string) std_map"

definition newHttpRequest :: http_request where
  "newHttpRequest = \<lparr>rq_method = kInvalid, rq_version = kUnknown, rq_path = [], rq_receiveTime = 0, rq_headers = []\<rparr>"

definition method_of :: "string \<Rightarrow> http_method" where
  "method_of m = (if m = ''GET'' then kGet else if m = ''POST'' then kPost else if m = ''HEAD'' then kHead
     else if m = ''PUT'' then kPut else if m = ''DELETE'' then kDelete else kInvalid)"

definition setMethod :: "string \<Rightarrow> http_request \<Rightarrow> (bool \<times> http_request) result" where
  "setMethod m rq =
     bindE (assertE (rq_method rq = kInvalid) ''method_ == kInvalid'') (\<lambda>_.
     let rq' = rq\<lparr>rq_method := method_of m\<rparr> in Inr (rq_method rq' \<noteq> kInvalid, rq'))"

fun methodString :: "http_method \<Rightarrow> string" where
  "methodString kGet = ''GET''"
| "methodString kPost = ''POST''"
| "methodString kHead = ''HEAD''"
| "methodString kPut = ''PUT''"
| "methodString kDelete = ''DELETE''"
| "methodString kInvalid = ''UNKNOWN''"

definition setPath :: "string \<Rightarrow> http_request \<Rightarrow> http_request" where
  "setPath p rq = rq\<lparr>rq_path := p\<rparr>"

definition setReceiveTime :: "int \<Rightarrow> http_request \<Rightarrow> http_request" where
  "setReceiveTime t rq = rq\<lparr>rq_receiveTime := t\<rparr>"

text \<open>\<open>isspace\<close> in the C locale.\<close>

definition isspace :: "char \<Rightarrow> bool" where
  "isspace c \<longleftrightarrow> of_char c \<in> {9, 10, 11, 12, 13, 32 :: nat}"

text \<open>\<open>addHeader(start, colon, end)\<close>, on the line between \<open>start\<close> and \<open>end\<close>.\<close>

definition addHeader :: "string \<Rightarrow> nat \<Rightarrow> http_request \<Rightarrow> http_request" where
  "addHeader line colon rq =
     (let field = take colon line;
          value = dropWhile isspace (drop (colon + 1) line);
          value' = rev (dropWhile isspace (rev value)) in
      rq\<lparr>rq_headers := map_put field value' (rq_headers rq)\<rparr>)"

definition getHeader :: "string \<Rightarrow> http_request \<Rightarrow> string" where
  "getHeader field rq = (case map_of (rq_headers rq) field of None \<Rightarrow> [] | Some v \<Rightarrow> v)"

text \<open>\<open>swap\<close> exchanges all members but \<open>version_\<close>.\<close>

definition swap_request :: "http_request \<Rightarrow> http_request \<Rightarrow> http_request \<times> http_request" where
  "swap_request a b =
     (a\<lparr>rq_method := rq_method b, rq_path := rq_path b, rq_receiveTime := rq_receiveTime b, rq_headers := rq_headers b\<rparr>,
      b\<lparr>rq_method := rq_method a, rq_path := rq_path a, rq_receiveTime := rq_receiveTime a, rq_headers := rq_headers a\<rparr>)"

section \<open>The parser\<close>

datatype parse_state = kExpectRequestLine | kExpectHeaders | kExpectBody | kGotAll

record http_context =
  hc_state :: parse_state
  hc_request :: http_request

definition newHttpContext :: http_context where
  "newHttpContext = \<lparr>hc_state = kExpectRequestLine, hc_request = newHttpRequest\<rparr>"

definition expectRequestLine :: "http_context \<Rightarrow> bool" where
  "expectRequestLine c \<longleftrightarrow> hc_state c = kExpectRequestLine"

definition expectHeaders :: "http_context \<Rightarrow> bool" where
  "expectHeaders c \<longleftrightarrow> hc_state c = kExpectHeaders"

definition gotAll :: "http_context \<Rightarrow> bool" where
  "gotAll c \<longleftrightarrow> hc_state c = kGotAll"

definition receiveRequestLine :: "http_context \<Rightarrow> http_context" where
  "receiveRequestLine c = c\<lparr>hc_state := kExpectHeaders\<rparr>"

definition receiveHeaders :: "http_context \<Rightarrow> http_context" where
  "receiveHeaders c = c\<lparr>hc_state := kGotAll\<rparr>"

definition reset_context :: "http_context \<Rightarrow> http_context" where
  "reset_context c = c\<lparr>hc_state := kExpectRequestLine, hc_request := fst (swap_request (hc_request c) newHttpRequest)\<rparr>"

text \<open>\<open>processRequestLine(begin, end, context)\<close>, on the bytes between \<open>begin\<close> and \<open>end\<close>.\<close>

definition processRequestLine :: "string \<Rightarrow> http_context \<Rightarrow> (bool \<times> http_context) result" where
  "processRequestLine line ctx =
     (let space = find_char (CHR '' '') line in
      if space \<noteq> length line then
        bindE (setMethod (take space line) (hc_request ctx)) (\<lambda>(valid, rq).
        if valid then
          let rest = drop (space + 1) line;
              space' = find_char (CHR '' '') rest in
          if space' \<noteq> length rest then
            let rq' = setPath (take space' rest) rq;
                ver = drop (space' + 1) rest in
            if length ver = 8 \<and> take 7 ver = ''HTTP/1.'' then
              if ver ! 7 = CHR ''1'' then Inr (True, ctx\<lparr>hc_request := rq'\<lparr>rq_version := kHttp11\<rparr>\<rparr>)
              else if ver ! 7 = CHR ''0'' then Inr (True, ctx\<lparr>hc_request := rq'\<lparr>rq_version := kHttp10\<rparr>\<rparr>)
              else Inr (False, ctx\<lparr>hc_request := rq'\<rparr>)
            else Inr (False, ctx\<lparr>hc_request := rq'\<rparr>)
          else Inr (False, ctx\<lparr>hc_request := rq\<rparr>)
        else Inr (False, ctx\<lparr>hc_request := rq\<rparr>))
      else Inr (False, ctx))"

text \<open>
  One round of the loop in \<open>parseRequest\<close>: the new values of \<open>ok\<close> and \<open>hasMore\<close>, the buffer and the
  context. In the other two states a round does nothing.
\<close>

definition parse_round :: "bool \<Rightarrow> buffer \<Rightarrow> http_context \<Rightarrow> int \<Rightarrow> (bool \<times> bool \<times> buffer \<times> http_context) result" where
  "parse_round okay buf ctx t =
     (if expectRequestLine ctx then
        case findCRLF buf of
          Some crlf \<Rightarrow>
            bindE (processRequestLine (take (crlf - peek buf) (contents buf)) ctx) (\<lambda>(okay', ctx1).
            if okay' then
              let ctx2 = ctx1\<lparr>hc_request := setReceiveTime t (hc_request ctx1)\<rparr> in
              bindE (retrieveUntil (crlf + 2) buf) (\<lambda>buf'. Inr (okay', True, buf', receiveRequestLine ctx2))
            else Inr (okay', False, buf, ctx1))
        | None \<Rightarrow> Inr (okay, False, buf, ctx)
      else if expectHeaders ctx then
        case findCRLF buf of
          Some crlf \<Rightarrow>
            let line = take (crlf - peek buf) (contents buf);
                colon = find_char (CHR '':'') line;
                ctx1 = (if colon \<noteq> length line then ctx\<lparr>hc_request := addHeader line colon (hc_request ctx)\<rparr>
                        else receiveHeaders ctx);
                hasMore = (if colon \<noteq> length line then True else \<not> gotAll ctx1) in
            bindE (retrieveUntil (crlf + 2) buf) (\<lambda>buf'. Inr (okay, hasMore, buf', ctx1))
        | None \<Rightarrow> Inr (okay, False, buf, ctx)
      else Inr (okay, True, buf, ctx))"

partial_function (option) parse_loop ::
  "bool \<Rightarrow> buffer \<Rightarrow> http_context \<Rightarrow> int \<Rightarrow> (bool \<times> buffer \<times> http_context) result option" where
  "parse_loop okay buf ctx t = (case parse_round okay buf ctx t of
     Inl e \<Rightarrow> Some (Inl e)
   | Inr (okay', hasMore, buf', ctx') \<Rightarrow>
       if hasMore then parse_loop okay' buf' ctx' t else Some (Inr (okay', buf', ctx')))"

definition parseRequest :: "buffer \<Rightarrow> http_context \<Rightarrow> int \<Rightarrow> (bool \<times> buffer \<times> http_context) result option" where
  "parseRequest buf ctx t = parse_loop True buf ctx t"

section \<open>Responses\<close>

datatype http_status = kUnknownStatus | k200Ok | k301MovedPermanently | k400BadRequest | k404NotFound

fun status_value :: "http_status \<Rightarrow> nat" where
  "status_value kUnknownStatus = 0"
| "status_value k200Ok = 200"
| "status_value k301MovedPermanently = 301"
| "status_value k400BadRequest = 400"
| "status_value k404NotFound = 404"

record http_response =
  rs_headers :: "(string, string) std_map"
  rs_statusCode :: http_status
  rs_statusMessage :: string
  rs_closeConnection :: bool
  rs_body :: string

definition newHttpResponse :: "bool \<Rightarrow> http_response" where
  "newHttpResponse close = \<lparr>rs_headers = [], rs_statusCode = kUnknownStatus, rs_statusMessage = [],
     rs_closeConnection = close, rs_body = []\<rparr>"

definition addHeader_response :: "string \<Rightarrow> string \<Rightarrow> http_response \<Rightarrow> http_response" where
  "addHeader_response k v r = r\<lparr>rs_headers := map_put k v (rs_headers r)\<rparr>"

definition setContentType :: "string \<Rightarrow> http_response \<Rightarrow> http_response" where
  "setContentType ct r = addHeader_response ''Content-Type'' ct r"

text \<open>\<open>appendToBuffer\<close>: the pieces in the order in which they are appended.\<close>

definition as_piece :: "string \<Rightarrow> char list \<times> int" where
  "as_piece s = (s, cast_int (int (length s)))"

definition append_all :: "string list \<Rightarrow> buffer \<Rightarrow> buffer result" where
  "append_all ss buf = foldE (\<lambda>s. appendPiece (as_piece s)) ss buf"

definition header_pieces :: "string \<times> string \<Rightarrow> string list" where
  "header_pieces h = [fst h, '': '', snd h, kCRLF]"

definition appendToBuffer :: "http_response \<Rightarrow> buffer \<Rightarrow> buffer result" where
  "appendToBuffer r output =
     append_all ([snprintf 32 (''HTTP/1.1 '' @ dec (status_value (rs_statusCode r)) @ '' ''), rs_statusMessage r, kCRLF] @
       (if rs_closeConnection r then [''Connection: close'' @ kCRLF]
        else [snprintf 32 (''Content-Length: '' @ dec (length (rs_body r)) @ kCRLF), ''Connection: Keep-Alive'' @ kCRLF]) @
       concat (map header_pieces (rs_headers r)) @
       [kCRLF, rs_body r]) output"

definition defaultHttpCallback :: "http_request \<Rightarrow> http_response \<Rightarrow> http_response result" where
  "defaultHttpCallback rq r =
     Inr (r\<lparr>rs_statusCode := k404NotFound, rs_statusMessage := ''Not Found'', rs_closeConnection := True\<rparr>)"

section \<open>The server\<close>

type_synonym http_callback = "http_request \<Rightarrow> http_response \<Rightarrow> http_response result"

definition http_onConnection :: "tconn \<Rightarrow> http_context option \<Rightarrow> http_context option" where
  "http_onConnection conn ctx = (if connected conn then Some newHttpContext else ctx)"

definition wants_close :: "http_request \<Rightarrow> bool" where
  "wants_close req \<longleftrightarrow> (let connection = getHeader ''Connection'' req in
     connection = ''close'' \<or> (rq_version req = kHttp10 \<and> connection \<noteq> ''Keep-Alive''))"

definition onRequest :: "kernel_write \<Rightarrow> http_callback \<Rightarrow> http_request \<Rightarrow> tconn \<Rightarrow> tconn result" where
  "onRequest kw cb req conn =
     (let close = wants_close req in
      bindE (cb req (newHttpResponse close)) (\<lambda>response.
      bindE (appendToBuffer response newBuffer) (\<lambda>buf.
      bindE (send_buffer kw True buf conn) (\<lambda>(conn', _).
      Inr (if rs_closeConnection response then shutdown True conn' else conn')))))"

definition bad_request :: string where
  "bad_request = ''HTTP/1.1 400 Bad Request'' @ kCRLF @ kCRLF"

text \<open>\<open>onMessage\<close>, on the connection whose input buffer is \<open>buf\<close>; \<open>None\<close> when the parser does not return.\<close>

definition http_onMessage ::
  "kernel_write \<Rightarrow> http_callback \<Rightarrow> int \<Rightarrow> tconn \<Rightarrow> http_context \<Rightarrow> (tconn \<times> http_context) result option" where
  "http_onMessage kw cb t conn ctx = (case parseRequest (t_in conn) ctx t of
     None \<Rightarrow> None
   | Some (Inl e) \<Rightarrow> Some (Inl e)
   | Some (Inr (okay, buf, ctx1)) \<Rightarrow> Some (
       let conn1 = conn\<lparr>t_in := buf\<rparr> in
       bindE (if \<not> okay then bindE (send kw True bad_request conn1) (\<lambda>c. Inr (shutdown True c)) else Inr conn1) (\<lambda>conn2.
       if gotAll ctx1 then
         bindE (onRequest kw cb (hc_request ctx1) conn2) (\<lambda>conn3. Inr (conn3, reset_context ctx1))
       else Inr (conn2, ctx1))))"

section \<open>The parser on strings\<close>

text \<open>The first line of a string and what follows its CRLF, if there is one.\<close>

definition split_line :: "string \<Rightarrow> (string \<times> string) option" where
  "split_line s = (let k = search kCRLF s in
     if k = length s then None else Some (take k s, drop (k + 2) s))"

lemma split_line_found: "split_line s = Some p \<Longrightarrow> search kCRLF s < length s"
  using search_le [of kCRLF s] by (auto simp: split_line_def Let_def nat_less_le split: if_splits)

lemma split_line_Some:
  assumes "split_line s = Some (line, rest)"
  shows "s = line @ kCRLF @ rest" "length line = search kCRLF s"
proof -
  let ?k = "search kCRLF s"
  have k: "?k < length s" by (rule split_line_found [OF assms])
  have l: "line = take ?k s" and r: "rest = drop (?k + 2) s"
    using assms by (auto simp: split_line_def Let_def split: if_splits)
  from search_decomp [OF _ k] obtain pre post where "s = pre @ kCRLF @ post" "length pre = ?k"
    by (auto simp: kCRLF_def)
  then show "s = line @ kCRLF @ rest" "length line = ?k" using l r by (auto simp: kCRLF_def)
qed

lemma split_line_shorter: "split_line s = Some (line, rest) \<Longrightarrow> length rest < length s"
  using split_line_Some(1) [of s line rest] by (simp add: kCRLF_def)

lemma search_append_found:
  assumes "pat \<noteq> []" and "search pat xs < length xs"
  shows "search pat (xs @ ys) = search pat xs"
  using assms(2)
proof (induction xs)
  case (Cons x xs)
  show ?case
  proof (cases "take (length pat) (x # xs) = pat")
    case True
    then have "length pat \<le> length (x # xs)" by (metis length_take min.absorb_iff2)
    then have "take (length pat) (x # xs @ ys) = pat" using True
      by (metis append_Cons take_all_iff take_append diff_is_0_eq' take0 append_Nil2)
    then show ?thesis using True by simp
  next
    case False
    then have "search pat xs < length xs" using Cons.prems by (simp split: if_splits)
    moreover from this have "take (length pat) (x # xs @ ys) = take (length pat) (x # xs)"
    proof -
      have "length pat \<le> length xs"
        using search_fits [OF assms(1) calculation] by simp
      then show ?thesis by (cases "length pat") auto
    qed
    ultimately show ?thesis using False Cons.IH by simp
  qed
qed simp

lemma split_line_append:
  assumes "split_line s = Some (line, rest)"
  shows "split_line (s @ x) = Some (line, rest @ x)"
proof -
  have k: "search kCRLF s < length s" by (rule split_line_found [OF assms])
  then have "search kCRLF (s @ x) = search kCRLF s" by (rule search_append_found [rotated]) (simp add: kCRLF_def)
  moreover have "search kCRLF s + 2 \<le> length s" using search_fits [OF _ k] by (simp add: kCRLF_def)
  ultimately show ?thesis using assms k by (auto simp: split_line_def Let_def split: if_splits)
qed

text \<open>A line without carriage return is found whole.\<close>

lemma search_crlf_line:
  assumes "CHR 0x0D \<notin> set line"
  shows "search kCRLF (line @ kCRLF @ rest) = length line"
  using assms by (induction line) (auto simp: kCRLF_def take_Cons')

lemma split_line_line:
  assumes "CHR 0x0D \<notin> set line"
  shows "split_line (line @ kCRLF @ rest) = Some (line, rest)"
  using search_crlf_line [OF assms, of rest] by (simp add: split_line_def Let_def kCRLF_def)

text \<open>The reference parser: header lines one after the other, until the empty line.\<close>

function http_lines :: "string \<Rightarrow> http_context \<Rightarrow> int \<Rightarrow> (bool \<times> string \<times> http_context) result" where
  "http_lines s ctx t =
     (case split_line s of
        None \<Rightarrow> Inr (True, s, ctx)
      | Some (line, rest) \<Rightarrow>
          if hc_state ctx = kExpectRequestLine then
            bindE (processRequestLine line ctx) (\<lambda>(valid, ctx1).
            if valid then http_lines rest (receiveRequestLine (ctx1\<lparr>hc_request := setReceiveTime t (hc_request ctx1)\<rparr>)) t
            else Inr (False, s, ctx1))
          else if CHR '':'' \<in> set line then
            http_lines rest (ctx\<lparr>hc_request := addHeader line (find_char (CHR '':'') line) (hc_request ctx)\<rparr>) t
          else Inr (True, rest, receiveHeaders ctx))"
  by pat_completeness auto

termination
  by (relation "measure (\<lambda>(s, _). length s)") (auto dest: split_line_shorter)

declare http_lines.simps [simp del]

text \<open>The line the buffer code finds is the line of the reference parser.\<close>

lemma findCRLF_split:
  assumes "buf_ok b"
  shows "(findCRLF b = None \<longleftrightarrow> split_line (contents b) = None) \<and>
    (\<forall>i. findCRLF b = Some i \<longrightarrow> (\<exists>rest b'. split_line (contents b) = Some (take (i - peek b) (contents b), rest) \<and>
      retrieveUntil (i + 2) b = Inr b' \<and> buf_ok b' \<and> contents b' = rest))"
proof -
  have len: "readerIndex b + length (contents b) = writerIndex b"
    using assms by (auto simp: buf_ok_def length_contents)
  have f: "findCRLF b = (let k = search kCRLF (contents b) in if k = length (contents b) then None else Some (readerIndex b + k))"
    using len by (auto simp: findCRLF_def peek_def beginWrite_def Let_def)
  have "\<exists>b'. retrieveUntil (i + 2) b = Inr b' \<and> buf_ok b' \<and> contents b' = drop (search kCRLF (contents b) + 2) (contents b)"
    if i: "findCRLF b = Some i" for i
  proof -
    from i have i': "i = readerIndex b + search kCRLF (contents b)" by (auto simp: f Let_def split: if_splits)
    from findCRLF_Some [OF assms i] have "i + 2 \<le> writerIndex b" by blast
    from retrieveUntil_ok [OF assms _ this] i' show ?thesis by auto
  qed
  then show ?thesis by (fastforce simp: f split_line_def Let_def peek_def split: if_splits)
qed

lemma parse_round_state:
  assumes "parse_round okay b ctx t = Inr (okay', hasMore, b', ctx')" and "hasMore"
    and "hc_state ctx = kExpectRequestLine \<or> hc_state ctx = kExpectHeaders"
  shows "hc_state ctx' = kExpectHeaders"
  using assms by (auto simp: parse_round_def expectRequestLine_def expectHeaders_def receiveRequestLine_def
      receiveHeaders_def gotAll_def Let_def split: option.splits if_splits)

lemma processRequestLine_state:
  "processRequestLine line ctx = Inr (valid, ctx') \<Longrightarrow> hc_state ctx' = hc_state ctx"
  by (auto simp: processRequestLine_def Let_def split: if_splits)

lemma addHeader_state [simp]: "hc_state (ctx\<lparr>hc_request := r\<rparr>) = hc_state ctx"
  by simp

text \<open>The loop on the buffer returns, and computes what the reference parser computes.\<close>

definition parse_agrees :: "(bool \<times> string \<times> http_context) result \<Rightarrow> (bool \<times> buffer \<times> http_context) result option \<Rightarrow> bool" where
  "parse_agrees spec r \<longleftrightarrow> (case spec of
      Inl e \<Rightarrow> r = Some (Inl e)
    | Inr (okay, s', ctx') \<Rightarrow> \<exists>b'. r = Some (Inr (okay, b', ctx')) \<and> buf_ok b' \<and> contents b' = s')"

lemma parse_agrees_done:
  "parse_agrees (Inl e) (Some (Inl e))"
  "buf_ok b \<Longrightarrow> parse_agrees (Inr (okay, contents b, ctx)) (Some (Inr (okay, b, ctx)))"
  by (simp_all add: parse_agrees_def)

text \<open>One line at the front of the buffer, in the two states.\<close>

lemma parse_loop_request_line:
  assumes "hc_state ctx = kExpectRequestLine" and "findCRLF b = Some i" and "retrieveUntil (i + 2) b = Inr b'"
  shows "parse_loop True b ctx t = (case processRequestLine (take (i - peek b) (contents b)) ctx of Inl e \<Rightarrow> Some (Inl e)
    | Inr (valid, ctx1) \<Rightarrow> if valid
        then parse_loop True b' (receiveRequestLine (ctx1\<lparr>hc_request := setReceiveTime t (hc_request ctx1)\<rparr>)) t
        else Some (Inr (False, b, ctx1)))"
  using assms by (subst parse_loop.simps) (auto simp: parse_round_def expectRequestLine_def split: sum.splits)

lemma parse_loop_header_line:
  assumes "hc_state ctx = kExpectHeaders" and "findCRLF b = Some i" and "retrieveUntil (i + 2) b = Inr b'"
  defines "line \<equiv> take (i - peek b) (contents b)"
  shows "parse_loop True b ctx t = (if CHR '':'' \<in> set line
    then parse_loop True b' (ctx\<lparr>hc_request := addHeader line (find_char (CHR '':'') line) (hc_request ctx)\<rparr>) t
    else Some (Inr (True, b', receiveHeaders ctx)))"
proof -
  have "find_char (CHR '':'') line \<noteq> length line \<longleftrightarrow> CHR '':'' \<in> set line"
    using find_char_less_iff [of "CHR '':''" line] find_char_le [of "CHR '':''" line] by linarith
  then show ?thesis
    using assms(1-3) by (subst parse_loop.simps)
      (simp add: parse_round_def expectRequestLine_def expectHeaders_def gotAll_def receiveHeaders_def Let_def line_def)
qed

lemma parse_loop_refines:
  assumes "buf_ok b" and "hc_state ctx = kExpectRequestLine \<or> hc_state ctx = kExpectHeaders"
  shows "parse_agrees (http_lines (contents b) ctx t) (parse_loop True b ctx t)"
  using assms
proof (induction "length (contents b)" arbitrary: b ctx rule: less_induct)
  case less
  note split = findCRLF_split [OF less.prems(1)]
  show ?case
  proof (cases "findCRLF b")
    case None
    then have "split_line (contents b) = None" using split by blast
    moreover have "parse_loop True b ctx t = Some (Inr (True, b, ctx))"
      using None less.prems(2)
      by (subst parse_loop.simps) (auto simp: parse_round_def expectRequestLine_def expectHeaders_def)
    ultimately show ?thesis using less.prems(1) by (simp add: http_lines.simps parse_agrees_def)
  next
    case (Some i)
    then obtain rest b' where sp: "split_line (contents b) = Some (take (i - peek b) (contents b), rest)"
      and r: "retrieveUntil (i + 2) b = Inr b'" "buf_ok b'" "contents b' = rest" using split by blast
    let ?line = "take (i - peek b) (contents b)"
    have IH: "parse_agrees (http_lines rest ctx' t) (parse_loop True b' ctx' t)"
      if "hc_state ctx' = kExpectRequestLine \<or> hc_state ctx' = kExpectHeaders" for ctx'
      using less.hyps [OF _ r(2) that] split_line_shorter [OF sp] r(3) by simp
    show ?thesis
    proof (cases "hc_state ctx = kExpectRequestLine")
      case True
      note loop = parse_loop_request_line [OF True Some r(1)]
      have IH': "parse_agrees (http_lines rest (receiveRequestLine c) t) (parse_loop True b' (receiveRequestLine c) t)" for c
        by (rule IH) (simp add: receiveRequestLine_def)
      show ?thesis using sp True less.prems(1)
        by (subst http_lines.simps) (auto simp: loop IH' parse_agrees_done split: sum.splits)
    next
      case False
      then have st: "hc_state ctx = kExpectHeaders" using less.prems(2) by blast
      show ?thesis
        using sp st IH r by (subst http_lines.simps) (simp add: parse_loop_header_line [OF st Some r(1)] parse_agrees_def)
    qed
  qed
qed

text \<open>Feeding the bytes in pieces makes no difference, as long as the request is incomplete.\<close>

lemma http_lines_segments:
  assumes "http_lines s ctx t = Inr (True, s', ctx')" and "hc_state ctx' \<noteq> kGotAll"
  shows "http_lines (s @ x) ctx t = http_lines (s' @ x) ctx' t"
  using assms
proof (induction s ctx t arbitrary: s' ctx' rule: http_lines.induct)
  case (1 s ctx t)
  show ?case
  proof (cases "split_line s")
    case None
    then show ?thesis using "1.prems" by (simp add: http_lines.simps)
  next
    case (Some p)
    obtain line rest where p: "p = (line, rest)" by (cases p)
    note sp = Some [unfolded p] and spx = split_line_append [OF Some [unfolded p], of x]
    show ?thesis
    proof (cases "hc_state ctx = kExpectRequestLine")
      case True
      then obtain ctx1 where c1: "processRequestLine line ctx = Inr (True, ctx1)"
        and r: "http_lines rest (receiveRequestLine (ctx1\<lparr>hc_request := setReceiveTime t (hc_request ctx1)\<rparr>)) t = Inr (True, s', ctx')"
        using "1.prems"(1) sp by (subst (asm) http_lines.simps) (auto split: if_splits)
      from "1.IH"(1) [OF Some p [symmetric] True c1 refl TrueI r "1.prems"(2)]
      show ?thesis using spx True c1 by (subst http_lines.simps) simp
    next
      case False
      have "CHR '':'' \<in> set line"
      proof (rule ccontr)
        assume "CHR '':'' \<notin> set line"
        then have "ctx' = receiveHeaders ctx" using "1.prems"(1) sp False by (simp add: http_lines.simps)
        then show False using "1.prems"(2) by (simp add: receiveHeaders_def)
      qed
      moreover from this have "http_lines rest (ctx\<lparr>hc_request := addHeader line (find_char (CHR '':'') line) (hc_request ctx)\<rparr>) t
          = Inr (True, s', ctx')"
        using "1.prems"(1) sp False by (subst (asm) http_lines.simps) simp
      ultimately show ?thesis using "1.IH"(2) [OF Some p [symmetric] False _ _ "1.prems"(2)] spx False
        by (subst http_lines.simps) simp
    qed
  qed
qed

lemma http_lines_state:
  assumes "http_lines s ctx t = Inr (okay, s', ctx')" and "hc_state ctx = kExpectRequestLine \<or> hc_state ctx = kExpectHeaders"
  shows "hc_state ctx' \<noteq> kExpectBody"
  using assms
proof (induction s ctx t arbitrary: okay s' ctx' rule: http_lines.induct)
  case (1 s ctx t)
  show ?case
  proof (cases "split_line s")
    case None
    then show ?thesis using "1.prems" by (auto simp: http_lines.simps)
  next
    case (Some p)
    obtain line rest where p: "p = (line, rest)" by (cases p)
    show ?thesis
    proof (cases "hc_state ctx = kExpectRequestLine")
      case True
      then obtain valid ctx1 where c1: "processRequestLine line ctx = Inr (valid, ctx1)"
        and r: "(if valid then http_lines rest (receiveRequestLine (ctx1\<lparr>hc_request := setReceiveTime t (hc_request ctx1)\<rparr>)) t
          else Inr (False, s, ctx1)) = Inr (okay, s', ctx')"
        using "1.prems"(1) Some p by (subst (asm) http_lines.simps) auto
      show ?thesis
      proof (cases valid)
        case valid: True
        show ?thesis using "1.IH"(1) [OF Some p [symmetric] True c1 refl valid] r valid by (simp add: receiveRequestLine_def)
      qed (use r processRequestLine_state [OF c1] True in auto)
    next
      case False
      have "(if CHR '':'' \<in> set line then http_lines rest (ctx\<lparr>hc_request := addHeader line (find_char (CHR '':'') line)
          (hc_request ctx)\<rparr>) t else Inr (True, rest, receiveHeaders ctx)) = Inr (okay, s', ctx')"
        using "1.prems"(1) Some p False by (subst (asm) http_lines.simps) simp
      then show ?thesis using "1.IH"(2) [OF Some p [symmetric] False] "1.prems"(2)
        by (auto simp: receiveHeaders_def split: if_splits)
    qed
  qed
qed

text \<open>In the other two states the loop never returns.\<close>

lemma parse_loop_diverges:
  assumes "parse_loop okay b ctx t = Some r"
  shows "hc_state ctx = kExpectRequestLine \<or> hc_state ctx = kExpectHeaders"
proof (rule parse_loop.raw_induct [where P = "\<lambda>okay b ctx t r. hc_state ctx = kExpectRequestLine \<or> hc_state ctx = kExpectHeaders",
      OF _ assms], rule ccontr)
  fix loop okay b ctx t r
  assume IH: "\<And>okay b ctx t r. loop okay b ctx t = Some r \<Longrightarrow> hc_state ctx = kExpectRequestLine \<or> hc_state ctx = kExpectHeaders"
    and r: "(case parse_round okay b ctx t of Inl e \<Rightarrow> Some (Inl e)
      | Inr (okay', hasMore, buf', ctx') \<Rightarrow> if hasMore then loop okay' buf' ctx' t else Some (Inr (okay', buf', ctx'))) = Some r"
    and n: "\<not> (hc_state ctx = kExpectRequestLine \<or> hc_state ctx = kExpectHeaders)"
  then have "parse_round okay b ctx t = Inr (okay, True, b, ctx)"
    by (simp add: parse_round_def expectRequestLine_def expectHeaders_def)
  then show False using IH r n by auto
qed

text \<open>A rejected request line whose method was known is still the first line of the buffer.\<close>

lemma http_lines_rejected:
  assumes "http_lines s ctx t = Inr (False, s', ctx')" and "rq_method (hc_request ctx') \<noteq> kInvalid"
    and "hc_state ctx = kExpectRequestLine \<longrightarrow> rq_method (hc_request ctx) = kInvalid"
  shows "\<exists>line rest. split_line s' = Some (line, rest) \<and> hc_state ctx' = kExpectRequestLine \<and>
      find_char (CHR '' '') line \<noteq> length line"
  using assms
proof (induction s ctx t arbitrary: s' ctx' rule: http_lines.induct)
  case (1 s ctx t)
  then obtain line rest where sp: "split_line s = Some (line, rest)" by (auto simp: http_lines.simps split: option.splits)
  show ?case
  proof (cases "hc_state ctx = kExpectRequestLine")
    case True
    then obtain valid ctxv where pv: "processRequestLine line ctx = Inr (valid, ctxv)"
      and r: "(if valid then http_lines rest (receiveRequestLine (ctxv\<lparr>hc_request := setReceiveTime t (hc_request ctxv)\<rparr>)) t
        else Inr (False, s, ctxv)) = Inr (False, s', ctx')"
      using "1.prems"(1) sp by (subst (asm) http_lines.simps) auto
    show ?thesis
    proof (cases valid)
      case valid: True
      then show ?thesis using "1.IH"(1) [OF sp refl True pv refl valid] r "1.prems"(2)
        by (simp add: receiveRequestLine_def)
    next
      case False
      then have eq: "s' = s" "ctx' = ctxv" using r by auto
      have "find_char (CHR '' '') line \<noteq> length line"
      proof
        assume "find_char (CHR '' '') line = length line"
        then have "ctxv = ctx" using pv by (auto simp: processRequestLine_def)
        then show False using eq "1.prems"(2,3) True by simp
      qed
      then show ?thesis using sp eq True processRequestLine_state [OF pv] by auto
    qed
  next
    case False
    then have "CHR '':'' \<in> set line \<and> http_lines rest (ctx\<lparr>hc_request := addHeader line (find_char (CHR '':'') line)
        (hc_request ctx)\<rparr>) t = Inr (False, s', ctx')"
      using "1.prems"(1) sp by (subst (asm) http_lines.simps) (auto split: if_splits)
    then show ?thesis using "1.IH"(2) [OF sp refl False] "1.prems"(2) False by simp
  qed
qed

section \<open>Requests and responses as text\<close>

fun version_text :: "http_version \<Rightarrow> string" where
  "version_text kHttp11 = ''HTTP/1.1''"
| "version_text kHttp10 = ''HTTP/1.0''"
| "version_text kUnknown = []"

definition render_header :: "string \<times> string \<Rightarrow> string" where
  "render_header h = fst h @ '': '' @ snd h @ kCRLF"

definition render_request :: "http_method \<Rightarrow> string \<Rightarrow> http_version \<Rightarrow> (string \<times> string) list \<Rightarrow> string" where
  "render_request m p v hs =
     methodString m @ '' '' @ p @ '' '' @ version_text v @ kCRLF @ concat (map render_header hs) @ kCRLF"

text \<open>A header that survives: the field without colon, the value without surrounding white space.\<close>

definition trimmed :: "string \<Rightarrow> bool" where
  "trimmed v \<longleftrightarrow> v = [] \<or> (\<not> isspace (hd v) \<and> \<not> isspace (last v))"

definition header_ok :: "string \<times> string \<Rightarrow> bool" where
  "header_ok h \<longleftrightarrow> CHR '':'' \<notin> set (fst h) \<and> CHR 0x0D \<notin> set (fst h) \<and> CHR 0x0D \<notin> set (snd h) \<and> trimmed (snd h)"

definition add_headers :: "(string \<times> string) list \<Rightarrow> http_request \<Rightarrow> http_request" where
  "add_headers hs rq = rq\<lparr>rq_headers := fold (\<lambda>h. map_put (fst h) (snd h)) hs (rq_headers rq)\<rparr>"

lemma processRequestLine_render:
  assumes "m \<noteq> kInvalid" and "v \<noteq> kUnknown" and "CHR '' '' \<notin> set p" and "rq_method (hc_request ctx) = kInvalid"
  shows "processRequestLine (methodString m @ '' '' @ p @ '' '' @ version_text v) ctx =
    Inr (True, ctx\<lparr>hc_request := (hc_request ctx)\<lparr>rq_method := m, rq_path := p, rq_version := v\<rparr>\<rparr>)"
proof -
  have f1: "find_char (CHR '' '') (methodString m @ CHR '' '' # xs) = length (methodString m)" for xs
    by (rule find_char_append) (cases m; simp)
  have f2: "find_char (CHR '' '') (p @ CHR '' '' # version_text v) = length p"
    by (rule find_char_append [OF assms(3)])
  have mo: "method_of (methodString m) = m" using assms(1) by (cases m) (simp_all add: method_of_def)
  show ?thesis
    using assms f1 f2 by (cases v) (simp_all add: processRequestLine_def setMethod_def mo setPath_def Let_def)
qed

lemma addHeader_render:
  assumes "header_ok (f, v)"
  shows "addHeader (f @ '': '' @ v) (find_char (CHR '':'') (f @ '': '' @ v)) rq = add_headers [(f, v)] rq"
proof -
  have "find_char (CHR '':'') (f @ CHR '':'' # xs) = length f" for xs
    using assms by (intro find_char_append) (simp add: header_ok_def)
  moreover have "dropWhile isspace (CHR '' '' # v) = v"
    using assms by (cases v) (simp_all add: header_ok_def trimmed_def isspace_def)
  moreover have "rev (dropWhile isspace (rev v)) = v"
  proof (cases v rule: rev_cases)
    case (snoc ys y)
    then show ?thesis using assms by (simp add: header_ok_def trimmed_def)
  qed simp
  ultimately show ?thesis by (simp add: addHeader_def add_headers_def Let_def)
qed

lemma http_lines_headers:
  assumes "list_all header_ok hs" and "hc_state ctx = kExpectHeaders"
  shows "http_lines (concat (map render_header hs) @ kCRLF @ rest) ctx t =
    Inr (True, rest, ctx\<lparr>hc_state := kGotAll, hc_request := add_headers hs (hc_request ctx)\<rparr>)"
  using assms
proof (induction hs arbitrary: ctx)
  case Nil
  have "split_line (kCRLF @ rest) = Some ([], rest)" using split_line_line [of "[]" rest] by simp
  then show ?case using Nil by (subst http_lines.simps) (simp add: receiveHeaders_def add_headers_def)
next
  case (Cons h hs)
  obtain f v where h: "h = (f, v)" by (cases h)
  have ok: "header_ok (f, v)" using Cons.prems h by simp
  let ?line = "f @ '': '' @ v"
  have "CHR 0x0D \<notin> set ?line" using ok by (simp add: header_ok_def)
  from split_line_line [OF this, of "concat (map render_header hs) @ kCRLF @ rest"]
  have sp: "split_line (concat (map render_header (h # hs)) @ kCRLF @ rest) =
      Some (?line, concat (map render_header hs) @ kCRLF @ rest)" by (simp add: h render_header_def)
  have "http_lines (concat (map render_header (h # hs)) @ kCRLF @ rest) ctx t =
      http_lines (concat (map render_header hs) @ kCRLF @ rest)
        (ctx\<lparr>hc_request := add_headers [(f, v)] (hc_request ctx)\<rparr>) t"
    using sp Cons.prems(2) addHeader_render [OF ok] by (subst http_lines.simps) simp
  then show ?case
    using Cons.prems Cons.IH [of "ctx\<lparr>hc_request := add_headers [(f, v)] (hc_request ctx)\<rparr>"]
    by (simp add: h add_headers_def)
qed

lemma http_lines_render:
  assumes "m \<noteq> kInvalid" and "v \<noteq> kUnknown" and "CHR '' '' \<notin> set p" and "CHR 0x0D \<notin> set p"
    and "list_all header_ok hs" and "hc_state ctx = kExpectRequestLine" and "rq_method (hc_request ctx) = kInvalid"
  shows "http_lines (render_request m p v hs @ rest) ctx t = Inr (True, rest, ctx\<lparr>hc_state := kGotAll,
    hc_request := add_headers hs ((hc_request ctx)\<lparr>rq_method := m, rq_path := p, rq_version := v, rq_receiveTime := t\<rparr>)\<rparr>)"
proof -
  let ?line = "methodString m @ '' '' @ p @ '' '' @ version_text v"
  let ?ctx = "receiveRequestLine (ctx\<lparr>hc_request := (hc_request ctx)\<lparr>rq_method := m,
        rq_path := p, rq_version := v, rq_receiveTime := t\<rparr>\<rparr>)"
  have "CHR 0x0D \<notin> set ?line" using assms(4) by (cases m; cases v) simp_all
  from split_line_line [OF this, of "concat (map render_header hs) @ kCRLF @ rest"]
  have sp: "split_line (render_request m p v hs @ rest) = Some (?line, concat (map render_header hs) @ kCRLF @ rest)"
    by (simp add: render_request_def)
  have "http_lines (render_request m p v hs @ rest) ctx t = http_lines (concat (map render_header hs) @ kCRLF @ rest) ?ctx t"
    using sp assms(6) processRequestLine_render [OF assms(1-3,7)]
    by (subst http_lines.simps) (simp add: setReceiveTime_def)
  then show ?thesis using http_lines_headers [OF assms(5), of ?ctx rest t] by (simp add: receiveRequestLine_def)
qed

text \<open>The text of a response, and that \<open>appendToBuffer\<close> produces it without truncation.\<close>

definition response_text :: "http_response \<Rightarrow> string" where
  "response_text r =
     ''HTTP/1.1 '' @ dec (status_value (rs_statusCode r)) @ '' '' @ rs_statusMessage r @ kCRLF @
     (if rs_closeConnection r then ''Connection: close'' @ kCRLF
      else ''Content-Length: '' @ dec (length (rs_body r)) @ kCRLF @ ''Connection: Keep-Alive'' @ kCRLF) @
     concat (map render_header (rs_headers r)) @ kCRLF @ rs_body r"

lemma append_all_ok:
  assumes "buf_ok b" and "list_all (\<lambda>s. length s < 2 ^ 31) ss" and "buf_room b (length (concat ss))"
  shows "\<exists>b'. append_all ss b = Inr b' \<and> buf_ok b' \<and> contents b' = contents b @ concat ss"
  using assms
proof (induction ss arbitrary: b)
  case Nil
  then show ?case by (simp add: append_all_def)
next
  case (Cons s ss)
  have len: "int (length s) < 2 ^ 31" using Cons.prems(2) by simp
  then have "cast_int (int (length s)) = int (length s)" by simp
  moreover have "int (length s) mod 2 ^ 64 = int (length s)" using len by (simp add: mod_pos_pos_trivial)
  ultimately have p: "appendPiece (as_piece s) b = appendBuf s b" by (simp add: appendPiece_def as_piece_def)
  have "buf_room b (length s)" using Cons.prems(3) by (auto simp: buf_room_def)
  from appendBuf_ok [OF Cons.prems(1) this] obtain b1 where
    b1: "appendBuf s b = Inr b1" "buf_ok b1" "contents b1 = contents b @ s" "writerIndex b1 \<le> writerIndex b + length s"
    by blast
  then have "buf_room b1 (length (concat ss))" using Cons.prems(3) by (auto simp: buf_room_def)
  from Cons.IH [OF b1(2) _ this] Cons.prems(2) obtain b' where
    "append_all ss b1 = Inr b'" "buf_ok b'" "contents b' = contents b1 @ concat ss" by auto
  then show ?case using p b1 by (simp add: append_all_def)
qed

lemma length_dec_status: "length (dec (status_value c)) \<le> 3"
  by (rule length_dec_le) (cases c; simp)+

lemma appendToBuffer_text:
  assumes "length (response_text r) < 2 ^ 31"
  shows "\<exists>b. appendToBuffer r newBuffer = Inr b \<and> buf_ok b \<and> contents b = response_text r"
proof -
  have body: "length (rs_body r) < 2 ^ 31" using assms by (simp add: response_text_def)
  have "length (dec (length (rs_body r))) \<le> 10" by (rule length_dec_le) (use body in simp_all)
  then have cl: "snprintf 32 (''Content-Length: '' @ dec (length (rs_body r)) @ kCRLF) =
      ''Content-Length: '' @ dec (length (rs_body r)) @ kCRLF" by (simp add: snprintf_def kCRLF_def)
  have st: "snprintf 32 (''HTTP/1.1 '' @ dec (status_value (rs_statusCode r)) @ '' '') =
      ''HTTP/1.1 '' @ dec (status_value (rs_statusCode r)) @ '' ''"
    using length_dec_status [of "rs_statusCode r"] by (simp add: snprintf_def)
  let ?ss = "[''HTTP/1.1 '' @ dec (status_value (rs_statusCode r)) @ '' '', rs_statusMessage r, kCRLF] @
       (if rs_closeConnection r then [''Connection: close'' @ kCRLF]
        else [''Content-Length: '' @ dec (length (rs_body r)) @ kCRLF, ''Connection: Keep-Alive'' @ kCRLF]) @
       concat (map header_pieces (rs_headers r)) @ [kCRLF, rs_body r]"
  have h: "concat (concat (map header_pieces hs)) = concat (map render_header hs)" for hs
    by (induction hs) (simp_all add: header_pieces_def render_header_def)
  have whole: "concat ?ss = response_text r" by (simp add: response_text_def h)
  have "list_all (\<lambda>s. length s < 2 ^ 31) ?ss"
    unfolding list_all_iff
  proof
    fix s assume "s \<in> set ?ss"
    then have "length s \<le> length (concat ?ss)" by (simp only: length_concat) (rule member_le_sum_list, auto)
    then show "length s < 2 ^ 31" using assms unfolding whole by simp
  qed
  from append_all_ok [OF buf_ok_newBuffer this] obtain b where
    "append_all ?ss newBuffer = Inr b" "buf_ok b" "contents b = concat ?ss"
    unfolding whole using assms by (auto simp: vector_max_def kCheapPrepend_def)
  moreover have "appendToBuffer r newBuffer = append_all ?ss newBuffer" unfolding appendToBuffer_def cl st ..
  ultimately show ?thesis unfolding whole by metis
qed

section \<open>Properties\<close>

text \<open>
  The reference parser. None of the functions of the parser is used in it. A line ends at the first CRLF. A request
  line is three words between single blanks: a known method, a path (any bytes but a blank, nothing is
  decoded) and one of the two known versions. What is recognised of a line that is refused is kept: the method, and the path if there is one.
\<close>

fun crlf_line :: "string \<Rightarrow> (string \<times> string) option" where
  "crlf_line (c # d # s) = (if c = CHR 0x0D \<and> d = CHR 0x0A then Some ([], s)
     else map_option (\<lambda>(line, rest). (c # line, rest)) (crlf_line (d # s)))"
| "crlf_line _ = None"

fun cut :: "char \<Rightarrow> string \<Rightarrow> (string \<times> string) option" where
  "cut x [] = None"
| "cut x (c # s) = (if c = x then Some ([], s) else map_option (\<lambda>(a, b). (c # a, b)) (cut x s))"

definition methods :: "(string \<times> http_method) list" where
  "methods = [(''GET'', kGet), (''POST'', kPost), (''HEAD'', kHead), (''PUT'', kPut), (''DELETE'', kDelete)]"

definition versions :: "(string \<times> http_version) list" where
  "versions = [(''HTTP/1.0'', kHttp10), (''HTTP/1.1'', kHttp11)]"

definition request_line_spec :: "string \<Rightarrow> http_request \<Rightarrow> (bool \<times> http_request) result" where
  "request_line_spec line rq = (case cut (CHR '' '') line of
     None \<Rightarrow> Inr (False, rq)
   | Some (m, line') \<Rightarrow>
       if rq_method rq \<noteq> kInvalid then Inl (AssertionFailed ''method_ == kInvalid'')
       else (case map_of methods m of
         None \<Rightarrow> Inr (False, rq)
       | Some k \<Rightarrow> (case cut (CHR '' '') line' of
           None \<Rightarrow> Inr (False, rq\<lparr>rq_method := k\<rparr>)
         | Some (p, ver) \<Rightarrow> (case map_of versions ver of
             None \<Rightarrow> Inr (False, rq\<lparr>rq_method := k, rq_path := p\<rparr>)
           | Some v \<Rightarrow> Inr (True, rq\<lparr>rq_method := k, rq_path := p, rq_version := v\<rparr>)))))"

text \<open>A header is a field, a colon, and a value that is stripped of white space, here at its end first and then at its beginning.\<close>

definition white :: string where
  "white = [CHR '' '', CHR 0x09, CHR 0x0A, CHR 0x0B, CHR 0x0C, CHR 0x0D]"

fun strip_left :: "string \<Rightarrow> string" where
  "strip_left [] = []"
| "strip_left (c # s) = (if c \<in> set white then strip_left s else c # s)"

fun strip_right :: "string \<Rightarrow> string" where
  "strip_right [] = []"
| "strip_right (c # s) = (let s' = strip_right s in if s' = [] \<and> c \<in> set white then [] else c # s')"

text \<open>
  The headers end at the first line without a colon. The comment in the code says that this is the empty line, but the code ends them at
  any such line, and so does the reference.
\<close>

function http_spec :: "string \<Rightarrow> http_context \<Rightarrow> int \<Rightarrow> (bool \<times> string \<times> http_context) result" where
  "http_spec s ctx t = (case crlf_line s of
     None \<Rightarrow> Inr (True, s, ctx)
   | Some (line, rest) \<Rightarrow>
       if hc_state ctx = kExpectRequestLine then (case request_line_spec line (hc_request ctx) of
           Inl e \<Rightarrow> Inl e
         | Inr (True, rq) \<Rightarrow> http_spec rest \<lparr>hc_state = kExpectHeaders, hc_request = rq\<lparr>rq_receiveTime := t\<rparr>\<rparr> t
         | Inr (False, rq) \<Rightarrow> Inr (False, s, \<lparr>hc_state = kExpectRequestLine, hc_request = rq\<rparr>))
       else (case cut (CHR '':'') line of
           None \<Rightarrow> Inr (True, rest, \<lparr>hc_state = kGotAll, hc_request = hc_request ctx\<rparr>)
         | Some (field, v) \<Rightarrow> http_spec rest (ctx\<lparr>hc_request := (hc_request ctx)
             \<lparr>rq_headers := map_put field (strip_left (strip_right v)) (rq_headers (hc_request ctx))\<rparr>\<rparr>) t))"
  by pat_completeness auto

lemma crlf_line_split: "crlf_line s = split_line s"
proof (induction s rule: crlf_line.induct)
  case (1 c d s)
  have "search kCRLF (c # d # s) = (if c = CHR 0x0D \<and> d = CHR 0x0A then 0 else Suc (search kCRLF (d # s)))"
    by (simp add: kCRLF_def)
  then show ?case using 1 by (auto simp: split_line_def Let_def kCRLF_def)
qed (simp_all add: split_line_def kCRLF_def)

termination http_spec
  by (relation "measure (\<lambda>(s, _). length s)") (auto simp: crlf_line_split dest: split_line_shorter)

declare http_spec.simps [simp del]

text \<open>The code reads a line as the reference does.\<close>

lemma cut_find:
  "cut x s = (if x \<in> set s then Some (take (find_char x s) s, drop (find_char x s + 1) s) else None)"
  by (induction s) auto

lemma find_char_end: "find_char x s \<noteq> length s \<longleftrightarrow> x \<in> set s"
  using find_char_less_iff [of x s] find_char_le [of x s] by linarith

lemma version_known:
  "map_of versions v = (if length v = 8 \<and> take 7 v = ''HTTP/1.'' \<and> v ! 7 = CHR ''1'' then Some kHttp11
     else if length v = 8 \<and> take 7 v = ''HTTP/1.'' \<and> v ! 7 = CHR ''0'' then Some kHttp10 else None)"
proof -
  have "v = take 7 v @ [v ! 7]" if "length v = 8" using take_Suc_conv_app_nth [of 7 v] that by simp
  then have "length v = 8 \<and> take 7 v = ''HTTP/1.'' \<and> v ! 7 = c \<longleftrightarrow> v = ''HTTP/1.'' @ [c]" for c
    by (auto simp: numeral_eq_Suc)
  from this [of "CHR ''1''"] this [of "CHR ''0''"] show ?thesis by (auto simp: versions_def)
qed

lemma processRequestLine_spec:
  "processRequestLine line ctx = bindE (request_line_spec line (hc_request ctx)) (\<lambda>(valid, rq). Inr (valid, ctx\<lparr>hc_request := rq\<rparr>))"
proof -
  have m: "map_of methods m = (if method_of m = kInvalid then None else Some (method_of m))" for m
    by (simp add: methods_def method_of_def)
  show ?thesis
    by (auto simp: processRequestLine_def request_line_spec_def setMethod_def cut_find find_char_end m version_known setPath_def Let_def assertE_def)
qed

lemma isspace_white: "isspace c \<longleftrightarrow> c \<in> set white"
proof -
  have "of_char c = n \<longleftrightarrow> c = char_of n" if "n < 256" for n :: nat
    using char_of_eq_iff [of n c] that by (auto simp: take_bit_eq_mod)
  moreover have "set white = char_of ` {9, 10, 11, 12, 13, 32 :: nat}" by code_simp
  ultimately show ?thesis by (simp add: isspace_def)
qed

lemma strip_left_eq: "strip_left s = dropWhile isspace s"
  by (induction s) (simp_all add: isspace_white)

lemma strip_right_eq: "strip_right s = rev (dropWhile isspace (rev s))"
  by (induction s) (auto simp: isspace_white Let_def dropWhile_append)

lemma strip_both: "strip_left (strip_right s) = strip_right (strip_left s)"
  by (induction s) (auto simp: Let_def)

lemma addHeader_spec:
  assumes "CHR '':'' \<in> set line"
  shows "\<exists>field v. cut (CHR '':'') line = Some (field, v) \<and>
    addHeader line (find_char (CHR '':'') line) rq = rq\<lparr>rq_headers := map_put field (strip_left (strip_right v)) (rq_headers rq)\<rparr>"
  unfolding strip_both using assms by (simp add: cut_find addHeader_def strip_left_eq strip_right_eq Let_def)

lemma http_spec_lines: "hc_state ctx \<in> {kExpectRequestLine, kExpectHeaders} \<Longrightarrow> http_spec s ctx t = http_lines s ctx t"
proof (induction "length s" arbitrary: s ctx rule: less_induct)
  case less
  show ?case
  proof (cases "split_line s")
    case None
    then show ?thesis by (simp add: http_spec.simps http_lines.simps crlf_line_split)
  next
    case (Some p)
    obtain line rest where p: "p = (line, rest)" by (cases p)
    note sp = Some [unfolded p]
    note IH = less.hyps [OF split_line_shorter [OF sp]]
    show ?thesis
    proof (cases "hc_state ctx = kExpectRequestLine")
      case True
      have "http_spec rest \<lparr>hc_state = kExpectHeaders, hc_request = rq\<rparr> t = http_lines rest \<lparr>hc_state = kExpectHeaders, hc_request = rq\<rparr> t" for rq
        by (rule IH) simp
      then show ?thesis using True sp
        by (cases "request_line_spec line (hc_request ctx)"; cases ctx)
          (auto simp: http_spec.simps [of s] http_lines.simps [of s] crlf_line_split processRequestLine_spec
            receiveRequestLine_def setReceiveTime_def split: bool.splits)
    next
      case False
      show ?thesis
      proof (cases "CHR '':'' \<in> set line")
        case True
        from addHeader_spec [OF this, of "hc_request ctx"] obtain field v where h: "cut (CHR '':'') line = Some (field, v)"
          "addHeader line (find_char (CHR '':'') line) (hc_request ctx) = (hc_request ctx)
             \<lparr>rq_headers := map_put field (strip_left (strip_right v)) (rq_headers (hc_request ctx))\<rparr>" by blast
        show ?thesis using sp False True h less.prems by (simp add: http_spec.simps [of s] http_lines.simps [of s] crlf_line_split IH)
      qed (use sp False in \<open>cases ctx; simp add: http_spec.simps [of s] http_lines.simps [of s] crlf_line_split cut_find receiveHeaders_def\<close>)
    qed
  qed
qed

text \<open>
  C15. The parser terminates and is correct: started in one of the two states that the server leaves it
  in, \<open>parseRequest\<close> returns, and on the buffer it computes what the reference parser computes on the
  readable bytes, with the same leftover, the same context and the same error. The reference has grammar of its own for lines, request lines and
  headers: the five methods, the versions HTTP/1.0 and HTTP/1.1, values stripped of white space, and it keeps of a refused request line what the
  code keeps. It ends the headers at the first line without a colon, as the code does, empty or not (the comment at \<open>HttpServer.cc\<close>, line 97, speaks of the
  empty line). In the states \<open>kExpectBody\<close> and \<open>kGotAll\<close> the loop never returns.
\<close>

theorem http_parse_refines:
  "(buf_ok b \<and> (hc_state ctx = kExpectRequestLine \<or> hc_state ctx = kExpectHeaders) \<longrightarrow>
     parse_agrees (http_spec (contents b) ctx t) (parseRequest b ctx t)) \<and>
   (hc_state ctx = kExpectBody \<or> hc_state ctx = kGotAll \<longrightarrow> parseRequest b ctx t = None)"
proof (intro conjI impI)
  assume *: "buf_ok b \<and> (hc_state ctx = kExpectRequestLine \<or> hc_state ctx = kExpectHeaders)"
  then show "parse_agrees (http_spec (contents b) ctx t) (parseRequest b ctx t)"
    using parse_loop_refines [of b ctx t] http_spec_lines [of ctx] by (auto simp: parseRequest_def)
next
  assume "hc_state ctx = kExpectBody \<or> hc_state ctx = kGotAll"
  then show "parseRequest b ctx t = None"
    using parse_loop_diverges [of True b ctx t] by (cases "parseRequest b ctx t") (auto simp: parseRequest_def)
qed

text \<open>
  A request with white space around a header's value, ended by a line without colon that is not empty, and the beginning of a
  further request.
\<close>

definition demo_request :: string where
  "demo_request = ''GET /a HTTP/1.1'' @ kCRLF @ ''Host:  muduo '' @ kCRLF @ ''end'' @ kCRLF @ ''PUT''"

theorem http_parse_refines_witness:
  "\<exists>b b'. contents b = demo_request \<and> parseRequest b newHttpContext 7 = Some (Inr (True, b', \<lparr>hc_state = kGotAll,
     hc_request = \<lparr>rq_method = kGet, rq_version = kHttp11, rq_path = ''/a'', rq_receiveTime = 7, rq_headers = [(''Host'', ''muduo'')]\<rparr>\<rparr>)) \<and>
     contents b' = ''PUT''"
proof -
  have "buf_room newBuffer (length demo_request)"
    by (simp add: demo_request_def vector_max_def kCheapPrepend_def kCRLF_def)
  from appendBuf_ok [OF buf_ok_newBuffer this] obtain b where b: "buf_ok b" "contents b = demo_request" by auto
  have "http_spec demo_request newHttpContext 7 = Inr (True, ''PUT'', \<lparr>hc_state = kGotAll,
     hc_request = \<lparr>rq_method = kGet, rq_version = kHttp11, rq_path = ''/a'', rq_receiveTime = 7, rq_headers = [(''Host'', ''muduo'')]\<rparr>\<rparr>)"
    by (simp add: demo_request_def kCRLF_def newHttpContext_def newHttpRequest_def http_spec.simps request_line_spec_def methods_def versions_def
        white_def map_put_def map_erase_def)
  moreover have "buf_ok b \<and> (hc_state newHttpContext = kExpectRequestLine \<or> hc_state newHttpContext = kExpectHeaders)"
    using b by (simp add: newHttpContext_def)
  ultimately show ?thesis
    using http_parse_refines [of b newHttpContext 7] b by (auto simp: parse_agrees_def)
qed

text \<open>
  Every well-formed request is understood: from a fresh context, a buffer that starts with a
  rendered request line, headers and the empty line is parsed into exactly that method, path,
  version and headers (a repeated field keeps its last value), and the bytes after it stay in the
  buffer.
\<close>

theorem http_request_roundtrip:
  assumes "m \<noteq> kInvalid" and "v \<noteq> kUnknown" and "CHR '' '' \<notin> set p" and "CHR 0x0D \<notin> set p"
    and "list_all header_ok hs" and "buf_ok b" and "contents b = render_request m p v hs @ rest"
  shows "\<exists>b'. parseRequest b newHttpContext t = Some (Inr (True, b', \<lparr>hc_state = kGotAll,
      hc_request = \<lparr>rq_method = m, rq_version = v, rq_path = p, rq_receiveTime = t,
        rq_headers = fold (\<lambda>h. map_put (fst h) (snd h)) hs []\<rparr>\<rparr>)) \<and> buf_ok b' \<and> contents b' = rest"
proof -
  have "http_lines (contents b) newHttpContext t = Inr (True, rest, \<lparr>hc_state = kGotAll,
      hc_request = \<lparr>rq_method = m, rq_version = v, rq_path = p, rq_receiveTime = t,
        rq_headers = fold (\<lambda>h. map_put (fst h) (snd h)) hs []\<rparr>\<rparr>)"
    using http_lines_render [OF assms(1-5), of newHttpContext rest t]
    by (simp add: assms(7) newHttpContext_def newHttpRequest_def add_headers_def)
  then show ?thesis using parse_loop_refines [OF assms(6), of newHttpContext t]
    by (simp add: parseRequest_def parse_agrees_def newHttpContext_def)
qed

theorem http_request_roundtrip_witness:
  "\<exists>b b' ctx. contents b = render_request kGet ''/index.html'' kHttp11 [(''Host'', ''a b'')] @ ''GET'' \<and>
     parseRequest b newHttpContext 7 = Some (Inr (True, b', ctx)) \<and> contents b' = ''GET'' \<and>
     rq_path (hc_request ctx) = ''/index.html'' \<and> getHeader ''Host'' (hc_request ctx) = ''a b''"
proof -
  let ?s = "render_request kGet ''/index.html'' kHttp11 [(''Host'', ''a b'')] @ ''GET''"
  have "buf_room newBuffer (length ?s)"
    by (simp add: render_request_def render_header_def vector_max_def kCheapPrepend_def kCRLF_def)
  from appendBuf_ok [OF buf_ok_newBuffer this] obtain b where b: "buf_ok b" "contents b = ?s" by auto
  have "list_all header_ok [(''Host'', ''a b'')]" by (simp add: header_ok_def trimmed_def isspace_def)
  from http_request_roundtrip [OF _ _ _ _ this b, of 7] b(2) show ?thesis
    by (auto simp: getHeader_def)
qed

text \<open>
  How the network cuts a request into segments makes no difference: if a first part leaves the
  parser waiting, then parsing the rest from the kept context gives the same outcome, context and
  leftover as parsing the whole from the start.
\<close>

theorem http_parse_segments:
  assumes "buf_ok b" and "hc_state ctx = kExpectRequestLine \<or> hc_state ctx = kExpectHeaders"
    and "parseRequest b ctx t = Some (Inr (True, b1, ctx1))" and "\<not> gotAll ctx1"
    and "length x \<le> vector_max" and "appendBuf x b1 = Inr b2" and "appendBuf x b = Inr b3"
  shows "\<exists>spec. parse_agrees spec (parseRequest b2 ctx1 t) \<and> parse_agrees spec (parseRequest b3 ctx t)"
proof -
  have r1: "http_lines (contents b) ctx t = Inr (True, contents b1, ctx1)" "buf_ok b1"
    using parse_loop_refines [OF assms(1,2), of t] assms(3)
    by (auto simp: parseRequest_def parse_agrees_def split: sum.splits)
  have st1: "hc_state ctx1 = kExpectRequestLine \<or> hc_state ctx1 = kExpectHeaders"
    using http_lines_state [OF r1(1) assms(2)] assms(4) by (cases "hc_state ctx1") (auto simp: gotAll_def)
  have b2: "buf_ok b2" "contents b2 = contents b1 @ x"
    using appendBuf_cases [OF r1(2) assms(5)] assms(6) by auto
  have b3: "buf_ok b3" "contents b3 = contents b @ x"
    using appendBuf_cases [OF assms(1,5)] assms(7) by auto
  have "http_lines (contents b3) ctx t = http_lines (contents b2) ctx1 t"
    using http_lines_segments [OF r1(1)] assms(4) b2(2) b3(2) by (simp add: gotAll_def)
  then show ?thesis
    using parse_loop_refines [OF b2(1) st1, of t] parse_loop_refines [OF b3(1) assms(2), of t]
    by (auto simp: parseRequest_def)
qed

theorem http_parse_segments_witness:
  "\<exists>b2 spec. appendBuf ''x'' newBuffer = Inr b2 \<and> parse_agrees spec (parseRequest b2 newHttpContext 0)"
proof -
  have st: "hc_state newHttpContext = kExpectRequestLine \<or> hc_state newHttpContext = kExpectHeaders" "\<not> gotAll newHttpContext"
    by (simp_all add: newHttpContext_def gotAll_def)
  have "findCRLF newBuffer = None" using findCRLF_split [OF buf_ok_newBuffer] by (simp add: split_line_def)
  then have "parse_round True newBuffer newHttpContext 0 = Inr (True, False, newBuffer, newHttpContext)"
    by (simp add: parse_round_def expectRequestLine_def newHttpContext_def)
  then have p: "parseRequest newBuffer newHttpContext 0 = Some (Inr (True, newBuffer, newHttpContext))"
    by (simp add: parseRequest_def parse_loop.simps)
  have len: "length ''x'' \<le> vector_max" by (simp add: vector_max_def)
  obtain b2 where a: "appendBuf ''x'' newBuffer = Inr b2"
    using appendBuf_ok [OF buf_ok_newBuffer, of "''x''"] by (auto simp: vector_max_def kCheapPrepend_def)
  from http_parse_segments [OF buf_ok_newBuffer st(1) p st(2) len a a] a show ?thesis by blast
qed

lemma onMessage_complete:
  assumes "buf_ok (t_in conn)" and "t_state conn = kConnected"
    and "hc_state ctx = kExpectRequestLine \<or> hc_state ctx = kExpectHeaders"
    and "http_lines (contents (t_in conn)) ctx t = Inr (True, rest, ctx')" and "gotAll ctx'"
    and "cb (hc_request ctx') (newHttpResponse (wants_close (hc_request ctx'))) = Inr resp"
    and "length (response_text resp) < 2 ^ 31"
  shows "\<exists>b'. buf_ok b' \<and> contents b' = rest \<and> parseRequest (t_in conn) ctx t = Some (Inr (True, b', ctx')) \<and>
    http_onMessage kw cb t conn ctx =
    Some (bindE (sendInLoop kw (response_text resp) (conn\<lparr>t_in := b'\<rparr>)) (\<lambda>c.
      Inr (if rs_closeConnection resp then shutdown True c else c, reset_context ctx')))"
proof -
  from parse_loop_refines [OF assms(1,3), of t] assms(4) obtain b' where
    b': "parseRequest (t_in conn) ctx t = Some (Inr (True, b', ctx'))" "buf_ok b'" "contents b' = rest"
    by (auto simp: parse_agrees_def parseRequest_def)
  from appendToBuffer_text [OF assms(7)] obtain rb where
    rb: "appendToBuffer resp newBuffer = Inr rb" "contents rb = response_text resp" by blast
  have "send_buffer kw True rb (conn\<lparr>t_in := b'\<rparr>) =
      bindE (sendInLoop kw (response_text resp) (conn\<lparr>t_in := b'\<rparr>)) (\<lambda>c'. Inr (c', retrieveAll rb))"
    using assms(2) rb(2) by (simp add: send_buffer_def)
  then have "onRequest kw cb (hc_request ctx') (conn\<lparr>t_in := b'\<rparr>) =
      bindE (sendInLoop kw (response_text resp) (conn\<lparr>t_in := b'\<rparr>)) (\<lambda>c.
        Inr (if rs_closeConnection resp then shutdown True c else c))"
    using rb(1) assms(6) by (simp add: onRequest_def Let_def bindE_assoc)
  then have "http_onMessage kw cb t conn ctx =
    Some (bindE (sendInLoop kw (response_text resp) (conn\<lparr>t_in := b'\<rparr>)) (\<lambda>c.
      Inr (if rs_closeConnection resp then shutdown True c else c, reset_context ctx')))"
    using b'(1) assms(5) by (simp add: http_onMessage_def Let_def bindE_assoc)
  then show ?thesis using b' by blast
qed

text \<open>
  The message handler answers one request: when the readable bytes hold a complete request, the
  callback is called with it, its response is sent as text and the connection is half closed exactly
  when the response asks for it; the context is reset. A further request that is already in the
  buffer stays there unanswered until more data arrives.
\<close>

theorem http_onMessage_answers:
  assumes "buf_ok (t_in conn)" and "t_state conn = kConnected"
    and "hc_state ctx = kExpectRequestLine \<or> hc_state ctx = kExpectHeaders"
    and "http_lines (contents (t_in conn)) ctx t = Inr (True, rest, ctx')" and "gotAll ctx'"
    and "cb (hc_request ctx') (newHttpResponse (wants_close (hc_request ctx'))) = Inr resp"
    and "length (response_text resp) < 2 ^ 31"
  shows "\<exists>b'. buf_ok b' \<and> contents b' = rest \<and> http_onMessage kw cb t conn ctx =
    Some (bindE (sendInLoop kw (response_text resp) (conn\<lparr>t_in := b'\<rparr>)) (\<lambda>c.
      Inr (if rs_closeConnection resp then shutdown True c else c, reset_context ctx')))"
  using onMessage_complete [where cb = cb and kw = kw, OF assms] by blast

text \<open>Two requests in one segment: the second waits.\<close>

definition get_request :: string where
  "get_request = render_request kGet ''/'' kHttp10 []"

lemma get_request_spec:
  "\<exists>ctx'. http_lines (get_request @ rest) newHttpContext t = Inr (True, rest, ctx') \<and> gotAll ctx' \<and> wants_close (hc_request ctx')"
  using http_lines_render [of kGet kHttp10 "''/''" "[]" newHttpContext rest t]
  by (simp add: get_request_def newHttpContext_def newHttpRequest_def add_headers_def gotAll_def wants_close_def
      getHeader_def)

theorem http_onMessage_answers_witness:
  "\<exists>conn b' ctx'. contents (t_in conn) = get_request @ get_request \<and> contents b' = get_request \<and>
     http_onMessage demo_write defaultHttpCallback 0 conn newHttpContext =
       Some (bindE (sendInLoop demo_write (''HTTP/1.1 404 Not Found'' @ kCRLF @ ''Connection: close'' @ kCRLF @ kCRLF) (conn\<lparr>t_in := b'\<rparr>))
         (\<lambda>c. Inr (shutdown True c, reset_context ctx')))"
proof -
  have "buf_room newBuffer (length (get_request @ get_request))"
    by (simp add: get_request_def render_request_def vector_max_def kCheapPrepend_def kCRLF_def)
  from appendBuf_ok [OF buf_ok_newBuffer this] obtain b where b: "buf_ok b" "contents b = get_request @ get_request" by auto
  let ?conn = "(newConn 1 7 False False)\<lparr>t_state := kConnected, t_in := b\<rparr>"
  obtain ctx' where s: "http_lines (contents (t_in ?conn)) newHttpContext 0 = Inr (True, get_request, ctx')"
    "gotAll ctx'" "wants_close (hc_request ctx')" using get_request_spec [of get_request 0] b(2) by auto
  let ?r = "(newHttpResponse (wants_close (hc_request ctx')))\<lparr>rs_statusCode := k404NotFound,
      rs_statusMessage := ''Not Found'', rs_closeConnection := True\<rparr>"
  have cb: "defaultHttpCallback (hc_request ctx') (newHttpResponse (wants_close (hc_request ctx'))) = Inr ?r"
    by (simp add: defaultHttpCallback_def)
  have dec404: "dec 404 = ''404''" by code_simp
  have rt: "response_text ?r = ''HTTP/1.1 404 Not Found'' @ kCRLF @ ''Connection: close'' @ kCRLF @ kCRLF"
    by (simp add: response_text_def newHttpResponse_def dec404)
  have c: "rs_closeConnection ?r" by simp
  have st: "hc_state newHttpContext = kExpectRequestLine \<or> hc_state newHttpContext = kExpectHeaders" by (simp add: newHttpContext_def)
  have "buf_ok (t_in ?conn)" "t_state ?conn = kConnected" using b by simp_all
  from http_onMessage_answers [where cb = defaultHttpCallback, OF this st s(1,2) cb] obtain b' where
    "contents b' = get_request" "http_onMessage demo_write defaultHttpCallback 0 ?conn newHttpContext =
      Some (bindE (sendInLoop demo_write (response_text ?r) (?conn\<lparr>t_in := b'\<rparr>)) (\<lambda>c.
      Inr (if rs_closeConnection ?r then shutdown True c else c, reset_context ctx')))"
    unfolding rt by (force simp: kCRLF_def)
  then show ?thesis unfolding rt using c b(2) by (intro exI [of _ ?conn] exI [of _ b'] exI [of _ ctx']) simp
qed

text \<open>
  A remote peer can abort the server: after a request line with a known method that is malformed
  otherwise, the connection is only half closed, the line stays in the buffer and the context keeps
  the method; the next bytes from the peer trip the assertion of \<open>setMethod\<close>.
\<close>

theorem http_malformed_then_data_aborts:
  assumes "buf_ok b" and "parseRequest b newHttpContext t = Some (Inr (False, b1, ctx1))"
    and "rq_method (hc_request ctx1) \<noteq> kInvalid"
    and "length x \<le> vector_max" and "appendBuf x b1 = Inr b2"
  shows "parseRequest b2 ctx1 t' = Some (Inl (AssertionFailed ''method_ == kInvalid''))"
proof -
  have st: "hc_state newHttpContext = kExpectRequestLine" by (simp add: newHttpContext_def)
  have r1: "http_lines (contents b) newHttpContext t = Inr (False, contents b1, ctx1)" "buf_ok b1"
    using parse_loop_refines [OF assms(1), of newHttpContext t] st assms(2)
    by (auto simp: parseRequest_def parse_agrees_def split: sum.splits)
  from http_lines_rejected [OF r1(1) assms(3)] obtain line rest where
    l: "split_line (contents b1) = Some (line, rest)" "hc_state ctx1 = kExpectRequestLine"
    "find_char (CHR '' '') line \<noteq> length line" by (auto simp: newHttpContext_def newHttpRequest_def)
  have b2: "buf_ok b2" "contents b2 = contents b1 @ x"
    using appendBuf_cases [OF r1(2) assms(4)] assms(5) by auto
  have "http_lines (contents b2) ctx1 t' = Inl (AssertionFailed ''method_ == kInvalid'')"
    using split_line_append [OF l(1), of x] l(2,3) assms(3) b2(2)
    by (subst http_lines.simps) (simp add: processRequestLine_def setMethod_def Let_def)
  then show ?thesis using parse_loop_refines [OF b2(1), of ctx1 t'] l(2)
    by (simp add: parseRequest_def parse_agrees_def)
qed

theorem http_malformed_then_data_aborts_witness:
  "\<exists>b ctx1 b2. contents b = ''GET /'' @ kCRLF \<and>
     parseRequest b newHttpContext 0 = Some (Inr (False, b, ctx1)) \<and> appendBuf ''x'' b = Inr b2 \<and>
     parseRequest b2 ctx1 0 = Some (Inl (AssertionFailed ''method_ == kInvalid''))"
proof -
  let ?s = "''GET /'' @ kCRLF" and ?ctx = "newHttpContext\<lparr>hc_request := newHttpRequest\<lparr>rq_method := kGet\<rparr>\<rparr>"
  have "buf_room newBuffer (length ?s)" by (simp add: vector_max_def kCheapPrepend_def kCRLF_def)
  from appendBuf_ok [OF buf_ok_newBuffer this] obtain b where b: "buf_ok b" "contents b = ?s"
    "writerIndex b \<le> writerIndex newBuffer + length ?s" by auto
  have "split_line ?s = Some (''GET /'', [])" using split_line_line [of "''GET /''" "[]"] by simp
  then obtain i where i: "findCRLF b = Some i" "take (i - peek b) (contents b) = ''GET /''"
    using findCRLF_split [OF b(1)] b(2) by (cases "findCRLF b") auto
  have p: "parseRequest b newHttpContext 0 = Some (Inr (False, b, ?ctx))"
    unfolding parseRequest_def
    by (subst parse_loop.simps) (simp add: parse_round_def i expectRequestLine_def processRequestLine_def setMethod_def
        method_of_def newHttpContext_def newHttpRequest_def Let_def)
  have "buf_room b (length ''x'')"
    using b(3) by (simp add: buf_room_def newBuffer_def kCheapPrepend_def kCRLF_def vector_max_def)
  from appendBuf_ok [OF b(1) this] obtain b2 where b2: "appendBuf ''x'' b = Inr b2" by blast
  have "length ''x'' \<le> vector_max" "rq_method (hc_request ?ctx) \<noteq> kInvalid" by (simp_all add: vector_max_def)
  from http_malformed_then_data_aborts [OF b(1) p this(2,1) b2] b(2) p b2 show ?thesis by blast
qed

end
