(* ===== verification/Http_Service.thy ===== *)
theory Http_Service
  imports Http
begin

text \<open>
  What \<open>HttpServer\<close> does on one connection (\<open>src/muduo/net/http/HttpServer.{h,cc}\<close>). The constructor makes \<open>HttpServer::onConnection\<close> and \<open>onMessage\<close> the callbacks of
  its connections, so a connection is served by \<open>TcpConnection::handleRead\<close> with these two: bytes arrive in
  segments of any size, the parser keeps its place in the context of the connection, and the answers go
  into the stream of the connection.
\<close>

section \<open>A connection of the server\<close>

text \<open>The context is the \<open>boost::any\<close> of the connection, empty until \<open>onConnection\<close> puts a parser into it.\<close>

record http_end =
  he_conn :: tconn
  he_context :: "http_context option"

text \<open>\<open>connectEstablished\<close> with \<open>onConnection\<close>, which calls nothing on the connection itself.\<close>

definition http_established :: "kernel_write \<Rightarrow> tconn \<Rightarrow> http_end result" where
  "http_established kw conn =
     bindE (connectEstablished kw (\<lambda>_ _. []) conn) (\<lambda>c.
     Inr \<lparr>he_conn = c, he_context = http_onConnection c None\<rparr>)"

text \<open>\<open>onMessage\<close> on the context of the connection; an empty one gives a null pointer.\<close>

definition HttpServer_onMessage :: "kernel_write \<Rightarrow> http_callback \<Rightarrow> int \<Rightarrow> http_end \<Rightarrow> http_end result option" where
  "HttpServer_onMessage kw cb t s = (case he_context s of
     None \<Rightarrow> Some (Inl (Undefined_Behaviour ''null HttpContext*''))
   | Some ctx \<Rightarrow> map_option (\<lambda>r. bindE r (\<lambda>(conn, ctx'). Inr \<lparr>he_conn = conn, he_context = Some ctx'\<rparr>))
       (http_onMessage kw cb t (he_conn s) ctx))"

text \<open>\<open>TcpConnection::handleRead\<close> with the callbacks of the server; \<open>None\<close> when the parser does not return.\<close>

definition http_handleRead ::
  "kernel_write \<Rightarrow> http_callback \<Rightarrow> int \<Rightarrow> nat + string \<Rightarrow> http_end \<Rightarrow> http_end result option" where
  "http_handleRead kw cb t readv s = (case readFd readv (t_in (he_conn s)) of
     Inl e \<Rightarrow> Some (Inl e)
   | Inr (n, savedErrno, b) \<Rightarrow>
       let conn = (he_conn s)\<lparr>t_in := b\<rparr> in
       if 0 < n then HttpServer_onMessage kw cb t (s\<lparr>he_conn := conn\<lparr>t_calls := t_calls conn @ [CbMessage]\<rparr>\<rparr>)
       else if n = 0 then
         Some (bindE (handleClose kw (\<lambda>_ _. []) conn) (\<lambda>c.
           Inr \<lparr>he_conn = c, he_context = http_onConnection c (he_context s)\<rparr>))
       else Some (Inr (s\<lparr>he_conn := handleError conn\<rparr>)))"

text \<open>The segments that arrive one after the other, each with its receive time.\<close>

fun http_segments :: "kernel_write \<Rightarrow> http_callback \<Rightarrow> (int \<times> string) list \<Rightarrow> http_end \<Rightarrow> http_end result option" where
  "http_segments kw cb [] s = Some (Inr s)"
| "http_segments kw cb ((t, x) # segs) s = (case http_handleRead kw cb t (Inr x) s of
     None \<Rightarrow> None | Some (Inl e) \<Rightarrow> Some (Inl e) | Some (Inr s') \<Rightarrow> http_segments kw cb segs s')"

lemma http_segments_append:
  "http_segments kw cb (xs @ ys) s = (case http_segments kw cb xs s of
     None \<Rightarrow> None | Some (Inl e) \<Rightarrow> Some (Inl e) | Some (Inr s') \<Rightarrow> http_segments kw cb ys s')"
  by (induction xs arbitrary: s) (auto split: option.splits sum.splits)

section \<open>The parser on prefixes\<close>

text \<open>A decision of the parser is not changed by bytes that come later.\<close>

lemma http_lines_final:
  assumes "\<And>s' ctx'. http_lines s ctx t = Inr (True, s', ctx') \<Longrightarrow> hc_state ctx' = kGotAll"
    and "hc_state ctx = kExpectRequestLine \<or> hc_state ctx = kExpectHeaders"
  shows "http_lines (s @ x) ctx t = (case http_lines s ctx t of
    Inl e \<Rightarrow> Inl e | Inr (okay, s', ctx') \<Rightarrow> Inr (okay, s' @ x, ctx'))"
  using assms
proof (induction s ctx t rule: http_lines.induct)
  case (1 s ctx t)
  show ?case
  proof (cases "split_line s")
    case None
    then show ?thesis using "1.prems"(1) [of s ctx] "1.prems"(2) by (simp add: http_lines.simps)
  next
    case (Some p)
    obtain line rest where p: "p = (line, rest)" by (cases p)
    note sp = Some [unfolded p] and spx = split_line_append [OF Some [unfolded p], of x]
    show ?thesis
    proof (cases "hc_state ctx = kExpectRequestLine")
      case True
      show ?thesis
      proof (cases "processRequestLine line ctx")
        case (Inl e)
        then show ?thesis using sp spx True by (simp add: http_lines.simps [of "s @ x"] http_lines.simps [of s])
      next
        case (Inr v)
        obtain valid ctx1 where v: "v = (valid, ctx1)" by (cases v)
        let ?ctx = "receiveRequestLine (ctx1\<lparr>hc_request := setReceiveTime t (hc_request ctx1)\<rparr>)"
        have eq: "http_lines (s @ x) ctx t = (if valid then http_lines (rest @ x) ?ctx t else Inr (False, s @ x, ctx1))"
          "http_lines s ctx t = (if valid then http_lines rest ?ctx t else Inr (False, s, ctx1))"
          using sp spx True Inr v by (simp_all add: http_lines.simps [of "s @ x"] http_lines.simps [of s])
        show ?thesis
        proof (cases valid)
          case valid: True
          from "1.IH"(1) [OF Some p [symmetric] True Inr v [symmetric] valid] "1.prems"(1) eq valid
          show ?thesis by (simp add: receiveRequestLine_def)
        qed (simp add: eq)
      qed
    next
      case False
      let ?ctx = "ctx\<lparr>hc_request := addHeader line (find_char (CHR '':'') line) (hc_request ctx)\<rparr>"
      have eq: "http_lines (s @ x) ctx t = (if CHR '':'' \<in> set line then http_lines (rest @ x) ?ctx t else Inr (True, rest @ x, receiveHeaders ctx))"
        "http_lines s ctx t = (if CHR '':'' \<in> set line then http_lines rest ?ctx t else Inr (True, rest, receiveHeaders ctx))"
        using sp spx False by (simp_all add: http_lines.simps [of "s @ x"] http_lines.simps [of s])
      show ?thesis
      proof (cases "CHR '':'' \<in> set line")
        case colon: True
        from "1.IH"(2) [OF Some p [symmetric] False colon] "1.prems" eq colon show ?thesis by simp
      qed (simp add: eq)
    qed
  qed
qed

text \<open>After the request line the time of a segment is not looked at.\<close>

lemma http_lines_time:
  assumes "hc_state ctx = kExpectHeaders"
  shows "http_lines s ctx t = http_lines s ctx t'"
  using assms
proof (induction s ctx t rule: http_lines.induct)
  case (1 s ctx t)
  then show ?case
    by (simp add: http_lines.simps [of s] split: option.splits)
qed

text \<open>An incomplete parse either waits for the request line, untouched, or is past it.\<close>

lemma http_lines_waiting:
  assumes "http_lines s ctx t = Inr (True, s', ctx')" and "hc_state ctx' = kExpectRequestLine"
    and "hc_state ctx = kExpectRequestLine \<or> hc_state ctx = kExpectHeaders"
  shows "s' = s \<and> ctx' = ctx"
  using assms
proof (induction s ctx t arbitrary: s' ctx' rule: http_lines.induct)
  case (1 s ctx t)
  show ?case
  proof (cases "split_line s")
    case None
    then show ?thesis using "1.prems" by (simp add: http_lines.simps)
  next
    case (Some p)
    obtain line rest where p: "p = (line, rest)" by (cases p)
    have False
    proof (cases "hc_state ctx = kExpectRequestLine")
      case True
      then obtain ctx1 where c1: "processRequestLine line ctx = Inr (True, ctx1)"
        and r: "http_lines rest (receiveRequestLine (ctx1\<lparr>hc_request := setReceiveTime t (hc_request ctx1)\<rparr>)) t = Inr (True, s', ctx')"
        using "1.prems"(1) Some p by (subst (asm) http_lines.simps) (auto split: if_splits)
      from "1.IH"(1) [OF Some p [symmetric] True c1 refl TrueI r "1.prems"(2)]
      show False using "1.prems"(2) by (simp add: receiveRequestLine_def)
    next
      case False
      show False
      proof (cases "CHR '':'' \<in> set line")
        case colon: True
        then have "http_lines rest (ctx\<lparr>hc_request := addHeader line (find_char (CHR '':'') line) (hc_request ctx)\<rparr>) t = Inr (True, s', ctx')"
          using "1.prems"(1) Some p False by (subst (asm) http_lines.simps) simp
        from "1.IH"(2) [OF Some p [symmetric] False colon this "1.prems"(2)] show False
          using "1.prems"(2,3) False by auto
      next
        case False
        then show False using "1.prems"(1,2) Some p \<open>hc_state ctx \<noteq> kExpectRequestLine\<close>
          by (auto simp: http_lines.simps receiveHeaders_def)
      qed
    qed
    then show ?thesis ..
  qed
qed

section \<open>Requests in pieces\<close>

record http_query =
  qy_method :: http_method
  qy_path :: string
  qy_version :: http_version
  qy_headers :: "(string \<times> string) list"

definition query_ok :: "http_query \<Rightarrow> bool" where
  "query_ok q \<longleftrightarrow> qy_method q \<noteq> kInvalid \<and> qy_version q \<noteq> kUnknown \<and> CHR '' '' \<notin> set (qy_path q) \<and>
     CHR 0x0D \<notin> set (qy_path q) \<and> list_all header_ok (qy_headers q)"

definition query_text :: "http_query \<Rightarrow> string" where
  "query_text q = render_request (qy_method q) (qy_path q) (qy_version q) (qy_headers q)"

definition request_of :: "http_query \<Rightarrow> int \<Rightarrow> http_request" where
  "request_of q t = \<lparr>rq_method = qy_method q, rq_version = qy_version q, rq_path = qy_path q, rq_receiveTime = t,
     rq_headers = fold (\<lambda>h. map_put (fst h) (snd h)) (qy_headers q) []\<rparr>"

text \<open>A context between two requests: fresh, or as \<open>reset\<close> leaves it, with the version of the last request.\<close>

definition clean :: "http_context \<Rightarrow> bool" where
  "clean ctx \<longleftrightarrow> hc_state ctx = kExpectRequestLine \<and> rq_method (hc_request ctx) = kInvalid \<and> rq_headers (hc_request ctx) = []"

lemma clean_contexts [simp]: "clean newHttpContext" "clean (reset_context ctx)"
  by (simp_all add: clean_def newHttpContext_def newHttpRequest_def reset_context_def swap_request_def)

text \<open>The parser waits for the text \<open>w\<close>, which completes the request.\<close>

definition awaits :: "http_query \<Rightarrow> string \<Rightarrow> http_context \<Rightarrow> bool" where
  "awaits q w ctx \<longleftrightarrow> (hc_state ctx = kExpectRequestLine \<or> hc_state ctx = kExpectHeaders) \<and>
     (\<forall>t. \<exists>t' ctx'. http_lines w ctx t = Inr (True, [], ctx') \<and> gotAll ctx' \<and> hc_request ctx' = request_of q t')"

lemma awaits_start:
  assumes "query_ok q" and "clean ctx"
  shows "awaits q (query_text q) ctx"
  using assms http_lines_render [of "qy_method q" "qy_version q" "qy_path q" "qy_headers q" ctx "[]"]
  by (cases "hc_request ctx")
    (auto simp: awaits_def query_ok_def query_text_def clean_def gotAll_def add_headers_def request_of_def)

lemma awaits_step:
  assumes "awaits q (x @ y) ctx" and "y \<noteq> []"
  shows "\<exists>cont' ctx'. http_lines x ctx t = Inr (True, cont', ctx') \<and> \<not> gotAll ctx' \<and> awaits q (cont' @ y) ctx'"
proof -
  note st = conjunct1 [OF assms(1) [unfolded awaits_def]]
  have full: "\<exists>t' c. http_lines (x @ y) ctx t = Inr (True, [], c) \<and> gotAll c \<and> hc_request c = request_of q t'" for t
    using assms(1) by (simp add: awaits_def)
  have "\<exists>cont' ctx'. http_lines x ctx t = Inr (True, cont', ctx') \<and> hc_state ctx' \<noteq> kGotAll"
  proof (rule ccontr)
    assume *: "\<not> ?thesis"
    have "http_lines (x @ y) ctx t = (case http_lines x ctx t of
        Inl e \<Rightarrow> Inl e | Inr (okay, s', ctx') \<Rightarrow> Inr (okay, s' @ y, ctx'))"
      by (rule http_lines_final [OF _ st]) (use * in blast)
    then show False using full [of t] assms(2) by (auto split: sum.splits prod.splits)
  qed
  then obtain cont' ctx' where r: "http_lines x ctx t = Inr (True, cont', ctx')" "hc_state ctx' \<noteq> kGotAll" by blast
  have st': "hc_state ctx' = kExpectRequestLine \<or> hc_state ctx' = kExpectHeaders"
    using http_lines_state [OF r(1) st] r(2) by (cases "hc_state ctx'") auto
  have "awaits q (cont' @ y) ctx'"
  proof (cases "hc_state ctx' = kExpectRequestLine")
    case True
    then show ?thesis using http_lines_waiting [OF r(1) True st] full st by (simp add: awaits_def)
  next
    case False
    then have "http_lines (cont' @ y) ctx' t2 = http_lines (x @ y) ctx t" for t2
      using http_lines_segments [OF r, of y] http_lines_time [of ctx' "cont' @ y" t2 t] st' by simp
    then show ?thesis using full [of t] st' by (simp add: awaits_def)
  qed
  then show ?thesis using r by (auto simp: gotAll_def)
qed

text \<open>What comes behind the request stays.\<close>

lemma awaits_complete:
  assumes "awaits q w ctx"
  shows "\<exists>t' ctx'. http_lines (w @ z) ctx t = Inr (True, z, ctx') \<and> gotAll ctx' \<and> hc_request ctx' = request_of q t'"
proof -
  from assms obtain t' ctx' where r: "http_lines w ctx t = Inr (True, [], ctx')" "gotAll ctx'" "hc_request ctx' = request_of q t'"
    unfolding awaits_def by blast
  have "http_lines (w @ z) ctx t = (case http_lines w ctx t of Inl e \<Rightarrow> Inl e | Inr (okay, s', ctx') \<Rightarrow> Inr (okay, s' @ z, ctx'))"
    by (rule http_lines_final) (use assms r in \<open>auto simp: awaits_def gotAll_def\<close>)
  then show ?thesis using r by (intro exI [of _ t'] exI [of _ ctx']) simp
qed

text \<open>Parsing never moves the write index up.\<close>

lemma retrieveUntil_index: "retrieveUntil e b = Inr b' \<Longrightarrow> writerIndex b' \<le> max kCheapPrepend (writerIndex b)"
  by (auto simp: retrieveUntil_def retrieve_def retrieveAll_def split: if_splits)

lemma parse_round_index:
  "parse_round okay b ctx t = Inr (okay', more', b', ctx') \<Longrightarrow> writerIndex b' \<le> max kCheapPrepend (writerIndex b)"
  by (auto simp: parse_round_def Let_def dest: retrieveUntil_index split: if_splits option.splits)

lemma parse_loop_index:
  assumes "parse_loop okay b ctx t = Some (Inr (okay', b', ctx'))"
  shows "writerIndex b' \<le> max kCheapPrepend (writerIndex b)"
proof -
  have "\<forall>okay' b' ctx'. r = Inr (okay', b', ctx') \<longrightarrow> writerIndex b' \<le> max kCheapPrepend (writerIndex b)"
    if "parse_loop okay b ctx t = Some r" for r
  proof (rule parse_loop.raw_induct [OF _ that], intro allI impI)
    fix loop okay b ctx t r okay' b' ctx'
    assume IH: "\<And>okay b ctx t r. loop okay b ctx t = Some r \<Longrightarrow>
        \<forall>okay' b' ctx'. r = Inr (okay', b', ctx') \<longrightarrow> writerIndex b' \<le> max kCheapPrepend (writerIndex b)"
      and run: "(case parse_round okay b ctx t of Inl e \<Rightarrow> Some (Inl e)
        | Inr (okay', hasMore, buf', ctx') \<Rightarrow> if hasMore then loop okay' buf' ctx' t else Some (Inr (okay', buf', ctx'))) = Some r"
      and r: "r = Inr (okay', b', ctx')"
    from run r obtain okay1 hasMore b1 ctx1 where p: "parse_round okay b ctx t = Inr (okay1, hasMore, b1, ctx1)"
      and rest: "(if hasMore then loop okay1 b1 ctx1 t else Some (Inr (okay1, b1, ctx1))) = Some r"
      by (auto split: sum.splits)
    have "writerIndex b' \<le> max kCheapPrepend (writerIndex b1)"
      using rest IH [of okay1 b1 ctx1 t r] r by (auto split: if_splits)
    then show "writerIndex b' \<le> max kCheapPrepend (writerIndex b)" using parse_round_index [OF p] by linarith
  qed
  with assms show ?thesis by blast
qed

section \<open>Serving\<close>

text \<open>A connection between two requests, with \<open>z\<close> in its input buffer and room there for \<open>m\<close> more bytes.\<close>

definition between :: "nat \<Rightarrow> string \<Rightarrow> http_end \<Rightarrow> bool" where
  "between m z s \<longleftrightarrow> conn_ok (he_conn s) \<and> buf_room (t_in (he_conn s)) m \<and> contents (t_in (he_conn s)) = z \<and>
     (\<exists>ctx. he_context s = Some ctx \<and> clean ctx)"

text \<open>The connection after a segment was read and the message callback logged.\<close>

definition fed :: "buffer \<Rightarrow> http_end \<Rightarrow> tconn" where
  "fed b s = (he_conn s)\<lparr>t_in := b, t_calls := t_calls (he_conn s) @ [CbMessage]\<rparr>"

lemma fed_in [simp]: "(fed b s)\<lparr>t_in := b'\<rparr> = fed b' s"
  by (cases "he_conn s") (simp add: fed_def)

lemma fed_simps [simp]:
  "t_in (fed b s) = b" "t_state (fed b s) = t_state (he_conn s)" "t_accepted (fed b s) = t_accepted (he_conn s)"
  by (simp_all add: fed_def)

lemma fed_open: "open_conn n (he_conn s) \<Longrightarrow> buf_ok b \<Longrightarrow> open_conn n (fed b s)"
  using advances_ok [OF log_call_ok [OF advances_ok [OF input_ok, of "he_conn s" b], of "t_calls (he_conn s) @ [CbMessage]"]]
  by (simp add: open_conn_def fed_def)

lemma handleRead_segment:
  assumes "buf_ok (t_in (he_conn s))" and "buf_room (t_in (he_conn s)) (length x + m)" and "x \<noteq> []" and "he_context s = Some ctx"
  shows "\<exists>b. buf_ok b \<and> contents b = contents (t_in (he_conn s)) @ x \<and> buf_room b m \<and>
    http_handleRead kw cb t (Inr x) s =
      map_option (\<lambda>r. bindE r (\<lambda>(conn, ctx'). Inr \<lparr>he_conn = conn, he_context = Some ctx'\<rparr>)) (http_onMessage kw cb t (fed b s) ctx)"
proof -
  have "buf_room (t_in (he_conn s)) (length x)" using assms(2) by (simp add: buf_room_def)
  from readFd_room [OF assms(1) this] obtain b where
    b: "readFd (Inr x) (t_in (he_conn s)) = Inr (int (length x), None, b)" "buf_ok b" "contents b = contents (t_in (he_conn s)) @ x"
      "writerIndex b \<le> writerIndex (t_in (he_conn s)) + length x" by blast
  then show ?thesis
    using assms(2-4) by (intro exI [of _ b]) (simp add: http_handleRead_def HttpServer_onMessage_def fed_def buf_room_def)
qed

lemma parse_room:
  assumes "buf_ok b" and "buf_room b m" and "parseRequest b ctx t = Some (Inr (okay, b', ctx'))"
  shows "buf_room b' m"
  using parse_loop_index [OF assms(3) [unfolded parseRequest_def]] assms(1,2) by (auto simp: buf_room_def buf_ok_def)

text \<open>A segment that does not complete the request is kept.\<close>

lemma segment_waits:
  assumes s: "open_conn n (he_conn s)" "buf_room (t_in (he_conn s)) (length x + m)" "he_context s = Some ctx" "awaits q w ctx"
    and w: "w = contents (t_in (he_conn s)) @ x @ y" "x \<noteq> []" "y \<noteq> []"
  shows "\<exists>s' ctx' w'. http_handleRead kw cb t (Inr x) s = Some (Inr s') \<and> open_conn n (he_conn s') \<and>
    buf_room (t_in (he_conn s')) m \<and> he_context s' = Some ctx' \<and> awaits q w' ctx' \<and> w' = contents (t_in (he_conn s')) @ y \<and>
    t_accepted (he_conn s') = t_accepted (he_conn s)"
proof -
  have ok: "buf_ok (t_in (he_conn s))" using s(1) conn_okD(1) by (simp add: open_conn_def)
  from handleRead_segment [OF ok s(2) w(2) s(3), of kw cb t] obtain b where
    b: "buf_ok b" "contents b = contents (t_in (he_conn s)) @ x" "buf_room b m"
    and run: "http_handleRead kw cb t (Inr x) s =
      map_option (\<lambda>r. bindE r (\<lambda>(conn, ctx'). Inr \<lparr>he_conn = conn, he_context = Some ctx'\<rparr>)) (http_onMessage kw cb t (fed b s) ctx)"
    by blast
  have "awaits q (contents b @ y) ctx" using s(4) by (simp add: w(1) b(2))
  from awaits_step [OF this w(3), of t] obtain cont' ctx' where
    sp: "http_lines (contents b) ctx t = Inr (True, cont', ctx')" "\<not> gotAll ctx'" "awaits q (cont' @ y) ctx'" by auto
  have st: "hc_state ctx = kExpectRequestLine \<or> hc_state ctx = kExpectHeaders" using s(4) by (simp add: awaits_def)
  from parse_loop_refines [OF b(1) st, of t] sp(1) obtain b' where
    b': "parseRequest b ctx t = Some (Inr (True, b', ctx'))" "buf_ok b'" "contents b' = cont'"
    by (auto simp: parse_agrees_def parseRequest_def)
  let ?s' = "\<lparr>he_conn = fed b' s, he_context = Some ctx'\<rparr>"
  have "http_onMessage kw cb t (fed b s) ctx = Some (Inr (fed b' s, ctx'))"
    using b'(1) sp(2) by (simp add: http_onMessage_def)
  then show ?thesis
    using run sp(3) b' parse_room [OF b(1,3) b'(1)] fed_open [OF s(1) b'(2)]
    by (intro exI [of _ ?s'] exI [of _ ctx'] exI [of _ "cont' @ y"]) simp
qed

text \<open>The answer of the callback to a query, whenever it arrives.\<close>

definition answers :: "http_callback \<Rightarrow> http_query \<Rightarrow> http_response \<Rightarrow> bool" where
  "answers cb q resp \<longleftrightarrow> length (response_text resp) < 2 ^ 31 \<and>
     (\<forall>t. cb (request_of q t) (newHttpResponse (wants_close (request_of q t))) = Inr resp)"

lemma shutdown_fields [simp]:
  "t_in (shutdown True c) = t_in c" "t_accepted (shutdown True c) = t_accepted c"
  "t_state c = kConnected \<Longrightarrow> t_state (shutdown True c) = kDisconnecting"
  by (simp_all add: shutdown_def shutdownInLoop_def Let_def)

text \<open>A segment that completes the request is answered, and what comes behind the request is kept.\<close>

lemma segment_completes:
  assumes kw: "write_ok kw" "no_epipe kw" and ans: "answers cb q resp"
    and s: "open_conn (length (response_text resp) + n) (he_conn s)" "buf_room (t_in (he_conn s)) (length x + m)"
      "he_context s = Some ctx" "awaits q w ctx"
    and w: "contents (t_in (he_conn s)) @ x = w @ z" "x \<noteq> []"
  shows "\<exists>s'. http_handleRead kw cb t (Inr x) s = Some (Inr s') \<and> between m z s' \<and>
    t_accepted (he_conn s') = t_accepted (he_conn s) @ response_text resp \<and>
    (if rs_closeConnection resp then t_state (he_conn s') = kDisconnecting else open_conn n (he_conn s'))"
proof -
  let ?out = "response_text resp"
  have ok: "buf_ok (t_in (he_conn s))" using s(1) conn_okD(1) by (simp add: open_conn_def)
  from handleRead_segment [OF ok s(2) w(2) s(3), of kw cb t] obtain b where
    b: "buf_ok b" "contents b = w @ z" "buf_room b m"
    and run: "http_handleRead kw cb t (Inr x) s =
      map_option (\<lambda>r. bindE r (\<lambda>(conn, ctx'). Inr \<lparr>he_conn = conn, he_context = Some ctx'\<rparr>)) (http_onMessage kw cb t (fed b s) ctx)"
    unfolding w(1) by blast
  have st: "hc_state ctx = kExpectRequestLine \<or> hc_state ctx = kExpectHeaders" using s(4) by (simp add: awaits_def)
  from awaits_complete [OF s(4), of z t] obtain t' ctx' where
    sp: "http_lines (contents b) ctx t = Inr (True, z, ctx')" "gotAll ctx'" "hc_request ctx' = request_of q t'"
    unfolding b(2) by blast
  have conn: "t_state (fed b s) = kConnected" using s(1) by (simp add: open_conn_def)
  from onMessage_complete [of "fed b s" ctx t z ctx' cb resp kw] obtain b' where
    b': "buf_ok b'" "contents b' = z" "parseRequest b ctx t = Some (Inr (True, b', ctx'))"
    and msg: "http_onMessage kw cb t (fed b s) ctx =
      Some (bindE (sendInLoop kw ?out (fed b' s)) (\<lambda>c.
        Inr (if rs_closeConnection resp then shutdown True c else c, reset_context ctx')))"
    using b(1) conn sp st ans by (auto simp: answers_def)
  obtain c where c: "sendInLoop kw ?out (fed b' s) = Inr c" "conn_ok c" "t_state c = kConnected"
    "t_accepted c = t_accepted (he_conn s) @ ?out" "t_in c = b'" "open_conn n c"
    using fed_open [OF s(1) b'(1)] sendInLoop_takes [OF kw, of "fed b' s" ?out] by (auto simp: open_conn_def)
  let ?c = "if rs_closeConnection resp then shutdown True c else c"
  let ?s' = "\<lparr>he_conn = ?c, he_context = Some (reset_context ctx')\<rparr>"
  have "http_handleRead kw cb t (Inr x) s = Some (Inr ?s')" using run msg c(1) by simp
  moreover have "conn_ok ?c" "t_in ?c = b'" "t_accepted ?c = t_accepted (he_conn s) @ ?out"
    using c advances_ok [OF shutdown_ok [OF c(2)]] by simp_all
  ultimately show ?thesis using b' c(3,6) parse_room [OF b(1,3) b'(3)] by (intro exI [of _ ?s']) (simp add: between_def)
qed

section \<open>Sessions\<close>

text \<open>A query with the response to it.\<close>

record http_exchange =
  ex_query :: http_query
  ex_response :: http_response

definition exchange_ok :: "http_callback \<Rightarrow> http_exchange \<Rightarrow> bool" where
  "exchange_ok cb e \<longleftrightarrow> query_ok (ex_query e) \<and> answers cb (ex_query e) (ex_response e)"

abbreviation inputs :: "http_exchange list \<Rightarrow> string" where
  "inputs es \<equiv> concat (map (\<lambda>e. query_text (ex_query e)) es)"

abbreviation outputs :: "http_exchange list \<Rightarrow> string" where
  "outputs es \<equiv> concat (map (\<lambda>e. response_text (ex_response e)) es)"

text \<open>
  How many of the requests, given their lengths, are answered when segments of the given lengths arrive: \<open>got\<close> bytes are there before
  a segment, and a segment that makes the next request complete has it answered, but never a second one.
\<close>

fun answered :: "nat list \<Rightarrow> nat \<Rightarrow> nat list \<Rightarrow> nat" where
  "answered (l # ls) got (x # xs) = (if l \<le> got + x then Suc (answered ls (got + x - l) xs) else answered (l # ls) (got + x) xs)"
| "answered _ _ _ = 0"

text \<open>A client that starts a segment with every request, as one does that waits for each answer, has all of them answered.\<close>

lemma answered_group:
  assumes "xs \<noteq> []" and "0 \<notin> set xs" and "got + sum_list xs = l"
  shows "answered (l # ls) got (xs @ ys) = Suc (answered ls 0 ys)"
  using assms
proof (induction xs arbitrary: got)
  case (Cons x xs)
  show ?case
  proof (cases "xs = []")
    case True
    then show ?thesis using Cons.prems by simp
  next
    case False
    then have "0 < sum_list xs" using Cons.prems(2) by (cases xs) auto
    then show ?thesis using Cons.IH [OF False, of "got + x"] Cons.prems by simp
  qed
qed simp

lemma answered_aligned:
  assumes "list_all2 (\<lambda>l xs. xs \<noteq> [] \<and> 0 \<notin> set xs \<and> sum_list xs = l) ls groups"
  shows "answered ls 0 (concat groups) = length ls"
  using assms by (induction rule: list_all2_induct) (simp_all add: answered_group)

definition session_answered :: "http_exchange list \<Rightarrow> (int \<times> string) list \<Rightarrow> nat" where
  "session_answered es segs = answered (map (\<lambda>e. length (query_text (ex_query e))) es) 0 (map (\<lambda>x. length (snd x)) segs)"

lemma query_text_not_Nil [simp]: "query_text q \<noteq> []"
  by (simp add: query_text_def render_request_def)

abbreviation lengths :: "http_exchange list \<Rightarrow> nat list" where
  "lengths es \<equiv> map (\<lambda>e. length (query_text (ex_query e))) es"

lemma append_longer: "a @ b = c @ d \<Longrightarrow> length c \<le> length a \<Longrightarrow> \<exists>z. a = c @ z \<and> z @ b = d"
  by (auto simp: append_eq_append_conv2)

lemma exchanges_served:
  assumes kw: "write_ok kw" "no_epipe kw"
    and "list_all (exchange_ok cb) es" and "list_all (\<lambda>e. \<not> rs_closeConnection (ex_response e)) (butlast es)" and "es \<noteq> []"
    and "open_conn (length (outputs es)) (he_conn s)" and "buf_room (t_in (he_conn s)) (length (concat (map snd segs)))"
    and "he_context s = Some ctx" and "awaits (ex_query (hd es)) w ctx"
    and "contents (t_in (he_conn s)) @ concat (map snd segs) = w @ inputs (tl es)" and "segs \<noteq> []" and "\<forall>x\<in>set segs. snd x \<noteq> []"
    and "got + length (concat (map snd segs)) = length (inputs es)"
  defines "k \<equiv> answered (lengths es) got (map (\<lambda>x. length (snd x)) segs)"
  shows "\<exists>s'. http_segments kw cb segs s = Some (Inr s') \<and> t_accepted (he_conn s') = t_accepted (he_conn s) @ outputs (take k es) \<and>
    between 0 (inputs (drop k es)) s' \<and>
    t_state (he_conn s') = (if k = length es \<and> rs_closeConnection (ex_response (last es)) then kDisconnecting else kConnected)"
  using assms(3-13) unfolding k_def
proof (induction segs arbitrary: es w s ctx got)
  case (Cons seg segs)
  obtain t x where seg: "seg = (t, x)" by (cases seg)
  obtain e es' where es: "es = e # es'" using Cons.prems(3) by (cases es) auto
  let ?S = "concat (map snd segs)" and ?l = "length (query_text (ex_query e))" and ?xs = "map (\<lambda>x. length (snd x)) segs"
  have x: "x \<noteq> []" and segs: "\<forall>x\<in>set segs. snd x \<noteq> []" using Cons.prems(10) seg by simp_all
  have all: "(contents (t_in (he_conn s)) @ x) @ ?S = w @ inputs es'" using Cons.prems(8) by (simp add: seg es)
  have len: "got + length x + length ?S = ?l + length (inputs es')" using Cons.prems(11) by (simp add: seg es)
  have room: "buf_room (t_in (he_conn s)) (length x + length ?S)" using Cons.prems(5) by (simp add: seg)
  have q: "awaits (ex_query e) w ctx" and e: "answers cb (ex_query e) (ex_response e)" using Cons.prems(1,7) by (simp_all add: es exchange_ok_def)
  show ?case
  proof (cases "?l \<le> got + length x")
    case True
    then have "length ?S \<le> length (inputs es')" using len by linarith
    moreover have "length (contents (t_in (he_conn s)) @ x) + length ?S = length w + length (inputs es')"
      using arg_cong [OF all, of length] by simp
    ultimately have "length w \<le> length (contents (t_in (he_conn s)) @ x)" by linarith
    then obtain z where z: "contents (t_in (he_conn s)) @ x = w @ z" "z @ ?S = inputs es'"
      using append_longer [OF all] by blast
    have "open_conn (length (response_text (ex_response e)) + length (outputs es')) (he_conn s)" using Cons.prems(4) by (simp add: es)
    from segment_completes [OF kw e this room Cons.prems(6) q z(1) x, of t] obtain s1 where
      s1: "http_handleRead kw cb t (Inr x) s = Some (Inr s1)" "between (length ?S) z s1"
        "t_accepted (he_conn s1) = t_accepted (he_conn s) @ response_text (ex_response e)"
        "if rs_closeConnection (ex_response e) then t_state (he_conn s1) = kDisconnecting else open_conn (length (outputs es')) (he_conn s1)"
      by blast
    have k: "answered (lengths es) got (map (\<lambda>x. length (snd x)) (seg # segs)) = Suc (answered (lengths es') (got + length x - ?l) ?xs)"
      using True by (simp add: es seg)
    show ?thesis
    proof (cases "segs = []")
      case True
      then have "t_state (he_conn s1) = (if es' = [] \<and> rs_closeConnection (ex_response e) then kDisconnecting else kConnected)"
        using s1(4) Cons.prems(2) by (auto simp: es open_conn_def split: if_splits)
      then show ?thesis using s1 z(2) True unfolding k by (auto simp: seg es)
    next
      case False
      then have "?S \<noteq> []" using segs by (cases segs) auto
      then have es': "es' \<noteq> []" using z(2) by (metis Nil_is_append_conv concat.simps(1) list.simps(8))
      have o: "open_conn (length (outputs es')) (he_conn s1)" using s1(4) Cons.prems(2) es' by (simp add: es)
      obtain ctx1 where c1: "he_context s1 = Some ctx1" "clean ctx1" using s1(2) by (auto simp: between_def)
      have "query_ok (ex_query (hd es'))" using Cons.prems(1) es' by (cases es') (simp_all add: es exchange_ok_def)
      note aw = awaits_start [OF this c1(2)]
      have "inputs es' = query_text (ex_query (hd es')) @ inputs (tl es')" using es' by (cases es') simp_all
      then have cont: "contents (t_in (he_conn s1)) @ ?S = query_text (ex_query (hd es')) @ inputs (tl es')"
        using s1(2) z(2) by (simp add: between_def)
      have room1: "buf_room (t_in (he_conn s1)) (length ?S)" using s1(2) by (simp add: between_def)
      have got: "got + length x - ?l + length ?S = length (inputs es')" using len \<open>?l \<le> got + length x\<close> by linarith
      have "list_all (exchange_ok cb) es'" "list_all (\<lambda>e. \<not> rs_closeConnection (ex_response e)) (butlast es')"
        using Cons.prems(1,2) es' by (simp_all add: es)
      from Cons.IH [OF this es' o room1 c1(1) aw cont False segs got] obtain s' where
        "http_segments kw cb segs s1 = Some (Inr s')"
        "t_accepted (he_conn s') = t_accepted (he_conn s1) @ outputs (take (answered (lengths es') (got + length x - ?l) ?xs) es')"
        "between 0 (inputs (drop (answered (lengths es') (got + length x - ?l) ?xs) es')) s'"
        "t_state (he_conn s') = (if answered (lengths es') (got + length x - ?l) ?xs = length es' \<and>
           rs_closeConnection (ex_response (last es')) then kDisconnecting else kConnected)" by blast
      then show ?thesis using s1 es' unfolding k by (simp add: seg es)
    qed
  next
    case False
    then have "length (inputs es') < length ?S" using len by linarith
    then have "segs \<noteq> []" by auto
    moreover have "length (contents (t_in (he_conn s)) @ x) \<le> length w"
      using arg_cong [OF all, of length, unfolded length_append [of _ ?S] length_append [of w]] \<open>length (inputs es') < length ?S\<close> by linarith
    then obtain y where y: "w = (contents (t_in (he_conn s)) @ x) @ y" "?S = y @ inputs es'"
      using append_longer [OF all [symmetric]] by (metis (no_types))
    have ne: "y \<noteq> []" using y(2) \<open>length (inputs es') < length ?S\<close> by (cases y) (simp_all only: append_Nil less_irrefl list.distinct not_False_eq_True)
    from segment_waits [OF Cons.prems(4) room Cons.prems(6) q _ x ne, of kw cb t] y(1) obtain s1 ctx1 w1 where
      s1: "http_handleRead kw cb t (Inr x) s = Some (Inr s1)" "open_conn (length (outputs es)) (he_conn s1)"
        "buf_room (t_in (he_conn s1)) (length ?S)" "he_context s1 = Some ctx1" "awaits (ex_query e) w1 ctx1"
        "w1 = contents (t_in (he_conn s1)) @ y" "t_accepted (he_conn s1) = t_accepted (he_conn s)" by auto
    have aw: "awaits (ex_query (hd es)) w1 ctx1" and cont: "contents (t_in (he_conn s1)) @ ?S = w1 @ inputs (tl es)"
      and got: "got + length x + length ?S = length (inputs es)" using s1(5,6) y(2) len by (simp_all add: es)
    from Cons.IH [OF Cons.prems(1-3) s1(2-4) aw cont calculation segs got] s1(1,7) False show ?thesis by (simp add: seg es)
  qed
qed simp

text \<open>
  A whole HTTP session on a new connection, whatever the segments are and whenever they arrive: the bytes written to the kernel followed by the
  output buffer are exactly the printed responses to the requests answered, in the order of the requests, and the requests
  that are not answered are in the input buffer, complete, with the parser before the first of them. The connection stays open
  until the last request is answered with a response that asks to close it, and is then half closed behind that response.
\<close>

lemma http_session:
  assumes kw: "write_ok kw" "no_epipe kw" and "list_all (exchange_ok cb) es"
    and "list_all (\<lambda>e. \<not> rs_closeConnection (ex_response e)) (butlast es)" and "es \<noteq> []"
    and "concat (map snd segs) = inputs es" and "\<forall>x\<in>set segs. snd x \<noteq> []"
    and "kCheapPrepend + length (inputs es) \<le> vector_max" and "kCheapPrepend + length (outputs es) \<le> vector_max"
  defines "k \<equiv> session_answered es segs"
  shows "\<exists>s s' ctx. http_established kw (newConn cid fd wc hwm) = Inr s \<and> http_segments kw cb segs s = Some (Inr s') \<and>
    t_sent (he_conn s') @ contents (t_out (he_conn s')) = outputs (take k es) \<and>
    contents (t_in (he_conn s')) = inputs (drop k es) \<and> he_context s' = Some ctx \<and> clean ctx \<and> conn_ok (he_conn s') \<and>
    t_state (he_conn s') = (if k = length es \<and> rs_closeConnection (ex_response (last es)) then kDisconnecting else kConnected)"
proof -
  obtain c where c: "connectEstablished kw (\<lambda>_ _. []) (newConn cid fd wc hwm) = Inr c"
    "open_conn (length (outputs es)) c" "t_accepted c = []" "t_in c = newBuffer"
    using established_open [OF kw(1), of "length (outputs es)" cid fd wc hwm] assms(9) by auto
  let ?s = "\<lparr>he_conn = c, he_context = Some newHttpContext\<rparr>"
  have est: "http_established kw (newConn cid fd wc hwm) = Inr ?s"
    using c(1,2) by (simp add: http_established_def http_onConnection_def connected_def open_conn_def)
  have new: "contents newBuffer = []" by (simp add: newBuffer_def contents_def readableBytes_def)
  have "query_ok (ex_query (hd es))" using assms(3,5) by (cases es) (simp_all add: exchange_ok_def)
  then have aw: "awaits (ex_query (hd es)) (query_text (ex_query (hd es))) newHttpContext" by (rule awaits_start) simp
  have in': "inputs es = query_text (ex_query (hd es)) @ inputs (tl es)" using assms(5) by (cases es) simp_all
  have "segs \<noteq> []" using assms(6) in' query_text_not_Nil [of "ex_query (hd es)"] by auto
  with exchanges_served [OF kw assms(3-5), of ?s segs newHttpContext "query_text (ex_query (hd es))" 0] obtain s' where
    s': "http_segments kw cb segs ?s = Some (Inr s')" "t_accepted (he_conn s') = outputs (take k es)" "between 0 (inputs (drop k es)) s'"
      "t_state (he_conn s') = (if k = length es \<and> rs_closeConnection (ex_response (last es)) then kDisconnecting else kConnected)"
    using c aw in' assms(6-8) new by (auto simp: k_def session_answered_def buf_room_def newBuffer_def)
  then obtain ctx where "he_context s' = Some ctx" "clean ctx" by (auto simp: between_def)
  then show ?thesis using est s' conn_okD(3) by (intro exI [of _ ?s] exI [of _ s'] exI [of _ ctx]) (simp add: between_def)
qed

text \<open>Two requests; the second, of version 1.0, closes the connection.\<close>

definition demo_callback :: http_callback where
  "demo_callback rq resp = Inr (resp\<lparr>rs_statusCode := k200Ok, rs_statusMessage := ''OK'', rs_body := rq_path rq\<rparr>)"

definition demo_exchange :: "string \<Rightarrow> http_version \<Rightarrow> http_exchange" where
  "demo_exchange p v = \<lparr>ex_query = \<lparr>qy_method = kGet, qy_path = p, qy_version = v, qy_headers = []\<rparr>,
     ex_response = (newHttpResponse (v = kHttp10))\<lparr>rs_statusCode := k200Ok, rs_statusMessage := ''OK'', rs_body := p\<rparr>\<rparr>"

definition demo_first :: http_exchange where
  "demo_first = demo_exchange ''/a'' kHttp11"

definition demo_last :: http_exchange where
  "demo_last = demo_exchange ''/b'' kHttp10"

lemma demo_responses:
  "response_text (ex_response demo_first) = ''HTTP/1.1 200 OK'' @ kCRLF @ ''Content-Length: 2'' @ kCRLF @
     ''Connection: Keep-Alive'' @ kCRLF @ kCRLF @ ''/a''"
  "response_text (ex_response demo_last) = ''HTTP/1.1 200 OK'' @ kCRLF @ ''Connection: close'' @ kCRLF @ kCRLF @ ''/b''"
proof -
  have d: "dec 200 = ''200''" "dec 2 = ''2''" by code_simp+
  show "response_text (ex_response demo_first) = ''HTTP/1.1 200 OK'' @ kCRLF @ ''Content-Length: 2'' @ kCRLF @
     ''Connection: Keep-Alive'' @ kCRLF @ kCRLF @ ''/a''"
    "response_text (ex_response demo_last) = ''HTTP/1.1 200 OK'' @ kCRLF @ ''Connection: close'' @ kCRLF @ kCRLF @ ''/b''"
    by (simp_all add: response_text_def demo_first_def demo_last_def demo_exchange_def newHttpResponse_def d numeral_2_eq_2 [symmetric])
qed

lemma demo_exchanges_ok: "exchange_ok demo_callback demo_first" "exchange_ok demo_callback demo_last"
  unfolding exchange_ok_def answers_def demo_responses
  by (simp_all add: demo_first_def demo_last_def demo_exchange_def query_ok_def query_text_def render_request_def kCRLF_def
      demo_callback_def request_of_def wants_close_def getHeader_def newHttpResponse_def)

lemma demo_no_epipe: "no_epipe demo_write"
  by (simp add: no_epipe_def demo_write_def)

end
