(* ===== verification/Rpc.thy ===== *)
theory Rpc
  imports Tcp_Events Std_Map
begin

text \<open>
  \<open>src/muduo/net/protorpc\<close>: the wire format of \<open>RpcCodec\<close> and the calls of \<open>RpcChannel\<close>.

  Protocol Buffers and zlib are not part of the repository: serialisation \<open>ser\<close>, its size \<open>bsz\<close>,
  parsing \<open>par\<close> and the checksum \<open>adler\<close> are arguments of the definitions. What the code relies on
  is \<open>protobuf_ok\<close>: the size is the number of bytes written, and parsing inverts serialisation.
  A frame is the length, the tag \<open>RPC0\<close>, the message and the checksum, integers in network order.
\<close>

section \<open>The codec\<close>

datatype rpc_error = kNoError | kInvalidLength | kCheckSumError | kInvalidNameLen | kUnknownMessageType | kParseError

definition kHeaderLen :: nat where "kHeaderLen = 4"
definition kMinMessageLen :: nat where "kMinMessageLen = 2 * kHeaderLen"
definition kMaxMessageLen :: nat where "kMaxMessageLen = 64 * 1024 * 1024"

fun errorCodeToString :: "rpc_error \<Rightarrow> string" where
  "errorCodeToString kNoError = ''NoError''"
| "errorCodeToString kInvalidLength = ''InvalidLength''"
| "errorCodeToString kCheckSumError = ''CheckSumError''"
| "errorCodeToString kInvalidNameLen = ''InvalidNameLen''"
| "errorCodeToString kUnknownMessageType = ''UnknownMessageType''"
| "errorCodeToString kParseError = ''ParseError''"

text \<open>Documented behaviour of generated messages: \<open>ByteSize\<close> and \<open>ParseFromArray\<close>.\<close>

definition protobuf_ok :: "('m \<Rightarrow> string) \<Rightarrow> ('m \<Rightarrow> nat) \<Rightarrow> (string \<Rightarrow> 'm option) \<Rightarrow> bool" where
  "protobuf_ok ser bsz par \<longleftrightarrow> (\<forall>m. bsz m = length (ser m) \<and> par (ser m) = Some m)"

text \<open>
  \<open>send\<close>, up to the finished buffer: the message is written in place behind the tag.
\<close>

definition rpc_frame :: "(string \<Rightarrow> 32 word) \<Rightarrow> ('m \<Rightarrow> nat) \<Rightarrow> ('m \<Rightarrow> string) \<Rightarrow> 'm \<Rightarrow> buffer result" where
  "rpc_frame adler bsz ser message =
     bindE (appendBuf ''RPC0'' newBuffer) (\<lambda>b1.
     let byte_size = bsz message; bytes = ser message in
     bindE (ensureWritableBytes (byte_size + kHeaderLen) b1) (\<lambda>b2.
     if length bytes \<noteq> byte_size then Inl (FatalLog ''ByteSizeConsistencyError'')
     else
       let b3 = hasWritten byte_size (b2\<lparr>bufferData := overwrite (beginWrite b2) bytes (bufferData b2)\<rparr>);
           checkSum = adler (contents b3) in
       bindE (appendInt32 checkSum b3) (\<lambda>b4.
       bindE (assertE (readableBytes b4 = kHeaderLen + byte_size + kHeaderLen)
                ''buf.readableBytes() == kHeaderLen + byte_size + kHeaderLen'') (\<lambda>_.
       let len = hostToNetwork32 (word_of_nat (readableBytes b4)) in
       prepend (le_bytes 4 (unat len)) b4))))"

definition RpcCodec_send ::
  "kernel_write \<Rightarrow> (string \<Rightarrow> 32 word) \<Rightarrow> ('m \<Rightarrow> nat) \<Rightarrow> ('m \<Rightarrow> string) \<Rightarrow> bool \<Rightarrow> 'm \<Rightarrow> tconn \<Rightarrow> tconn result" where
  "RpcCodec_send kw adler bsz ser inLoop message conn =
     bindE (rpc_frame adler bsz ser message) (\<lambda>buf.
     bindE (send_buffer kw inLoop buf conn) (\<lambda>(conn', _). Inr conn'))"

definition asInt32 :: "string \<Rightarrow> 32 word" where
  "asInt32 s = networkToHost32 (of_nat (le_value (take 4 s)))"

text \<open>\<open>parse(buf, len, message)\<close>, on the \<open>len\<close> bytes at \<open>buf\<close>.\<close>

definition rpc_parse :: "(string \<Rightarrow> 32 word) \<Rightarrow> (string \<Rightarrow> 'm option) \<Rightarrow> string \<Rightarrow> rpc_error + 'm" where
  "rpc_parse adler par s =
     (let expectedCheckSum = asInt32 (drop (length s - kHeaderLen) s);
          checkSum = adler (take (length s - kHeaderLen) s) in
      if checkSum = expectedCheckSum then
        if take kHeaderLen s = ''RPC0'' then
          case par (take (length s - 2 * kHeaderLen) (drop kHeaderLen s)) of
            Some message \<Rightarrow> Inr message
          | None \<Rightarrow> Inl kParseError
        else Inl kUnknownMessageType
      else Inl kCheckSumError)"

text \<open>
  One round of the loop in \<open>onMessage\<close>. The callbacks act on a state \<open>'s\<close>; the error callback is given
  the buffer. The first component says whether the loop goes on.
\<close>

definition rpc_round ::
  "(string \<Rightarrow> 32 word) \<Rightarrow> (string \<Rightarrow> 'm option) \<Rightarrow> ('m \<Rightarrow> 's \<Rightarrow> 's result) \<Rightarrow> (rpc_error \<Rightarrow> buffer \<Rightarrow> 's \<Rightarrow> buffer \<times> 's)
     \<Rightarrow> buffer \<Rightarrow> 's \<Rightarrow> (bool \<times> buffer \<times> 's) result" where
  "rpc_round adler par mcb ecb buf s =
     bindE (peekInt32 buf) (\<lambda>len32.
     let len = sint len32 in
     if int kMaxMessageLen < len \<or> len < int kMinMessageLen then Inr (True, ecb kInvalidLength buf s)
     else if nat len + kHeaderLen \<le> readableBytes buf then
       case rpc_parse adler par (take (nat len) (drop kHeaderLen (contents buf))) of
         Inr message \<Rightarrow>
           bindE (mcb message s) (\<lambda>s'.
           bindE (retrieve (kHeaderLen + nat len) buf) (\<lambda>buf'. Inr (True, buf', s')))
       | Inl errorCode \<Rightarrow> Inr (True, ecb errorCode buf s)
     else Inr (False, buf, s))"

partial_function (option) rpc_onMessage ::
  "(string \<Rightarrow> 32 word) \<Rightarrow> (string \<Rightarrow> 'm option) \<Rightarrow> ('m \<Rightarrow> 's \<Rightarrow> 's result) \<Rightarrow> (rpc_error \<Rightarrow> buffer \<Rightarrow> 's \<Rightarrow> buffer \<times> 's)
     \<Rightarrow> buffer \<Rightarrow> 's \<Rightarrow> (buffer \<times> 's) result option" where
  "rpc_onMessage adler par mcb ecb buf s =
     (if kMinMessageLen + kHeaderLen \<le> readableBytes buf then
        case rpc_round adler par mcb ecb buf s of
          Inl e \<Rightarrow> Some (Inl e)
        | Inr (hasMore, buf', s') \<Rightarrow>
            if hasMore then rpc_onMessage adler par mcb ecb buf' s' else Some (Inr (buf', s'))
      else Some (Inr (buf, s)))"

definition defaultErrorCallback :: "rpc_error \<Rightarrow> buffer \<Rightarrow> tconn \<Rightarrow> buffer \<times> tconn" where
  "defaultErrorCallback errorCode buf conn = (buf, if connected conn then shutdown True conn else conn)"

section \<open>The channel\<close>

datatype message_type = REQUEST | RESPONSE | ERROR

record rpc_message =
  rm_type :: message_type
  rm_id :: "64 word"
  rm_service :: "string option"
  rm_method :: "string option"
  rm_request :: "string option"
  rm_response :: "string option"

text \<open>
  \<open>OutstandingCall\<close>: the response object and the closure, each possibly null. \<open>rc_done\<close> lists the
  closures run so far with the response bytes they saw, \<open>rc_sent\<close> the messages given to the codec. A
  service maps a method name to what it answers to a request; it calls \<open>done\<close> before it returns.
  The services pointer is not initialised by the constructors.
\<close>

record outstanding_call =
  oc_response :: "nat option"
  oc_done :: "nat option"

type_synonym service = "string \<rightharpoonup> (string \<Rightarrow> string)"

datatype services_ptr = Uninitialised | NullServices | Services "(string, service) std_map"

record rpc_channel =
  rc_id :: "64 word"
  rc_outstandings :: "(int, outstanding_call) std_map"
  rc_services :: services_ptr
  rc_sent :: "rpc_message list"
  rc_done :: "(nat \<times> string) list"

definition newRpcChannel :: rpc_channel where
  "newRpcChannel = \<lparr>rc_id = 0, rc_outstandings = [], rc_services = Uninitialised, rc_sent = [], rc_done = []\<rparr>"

definition setServices :: "services_ptr \<Rightarrow> rpc_channel \<Rightarrow> rpc_channel" where
  "setServices sv ch = ch\<lparr>rc_services := sv\<rparr>"

definition request_message :: "64 word \<Rightarrow> string \<Rightarrow> string \<Rightarrow> string \<Rightarrow> rpc_message" where
  "request_message i service method request = \<lparr>rm_type = REQUEST, rm_id = i, rm_service = Some service,
     rm_method = Some method, rm_request = Some request, rm_response = None\<rparr>"

definition response_message :: "64 word \<Rightarrow> string \<Rightarrow> rpc_message" where
  "response_message i response = \<lparr>rm_type = RESPONSE, rm_id = i, rm_service = None, rm_method = None,
     rm_request = None, rm_response = Some response\<rparr>"

text \<open>
  \<open>CallMethod\<close> in its two parts: the request is sent before the call is recorded, and the lock is
  taken only for the second part.
\<close>

definition CallMethod_send :: "string \<Rightarrow> string \<Rightarrow> string \<Rightarrow> rpc_channel \<Rightarrow> 64 word \<times> rpc_channel" where
  "CallMethod_send service method request ch =
     (let i = rc_id ch + 1 in
      (i, ch\<lparr>rc_id := i, rc_sent := rc_sent ch @ [request_message i service method request]\<rparr>))"

definition CallMethod_record :: "64 word \<Rightarrow> outstanding_call \<Rightarrow> rpc_channel \<Rightarrow> rpc_channel" where
  "CallMethod_record i out ch = ch\<lparr>rc_outstandings := map_put (sint i) out (rc_outstandings ch)\<rparr>"

definition CallMethod :: "string \<Rightarrow> string \<Rightarrow> string \<Rightarrow> outstanding_call \<Rightarrow> rpc_channel \<Rightarrow> rpc_channel" where
  "CallMethod service method request out ch =
     (case CallMethod_send service method request ch of (i, ch') \<Rightarrow> CallMethod_record i out ch')"

definition doneCallback :: "string \<Rightarrow> 64 word \<Rightarrow> rpc_channel \<Rightarrow> rpc_channel" where
  "doneCallback response i ch = ch\<lparr>rc_sent := rc_sent ch @ [response_message i response]\<rparr>"

definition onRpcResponse :: "rpc_message \<Rightarrow> rpc_channel \<Rightarrow> rpc_channel result" where
  "onRpcResponse message ch =
     bindE (assertE (rm_response message \<noteq> None) ''message.has_response()'') (\<lambda>_.
     let i = sint (rm_id message);
         out = (case map_of (rc_outstandings ch) i of None \<Rightarrow> \<lparr>oc_response = None, oc_done = None\<rparr> | Some out \<Rightarrow> out);
         ch' = ch\<lparr>rc_outstandings := map_erase i (rc_outstandings ch)\<rparr> in
     Inr (case oc_response out of
            None \<Rightarrow> ch'
          | Some _ \<Rightarrow> (case oc_done out of
              None \<Rightarrow> ch'
            | Some cl \<Rightarrow> ch'\<lparr>rc_done := rc_done ch' @ [(cl, the (rm_response message))]\<rparr>)))"

definition onRpcRequest :: "rpc_message \<Rightarrow> rpc_channel \<Rightarrow> rpc_channel result" where
  "onRpcRequest message ch = (case rc_services ch of
     Uninitialised \<Rightarrow> Inl (Undefined_Behaviour ''services_ read before it is set'')
   | NullServices \<Rightarrow> Inr ch
   | Services services \<Rightarrow> (case map_of services (case rm_service message of None \<Rightarrow> [] | Some s \<Rightarrow> s) of
       None \<Rightarrow> Inr ch
     | Some service \<Rightarrow> (case service (case rm_method message of None \<Rightarrow> [] | Some m \<Rightarrow> m) of
         None \<Rightarrow> Inr ch
       | Some f \<Rightarrow> Inr (doneCallback (f (case rm_request message of None \<Rightarrow> [] | Some r \<Rightarrow> r)) (rm_id message) ch))))"

definition onRpcMessage :: "rpc_message \<Rightarrow> rpc_channel \<Rightarrow> rpc_channel result" where
  "onRpcMessage message ch = (case rm_type message of
     RESPONSE \<Rightarrow> onRpcResponse message ch
   | REQUEST \<Rightarrow> onRpcRequest message ch
   | ERROR \<Rightarrow> Inr ch)"

definition registerService :: "string \<Rightarrow> service \<Rightarrow> (string, service) std_map \<Rightarrow> (string, service) std_map" where
  "registerService full_name service services = map_put full_name service services"

text \<open>\<open>RpcServer::onConnection\<close>: a channel for every connection, with the server's services.\<close>

definition rpc_onConnection :: "(string, service) std_map \<Rightarrow> tconn \<Rightarrow> rpc_channel option" where
  "rpc_onConnection services conn =
     (if connected conn then Some (setServices (Services services) newRpcChannel) else None)"

section \<open>Frames\<close>

definition be32 :: "32 word \<Rightarrow> string" where
  "be32 x = rev (le_bytes 4 (unat x))"

definition frame_body :: "(string \<Rightarrow> 32 word) \<Rightarrow> string \<Rightarrow> string" where
  "frame_body adler p = ''RPC0'' @ p @ be32 (adler (''RPC0'' @ p))"

definition frame_text :: "(string \<Rightarrow> 32 word) \<Rightarrow> string \<Rightarrow> string" where
  "frame_text adler p = be32 (word_of_nat (length p + 8)) @ frame_body adler p"

lemma length_be32 [simp]: "length (be32 x) = 4"
  by (simp add: be32_def)

lemma length_frame_body [simp]: "length (frame_body adler p) = length p + 8"
  by (simp add: frame_body_def)

lemma length_frame_text [simp]: "length (frame_text adler p) = length p + 12"
  by (simp add: frame_text_def)

lemma asInt32_be32 [simp]: "asInt32 (be32 x) = x"
  using networkToHost32_hostToNetwork32 [of x]
  by (simp add: asInt32_def be32_def le_bytes_hostToNetwork32 [symmetric] le_value_le_bytes_unat)

text \<open>The buffer operations leave at least the cheap prepend area in front.\<close>

lemma ensureWritable_front:
  "ensureWritableBytes n b = Inr b' \<Longrightarrow> kCheapPrepend \<le> readerIndex b \<Longrightarrow> kCheapPrepend \<le> readerIndex b'"
  by (auto simp: ensureWritableBytes_def makeSpace_def Let_def split: if_splits)

lemma appendBuf_front:
  "appendBuf xs b = Inr b' \<Longrightarrow> kCheapPrepend \<le> readerIndex b \<Longrightarrow> kCheapPrepend \<le> readerIndex b'"
  by (auto simp: appendBuf_def hasWritten_def dest: ensureWritable_front)

text \<open>Writing in place after reserving the space is appending.\<close>

lemma write_in_place:
  assumes "buf_ok b" and "length xs \<le> writableBytes b"
  shows "appendBuf xs b = Inr (hasWritten (length xs) (b\<lparr>bufferData := overwrite (beginWrite b) xs (bufferData b)\<rparr>))"
  using assms by (simp add: appendBuf_def ensureWritableBytes_def)

lemma rpc_frame_text:
  assumes pb: "protobuf_ok ser bsz par" and small: "length (ser m) + 8 \<le> kMaxMessageLen"
  shows "\<exists>b. rpc_frame adler bsz ser m = Inr b \<and> buf_ok b \<and> contents b = frame_text adler (ser m)"
proof -
  let ?p = "ser m"
  have bsz: "bsz m = length ?p" using pb by (simp add: protobuf_ok_def)
  note lim = kMaxMessageLen_def vector_max_def kCheapPrepend_def
  obtain b1 where b1: "appendBuf ''RPC0'' newBuffer = Inr b1" "buf_ok b1" "contents b1 = ''RPC0''"
    "writerIndex b1 \<le> kCheapPrepend + 4"
  proof -
    have "buf_room newBuffer (length ''RPC0'')" by (simp add: lim)
    moreover have "writerIndex newBuffer = kCheapPrepend" by (simp add: newBuffer_def)
    ultimately show thesis using that appendBuf_ok [OF buf_ok_newBuffer, of "''RPC0''"] by auto
  qed
  have r1: "kCheapPrepend \<le> readerIndex b1" by (rule appendBuf_front [OF b1(1)]) (simp add: newBuffer_def)
  have "buf_room b1 (length ?p + kHeaderLen)"
    using b1(4) small by (simp add: buf_room_def lim kHeaderLen_def)
  from ensureWritableBytes_ok [OF b1(2) this] obtain b2 where
    b2: "ensureWritableBytes (length ?p + kHeaderLen) b1 = Inr b2" "buf_ok b2" "contents b2 = ''RPC0''"
    "length ?p + kHeaderLen \<le> writableBytes b2" "writerIndex b2 \<le> kCheapPrepend + 4" using b1(3,4) by auto
  have r2: "kCheapPrepend \<le> readerIndex b2" by (rule ensureWritable_front [OF b2(1) r1])
  let ?b3 = "hasWritten (length ?p) (b2\<lparr>bufferData := overwrite (beginWrite b2) ?p (bufferData b2)\<rparr>)"
  have w: "appendBuf ?p b2 = Inr ?b3" by (rule write_in_place [OF b2(2)]) (use b2(4) in simp)
  have "buf_room b2 (length ?p)" using b2(5) small by (simp add: buf_room_def lim)
  with appendBuf_ok [OF b2(2), of ?p] w have b3: "buf_ok ?b3" "contents ?b3 = ''RPC0'' @ ?p"
    "writerIndex ?b3 \<le> kCheapPrepend + 4 + length ?p" using b2(3,5) by auto
  have r3: "kCheapPrepend \<le> readerIndex ?b3" by (rule appendBuf_front [OF w r2])
  let ?c = "adler (''RPC0'' @ ?p)"
  have "buf_room ?b3 (length (be32 ?c))" using b3(3) small by (simp add: buf_room_def lim)
  from appendBuf_ok [OF b3(1) this] obtain b4 where
    b4: "appendInt32 ?c ?b3 = Inr b4" "buf_ok b4" "contents b4 = frame_body adler ?p"
    using b3(2) by (auto simp: appendInt32_def be32_def le_bytes_hostToNetwork32 frame_body_def)
  have r4: "kCheapPrepend \<le> readerIndex b4"
    using b4(1) r3 by (auto simp: appendInt32_def intro: appendBuf_front)
  have rb: "readableBytes b4 = length ?p + 8" using readableBytes_ok [OF b4(2)] b4(3) by simp
  let ?len = "le_bytes 4 (unat (hostToNetwork32 (word_of_nat (length ?p + 8))))"
  have "length ?len \<le> readerIndex b4" using r4 by (simp add: kCheapPrepend_def)
  from prepend_ok [OF b4(2) this] obtain b where
    b: "prepend ?len b4 = Inr b" "buf_ok b" "contents b = frame_text adler ?p"
    using b4(3) by (auto simp: frame_text_def be32_def le_bytes_hostToNetwork32)
  have "rpc_frame adler bsz ser m = Inr b"
    using b1(1) b2(1) bsz b3(2) b4(1) rb b(1) by (simp add: rpc_frame_def Let_def kHeaderLen_def add.commute)
  then show ?thesis using b by blast
qed

section \<open>Decoding\<close>

lemma sint_small: "n < 2 ^ 31 \<Longrightarrow> sint (word_of_nat n :: 32 word) = int n"
  by (simp add: signed_of_nat signed_take_bit_int_eq_self)

lemma rpc_parse_body:
  assumes "protobuf_ok ser bsz par"
  shows "rpc_parse adler par (frame_body adler (ser m)) = Inr m"
proof -
  let ?p = "ser m"
  have "length (frame_body adler ?p) - kHeaderLen = length (''RPC0'' @ ?p)" by (simp add: kHeaderLen_def)
  then have "take (length (frame_body adler ?p) - kHeaderLen) (frame_body adler ?p) = ''RPC0'' @ ?p"
    "drop (length (frame_body adler ?p) - kHeaderLen) (frame_body adler ?p) = be32 (adler (''RPC0'' @ ?p))"
    by (simp_all add: frame_body_def)
  moreover have "take kHeaderLen (frame_body adler ?p) = ''RPC0''"
    "take (length (frame_body adler ?p) - 2 * kHeaderLen) (drop kHeaderLen (frame_body adler ?p)) = ?p"
    by (simp_all add: frame_body_def kHeaderLen_def)
  ultimately show ?thesis using assms by (simp add: rpc_parse_def protobuf_ok_def)
qed

lemma rpc_round_frame:
  assumes pb: "protobuf_ok ser bsz par" and b: "buf_ok b" and c: "contents b = frame_text adler (ser m) @ rest"
    and small: "length (ser m) + 8 \<le> kMaxMessageLen" and cb: "mcb m s = Inr s'"
  shows "\<exists>b'. rpc_round adler par mcb ecb b s = Inr (True, b', s') \<and> buf_ok b' \<and> contents b' = rest"
proof -
  define n where "n = length (ser m) + 8"
  have len: "sint (word_of_nat n :: 32 word) = int n"
    by (rule sint_small) (use small in \<open>simp add: n_def kMaxMessageLen_def\<close>)
  have peek: "peekInt32 b = Inr (word_of_nat n)"
    by (rule peekInt32_wire [OF b]) (use c in \<open>simp add: frame_text_def be32_def n_def\<close>)
  have body: "take n (drop kHeaderLen (contents b)) = frame_body adler (ser m)"
    by (simp add: c frame_text_def kHeaderLen_def n_def)
  have "kHeaderLen + n \<le> length (contents b)" by (simp add: c kHeaderLen_def n_def)
  from retrieve_ok [OF b this] obtain b' where b': "retrieve (kHeaderLen + n) b = Inr b'" "buf_ok b'" "contents b' = rest"
    by (auto simp: c kHeaderLen_def n_def)
  moreover have "n + kHeaderLen \<le> readableBytes b" using readableBytes_ok [OF b] by (simp add: c kHeaderLen_def n_def)
  moreover have "\<not> (int kMaxMessageLen < int n \<or> int n < int kMinMessageLen)"
    using small by (simp add: kMinMessageLen_def kHeaderLen_def n_def)
  ultimately show ?thesis
    using peek len body rpc_parse_body [OF pb] cb by (simp add: rpc_round_def Let_def)
qed

text \<open>What can follow the last whole frame: a proper prefix of another one.\<close>

definition partial_frame :: "(string \<Rightarrow> 32 word) \<Rightarrow> string \<Rightarrow> bool" where
  "partial_frame adler rest \<longleftrightarrow> rest = [] \<or> (\<exists>p k. rest = take k (frame_text adler p) \<and> k < length p + 12 \<and> length p + 8 \<le> kMaxMessageLen)"

lemma rpc_partial:
  assumes b: "buf_ok b" and part: "partial_frame adler' (contents b)"
  shows "rpc_onMessage adler par mcb ecb b s = Some (Inr (b, s))"
proof (cases "kMinMessageLen + kHeaderLen \<le> readableBytes b")
  case False
  then show ?thesis by (simp add: rpc_onMessage.simps)
next
  case True
  then have l: "12 \<le> length (contents b)" using readableBytes_ok [OF b] by (simp add: kMinMessageLen_def kHeaderLen_def)
  then obtain p k where pk: "contents b = take k (frame_text adler' p)" "k < length p + 12" "length p + 8 \<le> kMaxMessageLen"
    using part by (cases "contents b") (auto simp: partial_frame_def)
  then have k: "12 \<le> k" "length (contents b) = k" using l by auto
  have "contents b = be32 (word_of_nat (length p + 8)) @ take (k - 4) (frame_body adler' p)"
    using pk k by (simp add: frame_text_def)
  then have peek: "peekInt32 b = Inr (word_of_nat (length p + 8))"
    using peekInt32_wire [OF b] by (simp add: be32_def)
  have "length p + 8 < 2 ^ 31" using pk(3) by (simp add: kMaxMessageLen_def)
  then have len: "sint (word_of_nat (length p + 8) :: 32 word) = int (length p + 8)" by (rule sint_small)
  have "\<not> nat (int (length p + 8)) + kHeaderLen \<le> readableBytes b"
    using pk(2) k readableBytes_ok [OF b] by (simp add: kHeaderLen_def)
  moreover have "\<not> (int kMaxMessageLen < int (length p + 8) \<or> int (length p + 8) < int kMinMessageLen)"
    using pk(3) by (simp add: kMinMessageLen_def kHeaderLen_def)
  ultimately have "rpc_round adler par mcb ecb b s = Inr (False, b, s)"
    using peek len by (simp add: rpc_round_def Let_def)
  then show ?thesis using True by (simp add: rpc_onMessage.simps)
qed

lemma rpc_frames:
  assumes pb: "protobuf_ok ser bsz par" and "\<forall>m \<in> set ms. length (ser m) + 8 \<le> kMaxMessageLen"
    and "partial_frame adler rest" and "buf_ok b"
    and "contents b = concat (map (\<lambda>m. frame_text adler (ser m)) ms) @ rest" and "foldE mcb ms s = Inr s'"
  shows "\<exists>b'. rpc_onMessage adler par mcb ecb b s = Some (Inr (b', s')) \<and> buf_ok b' \<and> contents b' = rest"
  using assms(2,4-6)
proof (induction ms arbitrary: b s)
  case Nil
  then show ?case using rpc_partial [of b adler adler par mcb ecb s] assms(3) by simp
next
  case (Cons m ms)
  from Cons.prems(4) obtain s1 where s1: "mcb m s = Inr s1" "foldE mcb ms s1 = Inr s'" by auto
  obtain b1 where b1: "rpc_round adler par mcb ecb b s = Inr (True, b1, s1)" "buf_ok b1"
    "contents b1 = concat (map (\<lambda>m. frame_text adler (ser m)) ms) @ rest"
    using rpc_round_frame [OF pb Cons.prems(2), of adler m _ mcb s s1 ecb] Cons.prems(1,3) s1(1) by auto
  have "kMinMessageLen + kHeaderLen \<le> readableBytes b"
    using readableBytes_ok [OF Cons.prems(2)] Cons.prems(3) by (simp add: kMinMessageLen_def kHeaderLen_def)
  then have "rpc_onMessage adler par mcb ecb b s = rpc_onMessage adler par mcb ecb b1 s1"
    using b1(1) by (subst rpc_onMessage.simps) simp
  then show ?case using Cons.IH [OF _ b1(2,3) s1(2)] Cons.prems(1) by auto
qed

text \<open>
  A head of the buffer that the loop reports as an error: a length out of range, or a complete
  message that does not parse.
\<close>

definition bad_head :: "(string \<Rightarrow> 32 word) \<Rightarrow> (string \<Rightarrow> 'm option) \<Rightarrow> buffer \<Rightarrow> bool" where
  "bad_head adler par b \<longleftrightarrow> kMinMessageLen + kHeaderLen \<le> readableBytes b \<and>
     (\<exists>len. peekInt32 b = Inr len \<and>
       (int kMaxMessageLen < sint len \<or> sint len < int kMinMessageLen \<or>
        nat (sint len) + kHeaderLen \<le> readableBytes b \<and>
          (\<exists>e. rpc_parse adler par (take (nat (sint len)) (drop kHeaderLen (contents b))) = Inl e)))"

lemma bad_head_round:
  assumes "bad_head adler par b"
  shows "\<exists>e. rpc_round adler par mcb ecb b s = Inr (True, ecb e b s)"
proof -
  from assms obtain len where len: "peekInt32 b = Inr len"
    and d: "int kMaxMessageLen < sint len \<or> sint len < int kMinMessageLen \<or>
      nat (sint len) + kHeaderLen \<le> readableBytes b \<and>
        (\<exists>e. rpc_parse adler par (take (nat (sint len)) (drop kHeaderLen (contents b))) = Inl e)"
    by (auto simp: bad_head_def)
  show ?thesis
  proof (cases "int kMaxMessageLen < sint len \<or> sint len < int kMinMessageLen")
    case True
    then show ?thesis using len by (intro exI [of _ kInvalidLength]) (simp add: rpc_round_def Let_def)
  next
    case False
    then show ?thesis using len d by (auto simp: rpc_round_def Let_def)
  qed
qed

lemma rpc_bad_head_diverges:
  assumes keep: "\<And>e s. fst (ecb e b s) = b" and bad: "bad_head adler par b"
  shows "rpc_onMessage adler par mcb ecb b s = None"
proof (rule ccontr)
  assume "rpc_onMessage adler par mcb ecb b s \<noteq> None"
  then obtain r where r: "rpc_onMessage adler par mcb ecb b s = Some r" by blast
  let ?P = "\<lambda>a p m e x s r. a = adler \<and> p = par \<and> e = ecb \<longrightarrow> x \<noteq> b"
  have "?P adler par mcb ecb b s r"
  proof (rule rpc_onMessage.raw_induct [where P = ?P, OF _ r])
    fix loop a p m e x s r
    assume IH: "\<And>a p m e x s r. loop a p m e x s = Some r \<Longrightarrow> ?P a p m e x s r"
      and run: "(if kMinMessageLen + kHeaderLen \<le> readableBytes x then
          case rpc_round a p m e x s of Inl er \<Rightarrow> Some (Inl er)
          | Inr (hasMore, buf', s') \<Rightarrow> if hasMore then loop a p m e buf' s' else Some (Inr (buf', s'))
          else Some (Inr (x, s))) = Some r"
    show "?P a p m e x s r"
    proof (intro impI notI)
      assume eq: "a = adler \<and> p = par \<and> e = ecb" and x: "x = b"
      from bad_head_round [OF bad, of m ecb s] obtain er where er: "rpc_round adler par m ecb b s = Inr (True, ecb er b s)" by blast
      have "kMinMessageLen + kHeaderLen \<le> readableBytes b" using bad by (simp add: bad_head_def)
      then have "loop adler par m ecb b (snd (ecb er b s)) = Some r"
        using run eq x er keep [of er s] by (cases "ecb er b s") simp
      from IH [OF this] show False by simp
    qed
  qed
  then show False by simp
qed

section \<open>Properties\<close>

text \<open>
  C18. Messages survive the wire: for messages of at most 64 MB, \<open>send\<close> never trips its assertions and
  produces a frame; a buffer that holds the frames of some messages, cut anywhere inside a further
  frame, makes \<open>onMessage\<close> call the message callback with exactly these messages in this order, and
  the cut frame stays in the buffer.
\<close>

theorem rpc_wire_roundtrip:
  assumes "protobuf_ok ser bsz par" and "\<forall>m \<in> set ms. length (ser m) + 8 \<le> kMaxMessageLen"
    and "partial_frame adler rest" and "foldE mcb ms s = Inr s'"
  shows "\<exists>frames. list_all2 (\<lambda>m f. rpc_frame adler bsz ser m = Inr f \<and> buf_ok f) ms frames \<and>
    (\<forall>b. buf_ok b \<and> contents b = concat (map contents frames) @ rest \<longrightarrow>
      (\<exists>b'. rpc_onMessage adler par mcb ecb b s = Some (Inr (b', s')) \<and> buf_ok b' \<and> contents b' = rest))"
proof -
  let ?f = "\<lambda>m. SOME f. rpc_frame adler bsz ser m = Inr f"
  have f: "rpc_frame adler bsz ser m = Inr (?f m) \<and> buf_ok (?f m) \<and> contents (?f m) = frame_text adler (ser m)"
    if m: "m \<in> set ms" for m
  proof -
    from rpc_frame_text [OF assms(1)] assms(2) m obtain f where
      f: "rpc_frame adler bsz ser m = Inr f" "buf_ok f" "contents f = frame_text adler (ser m)" by blast
    then show ?thesis by simp
  qed
  then have "concat (map contents (map ?f ms)) = concat (map (\<lambda>m. frame_text adler (ser m)) ms)"
    by (intro arg_cong [where f = concat]) simp
  moreover have "list_all2 (\<lambda>m f. rpc_frame adler bsz ser m = Inr f \<and> buf_ok f) ms (map ?f ms)"
    using f by (simp add: list_all2_conv_all_nth)
  ultimately show ?thesis
    using rpc_frames [OF assms(1-3) _ _ assms(4)] by (intro exI [of _ "map ?f ms"]) simp
qed

text \<open>Messages that are their own encoding, a constant checksum, and a log as the state.\<close>

theorem rpc_wire_roundtrip_witness:
  "\<exists>f1 f2 b b'. rpc_frame (\<lambda>_. 7) length id ''one'' = Inr f1 \<and> rpc_frame (\<lambda>_. 7) length id ''two'' = Inr f2 \<and>
     contents b = contents f1 @ contents f2 \<and>
     rpc_onMessage (\<lambda>_. 7) Some (\<lambda>m log. Inr (log @ [m])) (\<lambda>e b log. (b, log)) b [] = Some (Inr (b', [''one'', ''two'']))"
proof -
  let ?P = "\<lambda>frames. list_all2 (\<lambda>m f. rpc_frame (\<lambda>_. 7) length id m = Inr f \<and> buf_ok f) [''one'', ''two''] frames"
  have "protobuf_ok id length Some" by (simp add: protobuf_ok_def)
  moreover have "\<forall>m \<in> set [''one'', ''two'']. length (id m) + 8 \<le> kMaxMessageLen" by (simp add: kMaxMessageLen_def)
  moreover have "partial_frame (\<lambda>_. 7) []" by (simp add: partial_frame_def)
  moreover have "foldE (\<lambda>m log. Inr (log @ [m])) [''one'', ''two''] [] = Inr [''one'', ''two'']" by simp
  ultimately obtain frames where fr: "?P frames"
    and all: "\<forall>b. buf_ok b \<and> contents b = concat (map contents frames) @ [] \<longrightarrow>
      (\<exists>b'. rpc_onMessage (\<lambda>_. 7) Some (\<lambda>m log. Inr (log @ [m])) (\<lambda>e b log. (b, log)) b [] =
        Some (Inr (b', [''one'', ''two''])) \<and> buf_ok b' \<and> contents b' = [])"
    using rpc_wire_roundtrip [of id length Some "[''one'', ''two'']" "\<lambda>_. 7" "[]"
        "\<lambda>m log. Inr (log @ [m])" "[]" "[''one'', ''two'']" "\<lambda>e b log. (b, log)"] by blast
  from fr obtain f1 f2 where f: "frames = [f1, f2]" "rpc_frame (\<lambda>_. 7) length id ''one'' = Inr f1"
    "rpc_frame (\<lambda>_. 7) length id ''two'' = Inr f2" by (auto simp: list_all2_Cons1)
  have len: "length (contents f1) = 15" "length (contents f2) = 15"
    using rpc_frame_text [of id length Some "''one''" "\<lambda>_. 7"] rpc_frame_text [of id length Some "''two''" "\<lambda>_. 7"] f(2,3)
    by (auto simp: protobuf_ok_def kMaxMessageLen_def)
  then have "buf_room newBuffer (length (contents f1 @ contents f2))" by (simp add: kCheapPrepend_def vector_max_def)
  from appendBuf_ok [OF buf_ok_newBuffer this] obtain b where b: "buf_ok b" "contents b = contents f1 @ contents f2" by auto
  then have "buf_ok b \<and> contents b = concat (map contents frames) @ []" using f(1) by simp
  with all obtain b' where "rpc_onMessage (\<lambda>_. 7) Some (\<lambda>m log. Inr (log @ [m])) (\<lambda>e b log. (b, log)) b [] =
    Some (Inr (b', [''one'', ''two'']))" by blast
  then show ?thesis using b(2) f(2,3) by blast
qed

text \<open>
  C36. A broken frame hangs the I/O thread: when the bytes at the front of the buffer announce a length
  out of range, or form a complete frame with a wrong checksum, tag or content, the loop of
  \<open>onMessage\<close> calls the error callback again and again, since the default callback (like any that
  leaves the buffer alone) consumes nothing; it never returns.
\<close>

theorem rpc_error_never_returns:
  assumes "bad_head adler par b"
  shows "rpc_onMessage adler par mcb defaultErrorCallback b conn = None"
  by (rule rpc_bad_head_diverges [OF _ assms]) (simp add: defaultErrorCallback_def)

theorem rpc_error_never_returns_witness:
  "\<exists>b. contents b = replicate 12 (CHR 0x00) \<and>
     rpc_onMessage (\<lambda>_. 7) Some (\<lambda>m c. Inr c) defaultErrorCallback b (newConn 1 7 False False) = None"
proof -
  let ?s = "replicate 12 (CHR 0x00)"
  have "buf_room newBuffer (length ?s)" by (simp add: kCheapPrepend_def vector_max_def)
  from appendBuf_ok [OF buf_ok_newBuffer this] obtain b where b: "buf_ok b" "contents b = ?s" by auto
  have "rev (le_bytes 4 0) = replicate 4 (CHR 0x00)" by code_simp
  then have "peekInt32 b = Inr 0" using peekInt32_wire [OF b(1), of 0 "replicate 8 (CHR 0x00)"] b(2)
    by (simp add: replicate_add [symmetric])
  then have "bad_head (\<lambda>_. 7) Some b"
    using readableBytes_ok [OF b(1)] b(2) by (simp add: bad_head_def kMinMessageLen_def kHeaderLen_def)
  from rpc_error_never_returns [OF this] b(2) show ?thesis by blast
qed

text \<open>A call: service, method, request bytes, and the number of its response object and closure.\<close>

record rpc_call =
  call_service :: string
  call_method :: string
  call_request :: string
  call_done :: nat

definition call_out :: "rpc_call \<Rightarrow> outstanding_call" where
  "call_out c = \<lparr>oc_response = Some (call_done c), oc_done = Some (call_done c)\<rparr>"

definition make_call :: "rpc_call \<Rightarrow> rpc_channel \<Rightarrow> rpc_channel" where
  "make_call c = CallMethod (call_service c) (call_method c) (call_request c) (call_out c)"

definition known_call :: "(string, service) std_map \<Rightarrow> (rpc_call \<Rightarrow> string) \<Rightarrow> rpc_call \<Rightarrow> bool" where
  "known_call services ans c \<longleftrightarrow> (\<exists>service f. map_of services (call_service c) = Some service \<and>
     service (call_method c) = Some f \<and> f (call_request c) = ans c)"

lemma make_calls:
  "rc_id (fold make_call cs ch) = rc_id ch + word_of_nat (length cs)"
  "rc_done (fold make_call cs ch) = rc_done ch"
  "rc_sent (fold make_call cs ch) = rc_sent ch @ map (\<lambda>i. request_message (rc_id ch + word_of_nat (Suc i))
     (call_service (cs ! i)) (call_method (cs ! i)) (call_request (cs ! i))) [0..<length cs]"
proof (induction cs rule: rev_induct)
  case (snoc c cs)
  {
    case 1
    then show ?case using snoc(1) by (simp add: make_call_def CallMethod_def CallMethod_send_def CallMethod_record_def Let_def)
  next
    case 2
    then show ?case using snoc(2) by (simp add: make_call_def CallMethod_def CallMethod_send_def CallMethod_record_def Let_def)
  next
    case 3
    then show ?case using snoc(1,3)
      by (simp add: make_call_def CallMethod_def CallMethod_send_def CallMethod_record_def Let_def nth_append
          ac_simps cong: map_cong)
  }
qed simp_all

lemma sint_id: "n < 2 ^ 63 \<Longrightarrow> sint (word_of_nat n :: 64 word) = int n"
  by (simp add: signed_of_nat signed_take_bit_int_eq_self)

lemma calls_outstanding:
  assumes "length cs < 2 ^ 63" and "i < length cs"
  shows "map_of (rc_outstandings (fold make_call cs newRpcChannel)) (int (Suc i)) = Some (call_out (cs ! i))"
  using assms
proof (induction cs rule: rev_induct)
  case (snoc c cs)
  let ?ch = "fold make_call cs newRpcChannel"
  have "rc_id ?ch = word_of_nat (length cs)" using make_calls(1) [of cs newRpcChannel] by (simp add: newRpcChannel_def)
  then have "sint (rc_id ?ch + 1) = int (Suc (length cs))"
    using sint_id [of "Suc (length cs)"] snoc.prems(1) by (simp add: add.commute)
  then have "map_of (rc_outstandings (fold make_call (cs @ [c]) newRpcChannel)) =
      (map_of (rc_outstandings ?ch))(int (Suc (length cs)) \<mapsto> call_out c)"
    by (simp add: make_call_def CallMethod_def CallMethod_send_def CallMethod_record_def Let_def)
  then show ?case using snoc by (cases "i = length cs") (auto simp: nth_append)
qed simp

lemma response_recorded:
  assumes "map_of (rc_outstandings ch) (sint i) = Some (call_out c)"
  shows "\<exists>ch'. onRpcMessage (response_message i r) ch = Inr ch' \<and> rc_done ch' = rc_done ch @ [(call_done c, r)] \<and>
    map_of (rc_outstandings ch') = (map_of (rc_outstandings ch))(sint i := None)"
  using assms by (auto simp: onRpcMessage_def onRpcResponse_def response_message_def call_out_def Let_def)

lemma responses_run:
  assumes "\<forall>i \<in> set is. i < n \<and> map_of (rc_outstandings ch) (int (Suc i)) = Some (call_out (c i))"
    and "distinct is" and "n < 2 ^ 63"
  shows "\<exists>ch'. foldE onRpcMessage (map (\<lambda>i. response_message (word_of_nat (Suc i)) (r i)) is) ch = Inr ch' \<and>
    rc_done ch' = rc_done ch @ map (\<lambda>i. (call_done (c i), r i)) is \<and>
    (\<forall>k. map_of (rc_outstandings ch') k =
      (if k \<in> (\<lambda>i. int (Suc i)) ` set is then None else map_of (rc_outstandings ch) k))"
  using assms(1,2)
proof (induction "is" arbitrary: ch)
  case (Cons i "is")
  have si: "sint (word_of_nat (Suc i) :: 64 word) = int (Suc i)"
    by (rule sint_id) (use Cons.prems(1) assms(3) in simp)
  then have "map_of (rc_outstandings ch) (sint (word_of_nat (Suc i) :: 64 word)) = Some (call_out (c i))"
    using Cons.prems(1) by (metis list.set_intros(1))
  from response_recorded [OF this, of "r i"] obtain ch1 where
    ch1: "onRpcMessage (response_message (word_of_nat (Suc i)) (r i)) ch = Inr ch1"
      "rc_done ch1 = rc_done ch @ [(call_done (c i), r i)]"
      "map_of (rc_outstandings ch1) = (map_of (rc_outstandings ch))(int (Suc i) := None)" unfolding si by blast
  have "\<forall>j \<in> set is. j < n \<and> map_of (rc_outstandings ch1) (int (Suc j)) = Some (call_out (c j))"
    using Cons.prems ch1(3) by auto
  from Cons.IH [OF this] Cons.prems(2) obtain ch' where
    "foldE onRpcMessage (map (\<lambda>i. response_message (word_of_nat (Suc i)) (r i)) is) ch1 = Inr ch'"
    "rc_done ch' = rc_done ch1 @ map (\<lambda>i. (call_done (c i), r i)) is"
    "\<forall>k. map_of (rc_outstandings ch') k =
      (if k \<in> (\<lambda>i. int (Suc i)) ` set is then None else map_of (rc_outstandings ch1) k)" by auto
  with ch1 show ?case by (simp del: of_nat_Suc)
qed simp

lemma calls_sent:
  "rc_sent (fold make_call cs newRpcChannel) = map (\<lambda>i. request_message (word_of_nat (Suc i)) (call_service (cs ! i))
     (call_method (cs ! i)) (call_request (cs ! i))) [0..<length cs]"
  using make_calls(3) [of cs newRpcChannel] by (simp add: newRpcChannel_def)

definition call_answers :: "(rpc_call \<Rightarrow> string) \<Rightarrow> rpc_call list \<Rightarrow> rpc_message list" where
  "call_answers ans cs = map (\<lambda>i. response_message (word_of_nat (Suc i)) (ans (cs ! i))) [0..<length cs]"

lemma calls_served:
  assumes "list_all (known_call services ans) cs"
  shows "\<exists>server'. foldE onRpcMessage (rc_sent (fold make_call cs newRpcChannel)) (setServices (Services services) newRpcChannel)
      = Inr server' \<and> rc_sent server' = call_answers ans cs"
proof -
  have serve: "\<exists>server'. foldE onRpcMessage (map (\<lambda>i. request_message (word_of_nat (Suc i)) (call_service (cs ! i))
        (call_method (cs ! i)) (call_request (cs ! i))) js) server = Inr server' \<and>
      rc_sent server' = rc_sent server @ map (\<lambda>i. response_message (word_of_nat (Suc i)) (ans (cs ! i))) js"
    if "\<forall>j \<in> set js. j < length cs" "rc_services server = Services services" for js server
    using that
  proof (induction js arbitrary: server)
    case (Cons j js)
    then have "known_call services ans (cs ! j)" using assms by (simp add: list_all_length)
    then show ?case using Cons.prems
        Cons.IH [of "doneCallback (ans (cs ! j)) (word_of_nat (Suc j)) server"]
      by (auto simp: known_call_def onRpcMessage_def request_message_def onRpcRequest_def doneCallback_def)
  qed simp
  show ?thesis
    using serve [of "[0..<length cs]" "setServices (Services services) newRpcChannel"]
    unfolding calls_sent call_answers_def by (auto simp: setServices_def newRpcChannel_def)
qed

lemma answers_received:
  assumes "length cs < 2 ^ 63" and "distinct is" and "set is \<subseteq> {0..<length cs}"
  shows "\<exists>client'. foldE onRpcMessage (map (\<lambda>i. call_answers ans cs ! i) is) (fold make_call cs newRpcChannel) = Inr client' \<and>
    rc_done client' = map (\<lambda>i. (call_done (cs ! i), ans (cs ! i))) is \<and>
    (\<forall>i \<in> set is. map_of (rc_outstandings client') (int (Suc i)) = None)"
proof -
  let ?cl = "fold make_call cs newRpcChannel"
  have eq: "map (\<lambda>i. call_answers ans cs ! i) is = map (\<lambda>i. response_message (word_of_nat (Suc i)) (ans (cs ! i))) is"
    using assms(3) by (auto simp: call_answers_def simp del: upt_Suc)
  have "\<forall>i \<in> set is. i < length cs \<and> map_of (rc_outstandings ?cl) (int (Suc i)) = Some (call_out (cs ! i))"
    using calls_outstanding [OF assms(1)] assms(3) by auto
  from responses_run [OF this assms(2,1), of "\<lambda>i. ans (cs ! i)"] obtain client' where
    "foldE onRpcMessage (map (\<lambda>i. response_message (word_of_nat (Suc i)) (ans (cs ! i))) is) ?cl = Inr client'"
    "rc_done client' = map (\<lambda>i. (call_done (cs ! i), ans (cs ! i))) is"
    "\<forall>i \<in> set is. map_of (rc_outstandings client') (int (Suc i)) = None"
    using make_calls(2) [of cs newRpcChannel] by (auto simp: newRpcChannel_def)
  then show ?thesis unfolding eq by blast
qed

text \<open>
  Calls and answers are matched by their ids: a fresh client makes any number of calls of methods
  the server knows; the server answers each with the id of its request; and in whatever order the
  answers come back, the closure of each call whose answer arrived runs exactly once, with the bytes
  the service returned for that call, and its entry is gone.
\<close>

theorem rpc_answers_matched:
  assumes "length cs < 2 ^ 63" and "list_all (known_call services ans) cs"
    and "distinct is" and "set is \<subseteq> {0..<length cs}"
  shows "\<exists>server' client'.
    foldE onRpcMessage (rc_sent (fold make_call cs newRpcChannel)) (setServices (Services services) newRpcChannel) = Inr server' \<and>
    foldE onRpcMessage (map (\<lambda>i. rc_sent server' ! i) is) (fold make_call cs newRpcChannel) = Inr client' \<and>
    rc_done client' = map (\<lambda>i. (call_done (cs ! i), ans (cs ! i))) is \<and>
    (\<forall>i \<in> set is. map_of (rc_outstandings client') (int (Suc i)) = None)"
proof -
  obtain server' where s: "foldE onRpcMessage (rc_sent (fold make_call cs newRpcChannel)) (setServices (Services services) newRpcChannel)
      = Inr server'" "rc_sent server' = call_answers ans cs"
    using calls_served [OF assms(2)] by blast
  show ?thesis using s(1) answers_received [OF assms(1,3,4), of ans] unfolding s(2) [symmetric] by blast
qed

theorem rpc_answers_matched_witness:
  "let cs = [\<lparr>call_service = ''S'', call_method = ''m'', call_request = ''a'', call_done = 1\<rparr>,
        \<lparr>call_service = ''S'', call_method = ''m'', call_request = ''bc'', call_done = 2\<rparr>] in
   \<exists>server' client'. foldE onRpcMessage (rc_sent (fold make_call cs newRpcChannel))
       (setServices (Services [(''S'', [''m'' \<mapsto> rev])]) newRpcChannel) = Inr server' \<and>
     foldE onRpcMessage (map (\<lambda>i. rc_sent server' ! i) [1, 0]) (fold make_call cs newRpcChannel) = Inr client' \<and>
     rc_done client' = [(2, ''cb''), (1, ''a'')]"
proof -
  define cs where "cs = [\<lparr>call_service = ''S'', call_method = ''m'', call_request = ''a'', call_done = 1\<rparr>,
        \<lparr>call_service = ''S'', call_method = ''m'', call_request = ''bc'', call_done = 2\<rparr>]"
  have "length cs < 2 ^ 63" "list_all (known_call [(''S'', [''m'' \<mapsto> rev])] (\<lambda>c. rev (call_request c))) cs"
    "distinct [1, 0 :: nat]" "set [1, 0] \<subseteq> {0..<length cs}" by (simp_all add: known_call_def cs_def)
  from rpc_answers_matched [OF this] obtain server' client' where
    "foldE onRpcMessage (rc_sent (fold make_call cs newRpcChannel))
       (setServices (Services [(''S'', [''m'' \<mapsto> rev])]) newRpcChannel) = Inr server'"
    "foldE onRpcMessage (map (\<lambda>i. rc_sent server' ! i) [1, 0]) (fold make_call cs newRpcChannel) = Inr client'"
    "rc_done client' = map (\<lambda>i. (call_done (cs ! i), rev (call_request (cs ! i)))) [1, 0]" by blast
  moreover have "map (\<lambda>i. (call_done (cs ! i), rev (call_request (cs ! i)))) [1, 0] = [(2, ''cb''), (1, ''a'')]"
    by (simp add: cs_def)
  ultimately show ?thesis unfolding Let_def cs_def [symmetric] by metis
qed

text \<open>
  An answer that arrives between the two halves of \<open>CallMethod\<close> is lost: the request is already
  sent but the call is not recorded, so \<open>onRpcMessage\<close> in the I/O thread drops the response; the call
  is recorded afterwards, its closure does not run and its entry stays.
\<close>

theorem rpc_early_answer_lost:
  assumes "map_of (rc_outstandings ch) (sint (rc_id ch + 1)) = None"
  shows "\<exists>i ch1 ch2. CallMethod_send service method request ch = (i, ch1) \<and>
    onRpcMessage (response_message i response) ch1 = Inr ch2 \<and>
    rc_done (CallMethod_record i out ch2) = rc_done ch \<and>
    map_of (rc_outstandings (CallMethod_record i out ch2)) (sint i) = Some out"
  using assms
  by (simp add: CallMethod_send_def CallMethod_record_def onRpcMessage_def onRpcResponse_def response_message_def Let_def)

theorem rpc_early_answer_lost_witness:
  "\<exists>i ch1 ch2. CallMethod_send ''S'' ''m'' ''a'' newRpcChannel = (i, ch1) \<and>
    onRpcMessage (response_message i ''r'') ch1 = Inr ch2 \<and>
    rc_done (CallMethod_record i \<lparr>oc_response = Some 1, oc_done = Some 1\<rparr> ch2) = []"
proof -
  have "map_of (rc_outstandings newRpcChannel) (sint (rc_id newRpcChannel + 1)) = None" by (simp add: newRpcChannel_def)
  from rpc_early_answer_lost [OF this] show ?thesis
    by (metis newRpcChannel_def rpc_channel.select_convs(5))
qed

end
