(* ===== verification/Rpc_Service.thy ===== *)
theory Rpc_Service
  imports Rpc
begin

text \<open>
  \<open>RpcChannel\<close> and \<open>RpcServer\<close> on their connections: an end of an RPC conversation is a channel and the
  \<open>TcpConnection\<close> it sends on. The messages that the operations of the channel hand to \<open>RpcCodec::send\<close>
  become frames in the stream of the connection, and \<open>RpcChannel::onMessage\<close> runs the loop of the codec
  on the input buffer with \<open>onRpcMessage\<close> as its message callback
  (\<open>src/muduo/net/protorpc/RpcChannel.cc\<close>, \<open>RpcServer.cc\<close>).
\<close>

section \<open>The two ends\<close>

record rpc_end =
  re_channel :: rpc_channel
  re_conn :: tconn

text \<open>The codec with its arguments: the kernel, the checksum and the generated code of a message.\<close>

type_synonym 'm codec = "kernel_write \<times> (string \<Rightarrow> 32 word) \<times> ('m \<Rightarrow> nat) \<times> ('m \<Rightarrow> string) \<times> (string \<Rightarrow> 'm option)"

definition codec_send :: "rpc_message codec \<Rightarrow> bool \<Rightarrow> rpc_message \<Rightarrow> tconn \<Rightarrow> tconn result" where
  "codec_send cd inLoop message conn =
     (case cd of (kw, adler, bsz, ser, par) \<Rightarrow> RpcCodec_send kw adler bsz ser inLoop message conn)"

text \<open>\<open>RpcChannel::CallMethod\<close>: the request goes out before the call is recorded.\<close>

definition end_CallMethod :: "rpc_message codec \<Rightarrow> bool \<Rightarrow> string \<Rightarrow> string \<Rightarrow> string \<Rightarrow> outstanding_call \<Rightarrow> rpc_end \<Rightarrow> rpc_end result" where
  "end_CallMethod cd inLoop service method request out s =
     (case CallMethod_send service method request (re_channel s) of (i, ch) \<Rightarrow>
      bindE (codec_send cd inLoop (request_message i service method request) (re_conn s)) (\<lambda>conn.
      Inr \<lparr>re_channel = CallMethod_record i out ch, re_conn = conn\<rparr>))"

text \<open>\<open>RpcChannel::onRpcMessage\<close>: the answers that \<open>doneCallback\<close> makes on the way are sent.\<close>

definition end_onRpcMessage :: "rpc_message codec \<Rightarrow> rpc_message \<Rightarrow> rpc_end \<Rightarrow> rpc_end result" where
  "end_onRpcMessage cd message s =
     bindE (onRpcMessage message (re_channel s)) (\<lambda>ch.
     bindE (foldE (codec_send cd True) (drop (length (rc_sent (re_channel s))) (rc_sent ch)) (re_conn s)) (\<lambda>conn.
     Inr \<lparr>re_channel = ch, re_conn = conn\<rparr>))"

definition end_error :: "rpc_error \<Rightarrow> buffer \<Rightarrow> rpc_end \<Rightarrow> buffer \<times> rpc_end" where
  "end_error errorCode buf s =
     (case defaultErrorCallback errorCode buf (re_conn s) of (buf', conn) \<Rightarrow> (buf', s\<lparr>re_conn := conn\<rparr>))"

definition RpcChannel_onMessage :: "rpc_message codec \<Rightarrow> buffer \<Rightarrow> rpc_end \<Rightarrow> (buffer \<times> rpc_end) result option" where
  "RpcChannel_onMessage cd buf s =
     (case cd of (kw, adler, bsz, ser, par) \<Rightarrow> rpc_onMessage adler par (end_onRpcMessage cd) end_error buf s)"

text \<open>
  \<open>RpcServer::onConnection\<close>: a new channel with the services of the server becomes the context of the
  connection, whose message callback it is; on disconnection the context is cleared.
\<close>

definition RpcServer_onConnection :: "(string, service) std_map \<Rightarrow> tconn \<Rightarrow> rpc_end option" where
  "RpcServer_onConnection services conn =
     map_option (\<lambda>ch. \<lparr>re_channel = ch, re_conn = conn\<rparr>) (rpc_onConnection services conn)"

text \<open>A client: \<open>RpcChannel()\<close> and \<open>setConnection\<close>.\<close>

definition rpc_client :: "tconn \<Rightarrow> rpc_end" where
  "rpc_client conn = \<lparr>re_channel = newRpcChannel, re_conn = conn\<rparr>"

section \<open>Sending messages\<close>

definition stream :: "rpc_message codec \<Rightarrow> rpc_message list \<Rightarrow> string" where
  "stream cd ms = (case cd of (kw, adler, bsz, ser, par) \<Rightarrow> concat (map (\<lambda>m. frame_text adler (ser m)) ms))"

definition codec_ok :: "rpc_message codec \<Rightarrow> bool" where
  "codec_ok cd \<longleftrightarrow> (case cd of (kw, adler, bsz, ser, par) \<Rightarrow> write_ok kw \<and> no_epipe kw \<and> protobuf_ok ser bsz par)"

definition fits :: "rpc_message codec \<Rightarrow> rpc_message list \<Rightarrow> bool" where
  "fits cd ms \<longleftrightarrow> (case cd of (kw, adler, bsz, ser, par) \<Rightarrow> \<forall>m\<in>set ms. length (ser m) + 8 \<le> kMaxMessageLen)"

lemma stream_Nil [simp]: "stream cd [] = []"
  by (simp add: stream_def split: prod.splits)

lemma stream_Cons: "stream cd (m # ms) = stream cd [m] @ stream cd ms"
  by (simp add: stream_def split: prod.splits)

lemma codec_send_takes:
  assumes "codec_ok cd" and "fits cd [m]" and "open_conn (length (stream cd [m]) + n) c"
  shows "\<exists>c'. codec_send cd True m c = Inr c' \<and> open_conn n c' \<and> t_accepted c' = t_accepted c @ stream cd [m]"
proof -
  obtain kw adler bsz ser par where cd: "cd = (kw, adler, bsz, ser, par)" by (cases cd) auto
  have ok: "write_ok kw" "no_epipe kw" "protobuf_ok ser bsz par" using assms(1) by (auto simp: cd codec_ok_def)
  from rpc_frame_text [OF ok(3), of m adler] assms(2) obtain b where
    b: "rpc_frame adler bsz ser m = Inr b" "contents b = stream cd [m]" by (auto simp: cd fits_def stream_def)
  have c: "conn_ok c" "t_state c = kConnected" "writerIndex (t_out c) + length (stream cd [m]) \<le> vector_max"
    using assms(3) by (auto simp: open_conn_def)
  from sendInLoop_takes [OF ok(1,2) c] obtain c' where
    c': "sendInLoop kw (stream cd [m]) c = Inr c'" "conn_ok c'" "t_state c' = kConnected"
      "t_accepted c' = t_accepted c @ stream cd [m]"
      "writerIndex (t_out c') \<le> writerIndex (t_out c) + length (stream cd [m])" by blast
  have "codec_send cd True m c = Inr c'"
    using b c(2) c'(1) unfolding codec_send_def cd by (simp add: RpcCodec_send_def send_buffer_def)
  then show ?thesis using c' assms(3) by (auto simp: open_conn_def)
qed

lemma codec_sends_take:
  assumes "codec_ok cd" and "fits cd ms" and "open_conn (length (stream cd ms) + n) c"
  shows "\<exists>c'. foldE (codec_send cd True) ms c = Inr c' \<and> open_conn n c' \<and> t_accepted c' = t_accepted c @ stream cd ms"
  using assms(2,3)
proof (induction ms arbitrary: c)
  case Nil
  then show ?case by simp
next
  case (Cons m ms)
  have f: "fits cd [m]" "fits cd ms" using Cons.prems(1) by (auto simp: fits_def split: prod.splits)
  have "open_conn (length (stream cd [m]) + (length (stream cd ms) + n)) c" using Cons.prems(2) unfolding stream_Cons [of cd m ms] by (simp add: add.assoc)
  from codec_send_takes [OF assms(1) f(1) this] obtain c1 where c1: "codec_send cd True m c = Inr c1"
    "open_conn (length (stream cd ms) + n) c1" "t_accepted c1 = t_accepted c @ stream cd [m]" by blast
  from Cons.IH [OF f(2) c1(2)] c1 show ?case unfolding stream_Cons [of cd m ms] by auto
qed

section \<open>Ends follow their channels\<close>

lemma onRpcMessage_sent: "onRpcMessage m ch = Inr ch' \<Longrightarrow> \<exists>ms. rc_sent ch' = rc_sent ch @ ms"
  by (auto simp: onRpcMessage_def onRpcResponse_def onRpcRequest_def doneCallback_def Let_def
      split: message_type.splits option.splits services_ptr.splits)

lemma onRpcMessages_sent: "foldE onRpcMessage ms ch = Inr ch' \<Longrightarrow> \<exists>ns. rc_sent ch' = rc_sent ch @ ns"
proof (induction ms arbitrary: ch)
  case (Cons m ms)
  then obtain ch1 where "onRpcMessage m ch = Inr ch1" "foldE onRpcMessage ms ch1 = Inr ch'" by auto
  with Cons.IH [of ch1] onRpcMessage_sent [of m ch ch1] show ?case by auto
qed simp

lemma end_messages:
  assumes "foldE onRpcMessage ms (re_channel s) = Inr ch'"
    and "foldE (codec_send cd True) (drop (length (rc_sent (re_channel s))) (rc_sent ch')) (re_conn s) = Inr conn'"
  shows "foldE (end_onRpcMessage cd) ms s = Inr \<lparr>re_channel = ch', re_conn = conn'\<rparr>"
  using assms
proof (induction ms arbitrary: s)
  case Nil
  then show ?case by simp
next
  case (Cons m ms)
  then obtain ch1 where ch1: "onRpcMessage m (re_channel s) = Inr ch1" "foldE onRpcMessage ms ch1 = Inr ch'" by auto
  obtain xs ys where sent: "rc_sent ch1 = rc_sent (re_channel s) @ xs" "rc_sent ch' = rc_sent ch1 @ ys"
    using onRpcMessage_sent [OF ch1(1)] onRpcMessages_sent [OF ch1(2)] by blast
  with Cons.prems(2) obtain conn1 where
    conn1: "foldE (codec_send cd True) xs (re_conn s) = Inr conn1" "foldE (codec_send cd True) ys conn1 = Inr conn'"
    by (auto simp: foldE_append)
  have "end_onRpcMessage cd m s = Inr \<lparr>re_channel = ch1, re_conn = conn1\<rparr>"
    using ch1(1) sent(1) conn1(1) by (simp add: end_onRpcMessage_def)
  moreover have "foldE (end_onRpcMessage cd) ms \<lparr>re_channel = ch1, re_conn = conn1\<rparr> = Inr \<lparr>re_channel = ch', re_conn = conn'\<rparr>"
    by (rule Cons.IH) (use ch1(2) sent(2) conn1(2) in simp_all)
  ultimately show ?case by simp
qed

definition end_call :: "rpc_message codec \<Rightarrow> rpc_call \<Rightarrow> rpc_end \<Rightarrow> rpc_end result" where
  "end_call cd c = end_CallMethod cd True (call_service c) (call_method c) (call_request c) (call_out c)"

lemma make_call_sent: "rc_sent (make_call c ch) = rc_sent ch @ [request_message (rc_id ch + 1) (call_service c) (call_method c) (call_request c)]"
  by (simp add: make_call_def CallMethod_def CallMethod_send_def CallMethod_record_def Let_def)

lemma make_calls_sent: "\<exists>ms. rc_sent (fold make_call cs ch) = rc_sent ch @ ms"
  using make_calls(3) [of cs ch] by blast

lemma end_calls:
  assumes "foldE (codec_send cd True) (drop (length (rc_sent (re_channel s))) (rc_sent (fold make_call cs (re_channel s)))) (re_conn s)
    = Inr conn'"
  shows "foldE (end_call cd) cs s = Inr \<lparr>re_channel = fold make_call cs (re_channel s), re_conn = conn'\<rparr>"
  using assms
proof (induction cs arbitrary: s)
  case Nil
  then show ?case by simp
next
  case (Cons c cs)
  let ?ch = "make_call c (re_channel s)" and ?m = "request_message (rc_id (re_channel s) + 1) (call_service c) (call_method c) (call_request c)"
  obtain ys where ys: "rc_sent (fold make_call cs ?ch) = rc_sent ?ch @ ys" using make_calls_sent by blast
  with Cons.prems obtain conn1 where
    conn1: "codec_send cd True ?m (re_conn s) = Inr conn1" "foldE (codec_send cd True) ys conn1 = Inr conn'"
    by (auto simp: make_call_sent)
  have "end_call cd c s = Inr \<lparr>re_channel = ?ch, re_conn = conn1\<rparr>"
    using conn1(1) by (simp add: end_call_def end_CallMethod_def CallMethod_send_def make_call_def CallMethod_def Let_def)
  moreover have "foldE (end_call cd) cs \<lparr>re_channel = ?ch, re_conn = conn1\<rparr> =
      Inr \<lparr>re_channel = fold make_call cs ?ch, re_conn = conn'\<rparr>"
    using Cons.IH [of "\<lparr>re_channel = ?ch, re_conn = conn1\<rparr>"] ys conn1(2) by simp
  ultimately show ?case by simp
qed

lemma end_onMessage:
  assumes "codec_ok cd" and "fits cd ms" and "buf_ok b" and "contents b = stream cd ms"
    and "foldE (end_onRpcMessage cd) ms s = Inr s'"
  shows "\<exists>b'. RpcChannel_onMessage cd b s = Some (Inr (b', s')) \<and> buf_ok b' \<and> contents b' = []"
proof -
  obtain kw adler bsz ser par where cd: "cd = (kw, adler, bsz, ser, par)" by (cases cd) auto
  have pb: "protobuf_ok ser bsz par" using assms(1) by (auto simp: cd codec_ok_def)
  have "partial_frame adler []" by (simp add: partial_frame_def)
  then show ?thesis
    using rpc_frames [OF pb _ _ assms(3), of ms adler "[]" "end_onRpcMessage cd" s s' end_error] assms(2,4,5)
    by (auto simp: cd fits_def stream_def RpcChannel_onMessage_def)
qed

section \<open>Whole calls\<close>

lemma call_answers_nth: "map ((!) (call_answers ans cs)) [0..<length cs] = call_answers ans cs"
  using map_nth [of "call_answers ans cs"] by (simp add: call_answers_def)

lemma calls_pairs: "map (\<lambda>i. (call_done (cs ! i), ans (cs ! i))) [0..<length cs] = map (\<lambda>c. (call_done c, ans c)) cs"
  by (rule nth_equalityI) simp_all

text \<open>Answers make the receiver send nothing.\<close>

lemma answers_quiet:
  assumes "foldE onRpcMessage (map (\<lambda>i. response_message (f i) (r i)) is) ch = Inr ch'"
  shows "rc_sent ch' = rc_sent ch"
  using assms
proof (induction "is" arbitrary: ch)
  case (Cons i "is")
  then obtain ch1 where ch1: "onRpcMessage (response_message (f i) (r i)) ch = Inr ch1"
    "foldE onRpcMessage (map (\<lambda>i. response_message (f i) (r i)) is) ch1 = Inr ch'" by auto
  have "rc_sent ch1 = rc_sent ch"
    using ch1(1) by (auto simp: onRpcMessage_def onRpcResponse_def response_message_def Let_def split: option.splits)
  then show ?case using Cons.IH [OF ch1(2)] by simp
qed simp

text \<open>
  C19. Remote calls work end to end: a client on an open connection makes any number of calls of
  methods that the server knows; the server's channel, given the bytes that the client's connection
  took charge of, handles them all and returns; and the client's channel, given the bytes of the
  server's connection, runs the closure of every call exactly once, in order, with what the service
  computed, and has no call outstanding. No assertion fails on the way, however the kernel cuts the
  writes, as long as messages have at most 64 MB and the output buffers fit in memory.
\<close>

theorem rpc_end_to_end:
  assumes "codec_ok cd" and "length cs < 2 ^ 63" and "list_all (known_call services ans) cs"
    and "fits cd (rc_sent (fold make_call cs newRpcChannel))" and "fits cd (call_answers ans cs)"
    and "open_conn (length (stream cd (rc_sent (fold make_call cs newRpcChannel)))) cconn" and "t_accepted cconn = []"
    and "open_conn (length (stream cd (call_answers ans cs))) sconn" and "t_accepted sconn = []"
  shows "\<exists>client server. foldE (end_call cd) cs (rpc_client cconn) = Inr client \<and>
    RpcServer_onConnection services sconn = Some server \<and>
    t_sent (re_conn client) @ contents (t_out (re_conn client)) = stream cd (rc_sent (fold make_call cs newRpcChannel)) \<and>
    (\<forall>b. buf_ok b \<and> contents b = t_sent (re_conn client) @ contents (t_out (re_conn client)) \<longrightarrow>
      (\<exists>b' server'. RpcChannel_onMessage cd b server = Some (Inr (b', server')) \<and> contents b' = [] \<and>
        t_sent (re_conn server') @ contents (t_out (re_conn server')) = stream cd (call_answers ans cs) \<and>
        (\<forall>d. buf_ok d \<and> contents d = t_sent (re_conn server') @ contents (t_out (re_conn server')) \<longrightarrow>
          (\<exists>d' client'. RpcChannel_onMessage cd d client = Some (Inr (d', client')) \<and> contents d' = [] \<and>
            rc_done (re_channel client') = map (\<lambda>c. (call_done c, ans c)) cs \<and>
            (\<forall>i<length cs. map_of (rc_outstandings (re_channel client')) (int (Suc i)) = None)))))"
proof -
  let ?reqs = "rc_sent (fold make_call cs newRpcChannel)" and ?server = "setServices (Services services) newRpcChannel"
  have new: "rc_sent newRpcChannel = []" by (simp add: newRpcChannel_def)
  obtain cc where cc: "foldE (codec_send cd True) ?reqs cconn = Inr cc" "open_conn 0 cc" "t_accepted cc = stream cd ?reqs"
    using codec_sends_take [OF assms(1,4), of 0 cconn] assms(6,7) by auto
  let ?client = "\<lparr>re_channel = fold make_call cs newRpcChannel, re_conn = cc\<rparr>"
  have 1: "foldE (end_call cd) cs (rpc_client cconn) = Inr ?client"
    using end_calls [of cd "rpc_client cconn" cs cc] cc(1) by (simp add: rpc_client_def new)
  have 2: "RpcServer_onConnection services sconn = Some \<lparr>re_channel = ?server, re_conn = sconn\<rparr>"
    using assms(8) by (simp add: RpcServer_onConnection_def rpc_onConnection_def connected_def open_conn_def)
  obtain server' where sv: "foldE onRpcMessage ?reqs ?server = Inr server'" "rc_sent server' = call_answers ans cs"
    using calls_served [OF assms(3)] by blast
  obtain sc where sc: "foldE (codec_send cd True) (call_answers ans cs) sconn = Inr sc" "open_conn 0 sc"
    "t_accepted sc = stream cd (call_answers ans cs)"
    using codec_sends_take [OF assms(1,5), of 0 sconn] assms(8,9) by auto
  have 3: "foldE (end_onRpcMessage cd) ?reqs \<lparr>re_channel = ?server, re_conn = sconn\<rparr> = Inr \<lparr>re_channel = server', re_conn = sc\<rparr>"
    by (rule end_messages) (use sv sc(1) in \<open>simp_all add: setServices_def new\<close>)
  obtain client' where cl: "foldE onRpcMessage (call_answers ans cs) (fold make_call cs newRpcChannel) = Inr client'"
    "rc_done client' = map (\<lambda>c. (call_done c, ans c)) cs"
    "\<forall>i<length cs. map_of (rc_outstandings client') (int (Suc i)) = None"
    using answers_received [OF assms(2), of "[0..<length cs]" ans] by (auto simp: call_answers_nth calls_pairs)
  have quiet: "rc_sent client' = ?reqs" by (rule answers_quiet [OF cl(1) [unfolded call_answers_def]])
  have 4: "foldE (end_onRpcMessage cd) (call_answers ans cs) ?client = Inr \<lparr>re_channel = client', re_conn = cc\<rparr>"
    by (rule end_messages) (use cl(1) quiet in simp_all)
  have sent: "t_sent cc @ contents (t_out cc) = stream cd ?reqs" "t_sent sc @ contents (t_out sc) = stream cd (call_answers ans cs)"
    using cc sc by (auto simp: open_conn_def dest: conn_okD(3))
  show ?thesis
    using 1 2 end_onMessage [OF assms(1,4) _ _ 3] end_onMessage [OF assms(1,5) _ _ 4] sent cl(2,3) by fastforce
qed

text \<open>
  A serialisation of messages that can be parsed back, to run the codec on: characters of a string are
  preceded by one and a string ends with zero.
\<close>

fun put_string :: "string \<Rightarrow> string" where
  "put_string [] = [CHR 0x00]"
| "put_string (c # s) = CHR 0x01 # c # put_string s"

fun take_string :: "string \<Rightarrow> (string \<times> string) option" where
  "take_string (b # s) = (if b = CHR 0x00 then Some ([], s) else
     case s of [] \<Rightarrow> None | c # s' \<Rightarrow> (case take_string s' of None \<Rightarrow> None | Some (w, rest) \<Rightarrow> Some (c # w, rest)))"
| "take_string [] = None"

fun put_option :: "string option \<Rightarrow> string" where
  "put_option None = [CHR 0x00]"
| "put_option (Some s) = CHR 0x01 # put_string s"

fun take_option :: "string \<Rightarrow> (string option \<times> string) option" where
  "take_option [] = None"
| "take_option (b # s) = (if b = CHR 0x00 then Some (None, s) else
     case take_string s of None \<Rightarrow> None | Some (w, rest) \<Rightarrow> Some (Some w, rest))"

lemma take_put [simp]: "take_string (put_string w @ s) = Some (w, s)" "take_option (put_option x @ s) = Some (x, s)"
proof -
  show 1: "take_string (put_string w @ s) = Some (w, s)" for w by (induction w) auto
  show "take_option (put_option x @ s) = Some (x, s)" using 1 by (cases x) auto
qed

definition put_type :: "message_type \<Rightarrow> char" where
  "put_type ty = (case ty of REQUEST \<Rightarrow> CHR 0x01 | RESPONSE \<Rightarrow> CHR 0x02 | ERROR \<Rightarrow> CHR 0x03)"

definition take_type :: "char \<Rightarrow> message_type" where
  "take_type c = (if c = CHR 0x01 then REQUEST else if c = CHR 0x02 then RESPONSE else ERROR)"

definition demo_ser :: "rpc_message \<Rightarrow> string" where
  "demo_ser m = put_type (rm_type m) # le_bytes 8 (unat (rm_id m)) @ put_option (rm_service m) @ put_option (rm_method m) @
     put_option (rm_request m) @ put_option (rm_response m)"

definition demo_par :: "string \<Rightarrow> rpc_message option" where
  "demo_par s = (case s of [] \<Rightarrow> None | c # s0 \<Rightarrow>
     (case take_option (drop 8 s0) of None \<Rightarrow> None | Some (sv, s1) \<Rightarrow>
     (case take_option s1 of None \<Rightarrow> None | Some (mt, s2) \<Rightarrow>
     (case take_option s2 of None \<Rightarrow> None | Some (rq, s3) \<Rightarrow>
     (case take_option s3 of None \<Rightarrow> None | Some (rs, s4) \<Rightarrow>
       Some \<lparr>rm_type = take_type c, rm_id = of_nat (le_value (take 8 s0)), rm_service = sv, rm_method = mt,
         rm_request = rq, rm_response = rs\<rparr>)))))"

lemma demo_protobuf: "protobuf_ok demo_ser (length \<circ> demo_ser) demo_par"
proof -
  have "demo_par (demo_ser m) = Some m" for m
  proof -
    have "take_type (put_type ty) = ty" for ty by (cases ty) (simp_all add: take_type_def put_type_def)
    moreover have "take_option (put_option x) = Some (x, [])" for x using take_put(2) [of x "[]"] by simp
    moreover have "of_nat (le_value (le_bytes 8 (unat w))) = w" for w :: "64 word"
      using unsigned_less [where 'a = nat and w = w] by (simp add: le_value_le_bytes)
    ultimately show ?thesis by (cases m) (simp add: demo_par_def demo_ser_def)
  qed
  then show ?thesis by (simp add: protobuf_ok_def)
qed

definition demo_codec :: "rpc_message codec" where
  "demo_codec = (demo_write, \<lambda>s. of_nat (length s), length \<circ> demo_ser, demo_ser, demo_par)"

lemma demo_codec_ok: "codec_ok demo_codec"
  using demo_write_ok demo_protobuf by (simp add: codec_ok_def demo_codec_def no_epipe_def demo_write_def)

definition demo_calls :: "rpc_call list" where
  "demo_calls = [\<lparr>call_service = ''S'', call_method = ''m'', call_request = ''ab'', call_done = 1\<rparr>,
     \<lparr>call_service = ''S'', call_method = ''m'', call_request = ''c'', call_done = 2\<rparr>]"

lemmas demo_msgs = demo_calls_def demo_codec_def demo_ser_def fits_def stream_def request_message_def response_message_def
  kMaxMessageLen_def

theorem rpc_end_to_end_witness:
  "\<exists>cconn sconn client server. foldE (end_call demo_codec) demo_calls (rpc_client cconn) = Inr client \<and>
     RpcServer_onConnection [(''S'', [''m'' \<mapsto> rev])] sconn = Some server \<and>
     (\<exists>b b' server'. contents b = t_sent (re_conn client) @ contents (t_out (re_conn client)) \<and>
       RpcChannel_onMessage demo_codec b server = Some (Inr (b', server')) \<and>
       (\<exists>d d' client'. contents d = t_sent (re_conn server') @ contents (t_out (re_conn server')) \<and>
         RpcChannel_onMessage demo_codec d client = Some (Inr (d', client')) \<and>
         rc_done (re_channel client') = [(1, ''ba''), (2, ''c'')]))"
proof -
  let ?ans = "\<lambda>c. rev (call_request c)" and ?reqs = "rc_sent (fold make_call demo_calls newRpcChannel)"
  have known: "length demo_calls < 2 ^ 63" "list_all (known_call [(''S'', [''m'' \<mapsto> rev])] ?ans) demo_calls"
    by (simp_all add: demo_calls_def known_call_def)
  have reqs: "fits demo_codec ?reqs" "length (stream demo_codec ?reqs) \<le> 1000"
    unfolding calls_sent by (simp_all add: demo_msgs)
  have answers: "fits demo_codec (call_answers ?ans demo_calls)" "length (stream demo_codec (call_answers ?ans demo_calls)) \<le> 1000"
    by (simp_all add: call_answers_def demo_msgs)
  have buf: "\<exists>b. buf_ok b \<and> contents b = s" if "length s \<le> 1000" for s
  proof -
    have "buf_room newBuffer (length s)" using that by (simp add: kCheapPrepend_def vector_max_def)
    from appendBuf_ok [OF buf_ok_newBuffer this] show ?thesis by auto
  qed
  obtain conn where conn: "open_conn 1000 conn" "t_accepted conn = []" using demo_open by blast
  have room: "open_conn n conn" if "n \<le> 1000" for n using conn(1) that by (simp add: open_conn_def)
  from rpc_end_to_end [OF demo_codec_ok known reqs(1) answers(1) room [OF reqs(2)] conn(2) room [OF answers(2)] conn(2)]
  obtain client server where *: "foldE (end_call demo_codec) demo_calls (rpc_client conn) = Inr client"
    "RpcServer_onConnection [(''S'', [''m'' \<mapsto> rev])] conn = Some server"
    "t_sent (re_conn client) @ contents (t_out (re_conn client)) = stream demo_codec ?reqs"
    and run: "\<forall>b. buf_ok b \<and> contents b = t_sent (re_conn client) @ contents (t_out (re_conn client)) \<longrightarrow>
      (\<exists>b' server'. RpcChannel_onMessage demo_codec b server = Some (Inr (b', server')) \<and> contents b' = [] \<and>
        t_sent (re_conn server') @ contents (t_out (re_conn server')) = stream demo_codec (call_answers ?ans demo_calls) \<and>
        (\<forall>d. buf_ok d \<and> contents d = t_sent (re_conn server') @ contents (t_out (re_conn server')) \<longrightarrow>
          (\<exists>d' client'. RpcChannel_onMessage demo_codec d client = Some (Inr (d', client')) \<and> contents d' = [] \<and>
            rc_done (re_channel client') = map (\<lambda>c. (call_done c, ?ans c)) demo_calls \<and>
            (\<forall>i<length demo_calls. map_of (rc_outstandings (re_channel client')) (int (Suc i)) = None))))" by blast
  obtain b where b: "buf_ok b" "contents b = stream demo_codec ?reqs" using buf reqs(2) by blast
  then have hb: "buf_ok b \<and> contents b = t_sent (re_conn client) @ contents (t_out (re_conn client))" using *(3) by simp
  from run [rule_format, OF hb] obtain b' server' where s: "RpcChannel_onMessage demo_codec b server = Some (Inr (b', server'))"
    "t_sent (re_conn server') @ contents (t_out (re_conn server')) = stream demo_codec (call_answers ?ans demo_calls)"
    and run': "\<forall>d. buf_ok d \<and> contents d = t_sent (re_conn server') @ contents (t_out (re_conn server')) \<longrightarrow>
          (\<exists>d' client'. RpcChannel_onMessage demo_codec d client = Some (Inr (d', client')) \<and> contents d' = [] \<and>
            rc_done (re_channel client') = map (\<lambda>c. (call_done c, ?ans c)) demo_calls \<and>
            (\<forall>i<length demo_calls. map_of (rc_outstandings (re_channel client')) (int (Suc i)) = None))" by blast
  obtain d where d: "buf_ok d" "contents d = stream demo_codec (call_answers ?ans demo_calls)" using buf answers(2) by blast
  then have hd: "buf_ok d \<and> contents d = t_sent (re_conn server') @ contents (t_out (re_conn server'))" using s(2) by simp
  from run' [rule_format, OF hd] obtain d' client' where fin: "RpcChannel_onMessage demo_codec d client = Some (Inr (d', client'))"
    "rc_done (re_channel client') = map (\<lambda>c. (call_done c, ?ans c)) demo_calls" by blast
  have "map (\<lambda>c. (call_done c, ?ans c)) demo_calls = [(1, ''ba''), (2, ''c'')]" by (simp add: demo_calls_def)
  with fin(2) have ran: "rc_done (re_channel client') = [(1, ''ba''), (2, ''c'')]" by simp
  show ?thesis
    by (intro exI [of _ conn] exI [of _ client] exI [of _ server] exI [of _ b] exI [of _ b'] exI [of _ server']
        exI [of _ d] exI [of _ d'] exI [of _ client'] conjI)
      (rule *(1) *(2) conjunct2 [OF hb] s(1) conjunct2 [OF hd] fin(1) ran)+
qed

end
