(* ===== verification/File_Util.thy ===== *)
theory File_Util
  imports Decimal
begin

text \<open>
  \<open>src/muduo/base/FileUtil.{h,cc}\<close>: reading small files.

  The kernel is a state \<open>'k\<close> with a \<open>read\<close> that takes the number of bytes asked for and gives bytes,
  none at the end of the file, or an error number; \<open>open\<close>, \<open>fstat\<close>, \<open>pread\<close> and the rest are answers
  passed as arguments. The promise of \<open>read\<close> on a file with some text left is the locale
  \<open>file_kernel\<close>; it is interpreted on the kernel that gives at most a fixed number of bytes at a time.
\<close>

section \<open>SmallFile\<close>

definition kBufferSize :: nat where
  "kBufferSize = 65536"

record small_file =
  sf_fd :: int
  sf_err :: int
  sf_buf :: string

type_synonym 'k reader = "'k \<Rightarrow> nat \<Rightarrow> (int + string) \<times> 'k"

definition SmallFile :: "int + int \<Rightarrow> string \<Rightarrow> small_file" where
  "SmallFile opened memory = (case opened of
     Inl e \<Rightarrow> \<lparr>sf_fd = - 1, sf_err = e, sf_buf = overwrite 0 [CHR 0x00] memory\<rparr>
   | Inr fd \<Rightarrow> \<lparr>sf_fd = fd, sf_err = 0, sf_buf = overwrite 0 [CHR 0x00] memory\<rparr>)"

text \<open>The descriptors closed by the destructor.\<close>

definition delete_SmallFile :: "small_file \<Rightarrow> int list" where
  "delete_SmallFile f = (if sf_fd f \<ge> 0 then [sf_fd f] else [])"

datatype file_kind = Regular | Directory | Other_file

record stat =
  st_kind :: file_kind
  st_size :: int
  st_mtime :: int
  st_ctime :: int

definition EISDIR :: int where
  "EISDIR = 21"

text \<open>\<open>implicit_cast<size_t>\<close> of an \<open>int\<close>, and \<open>reserve\<close> with the converted length.\<close>

definition to_size :: "int \<Rightarrow> nat" where
  "to_size n = nat (n mod 2 ^ 64)"

definition reserve :: "int \<Rightarrow> unit result" where
  "reserve n = (if n < 0 then Inl (Cpp_Exception ''length_error'') else Inr ())"

function read_loop :: "'k reader \<Rightarrow> nat \<Rightarrow> int \<Rightarrow> string \<Rightarrow> string \<Rightarrow> 'k \<Rightarrow> int \<times> string \<times> string \<times> 'k" where
  "read_loop rd maxSize err content buf k =
     (if length content < maxSize then
        let toRead = min (maxSize - length content) kBufferSize in
        case rd k toRead of
          (Inr bytes, k') \<Rightarrow>
            if bytes \<noteq> [] then read_loop rd maxSize err (content @ bytes) (overwrite 0 bytes buf) k'
            else (err, content, buf, k')
        | (Inl e, k') \<Rightarrow> (e, content, buf, k')
      else (err, content, buf, k))"
  by pat_completeness auto
termination
  by (relation "measure (\<lambda>(rd, m, err, content, buf, k). m - length content)") (auto simp: diff_less_mono2)

declare read_loop.simps [simp del]

text \<open>
  What \<open>readToString\<close> hands back: the error number, the content, and for each of the three pointers
  that is not null the value stored, if any. The flags say which pointers are given.
\<close>

record read_out =
  ro_err :: int
  ro_content :: string
  ro_fileSize :: "int option"
  ro_modifyTime :: "int option"
  ro_createTime :: "int option"

definition readToString ::
  "'k reader \<Rightarrow> int + stat \<Rightarrow> int \<Rightarrow> string \<Rightarrow> bool \<Rightarrow> bool \<Rightarrow> bool \<Rightarrow> small_file \<Rightarrow> 'k \<Rightarrow>
     (read_out \<times> small_file \<times> 'k) result" where
  "readToString rd fstat maxSize content wantSize wantModify wantCreate f k =
     (if sf_fd f \<ge> 0 then
        bindE (if wantSize then
                 (case fstat of
                    Inr st \<Rightarrow>
                      bindE (if st_kind st = Regular
                             then reserve (cast_int (min maxSize (st_size st))) else Inr ()) (\<lambda>_.
                      Inr \<lparr>ro_err = (if st_kind st = Directory then EISDIR else sf_err f), ro_content = [],
                        ro_fileSize = (if st_kind st = Regular then Some (st_size st) else None),
                        ro_modifyTime = (if wantModify then Some (st_mtime st) else None),
                        ro_createTime = (if wantCreate then Some (st_ctime st) else None)\<rparr>)
                  | Inl e \<Rightarrow> Inr \<lparr>ro_err = e, ro_content = [], ro_fileSize = None, ro_modifyTime = None, ro_createTime = None\<rparr>)
               else Inr \<lparr>ro_err = sf_err f, ro_content = [], ro_fileSize = None, ro_modifyTime = None, ro_createTime = None\<rparr>) (\<lambda>r.
        let (err, content', buf, k') = read_loop rd (to_size maxSize) (ro_err r) [] (sf_buf f) k in
        Inr (r\<lparr>ro_err := err, ro_content := content'\<rparr>, f\<lparr>sf_buf := buf\<rparr>, k'))
      else Inr (\<lparr>ro_err = sf_err f, ro_content = content, ro_fileSize = None, ro_modifyTime = None, ro_createTime = None\<rparr>, f, k))"

text \<open>\<open>readToBuffer\<close>: one \<open>pread\<close> of all but the last byte, and a terminating zero.\<close>

definition readToBuffer :: "(nat \<Rightarrow> int + string) \<Rightarrow> small_file \<Rightarrow> int \<times> int option \<times> small_file" where
  "readToBuffer pread f =
     (if sf_fd f \<ge> 0 then
        case pread (kBufferSize - 1) of
          Inr bytes \<Rightarrow> (sf_err f, Some (int (length bytes)), f\<lparr>sf_buf := overwrite 0 (bytes @ [CHR 0x00]) (sf_buf f)\<rparr>)
        | Inl e \<Rightarrow> (e, None, f)
      else (sf_err f, None, f))"

definition readFile ::
  "'k reader \<Rightarrow> int + int \<Rightarrow> int + stat \<Rightarrow> string \<Rightarrow> int \<Rightarrow> string \<Rightarrow> bool \<Rightarrow> bool \<Rightarrow> bool \<Rightarrow> 'k \<Rightarrow>
     (read_out \<times> int list \<times> 'k) result" where
  "readFile rd opened fstat memory maxSize content wantSize wantModify wantCreate k =
     (let f = SmallFile opened memory in
      bindE (readToString rd fstat maxSize content wantSize wantModify wantCreate f k) (\<lambda>(r, f', k').
      Inr (r, delete_SmallFile f', k')))"

section \<open>Reading a file\<close>

text \<open>What \<open>read\<close> promises on a file: it gives the next bytes, some if there are any left.\<close>

locale file_kernel =
  fixes rd :: "'k reader" and left :: "'k \<Rightarrow> string"
  assumes read_ok: "0 < c \<Longrightarrow> \<exists>n k'. rd k c = (Inr (take n (left k)), k') \<and> n \<le> c \<and> left k' = drop n (left k) \<and>
    (left k \<noteq> [] \<longrightarrow> 0 < n)"
begin

text \<open>Whatever sizes \<open>read\<close> chooses, the loop gets the text up to the maximum, and sets no error.\<close>

lemma read_loop_text:
  assumes "length content \<le> m"
  shows "\<exists>buf' k'. read_loop rd m err content buf k = (err, content @ take (m - length content) (left k), buf', k')"
  using assms
proof (induction "m - length content" arbitrary: content buf k rule: less_induct)
  case less
  show ?case
  proof (cases "length content < m")
    case True
    let ?c = "min (m - length content) kBufferSize"
    have "0 < ?c" using True by (simp add: kBufferSize_def)
    from read_ok [OF this, of k] obtain n k' where r: "rd k ?c = (Inr (take n (left k)), k')" "n \<le> ?c"
      "left k' = drop n (left k)" "left k \<noteq> [] \<Longrightarrow> 0 < n" by blast
    show ?thesis
    proof (cases "take n (left k) = []")
      case True
      then have "left k = []" using r(4) by auto
      then show ?thesis using r by (subst read_loop.simps) (simp add: Let_def)
    next
      case False
      let ?got = "take n (left k)"
      have len: "length (content @ ?got) \<le> m" "0 < length ?got" using r(2) True False by auto
      then have "m - length (content @ ?got) < m - length content"
        using \<open>length content < m\<close> unfolding length_append by linarith
      from less.hyps [OF this len(1), of "overwrite 0 ?got buf" k'] obtain b2 k2 where
        step: "read_loop rd m err (content @ ?got) (overwrite 0 ?got buf) k' =
          (err, content @ ?got @ take (m - length (content @ ?got)) (left k'), b2, k2)" by auto
      have "?got @ take (m - length (content @ ?got)) (drop n (left k)) = take (m - length content) (left k)"
      proof (cases "n \<le> length (left k)")
        case True
        have "n + (m - length content - n) = m - length content" using r(2) by linarith
        then have "take (m - length content) (left k) = ?got @ take (m - length content - n) (drop n (left k))"
          using take_add [of n "m - length content - n" "left k"] by metis
        then show ?thesis using \<open>n \<le> length (left k)\<close> by simp
      next
        case False
        then show ?thesis using r(2) by simp
      qed
      then show ?thesis using step r(1,3) True False
        by (subst read_loop.simps) (simp add: Let_def)
    qed
  next
    case False
    then show ?thesis using less.prems by (subst read_loop.simps) simp
  qed
qed

lemma readFile_text:
  assumes "0 \<le> fd" and "0 \<le> maxSize" and "maxSize < 2 ^ 31"
    and "\<And>st. fstat = Inr st \<Longrightarrow> st_kind st = Regular \<and> 0 \<le> st_size st" and "\<And>e. fstat \<noteq> Inl e"
  shows "\<exists>r k'. readFile rd (Inr fd) fstat memory maxSize content ws wm wc k = Inr (r, [fd], k') \<and> ro_err r = 0 \<and>
    ro_content r = take (nat maxSize) (left k) \<and>
    (ws \<longrightarrow> (\<exists>st. fstat = Inr st \<and> ro_fileSize r = Some (st_size st)))"
proof -
  obtain st where st: "fstat = Inr st" "st_kind st = Regular" "0 \<le> st_size st" using assms(4,5) by (cases fstat) auto
  have cast: "cast_int (min maxSize (st_size st)) = min maxSize (st_size st)"
    by (rule cast_int_id) (use assms(2,3) st(3) in auto)
  have sz: "to_size maxSize = nat maxSize" using assms(2,3) by (simp add: to_size_def)
  let ?b = "overwrite 0 [CHR 0x00] memory"
  obtain buf' k' where "read_loop rd (nat maxSize) 0 [] ?b k = (0, take (nat maxSize) (left k), buf', k')"
    using read_loop_text [of "[]" "nat maxSize" 0 ?b k] by auto
  moreover have "\<not> min maxSize (st_size st) < 0" using assms(2) st(3) by simp
  ultimately show ?thesis using assms(1,2) st cast
    by (simp add: readFile_def SmallFile_def readToString_def delete_SmallFile_def reserve_def sz Let_def)
qed

end

text \<open>A kernel that gives at most \<open>m\<close> bytes at a time from a string.\<close>

definition string_read :: "nat \<Rightarrow> string reader" where
  "string_read m s c = (Inr (take (min m c) s), drop (min m c) s)"

lemma string_kernel: "0 < m \<Longrightarrow> file_kernel (string_read m) id"
  by unfold_locales (auto simp: string_read_def intro: exI [of _ "min m c" for c])

interpretation page_reads: file_kernel "string_read 4096" id
  by (rule string_kernel) simp

text \<open>A kernel that gives some chunks and then fails.\<close>

definition chunk_read :: "int \<Rightarrow> string list reader" where
  "chunk_read e xs c = (case xs of [] \<Rightarrow> (Inl e, []) | x # xs' \<Rightarrow> (Inr (take c x), xs'))"

lemma read_loop_error:
  assumes "\<forall>x\<in>set xs. x \<noteq> [] \<and> length x \<le> kBufferSize" and "length content + length (concat xs) < m"
  shows "\<exists>buf'. read_loop (chunk_read e) m err content buf xs = (e, content @ concat xs, buf', [])"
  using assms
proof (induction xs arbitrary: content buf)
  case Nil
  then show ?case by (subst read_loop.simps) (simp add: chunk_read_def Let_def)
next
  case (Cons x xs)
  obtain buf' where "read_loop (chunk_read e) m err (content @ x) (overwrite 0 x buf) xs = (e, (content @ x) @ concat xs, buf', [])"
    using Cons.IH [of "content @ x" "overwrite 0 x buf"] Cons.prems by auto
  moreover have "chunk_read e (x # xs) (min (m - length content) kBufferSize) = (Inr x, xs)"
    using Cons.prems by (simp add: chunk_read_def)
  ultimately show ?case using Cons.prems by (subst read_loop.simps) (simp add: Let_def)
qed

text \<open>
  \<open>FileUtil::readFile\<close> of a regular file returns the first \<open>maxSize\<close> bytes of the file, all of it
  if it is shorter, whatever the sizes of the single reads, with error 0 and the size of the file, and
  closes the descriptor. When the file cannot be opened it returns the error, leaves the caller's
  string as it was and has nothing to close; an error of a read is returned with what was read before.
\<close>

theorem file_read_exact:
  assumes "file_kernel rd left" and "0 \<le> fd" and "0 \<le> maxSize" and "maxSize < 2 ^ 31" and "st_kind st = Regular"
    and "0 \<le> st_size st"
  shows "(\<exists>r k'. readFile rd (Inr fd) (Inr st) memory maxSize content ws wm wc k = Inr (r, [fd], k') \<and> ro_err r = 0 \<and>
      ro_content r = take (nat maxSize) (left k) \<and> (ws \<longrightarrow> ro_fileSize r = Some (st_size st))) \<and>
    (\<exists>r. readFile rd (Inl e) (Inr st) memory maxSize content ws wm wc k = Inr (r, [], k) \<and> ro_err r = e \<and>
      ro_content r = content) \<and>
    (\<forall>xs. (\<forall>x\<in>set xs. x \<noteq> [] \<and> length x \<le> kBufferSize) \<and> int (length (concat xs)) < maxSize \<longrightarrow>
      (\<exists>r. readFile (chunk_read e) (Inr fd) (Inr st) memory maxSize content ws wm wc xs = Inr (r, [fd], []) \<and>
        ro_err r = e \<and> ro_content r = concat xs))"
proof (intro conjI allI impI)
  show "\<exists>r k'. readFile rd (Inr fd) (Inr st) memory maxSize content ws wm wc k = Inr (r, [fd], k') \<and> ro_err r = 0 \<and>
      ro_content r = take (nat maxSize) (left k) \<and> (ws \<longrightarrow> ro_fileSize r = Some (st_size st))"
    using file_kernel.readFile_text [OF assms(1-4), of "Inr st" memory content ws wm wc k] assms(5,6) by auto
  show "\<exists>r. readFile rd (Inl e) (Inr st) memory maxSize content ws wm wc k = Inr (r, [], k) \<and> ro_err r = e \<and>
      ro_content r = content"
    by (simp add: readFile_def SmallFile_def readToString_def delete_SmallFile_def)
  have sz: "to_size maxSize = nat maxSize" using assms(3,4) by (simp add: to_size_def)
  have cast: "cast_int (min maxSize (st_size st)) = min maxSize (st_size st)" "\<not> min maxSize (st_size st) < 0"
    by (rule cast_int_id) (use assms(3,4,6) in auto)
  show "\<exists>r. readFile (chunk_read e) (Inr fd) (Inr st) memory maxSize content ws wm wc xs = Inr (r, [fd], []) \<and>
      ro_err r = e \<and> ro_content r = concat xs"
    if xs: "(\<forall>x\<in>set xs. x \<noteq> [] \<and> length x \<le> kBufferSize) \<and> int (length (concat xs)) < maxSize" for xs
  proof -
    have "length [] + length (concat xs) < nat maxSize"
      using xs unfolding zless_nat_eq_int_zless by simp
    with xs read_loop_error [of xs "[]" "nat maxSize" e 0 "overwrite 0 [CHR 0x00] memory"] obtain buf' where
      "read_loop (chunk_read e) (nat maxSize) 0 [] (overwrite 0 [CHR 0x00] memory) xs = (e, concat xs, buf', [])"
      by auto
    then show ?thesis using assms(2,5) cast
      by (simp add: readFile_def SmallFile_def readToString_def delete_SmallFile_def reserve_def sz Let_def)
  qed
qed

theorem file_read_exact_witness:
  "file_kernel (string_read 2) id \<and>
   (\<exists>r k'. readFile (string_read 2) (Inr 3) (Inr \<lparr>st_kind = Regular, st_size = 5, st_mtime = 0, st_ctime = 0\<rparr>)
     [] 4 [] True False False ''hello'' = Inr (r, [3], k') \<and> ro_content r = ''hell'')"
proof -
  have k: "file_kernel (string_read 2) id" by (rule string_kernel) simp
  let ?st = "\<lparr>st_kind = Regular, st_size = 5, st_mtime = 0, st_ctime = 0\<rparr>"
  obtain r k' where "readFile (string_read 2) (Inr 3) (Inr ?st) [] 4 [] True False False ''hello'' = Inr (r, [3], k')"
    "ro_content r = take (nat 4) (id ''hello'')"
    using file_read_exact [OF k, of 3 4 ?st "[]" "[]" True False False "''hello''" 0] by auto
  then show ?thesis using k by auto
qed

end
