(* ===== verification/Process_Info.thy ===== *)
theory Process_Info
  imports File_Util
begin

text \<open>
  \<open>src/muduo/base/ProcessInfo.cc\<close>: what the process knows about itself. The answers of the kernel are
  arguments: the process id, the entry of the password database, the node name, the entries of a
  directory (\<open>None\<close> when it cannot be read), the resource limit, and the reader of
  \<open>/proc/self/status\<close>.
\<close>

section \<open>C library functions\<close>

definition cstring :: "char list \<Rightarrow> string result" where
  "cstring buf = (if CHR 0x00 \<in> set buf then Inr (take (find_char (CHR 0x00) buf) buf)
     else Inl (Undefined_Behaviour ''unterminated string''))"

definition is_space :: "char \<Rightarrow> bool" where
  "is_space c \<longleftrightarrow> c = CHR '' '' \<or> 9 \<le> (of_char c :: nat) \<and> (of_char c :: nat) \<le> 13"

text \<open>\<open>atoi\<close> is \<open>strtol\<close>, which saturates at the range of \<open>long\<close>, cast to \<open>int\<close>.\<close>

definition atoi :: "string \<Rightarrow> int" where
  "atoi s =
     (let s1 = dropWhile is_space s;
          neg = (s1 \<noteq> [] \<and> hd s1 = CHR ''-'');
          s2 = (if s1 \<noteq> [] \<and> (hd s1 = CHR ''-'' \<or> hd s1 = CHR ''+'') then tl s1 else s1);
          v = int (undec (takeWhile is_digit s2)) in
      cast_int (max (- (2 ^ 63)) (min (2 ^ 63 - 1) (if neg then - v else v))))"

text \<open>\<open>gethostname\<close> copies the name with its zero as far as the length goes.\<close>

definition gethostname :: "string \<Rightarrow> nat \<Rightarrow> char list \<Rightarrow> char list" where
  "gethostname nodename len buf = overwrite 0 (take len (nodename @ [CHR 0x00])) buf"

section \<open>ProcessInfo\<close>

definition first_char :: "string \<Rightarrow> char" where
  "first_char d = (case d of [] \<Rightarrow> CHR 0x00 | c # _ \<Rightarrow> c)"

definition fdDirFilter :: "string \<Rightarrow> int \<Rightarrow> int \<times> int" where
  "fdDirFilter d t_numOpenedFiles =
     (0, if is_digit (first_char d) then t_numOpenedFiles + 1 else t_numOpenedFiles)"

definition taskDirFilter :: "string \<Rightarrow> int list \<Rightarrow> int \<times> int list" where
  "taskDirFilter d t_pids = (0, if is_digit (first_char d) then t_pids @ [atoi d] else t_pids)"

text \<open>\<open>scandir\<close> keeps the entries for which the filter is not zero; with none kept the list is null.\<close>

fun scandir :: "(string \<Rightarrow> 's \<Rightarrow> int \<times> 's) \<Rightarrow> string list \<Rightarrow> 's \<Rightarrow> string list \<times> 's" where
  "scandir filt [] s = ([], s)"
| "scandir filt (d # ds) s =
     (let (keep, s1) = filt d s; (kept, s2) = scandir filt ds s1 in (if keep \<noteq> 0 then d # kept else kept, s2))"

definition scanDir :: "(string \<Rightarrow> 's \<Rightarrow> int \<times> 's) \<Rightarrow> string list option \<Rightarrow> 's \<Rightarrow> (int \<times> 's) result" where
  "scanDir filt dir s = (case dir of
     None \<Rightarrow> Inr (- 1, s)
   | Some entries \<Rightarrow>
       let (namelist, s') = scandir filt entries s in
       bindE (assertE (namelist = []) ''namelist == NULL'') (\<lambda>_. Inr (int (length namelist), s')))"

definition pidString :: "int \<Rightarrow> string" where
  "pidString pid = snprintf 32 (dec_int pid)"

definition username :: "string option \<Rightarrow> string" where
  "username pwd = (case pwd of Some pw_name \<Rightarrow> pw_name | None \<Rightarrow> ''unknownuser'')"

definition hostname :: "string \<Rightarrow> string result" where
  "hostname nodename =
     (let buf = ''unknownhost'' @ replicate 53 (CHR 0x00) in
      cstring (gethostname nodename 64 (buf[63 := CHR 0x00])))"

definition procStatus :: "'k reader \<Rightarrow> int + int \<Rightarrow> string \<Rightarrow> 'k \<Rightarrow> string result" where
  "procStatus rd opened memory k =
     bindE (readFile rd opened (Inl 0) memory 65536 [] False False False k) (\<lambda>(r, _, _). Inr (ro_content r))"

definition openedFiles :: "string list option \<Rightarrow> int result" where
  "openedFiles fds = bindE (scanDir fdDirFilter fds 0) (\<lambda>(_, t_numOpenedFiles). Inr t_numOpenedFiles)"

definition maxOpenFiles :: "nat option \<Rightarrow> string list option \<Rightarrow> int result" where
  "maxOpenFiles rlim_cur fds = (case rlim_cur of
     None \<Rightarrow> openedFiles fds
   | Some n \<Rightarrow> Inr (cast_int (int n)))"

definition numThreads :: "string result \<Rightarrow> int result" where
  "numThreads procstatus =
     bindE procstatus (\<lambda>status.
     let pos = search ''Threads:'' status in
     Inr (if pos \<noteq> length status then atoi (drop (pos + 8) status) else 0))"

definition process_threads :: "string list option \<Rightarrow> int list result" where
  "process_threads tasks = bindE (scanDir taskDirFilter tasks []) (\<lambda>(_, t_pids). Inr (sort t_pids))"

section \<open>Numbers in texts\<close>

lemma atoi_dec:
  assumes "n < 2 ^ 31" and "rest = [] \<or> \<not> is_digit (hd rest)" and "\<forall>c\<in>set sp. is_space c"
  shows "atoi (sp @ dec n @ rest) = int n"
proof -
  have d: "is_digit (hd (dec n))" using dec_digits [of "hd (dec n)" n] by simp
  then have nd: "\<not> is_space (hd (dec n))" "hd (dec n) \<noteq> CHR ''-''" "hd (dec n) \<noteq> CHR ''+''"
    by (auto simp: is_digit_def is_space_def)
  have "dropWhile is_space (dec n @ rest) = dec n @ rest" using nd(1) by (cases "dec n") auto
  then have drop: "dropWhile is_space (sp @ dec n @ rest) = dec n @ rest"
    using assms(3) by (simp add: dropWhile_append2)
  have "takeWhile is_digit rest = []" using assms(2) by (cases rest) auto
  moreover have "takeWhile is_digit (dec n @ rest) = dec n @ takeWhile is_digit rest"
    by (rule takeWhile_append2) (rule dec_digits)
  ultimately have take: "takeWhile is_digit (dec n @ rest) = dec n" by simp
  have n: "int n < 2 ^ 31" using assms(1) by simp
  then have "cast_int (max (- (2 ^ 63)) (min (2 ^ 63 - 1) (int n))) = int n" by (simp add: cast_int_def)
  then show ?thesis using nd(2,3) by (simp add: atoi_def drop Let_def take hd_append)
qed

lemma scandir_fold: "(\<And>d s. fst (filt d s) = 0) \<Longrightarrow> scandir filt ds s = ([], foldl (\<lambda>s d. snd (filt d s)) s ds)"
  by (induction ds arbitrary: s) (auto simp: split_beta)

lemma scanDir_fold: "(\<And>d s. fst (filt d s) = 0) \<Longrightarrow> scanDir filt (Some ds) s = Inr (0, foldl (\<lambda>s d. snd (filt d s)) s ds)"
  by (simp add: scanDir_def scandir_fold)

lemma openedFiles_count: "openedFiles (Some ds) = Inr (int (length (filter (\<lambda>d. is_digit (first_char d)) ds)))"
proof -
  have "foldl (\<lambda>s d. snd (fdDirFilter d s)) n ds = n + int (length (filter (\<lambda>d. is_digit (first_char d)) ds))" for n
    by (induction ds arbitrary: n) (simp_all add: fdDirFilter_def)
  then show ?thesis by (simp add: openedFiles_def scanDir_fold fdDirFilter_def)
qed

lemma process_threads_sorted:
  "process_threads (Some ds) = Inr (sort (map atoi (filter (\<lambda>d. is_digit (first_char d)) ds)))"
proof -
  have "foldl (\<lambda>s d. snd (taskDirFilter d s)) ps ds = ps @ map atoi (filter (\<lambda>d. is_digit (first_char d)) ds)" for ps
    by (induction ds arbitrary: ps) (simp_all add: taskDirFilter_def)
  then show ?thesis by (simp add: process_threads_def scanDir_fold taskDirFilter_def)
qed

lemma first_char_dec [simp]: "is_digit (first_char (dec n))"
  using dec_digits [of "hd (dec n)" n] by (cases "dec n") (auto simp: first_char_def)

lemma filter_numbers:
  assumes "\<forall>d\<in>set ds. (\<exists>n < 2 ^ 31. d = dec n) \<or> d = ''.'' \<or> d = ''..''"
  shows "map atoi (filter (\<lambda>d. is_digit (first_char d)) ds) = map (int \<circ> undec) (filter (\<lambda>d. d \<noteq> ''.'' \<and> d \<noteq> ''..'') ds)"
  using assms
proof (induction ds)
  case (Cons d ds)
  have dot: "\<not> is_digit (first_char ''.'')" "\<not> is_digit (first_char ''..'')" by (simp_all add: first_char_def is_digit_def)
  consider n where "n < 2 ^ 31" "d = dec n" | "d = ''.''" | "d = ''..''" using Cons.prems by auto
  then show ?case
  proof cases
    case 1
    have "d \<noteq> ''.''" "d \<noteq> ''..''" using 1(2) dot first_char_dec by metis+
    moreover have "atoi d = int (undec d)" using atoi_dec [OF 1(1), of "[]" "[]"] 1(2) by simp
    ultimately show ?thesis using Cons 1 by simp
  qed (use Cons dot in auto)
qed simp

lemma hostname_short:
  assumes "CHR 0x00 \<notin> set nodename" and "length nodename < 64"
  shows "hostname nodename = Inr nodename"
  using assms by (simp add: hostname_def gethostname_def cstring_def overwrite_def find_char_append)

lemma hostname_long:
  assumes "CHR 0x00 \<notin> set nodename" and "length nodename \<ge> 64"
  shows "hostname nodename = Inl (Undefined_Behaviour ''unterminated string'')"
proof -
  have "CHR 0x00 \<notin> set (take 64 nodename)" using assms(1) set_take_subset [of 64 nodename] by blast
  then show ?thesis using assms(2) by (simp add: hostname_def gethostname_def cstring_def overwrite_def)
qed

text \<open>
  What \<open>ProcessInfo\<close> reads from \<open>/proc\<close>: with the entries of \<open>/proc/self/task\<close> the dots and decimal
  thread ids, \<open>threads\<close> is the sorted list of the ids and no assertion fails; \<open>openedFiles\<close> is the
  number of decimal entries of \<open>/proc/self/fd\<close>; \<open>numThreads\<close> is the number after the first
  \<open>Threads:\<close> of the status text, past white space; a status that cannot be read or parsed gives 0.
\<close>

theorem process_info_reads:
  assumes "\<forall>d\<in>set ds. (\<exists>n < 2 ^ 31. d = dec n) \<or> d = ''.'' \<or> d = ''..''"
    and "search ''Threads:'' (pre @ ''Threads:'' @ sp @ dec n @ rest) = length pre" and "\<forall>c\<in>set sp. is_space c"
    and "n < 2 ^ 31" and "rest = [] \<or> \<not> is_digit (hd rest)"
  shows "process_threads (Some ds) = Inr (sort (map (int \<circ> undec) (filter (\<lambda>d. d \<noteq> ''.'' \<and> d \<noteq> ''..'') ds))) \<and>
    openedFiles (Some ds) = Inr (int (length (filter (\<lambda>d. d \<noteq> ''.'' \<and> d \<noteq> ''..'') ds))) \<and>
    numThreads (Inr (pre @ ''Threads:'' @ sp @ dec n @ rest)) = Inr (int n) \<and>
    process_threads None = Inr [] \<and> openedFiles None = Inr 0 \<and> numThreads (Inr []) = Inr 0"
proof (intro conjI)
  show "process_threads (Some ds) = Inr (sort (map (int \<circ> undec) (filter (\<lambda>d. d \<noteq> ''.'' \<and> d \<noteq> ''..'') ds)))"
    unfolding process_threads_sorted filter_numbers [OF assms(1)] ..
  have "length (map atoi (filter (\<lambda>d. is_digit (first_char d)) ds)) =
      length (map (int \<circ> undec) (filter (\<lambda>d. d \<noteq> ''.'' \<and> d \<noteq> ''..'') ds))"
    by (simp only: filter_numbers [OF assms(1)])
  then show "openedFiles (Some ds) = Inr (int (length (filter (\<lambda>d. d \<noteq> ''.'' \<and> d \<noteq> ''..'') ds)))"
    unfolding openedFiles_count by simp
  show "numThreads (Inr (pre @ ''Threads:'' @ sp @ dec n @ rest)) = Inr (int n)"
    using assms(2) atoi_dec [OF assms(4,5,3)] by (simp add: numThreads_def)
qed (simp_all add: process_threads_def openedFiles_def numThreads_def scanDir_def)

theorem process_info_reads_witness:
  "process_threads (Some [''.'', ''..'', ''812'', ''77'']) = Inr [77, 812] \<and>
   numThreads (Inr (''Pid: 5 Threads: 12 '')) = Inr 12"
proof -
  have d: "dec 812 = ''812''" "dec 77 = ''77''" "dec 12 = ''12''" by code_simp+
  have a: "\<forall>d\<in>set [''.'', ''..'', ''812'', ''77'']. (\<exists>n < 2 ^ 31. d = dec n) \<or> d = ''.'' \<or> d = ''..''"
    using d(1,2) [symmetric] by (auto intro: exI [of _ 812] exI [of _ 77])
  have "search ''Threads:'' (''Pid: 5 '' @ ''Threads:'' @ '' '' @ dec 12 @ '' '') = length ''Pid: 5 ''" by (simp add: d)
  from process_info_reads [OF a this] have
    "process_threads (Some [''.'', ''..'', ''812'', ''77'']) =
      Inr (sort (map (int \<circ> undec) (filter (\<lambda>d. d \<noteq> ''.'' \<and> d \<noteq> ''..'') [''.'', ''..'', ''812'', ''77''])))"
    "numThreads (Inr (''Pid: 5 '' @ ''Threads:'' @ '' '' @ dec 12 @ '' '')) = Inr 12"
    by (simp_all add: is_space_def is_digit_def)
  moreover have "undec ''812'' = 812" "undec ''77'' = 77" using undec_dec [of 812] undec_dec [of 77] d by simp_all
  ultimately show ?thesis by (simp add: d)
qed

text \<open>
  \<open>ProcessInfo::hostname\<close> returns a node name of at most 63 characters; with the 64 characters that
  Linux allows, \<open>gethostname\<close> overwrites the terminating zero the code has put at the end of its buffer
  and the string is read past the buffer.
\<close>

theorem hostname_unterminated:
  assumes "CHR 0x00 \<notin> set nodename"
  shows "hostname nodename =
    (if length nodename < 64 then Inr nodename else Inl (Undefined_Behaviour ''unterminated string''))"
  using hostname_short [OF assms] hostname_long [OF assms] by simp

theorem hostname_unterminated_witness:
  "hostname (replicate 64 (CHR ''h'')) = Inl (Undefined_Behaviour ''unterminated string'')"
  using hostname_unterminated [of "replicate 64 (CHR ''h'')"] by simp

end
