(* ===== verification/Inspector.thy ===== *)
theory Inspector
  imports Http Process_Info
begin

text \<open>
  \<open>src/muduo/net/inspect/Inspector.{h,cc}\<close> and \<open>ProcessInspector.cc\<close>: commands served over HTTP.

  The two tables are maps of maps. A command is an empty \<open>boost::function\<close> (\<open>None\<close>) or a function of
  the method and the arguments. What the process commands ask the kernel is the record \<open>proc_env\<close>.
\<close>

section \<open>Inspector\<close>

type_synonym command = "(http_method \<Rightarrow> string list \<Rightarrow> string result) option"

record inspector =
  in_commands :: "(string, (string, command) std_map) std_map"
  in_helps :: "(string, (string, string) std_map) std_map"

text \<open>The loop of \<open>split\<close>: the position of the next slash from \<open>start\<close> on, and the pieces so far.\<close>

function split_loop :: "string \<Rightarrow> nat \<Rightarrow> string list \<Rightarrow> string list" where
  "split_loop str start result =
     (let pos = start + find_char (CHR ''/'') (drop start str) in
      if pos < length str
      then split_loop str (pos + 1) (if pos > start then result @ [take (pos - start) (drop start str)] else result)
      else if start < length str then result @ [drop start str] else result)"
  by pat_completeness auto
termination
  by (relation "measure (\<lambda>(str, start, result). length str - start)") auto

declare split_loop.simps [simp del]

definition split_path :: "string \<Rightarrow> string list" where
  "split_path str = split_loop str 0 []"

text \<open>\<open>m[k]\<close> on a map of maps: the inner map, empty if there is none.\<close>

definition map_at :: "'k \<Rightarrow> ('k, ('j, 'v) std_map) std_map \<Rightarrow> ('j, 'v) std_map" where
  "map_at k m = (case map_of m k of None \<Rightarrow> [] | Some l \<Rightarrow> l)"

definition inspector_add :: "string \<Rightarrow> string \<Rightarrow> command \<Rightarrow> string \<Rightarrow> inspector \<Rightarrow> inspector" where
  "inspector_add module command cb help ins =
     ins\<lparr>in_commands := map_put module (map_put command cb (map_at module (in_commands ins))) (in_commands ins),
         in_helps := map_put module (map_put command help (map_at module (in_helps ins))) (in_helps ins)\<rparr>"

definition help_line :: "string \<Rightarrow> string \<times> string \<Rightarrow> string" where
  "help_line module h = ''/'' @ module @ ''/'' @ fst h @ [CHR 0x09] @ snd h @ [CHR 0x0A]"

definition help_text :: "inspector \<Rightarrow> string" where
  "help_text ins = foldl (\<lambda>result p. foldl (\<lambda>r h. r @ help_line (fst p) h) result (snd p)) [] (in_helps ins)"

definition ok_text :: "string \<Rightarrow> http_response \<Rightarrow> http_response" where
  "ok_text body resp =
     (setContentType ''text/plain'' (resp\<lparr>rs_statusCode := k200Ok, rs_statusMessage := ''OK''\<rparr>))\<lparr>rs_body := body\<rparr>"

definition not_found :: "http_response \<Rightarrow> http_response" where
  "not_found resp = resp\<lparr>rs_statusCode := k404NotFound, rs_statusMessage := ''Not Found''\<rparr>"

definition inspector_onRequest :: "inspector \<Rightarrow> http_request \<Rightarrow> http_response \<Rightarrow> http_response result" where
  "inspector_onRequest ins req resp =
     (if rq_path req = ''/'' then Inr (ok_text (help_text ins) resp)
      else
        let result = split_path (rq_path req) in
        if length result = 0 then Inr (not_found resp)
        else if length result = 1 then Inr (not_found resp)
        else (case map_of (in_commands ins) (result ! 0) of
          None \<Rightarrow> Inr (not_found resp)
        | Some commList \<Rightarrow> (case map_of commList (result ! 1) of
            None \<Rightarrow> Inr (not_found resp)
          | Some it \<Rightarrow> (case it of
              None \<Rightarrow> Inr (not_found resp)
            | Some cb \<Rightarrow> bindE (cb (rq_method req) (drop 2 result)) (\<lambda>body. Inr (ok_text body resp))))))"

section \<open>ProcessInspector\<close>

record proc_env =
  pe_pid :: int
  pe_status :: "string result"
  pe_fds :: "string list option"
  pe_tasks :: "string list option"

definition PI_pid :: "proc_env \<Rightarrow> http_method \<Rightarrow> string list \<Rightarrow> string result" where
  "PI_pid env _ _ = Inr (snprintf 32 (dec_int (pe_pid env)))"

definition PI_procStatus :: "proc_env \<Rightarrow> http_method \<Rightarrow> string list \<Rightarrow> string result" where
  "PI_procStatus env _ _ = pe_status env"

definition PI_openedFiles :: "proc_env \<Rightarrow> http_method \<Rightarrow> string list \<Rightarrow> string result" where
  "PI_openedFiles env _ _ = bindE (openedFiles (pe_fds env)) (\<lambda>n. Inr (snprintf 32 (dec_int n)))"

definition PI_threads :: "proc_env \<Rightarrow> http_method \<Rightarrow> string list \<Rightarrow> string result" where
  "PI_threads env _ _ =
     bindE (process_threads (pe_tasks env)) (\<lambda>threads.
     Inr (foldl (\<lambda>result t. result @ snprintf 32 (dec_int t @ [CHR 0x0A])) [] threads))"

definition registerCommands :: "proc_env \<Rightarrow> inspector \<Rightarrow> inspector" where
  "registerCommands env ins =
     inspector_add ''proc'' ''threads'' (Some (PI_threads env)) ''list /proc/self/task''
    (inspector_add ''proc'' ''opened_files'' (Some (PI_openedFiles env)) ''count /proc/self/fd''
    (inspector_add ''proc'' ''status'' (Some (PI_procStatus env)) ''print /proc/self/status''
    (inspector_add ''proc'' ''pid'' (Some (PI_pid env)) ''print pid'' ins)))"

text \<open>
  The constructor, in the main thread and once; the server starts 0.1 seconds later on its loop. The
  result is the inspector and the global pointer.
\<close>

definition newInspector :: "bool \<Rightarrow> bool \<Rightarrow> proc_env \<Rightarrow> (inspector \<times> bool) result" where
  "newInspector isMainThread g_globalInspector env =
     bindE (assertE isMainThread ''CurrentThread::isMainThread()'') (\<lambda>_.
     bindE (assertE (\<not> g_globalInspector) ''g_globalInspector == 0'') (\<lambda>_.
     Inr (registerCommands env \<lparr>in_commands = [], in_helps = []\<rparr>, True)))"

definition delete_Inspector :: "bool \<Rightarrow> bool result" where
  "delete_Inspector isMainThread = bindE (assertE isMainThread ''CurrentThread::isMainThread()'') (\<lambda>_. Inr False)"

section \<open>Splitting paths\<close>

text \<open>The reference: cut at every slash, then drop the empty pieces.\<close>

definition segments :: "string \<Rightarrow> string list" where
  "segments s = filter (\<lambda>w. w \<noteq> []) (split_on (CHR ''/'') s)"

lemma segments_sep: "CHR ''/'' \<notin> set w \<Longrightarrow> segments (w @ CHR ''/'' # s) = (if w = [] then segments s else w # segments s)"
  by (simp add: segments_def split_on_sep)

lemma segments_free: "CHR ''/'' \<notin> set w \<Longrightarrow> segments w = (if w = [] then [] else [w])"
  by (simp add: segments_def split_on_free)

lemma split_loop_segments: "split_loop str start result = result @ segments (drop start str)"
proof (induction str start result rule: split_loop.induct)
  case (1 str start result)
  let ?rest = "drop start str" and ?c = "CHR ''/''"
  let ?k = "find_char ?c ?rest"
  let ?pos = "start + ?k"
  show ?case
  proof (cases "?pos < length str")
    case True
    then have k: "?k < length ?rest" by simp
    let ?w = "take ?k ?rest"
    have w: "?c \<notin> set ?w" by (rule notin_take_find_char)
    have cut: "?rest = ?w @ ?c # drop (?pos + 1) str"
      using id_take_nth_drop [OF k] nth_find_char [OF k] by (simp add: add.commute)
    have "segments ?rest = (if ?w = [] then segments (drop (?pos + 1) str) else ?w # segments (drop (?pos + 1) str))"
      by (subst cut) (rule segments_sep [OF w])
    moreover have "?w = [] \<longleftrightarrow> \<not> start < ?pos" using k by auto
    ultimately show ?thesis using 1 [OF refl True] True by (subst split_loop.simps) (simp add: Let_def)
  next
    case False
    then have "?c \<notin> set ?rest" using find_char_less_iff [of ?c ?rest] by (simp add: less_diff_conv add.commute)
    then have "segments ?rest = (if ?rest = [] then [] else [?rest])" by (rule segments_free)
    then show ?thesis using False by (subst split_loop.simps) (auto simp: Let_def)
  qed
qed

lemma split_path_segments: "split_path str = segments str"
  by (simp add: split_path_def split_loop_segments)

lemma segments_join:
  assumes "\<forall>w\<in>set ws. w \<noteq> [] \<and> CHR ''/'' \<notin> set w"
  shows "segments (concat (map (\<lambda>w. CHR ''/'' # w) ws)) = ws"
  using assms
proof (induction ws)
  case (Cons w ws)
  have slash: "segments (CHR ''/'' # s) = segments s" for s using segments_sep [of "[]" s] by simp
  have w: "w \<noteq> []" "CHR ''/'' \<notin> set w" and ws: "segments (concat (map (\<lambda>w. CHR ''/'' # w) ws)) = ws"
    using Cons by simp_all
  show ?case
  proof (cases ws)
    case Nil
    then show ?thesis using w by (simp add: slash segments_free)
  next
    case (Cons v vs)
    then show ?thesis using w ws segments_sep [of w] by (simp add: slash)
  qed
qed (simp add: segments_def)

section \<open>The command table\<close>

definition in_find :: "string \<Rightarrow> string \<Rightarrow> inspector \<Rightarrow> command option" where
  "in_find m c ins = map_of (map_at m (in_commands ins)) c"

lemma map_at_put: "map_at k (map_put j v m) = (if k = j then v else map_at k m)"
  by (simp add: map_at_def)

lemma in_find_add: "in_find m c (inspector_add m' c' cb h ins) = (if m = m' \<and> c = c' then Some cb else in_find m c ins)"
  by (simp add: in_find_def inspector_add_def map_at_put)

text \<open>Any sequence of registrations: module, command, function and help.\<close>

definition add_all :: "(string \<times> string \<times> command \<times> string) list \<Rightarrow> inspector \<Rightarrow> inspector" where
  "add_all adds ins = foldl (\<lambda>i (m, c, cb, h). inspector_add m c cb h i) ins adds"

definition registered :: "(string \<times> string \<times> command \<times> string) list \<Rightarrow> string \<Rightarrow> string \<Rightarrow> command option" where
  "registered adds m c = map_of (rev (map (\<lambda>(m, c, cb, h). ((m, c), cb)) adds)) (m, c)"

lemma in_find_add_all: "in_find m c (add_all adds \<lparr>in_commands = [], in_helps = []\<rparr>) = registered adds m c"
proof (induction adds rule: rev_induct)
  case Nil
  then show ?case by (simp add: in_find_def add_all_def registered_def map_at_def)
next
  case (snoc a adds)
  obtain m' c' cb h where a: "a = (m', c', cb, h)" by (cases a)
  have "add_all (adds @ [a]) ins = inspector_add m' c' cb h (add_all adds ins)" for ins
    by (simp add: add_all_def a)
  then show ?case using snoc by (simp add: in_find_add registered_def a)
qed

text \<open>The dispatch in terms of the table and the segments of the path.\<close>

lemma onRequest_find:
  assumes "rq_path req \<noteq> ''/''"
  shows "inspector_onRequest ins req resp = (case segments (rq_path req) of
     m # c # args \<Rightarrow> (case in_find m c ins of
       Some (Some cb) \<Rightarrow> bindE (cb (rq_method req) args) (\<lambda>body. Inr (ok_text body resp))
     | _ \<Rightarrow> Inr (not_found resp))
   | _ \<Rightarrow> Inr (not_found resp))"
proof (cases "segments (rq_path req)")
  case Nil
  then show ?thesis using assms by (simp add: inspector_onRequest_def split_path_segments)
next
  case (Cons m ws)
  show ?thesis
  proof (cases ws)
    case Nil
    then show ?thesis using assms Cons by (simp add: inspector_onRequest_def split_path_segments)
  next
    case (Cons c args)
    then show ?thesis using assms \<open>segments (rq_path req) = m # ws\<close>
      by (simp add: inspector_onRequest_def split_path_segments in_find_def map_at_def Let_def numeral_2_eq_2
          split: option.split)
  qed
qed

lemma onRequest_registered:
  assumes "rq_path req = p" and "p \<noteq> ''/''" and "segments p = m # c # args" and "in_find m c ins = Some (Some cb)"
    and "cb (rq_method req) args = Inr body"
  shows "inspector_onRequest ins req resp = Inr (ok_text body resp)"
  using assms by (simp add: onRequest_find)

text \<open>The help page: one line for each registered command, in the order of module and command.\<close>

lemma foldl_append: "foldl (\<lambda>r x. r @ f x) acc xs = acc @ concat (map f xs)"
  by (induction xs arbitrary: acc) auto

lemma help_text_lines: "help_text ins = concat (map (\<lambda>p. concat (map (help_line (fst p)) (snd p))) (in_helps ins))"
  unfolding help_text_def by (simp add: foldl_append)

text \<open>Both tables stay maps, with the same keys.\<close>

definition in_inv :: "inspector \<Rightarrow> bool" where
  "in_inv ins \<longleftrightarrow> map_valid (in_commands ins) \<and> map_valid (in_helps ins) \<and>
     (\<forall>m l. map_of (in_commands ins) m = Some l \<longrightarrow> map_valid l) \<and>
     (\<forall>m l. map_of (in_helps ins) m = Some l \<longrightarrow> map_valid l) \<and>
     (\<forall>m c. map_of (map_at m (in_commands ins)) c = None \<longleftrightarrow> map_of (map_at m (in_helps ins)) c = None)"

lemma in_inv_add: "in_inv ins \<Longrightarrow> in_inv (inspector_add m c cb h ins)"
  by (auto simp: in_inv_def inspector_add_def map_at_put map_at_def split: if_splits option.splits)

lemma in_inv_add_all: "in_inv ins \<Longrightarrow> in_inv (add_all adds ins)"
  by (induction adds arbitrary: ins) (auto simp: add_all_def in_inv_add)

text \<open>
  The inspector implements a table of commands: after any sequence of registrations a request whose
  path, cut at its slashes with empty pieces dropped, is a module, a command and arguments is answered
  by the function last registered for them, called with the method and the arguments; a path with less
  than two pieces, an unknown command and an empty function are answered 404 Not Found; a failing
  function fails the request and nothing else does.
\<close>

theorem inspector_dispatches:
  assumes "rq_path req \<noteq> ''/''" and "ins = add_all adds \<lparr>in_commands = [], in_helps = []\<rparr>"
  shows "inspector_onRequest ins req resp = (case segments (rq_path req) of
     m # c # args \<Rightarrow> (case registered adds m c of
       Some (Some cb) \<Rightarrow> bindE (cb (rq_method req) args) (\<lambda>body. Inr (ok_text body resp))
     | _ \<Rightarrow> Inr (not_found resp))
   | _ \<Rightarrow> Inr (not_found resp))"
  unfolding onRequest_find [OF assms(1)] assms(2) in_find_add_all ..

theorem inspector_dispatches_witness:
  "inspector_onRequest (add_all [(''a'', ''b'', Some (\<lambda>m args. Inr (concat args)), ''h'')] \<lparr>in_commands = [], in_helps = []\<rparr>)
     (newHttpRequest\<lparr>rq_path := ''/a//b/x/y''\<rparr>) (newHttpResponse False) = Inr (ok_text ''xy'' (newHttpResponse False))"
proof -
  let ?req = "newHttpRequest\<lparr>rq_path := ''/a//b/x/y''\<rparr>"
  have p: "rq_path ?req \<noteq> ''/''" by simp
  have s: "segments (rq_path ?req) = [''a'', ''b'', ''x'', ''y'']" by (simp add: segments_def)
  show ?thesis unfolding inspector_dispatches [OF p refl] s by (simp add: registered_def)
qed

text \<open>
  \<open>split\<close>, which its author marks as buggy, is right: it is the cut at every slash without the empty
  pieces, for every string, and gives back the pieces of a path made of non-empty pieces without slash,
  with or without a slash at the end.
\<close>

theorem inspector_split_exact:
  "split_path str = filter (\<lambda>w. w \<noteq> []) (split_on (CHR ''/'') str) \<and>
   (\<forall>ws. (\<forall>w\<in>set ws. w \<noteq> [] \<and> CHR ''/'' \<notin> set w) \<longrightarrow>
      split_path (concat (map (\<lambda>w. CHR ''/'' # w) ws)) = ws \<and>
      (\<forall>u. u \<noteq> [] \<and> CHR ''/'' \<notin> set u \<longrightarrow> split_path (u @ concat (map (\<lambda>w. CHR ''/'' # w) ws) @ ''/'') = u # ws))"
proof (intro conjI allI impI; (elim conjE)?)
  show "split_path str = filter (\<lambda>w. w \<noteq> []) (split_on (CHR ''/'') str)"
    by (simp add: split_path_segments segments_def)
  fix ws assume ws: "\<forall>w\<in>set ws. w \<noteq> [] \<and> CHR ''/'' \<notin> set w"
  then show "split_path (concat (map (\<lambda>w. CHR ''/'' # w) ws)) = ws" by (simp add: split_path_segments segments_join)
  show "split_path (u @ concat (map (\<lambda>w. CHR ''/'' # w) ws) @ ''/'') = u # ws" if "u \<noteq> []" "CHR ''/'' \<notin> set u" for u
    using ws that
  proof (induction ws arbitrary: u)
    case Nil
    then show ?case using segments_sep [of u "[]"] by (simp add: split_path_segments segments_def)
  next
    case (Cons w ws)
    then have "segments (w @ concat (map (\<lambda>w. CHR ''/'' # w) ws) @ ''/'') = w # ws" by (simp add: split_path_segments)
    then show ?case using Cons.prems segments_sep [of u] by (simp add: split_path_segments)
  qed
qed

theorem inspector_split_exact_witness:
  "split_path ''/proc/pid'' = [''proc'', ''pid'']"
  using inspector_split_exact [of "''/proc/pid''"] by simp

text \<open>The inspector the constructor makes.\<close>

lemma newInspector_add_all:
  assumes "newInspector main g env = Inr (ins, g')"
  shows "ins = add_all [(''proc'', ''pid'', Some (PI_pid env), ''print pid''),
    (''proc'', ''status'', Some (PI_procStatus env), ''print /proc/self/status''),
    (''proc'', ''opened_files'', Some (PI_openedFiles env), ''count /proc/self/fd''),
    (''proc'', ''threads'', Some (PI_threads env), ''list /proc/self/task'')] \<lparr>in_commands = [], in_helps = []\<rparr>"
  using assms by (auto simp: newInspector_def registerCommands_def add_all_def)

lemma in_find_newInspector:
  assumes "newInspector main g env = Inr (ins, g')"
  shows "in_find ''proc'' ''pid'' ins = Some (Some (PI_pid env))"
    and "in_find ''proc'' ''threads'' ins = Some (Some (PI_threads env))"
  unfolding newInspector_add_all [OF assms] in_find_add_all by (simp_all add: registered_def)

text \<open>The value of a field that counts is that of its last occurrence; \<open>HttpServer::onRequest\<close> closes as HTTP has it.\<close>

definition last_value :: "string \<Rightarrow> (string \<times> string) list \<Rightarrow> string" where
  "last_value f hs = (case filter (\<lambda>h. fst h = f) (rev hs) of [] \<Rightarrow> [] | h # _ \<Rightarrow> snd h)"

definition closing :: "http_version \<Rightarrow> (string \<times> string) list \<Rightarrow> bool" where
  "closing v hs \<longleftrightarrow> last_value ''Connection'' hs = ''close'' \<or> v = kHttp10 \<and> last_value ''Connection'' hs \<noteq> ''Keep-Alive''"

lemma map_of_fold_put: "map_of (fold (\<lambda>h. map_put (fst h) (snd h)) hs m) f =
    (case filter (\<lambda>h. fst h = f) (rev hs) of [] \<Rightarrow> map_of m f | h # _ \<Rightarrow> Some (snd h))"
  by (induction hs rule: rev_induct) (auto split: list.splits)

lemma wants_close_headers:
  "rq_headers rq = [] \<Longrightarrow> wants_close (add_headers hs (rq\<lparr>rq_version := v\<rparr>)) = closing v hs"
  by (auto simp: wants_close_def closing_def last_value_def add_headers_def getHeader_def map_of_fold_put Let_def split: list.splits)

text \<open>The response as text.\<close>

definition plain_response :: "bool \<Rightarrow> string \<Rightarrow> string" where
  "plain_response close body = ''HTTP/1.1 200 OK'' @ kCRLF @
     (if close then ''Connection: close'' @ kCRLF
      else ''Content-Length: '' @ dec (length body) @ kCRLF @ ''Connection: Keep-Alive'' @ kCRLF) @
     ''Content-Type: text/plain'' @ kCRLF @ kCRLF @ body"

lemma response_ok_text: "response_text (ok_text body (newHttpResponse close)) = plain_response close body"
proof -
  have "dec 200 = ''200''" by code_simp
  then show ?thesis by (simp add: response_text_def plain_response_def ok_text_def setContentType_def addHeader_response_def newHttpResponse_def
      map_put_def map_erase_def render_header_def)
qed

text \<open>
  C17. The inspector over its HTTP server: a connection on which a whole request for a registered command
  has arrived, with any headers and any number of arguments, is answered with the response 200 OK, in plain text, whose
  body is the result of the command. The connection is closed behind it, and the response says so, exactly when the last \<open>Connection\<close> header is
  \<open>close\<close>, or the version is 1.0 and that header is not \<open>Keep-Alive\<close>; otherwise the response has the length of the body and says \<open>Keep-Alive\<close>. The bytes after
  the request stay in the buffer, and the parser is as it was at first, except for the version, which \<open>HttpRequest::swap\<close> leaves out, so that it is
  that of the request.
\<close>

theorem inspector_over_http:
  assumes "buf_ok (t_in conn)" and "t_state conn = kConnected"
    and "contents (t_in conn) = render_request meth (concat (map (\<lambda>w. CHR ''/'' # w) (m # c # args))) v hs @ rest"
    and "meth \<noteq> kInvalid" and "v \<noteq> kUnknown" and "list_all header_ok hs"
    and "\<forall>w\<in>set (m # c # args). w \<noteq> [] \<and> set w \<inter> {CHR ''/'', CHR '' '', CHR 0x0D} = {}"
    and "in_find m c ins = Some (Some cb)" and "cb meth args = Inr body" and "length body < 10 ^ 9"
  shows "\<exists>b'. buf_ok b' \<and> contents b' = rest \<and>
    http_onMessage kw (inspector_onRequest ins) t conn newHttpContext =
      Some (bindE (sendInLoop kw (plain_response (closing v hs) body) (conn\<lparr>t_in := b'\<rparr>)) (\<lambda>k.
        Inr (if closing v hs then shutdown True k else k,
          \<lparr>hc_state = kExpectRequestLine, hc_request = \<lparr>rq_method = kInvalid, rq_version = v, rq_path = [], rq_receiveTime = 0, rq_headers = []\<rparr>\<rparr>)))"
proof -
  let ?p = "concat (map (\<lambda>w. CHR ''/'' # w) (m # c # args))"
  have seg: "segments ?p = m # c # args" by (rule segments_join) (use assms(7) in auto)
  have free: "CHR '' '' \<notin> set ?p" "CHR 0x0D \<notin> set ?p" using assms(7) by auto
  have np: "?p \<noteq> ''/''" using assms(7) by auto
  have init: "hc_state newHttpContext = kExpectRequestLine" "rq_method (hc_request newHttpContext) = kInvalid"
    by (simp_all add: newHttpContext_def newHttpRequest_def)
  let ?ctx = "newHttpContext\<lparr>hc_state := kGotAll, hc_request := add_headers hs ((hc_request newHttpContext)\<lparr>rq_method := meth,
      rq_path := ?p, rq_version := v, rq_receiveTime := t\<rparr>)\<rparr>"
  have spec: "http_lines (contents (t_in conn)) newHttpContext t = Inr (True, rest, ?ctx)"
    unfolding assms(3) by (rule http_lines_render) (use assms(4-6) free init in auto)
  let ?close = "wants_close (hc_request ?ctx)"
  let ?resp = "ok_text body (newHttpResponse ?close)"
  have cb: "inspector_onRequest ins (hc_request ?ctx) (newHttpResponse ?close) = Inr ?resp"
    by (rule onRequest_registered [OF _ np seg assms(8)]) (use assms(9) in \<open>simp_all add: add_headers_def\<close>)
  have "length (dec (length body)) \<le> 9" by (rule length_dec_le) (use assms(10) in auto)
  then have len: "length (response_text ?resp) < 2 ^ 31"
    using assms(10) length_dec_status [of k200Ok]
    by (simp add: response_text_def ok_text_def setContentType_def addHeader_response_def newHttpResponse_def
        map_put_def map_erase_def render_header_def kCRLF_def)
  have st: "hc_state newHttpContext = kExpectRequestLine \<or> hc_state newHttpContext = kExpectHeaders" using init by simp
  have "gotAll ?ctx" by (simp add: gotAll_def)
  from onMessage_complete [where cb = "inspector_onRequest ins" and kw = kw, OF assms(1,2) st spec this cb len] obtain b' where
    b': "buf_ok b'" "contents b' = rest" and run: "http_onMessage kw (inspector_onRequest ins) t conn newHttpContext =
      Some (bindE (sendInLoop kw (response_text ?resp) (conn\<lparr>t_in := b'\<rparr>)) (\<lambda>k.
        Inr (if rs_closeConnection ?resp then shutdown True k else k, reset_context ?ctx)))" by blast
  have close: "rs_closeConnection (ok_text body (newHttpResponse x)) = x" for x
    by (simp add: ok_text_def setContentType_def addHeader_response_def newHttpResponse_def)
  have closes: "?close = closing v hs"
    using wants_close_headers [of "(hc_request newHttpContext)\<lparr>rq_method := meth, rq_path := ?p, rq_receiveTime := t\<rparr>" hs v]
    by (simp add: newHttpContext_def newHttpRequest_def)
  have "reset_context ?ctx = \<lparr>hc_state = kExpectRequestLine,
      hc_request = \<lparr>rq_method = kInvalid, rq_version = v, rq_path = [], rq_receiveTime = 0, rq_headers = []\<rparr>\<rparr>"
    by (simp add: reset_context_def swap_request_def newHttpContext_def newHttpRequest_def add_headers_def)
  with b' run [unfolded close closes response_ok_text] show ?thesis by (intro exI [of _ b']) simp
qed

text \<open>A request of version 1.1 that asks twice about the connection; the last header counts.\<close>

theorem inspector_over_http_witness:
  "\<exists>ins g conn b'. newInspector True False \<lparr>pe_pid = 77, pe_status = Inr [], pe_fds = None, pe_tasks = None\<rparr> =
      Inr (ins, g) \<and> contents b' = ''GET'' \<and>
    contents (t_in conn) = render_request kGet ''/proc/pid'' kHttp11 [(''Connection'', ''Keep-Alive''), (''Connection'', ''close'')] @ ''GET'' \<and>
    http_onMessage demo_write (inspector_onRequest ins) 0 conn newHttpContext =
      Some (bindE (sendInLoop demo_write (''HTTP/1.1 200 OK'' @ kCRLF @ ''Connection: close'' @ kCRLF @ ''Content-Type: text/plain'' @ kCRLF @ kCRLF @ ''77'')
        (conn\<lparr>t_in := b'\<rparr>)) (\<lambda>k. Inr (shutdown True k,
          \<lparr>hc_state = kExpectRequestLine, hc_request = \<lparr>rq_method = kInvalid, rq_version = kHttp11, rq_path = [], rq_receiveTime = 0, rq_headers = []\<rparr>\<rparr>)))"
proof -
  let ?env = "\<lparr>pe_pid = 77, pe_status = Inr [], pe_fds = None, pe_tasks = None\<rparr> :: proc_env"
  let ?hs = "[(''Connection'', ''Keep-Alive''), (''Connection'', ''close'')]"
  let ?req = "render_request kGet ''/proc/pid'' kHttp11 ?hs @ ''GET''"
  obtain ins g where i: "newInspector True False ?env = Inr (ins, g)" by (simp add: newInspector_def)
  have "buf_room newBuffer (length ?req)" by (simp add: render_request_def render_header_def vector_max_def kCheapPrepend_def kCRLF_def)
  from appendBuf_ok [OF buf_ok_newBuffer this] obtain b where b: "buf_ok b" "contents b = ?req" by auto
  let ?conn = "(newConn 1 7 False False)\<lparr>t_state := kConnected, t_in := b\<rparr>"
  have d: "dec 77 = ''77''" by code_simp
  have pid: "PI_pid ?env kGet [] = Inr ''77''" by (simp add: PI_pid_def dec_int_def d snprintf_def)
  have hs: "list_all header_ok ?hs" by (simp add: header_ok_def trimmed_def isspace_def)
  have c: "closing kHttp11 ?hs" by (simp add: closing_def last_value_def)
  have "contents (t_in ?conn) = render_request kGet (concat (map (\<lambda>w. CHR ''/'' # w) (''proc'' # ''pid'' # []))) kHttp11 ?hs @ ''GET''"
    using b by simp
  from inspector_over_http [OF _ _ this _ _ hs _ in_find_newInspector(1) [OF i] pid, of demo_write 0] b c
  show ?thesis using i by (intro exI [of _ ins] exI [of _ g] exI [of _ ?conn]) (auto simp: plain_response_def)
qed

text \<open>
  The help page, from the registrations alone: the modules in order, in each module its commands in order, and for a command
  the help given when it was last registered.
\<close>

definition last_help :: "(string \<times> string \<times> command \<times> string) list \<Rightarrow> string \<Rightarrow> string \<Rightarrow> string option" where
  "last_help adds m c = map_of (rev (map (\<lambda>(m, c, cb, h). ((m, c), h)) adds)) (m, c)"

definition modules :: "(string \<times> string \<times> command \<times> string) list \<Rightarrow> string list" where
  "modules adds = sort (remdups (map fst adds))"

definition commands_of :: "(string \<times> string \<times> command \<times> string) list \<Rightarrow> string \<Rightarrow> string list" where
  "commands_of adds m = sort (remdups (map (\<lambda>(m, c, cb, h). c) (filter (\<lambda>(m', c, cb, h). m' = m) adds)))"

lemma map_valid_list:
  assumes "map_valid l"
  shows "l = map (\<lambda>k. (k, the (map_of l k))) (map fst l)"
proof -
  have "(fst p, the (map_of l (fst p))) = p" if "p \<in> set l" for p
  proof -
    have "map_of l (fst p) = Some (snd p)" by (rule map_of_is_SomeI) (use that assms in \<open>simp_all add: map_valid_def\<close>)
    then show ?thesis by simp
  qed
  then show ?thesis by (simp add: map_idI comp_def)
qed

lemma map_valid_keys:
  assumes "map_valid l" and "\<And>k. map_of l k \<noteq> None \<longleftrightarrow> k \<in> set ks"
  shows "map fst l = sort (remdups ks)"
proof (rule sorted_distinct_set_unique)
  have "k \<in> set (map fst l) \<longleftrightarrow> k \<in> set ks" for k using assms(2) [of k] by (simp add: map_of_eq_None_iff)
  then show "set (map fst l) = set (sort (remdups ks))" by auto
qed (use assms(1) in \<open>simp_all add: map_valid_def\<close>)

lemma helps_find:
  "map_of (map_at m (in_helps (add_all adds \<lparr>in_commands = [], in_helps = []\<rparr>))) c = last_help adds m c"
  "map_of (in_helps (add_all adds \<lparr>in_commands = [], in_helps = []\<rparr>)) m \<noteq> None \<longleftrightarrow> m \<in> set (map fst adds)"
proof (induction adds rule: rev_induct)
  case Nil
  { case 1 then show ?case by (simp add: add_all_def last_help_def map_at_def) }
  { case 2 then show ?case by (simp add: add_all_def) }
next
  case (snoc a adds)
  obtain m' c' cb h where a: "a = (m', c', cb, h)" by (cases a)
  have s: "add_all (adds @ [a]) ins = inspector_add m' c' cb h (add_all adds ins)" for ins by (simp add: add_all_def a)
  { case 1 show ?case unfolding s using snoc(1) by (auto simp: inspector_add_def map_at_put last_help_def a) }
  { case 2 show ?case unfolding s using snoc(2) by (simp add: inspector_add_def a) }
qed

lemma help_page:
  "help_text (add_all adds \<lparr>in_commands = [], in_helps = []\<rparr>) =
     concat (map (\<lambda>m. concat (map (\<lambda>c. help_line m (c, the (last_help adds m c))) (commands_of adds m))) (modules adds))"
proof -
  let ?ins = "add_all adds \<lparr>in_commands = [], in_helps = []\<rparr>"
  let ?at = "\<lambda>m. map_at m (in_helps ?ins)"
  have inv: "in_inv ?ins" by (rule in_inv_add_all) (simp add: in_inv_def map_at_def)
  then have v: "map_valid (in_helps ?ins)" "map_valid (?at m)" for m by (auto simp: in_inv_def map_at_def split: option.splits)
  have "map fst (in_helps ?ins) = modules adds" unfolding modules_def by (rule map_valid_keys [OF v(1) helps_find(2)])
  then have outer: "in_helps ?ins = map (\<lambda>m. (m, the (map_of (in_helps ?ins) m))) (modules adds)" using map_valid_list [OF v(1)] by simp
  have the_at: "the (map_of (in_helps ?ins) m) = ?at m" if "m \<in> set (modules adds)" for m
    using that helps_find(2) [of adds m] by (auto simp: map_at_def modules_def)
  have "map fst (?at m) = commands_of adds m" for m
    unfolding commands_of_def by (rule map_valid_keys [OF v(2)]) (auto simp: helps_find(1) last_help_def map_of_eq_None_iff image_iff split: prod.splits; force)
  then have inner: "?at m = map (\<lambda>c. (c, the (last_help adds m c))) (commands_of adds m)" for m
    using map_valid_list [OF v(2), of m] by (simp add: helps_find(1))
  have "help_text ?ins = concat (map (\<lambda>m. concat (map (help_line m) (the (map_of (in_helps ?ins) m)))) (modules adds))"
    unfolding help_text_lines by (subst outer) (simp add: comp_def)
  also have "map (\<lambda>m. concat (map (help_line m) (the (map_of (in_helps ?ins) m)))) (modules adds) =
      map (\<lambda>m. concat (map (\<lambda>c. help_line m (c, the (last_help adds m c))) (commands_of adds m))) (modules adds)"
    by (rule map_cong [OF refl]) (simp only: the_at, subst inner, simp add: comp_def)
  finally show ?thesis .
qed

text \<open>
  C26. The inspector answers every request from the registrations made so far, of which the last one for a module and command counts. The root path is
  answered 200 OK with the help page: for every module registered, in ascending order, and every command registered in it, in ascending
  order, one line with a slash, the module, a slash, the command, a tabulator, the help last given for the command and a line feed, and
  nothing else. Any other path is cut at its slashes and empty pieces are dropped; if the first two pieces are a module and a command
  registered with a function, the function last registered is called with the method and the other pieces and its result is the body of a 200 OK,
  or its failure that of the request; everything else is answered 404 Not Found.
\<close>

theorem inspector_serves_table:
  "inspector_onRequest (add_all adds \<lparr>in_commands = [], in_helps = []\<rparr>) req resp =
    (let okay = (\<lambda>body. Inr \<lparr>rs_headers = map_put ''Content-Type'' ''text/plain'' (rs_headers resp), rs_statusCode = k200Ok,
           rs_statusMessage = ''OK'', rs_closeConnection = rs_closeConnection resp, rs_body = body\<rparr>);
         missing = Inr (resp\<lparr>rs_statusCode := k404NotFound, rs_statusMessage := ''Not Found''\<rparr>) in
     if rq_path req = ''/'' then
       okay (concat (map (\<lambda>m. concat (map (\<lambda>c. ''/'' @ m @ ''/'' @ c @ [CHR 0x09] @ the (last_help adds m c) @ [CHR 0x0A])
         (commands_of adds m))) (modules adds)))
     else (case filter (\<lambda>w. w \<noteq> []) (split_on (CHR ''/'') (rq_path req)) of
         m # c # args \<Rightarrow> (case registered adds m c of
           Some (Some cb) \<Rightarrow> bindE (cb (rq_method req) args) okay
         | _ \<Rightarrow> missing)
       | _ \<Rightarrow> missing))"
proof -
  have ok: "(\<lambda>body. Inr (ok_text body resp)) = (\<lambda>body. Inr \<lparr>rs_headers = map_put ''Content-Type'' ''text/plain'' (rs_headers resp),
      rs_statusCode = k200Ok, rs_statusMessage = ''OK'', rs_closeConnection = rs_closeConnection resp, rs_body = body\<rparr>)"
    by (cases resp) (simp add: ok_text_def setContentType_def addHeader_response_def)
  show ?thesis
  proof (cases "rq_path req = ''/''")
    case True
    then have "inspector_onRequest (add_all adds \<lparr>in_commands = [], in_helps = []\<rparr>) req resp =
        Inr (ok_text (help_text (add_all adds \<lparr>in_commands = [], in_helps = []\<rparr>)) resp)" by (simp add: inspector_onRequest_def)
    then show ?thesis using True fun_cong [OF ok] by (simp add: help_page help_line_def Let_def)
  next
    case False
    then show ?thesis unfolding onRequest_find [OF False] in_find_add_all segments_def not_found_def ok Let_def by simp
  qed
qed

end
