(* ===== verification/Servers.thy ===== *)
theory Servers
  imports Http_Service Rpc_Service Inspector Tcp_Server
begin

text \<open>
  The server objects built on \<open>TcpServer\<close> (\<open>src/muduo/net/http/HttpServer.cc\<close>,
  \<open>protorpc/RpcServer.cc\<close>, \<open>inspect/Inspector.cc\<close>): their construction and start, and an HTTP server with
  many clients, whose segments reach it in any order.

  The bound member functions \<open>onConnection\<close> and \<open>onMessage\<close> they install in the \<open>TcpServer\<close> are those of
  \<open>Http_Service\<close> and \<open>Rpc_Service\<close>.
\<close>

section \<open>Objects\<close>

record http_server =
  hv_server :: tserver
  hv_httpCallback :: http_callback

definition newHttpServer :: "nat \<Rightarrow> sockaddr_in \<Rightarrow> string \<Rightarrow> acceptor \<Rightarrow> http_server result" where
  "newHttpServer loop listenAddr name acc =
     bindE (newTcpServer loop listenAddr name acc) (\<lambda>server.
     Inr \<lparr>hv_server = server, hv_httpCallback = defaultHttpCallback\<rparr>)"

definition setHttpCallback :: "http_callback \<Rightarrow> http_server \<Rightarrow> http_server" where
  "setHttpCallback cb hv = hv\<lparr>hv_httpCallback := cb\<rparr>"

definition HttpServer_setThreadNum :: "int \<Rightarrow> http_server \<Rightarrow> http_server result" where
  "HttpServer_setThreadNum num hv =
     bindE (setThreadNum num (hv_server hv)) (\<lambda>s. Inr (hv\<lparr>hv_server := s\<rparr>))"

definition HttpServer_start :: "bool \<Rightarrow> (nat \<Rightarrow> nat) \<Rightarrow> errno + unit \<Rightarrow> http_server \<Rightarrow> http_server result" where
  "HttpServer_start inLoop new listenRes hv =
     bindE (TcpServer_start inLoop new False listenRes (hv_server hv)) (\<lambda>s. Inr (hv\<lparr>hv_server := s\<rparr>))"

record rpc_server =
  rv_server :: tserver
  rv_services :: "(string, service) std_map"

definition newRpcServer :: "nat \<Rightarrow> sockaddr_in \<Rightarrow> acceptor \<Rightarrow> rpc_server result" where
  "newRpcServer loop listenAddr acc =
     bindE (newTcpServer loop listenAddr ''RpcServer'' acc) (\<lambda>server. Inr \<lparr>rv_server = server, rv_services = []\<rparr>)"

definition RpcServer_registerService :: "string \<Rightarrow> service \<Rightarrow> rpc_server \<Rightarrow> rpc_server" where
  "RpcServer_registerService full_name service rv = rv\<lparr>rv_services := registerService full_name service (rv_services rv)\<rparr>"

definition RpcServer_start :: "bool \<Rightarrow> (nat \<Rightarrow> nat) \<Rightarrow> errno + unit \<Rightarrow> rpc_server \<Rightarrow> rpc_server result" where
  "RpcServer_start inLoop new listenRes rv =
     bindE (TcpServer_start inLoop new False listenRes (rv_server rv)) (\<lambda>s. Inr (rv\<lparr>rv_server := s\<rparr>))"

text \<open>
  The inspector as an object: its tables and its HTTP server, whose callback is bound to the object and so sees the
  tables as they are when a request arrives. The constructor leaves the start to a timer of the loop.
\<close>

record inspector_server =
  is_server :: http_server
  is_inspector :: inspector

definition InspectorServer ::
  "bool \<Rightarrow> bool \<Rightarrow> proc_env \<Rightarrow> nat \<Rightarrow> sockaddr_in \<Rightarrow> string \<Rightarrow> acceptor \<Rightarrow> (inspector_server \<times> bool) result" where
  "InspectorServer isMainThread g_globalInspector env loop httpAddr name acc =
     bindE (newHttpServer loop httpAddr (''Inspector:'' @ name) acc) (\<lambda>server.
     bindE (newInspector isMainThread g_globalInspector env) (\<lambda>(ins, g).
     Inr (\<lparr>is_server = setHttpCallback (inspector_onRequest ins) server, is_inspector = ins\<rparr>, g)))"

definition InspectorServer_add :: "string \<Rightarrow> string \<Rightarrow> command \<Rightarrow> string \<Rightarrow> inspector_server \<Rightarrow> inspector_server" where
  "InspectorServer_add m c cb help isv =
     (let ins = inspector_add m c cb help (is_inspector isv) in
      isv\<lparr>is_inspector := ins, is_server := setHttpCallback (inspector_onRequest ins) (is_server isv)\<rparr>)"

definition Inspector_start :: "bool \<Rightarrow> (nat \<Rightarrow> nat) \<Rightarrow> errno + unit \<Rightarrow> inspector_server \<Rightarrow> inspector_server result" where
  "Inspector_start inLoop new listenRes isv =
     bindE (HttpServer_start inLoop new listenRes (is_server isv)) (\<lambda>s. Inr (isv\<lparr>is_server := s\<rparr>))"

text \<open>
  Whatever server it is, the first start has to happen in the thread of the loop: from another thread it ends the
  process, although \<open>start\<close> of \<open>TcpServer\<close> is said to be thread safe. In the loop it makes the loop threads asked
  for and listens, and a second start changes nothing.
\<close>

lemma server_start_fresh:
  assumes "newTcpServer loop addr name acc = Inr s0" and "\<not> ac_listenning acc" and "setThreadNum (int n) s0 = Inr s"
  shows "TcpServer_start False new cb listenRes s = Inl (FatalLog ''EventLoop::abortNotInLoopThread'')"
    and "TcpServer_start True new cb (Inr ()) s = Inr s' \<Longrightarrow> ac_listenning (sv_acceptor s') \<and> ac_reading (sv_acceptor s') \<and>
      tp_loops (sv_pool s') = map new [0..<n] \<and> TcpServer_start inLoop new cb r s' = Inr s'"
    and "\<exists>s'. TcpServer_start True new cb (Inr ()) s = Inr s'"
  using assms by (auto simp: newTcpServer_def setThreadNum_def TcpServer_start_def TP_start_def newEventLoopThreadPool_def
      sv_listen_def Acceptor_listen_def listenOrDie_def Let_def)

text \<open>An inspector answers with its current tables, before and after its server starts.\<close>

lemma inspector_callback:
  "InspectorServer main g env loop addr name acc = Inr (isv, g') \<Longrightarrow>
     hv_httpCallback (is_server isv) = inspector_onRequest (is_inspector isv)"
  "hv_httpCallback (is_server (InspectorServer_add m c cb help isv)) = inspector_onRequest (is_inspector (InspectorServer_add m c cb help isv))"
  "Inspector_start inLoop new r isv = Inr isv' \<Longrightarrow> is_inspector isv' = is_inspector isv \<and>
     hv_httpCallback (is_server isv') = hv_httpCallback (is_server isv)"
  by (auto simp: InspectorServer_def setHttpCallback_def InspectorServer_add_def Inspector_start_def HttpServer_start_def Let_def
      split: prod.splits)

section \<open>Many clients\<close>

text \<open>Segments of all connections in the order in which the loops take them up.\<close>

fun http_serve ::
  "kernel_write \<Rightarrow> http_callback \<Rightarrow> (nat \<times> int \<times> string) list \<Rightarrow> (nat \<rightharpoonup> http_end) \<Rightarrow> (nat \<rightharpoonup> http_end) result option" where
  "http_serve kw cb [] conns = Some (Inr conns)"
| "http_serve kw cb ((cid, t, x) # evs) conns = (case conns cid of
     None \<Rightarrow> http_serve kw cb evs conns
   | Some s \<Rightarrow> (case http_handleRead kw cb t (Inr x) s of
       None \<Rightarrow> None
     | Some (Inl e) \<Rightarrow> Some (Inl e)
     | Some (Inr s') \<Rightarrow> http_serve kw cb evs (conns(cid \<mapsto> s'))))"

definition of_client :: "nat \<Rightarrow> (nat \<times> int \<times> string) list \<Rightarrow> (int \<times> string) list" where
  "of_client cid evs = map snd (filter (\<lambda>ev. fst ev = cid) evs)"

lemma http_serve_each:
  assumes "\<And>cid s. conns cid = Some s \<Longrightarrow> \<exists>s'. http_segments kw cb (of_client cid evs) s = Some (Inr s')"
  shows "\<exists>conns'. http_serve kw cb evs conns = Some (Inr conns') \<and>
    (\<forall>cid s. conns cid = Some s \<longrightarrow> http_segments kw cb (of_client cid evs) s = Some (Inr (the (conns' cid))) \<and> conns' cid \<noteq> None)"
  using assms
proof (induction evs arbitrary: conns)
  case Nil
  then show ?case by (auto simp: of_client_def)
next
  case (Cons ev evs)
  obtain cid t x where ev: "ev = (cid, t, x)" by (cases ev)
  have oc: "of_client c (ev # evs) = (if c = cid then (t, x) # of_client c evs else of_client c evs)" for c
    by (simp add: of_client_def ev)
  show ?case
  proof (cases "conns cid")
    case None
    have seg: "of_client c (ev # evs) = of_client c evs" if "conns c = Some s" for c s
      using None that by (cases "c = cid") (simp_all add: oc)
    then have "\<exists>s'. http_segments kw cb (of_client c evs) s = Some (Inr s')" if "conns c = Some s" for c s
      using Cons.prems [OF that] that by simp
    from Cons.IH [OF this] obtain conns' where "http_serve kw cb evs conns = Some (Inr conns')"
      "\<forall>c s. conns c = Some s \<longrightarrow> http_segments kw cb (of_client c evs) s = Some (Inr (the (conns' c))) \<and> conns' c \<noteq> None" by blast
    then show ?thesis using None seg by (intro exI [of _ conns']) (simp add: ev)
  next
    case (Some s)
    from Cons.prems [OF Some] obtain s1 where s1: "http_handleRead kw cb t (Inr x) s = Some (Inr s1)"
      by (auto simp: oc split: option.splits sum.splits)
    let ?conns = "conns(cid \<mapsto> s1)"
    have seg: "http_segments kw cb (of_client cid (ev # evs)) s = http_segments kw cb (of_client cid evs) s1" by (simp add: oc s1)
    have "\<exists>s'. http_segments kw cb (of_client c evs) r = Some (Inr s')" if "?conns c = Some r" for c r
      using Cons.prems [of c] Some seg that by (cases "c = cid") (auto simp: oc)
    from Cons.IH [OF this] obtain conns' where c': "http_serve kw cb evs ?conns = Some (Inr conns')"
      "\<forall>c r. ?conns c = Some r \<longrightarrow> http_segments kw cb (of_client c evs) r = Some (Inr (the (conns' c))) \<and> conns' c \<noteq> None" by blast
    have "http_segments kw cb (of_client c (ev # evs)) r = Some (Inr (the (conns' c))) \<and> conns' c \<noteq> None" if "conns c = Some r" for c r
      using c'(2) Some seg that by (cases "c = cid") (auto simp: oc)
    then show ?thesis using c'(1) Some s1 by (intro exI [of _ conns']) (simp add: ev)
  qed
qed

text \<open>What a client does in its session: its requests, with the responses of the callback, in segments of its choice.\<close>

definition session_ok :: "http_callback \<Rightarrow> http_exchange list \<Rightarrow> (int \<times> string) list \<Rightarrow> bool" where
  "session_ok cb es segs \<longleftrightarrow> es \<noteq> [] \<and> list_all (exchange_ok cb) es \<and>
     list_all (\<lambda>e. \<not> rs_closeConnection (ex_response e)) (butlast es) \<and>
     concat (map snd segs) = inputs es \<and> (\<forall>x\<in>set segs. snd x \<noteq> []) \<and>
     kCheapPrepend + length (inputs es) \<le> vector_max \<and> kCheapPrepend + length (outputs es) \<le> vector_max"

text \<open>What it gets: the first \<open>k\<close> requests are answered and the others are in the input buffer.\<close>

definition session_done :: "http_exchange list \<Rightarrow> nat \<Rightarrow> http_end \<Rightarrow> bool" where
  "session_done es k s \<longleftrightarrow> t_sent (he_conn s) @ contents (t_out (he_conn s)) = outputs (take k es) \<and>
     contents (t_in (he_conn s)) = inputs (drop k es) \<and>
     (\<exists>ctx. he_context s = Some ctx \<and> clean ctx) \<and> conn_ok (he_conn s) \<and>
     t_state (he_conn s) = (if k = length es \<and> rs_closeConnection (ex_response (last es)) then kDisconnecting else kConnected)"

lemma session_served:
  assumes "write_ok kw" and "no_epipe kw" and "session_ok cb es segs"
  shows "\<exists>s s'. http_established kw (newConn cid fd wc hwm) = Inr s \<and>
    http_segments kw cb segs s = Some (Inr s') \<and> session_done es (session_answered es segs) s'"
proof -
  have "list_all (exchange_ok cb) es" "list_all (\<lambda>e. \<not> rs_closeConnection (ex_response e)) (butlast es)" "es \<noteq> []"
    "concat (map snd segs) = inputs es" "\<forall>x\<in>set segs. snd x \<noteq> []"
    "kCheapPrepend + length (inputs es) \<le> vector_max" "kCheapPrepend + length (outputs es) \<le> vector_max"
    using assms(3) unfolding session_ok_def by blast+
  from http_session [OF assms(1,2) this, of cid fd wc hwm] show ?thesis unfolding session_done_def by blast
qed

lemma aligned_answered:
  assumes "\<forall>x\<in>set segs. snd x \<noteq> []" and "map (\<lambda>x. length (snd x)) segs = concat groups"
    and "list_all2 (\<lambda>e xs. xs \<noteq> [] \<and> sum_list xs = length (query_text (ex_query e))) es groups"
  shows "session_answered es segs = length es"
proof -
  have "0 \<notin> set (concat groups)" unfolding assms(2) [symmetric] using assms(1) by auto
  then have "list_all2 (\<lambda>l xs. xs \<noteq> [] \<and> 0 \<notin> set xs \<and> sum_list xs = l) (lengths es) groups"
    using assms(3) unfolding list_all2_map1 by (auto simp: list_all2_conv_all_nth)
  from answered_aligned [OF this] show ?thesis by (simp add: session_answered_def assms(2))
qed

text \<open>The clients \<open>1\<close> to \<open>n\<close> have connected.\<close>

definition http_accepted :: "kernel_write \<Rightarrow> nat \<Rightarrow> (nat \<rightharpoonup> http_end)" where
  "http_accepted kw n cid = (if 1 \<le> cid \<and> cid \<le> n
     then case http_established kw (newConn cid (int cid + 6) False False) of Inl _ \<Rightarrow> None | Inr s \<Rightarrow> Some s else None)"

text \<open>
  C16. The HTTP server serves every client as if it were alone: however many clients are connected, however each of
  them cuts its stream of requests into segments, also across the ends of requests, and however the segments of different clients interleave, the bytes written
  to each client followed by its output buffer are exactly the printed responses to the first \<open>session_answered\<close> of its own requests in
  their order. That number counts one request for each segment that makes the next request complete, since the server answers one request for each
  segment it reads; the requests behind are in the input buffer with the parser before the first of them, and no further
  data comes. When no segment holds parts of two requests all of them are answered. The connection
  stays open until the last request is answered with a response that asks to close it, and is then half closed behind that response.
  It is supposed that the requests are well formed, that only the response to the last one may close the connection, that the response of the callback does
  not depend on the receive time, that clients stay connected and read, so that no write fails with \<open>EPIPE\<close>
  (\<open>no_epipe\<close>), and that a session fits into the buffers.
\<close>

theorem http_clients_served:
  assumes "write_ok kw" and "no_epipe kw"
    and "\<And>cid. 1 \<le> cid \<Longrightarrow> cid \<le> n \<Longrightarrow> session_ok cb (sessions cid) (of_client cid evs)"
  shows "\<exists>conns. http_serve kw cb evs (http_accepted kw n) = Some (Inr conns) \<and>
    (\<forall>cid. 1 \<le> cid \<and> cid \<le> n \<longrightarrow> (\<exists>s. conns cid = Some s \<and>
      session_done (sessions cid) (session_answered (sessions cid) (of_client cid evs)) s \<and>
      (\<forall>groups. map (\<lambda>x. length (snd x)) (of_client cid evs) = concat groups \<and>
         list_all2 (\<lambda>e xs. xs \<noteq> [] \<and> sum_list xs = length (query_text (ex_query e))) (sessions cid) groups \<longrightarrow>
         session_done (sessions cid) (length (sessions cid)) s)))"
proof -
  have run: "\<exists>s s'. http_accepted kw n cid = Some s \<and> http_segments kw cb (of_client cid evs) s = Some (Inr s') \<and>
      session_done (sessions cid) (session_answered (sessions cid) (of_client cid evs)) s'" if "1 \<le> cid" "cid \<le> n" for cid
    using session_served [OF assms(1,2) assms(3) [OF that], of cid "int cid + 6" False False] that
    by (auto simp: http_accepted_def)
  have "\<exists>s'. http_segments kw cb (of_client cid evs) s = Some (Inr s')" if "http_accepted kw n cid = Some s" for cid s
    using run [of cid] that by (auto simp: http_accepted_def split: if_splits)
  from http_serve_each [of "http_accepted kw n", OF this] obtain conns where
    c: "http_serve kw cb evs (http_accepted kw n) = Some (Inr conns)" and
    each: "\<forall>cid s. http_accepted kw n cid = Some s \<longrightarrow>
      http_segments kw cb (of_client cid evs) s = Some (Inr (the (conns cid))) \<and> conns cid \<noteq> None" by blast
  have "\<exists>s. conns cid = Some s \<and> session_done (sessions cid) (session_answered (sessions cid) (of_client cid evs)) s"
    if "1 \<le> cid" "cid \<le> n" for cid
    using run [OF that] each by fastforce
  moreover have n: "session_answered (sessions cid) (of_client cid evs) = length (sessions cid)"
    if "1 \<le> cid" "cid \<le> n" "map (\<lambda>x. length (snd x)) (of_client cid evs) = concat groups"
      "list_all2 (\<lambda>e xs. xs \<noteq> [] \<and> sum_list xs = length (query_text (ex_query e))) (sessions cid) groups" for cid groups
    by (rule aligned_answered [OF _ that(3,4)]) (use assms(3) [OF that(1,2)] in \<open>simp add: session_ok_def\<close>)
  ultimately show ?thesis using c by (intro exI [of _ conns]) fastforce
qed

text \<open>Two clients that send the same two requests: the first one after the other, in two segments and in one; the second both at once, in two segments.\<close>

definition demo_events :: "(nat \<times> int \<times> string) list" where
  "demo_events = [(1, 5, ''GE''), (2, 5, ''GE''), (2, 6, ''T /a HTTP/1.1'' @ kCRLF @ kCRLF @ ''GET /b HTTP/1.0'' @ kCRLF @ kCRLF),
     (1, 6, ''T /a HTTP/1.1'' @ kCRLF @ kCRLF), (1, 9, ''GET /b HTTP/1.0'' @ kCRLF @ kCRLF)]"

theorem http_clients_served_witness:
  "\<exists>conns s1 s2. http_serve demo_write demo_callback demo_events (http_accepted demo_write 2) = Some (Inr conns) \<and>
    conns 1 = Some s1 \<and> session_done [demo_first, demo_last] 2 s1 \<and> conns 2 = Some s2 \<and> session_done [demo_first, demo_last] 1 s2 \<and>
    t_sent (he_conn s2) @ contents (t_out (he_conn s2)) = response_text (ex_response demo_first) \<and>
    contents (t_in (he_conn s2)) = ''GET /b HTTP/1.0'' @ kCRLF @ kCRLF"
proof -
  note defs = of_client_def demo_events_def demo_first_def demo_last_def demo_exchange_def query_text_def render_request_def kCRLF_def
  have cl: "cid = 1 \<or> cid = 2" if "1 \<le> cid" "cid \<le> 2" for cid :: nat using that by linarith
  have texts: "inputs [demo_first, demo_last] = concat (map snd (of_client 1 demo_events))"
    "inputs [demo_first, demo_last] = concat (map snd (of_client 2 demo_events))" by (simp_all add: defs)
  have ok: "session_ok demo_callback [demo_first, demo_last] (of_client cid demo_events)" if "1 \<le> cid" "cid \<le> 2" for cid
  proof -
    have "\<forall>x\<in>set (of_client cid demo_events). snd x \<noteq> []" "concat (map snd (of_client cid demo_events)) = inputs [demo_first, demo_last]"
      using cl [OF that] texts by (auto simp: of_client_def demo_events_def)
    moreover have "kCheapPrepend + length (inputs [demo_first, demo_last]) \<le> vector_max"
      by (simp add: defs kCheapPrepend_def vector_max_def)
    moreover have "kCheapPrepend + length (outputs [demo_first, demo_last]) \<le> vector_max"
      by (simp add: demo_responses kCRLF_def kCheapPrepend_def vector_max_def)
    ultimately show ?thesis unfolding session_ok_def using demo_exchanges_ok
      by (simp add: demo_first_def demo_last_def demo_exchange_def newHttpResponse_def)
  qed
  have k: "session_answered [demo_first, demo_last] (of_client 1 demo_events) = 2"
    "session_answered [demo_first, demo_last] (of_client 2 demo_events) = 1"
    by (simp_all add: session_answered_def defs)
  from http_clients_served [OF demo_write_ok demo_no_epipe, of 2 demo_callback "\<lambda>_. [demo_first, demo_last]" demo_events] ok obtain conns where
    c: "http_serve demo_write demo_callback demo_events (http_accepted demo_write 2) = Some (Inr conns)"
    "\<forall>cid. 1 \<le> cid \<and> cid \<le> 2 \<longrightarrow> (\<exists>s. conns cid = Some s \<and>
       session_done [demo_first, demo_last] (session_answered [demo_first, demo_last] (of_client cid demo_events)) s)" by blast
  from c(2) [rule_format, of 1] c(2) [rule_format, of 2] obtain s1 s2 where
    s: "conns 1 = Some s1" "session_done [demo_first, demo_last] 2 s1" "conns 2 = Some s2" "session_done [demo_first, demo_last] 1 s2"
    unfolding k by auto
  moreover have "t_sent (he_conn s2) @ contents (t_out (he_conn s2)) = response_text (ex_response demo_first)"
    "contents (t_in (he_conn s2)) = ''GET /b HTTP/1.0'' @ kCRLF @ kCRLF"
    using s(4) by (simp_all add: session_done_def) (simp add: defs)
  ultimately show ?thesis using c(1) by blast
qed

end
