(* ===== verification/Rpc_Async.thy ===== *)
theory Rpc_Async
  imports Rpc "HOL-Library.Multiset"
begin

text \<open>
  RPC services that answer later (\<open>src/muduo/net/protorpc/RpcChannel.cc\<close>, \<open>RpcServer.cc\<close>): the service keeps the closure
  \<open>doneCallback\<close> that \<open>onRpcMessage\<close> gave it and calls it when the answer is there, in any order and
  interleaved with other calls. The closure refers to the channel by a plain pointer, and \<open>RpcServer::onConnection\<close> frees the channel when
  the connection goes down.
\<close>

section \<open>Deferred answers\<close>

text \<open>What a service holds between \<open>CallMethod\<close> and \<open>done\<close>.\<close>

record deferred =
  df_id :: "64 word"
  df_service :: string
  df_method :: string
  df_request :: string

text \<open>The branch for requests up to the call of the service.\<close>

definition receive_request :: "rpc_message \<Rightarrow> rpc_channel \<Rightarrow> deferred option result" where
  "receive_request message ch =
     (let sv = (case rm_service message of None \<Rightarrow> [] | Some s \<Rightarrow> s);
          me = (case rm_method message of None \<Rightarrow> [] | Some m \<Rightarrow> m);
          rq = (case rm_request message of None \<Rightarrow> [] | Some r \<Rightarrow> r) in
      case rc_services ch of
        Uninitialised \<Rightarrow> Inl (Undefined_Behaviour ''services_ read before it is set'')
      | NullServices \<Rightarrow> Inr None
      | Services services \<Rightarrow> (case map_of services sv of
          None \<Rightarrow> Inr None
        | Some service \<Rightarrow> (case service me of
            None \<Rightarrow> Inr None
          | Some _ \<Rightarrow> Inr (Some \<lparr>df_id = rm_id message, df_service = sv, df_method = me, df_request = rq\<rparr>))))"

definition onRpcMessage_deferred :: "rpc_message \<Rightarrow> rpc_channel \<Rightarrow> (rpc_channel \<times> deferred option) result" where
  "onRpcMessage_deferred message ch = (case rm_type message of
     RESPONSE \<Rightarrow> bindE (onRpcResponse message ch) (\<lambda>ch'. Inr (ch', None))
   | REQUEST \<Rightarrow> bindE (receive_request message ch) (\<lambda>d. Inr (ch, d))
   | ERROR \<Rightarrow> Inr (ch, None))"

text \<open>A service that answers at once is one that is completed at once.\<close>

lemma immediate_service:
  assumes "rc_services ch = Services services"
  shows "onRpcMessage message ch = bindE (onRpcMessage_deferred message ch) (\<lambda>(ch', d). Inr (case d of
     None \<Rightarrow> ch'
   | Some d \<Rightarrow> doneCallback (the (the (map_of services (df_service d)) (df_method d)) (df_request d)) (df_id d) ch'))"
  using assms by (cases "onRpcResponse message ch") (auto simp: onRpcMessage_def onRpcMessage_deferred_def onRpcRequest_def receive_request_def Let_def
      split: message_type.splits option.splits)

section \<open>Client, server and the messages between them\<close>

text \<open>
  A client makes calls in its I/O thread, so that sending and recording are one step. Messages arrive in the
  order they were sent. \<open>rn_alive\<close> tells whether the channel of the server exists; \<open>rn_calls\<close> is a history variable.
\<close>

record rpc_net =
  rn_client :: rpc_channel
  rn_server :: rpc_channel
  rn_alive :: bool
  rn_requests :: "rpc_message list"
  rn_pending :: "deferred list"
  rn_responses :: "rpc_message list"
  rn_calls :: "rpc_call list"

definition new_sent :: "rpc_channel \<Rightarrow> rpc_channel \<Rightarrow> rpc_message list" where
  "new_sent ch ch' = drop (length (rc_sent ch)) (rc_sent ch')"

definition rn_call :: "rpc_call \<Rightarrow> rpc_net \<Rightarrow> rpc_net" where
  "rn_call c s = (let ch = make_call c (rn_client s) in
     s\<lparr>rn_client := ch, rn_requests := rn_requests s @ new_sent (rn_client s) ch, rn_calls := rn_calls s @ [c]\<rparr>)"

definition rn_receive :: "rpc_message \<Rightarrow> rpc_message list \<Rightarrow> rpc_net \<Rightarrow> rpc_net result" where
  "rn_receive m rest s = bindE (onRpcMessage_deferred m (rn_server s)) (\<lambda>(ch, d).
     Inr (s\<lparr>rn_server := ch, rn_requests := rest, rn_pending := rn_pending s @ (case d of None \<Rightarrow> [] | Some d \<Rightarrow> [d])\<rparr>))"

text \<open>\<open>done->Run()\<close> of the pending answer number \<open>i\<close>.\<close>

definition rn_complete :: "nat \<Rightarrow> string \<Rightarrow> rpc_net \<Rightarrow> rpc_net result" where
  "rn_complete i response s =
     (if \<not> rn_alive s then Inl (Undefined_Behaviour ''doneCallback on a deleted RpcChannel'')
      else let ch = doneCallback response (df_id (rn_pending s ! i)) (rn_server s) in
        Inr (s\<lparr>rn_server := ch, rn_pending := take i (rn_pending s) @ drop (Suc i) (rn_pending s),
          rn_responses := rn_responses s @ new_sent (rn_server s) ch\<rparr>))"

definition rn_answer :: "rpc_message \<Rightarrow> rpc_message list \<Rightarrow> rpc_net \<Rightarrow> rpc_net result" where
  "rn_answer m rest s = bindE (onRpcMessage m (rn_client s)) (\<lambda>ch. Inr (s\<lparr>rn_client := ch, rn_responses := rest\<rparr>))"

text \<open>\<open>RpcServer::onConnection\<close> for the connection that goes down: the context held the only reference to the channel.\<close>

definition rn_down :: "rpc_net \<Rightarrow> rpc_net" where
  "rn_down s = s\<lparr>rn_alive := False\<rparr>"

type_synonym rpc_spec = "string \<Rightarrow> string \<Rightarrow> string \<Rightarrow> string \<Rightarrow> bool"

definition offered :: "(string, service) std_map \<Rightarrow> rpc_call \<Rightarrow> bool" where
  "offered services c \<longleftrightarrow> (case map_of services (call_service c) of None \<Rightarrow> False | Some service \<Rightarrow> service (call_method c) \<noteq> None)"

text \<open>\<open>spec\<close> says which answers a service may give to a request; \<open>may_close\<close> whether the connection may go down.\<close>

inductive rn_step :: "rpc_spec \<Rightarrow> (string, service) std_map \<Rightarrow> bool \<Rightarrow> rpc_net result \<Rightarrow> rpc_net result \<Rightarrow> bool" for spec services may_close where
  rn_calls: "Suc (length (rn_calls s)) < 2 ^ 63 \<Longrightarrow> offered services c \<Longrightarrow> rn_step spec services may_close (Inr s) (Inr (rn_call c s))"
| rn_receives: "rn_alive s \<Longrightarrow> rn_requests s = m # rest \<Longrightarrow> rn_step spec services may_close (Inr s) (rn_receive m rest s)"
| rn_completes: "i < length (rn_pending s) \<Longrightarrow> rn_pending s ! i = d \<Longrightarrow> spec (df_service d) (df_method d) (df_request d) response \<Longrightarrow>
    rn_step spec services may_close (Inr s) (rn_complete i response s)"
| rn_answers: "rn_responses s = m # rest \<Longrightarrow> rn_step spec services may_close (Inr s) (rn_answer m rest s)"
| rn_downs: "may_close \<Longrightarrow> rn_alive s \<Longrightarrow> rn_step spec services may_close (Inr s) (Inr (rn_down s))"

definition rn_init :: "(string, service) std_map \<Rightarrow> rpc_net result \<Rightarrow> bool" where
  "rn_init services r \<longleftrightarrow> r = Inr \<lparr>rn_client = newRpcChannel, rn_server = setServices (Services services) newRpcChannel,
     rn_alive = True, rn_requests = [], rn_pending = [], rn_responses = [], rn_calls = []\<rparr>"

section \<open>Where every call is\<close>

definition call_id :: "nat \<Rightarrow> 64 word" where
  "call_id k = word_of_nat (Suc k)"

definition call_request_message :: "nat \<times> rpc_call \<Rightarrow> rpc_message" where
  "call_request_message = (\<lambda>(k, c). request_message (call_id k) (call_service c) (call_method c) (call_request c))"

definition call_deferred :: "nat \<times> rpc_call \<Rightarrow> deferred" where
  "call_deferred = (\<lambda>(k, c). \<lparr>df_id = call_id k, df_service = call_service c, df_method = call_method c, df_request = call_request c\<rparr>)"

definition right_answer :: "rpc_spec \<Rightarrow> rpc_call \<Rightarrow> string \<Rightarrow> bool" where
  "right_answer spec c response \<longleftrightarrow> spec (call_service c) (call_method c) (call_request c) response"

definition carries :: "rpc_spec \<Rightarrow> nat \<times> rpc_call \<Rightarrow> rpc_message \<Rightarrow> bool" where
  "carries spec = (\<lambda>(k, c) m. \<exists>r. m = response_message (call_id k) r \<and> right_answer spec c r)"

definition finished :: "rpc_spec \<Rightarrow> nat \<times> rpc_call \<Rightarrow> nat \<times> string \<Rightarrow> bool" where
  "finished spec = (\<lambda>(k, c) (cl, r). cl = call_done c \<and> right_answer spec c r)"

text \<open>
  The numbered calls are divided between the requests on the way, the pending answers, the responses on the way
  and the closures that ran; those not yet finished are the ones recorded in the client.
\<close>

definition rn_places :: "rpc_spec \<Rightarrow> (string, service) std_map \<Rightarrow> (nat \<times> rpc_call) list \<Rightarrow> (nat \<times> rpc_call) list \<Rightarrow>
    (nat \<times> rpc_call) list \<Rightarrow> (nat \<times> rpc_call) list \<Rightarrow> rpc_net \<Rightarrow> bool" where
  "rn_places spec services qs ps rs ds s \<longleftrightarrow>
     rn_requests s = map call_request_message qs \<and> list_all (offered services \<circ> snd) qs \<and>
     rn_pending s = map call_deferred ps \<and> list_all2 (carries spec) rs (rn_responses s) \<and> list_all2 (finished spec) ds (rc_done (rn_client s)) \<and>
     mset (qs @ ps @ rs @ ds) = mset (enumerate 0 (rn_calls s)) \<and>
     (\<forall>i v. map_of (rc_outstandings (rn_client s)) i = Some v \<longleftrightarrow> (\<exists>(k, c)\<in>set (qs @ ps @ rs). i = int (Suc k) \<and> v = call_out c))"

definition rn_inv :: "rpc_spec \<Rightarrow> (string, service) std_map \<Rightarrow> rpc_net \<Rightarrow> bool" where
  "rn_inv spec services s \<longleftrightarrow> rc_services (rn_server s) = Services services \<and> rc_id (rn_client s) = word_of_nat (length (rn_calls s)) \<and>
     length (rn_calls s) < 2 ^ 63 \<and> (\<exists>qs ps rs ds. rn_places spec services qs ps rs ds s)"

lemma sint_call_id: "Suc k < 2 ^ 63 \<Longrightarrow> sint (call_id k) = int (Suc k)"
  unfolding call_id_def by (rule sint_id)

text \<open>The numbers of calls in different places differ.\<close>

lemma places_distinct:
  assumes "mset xs = mset (enumerate 0 cs)"
  shows "distinct (map fst xs)" and "(k, c) \<in> set xs \<Longrightarrow> k < length cs"
proof -
  have "mset (map fst xs) = mset [0..<length cs]"
    using assms by (metis mset_map map_fst_enumerate add_0)
  then show "distinct (map fst xs)" by (metis mset_eq_imp_distinct_iff distinct_upt)
  have "set xs = set (enumerate 0 cs)" by (rule mset_eq_setD [OF assms])
  then show "k < length cs" if "(k, c) \<in> set xs" using that by (simp add: in_set_enumerate_eq)
qed

lemma call_inv:
  assumes inv: "rn_inv spec services s" and len: "Suc (length (rn_calls s)) < 2 ^ 63" and c: "offered services c"
  shows "rn_inv spec services (rn_call c s)"
proof -
  from inv obtain qs ps rs ds where p: "rn_places spec services qs ps rs ds s" by (auto simp: rn_inv_def)
  let ?k = "length (rn_calls s)"
  have i: "rc_id (rn_client s) + 1 = call_id ?k" using inv by (simp add: rn_inv_def call_id_def add.commute)
  have ch: "make_call c (rn_client s) = (rn_client s)\<lparr>rc_id := call_id ?k, rc_sent := rc_sent (rn_client s) @ [call_request_message (?k, c)],
      rc_outstandings := map_put (int (Suc ?k)) (call_out c) (rc_outstandings (rn_client s))\<rparr>"
    using sint_call_id [OF len]
    by (simp add: make_call_def CallMethod_def CallMethod_send_def CallMethod_record_def Let_def i call_request_message_def)
  have fresh: "k \<noteq> ?k" if "(k, d) \<in> set (qs @ ps @ rs)" for k d
    using places_distinct(2) [of "qs @ ps @ rs @ ds" "rn_calls s" k d] p that by (auto simp: rn_places_def)
  have "rn_places spec services (qs @ [(?k, c)]) ps rs ds (rn_call c s)"
    unfolding rn_places_def
  proof (intro conjI allI)
    show "map_of (rc_outstandings (rn_client (rn_call c s))) i = Some v \<longleftrightarrow>
        (\<exists>(k, d)\<in>set ((qs @ [(?k, c)]) @ ps @ rs). i = int (Suc k) \<and> v = call_out d)" for i v
      using p fresh by (auto simp: rn_places_def rn_call_def ch Let_def)
  qed (use p c in \<open>auto simp: rn_places_def rn_call_def ch Let_def new_sent_def enumerate_append_eq\<close>)
  moreover have "rc_id (rn_client (rn_call c s)) = word_of_nat (Suc ?k)" by (simp add: rn_call_def ch Let_def call_id_def)
  ultimately show ?thesis using inv len by (auto simp: rn_inv_def) (auto simp: rn_call_def Let_def)
qed

lemma request_deferred:
  assumes "offered services c" and "rc_services ch = Services services"
  shows "onRpcMessage_deferred (call_request_message (k, c)) ch = Inr (ch, Some (call_deferred (k, c)))"
  using assms by (auto simp: onRpcMessage_deferred_def receive_request_def call_request_message_def request_message_def
      call_deferred_def offered_def Let_def split: option.splits)

lemma receive_inv:
  assumes inv: "rn_inv spec services s" and m: "rn_requests s = m # rest"
  shows "\<exists>s'. rn_receive m rest s = Inr s' \<and> rn_inv spec services s' \<and> rn_alive s' = rn_alive s"
proof -
  from inv obtain qs ps rs ds where p: "rn_places spec services qs ps rs ds s" by (auto simp: rn_inv_def)
  with m obtain k c qs' where qs: "qs = (k, c) # qs'" "m = call_request_message (k, c)" "rest = map call_request_message qs'"
    by (cases qs) (auto simp: rn_places_def)
  have "offered services c" using p qs(1) by (simp add: rn_places_def)
  then have "onRpcMessage_deferred m (rn_server s) = Inr (rn_server s, Some (call_deferred (k, c)))"
    using inv request_deferred by (auto simp: qs(2) rn_inv_def)
  then have r: "rn_receive m rest s = Inr (s\<lparr>rn_requests := rest, rn_pending := rn_pending s @ [call_deferred (k, c)]\<rparr>)"
    by (simp add: rn_receive_def)
  have "rn_places spec services qs' (ps @ [(k, c)]) rs ds (s\<lparr>rn_requests := rest, rn_pending := rn_pending s @ [call_deferred (k, c)]\<rparr>)"
    using p qs by (auto simp: rn_places_def)
  then show ?thesis using inv r by (auto simp: rn_inv_def)
qed

lemma mset_remove_nth: "i < length xs \<Longrightarrow> mset xs = add_mset (xs ! i) (mset (take i xs @ drop (Suc i) xs))"
  by (metis id_take_nth_drop mset_append mset.simps(2) union_mset_add_mset_right)

lemma complete_inv:
  assumes inv: "rn_inv spec services s" and alive: "rn_alive s" and i: "i < length (rn_pending s)"
    and r: "spec (df_service (rn_pending s ! i)) (df_method (rn_pending s ! i)) (df_request (rn_pending s ! i)) response"
  shows "\<exists>s'. rn_complete i response s = Inr s' \<and> rn_inv spec services s' \<and> rn_alive s' = rn_alive s"
proof -
  from inv obtain qs ps rs ds where p: "rn_places spec services qs ps rs ds s" by (auto simp: rn_inv_def)
  have ps: "rn_pending s = map call_deferred ps" and li: "i < length ps" using p i by (auto simp: rn_places_def)
  obtain k c where kc: "ps ! i = (k, c)" by (cases "ps ! i")
  let ?ps = "take i ps @ drop (Suc i) ps"
  have mps: "mset ps = add_mset (k, c) (mset ?ps)" using mset_remove_nth [OF li] kc by simp
  then have sps: "set ps = insert (k, c) (set ?ps)" by (metis set_mset_add_mset_insert set_mset_mset)
  have d: "rn_pending s ! i = call_deferred (k, c)" using li kc by (simp add: ps)
  then have ok: "right_answer spec c response" using r by (simp add: call_deferred_def right_answer_def)
  let ?s = "s\<lparr>rn_server := doneCallback response (call_id k) (rn_server s), rn_pending := map call_deferred ?ps,
      rn_responses := rn_responses s @ [response_message (call_id k) response]\<rparr>"
  have run: "rn_complete i response s = Inr ?s"
    using alive d by (simp add: rn_complete_def Let_def new_sent_def doneCallback_def call_deferred_def ps take_map drop_map)
  have "rn_places spec services qs ?ps (rs @ [(k, c)]) ds ?s"
    unfolding rn_places_def
  proof (intro conjI allI)
    show "list_all2 (carries spec) (rs @ [(k, c)]) (rn_responses ?s)"
      using p ok by (auto simp: rn_places_def carries_def intro: list_all2_appendI)
    show "mset (qs @ ?ps @ (rs @ [(k, c)]) @ ds) = mset (enumerate 0 (rn_calls ?s))"
      using p mps by (simp add: rn_places_def union_assoc)
    show "map_of (rc_outstandings (rn_client ?s)) j = Some v \<longleftrightarrow>
        (\<exists>(k, d)\<in>set (qs @ ?ps @ rs @ [(k, c)]). j = int (Suc k) \<and> v = call_out d)" for j v
    proof -
      have "set (qs @ ?ps @ rs @ [(k, c)]) = set (qs @ ps @ rs)" using sps by auto
      then show ?thesis using p by (simp only: rn_places_def) simp
    qed
  qed (use p in \<open>simp_all add: rn_places_def\<close>)
  then show ?thesis using inv run by (auto simp: rn_inv_def doneCallback_def)
qed

lemma answer_inv:
  assumes inv: "rn_inv spec services s" and m: "rn_responses s = m # rest"
  shows "\<exists>s'. rn_answer m rest s = Inr s' \<and> rn_inv spec services s' \<and> rn_alive s' = rn_alive s"
proof -
  from inv obtain qs ps rs ds where p: "rn_places spec services qs ps rs ds s" by (auto simp: rn_inv_def)
  with m obtain k c rs' where rs: "rs = (k, c) # rs'" "carries spec (k, c) m" "list_all2 (carries spec) rs' rest"
    by (cases rs) (auto simp: rn_places_def)
  then obtain r where r: "m = response_message (call_id k) r" "right_answer spec c r" by (auto simp: carries_def)
  note places = places_distinct [of "qs @ ps @ rs @ ds" "rn_calls s"]
  have "k < length (rn_calls s)" using places(2) [of k c] p rs(1) by (simp add: rn_places_def)
  then have sk: "sint (call_id k) = int (Suc k)" by (intro sint_call_id) (use inv in \<open>simp add: rn_inv_def\<close>)
  have "distinct (map fst (qs @ ps @ rs @ ds))" using places(1) p by (simp add: rn_places_def)
  then have "k \<notin> fst ` set (qs @ ps @ rs')" by (auto simp: rs(1))
  then have other: "j \<noteq> k" if "(j, d) \<in> set (qs @ ps @ rs')" for j d using that by (metis fst_conv image_eqI)
  have "map_of (rc_outstandings (rn_client s)) (sint (call_id k)) = Some (call_out c)"
    unfolding sk using p rs(1) by (auto simp: rn_places_def)
  from response_recorded [OF this, of r] obtain ch where
    ch: "onRpcMessage m (rn_client s) = Inr ch" "rc_done ch = rc_done (rn_client s) @ [(call_done c, r)]"
      "map_of (rc_outstandings ch) = (map_of (rc_outstandings (rn_client s)))(int (Suc k) := None)" unfolding r(1) sk by blast
  let ?s = "s\<lparr>rn_client := ch, rn_responses := rest\<rparr>"
  have "rc_id ch = rc_id (rn_client s)"
    using ch(1) by (auto simp: onRpcMessage_def r(1) response_message_def onRpcResponse_def Let_def split: option.splits)
  moreover have "rn_places spec services qs ps rs' (ds @ [(k, c)]) ?s"
    unfolding rn_places_def
  proof (intro conjI allI)
    show "list_all2 (finished spec) (ds @ [(k, c)]) (rc_done (rn_client ?s))"
      using p r(2) ch(2) by (auto simp: rn_places_def finished_def intro: list_all2_appendI)
    show "map_of (rc_outstandings (rn_client ?s)) j = Some v \<longleftrightarrow>
        (\<exists>(k, d)\<in>set (qs @ ps @ rs'). j = int (Suc k) \<and> v = call_out d)" for j v
      using p rs(1) ch(3) other by (auto simp: rn_places_def)
  qed (use p rs in \<open>auto simp: rn_places_def\<close>)
  ultimately show ?thesis using inv ch(1) by (auto simp: rn_inv_def rn_answer_def)
qed

definition rn_ok :: "rpc_spec \<Rightarrow> (string, service) std_map \<Rightarrow> rpc_net result \<Rightarrow> bool" where
  "rn_ok spec services r \<longleftrightarrow> (\<exists>s. r = Inr s \<and> rn_inv spec services s \<and> rn_alive s)"

interpretation rn: step_invariant "rn_init services" "rn_step spec services False" "rn_ok spec services" for services spec
proof
  show "rn_ok spec services r" if "rn_init services r" for r
    using that by (auto simp: rn_init_def rn_ok_def rn_inv_def rn_places_def newRpcChannel_def setServices_def)
  show "rn_ok spec services t" if "rn_ok spec services r" "rn_step spec services False r t" for r t
    using that(2)
  proof (cases rule: rn_step.cases)
    case (rn_calls s c)
    then show ?thesis using that(1) call_inv [of spec services s c] by (auto simp: rn_ok_def rn_call_def Let_def)
  next
    case (rn_receives s m rest)
    then show ?thesis using that(1) receive_inv [of spec services s m rest] by (auto simp: rn_ok_def)
  next
    case (rn_completes i s d response)
    then show ?thesis using that(1) complete_inv [of spec services s i response] by (auto simp: rn_ok_def)
  next
    case (rn_answers s m rest)
    then show ?thesis using that(1) answer_inv [of spec services s m rest] by (auto simp: rn_ok_def)
  qed simp_all
qed

section \<open>Every call can be finished\<close>

definition rn_left :: "rpc_net \<Rightarrow> nat" where
  "rn_left s = 3 * length (rn_requests s) + 2 * length (rn_pending s) + length (rn_responses s)"

text \<open>As long as something is on the way, there is a step that brings it further.\<close>

lemma rn_progress:
  assumes ok: "rn_inv spec services s" "rn_alive s" and total: "\<And>sv me rq. \<exists>r. spec sv me rq r" and left: "rn_left s \<noteq> 0"
  shows "\<exists>s'. rn_step spec services False (Inr s) (Inr s') \<and> rn_left s = Suc (rn_left s') \<and> rn_calls s' = rn_calls s"
proof (cases "rn_responses s")
  case (Cons m rest)
  from answer_inv [OF ok(1) Cons] obtain s' where "rn_answer m rest s = Inr s'" by blast
  then show ?thesis using rn_answers [OF Cons, of spec services False]
    by (intro exI [of _ s']) (auto simp: rn_answer_def rn_left_def Cons)
next
  case no_response: Nil
  show ?thesis
  proof (cases "rn_pending s")
    case (Cons d ds)
    obtain r where r: "spec (df_service d) (df_method d) (df_request d) r" using total by blast
    from complete_inv [OF ok, of 0 r] Cons r obtain s' where s': "rn_complete 0 r s = Inr s'" by auto
    then show ?thesis using rn_completes [of 0 s d spec r services False] Cons r
      by (intro exI [of _ s']) (auto simp: rn_complete_def rn_left_def no_response new_sent_def doneCallback_def Let_def split: if_splits)
  next
    case Nil
    then obtain m rest where m: "rn_requests s = m # rest" using left no_response by (cases "rn_requests s") (auto simp: rn_left_def)
    from receive_inv [OF ok(1) m] obtain s' where s': "rn_receive m rest s = Inr s'" "rn_inv spec services s'" by blast
    from ok(1) obtain qs ps rs es where p: "rn_places spec services qs ps rs es s" by (auto simp: rn_inv_def)
    with m obtain k c where "m = call_request_message (k, c)" "offered services c" by (cases qs) (auto simp: rn_places_def)
    then have "onRpcMessage_deferred m (rn_server s) = Inr (rn_server s, Some (call_deferred (k, c)))"
      using ok(1) request_deferred by (auto simp: rn_inv_def)
    then show ?thesis using s'(1) rn_receives [OF ok(2) m, of spec services False] Nil
      by (intro exI [of _ s']) (auto simp: rn_receive_def rn_left_def no_response m)
  qed
qed

lemma rn_finish:
  assumes "rn_inv spec services s" and "rn_alive s" and total: "\<And>sv me rq. \<exists>r. spec sv me rq r"
  shows "\<exists>s'. (rn_step spec services False ^^ rn_left s) (Inr s) (Inr s') \<and> rn_left s' = 0 \<and> rn_calls s' = rn_calls s"
  using assms(1,2)
proof (induction "rn_left s" arbitrary: s)
  case 0
  from 0(1) have "rn_left s = 0" by (rule sym)
  then show ?case by (intro exI [of _ s]) simp
next
  case (Suc n)
  then obtain s1 where s1: "rn_step spec services False (Inr s) (Inr s1)" "rn_left s = Suc (rn_left s1)" "rn_calls s1 = rn_calls s"
    using rn_progress [OF Suc.prems total] by auto
  have "rn_ok spec services (Inr s1)" by (rule rn.inv_step [OF _ s1(1)]) (use Suc.prems in \<open>simp add: rn_ok_def\<close>)
  then obtain s' where s': "(rn_step spec services False ^^ rn_left s1) (Inr s1) (Inr s')" "rn_left s' = 0" "rn_calls s' = rn_calls s1"
    using Suc.hyps(1) [of s1] Suc.hyps(2) s1(2) by (auto simp: rn_ok_def)
  from relpowp_Suc_I2 [of "rn_step spec services False", OF s1(1) s'(1)] s' s1 show ?case by (intro exI [of _ s']) simp
qed

text \<open>When nothing is on the way, every call is finished and nothing is recorded any more.\<close>

lemma rn_quiet:
  assumes "rn_inv spec services s" and "rn_left s = 0"
  shows "length (rc_done (rn_client s)) = length (rn_calls s) \<and> rc_outstandings (rn_client s) = []"
proof -
  from assms(1) obtain qs ps rs ds where p: "rn_places spec services qs ps rs ds s" by (auto simp: rn_inv_def)
  with assms(2) have e: "qs = []" "ps = []" "rs = []" by (auto simp: rn_places_def rn_left_def)
  then have "mset ds = mset (enumerate 0 (rn_calls s))" using p by (simp add: rn_places_def)
  then have "length ds = length (rn_calls s)" by (metis mset_eq_length length_enumerate)
  moreover have "length ds = length (rc_done (rn_client s))" using p by (auto simp: rn_places_def dest: list_all2_lengthD)
  moreover have "map_of (rc_outstandings (rn_client s)) = Map.empty"
    using p e by (auto simp: rn_places_def fun_eq_iff)
  then have "rc_outstandings (rn_client s) = []" by simp
  ultimately show ?thesis by simp
qed

section \<open>Properties\<close>

text \<open>
  C20. Deferred RPC answers: a client makes any number of calls, at any time, of methods the server offers; the services answer in
  any order and as late as they like. As long as the connection stays up nothing fails, and the closures that ran belong to
  different calls, each run with an answer the service may give to the request of its own call. From every
  such state, if the services have an answer to every request, a number of steps that is known in advance, three for each request on
  its way, two for each pending answer and one for each response on its way, brings every closure to run once
  and leaves no call recorded.
\<close>

theorem rpc_deferred_answers:
  assumes "reach (rn_init services) (rn_step spec services False) r" and "\<And>sv me rq. \<exists>x. spec sv me rq x"
  shows "\<exists>s ds s'. r = Inr s \<and> distinct (map fst ds) \<and> set ds \<subseteq> set (enumerate 0 (rn_calls s)) \<and>
    list_all2 (finished spec) ds (rc_done (rn_client s)) \<and>
    (rn_step spec services False ^^ rn_left s) r (Inr s') \<and> rn_calls s' = rn_calls s \<and>
    length (rc_done (rn_client s')) = length (rn_calls s') \<and> rc_outstandings (rn_client s') = []"
proof -
  from rn.reach_inv [OF assms(1)] obtain s where s: "r = Inr s" "rn_inv spec services s" "rn_alive s" by (auto simp: rn_ok_def)
  then obtain qs ps rs ds where p: "rn_places spec services qs ps rs ds s" by (auto simp: rn_inv_def)
  then have m: "mset (qs @ ps @ rs @ ds) = mset (enumerate 0 (rn_calls s))" by (simp add: rn_places_def)
  have "distinct (map fst ds)" using places_distinct(1) [OF m] by simp
  moreover have "set ds \<subseteq> set (enumerate 0 (rn_calls s))" using mset_eq_setD [OF m] by auto
  moreover from rn_finish [OF s(2,3) assms(2)] obtain s' where
    s': "(rn_step spec services False ^^ rn_left s) (Inr s) (Inr s')" "rn_left s' = 0" "rn_calls s' = rn_calls s" by blast
  moreover have "rn_inv spec services s'"
  proof -
    have "(rn_step spec services False)\<^sup>*\<^sup>* (Inr s) (Inr s')" by (rule relpowp_imp_rtranclp [OF s'(1)])
    from rn.inv_rtranclp [OF this] s show ?thesis by (auto simp: rn_ok_def)
  qed
  ultimately show ?thesis using rn_quiet [of spec services s'] p s(1)
    by (intro exI [of _ s] exI [of _ ds] exI [of _ s']) (simp add: rn_places_def)
qed

text \<open>Two calls; the service answers the second one first.\<close>

definition demo_services :: "(string, service) std_map" where
  "demo_services = [(''S'', [''m'' \<mapsto> rev])]"

definition demo_rpc :: "string \<Rightarrow> nat \<Rightarrow> rpc_call" where
  "demo_rpc rq n = \<lparr>call_service = ''S'', call_method = ''m'', call_request = rq, call_done = n\<rparr>"

definition demo_net :: rpc_net where
  "demo_net = \<lparr>rn_client = newRpcChannel, rn_server = setServices (Services demo_services) newRpcChannel,
     rn_alive = True, rn_requests = [], rn_pending = [], rn_responses = [], rn_calls = []\<rparr>"

lemma demo_net_reach:
  "reach (rn_init demo_services) (rn_step spec demo_services may_close) (Inr (rn_call (demo_rpc ''bc'' 2) (rn_call (demo_rpc ''a'' 1) demo_net)))"
proof -
  have "reach (rn_init demo_services) (rn_step spec demo_services may_close) (Inr demo_net)"
    by (rule reach_init) (simp add: rn_init_def demo_net_def)
  moreover have "rn_step spec demo_services may_close (Inr demo_net) (Inr (rn_call (demo_rpc ''a'' 1) demo_net))"
    by (rule rn_calls) (simp_all add: demo_net_def offered_def demo_services_def demo_rpc_def)
  moreover have "rn_step spec demo_services may_close (Inr (rn_call (demo_rpc ''a'' 1) demo_net))
      (Inr (rn_call (demo_rpc ''bc'' 2) (rn_call (demo_rpc ''a'' 1) demo_net)))"
    by (rule rn_calls) (simp_all add: rn_call_def Let_def demo_net_def offered_def demo_services_def demo_rpc_def)
  ultimately show ?thesis by (meson reach_step)
qed

theorem rpc_deferred_answers_witness:
  "\<exists>s'. (rn_step (\<lambda>sv me rq x. x = rev rq) demo_services False ^^ 6)
      (Inr (rn_call (demo_rpc ''bc'' 2) (rn_call (demo_rpc ''a'' 1) demo_net))) (Inr s') \<and>
    length (rc_done (rn_client s')) = 2 \<and> rc_outstandings (rn_client s') = []"
proof -
  let ?s = "rn_call (demo_rpc ''bc'' 2) (rn_call (demo_rpc ''a'' 1) demo_net)"
  have n: "rn_left ?s = 6" "length (rn_calls ?s) = 2"
    by (simp_all add: rn_left_def rn_call_def Let_def demo_net_def new_sent_def make_call_def CallMethod_def CallMethod_send_def
        CallMethod_record_def newRpcChannel_def)
  from rpc_deferred_answers [of demo_services "\<lambda>sv me rq x. x = rev rq" "Inr ?s"] demo_net_reach obtain s' where
    "(rn_step (\<lambda>sv me rq x. x = rev rq) demo_services False ^^ rn_left ?s) (Inr ?s) (Inr s')" "rn_calls s' = rn_calls ?s"
    "length (rc_done (rn_client s')) = length (rn_calls s')" "rc_outstandings (rn_client s') = []" by auto
  then show ?thesis using n by (intro exI [of _ s']) simp
qed

text \<open>
  C38. A deferred answer outlives its channel: when the connection goes down between a request and the answer to it, the
  server drops the channel while the service still holds the closure, which has the plain pointer \<open>this\<close>; completing
  the call is then a use of a deleted object, whatever the service answers. Without a connection that goes down
  this does not happen.
\<close>

theorem rpc_deferred_dangles:
  assumes "offered services c" and "spec (call_service c) (call_method c) (call_request c) x"
  shows "reach (rn_init services) (rn_step spec services True) (Inl (Undefined_Behaviour ''doneCallback on a deleted RpcChannel'')) \<and>
    \<not> reach (rn_init services) (rn_step spec services False) (Inl e)"
proof (intro conjI notI)
  let ?R = "reach (rn_init services) (rn_step spec services True)"
  let ?s0 = "\<lparr>rn_client = newRpcChannel, rn_server = setServices (Services services) newRpcChannel,
     rn_alive = True, rn_requests = [], rn_pending = [], rn_responses = [], rn_calls = []\<rparr>"
  have r0: "?R (Inr ?s0)" by (rule reach_init) (simp add: rn_init_def)
  have inv0: "rn_inv spec services ?s0" using rn.inv_init [of services "Inr ?s0" spec] by (simp add: rn_init_def rn_ok_def)
  let ?s1 = "rn_call c ?s0"
  have "rn_step spec services True (Inr ?s0) (Inr ?s1)" by (rule rn_calls) (use assms(1) in simp_all)
  with r0 have r1: "?R (Inr ?s1)" by (rule reach_step)
  have inv1: "rn_inv spec services ?s1" by (rule call_inv [OF inv0 _ assms(1)]) simp
  have q1: "rn_requests ?s1 = [call_request_message (0, c)]" "rn_alive ?s1" "rn_pending ?s1 = []"
    by (simp_all add: rn_call_def Let_def new_sent_def make_call_def CallMethod_def CallMethod_send_def CallMethod_record_def
        newRpcChannel_def call_request_message_def call_id_def)
  let ?m = "call_request_message (0, c)"
  have "onRpcMessage_deferred ?m (rn_server ?s1) = Inr (rn_server ?s1, Some (call_deferred (0, c)))"
    using inv1 assms(1) request_deferred by (auto simp: rn_inv_def)
  then obtain s2 where s2: "rn_receive ?m [] ?s1 = Inr s2" "rn_pending s2 = [call_deferred (0, c)]" "rn_alive s2"
    using q1 by (simp add: rn_receive_def)
  from rn_receives [of ?s1 ?m "[]" spec services True] q1 s2(1) have "rn_step spec services True (Inr ?s1) (Inr s2)" by simp
  with r1 have r2: "?R (Inr s2)" by (rule reach_step)
  have "rn_step spec services True (Inr s2) (Inr (rn_down s2))" by (rule rn_downs) (simp_all add: s2(3))
  with r2 have r3: "?R (Inr (rn_down s2))" by (rule reach_step)
  have "rn_step spec services True (Inr (rn_down s2)) (rn_complete 0 x (rn_down s2))"
    by (rule rn_completes [OF _ refl]) (use assms(2) in \<open>simp_all add: rn_down_def s2(2) call_deferred_def\<close>)
  with r3 have "?R (rn_complete 0 x (rn_down s2))" by (rule reach_step)
  then show "?R (Inl (Undefined_Behaviour ''doneCallback on a deleted RpcChannel''))" by (simp add: rn_complete_def rn_down_def)
  show False if "reach (rn_init services) (rn_step spec services False) (Inl e)" using rn.reach_inv [OF that] by (simp add: rn_ok_def)
qed

theorem rpc_deferred_dangles_witness:
  "reach (rn_init demo_services) (rn_step (\<lambda>sv me rq x. x = rev rq) demo_services True)
     (Inl (Undefined_Behaviour ''doneCallback on a deleted RpcChannel''))"
proof -
  have "offered demo_services (demo_rpc ''a'' 1)" by (simp add: offered_def demo_services_def demo_rpc_def)
  from rpc_deferred_dangles [OF this, of "\<lambda>sv me rq x. x = rev rq"] show ?thesis by simp
qed

end
