(* ===== verification/Async_Logging.thy ===== *)
theory Async_Logging
  imports Log_Stream
begin

text \<open>
  \<open>src/muduo/base/AsyncLogging.{h,cc}\<close>: front-end threads append lines to large buffers, a back-end
  thread swaps the buffers out and writes them to the log file.

  The shared state is \<open>currentBuffer_\<close>, \<open>nextBuffer_\<close> and \<open>buffers_\<close>; the locals of \<open>threadFunc\<close> are
  \<open>newBuffer1\<close>, \<open>newBuffer2\<close> and \<open>buffersToWrite\<close>. The buffer pointers that can be null are options.
  \<open>al_output\<close> lists the texts given to \<open>output.append\<close>. The back-end thread is at the top of its
  loop (or not started yet), waits on the condition inside the lock, has swapped the buffers, or is done; a step of a
  thread is what it does between two points where another thread can take the lock.
  \<open>al_log\<close> and \<open>al_overload\<close> are history variables: the lines appended, and whether buffers were dropped.
\<close>

section \<open>State\<close>

datatype al_pc = NotStarted | AtLoop | Waiting | Swapped | Done

record async_logging =
  al_running :: bool
  al_current :: "fixed_buffer option"
  al_next :: "fixed_buffer option"
  al_buffers :: "fixed_buffer list"
  al_new1 :: "fixed_buffer option"
  al_new2 :: "fixed_buffer option"
  al_toWrite :: "fixed_buffer list"
  al_output :: "string list"
  al_pc :: al_pc
  al_log :: "string list"
  al_overload :: bool

text \<open>\<open>new Buffer\<close>; the code clears some of the new buffers, none is read before it is written.\<close>

definition newBuf :: fixed_buffer where
  "newBuf = newFixedBuffer (replicate kLargeBuffer (CHR 0x00))"

text \<open>The constructor, and \<open>threadFunc\<close> up to its loop.\<close>

definition newAsyncLogging :: async_logging where
  "newAsyncLogging = \<lparr>al_running = True, al_current = Some newBuf, al_next = Some newBuf, al_buffers = [],
     al_new1 = Some newBuf, al_new2 = Some newBuf, al_toWrite = [], al_output = [], al_pc = AtLoop, al_log = [],
     al_overload = False\<rparr>"

text \<open>
  The parts of it: the constructor alone, and \<open>start\<close>, whose thread makes its two spare buffers. The latch
  lets \<open>start\<close> return when the thread runs.
\<close>

definition AsyncLogging :: async_logging where
  "AsyncLogging = \<lparr>al_running = False, al_current = Some newBuf, al_next = Some newBuf, al_buffers = [], al_new1 = None,
     al_new2 = None, al_toWrite = [], al_output = [], al_pc = NotStarted, al_log = [], al_overload = False\<rparr>"

definition al_start :: "async_logging \<Rightarrow> async_logging result" where
  "al_start al = bindE (assertE (al_pc al = NotStarted) ''!started_'') (\<lambda>_.
     Inr (al\<lparr>al_running := True, al_new1 := Some newBuf, al_new2 := Some newBuf, al_pc := AtLoop\<rparr>))"

definition deref :: "fixed_buffer option \<Rightarrow> fixed_buffer result" where
  "deref p = (case p of None \<Rightarrow> Inl (Undefined_Behaviour ''null buffer'') | Some b \<Rightarrow> Inr b)"

section \<open>Operations\<close>

text \<open>\<open>append\<close>, all of it under the lock.\<close>

definition al_append :: "string \<Rightarrow> async_logging \<Rightarrow> async_logging result" where
  "al_append logline al =
     bindE (deref (al_current al)) (\<lambda>cur.
     if fb_avail cur > int (length logline) then
       bindE (fb_append logline cur) (\<lambda>cur'.
       Inr (al\<lparr>al_current := Some cur', al_log := al_log al @ [logline]\<rparr>))
     else
       let cur' = (case al_next al of Some nb \<Rightarrow> nb | None \<Rightarrow> newBuf) in
       bindE (fb_append logline cur') (\<lambda>cur''.
       Inr (al\<lparr>al_buffers := al_buffers al @ [cur], al_next := None, al_current := Some cur'',
               al_log := al_log al @ [logline]\<rparr>)))"

definition al_stop :: "async_logging \<Rightarrow> async_logging" where
  "al_stop al = al\<lparr>al_running := False\<rparr>"

text \<open>The destructor stops a logger that still runs.\<close>

definition al_delete :: "async_logging \<Rightarrow> async_logging" where
  "al_delete al = (if al_running al then al_stop al else al)"

text \<open>The critical section after the wait.\<close>

definition al_swap :: "async_logging \<Rightarrow> async_logging result" where
  "al_swap al =
     bindE (deref (al_current al)) (\<lambda>cur.
     let toWrite = al_buffers al @ [cur];
         al1 = al\<lparr>al_current := al_new1 al, al_new1 := None, al_toWrite := toWrite, al_buffers := al_toWrite al\<rparr>;
         al2 = (if al_next al1 = None then al1\<lparr>al_next := al_new2 al1, al_new2 := None\<rparr> else al1) in
     Inr (al2\<lparr>al_pc := Swapped\<rparr>))"

text \<open>Top of the loop: the condition, the assertions, and the wait if there is nothing to write.\<close>

definition al_loop :: "async_logging \<Rightarrow> async_logging result" where
  "al_loop al =
     (if al_running al then
        bindE (assertE (case al_new1 al of None \<Rightarrow> False | Some b \<Rightarrow> fb_length b = 0) ''newBuffer1 && newBuffer1->length() == 0'') (\<lambda>_.
        bindE (assertE (case al_new2 al of None \<Rightarrow> False | Some b \<Rightarrow> fb_length b = 0) ''newBuffer2 && newBuffer2->length() == 0'') (\<lambda>_.
        bindE (assertE (al_toWrite al = []) ''buffersToWrite.empty()'') (\<lambda>_.
        if al_buffers al = [] then Inr (al\<lparr>al_pc := Waiting\<rparr>) else al_swap al)))
      else Inr (al\<lparr>al_pc := Done\<rparr>))"

text \<open>\<open>newBuffer = buffersToWrite.pop_back(); newBuffer->reset()\<close>, when the pointer is null.\<close>

definition refill :: "fixed_buffer option \<Rightarrow> fixed_buffer list \<Rightarrow> (fixed_buffer option \<times> fixed_buffer list) result" where
  "refill p bs = (case p of
     Some b \<Rightarrow> Inr (Some b, bs)
   | None \<Rightarrow> bindE (assertE (bs \<noteq> []) ''!buffersToWrite.empty()'') (\<lambda>_. Inr (Some (fb_reset (last bs)), butlast bs)))"

text \<open>The rest of the loop body; \<open>note\<close> is the text about dropped messages.\<close>

definition al_write :: "string \<Rightarrow> async_logging \<Rightarrow> async_logging result" where
  "al_write note al =
     bindE (assertE (al_toWrite al \<noteq> []) ''!buffersToWrite.empty()'') (\<lambda>_.
     let (out1, bs1) = (if length (al_toWrite al) > 25 then ([note], take 2 (al_toWrite al)) else ([], al_toWrite al));
         out2 = map asString bs1;
         bs2 = (if length bs1 > 2 then take 2 bs1 else bs1) in
     bindE (refill (al_new1 al) bs2) (\<lambda>(new1, bs3).
     bindE (refill (al_new2 al) bs3) (\<lambda>(new2, _).
     Inr (al\<lparr>al_output := al_output al @ out1 @ out2, al_new1 := new1, al_new2 := new2, al_toWrite := [], al_pc := AtLoop,
             al_overload := al_overload al \<or> length (al_toWrite al) > 25\<rparr>))))"

section \<open>The threads\<close>

inductive al_step :: "(async_logging result) \<Rightarrow> (async_logging result) \<Rightarrow> bool" where
  step_append: "al_step (Inr al) (al_append logline al)"
| step_stop: "al_step (Inr al) (Inr (al_stop al))"
| step_loop: "al_pc al = AtLoop \<Longrightarrow> al_step (Inr al) (al_loop al)"
| step_wake: "al_pc al = Waiting \<Longrightarrow> al_step (Inr al) (al_swap al)"
| step_write: "al_pc al = Swapped \<Longrightarrow> al_step (Inr al) (al_write note al)"

inductive_cases al_stepE: "al_step (Inr al) r"

definition al_init :: "async_logging result \<Rightarrow> bool" where
  "al_init r \<longleftrightarrow> r = Inr newAsyncLogging"

section \<open>The invariant\<close>

definition large :: "fixed_buffer \<Rightarrow> bool" where
  "large b \<longleftrightarrow> fb_ok b \<and> length (fb_data b) = kLargeBuffer"

definition empty_large :: "fixed_buffer \<Rightarrow> bool" where
  "empty_large b \<longleftrightarrow> large b \<and> fb_cur b = 0"

text \<open>The lines that fit into a buffer at all.\<close>

definition kept :: "string list \<Rightarrow> string" where
  "kept lines = concat (filter (\<lambda>l. length l < kLargeBuffer) lines)"

definition pending :: "async_logging \<Rightarrow> string" where
  "pending al = concat (map asString (al_toWrite al)) @ concat (map asString (al_buffers al)) @
     (case al_current al of None \<Rightarrow> [] | Some b \<Rightarrow> asString b)"

text \<open>The shared buffers; the pointers of the back-end thread by where it is; the texts.\<close>

definition shared_ok :: "async_logging \<Rightarrow> bool" where
  "shared_ok al \<longleftrightarrow> (\<exists>b. al_current al = Some b \<and> large b) \<and>
     (al_next al = None \<longrightarrow> al_buffers al \<noteq> []) \<and> pred_option empty_large (al_next al) \<and> list_all large (al_buffers al)"

definition local_ok :: "async_logging \<Rightarrow> bool" where
  "local_ok al \<longleftrightarrow> (if al_pc al = Swapped
     then al_new1 al = None \<and> al_toWrite al \<noteq> [] \<and> list_all large (al_toWrite al) \<and>
       (al_new2 al = None \<longrightarrow> 2 \<le> length (al_toWrite al)) \<and> pred_option empty_large (al_new2 al)
     else (\<exists>b. al_new1 al = Some b \<and> empty_large b) \<and> (\<exists>b. al_new2 al = Some b \<and> empty_large b) \<and> al_toWrite al = [])"

definition text_ok :: "async_logging \<Rightarrow> bool" where
  "text_ok al \<longleftrightarrow> (\<not> al_overload al \<longrightarrow> concat (al_output al) @ pending al = kept (al_log al))"

definition al_ok :: "async_logging \<Rightarrow> bool" where
  "al_ok al \<longleftrightarrow> shared_ok al \<and> local_ok al \<and> text_ok al"

lemma empty_large_newBuf [simp]: "empty_large newBuf"
  by (simp add: empty_large_def large_def newBuf_def newFixedBuffer_def fb_ok_def)

lemma asString_empty [simp]: "empty_large b \<Longrightarrow> asString b = []"
  by (simp add: empty_large_def asString_def)

lemma large_append:
  assumes "large b"
  shows "\<exists>b'. fb_append s b = Inr b' \<and> large b' \<and>
    asString b' = (if fb_avail b > int (length s) then asString b @ s else asString b)"
  using puts_append [of b s] assms fb_avail_room(2) [of b "length s"] by (auto simp: large_def puts_def)

lemma empty_avail: "empty_large b \<Longrightarrow> fb_avail b > int (length s) \<longleftrightarrow> length s < kLargeBuffer"
  by (simp add: empty_large_def large_def fb_avail_def)

lemma al_append_ok:
  assumes "al_ok al"
  shows "\<exists>al'. al_append s al = Inr al' \<and> al_ok al'"
proof -
  from assms obtain cur where cur: "al_current al = Some cur" "large cur" by (auto simp: al_ok_def shared_ok_def)
  show ?thesis
  proof (cases "fb_avail cur > int (length s)")
    case True
    from large_append [OF cur(2), of s] True obtain b where
      b: "fb_append s cur = Inr b" "large b" "asString b = asString cur @ s" by auto
    have "length s < kLargeBuffer" using True cur(2) by (simp add: fb_avail_def large_def)
    then show ?thesis using assms True cur b
      by (auto simp: al_append_def deref_def al_ok_def shared_ok_def local_ok_def text_ok_def pending_def kept_def)
  next
    case False
    let ?nb = "case al_next al of Some nb \<Rightarrow> nb | None \<Rightarrow> newBuf"
    have nb: "empty_large ?nb" using assms by (auto simp: al_ok_def shared_ok_def split: option.splits)
    from large_append [of ?nb s] nb obtain b where
      b: "fb_append s ?nb = Inr b" "large b" "asString b = (if length s < kLargeBuffer then s else [])"
      using empty_avail [OF nb, of s] by (auto simp: empty_large_def split: if_splits)
    let ?al = "al\<lparr>al_buffers := al_buffers al @ [cur], al_next := None, al_current := Some b, al_log := al_log al @ [s]\<rparr>"
    have "al_append s al = Inr ?al" using False cur b(1) by (simp add: al_append_def deref_def Let_def)
    moreover have "al_ok ?al" using assms cur b(2,3)
      by (auto simp: al_ok_def shared_ok_def local_ok_def text_ok_def pending_def kept_def)
    ultimately show ?thesis by blast
  qed
qed

lemma al_swap_ok:
  assumes "al_ok al" and "al_pc al \<noteq> Swapped"
  shows "\<exists>al'. al_swap al = Inr al' \<and> al_ok al' \<and> al_pc al' = Swapped \<and> length (al_toWrite al') = length (al_buffers al) + 1 \<and>
    pending al' = concat (map asString (al_toWrite al')) \<and> al_output al' = al_output al \<and> al_log al' = al_log al \<and>
    al_overload al' = al_overload al"
proof -
  from assms obtain cur b1 b2 where b: "al_current al = Some cur" "large cur" "al_new1 al = Some b1" "empty_large b1"
    "al_new2 al = Some b2" "empty_large b2" "al_toWrite al = []" by (auto simp: al_ok_def shared_ok_def local_ok_def)
  have "0 < length (al_buffers al)" if "al_next al = None"
    using that assms(1) by (auto simp: al_ok_def shared_ok_def)
  then show ?thesis using assms b
    by (cases "al_next al") (auto simp: al_swap_def deref_def al_ok_def shared_ok_def local_ok_def text_ok_def pending_def
        empty_large_def Let_def Suc_le_eq)
qed

lemma refill_ok:
  assumes "p = None \<Longrightarrow> bs \<noteq> []" and "pred_option empty_large p" and "list_all large bs"
  shows "\<exists>b bs'. refill p bs = Inr (Some b, bs') \<and> empty_large b \<and> list_all large bs' \<and>
    bs' = (if p = None then butlast bs else bs)"
proof (cases p)
  case None
  then have "large (last bs)" using assms by (simp add: list_all_iff)
  then have "empty_large (fb_reset (last bs))" by (simp add: empty_large_def large_def fb_reset_def fb_ok_def)
  moreover have "list_all large (butlast bs)" using assms(3) by (auto simp: list_all_iff dest: in_set_butlastD)
  ultimately show ?thesis using None assms by (simp add: refill_def)
qed (use assms in \<open>simp add: refill_def\<close>)

lemma al_write_ok:
  assumes "al_ok al" and "al_pc al = Swapped"
  shows "\<exists>al'. al_write nt al = Inr al' \<and> al_ok al' \<and> al_pc al' = AtLoop \<and> al_log al' = al_log al \<and> al_current al' = al_current al \<and>
    al_buffers al' = al_buffers al \<and> al_overload al' = (al_overload al \<or> length (al_toWrite al) > 25)"
proof -
  from assms have new: "al_new1 al = None" "al_toWrite al \<noteq> []" "list_all large (al_toWrite al)"
    "al_new2 al = None \<longrightarrow> 2 \<le> length (al_toWrite al)" "pred_option empty_large (al_new2 al)" by (auto simp: al_ok_def local_ok_def)
  define bs1 where "bs1 = (if length (al_toWrite al) > 25 then take 2 (al_toWrite al) else al_toWrite al)"
  define out1 where "out1 = (if length (al_toWrite al) > 25 then [nt] else [])"
  define bs2 where "bs2 = (if length bs1 > 2 then take 2 bs1 else bs1)"
  have sub: "set bs2 \<subseteq> set (al_toWrite al)" unfolding bs2_def bs1_def by (auto dest: in_set_takeD)
  have len: "bs2 \<noteq> []" "al_new2 al = None \<Longrightarrow> 2 \<le> length bs2" using new by (auto simp: bs2_def bs1_def min_def)
  have large: "list_all large bs2" using sub new(3) by (auto simp: list_all_iff)
  obtain n1 where n1: "refill None bs2 = Inr (Some n1, butlast bs2)" "empty_large n1" "list_all large (butlast bs2)"
    using refill_ok [of None bs2] len(1) large by auto
  have "butlast bs2 \<noteq> []" if "al_new2 al = None"
  proof -
    have "0 < length (butlast bs2)" using len(2) that by simp
    then show ?thesis by (metis list.size(3) less_irrefl)
  qed
  from refill_ok [OF this new(5) n1(3)] obtain n2 bs3 where n2: "refill (al_new2 al) (butlast bs2) = Inr (Some n2, bs3)" "empty_large n2" by blast
  let ?al = "al\<lparr>al_output := al_output al @ out1 @ map asString bs1, al_new1 := Some n1, al_new2 := Some n2, al_toWrite := [], al_pc := AtLoop,
    al_overload := al_overload al \<or> length (al_toWrite al) > 25\<rparr>"
  have "al_write nt al = Inr ?al" using new(1,2) n1(1) n2(1)
    by (auto simp: al_write_def out1_def bs1_def bs2_def Let_def)
  moreover have "al_ok ?al" using assms n1(2) n2(2)
    by (auto simp: al_ok_def shared_ok_def local_ok_def text_ok_def pending_def out1_def bs1_def)
  ultimately show ?thesis by (intro exI [of _ ?al]) simp
qed

lemma al_loop_ok:
  assumes "al_ok al" and "al_pc al = AtLoop"
  shows "\<exists>al'. al_loop al = Inr al' \<and> al_ok al'"
proof -
  have "al_loop al = (if al_running al then if al_buffers al = [] then Inr (al\<lparr>al_pc := Waiting\<rparr>) else al_swap al
      else Inr (al\<lparr>al_pc := Done\<rparr>))"
    using assms by (auto simp: al_loop_def al_ok_def local_ok_def empty_large_def fb_length_def)
  moreover have "al_ok (al\<lparr>al_pc := Waiting\<rparr>)" "al_ok (al\<lparr>al_pc := Done\<rparr>)"
    using assms by (auto simp: al_ok_def shared_ok_def local_ok_def text_ok_def pending_def)
  moreover have "\<exists>al'. al_swap al = Inr al' \<and> al_ok al'" using al_swap_ok [OF assms(1)] assms(2) by auto
  ultimately show ?thesis by auto
qed

definition al_inv :: "async_logging result \<Rightarrow> bool" where
  "al_inv r \<longleftrightarrow> (\<exists>al. r = Inr al \<and> al_ok al)"

interpretation async: step_invariant al_init al_step al_inv
proof
  show "al_inv s" if "al_init s" for s
    using that empty_large_newBuf
    by (auto simp: al_init_def al_inv_def newAsyncLogging_def al_ok_def shared_ok_def local_ok_def text_ok_def pending_def
        kept_def empty_large_def)
  show "al_inv t" if "al_inv s" "al_step s t" for s t
  proof -
    from that(1) obtain al where al: "s = Inr al" "al_ok al" by (auto simp: al_inv_def)
    from that(2) show ?thesis
    proof (cases rule: al_step.cases)
      case (step_stop al')
      then show ?thesis using al
        by (auto simp: al_inv_def al_stop_def al_ok_def shared_ok_def local_ok_def text_ok_def pending_def)
    next
      case (step_append al' line)
      then show ?thesis using al_append_ok [of al' line] al by (auto simp: al_inv_def)
    next
      case (step_loop al')
      then show ?thesis using al_loop_ok [of al'] al by (auto simp: al_inv_def)
    next
      case (step_wake al')
      then show ?thesis using al_swap_ok [of al'] al by (auto simp: al_inv_def)
    next
      case (step_write al' nt)
      then show ?thesis using al_write_ok [of al' nt] al by (auto simp: al_inv_def)
    qed
  qed
qed

text \<open>
  Asynchronous logging keeps the order and loses nothing while it runs: in every interleaving of
  front-end threads appending, \<open>stop\<close>, and the back-end thread waiting, swapping and writing, no assertion
  fails and no null buffer is used; and unless the back end once found more than 25 buffers and dropped
  some, what was written to the file, followed by what is in the buffers, is exactly the lines appended in their
  order (except single lines of four million bytes, which fit into no buffer).
\<close>

theorem async_no_loss:
  assumes "reach al_init al_step r"
  shows "\<exists>al. r = Inr al \<and> (\<not> al_overload al \<longrightarrow> concat (al_output al) @ pending al = kept (al_log al))"
  using async.reach_inv [OF assms] by (auto simp: al_inv_def al_ok_def text_ok_def)

theorem async_no_loss_witness:
  "\<exists>al. al_append ''x'' newAsyncLogging = Inr al \<and> (\<not> al_overload al \<longrightarrow> concat (al_output al) @ pending al = kept (al_log al))"
proof -
  have "reach al_init al_step (al_append ''x'' newAsyncLogging)"
    by (rule reach_step [where s = "Inr newAsyncLogging"]) (auto simp: al_init_def intro: reach_init step_append)
  from async_no_loss [OF this] show ?thesis by blast
qed

text \<open>
  One round of the back end empties the buffers: a waiting back-end thread that wakes up, by
  notification or timeout, with at most 25 buffers to write, writes all lines appended so far.
\<close>

theorem async_round_writes_all:
  assumes "reach al_init al_step (Inr al)" and "al_pc al = Waiting" and "\<not> al_overload al" and "length (al_buffers al) < 25"
  shows "\<exists>al1 al2. al_swap al = Inr al1 \<and> al_write nt al1 = Inr al2 \<and> al_pc al2 = AtLoop \<and>
    concat (al_output al2) = kept (al_log al)"
proof -
  from async.reach_inv [OF assms(1)] have ok: "al_ok al" by (simp add: al_inv_def)
  from al_swap_ok [OF ok] assms(2) obtain al1 where
    al1: "al_swap al = Inr al1" "al_ok al1" "al_pc al1 = Swapped" "length (al_toWrite al1) = length (al_buffers al) + 1"
      "pending al1 = concat (map asString (al_toWrite al1))" "al_log al1 = al_log al" "al_overload al1 = al_overload al" by auto
  from al_write_ok [OF al1(2,3), of nt] obtain al2 where
    al2: "al_write nt al1 = Inr al2" "al_ok al2" "al_pc al2 = AtLoop" "al_log al2 = al_log al1"
      "al_current al2 = al_current al1" "al_buffers al2 = al_buffers al1" "\<not> al_overload al2"
    using al1(4,7) assms(3,4) by auto
  have "al_toWrite al2 = []" using al2(2,3) by (simp add: al_ok_def local_ok_def)
  then have "pending al2 = []" using al1(5) al2(5,6) by (simp add: pending_def)
  then show ?thesis using al1 al2 by (auto simp: al_ok_def text_ok_def)
qed

text \<open>Lines appended before \<open>start\<close> wait in the buffers: starting first and appending then is the same.\<close>

lemma start_new: "al_start AsyncLogging = Inr newAsyncLogging"
  by (simp add: al_start_def AsyncLogging_def newAsyncLogging_def)

lemma append_before_start:
  assumes "al_append s al = Inr al1" and "al_start al1 = Inr al2"
  shows "\<exists>al'. al_start al = Inr al' \<and> al_append s al' = Inr al2"
proof -
  have "al_pc al1 = al_pc al" using assms(1) by (auto simp: al_append_def Let_def split: if_splits)
  then have "al_pc al = NotStarted" using assms(2) by (auto simp: al_start_def)
  then show ?thesis using assms
    by (cases "al_current al") (auto simp: al_start_def al_append_def deref_def Let_def split: if_splits)
qed

lemma async_reach1: "reach al_init al_step (Inr (newAsyncLogging\<lparr>al_pc := Waiting\<rparr>))"
proof -
  have "al_loop newAsyncLogging = Inr (newAsyncLogging\<lparr>al_pc := Waiting\<rparr>)"
    by (simp add: al_loop_def newAsyncLogging_def newBuf_def newFixedBuffer_def fb_length_def)
  moreover have "al_step (Inr newAsyncLogging) (al_loop newAsyncLogging)"
    by (rule step_loop) (simp add: newAsyncLogging_def)
  ultimately show ?thesis
    using reach_step [of al_init al_step "Inr newAsyncLogging"] by (simp add: al_init_def reach_init)
qed

theorem async_round_writes_all_witness:
  "\<exists>al1 al2. al_swap (newAsyncLogging\<lparr>al_pc := Waiting\<rparr>) = Inr al1 \<and> al_write ''dropped'' al1 = Inr al2 \<and> concat (al_output al2) = []"
proof -
  let ?al = "newAsyncLogging\<lparr>al_pc := Waiting\<rparr>"
  have "al_pc ?al = Waiting" "\<not> al_overload ?al" "length (al_buffers ?al) < 25" "kept (al_log ?al) = []"
    by (simp_all add: newAsyncLogging_def kept_def)
  from async_round_writes_all [OF async_reach1 this(1-3), of "''dropped''"] this(4) show ?thesis by auto
qed

text \<open>
  Stopping loses the last lines: a line that is appended while the back-end thread is not
  waiting, followed by \<open>stop\<close>, is never written, because the thread leaves its loop without
  looking at the buffers again.
\<close>

theorem async_stop_loses_lines:
  assumes "length s < kLargeBuffer"
  shows "\<exists>al. reach al_init al_step (Inr al) \<and> al_pc al = Done \<and> al_log al = [s] \<and> al_output al = [] \<and> pending al = s"
proof -
  have init: "reach al_init al_step (Inr newAsyncLogging)" by (rule reach_init) (simp add: al_init_def)
  have ok: "al_ok newAsyncLogging" using async.inv_init [of "Inr newAsyncLogging"] by (simp add: al_init_def al_inv_def)
  have "fb_avail newBuf > int (length s)" unfolding empty_avail [OF empty_large_newBuf] by (rule assms)
  then obtain b where b: "fb_append s newBuf = Inr b" "asString b = s"
    using large_append [of newBuf s] empty_large_newBuf by (auto simp: empty_large_def)
  define al1 where "al1 = newAsyncLogging\<lparr>al_current := Some b, al_log := [s]\<rparr>"
  have "al_append s newAsyncLogging = Inr al1"
    using b(1) \<open>fb_avail newBuf > int (length s)\<close> by (simp add: al_append_def deref_def newAsyncLogging_def al1_def)
  then have r1: "reach al_init al_step (Inr al1)" using reach_step [OF init step_append, of s] by simp
  have r2: "reach al_init al_step (Inr (al_stop al1))" by (rule reach_step [OF r1 step_stop])
  have "al_loop (al_stop al1) = Inr (al1\<lparr>al_running := False, al_pc := Done\<rparr>)" by (simp add: al_loop_def al_stop_def)
  moreover have "al_pc (al_stop al1) = AtLoop" by (simp add: al_stop_def al1_def newAsyncLogging_def)
  ultimately have "reach al_init al_step (Inr (al1\<lparr>al_running := False, al_pc := Done\<rparr>))"
    using reach_step [OF r2 step_loop] by simp
  moreover have "pending (al1\<lparr>al_running := False, al_pc := Done\<rparr>) = s"
    by (simp add: pending_def al1_def newAsyncLogging_def b(2))
  ultimately show ?thesis by (intro exI [of _ "al1\<lparr>al_running := False, al_pc := Done\<rparr>"]) (simp add: al1_def newAsyncLogging_def)
qed

theorem async_stop_loses_lines_witness:
  "\<exists>al. reach al_init al_step (Inr al) \<and> al_pc al = Done \<and> al_log al = [''last words''] \<and> al_output al = []"
proof -
  have "length ''last words'' < kLargeBuffer" by (simp add: kLargeBuffer_def)
  from async_stop_loses_lines [OF this] show ?thesis by blast
qed

end
