(* ===== verification/Log_File.thy ===== *)
theory Log_File
  imports Logging
begin

text \<open>
  \<open>src/muduo/base/LogFile.{h,cc}\<close>: log files that are rolled by size and by day.

  The files on disk are the file that is open and those closed before it, each with its name, the
  bytes handed to \<open>fwrite_unlocked\<close>, the count \<open>writtenBytes_\<close> and how many bytes were flushed. What \<open>time(NULL)\<close>
  returns is an argument: \<open>append_unlocked\<close> and \<open>rollFile\<close> ask for it separately. How many bytes the \<open>k\<close>-th
  call of \<open>fwrite_unlocked\<close> takes in one \<open>append\<close> is \<open>fw k len\<close>; it takes none when it fails. The text of a file is what the calls of
  \<open>fwrite_unlocked\<close> took; what \<open>fflush\<close> and \<open>fclose\<close> return is not looked at by the code.
\<close>

record open_file =
  of_name :: string
  of_opened :: int
  of_text :: string
  of_written :: nat
  of_flushed :: nat

record log_file =
  lf_basename :: string
  lf_rollSize :: nat
  lf_flushInterval :: int
  lf_count :: int
  lf_startOfPeriod :: int
  lf_lastRoll :: int
  lf_lastFlush :: int
  lf_file :: "open_file option"
  lf_closed :: "open_file list"

definition kCheckTimeRoll :: int where "kCheckTimeRoll = 1024"
definition kRollPerSeconds :: int where "kRollPerSeconds = 60 * 60 * 24"

section \<open>LogFile::File\<close>

definition newFile :: "string \<Rightarrow> int \<Rightarrow> open_file" where
  "newFile filename now = \<lparr>of_name = filename, of_opened = now, of_text = [], of_written = 0, of_flushed = 0\<rparr>"

text \<open>
  The loop of \<open>File::append\<close>: \<open>n\<close> bytes were taken so far; it stops when \<open>fwrite_unlocked\<close> takes none.
  The result is the number of bytes taken in the end.
\<close>

function write_loop :: "(nat \<Rightarrow> nat \<Rightarrow> nat) \<Rightarrow> nat \<Rightarrow> nat \<Rightarrow> nat \<Rightarrow> nat" where
  "write_loop fw k n len =
     (if n < len then let x = fw k (len - n) in if x = 0 then n else write_loop fw (Suc k) (n + x) len else n)"
  by auto
termination by (relation "measure (\<lambda>(_, _, n, len). len - n)") auto

declare write_loop.simps [simp del]

definition File_append :: "(nat \<Rightarrow> nat \<Rightarrow> nat) \<Rightarrow> string \<Rightarrow> open_file \<Rightarrow> open_file" where
  "File_append fw logline f =
     (let n = fw 0 (length logline);
          n' = write_loop fw 1 n (length logline) in
      f\<lparr>of_text := of_text f @ take n' logline, of_written := of_written f + length logline\<rparr>)"

definition File_flush :: "open_file \<Rightarrow> open_file" where
  "File_flush f = f\<lparr>of_flushed := length (of_text f)\<rparr>"

section \<open>LogFile\<close>

text \<open>\<open>.%Y%m%d-%H%M%S.\<close>\<close>

definition file_time_text :: "tm \<Rightarrow> string" where
  "file_time_text t = ''.'' @ dec_int (tm_year t + 1900) @ zpad 2 (tm_mon t + 1) @ zpad 2 (tm_mday t) @ ''-'' @
     zpad 2 (tm_hour t) @ zpad 2 (tm_min t) @ zpad 2 (tm_sec t) @ ''.''"

definition getLogFileName :: "string \<Rightarrow> int \<Rightarrow> string \<Rightarrow> int \<Rightarrow> string result" where
  "getLogFileName hostname pid basename now = (case gmtime now of
     None \<Rightarrow> Inl (Undefined_Behaviour ''tm'')
   | Some t \<Rightarrow> Inr (basename @ file_time_text t @ hostname @ ''.'' @ dec_int pid @ ''.log''))"

definition rollFile :: "string \<Rightarrow> int \<Rightarrow> int \<Rightarrow> log_file \<Rightarrow> log_file result" where
  "rollFile hostname pid now lf =
     bindE (getLogFileName hostname pid (lf_basename lf) now) (\<lambda>filename.
     let start = now sdiv kRollPerSeconds * kRollPerSeconds in
     Inr (if now > lf_lastRoll lf then
            lf\<lparr>lf_lastRoll := now, lf_lastFlush := now, lf_startOfPeriod := start,
               lf_file := Some (newFile filename now),
               lf_closed := lf_closed lf @ (case lf_file lf of None \<Rightarrow> [] | Some f \<Rightarrow> [File_flush f])\<rparr>
          else lf))"

definition newLogFile :: "string \<Rightarrow> int \<Rightarrow> int \<Rightarrow> string \<Rightarrow> nat \<Rightarrow> int \<Rightarrow> log_file result" where
  "newLogFile hostname pid now basename rollSize flushInterval =
     bindE (assertE (CHR ''/'' \<notin> set basename) ''basename.find(/) == string::npos'') (\<lambda>_.
     rollFile hostname pid now \<lparr>lf_basename = basename, lf_rollSize = rollSize, lf_flushInterval = flushInterval,
       lf_count = 0, lf_startOfPeriod = 0, lf_lastRoll = 0, lf_lastFlush = 0, lf_file = None, lf_closed = []\<rparr>)"

text \<open>\<open>file_->\<close> on a file that was never opened.\<close>

definition the_file :: "log_file \<Rightarrow> open_file result" where
  "the_file lf = (case lf_file lf of None \<Rightarrow> Inl (Undefined_Behaviour ''file_'') | Some f \<Rightarrow> Inr f)"

definition append_unlocked ::
  "(nat \<Rightarrow> nat \<Rightarrow> nat) \<Rightarrow> string \<Rightarrow> int \<Rightarrow> int \<Rightarrow> int \<Rightarrow> string \<Rightarrow> log_file \<Rightarrow> log_file result" where
  "append_unlocked fw hostname pid now nowRoll logline lf =
     bindE (the_file lf) (\<lambda>f.
     let f' = File_append fw logline f; lf1 = lf\<lparr>lf_file := Some f'\<rparr> in
     if of_written f' > lf_rollSize lf1 then rollFile hostname pid nowRoll lf1
     else if lf_count lf1 > kCheckTimeRoll then
       let lf2 = lf1\<lparr>lf_count := 0\<rparr>;
           thisPeriod = now sdiv kRollPerSeconds * kRollPerSeconds in
       if thisPeriod \<noteq> lf_startOfPeriod lf2 then rollFile hostname pid nowRoll lf2
       else if now - lf_lastFlush lf2 > lf_flushInterval lf2
       then Inr (lf2\<lparr>lf_lastFlush := now, lf_file := Some (File_flush f')\<rparr>)
       else Inr lf2
     else Inr (lf1\<lparr>lf_count := lf_count lf1 + 1\<rparr>))"

text \<open>\<open>append\<close> and \<open>flush\<close> take the lock, if there is one, around the whole operation.\<close>

definition LogFile_append ::
  "string \<Rightarrow> int \<Rightarrow> (nat \<Rightarrow> nat \<Rightarrow> nat) \<times> int \<times> int \<times> string \<Rightarrow> log_file \<Rightarrow> log_file result" where
  "LogFile_append hostname pid call lf = (case call of (fw, now, nowRoll, logline) \<Rightarrow>
     append_unlocked fw hostname pid now nowRoll logline lf)"

definition LogFile_flush :: "log_file \<Rightarrow> log_file result" where
  "LogFile_flush lf = bindE (the_file lf) (\<lambda>f. Inr (lf\<lparr>lf_file := Some (File_flush f)\<rparr>))"

section \<open>What the files hold\<close>

text \<open>\<open>fwrite_unlocked\<close> takes no more than it is given; it may take less, and nothing at all.\<close>

definition fwrite_ok :: "(nat \<Rightarrow> nat \<Rightarrow> nat) \<Rightarrow> bool" where
  "fwrite_ok fw \<longleftrightarrow> (\<forall>k len. fw k len \<le> len)"

text \<open>
  What of a text is written: a first part of it, and less than all only when a call after the first one was given all the rest of the text
  and took nothing.
\<close>

definition written_part :: "(nat \<Rightarrow> nat \<Rightarrow> nat) \<Rightarrow> string \<Rightarrow> string \<Rightarrow> bool" where
  "written_part fw s part \<longleftrightarrow> (\<exists>n. part = take n s) \<and> (part = s \<or> (\<exists>k\<ge>1. fw k (length s - length part) = 0))"

lemma write_loop_part:
  "fwrite_ok fw \<Longrightarrow> n \<le> len \<Longrightarrow> write_loop fw k n len \<le> len \<and> (write_loop fw k n len = len \<or> (\<exists>j\<ge>k. fw j (len - write_loop fw k n len) = 0))"
proof (induction fw k n len rule: write_loop.induct)
  case (1 fw k n len)
  let ?x = "fw k (len - n)"
  show ?case
  proof (cases "n < len \<and> ?x \<noteq> 0")
    case True
    have "n + ?x \<le> len" using True "1.prems"(1) by (simp add: fwrite_ok_def) (metis Nat.le_diff_conv2 add.commute less_imp_le)
    moreover have "write_loop fw k n len = write_loop fw (Suc k) (n + ?x) len" using True by (subst write_loop.simps) (simp add: Let_def)
    ultimately show ?thesis using "1.IH" [OF conjunct1 [OF True] refl _ "1.prems"(1)] True by (auto dest: Suc_leD)
  next
    case False
    then have "write_loop fw k n len = n" by (subst write_loop.simps) (auto simp: Let_def)
    then show ?thesis using False "1.prems"(2) by auto
  qed
qed

lemma File_append_part:
  assumes "fwrite_ok fw"
  shows "\<exists>part. written_part fw s part \<and> File_append fw s f = f\<lparr>of_text := of_text f @ part, of_written := of_written f + length s\<rparr>"
proof -
  let ?n = "write_loop fw 1 (fw 0 (length s)) (length s)"
  have "?n \<le> length s \<and> (?n = length s \<or> (\<exists>j\<ge>1. fw j (length s - ?n) = 0))"
    by (rule write_loop_part [OF assms]) (use assms in \<open>simp add: fwrite_ok_def\<close>)
  then have "written_part fw s (take ?n s)" by (auto simp: written_part_def)
  then show ?thesis by (intro exI [of _ "take ?n s"]) (simp add: File_append_def Let_def)
qed

text \<open>
  The files hold groups of texts, each with the part of it that is written: \<open>gs\<close> those closed and \<open>g\<close> the one that is open;
  \<open>writtenBytes_\<close> counts the texts, written or not; the files were opened at increasing times.
\<close>

definition holds :: "open_file \<Rightarrow> (string \<times> string) list \<Rightarrow> bool" where
  "holds f g \<longleftrightarrow> of_text f = concat (map snd g) \<and> of_written f = length (concat (map fst g))"

definition files_ok :: "log_file \<Rightarrow> (string \<times> string) list list \<Rightarrow> (string \<times> string) list \<Rightarrow> bool" where
  "files_ok lf gs g \<longleftrightarrow> list_all2 holds (lf_closed lf) gs \<and>
     (\<exists>f. lf_file lf = Some f \<and> holds f g \<and> of_opened f = lf_lastRoll lf \<and>
       sorted_wrt (<) (map of_opened (lf_closed lf) @ [of_opened f]))"

lemma rollFile_ok:
  assumes "files_ok lf gs g" and "gmtime now = Some t"
  shows "\<exists>lf' gs' g'. rollFile hostname pid now lf = Inr lf' \<and> files_ok lf' gs' g' \<and> concat gs' @ g' = concat gs @ g"
proof (cases "now > lf_lastRoll lf")
  case True
  from assms(1) obtain f where f: "list_all2 holds (lf_closed lf) gs" "lf_file lf = Some f" "holds f g"
    "of_opened f = lf_lastRoll lf" "sorted_wrt (<) (map of_opened (lf_closed lf) @ [of_opened f])" by (auto simp: files_ok_def)
  have "files_ok (lf\<lparr>lf_lastRoll := now, lf_lastFlush := now, lf_startOfPeriod := s,
      lf_file := Some (newFile n now), lf_closed := lf_closed lf @ [File_flush f]\<rparr>) (gs @ [g]) []" for s n
    using f True
    by (auto simp: files_ok_def holds_def newFile_def File_flush_def sorted_wrt_append intro!: list_all2_appendI)
  then show ?thesis using True assms(2) f(2)
    by (simp add: rollFile_def getLogFileName_def Let_def) (rule exI [of _ "gs @ [g]"], rule exI [of _ "[]"], simp)
next
  case False
  then show ?thesis using assms by (auto simp: rollFile_def getLogFileName_def Let_def)
qed

lemma append_unlocked_ok:
  assumes "fwrite_ok fw" and "files_ok lf gs g" and "gmtime nowRoll = Some t"
  shows "\<exists>lf' gs' g' part. append_unlocked fw hostname pid now nowRoll s lf = Inr lf' \<and> files_ok lf' gs' g' \<and>
    concat gs' @ g' = concat gs @ g @ [(s, part)] \<and> written_part fw s part"
proof -
  from assms(2) obtain f where f: "lf_file lf = Some f" "holds f g" by (auto simp: files_ok_def)
  from File_append_part [OF assms(1)] obtain part where
    part: "written_part fw s part" "File_append fw s f = f\<lparr>of_text := of_text f @ part, of_written := of_written f + length s\<rparr>" by blast
  let ?f = "File_append fw s f" and ?lf = "lf\<lparr>lf_file := Some (File_append fw s f)\<rparr>"
  let ?g = "g @ [(s, part)]"
  have lf1: "files_ok ?lf gs ?g" using assms(2) f by (auto simp: files_ok_def holds_def part(2))
  have keep: "files_ok (?lf\<lparr>lf_count := c\<rparr>) gs ?g"
    "files_ok (?lf\<lparr>lf_count := c, lf_lastFlush := l, lf_file := Some (File_flush ?f)\<rparr>) gs ?g" for c l
    using lf1 by (auto simp: files_ok_def holds_def File_flush_def)
  note roll = rollFile_ok [OF _ assms(3), where hostname = hostname and pid = pid]
  have "\<exists>lf' gs' g'. append_unlocked fw hostname pid now nowRoll s lf = Inr lf' \<and> files_ok lf' gs' g' \<and>
      concat gs' @ g' = concat gs @ ?g"
    using roll [OF lf1] roll [OF keep(1) [of 0]] keep
    by (auto simp: append_unlocked_def the_file_def f(1) Let_def)
      (rule exI [of _ gs], rule exI [of _ ?g], simp)
  then show ?thesis using part(1) by auto
qed

text \<open>
  No log line is lost, unless a write fails: whatever the sizes and times at which lines are appended, and
  however many pieces \<open>fwrite_unlocked\<close> takes each line in, the files, in the order they were opened, hold the lines in
  the order of the calls; of a line only the first part is there, exactly when a call of \<open>fwrite_unlocked\<close> other than the first one for the line took nothing.
  Every line is in one file, and the files were opened in different, increasing seconds.
\<close>

abbreviation call_line :: "(nat \<Rightarrow> nat \<Rightarrow> nat) \<times> int \<times> int \<times> string \<Rightarrow> string" where
  "call_line c \<equiv> snd (snd (snd c))"

theorem logfile_keeps_lines:
  assumes "list_all (\<lambda>(fw, now, nowRoll, line). fwrite_ok fw \<and> gmtime nowRoll \<noteq> None) calls"
    and "0 < t0" and "CHR ''/'' \<notin> set basename" and "gmtime t0 \<noteq> None"
  shows "\<exists>lf0 lf gs g parts. newLogFile hostname pid t0 basename rollSize interval = Inr lf0 \<and>
    foldE (LogFile_append hostname pid) calls lf0 = Inr lf \<and> files_ok lf gs g \<and>
    concat gs @ g = zip (map call_line calls) parts \<and> list_all2 (\<lambda>c part. written_part (fst c) (call_line c) part) calls parts"
proof -
  from assms(4) obtain t where t: "gmtime t0 = Some t" by auto
  then obtain lf0 where lf0: "newLogFile hostname pid t0 basename rollSize interval = Inr lf0" "files_ok lf0 [] []"
    using assms(2,3) by (simp add: newLogFile_def rollFile_def getLogFileName_def Let_def files_ok_def holds_def newFile_def)
  have run: "\<exists>lf' gs' g' parts. foldE (LogFile_append hostname pid) calls lf = Inr lf' \<and> files_ok lf' gs' g' \<and>
      concat gs' @ g' = concat gs @ g @ zip (map call_line calls) parts \<and> list_all2 (\<lambda>c part. written_part (fst c) (call_line c) part) calls parts"
    if "files_ok lf gs g" "list_all (\<lambda>(fw, now, nowRoll, line). fwrite_ok fw \<and> gmtime nowRoll \<noteq> None) calls" for lf gs g calls
    using that
  proof (induction calls arbitrary: lf gs g)
    case (Cons c calls)
    obtain fw now r line where c: "c = (fw, now, r, line)" by (cases c) auto
    then obtain u where fw: "fwrite_ok fw" "gmtime r = Some u" using Cons.prems(2) by auto
    from append_unlocked_ok [OF fw(1) Cons.prems(1) fw(2), of hostname pid now line] obtain lf1 gs1 g1 part where
      1: "LogFile_append hostname pid c lf = Inr lf1" "files_ok lf1 gs1 g1" "concat gs1 @ g1 = concat gs @ g @ [(line, part)]"
        "written_part fw line part" by (auto simp: LogFile_append_def c)
    from Cons.IH [OF 1(2)] Cons.prems(2) obtain lf' gs' g' parts where
      "foldE (LogFile_append hostname pid) calls lf1 = Inr lf'" "files_ok lf' gs' g'"
      "concat gs' @ g' = (concat gs1 @ g1) @ zip (map call_line calls) parts"
      "list_all2 (\<lambda>c part. written_part (fst c) (call_line c) part) calls parts" by auto
    then show ?case using 1 c by (intro exI [of _ lf'] exI [of _ gs'] exI [of _ g'] exI [of _ "part # parts"]) simp
  qed auto
  from run [OF lf0(2) assms(1)] show ?thesis using lf0(1) by auto
qed

text \<open>The second line is taken in pieces of two bytes until a call takes nothing.\<close>

theorem logfile_keeps_lines_witness:
  "\<exists>lf0 lf gs g parts. newLogFile ''host'' 42 1338712966 ''app'' 5 3 = Inr lf0 \<and>
    foldE (LogFile_append ''host'' 42) [(\<lambda>k len. min len 2, 1338712967, 1338712967, ''first''),
      (\<lambda>k len. if k = 2 then 0 else min len 2, 1338712968, 1338712968, ''second'')] lf0 = Inr lf \<and>
    files_ok lf gs g \<and> concat gs @ g = zip [''first'', ''second''] parts \<and> parts ! 0 = ''first''"
proof -
  let ?calls = "[(\<lambda>k len. min len 2, 1338712967, 1338712967, ''first''),
      (\<lambda>k len. if k = 2 then 0 else min len 2, 1338712968, 1338712968, ''second'')] :: ((nat \<Rightarrow> nat \<Rightarrow> nat) \<times> int \<times> int \<times> string) list"
  have g: "gmtime s \<noteq> None" if "time_range s" for s using timegm_gmtime [OF that] by auto
  have "gmtime 1338712966 \<noteq> None" by (rule g) (simp add: time_range_def)
  moreover have "list_all (\<lambda>(fw, now, nowRoll, line). fwrite_ok fw \<and> gmtime nowRoll \<noteq> None) ?calls"
    using g [of 1338712967] g [of 1338712968] by (simp add: time_range_def fwrite_ok_def)
  moreover have "0 < (1338712966 :: int)" "CHR ''/'' \<notin> set ''app''" by simp_all
  ultimately obtain lf0 lf gs g parts where r: "newLogFile ''host'' 42 1338712966 ''app'' 5 3 = Inr lf0"
    "foldE (LogFile_append ''host'' 42) ?calls lf0 = Inr lf" "files_ok lf gs g" "concat gs @ g = zip (map call_line ?calls) parts"
    "list_all2 (\<lambda>c part. written_part (fst c) (call_line c) part) ?calls parts"
    using logfile_keeps_lines [of ?calls 1338712966 "''app''" "''host''" 42 5 3] by blast
  then have "parts ! 0 = ''first''" by (cases parts) (auto simp: written_part_def)
  with r show ?thesis by auto
qed

end
