(* ===== verification/Log_Pipeline.thy ===== *)
theory Log_Pipeline
  imports Async_Logging Log_File
begin

text \<open>
  Asynchronous logging into files: the back-end thread of \<open>AsyncLogging\<close> with the \<open>LogFile output\<close> it owns
  (\<open>src/muduo/base/AsyncLogging.cc\<close>, \<open>LogFile.cc\<close>). Every text the back end writes in a round goes to
  \<open>LogFile::append\<close>, which may roll the file, and each round ends with a flush. The clock and the writes are arguments:
  for the text number \<open>i\<close> they give the two times that \<open>append\<close> and \<open>rollFile\<close> read, and how much each call of \<open>fwrite_unlocked\<close> takes.
\<close>

section \<open>The back end and its file\<close>

record log_pipe =
  lp_async :: async_logging
  lp_file :: log_file

type_synonym file_env = "(nat \<Rightarrow> nat \<Rightarrow> nat \<Rightarrow> nat) \<times> string \<times> int \<times> (nat \<Rightarrow> int \<times> int)"

definition file_calls ::
  "(nat \<Rightarrow> nat \<Rightarrow> nat \<Rightarrow> nat) \<Rightarrow> (nat \<Rightarrow> int \<times> int) \<Rightarrow> nat \<Rightarrow> string list \<Rightarrow> ((nat \<Rightarrow> nat \<Rightarrow> nat) \<times> int \<times> int \<times> string) list" where
  "file_calls fw clk n texts = map (\<lambda>i. (fw (n + i), fst (clk (n + i)), snd (clk (n + i)), texts ! i)) [0..<length texts]"

text \<open>The writing half of a round of \<open>threadFunc\<close>: the texts to the file, then \<open>output.flush()\<close>.\<close>

definition lp_write :: "file_env \<Rightarrow> string \<Rightarrow> log_pipe \<Rightarrow> log_pipe result" where
  "lp_write env nt p = (case env of (fw, hostname, pid, clk) \<Rightarrow>
     bindE (al_write nt (lp_async p)) (\<lambda>al.
     let n = length (al_output (lp_async p)) in
     bindE (foldE (LogFile_append hostname pid) (file_calls fw clk n (drop n (al_output al))) (lp_file p)) (\<lambda>lf.
     bindE (LogFile_flush lf) (\<lambda>lf'.
     Inr \<lparr>lp_async = al, lp_file = lf'\<rparr>))))"

text \<open>The other steps leave the file alone.\<close>

definition lp_lift :: "log_pipe \<Rightarrow> async_logging result \<Rightarrow> log_pipe result" where
  "lp_lift p r = bindE r (\<lambda>al. Inr (p\<lparr>lp_async := al\<rparr>))"

text \<open>What the back end does, and \<open>stop\<close>.\<close>

inductive lp_back :: "file_env \<Rightarrow> log_pipe \<Rightarrow> log_pipe result \<Rightarrow> bool" for env where
  lp_stop: "lp_back env p (lp_lift p (Inr (al_stop (lp_async p))))"
| lp_loop: "al_pc (lp_async p) = AtLoop \<Longrightarrow> lp_back env p (lp_lift p (al_loop (lp_async p)))"
| lp_wake: "al_pc (lp_async p) = Waiting \<Longrightarrow> lp_back env p (lp_lift p (al_swap (lp_async p)))"
| lp_writes: "al_pc (lp_async p) = Swapped \<Longrightarrow> lp_back env p (lp_write env nt p)"

inductive lp_step :: "file_env \<Rightarrow> log_pipe result \<Rightarrow> log_pipe result \<Rightarrow> bool" for env where
  lp_append: "lp_step env (Inr p) (lp_lift p (al_append logline (lp_async p)))"
| lp_backs: "lp_back env p r \<Longrightarrow> lp_step env (Inr p) r"

text \<open>The start of \<open>threadFunc\<close>: the file is opened.\<close>

definition lp_start :: "file_env \<Rightarrow> int \<Rightarrow> string \<Rightarrow> nat \<Rightarrow> int \<Rightarrow> log_pipe result" where
  "lp_start env now basename rollSize interval = (case env of (fw, hostname, pid, clk) \<Rightarrow>
     bindE (newLogFile hostname pid now basename rollSize interval) (\<lambda>lf.
     Inr \<lparr>lp_async = newAsyncLogging, lp_file = lf\<rparr>))"

definition lp_init :: "file_env \<Rightarrow> int \<Rightarrow> string \<Rightarrow> nat \<Rightarrow> int \<Rightarrow> log_pipe result \<Rightarrow> bool" where
  "lp_init env now basename rollSize interval r \<longleftrightarrow> r = lp_start env now basename rollSize interval"

text \<open>What is in the files, in the order they were opened.\<close>

definition file_text :: "log_file \<Rightarrow> string" where
  "file_text lf = concat (map of_text (lf_closed lf)) @ (case lf_file lf of None \<Rightarrow> [] | Some f \<Rightarrow> of_text f)"

section \<open>The file follows the output\<close>

definition env_ok :: "file_env \<Rightarrow> bool" where
  "env_ok env \<longleftrightarrow> (case env of (fw, hostname, pid, clk) \<Rightarrow> (\<forall>i. fwrite_ok (fw i)) \<and> (\<forall>i. gmtime (snd (clk i)) \<noteq> None))"

text \<open>The files hold what was written of the texts.\<close>

definition in_files :: "(nat \<Rightarrow> nat \<Rightarrow> nat \<Rightarrow> nat) \<Rightarrow> string list \<Rightarrow> string list \<Rightarrow> log_file \<Rightarrow> bool" where
  "in_files fw texts parts lf \<longleftrightarrow> length parts = length texts \<and> (\<exists>gs g. files_ok lf gs g \<and> concat gs @ g = zip texts parts) \<and>
     (\<forall>i < length texts. written_part (fw i) (texts ! i) (parts ! i))"

lemma in_files_text:
  assumes "in_files fw texts parts lf"
  shows "file_text lf = concat parts"
proof -
  from assms obtain gs g f where f: "list_all2 holds (lf_closed lf) gs" "lf_file lf = Some f" "holds f g" "concat gs @ g = zip texts parts"
    "length parts = length texts" by (auto simp: in_files_def files_ok_def)
  from f(1) have "concat (map of_text (lf_closed lf)) = concat (map snd (concat gs))"
    by (induction rule: list_all2_induct) (auto simp: holds_def)
  then have "file_text lf = concat (map snd (concat gs @ g))" using f(2,3) by (simp add: file_text_def holds_def)
  then show ?thesis unfolding f(4) using f(5) by simp
qed

text \<open>What a text of the files is worth: every text is there up to where a write of it failed.\<close>

definition stored :: "file_env \<Rightarrow> string list \<Rightarrow> string \<Rightarrow> bool" where
  "stored env texts txt \<longleftrightarrow> (\<exists>parts. length parts = length texts \<and> txt = concat parts \<and>
     (\<forall>i < length texts. written_part (fst env i) (texts ! i) (parts ! i)))"

definition writes_succeed :: "file_env \<Rightarrow> bool" where
  "writes_succeed env \<longleftrightarrow> (\<forall>i k len. 1 \<le> k \<and> 0 < len \<longrightarrow> 0 < fst env i k len)"

lemma in_files_stored: "in_files (fst env) texts parts lf \<Longrightarrow> stored env texts (file_text lf)"
  using in_files_text [of "fst env" texts parts lf] by (auto simp: stored_def in_files_def)

lemma stored_all:
  assumes "writes_succeed env" and "stored env texts txt"
  shows "txt = concat texts"
proof -
  from assms(2) obtain parts where p: "length parts = length texts" "txt = concat parts"
    "\<forall>i < length texts. written_part (fst env i) (texts ! i) (parts ! i)" by (auto simp: stored_def)
  have "parts ! i = texts ! i" if "i < length texts" for i
  proof (rule ccontr)
    assume *: "parts ! i \<noteq> texts ! i"
    with p(3) that obtain n k where "parts ! i = take n (texts ! i)" "1 \<le> k" "fst env i k (length (texts ! i) - length (parts ! i)) = 0"
      by (auto simp: written_part_def)
    moreover from this have "0 < length (texts ! i) - length (parts ! i)" using * by auto
    ultimately have "0 < fst env i k (length (texts ! i) - length (parts ! i))" using assms(1) unfolding writes_succeed_def by blast
    then show False using \<open>fst env i k (length (texts ! i) - length (parts ! i)) = 0\<close> by simp
  qed
  then show ?thesis using p(1,2) nth_equalityI [of parts texts] by simp
qed

lemma append_in_files:
  assumes "fwrite_ok (fw (length texts))" and "gmtime r \<noteq> None" and "in_files fw texts parts lf"
  shows "\<exists>lf' part. LogFile_append hostname pid (fw (length texts), now, r, s) lf = Inr lf' \<and> in_files fw (texts @ [s]) (parts @ [part]) lf'"
proof -
  from assms(3) obtain gs g where g: "files_ok lf gs g" "concat gs @ g = zip texts parts" "length parts = length texts" by (auto simp: in_files_def)
  from assms(2) obtain t where "gmtime r = Some t" by auto
  from append_unlocked_ok [OF assms(1) g(1) this, of hostname pid now s] obtain lf' gs' g' part where
    1: "LogFile_append hostname pid (fw (length texts), now, r, s) lf = Inr lf'" "files_ok lf' gs' g'"
      "concat gs' @ g' = concat gs @ g @ [(s, part)]" "written_part (fw (length texts)) s part" by (auto simp: LogFile_append_def)
  have "concat gs' @ g' = zip (texts @ [s]) (parts @ [part])" using 1(3) g(2,3) by simp
  then have "in_files fw (texts @ [s]) (parts @ [part]) lf'"
    using assms(3) 1(2,4) g(3) by (auto simp: in_files_def nth_append less_Suc_eq)
  then show ?thesis using 1(1) by blast
qed

lemma appends_in_files:
  assumes "\<forall>i. fwrite_ok (fw i)" and "\<forall>i. gmtime (snd (clk i)) \<noteq> None" and "in_files fw texts parts lf"
  shows "\<exists>lf' parts'. foldE (LogFile_append hostname pid) (file_calls fw clk (length texts) news) lf = Inr lf' \<and> in_files fw (texts @ news) parts' lf'"
  using assms(3)
proof (induction news arbitrary: texts parts lf)
  case Nil
  then show ?case by (auto simp: file_calls_def)
next
  case (Cons s news)
  let ?n = "length texts"
  have calls: "file_calls fw clk ?n (s # news) = (fw ?n, fst (clk ?n), snd (clk ?n), s) # file_calls fw clk (length (texts @ [s])) news"
    by (simp add: file_calls_def upt_conv_Cons map_Suc_upt [symmetric] del: upt_Suc)
  from append_in_files [OF _ _ Cons.prems, of "snd (clk ?n)" hostname pid "fst (clk ?n)" s] assms(1,2) obtain lf1 part where
    1: "LogFile_append hostname pid (fw ?n, fst (clk ?n), snd (clk ?n), s) lf = Inr lf1" "in_files fw (texts @ [s]) (parts @ [part]) lf1" by auto
  from Cons.IH [OF 1(2)] show ?case unfolding calls using 1(1) by auto
qed

lemma flush_in_files:
  assumes "in_files fw texts parts lf"
  shows "\<exists>f. LogFile_flush lf = Inr (lf\<lparr>lf_file := Some f\<rparr>) \<and> of_flushed f = length (of_text f) \<and>
    in_files fw texts parts (lf\<lparr>lf_file := Some f\<rparr>)"
proof -
  from assms obtain gs g f where f: "files_ok lf gs g" "concat gs @ g = zip texts parts" "lf_file lf = Some f"
    by (auto simp: in_files_def files_ok_def)
  then have "files_ok (lf\<lparr>lf_file := Some (File_flush f)\<rparr>) gs g" by (auto simp: files_ok_def holds_def File_flush_def)
  then have "in_files fw texts parts (lf\<lparr>lf_file := Some (File_flush f)\<rparr>)" using f(2) assms by (auto simp: in_files_def)
  then show ?thesis using f(3) by (intro exI [of _ "File_flush f"]) (simp add: LogFile_flush_def the_file_def File_flush_def)
qed

text \<open>Only the writing half adds to the output, at its end.\<close>

lemma output_same:
  "al_append l al = Inr al' \<Longrightarrow> al_output al' = al_output al" "al_output (al_stop al) = al_output al"
  "al_swap al = Inr al' \<Longrightarrow> al_output al' = al_output al"
  by (auto simp: al_append_def al_stop_def al_swap_def Let_def split: if_splits)

lemma output_loop: "al_loop al = Inr al' \<Longrightarrow> al_output al' = al_output al"
  by (auto simp: al_loop_def dest: output_same(3) split: if_splits)

lemma output_write: "al_write nt al = Inr al' \<Longrightarrow> \<exists>news. al_output al' = al_output al @ news"
  by (auto simp: al_write_def Let_def split: if_splits)

definition lp_inv :: "file_env \<Rightarrow> log_pipe result \<Rightarrow> bool" where
  "lp_inv env r \<longleftrightarrow> (\<exists>p parts. r = Inr p \<and> reach al_init al_step (Inr (lp_async p)) \<and>
     in_files (fst env) (al_output (lp_async p)) parts (lp_file p))"

lemma lp_inv_text:
  assumes "lp_inv env (Inr p)"
  shows "stored env (al_output (lp_async p)) (file_text (lp_file p))"
    and "\<not> al_overload (lp_async p) \<Longrightarrow> concat (al_output (lp_async p)) @ pending (lp_async p) = kept (al_log (lp_async p))"
    and "\<not> al_overload (lp_async p) \<Longrightarrow> writes_succeed env \<Longrightarrow>
      file_text (lp_file p) @ pending (lp_async p) = kept (al_log (lp_async p))"
proof -
  from assms obtain parts where p: "reach al_init al_step (Inr (lp_async p))" "in_files (fst env) (al_output (lp_async p)) parts (lp_file p)"
    by (auto simp: lp_inv_def)
  show 1: "stored env (al_output (lp_async p)) (file_text (lp_file p))" by (rule in_files_stored [OF p(2)])
  show 2: "concat (al_output (lp_async p)) @ pending (lp_async p) = kept (al_log (lp_async p))" if "\<not> al_overload (lp_async p)"
    using async.reach_inv [OF p(1)] that by (auto simp: al_inv_def al_ok_def text_ok_def)
  show "file_text (lp_file p) @ pending (lp_async p) = kept (al_log (lp_async p))" if "\<not> al_overload (lp_async p)" "writes_succeed env"
    using 2 [OF that(1)] stored_all [OF that(2) 1] by simp
qed

lemma lp_lift_inv:
  assumes "lp_inv env (Inr p)" and "al_step (Inr (lp_async p)) r" and "\<And>al. r = Inr al \<Longrightarrow> al_output al = al_output (lp_async p)"
  shows "lp_inv env (lp_lift p r)"
proof -
  have "reach al_init al_step r" using assms(1,2) by (auto simp: lp_inv_def intro: reach_step)
  moreover from async.reach_inv [OF this] obtain al where "r = Inr al" by (auto simp: al_inv_def)
  ultimately show ?thesis using assms(1,3) by (auto simp: lp_inv_def lp_lift_def)
qed

lemma lp_write_ok:
  assumes "env_ok env" and "lp_inv env (Inr p)" and "al_pc (lp_async p) = Swapped"
  shows "\<exists>al lf f. al_write nt (lp_async p) = Inr al \<and> lp_write env nt p = Inr \<lparr>lp_async = al, lp_file = lf\<rparr> \<and>
    lp_inv env (Inr \<lparr>lp_async = al, lp_file = lf\<rparr>) \<and> lf_file lf = Some f \<and> of_flushed f = length (of_text f)"
proof -
  obtain fw hostname pid clk where env: "env = (fw, hostname, pid, clk)" by (cases env) auto
  have ok: "\<forall>i. fwrite_ok (fw i)" "\<forall>i. gmtime (snd (clk i)) \<noteq> None" using assms(1) by (auto simp: env_ok_def env)
  from assms(2) obtain parts where p: "reach al_init al_step (Inr (lp_async p))" "in_files fw (al_output (lp_async p)) parts (lp_file p)"
    by (auto simp: lp_inv_def env)
  have r: "reach al_init al_step (al_write nt (lp_async p))" by (rule reach_step [OF p(1)]) (rule step_write [OF assms(3)])
  then obtain al where al: "al_write nt (lp_async p) = Inr al" using async.reach_inv [OF r] by (auto simp: al_inv_def)
  obtain news where news: "al_output al = al_output (lp_async p) @ news" using output_write [OF al] by blast
  obtain lf parts' where lf: "foldE (LogFile_append hostname pid) (file_calls fw clk (length (al_output (lp_async p))) news) (lp_file p) = Inr lf"
    "in_files fw (al_output al) parts' lf" using appends_in_files [OF ok p(2)] news by metis
  from flush_in_files [OF lf(2)] obtain f where f: "LogFile_flush lf = Inr (lf\<lparr>lf_file := Some f\<rparr>)"
    "of_flushed f = length (of_text f)" "in_files fw (al_output al) parts' (lf\<lparr>lf_file := Some f\<rparr>)" by blast
  have "lp_write env nt p = Inr \<lparr>lp_async = al, lp_file = lf\<lparr>lf_file := Some f\<rparr>\<rparr>"
    using al news lf(1) f(1) by (simp add: lp_write_def env Let_def)
  then show ?thesis using al f(2,3) r by (auto simp: lp_inv_def env)
qed

lemma lp_back_inv:
  assumes "env_ok env" and "lp_inv env (Inr p)" and "lp_back env p r"
  shows "lp_inv env r"
  using assms(3)
proof (cases rule: lp_back.cases)
  case lp_stop
  then show ?thesis using lp_lift_inv [OF assms(2) step_stop] output_same(2) by fastforce
next
  case lp_loop
  then show ?thesis using lp_lift_inv [OF assms(2) step_loop] output_loop by blast
next
  case lp_wake
  then show ?thesis using lp_lift_inv [OF assms(2) step_wake] output_same(3) by blast
next
  case (lp_writes nt)
  then show ?thesis using lp_write_ok [OF assms(1,2), of nt] by auto
qed

lemma lp_append_inv: "lp_inv env (Inr p) \<Longrightarrow> lp_inv env (lp_lift p (al_append logline (lp_async p)))"
  using lp_lift_inv [OF _ step_append, of env p logline] output_same(1) by blast

lemma lp_inv_step:
  assumes "env_ok env" and "lp_inv env s" and "lp_step env s r"
  shows "lp_inv env r"
  using assms(3) lp_append_inv lp_back_inv [OF assms(1)] assms(2) by cases auto

lemma lp_reach_inv:
  assumes "env_ok env" and "0 < now" and "CHR ''/'' \<notin> set basename" and "gmtime now \<noteq> None"
    and "reach (lp_init env now basename rollSize interval) (lp_step env) r"
  shows "lp_inv env r"
  using assms(5)
proof (induction rule: reach.induct)
  case (reach_init r)
  obtain fw hostname pid clk where env: "env = (fw, hostname, pid, clk)" by (cases env) auto
  from assms(4) obtain t where t: "gmtime now = Some t" by auto
  then obtain lf where lf: "newLogFile hostname pid now basename rollSize interval = Inr lf" "files_ok lf [] []"
    using assms(2,3) by (simp add: newLogFile_def rollFile_def getLogFileName_def Let_def files_ok_def holds_def newFile_def)
  have "reach al_init al_step (Inr newAsyncLogging)" by (rule reach.reach_init) (simp add: al_init_def)
  moreover have "in_files fw [] [] lf" using lf(2) by (auto simp: in_files_def)
  ultimately show ?case
    using reach_init lf(1) by (simp add: lp_init_def lp_start_def env lp_inv_def newAsyncLogging_def) blast
next
  case (reach_step s r)
  show ?case by (rule lp_inv_step [OF assms(1) reach_step.IH reach_step(2)])
qed

section \<open>Properties\<close>



end
