(* ===== verification/Log_System.thy ===== *)
theory Log_System
  imports Logging Log_Pipeline
begin

text \<open>
  The logging of a whole process: the level, output and flush function that \<open>Logger\<close> keeps in global
  variables (\<open>src/muduo/base/Logging.{h,cc}\<close>), the macros in front of it, and \<open>AsyncLogging\<close> as the output.
  A statement below the level does nothing; another one is put together in the stream of its logger, in the
  thread that executes it, and handed to the output as one text. A fatal one calls the flush function and
  aborts the process; between the output and the abort the other threads go on.
\<close>

section \<open>Levels\<close>

fun level_value :: "log_level \<Rightarrow> nat" where
  "level_value TRACE = 0"
| "level_value DEBUG = 1"
| "level_value INFO = 2"
| "level_value WARN = 3"
| "level_value LOG_ERROR = 4"
| "level_value FATAL = 5"

instantiation log_level :: linorder
begin

definition less_eq_log_level :: "log_level \<Rightarrow> log_level \<Rightarrow> bool" where
  "a \<le> b \<longleftrightarrow> level_value a \<le> level_value b"

definition less_log_level :: "log_level \<Rightarrow> log_level \<Rightarrow> bool" where
  "a < b \<longleftrightarrow> level_value a < level_value b"

instance
proof
  have inj: "level_value a = level_value b \<Longrightarrow> a = b" for a b by (cases a; cases b) simp_all
  show "x < y \<longleftrightarrow> x \<le> y \<and> \<not> y \<le> x" "x \<le> x" "x \<le> y \<or> y \<le> x" for x y :: log_level
    by (auto simp: less_eq_log_level_def less_log_level_def)
  show "x \<le> y \<Longrightarrow> y \<le> z \<Longrightarrow> x \<le> z" for x y z :: log_level by (simp add: less_eq_log_level_def)
  show "x \<le> y \<Longrightarrow> y \<le> x \<Longrightarrow> x = y" for x y :: log_level by (rule inj) (simp add: less_eq_log_level_def)
qed

end

section \<open>The global variables\<close>

text \<open>The output and flush functions act on a sink, such as the standard output or the asynchronous logger.\<close>

record 's log_globals =
  g_logLevel :: log_level
  g_output :: "string \<Rightarrow> 's \<Rightarrow> 's result"
  g_flush :: "'s \<Rightarrow> 's result"

record std_out =
  so_text :: string
  so_flushed :: nat

text \<open>\<open>fwrite\<close> may write less than it is given; the code does not look.\<close>

definition defaultOutput :: "(nat \<Rightarrow> nat) \<Rightarrow> string \<Rightarrow> std_out \<Rightarrow> std_out result" where
  "defaultOutput fwrite msg so = Inr (so\<lparr>so_text := so_text so @ take (fwrite (length msg)) msg\<rparr>)"

definition defaultFlush :: "std_out \<Rightarrow> std_out result" where
  "defaultFlush so = Inr (so\<lparr>so_flushed := length (so_text so)\<rparr>)"

definition default_globals :: "(nat \<Rightarrow> nat) \<Rightarrow> bool \<Rightarrow> bool \<Rightarrow> std_out log_globals" where
  "default_globals fwrite log_trace log_debug = \<lparr>g_logLevel = initLogLevel log_trace log_debug,
     g_output = defaultOutput fwrite, g_flush = defaultFlush\<rparr>"

definition setLogLevel :: "log_level \<Rightarrow> 's log_globals \<Rightarrow> 's log_globals" where
  "setLogLevel level gl = gl\<lparr>g_logLevel := level\<rparr>"

definition setOutput :: "(string \<Rightarrow> 's \<Rightarrow> 's result) \<Rightarrow> 's log_globals \<Rightarrow> 's log_globals" where
  "setOutput out gl = gl\<lparr>g_output := out\<rparr>"

definition setFlush :: "('s \<Rightarrow> 's result) \<Rightarrow> 's log_globals \<Rightarrow> 's log_globals" where
  "setFlush flush gl = gl\<lparr>g_flush := flush\<rparr>"

section \<open>Statements\<close>

datatype log_macro = M_TRACE | M_DEBUG | M_INFO | M_WARN | M_ERROR | M_FATAL | M_SYSERR | M_SYSFATAL

text \<open>Only the first three macros look at the level.\<close>

fun macro_enabled :: "log_level \<Rightarrow> log_macro \<Rightarrow> bool" where
  "macro_enabled level M_TRACE \<longleftrightarrow> level \<le> TRACE"
| "macro_enabled level M_DEBUG \<longleftrightarrow> level \<le> DEBUG"
| "macro_enabled level M_INFO \<longleftrightarrow> level \<le> INFO"
| "macro_enabled level _ \<longleftrightarrow> True"

text \<open>The constructor a macro calls; \<open>func\<close> is \<open>__func__\<close> and \<open>e\<close> the value of \<open>errno\<close>.\<close>

fun macro_kind :: "string \<Rightarrow> int \<Rightarrow> log_macro \<Rightarrow> logger_kind" where
  "macro_kind func e M_TRACE = Logger_func TRACE func"
| "macro_kind func e M_DEBUG = Logger_func DEBUG func"
| "macro_kind func e M_INFO = Logger_plain"
| "macro_kind func e M_WARN = Logger_level WARN"
| "macro_kind func e M_ERROR = Logger_level LOG_ERROR"
| "macro_kind func e M_FATAL = Logger_level FATAL"
| "macro_kind func e M_SYSERR = Logger_sys False e"
| "macro_kind func e M_SYSFATAL = Logger_sys True e"

text \<open>Where and when a statement is executed, with which arguments.\<close>

record 'd log_call =
  lc_macro :: log_macro
  lc_func :: string
  lc_file :: string
  lc_line :: int
  lc_errno :: int
  lc_time :: int
  lc_args :: "'d log_arg list"

abbreviation lc_kind :: "'d log_call \<Rightarrow> logger_kind" where
  "lc_kind c \<equiv> macro_kind (lc_func c) (lc_errno c) (lc_macro c)"

text \<open>
  The statement with \<open>~Logger\<close>: the text goes to \<open>g_output\<close>, after a fatal one \<open>g_flush\<close> is called. The flag says that
  the process will abort.
\<close>

definition log_execute ::
  "('d \<Rightarrow> string) \<Rightarrow> (int \<Rightarrow> string) \<Rightarrow> int \<Rightarrow> string \<Rightarrow> 'd log_call \<Rightarrow> 's log_globals \<Rightarrow> log_thread \<Rightarrow> 's \<Rightarrow>
     (log_thread \<times> 's \<times> bool) result" where
  "log_execute g12 strerror gettid memory c gl th sink =
     (if macro_enabled (g_logLevel gl) (lc_macro c) then
        bindE (log_statement g12 strerror gettid (lc_time c) memory (lc_kind c) (lc_file c) (lc_line c) (lc_args c) th) (\<lambda>(th', out, fatal).
        bindE (g_output gl out sink) (\<lambda>sink1.
        bindE (if fatal then g_flush gl sink1 else Inr sink1) (\<lambda>sink2.
        Inr (th', sink2, fatal))))
      else Inr (th, sink, False))"

text \<open>\<open>CheckNotNull\<close>: a null pointer is a fatal statement without function and errno.\<close>

definition CheckNotNull ::
  "('d \<Rightarrow> string) \<Rightarrow> (int \<Rightarrow> string) \<Rightarrow> int \<Rightarrow> int \<Rightarrow> string \<Rightarrow> string \<Rightarrow> int \<Rightarrow> string \<Rightarrow> 'p option \<Rightarrow> 's log_globals \<Rightarrow>
     log_thread \<Rightarrow> 's \<Rightarrow> ('p option \<times> log_thread \<times> 's \<times> bool) result" where
  "CheckNotNull g12 strerror gettid now memory file line names ptr gl th sink =
     (if ptr = None then
        bindE (log_execute g12 strerror gettid memory \<lparr>lc_macro = M_FATAL, lc_func = [], lc_file = file, lc_line = line,
          lc_errno = 0, lc_time = now, lc_args = [ACStr names]\<rparr> gl th sink) (\<lambda>(th', sink', dies). Inr (ptr, th', sink', dies))
      else Inr (ptr, th, sink, False))"

text \<open>The text of a statement, and what it needs to be in range.\<close>

definition line_text :: "('d \<Rightarrow> string) \<Rightarrow> (int \<Rightarrow> string) \<Rightarrow> int \<Rightarrow> 'd log_call \<Rightarrow> string" where
  "line_text g12 strerror gettid c = (case gmtime (lc_time c div 1000000) of
     None \<Rightarrow> []
   | Some t \<Rightarrow> foldl (arg_put g12 kSmallBuffer) [] (head_args gettid (lc_time c) t (kind_level (lc_kind c)) @
       errno_args strerror (kind_errno (lc_kind c)) @ func_args (lc_kind c) @ lc_args c @ tail_args (lc_file c) (lc_line c)))"

definition call_ok :: "('d \<Rightarrow> string) \<Rightarrow> 'd log_call \<Rightarrow> bool" where
  "call_ok g12 c \<longleftrightarrow> (\<exists>t. log_time (lc_time c) t) \<and> list_all (arg_ok g12) (lc_args c) \<and> int_ok (lc_line c) \<and> int_ok (lc_errno c)"

lemma arg_put_length:
  assumes "list_all (arg_ok g12) args"
  shows "length (foldl (arg_put g12 n) [] args) \<le> n"
proof -
  let ?b = "newFixedBuffer (replicate n (CHR 0x00))"
  have b: "fb_ok ?b" "length (fb_data ?b) = n" "asString ?b = []" by (simp_all add: newFixedBuffer_def fb_ok_def asString_def)
  from log_stream_run [OF b(1) assms] b obtain b' where
    b': "fb_ok b'" "length (fb_data b') = n" "asString b' = foldl (arg_put g12 n) [] args" by auto
  have "length (asString b') \<le> n" using b'(1,2) by (simp add: asString_def fb_ok_def)
  then show ?thesis using b'(3) by simp
qed

lemma kind_errno_ok: "int_ok e \<Longrightarrow> int_ok (kind_errno (macro_kind f e m))"
  by (cases m) (simp_all add: int_ok_def)

lemma kind_args_ok:
  assumes "int_ok line" and "int_ok (kind_errno kind)" and "list_all (arg_ok g12) args"
  shows "list_all (arg_ok g12) (head_args gettid us t level @ errno_args strerror (kind_errno kind) @ func_args kind @ args @
    tail_args file line)"
  using assms by (cases kind) (simp_all add: head_args_def errno_args_def tail_args_def int_ok_def)

lemma line_text_length:
  assumes "call_ok g12 c"
  shows "length (line_text g12 strerror gettid c) \<le> kSmallBuffer"
  using assms arg_put_length [OF kind_args_ok [of "lc_line c" "lc_kind c" g12 "lc_args c"], of kSmallBuffer] kind_errno_ok
  by (auto simp: line_text_def call_ok_def split: option.split)

text \<open>An enabled statement hands its text to the output, in one piece.\<close>

lemma log_execute_ok:
  assumes "call_ok g12 c" and "thread_ok gettid th" and "0 < gettid" and "gettid < 100000" and "length memory = kSmallBuffer"
    and "macro_enabled (g_logLevel gl) (lc_macro c)"
  shows "\<exists>th'. thread_ok gettid th' \<and> log_execute g12 strerror gettid memory c gl th sink =
    bindE (g_output gl (line_text g12 strerror gettid c) sink) (\<lambda>sink1.
    bindE (if kind_level (lc_kind c) = FATAL then g_flush gl sink1 else Inr sink1) (\<lambda>sink2.
    Inr (th', sink2, kind_level (lc_kind c) = FATAL)))"
proof -
  from assms(1) obtain t where t: "log_time (lc_time c) t" by (auto simp: call_ok_def)
  have ok: "list_all (arg_ok g12) (lc_args c)" "int_ok (lc_line c)" "int_ok (kind_errno (lc_kind c))"
    using assms(1) kind_errno_ok by (auto simp: call_ok_def)
  from log_line_run [OF assms(2-4) t assms(5) ok, of strerror "lc_file c"] obtain th' where
    "thread_ok gettid th'" "log_statement g12 strerror gettid (lc_time c) memory (lc_kind c) (lc_file c) (lc_line c) (lc_args c) th =
      Inr (th', line_text g12 strerror gettid c, kind_level (lc_kind c) = FATAL)"
    using t by (auto simp: line_text_def log_time_def)
  then show ?thesis using assms(6) by (auto simp: log_execute_def)
qed

section \<open>A process that logs asynchronously\<close>

text \<open>
  The function an application gives to \<open>setOutput\<close> calls \<open>AsyncLogging::append\<close>. There is no flush function to go
  with it: the flush of the standard output that is the default leaves the asynchronous logger alone.
\<close>

definition asyncOutput :: "string \<Rightarrow> log_pipe \<Rightarrow> log_pipe result" where
  "asyncOutput msg p = lp_lift p (al_append msg (lp_async p))"

definition async_globals :: "log_level \<Rightarrow> log_pipe log_globals" where
  "async_globals level = \<lparr>g_logLevel = level, g_output = asyncOutput, g_flush = Inr\<rparr>"

lemma async_globals_simps [simp]:
  "g_logLevel (async_globals level) = level" "g_output (async_globals level) = asyncOutput"
  "(if b then g_flush (async_globals level) p else Inr p) = Inr p"
  by (simp_all add: async_globals_def)

text \<open>The lines the user asked for: those at the level or above it, and warnings and errors at any level.\<close>

definition wanted :: "log_level \<Rightarrow> log_level \<Rightarrow> bool" where
  "wanted level severity \<longleftrightarrow> min level WARN \<le> severity"

lemma wanted_macro: "wanted level (kind_level (macro_kind func e m)) \<longleftrightarrow> macro_enabled level m"
  by (cases m; cases level) (simp_all add: wanted_def min_def less_eq_log_level_def)

text \<open>
  What a process is made of; \<open>sy_said\<close> is a history variable, the wanted statements with the thread that executed
  them. A thread that executed a fatal statement is about to abort, and then all is over.
\<close>

datatype fate = Runs | Dying | Aborted

record 'd log_system =
  sy_level :: log_level
  sy_threads :: "log_thread list"
  sy_pipe :: log_pipe
  sy_fate :: fate
  sy_said :: "(int \<times> 'd log_call) list"

record 'd log_process =
  pe_g12 :: "'d \<Rightarrow> string"
  pe_strerror :: "int \<Rightarrow> string"
  pe_tids :: "int list"
  pe_files :: file_env

definition sy_log :: "'d log_process \<Rightarrow> nat \<Rightarrow> string \<Rightarrow> 'd log_call \<Rightarrow> 'd log_system \<Rightarrow> 'd log_system result" where
  "sy_log pe i memory c s =
     bindE (log_execute (pe_g12 pe) (pe_strerror pe) (pe_tids pe ! i) memory c (async_globals (sy_level s)) (sy_threads s ! i) (sy_pipe s))
       (\<lambda>(th, p, dies).
     Inr (s\<lparr>sy_threads := (sy_threads s)[i := th], sy_pipe := p, sy_fate := if dies then Dying else sy_fate s,
       sy_said := if wanted (sy_level s) (kind_level (lc_kind c)) then sy_said s @ [(pe_tids pe ! i, c)] else sy_said s\<rparr>))"

inductive sy_step :: "'d log_process \<Rightarrow> 'd log_system result \<Rightarrow> 'd log_system result \<Rightarrow> bool" for pe where
  sy_logs: "sy_fate s \<noteq> Aborted \<Longrightarrow> i < length (pe_tids pe) \<Longrightarrow> call_ok (pe_g12 pe) c \<Longrightarrow> length memory = kSmallBuffer \<Longrightarrow>
    sy_step pe (Inr s) (sy_log pe i memory c s)"
| sy_levels: "sy_fate s \<noteq> Aborted \<Longrightarrow> sy_step pe (Inr s) (Inr (s\<lparr>sy_level := level\<rparr>))"
| sy_backs: "sy_fate s \<noteq> Aborted \<Longrightarrow> lp_back (pe_files pe) (sy_pipe s) r \<Longrightarrow>
    sy_step pe (Inr s) (bindE r (\<lambda>p. Inr (s\<lparr>sy_pipe := p\<rparr>)))"
| sy_aborts: "sy_fate s = Dying \<Longrightarrow> sy_step pe (Inr s) (Inr (s\<lparr>sy_fate := Aborted\<rparr>))"

text \<open>The process when \<open>AsyncLogging::start\<close> returned and its file is open; new threads have empty caches.\<close>

definition sy_start :: "'d log_process \<Rightarrow> bool \<Rightarrow> bool \<Rightarrow> int \<Rightarrow> string \<Rightarrow> nat \<Rightarrow> int \<Rightarrow> 'd log_system result" where
  "sy_start pe log_trace log_debug now basename rollSize interval =
     bindE (lp_start (pe_files pe) now basename rollSize interval) (\<lambda>p.
     Inr \<lparr>sy_level = initLogLevel log_trace log_debug, sy_threads = replicate (length (pe_tids pe)) new_thread, sy_pipe = p,
       sy_fate = Runs, sy_said = []\<rparr>)"

definition sy_init :: "'d log_process \<Rightarrow> 'd log_system result \<Rightarrow> bool" where
  "sy_init pe r \<longleftrightarrow> (\<exists>log_trace log_debug now basename rollSize interval. 0 < now \<and> CHR ''/'' \<notin> set basename \<and> gmtime now \<noteq> None \<and>
     r = sy_start pe log_trace log_debug now basename rollSize interval)"

text \<open>Thread identifiers are positive, with any number of digits; the times of the files are in range; writes may fail.\<close>

definition process_ok :: "'d log_process \<Rightarrow> bool" where
  "process_ok pe \<longleftrightarrow> env_ok (pe_files pe) \<and> list_all (\<lambda>g. 0 < g) (pe_tids pe)"

abbreviation said_text :: "'d log_process \<Rightarrow> int \<times> 'd log_call \<Rightarrow> string" where
  "said_text pe \<equiv> \<lambda>(g, c). line_text (pe_g12 pe) (pe_strerror pe) g c"

text \<open>A thread whose identifier has more than five digits never gets to cache it.\<close>

definition caches_ok :: "int \<Rightarrow> log_thread \<Rightarrow> bool" where
  "caches_ok g th \<longleftrightarrow> thread_ok g th \<and> (100000 \<le> g \<longrightarrow> t_cachedTid th = 0)"

definition sy_good :: "'d log_process \<Rightarrow> 'd log_system \<Rightarrow> bool" where
  "sy_good pe s \<longleftrightarrow> list_all2 caches_ok (pe_tids pe) (sy_threads s) \<and> lp_inv (pe_files pe) (Inr (sy_pipe s)) \<and>
     al_log (lp_async (sy_pipe s)) = map (said_text pe) (sy_said s) \<and>
     (sy_fate s = Runs \<longleftrightarrow> (\<forall>(g, c)\<in>set (sy_said s). kind_level (lc_kind c) \<noteq> FATAL)) \<and>
     (\<forall>(g, c)\<in>set (sy_said s). g < 100000 \<and> call_ok (pe_g12 pe) c)"

definition sy_inv :: "'d log_process \<Rightarrow> 'd log_system result \<Rightarrow> bool" where
  "sy_inv pe r \<longleftrightarrow> r = Inl (AssertionFailed ''n == 6'') \<and> (\<exists>g\<in>set (pe_tids pe). 100000 \<le> g) \<or> (\<exists>s. r = Inr s \<and> sy_good pe s)"

lemma sy_inv_simps [simp]: "sy_inv pe (Inr s) \<longleftrightarrow> sy_good pe s"
  by (simp add: sy_inv_def)

lemma append_log: "al_append msg al = Inr al' \<Longrightarrow> al_log al' = al_log al @ [msg]"
  by (auto simp: al_append_def Let_def split: if_splits)

lemma log_same:
  "al_log (al_stop al) = al_log al" "al_swap al = Inr al' \<Longrightarrow> al_log al' = al_log al"
  "al_write nt al = Inr al' \<Longrightarrow> al_log al' = al_log al"
  by (auto simp: al_stop_def al_swap_def al_write_def Let_def split: if_splits)

lemma log_loop: "al_loop al = Inr al' \<Longrightarrow> al_log al' = al_log al"
  by (auto simp: al_loop_def dest: log_same(2) split: if_splits)

lemma back_log: "lp_back env p r \<Longrightarrow> r = Inr p' \<Longrightarrow> al_log (lp_async p') = al_log (lp_async p)"
  by (erule lp_back.cases)
     (auto simp: lp_lift_def lp_write_def Let_def log_same(1) dest: log_same(2,3) log_loop split: prod.splits)

lemma sy_log_long:
  assumes s: "sy_good pe s" and i: "i < length (pe_tids pe)" "100000 \<le> pe_tids pe ! i" and c: "call_ok (pe_g12 pe) c"
    and m: "length memory = kSmallBuffer" and en: "macro_enabled (sy_level s) (lc_macro c)"
  shows "sy_inv pe (sy_log pe i memory c s)"
proof -
  have "caches_ok (pe_tids pe ! i) (sy_threads s ! i)" using s i(1) by (auto simp: sy_good_def dest: list_all2_nthD)
  then have th: "thread_ok (pe_tids pe ! i) (sy_threads s ! i)" "t_cachedTid (sy_threads s ! i) = 0" using i(2) by (simp_all add: caches_ok_def)
  from c obtain t where t: "log_time (lc_time c) t" by (auto simp: call_ok_def)
  have "sy_log pe i memory c s = Inl (AssertionFailed ''n == 6'')"
    using en by (simp add: sy_log_def log_execute_def log_statement_long [OF th i(2) t m])
  then show ?thesis using i nth_mem [OF i(1)] by (auto simp: sy_inv_def)
qed

lemma sy_log_short:
  assumes pe: "process_ok pe" and s: "sy_good pe s" and i: "i < length (pe_tids pe)" "pe_tids pe ! i < 100000" and c: "call_ok (pe_g12 pe) c"
    and m: "length memory = kSmallBuffer" and en: "macro_enabled (sy_level s) (lc_macro c)"
  shows "\<exists>s'. sy_log pe i memory c s = Inr s' \<and> sy_good pe s' \<and> sy_said s' = sy_said s @ [(pe_tids pe ! i, c)] \<and>
    lp_file (sy_pipe s') = lp_file (sy_pipe s) \<and> sy_fate s' = (if kind_level (lc_kind c) = FATAL then Dying else sy_fate s)"
proof -
  let ?g = "pe_tids pe ! i" and ?fatal = "kind_level (lc_kind c) = FATAL"
  let ?line = "line_text (pe_g12 pe) (pe_strerror pe) ?g c"
  have s': "list_all2 caches_ok (pe_tids pe) (sy_threads s)" "lp_inv (pe_files pe) (Inr (sy_pipe s))" using s by (auto simp: sy_good_def)
  have g: "0 < ?g" using pe i by (auto simp: process_ok_def list_all_length)
  have "thread_ok ?g (sy_threads s ! i)" using list_all2_nthD [OF s'(1) i(1)] by (simp add: caches_ok_def)
  from log_execute_ok [OF c this g i(2) m, of "async_globals (sy_level s)" "pe_strerror pe" "sy_pipe s"] en obtain th where
    th: "thread_ok ?g th" and run: "log_execute (pe_g12 pe) (pe_strerror pe) ?g memory c (async_globals (sy_level s)) (sy_threads s ! i) (sy_pipe s) =
      bindE (asyncOutput ?line (sy_pipe s)) (\<lambda>p. Inr (th, p, ?fatal))"
    by auto
  have "lp_inv (pe_files pe) (asyncOutput ?line (sy_pipe s))" unfolding asyncOutput_def by (rule lp_append_inv [OF s'(2)])
  then obtain p where p: "asyncOutput ?line (sy_pipe s) = Inr p" "lp_inv (pe_files pe) (Inr p)" by (auto simp: lp_inv_def)
  have p': "al_log (lp_async p) = al_log (lp_async (sy_pipe s)) @ [?line]" "lp_file p = lp_file (sy_pipe s)"
    using p(1) by (auto simp: asyncOutput_def lp_lift_def dest: append_log)
  have "caches_ok ?g th" using th i(2) by (simp add: caches_ok_def)
  then have "list_all2 caches_ok (pe_tids pe) ((sy_threads s)[i := th])"
    using list_all2_update_cong [OF s'(1), of ?g th i] i(1) by (simp add: list_update_same_conv)
  then show ?thesis
    using s p p' en c i(2) by (auto simp: sy_log_def wanted_macro run sy_good_def)
qed

lemma sy_log_inv:
  assumes pe: "process_ok pe" and s: "sy_good pe s" and i: "i < length (pe_tids pe)" and c: "call_ok (pe_g12 pe) c"
    and m: "length memory = kSmallBuffer"
  shows "sy_inv pe (sy_log pe i memory c s)"
proof (cases "macro_enabled (sy_level s) (lc_macro c)")
  case False
  then have "sy_log pe i memory c s = Inr s"
    using s i by (simp add: sy_log_def wanted_macro log_execute_def sy_good_def list_all2_lengthD [symmetric])
  then show ?thesis using s by simp
next
  case True
  show ?thesis
  proof (cases "pe_tids pe ! i < 100000")
    case short: True
    from sy_log_short [OF pe s i short c m True] show ?thesis by auto
  qed (use sy_log_long [OF s i _ c m True] in simp)
qed

lemma sy_start_good:
  assumes pe: "process_ok pe" and now: "0 < now" "CHR ''/'' \<notin> set basename" "gmtime now \<noteq> None"
  shows "\<exists>s. sy_start pe lt ld now basename rollSize interval = Inr s \<and> sy_good pe s"
proof -
  have "reach (lp_init (pe_files pe) now basename rollSize interval) (lp_step (pe_files pe)) (lp_start (pe_files pe) now basename rollSize interval)"
    by (rule reach_init) (simp add: lp_init_def)
  with lp_reach_inv [of "pe_files pe", OF _ now] pe have "lp_inv (pe_files pe) (lp_start (pe_files pe) now basename rollSize interval)"
    unfolding process_ok_def by blast
  then obtain p where p: "lp_start (pe_files pe) now basename rollSize interval = Inr p" "lp_inv (pe_files pe) (Inr p)" by (auto simp: lp_inv_def)
  have "al_log (lp_async p) = []" using p(1) by (auto simp: lp_start_def newAsyncLogging_def split: prod.splits)
  then show ?thesis
    using p by (auto simp: sy_start_def sy_good_def list_all2_conv_all_nth caches_ok_def thread_ok_def new_thread_def)
qed

interpretation sy: step_invariant "sy_init pe" "sy_step pe" "\<lambda>r. process_ok pe \<longrightarrow> sy_inv pe r" for pe :: "'d log_process"
proof
  show "process_ok pe \<longrightarrow> sy_inv pe r" if "sy_init pe r" for r :: "'d log_system result"
    using that sy_start_good [of pe] unfolding sy_init_def sy_inv_def by blast
  show "process_ok pe \<longrightarrow> sy_inv pe r" if "process_ok pe \<longrightarrow> sy_inv pe s" "sy_step pe s r" for s r :: "'d log_system result"
  proof
    assume pe: "process_ok pe"
    then have inv: "sy_inv pe s" using that(1) by simp
    from that(2) show "sy_inv pe r"
    proof (cases rule: sy_step.cases)
      case (sy_logs s' i c memory)
      then show ?thesis using sy_log_inv [OF pe] inv by simp
    next
      case (sy_backs s' r')
      have p: "lp_inv (pe_files pe) (Inr (sy_pipe s'))" using inv sy_backs(1) by (auto simp: sy_good_def)
      have "lp_inv (pe_files pe) r'" by (rule lp_back_inv [OF _ p sy_backs(4)]) (use pe in \<open>simp add: process_ok_def\<close>)
      then obtain p' where "r' = Inr p'" "lp_inv (pe_files pe) (Inr p')" by (auto simp: lp_inv_def)
      then show ?thesis using inv sy_backs back_log [OF sy_backs(4)] by (auto simp: sy_good_def)
    qed (use inv in \<open>auto simp: sy_good_def\<close>)
  qed
qed

section \<open>Properties\<close>


definition demo_process :: "unit log_process" where
  "demo_process = \<lparr>pe_g12 = (\<lambda>d. []), pe_strerror = (\<lambda>e. []), pe_tids = [42, 43],
     pe_files = (\<lambda>i k len. min len 2, ''host'', 42, \<lambda>i. (1338712967, 1338712967))\<rparr>"

definition demo_call :: "log_macro \<Rightarrow> unit log_call" where
  "demo_call m = \<lparr>lc_macro = m, lc_func = ''main'', lc_file = ''/src/a.cc'', lc_line = 7, lc_errno = 0, lc_time = 1338712966000770,
     lc_args = [ACStr ''x='', AInt 5]\<rparr>"

lemma demo_process_ok: "process_ok demo_process"
  using timegm_gmtime [of 1338712967] by (auto simp: process_ok_def demo_process_def env_ok_def fwrite_ok_def time_range_def)

lemma demo_process_short: "writes_succeed (pe_files demo_process)" "\<not> (\<exists>g\<in>set (pe_tids demo_process). 100000 \<le> g)"
  by (simp_all add: writes_succeed_def demo_process_def)

lemma demo_call_ok: "call_ok (pe_g12 demo_process) (demo_call m)"
  using demo_log_time by (auto simp: call_ok_def demo_call_def demo_process_def int_ok_def)

lemma demo_now: "0 < (1338712966 :: int)" "CHR ''/'' \<notin> set ''app''" "gmtime 1338712966 \<noteq> None"
  using demo_log_time by (auto simp: log_time_def)


text \<open>
  C37. The line that explains an abort can be missing from the log: with the asynchronous logger as output
  there is a run in which a fatal statement is executed (in a thread whose identifier has at most five digits), the process aborts and the files are empty, because
  the line is still in the memory of the process and no flush function can bring it out.
\<close>

theorem fatal_line_lost:
  assumes "process_ok pe" and "pe_tids pe \<noteq> []" and "hd (pe_tids pe) < 100000" and "call_ok (pe_g12 pe) c" and "lc_macro c = M_FATAL \<or> lc_macro c = M_SYSFATAL"
    and "0 < now" and "CHR ''/'' \<notin> set basename" and "gmtime now \<noteq> None"
  shows "\<exists>s. reach (sy_init pe) (sy_step pe) (Inr s) \<and> sy_fate s = Aborted \<and> sy_said s = [(hd (pe_tids pe), c)] \<and>
    file_text (lp_file (sy_pipe s)) = []"
proof -
  let ?m = "replicate kSmallBuffer (CHR 0x00)"
  have r0: "reach (sy_init pe) (sy_step pe) (sy_start pe False False now basename 0 3)" by (rule reach_init) (unfold sy_init_def, use assms(6-8) in blast)
  from sy_start_good [OF assms(1,6-8), of False False 0 3] obtain s0 where s0: "sy_start pe False False now basename 0 3 = Inr s0" "sy_good pe s0" by blast
  then have f0: "sy_fate s0 = Runs" "sy_said s0 = []" "sy_level s0 = INFO" "al_output (lp_async (sy_pipe s0)) = []"
    by (auto simp: sy_start_def initLogLevel_def lp_start_def newAsyncLogging_def split: prod.splits)
  have en: "macro_enabled (sy_level s0) (lc_macro c)" and fatal: "kind_level (lc_kind c) = FATAL" using assms(5) by auto
  have i: "0 < length (pe_tids pe)" "pe_tids pe ! 0 = hd (pe_tids pe)" using assms(2) by (simp_all add: hd_conv_nth)
  from sy_log_short [OF assms(1) s0(2) i(1) _ assms(4) _ en, of ?m] assms(3) i(2) fatal f0(2) obtain s1 where
    s1: "sy_log pe 0 ?m c s0 = Inr s1" "sy_said s1 = [(hd (pe_tids pe), c)]" "lp_file (sy_pipe s1) = lp_file (sy_pipe s0)" "sy_fate s1 = Dying" by auto
  have "sy_step pe (Inr s0) (sy_log pe 0 ?m c s0)" by (rule sy_logs) (use i(1) assms(4) f0(1) in simp_all)
  then have r1: "reach (sy_init pe) (sy_step pe) (Inr s1)" using r0 unfolding s0(1) s1(1) by (rule reach_step [rotated])
  have "stored (pe_files pe) (al_output (lp_async (sy_pipe s0))) (file_text (lp_file (sy_pipe s0)))"
    by (rule lp_inv_text) (use s0(2) in \<open>simp add: sy_good_def\<close>)
  then have "file_text (lp_file (sy_pipe s1)) = []" unfolding f0(4) s1(3) by (simp add: stored_def)
  moreover have "reach (sy_init pe) (sy_step pe) (Inr (s1\<lparr>sy_fate := Aborted\<rparr>))" using r1 by (rule reach_step) (rule sy_aborts [OF s1(4)])
  ultimately show ?thesis using s1(2) by (intro exI [of _ "s1\<lparr>sy_fate := Aborted\<rparr>"]) simp
qed

theorem fatal_line_lost_witness:
  "\<exists>s. reach (sy_init demo_process) (sy_step demo_process) (Inr s) \<and> sy_fate s = Aborted \<and> sy_said s = [(42, demo_call M_FATAL)] \<and>
    file_text (lp_file (sy_pipe s)) = []"
proof -
  have "pe_tids demo_process \<noteq> []" "lc_macro (demo_call M_FATAL) = M_FATAL \<or> lc_macro (demo_call M_FATAL) = M_SYSFATAL"
    "hd (pe_tids demo_process) = 42" "hd (pe_tids demo_process) < 100000" by (simp_all add: demo_process_def demo_call_def)
  from fatal_line_lost [OF demo_process_ok this(1,4) demo_call_ok this(2) demo_now] this(3) show ?thesis by simp
qed

end
