(* ===== verification/Sync.thy ===== *)
theory Sync
  imports Prelude "HOL-Library.Multiset"
begin

text \<open>
  \<open>src/muduo/base\<close>: \<open>BlockingQueue.h\<close>, \<open>BoundedBlockingQueue.h\<close>, \<open>CountDownLatch.cc\<close> and
  \<open>ThreadPool.cc\<close>, the classes built from a mutex and condition variables.

  A thread is described by what it will do when it gets the lock next, or that it is blocked in a
  condition variable; the threads are a list. A step is what one thread does while it holds
  the lock, up to the end of the operation or the next wait. A condition variable may wake a thread
  for no reason, and \<open>notify\<close> wakes one waiting thread, any of them, or none if none waits.
\<close>

section \<open>Threads\<close>

abbreviation count :: "('t \<Rightarrow> bool) \<Rightarrow> 't list \<Rightarrow> nat" where
  "count P ths \<equiv> length (filter P ths)"

lemma count_update:
  "i < length ths \<Longrightarrow> count P (ths[i := t]) + of_bool (P (ths ! i)) = count P ths + of_bool (P t)"
proof (induction ths arbitrary: i)
  case (Cons a ths)
  then show ?case by (cases i) (auto split: if_splits)
qed simp

lemma count_pos: "i < length ths \<Longrightarrow> P (ths ! i) \<Longrightarrow> 0 < count P ths"
  by (auto simp: length_filter_conv_card card_gt_0_iff)

lemma count_nth: "0 < count P ths \<Longrightarrow> \<exists>i < length ths. P (ths ! i)"
  by (auto simp: length_filter_conv_card card_gt_0_iff)

section \<open>BlockingQueue and BoundedBlockingQueue\<close>

datatype 'a qthread =
    Idle
  | Putting 'a        \<comment> \<open>in \<open>put\<close>, before the lock or woken from \<open>notFull_\<close>\<close>
  | PutWaiting 'a     \<comment> \<open>in \<open>notFull_.wait()\<close>\<close>
  | Notifying         \<comment> \<open>in \<open>put\<close>, after the unlock and before \<open>notEmpty_.notify()\<close>\<close>
  | Taking            \<comment> \<open>in \<open>take\<close>, before the lock or woken from \<open>notEmpty_\<close>\<close>
  | TakeWaiting       \<comment> \<open>in \<open>notEmpty_.wait()\<close>\<close>

text \<open>
  The queue, its capacity (\<open>None\<close> for the unbounded class), the threads, and as history the values put and
  the values taken, in the order of the calls that did it.
\<close>

record 'a bqueue =
  bq_capacity :: "nat option"
  bq_queue :: "'a list"
  bq_threads :: "'a qthread list"
  bq_put :: "'a list"
  bq_taken :: "'a list"

definition bq_full :: "'a bqueue \<Rightarrow> bool" where
  "bq_full q \<longleftrightarrow> (case bq_capacity q of None \<Rightarrow> False | Some n \<Rightarrow> n \<le> length (bq_queue q))"

definition set_thread :: "nat \<Rightarrow> 'a qthread \<Rightarrow> 'a bqueue \<Rightarrow> 'a bqueue" where
  "set_thread i t q = q\<lparr>bq_threads := (bq_threads q)[i := t]\<rparr>"

text \<open>The locked part of \<open>put\<close> by thread \<open>i\<close>: it waits, or appends and goes on to notify.\<close>

definition put_locked :: "nat \<Rightarrow> 'a \<Rightarrow> 'a bqueue \<Rightarrow> 'a bqueue result" where
  "put_locked i x q =
     (if bq_full q then Inr (set_thread i (PutWaiting x) q)
      else bindE (assertE (\<not> bq_full q) ''!queue_.full()'') (\<lambda>_.
        Inr (set_thread i Notifying (q\<lparr>bq_queue := bq_queue q @ [x], bq_put := bq_put q @ [x]\<rparr>))))"

text \<open>\<open>notify\<close> wakes the waiting thread \<open>j\<close> if there is one.\<close>

definition wake_taker :: "nat option \<Rightarrow> 'a bqueue \<Rightarrow> 'a bqueue" where
  "wake_taker j q = (case j of None \<Rightarrow> q | Some j \<Rightarrow> set_thread j Taking q)"

definition wake_putter :: "nat option \<Rightarrow> 'a bqueue \<Rightarrow> 'a bqueue" where
  "wake_putter j q = (case j of
     None \<Rightarrow> q
   | Some j \<Rightarrow> (case bq_threads q ! j of PutWaiting x \<Rightarrow> set_thread j (Putting x) q | _ \<Rightarrow> q))"

text \<open>\<open>take\<close> by thread \<open>i\<close>: it waits, or removes the front and wakes a thread that waits to put.\<close>

definition take_locked :: "nat \<Rightarrow> nat option \<Rightarrow> 'a bqueue \<Rightarrow> 'a bqueue result" where
  "take_locked i j q = (case bq_queue q of
     [] \<Rightarrow> Inr (set_thread i TakeWaiting q)
   | front # rest \<Rightarrow>
       bindE (assertE (bq_queue q \<noteq> []) ''!queue_.empty()'') (\<lambda>_.
       Inr (wake_putter j (set_thread i Idle (q\<lparr>bq_queue := rest, bq_taken := bq_taken q @ [front]\<rparr>)))))"

text \<open>
  The unbounded class: \<open>put\<close> never waits and \<open>take\<close> wakes nobody. On a queue without capacity, where no
  thread ever waits to put, these are the operations above.
\<close>

definition BlockingQueue_put :: "nat \<Rightarrow> 'a \<Rightarrow> 'a bqueue \<Rightarrow> 'a bqueue result" where
  "BlockingQueue_put i x q = Inr (set_thread i Notifying (q\<lparr>bq_queue := bq_queue q @ [x], bq_put := bq_put q @ [x]\<rparr>))"

definition BlockingQueue_take :: "nat \<Rightarrow> 'a bqueue \<Rightarrow> 'a bqueue result" where
  "BlockingQueue_take i q = (case bq_queue q of
     [] \<Rightarrow> Inr (set_thread i TakeWaiting q)
   | front # rest \<Rightarrow>
       bindE (assertE (bq_queue q \<noteq> []) ''!queue_.empty()'') (\<lambda>_.
       Inr (set_thread i Idle (q\<lparr>bq_queue := rest, bq_taken := bq_taken q @ [front]\<rparr>))))"

lemma BlockingQueue_put_eq: "bq_capacity q = None \<Longrightarrow> BlockingQueue_put i x q = put_locked i x q"
  by (simp add: BlockingQueue_put_def put_locked_def bq_full_def)

lemma BlockingQueue_take_eq: "BlockingQueue_take i q = take_locked i None q"
  by (simp add: BlockingQueue_take_def take_locked_def wake_putter_def split: list.splits)

text \<open>The thread a notification wakes: one that waits, or none if none does.\<close>

definition chosen :: "('a qthread \<Rightarrow> bool) \<Rightarrow> nat option \<Rightarrow> 'a bqueue \<Rightarrow> bool" where
  "chosen W j q \<longleftrightarrow> (case j of
     None \<Rightarrow> count W (bq_threads q) = 0
   | Some j \<Rightarrow> j < length (bq_threads q) \<and> W (bq_threads q ! j))"

definition is_PutWaiting :: "'a qthread \<Rightarrow> bool" where
  "is_PutWaiting t \<longleftrightarrow> (case t of PutWaiting _ \<Rightarrow> True | _ \<Rightarrow> False)"

definition is_Putting :: "'a qthread \<Rightarrow> bool" where
  "is_Putting t \<longleftrightarrow> (case t of Putting _ \<Rightarrow> True | _ \<Rightarrow> False)"

inductive bq_step :: "'a bqueue result \<Rightarrow> 'a bqueue result \<Rightarrow> bool" where
  call_put: "i < length (bq_threads q) \<Longrightarrow> bq_threads q ! i = Idle \<Longrightarrow> bq_step (Inr q) (Inr (set_thread i (Putting x) q))"
| call_take: "i < length (bq_threads q) \<Longrightarrow> bq_threads q ! i = Idle \<Longrightarrow> bq_step (Inr q) (Inr (set_thread i Taking q))"
| run_put: "i < length (bq_threads q) \<Longrightarrow> bq_threads q ! i = Putting x \<Longrightarrow> bq_step (Inr q) (put_locked i x q)"
| run_notify: "i < length (bq_threads q) \<Longrightarrow> bq_threads q ! i = Notifying \<Longrightarrow> chosen (\<lambda>t. t = TakeWaiting) j q \<Longrightarrow>
    bq_step (Inr q) (Inr (wake_taker j (set_thread i Idle q)))"
| run_take: "i < length (bq_threads q) \<Longrightarrow> bq_threads q ! i = Taking \<Longrightarrow> chosen is_PutWaiting j q \<Longrightarrow>
    bq_step (Inr q) (take_locked i j q)"
| spurious_take: "i < length (bq_threads q) \<Longrightarrow> bq_threads q ! i = TakeWaiting \<Longrightarrow> bq_step (Inr q) (Inr (set_thread i Taking q))"
| spurious_put: "i < length (bq_threads q) \<Longrightarrow> bq_threads q ! i = PutWaiting x \<Longrightarrow> bq_step (Inr q) (Inr (set_thread i (Putting x) q))"

definition bq_init :: "nat option \<Rightarrow> 'a bqueue result \<Rightarrow> bool" where
  "bq_init cap r \<longleftrightarrow> (\<exists>n. r = Inr \<lparr>bq_capacity = cap, bq_queue = [], bq_threads = replicate n Idle, bq_put = [], bq_taken = []\<rparr>)"

text \<open>
  While a thread waits to take, every element is accounted for by a thread that will notify or
  take; while a thread waits to put, every free place by a thread that will put.
\<close>

definition bq_ok :: "nat option \<Rightarrow> 'a bqueue \<Rightarrow> bool" where
  "bq_ok cap q \<longleftrightarrow> bq_capacity q = cap \<and> bq_put q = bq_taken q @ bq_queue q \<and>
     (\<forall>n. cap = Some n \<longrightarrow> length (bq_queue q) \<le> n) \<and>
     (0 < count (\<lambda>t. t = TakeWaiting) (bq_threads q) \<longrightarrow>
        length (bq_queue q) \<le> count (\<lambda>t. t = Notifying) (bq_threads q) + count (\<lambda>t. t = Taking) (bq_threads q)) \<and>
     (0 < count is_PutWaiting (bq_threads q) \<longrightarrow>
        (\<exists>n. cap = Some n \<and> n \<le> length (bq_queue q) + count is_Putting (bq_threads q)))"

lemma threads_set [simp]:
  "length (bq_threads (set_thread i t q)) = length (bq_threads q)"
  "bq_queue (set_thread i t q) = bq_queue q" "bq_capacity (set_thread i t q) = bq_capacity q"
  "bq_put (set_thread i t q) = bq_put q" "bq_taken (set_thread i t q) = bq_taken q"
  by (simp_all add: set_thread_def)

lemma threads_of_set: "bq_threads (set_thread i t q) = (bq_threads q)[i := t]"
  by (simp add: set_thread_def)

text \<open>The five counts after a thread changed.\<close>

lemma counts_set:
  assumes "i < length (bq_threads q)"
  shows "count (\<lambda>t. t = TakeWaiting) (bq_threads (set_thread i t q)) + of_bool (bq_threads q ! i = TakeWaiting) =
      count (\<lambda>t. t = TakeWaiting) (bq_threads q) + of_bool (t = TakeWaiting)"
    and "count (\<lambda>t. t = Notifying) (bq_threads (set_thread i t q)) + of_bool (bq_threads q ! i = Notifying) =
      count (\<lambda>t. t = Notifying) (bq_threads q) + of_bool (t = Notifying)"
    and "count (\<lambda>t. t = Taking) (bq_threads (set_thread i t q)) + of_bool (bq_threads q ! i = Taking) =
      count (\<lambda>t. t = Taking) (bq_threads q) + of_bool (t = Taking)"
    and "count is_PutWaiting (bq_threads (set_thread i t q)) + of_bool (is_PutWaiting (bq_threads q ! i)) =
      count is_PutWaiting (bq_threads q) + of_bool (is_PutWaiting t)"
    and "count is_Putting (bq_threads (set_thread i t q)) + of_bool (is_Putting (bq_threads q ! i)) =
      count is_Putting (bq_threads q) + of_bool (is_Putting t)"
  using count_update [OF assms, of "\<lambda>t. t = TakeWaiting" t] count_update [OF assms, of "\<lambda>t. t = Notifying" t]
    count_update [OF assms, of "\<lambda>t. t = Taking" t] count_update [OF assms, of is_PutWaiting t] count_update [OF assms, of is_Putting t]
  by (simp_all only: threads_of_set)

lemmas put_states [simp] = is_PutWaiting_def is_Putting_def

lemma nth_set_other: "i \<noteq> j \<Longrightarrow> bq_threads (set_thread i t q) ! j = bq_threads q ! j"
  by (simp add: set_thread_def)

lemma bq_ok_threads:
  assumes "bq_ok cap q" and "i < length (bq_threads q)" and "t = Putting x \<or> t = Taking"
    and "bq_threads q ! i = Idle \<or> bq_threads q ! i = TakeWaiting \<and> t = Taking \<or> bq_threads q ! i = PutWaiting x \<and> t = Putting x"
  shows "bq_ok cap (set_thread i t q)"
  using assms counts_set [OF assms(2), of t] by (auto simp: bq_ok_def)

lemma put_locked_ok:
  assumes "bq_ok cap q" and "i < length (bq_threads q)" and "bq_threads q ! i = Putting x"
  shows "\<exists>q'. put_locked i x q = Inr q' \<and> bq_ok cap q'"
proof (cases "bq_full q")
  case True
  then obtain n where "cap = Some n" "length (bq_queue q) = n" using assms(1) by (auto simp: bq_full_def bq_ok_def split: option.splits)
  then show ?thesis using True assms counts_set [OF assms(2), of "PutWaiting x"] by (auto simp: put_locked_def bq_ok_def)
next
  case False
  let ?q = "q\<lparr>bq_queue := bq_queue q @ [x], bq_put := bq_put q @ [x]\<rparr>"
  have "bq_ok cap (set_thread i Notifying ?q)"
    using False assms counts_set [of i ?q Notifying] by (auto simp: bq_ok_def bq_full_def split: option.splits)
  then show ?thesis using False by (simp add: put_locked_def)
qed

lemma notify_ok:
  assumes "bq_ok cap q" and "i < length (bq_threads q)" and "bq_threads q ! i = Notifying" and "chosen (\<lambda>t. t = TakeWaiting) j q"
  shows "bq_ok cap (wake_taker j (set_thread i Idle q))"
proof (cases j)
  case None
  then show ?thesis using assms counts_set [OF assms(2), of Idle] by (auto simp: wake_taker_def chosen_def bq_ok_def)
next
  case (Some k)
  then have k: "k < length (bq_threads (set_thread i Idle q))" "bq_threads q ! k = TakeWaiting" "i \<noteq> k"
    using assms by (auto simp: chosen_def)
  then have "bq_threads (set_thread i Idle q) ! k = TakeWaiting" by (simp add: nth_set_other)
  then show ?thesis using assms(1,3) Some counts_set [OF assms(2), of Idle] counts_set [OF k(1), of Taking]
    by (auto simp: wake_taker_def bq_ok_def)
qed

lemma take_locked_ok:
  assumes "bq_ok cap q" and "i < length (bq_threads q)" and "bq_threads q ! i = Taking" and "chosen is_PutWaiting j q"
  shows "\<exists>q'. take_locked i j q = Inr q' \<and> bq_ok cap q'"
proof (cases "bq_queue q")
  case Nil
  then show ?thesis using assms counts_set [OF assms(2), of TakeWaiting] by (auto simp: take_locked_def bq_ok_def)
next
  case (Cons front rest)
  let ?q = "q\<lparr>bq_queue := rest, bq_taken := bq_taken q @ [front]\<rparr>"
  have c: "i < length (bq_threads ?q)" using assms(2) by simp
  have "bq_ok cap (wake_putter j (set_thread i Idle ?q))"
  proof (cases j)
    case None
    then show ?thesis using assms Cons counts_set [OF c, of Idle] by (auto simp: wake_putter_def chosen_def bq_ok_def)
  next
    case (Some k)
    then obtain x where x: "bq_threads q ! k = PutWaiting x" using assms(4) by (auto simp: chosen_def split: qthread.splits)
    then have k: "k < length (bq_threads (set_thread i Idle ?q))" "i \<noteq> k" using Some assms(3,4) by (auto simp: chosen_def)
    then have "bq_threads (set_thread i Idle ?q) ! k = PutWaiting x" using x by (simp add: nth_set_other)
    then show ?thesis using assms(1,3) Some Cons counts_set [OF c, of Idle] counts_set [OF k(1), of "Putting x"]
      by (auto simp: wake_putter_def bq_ok_def)
  qed
  then show ?thesis using Cons by (simp add: take_locked_def)
qed

definition bq_inv :: "nat option \<Rightarrow> 'a bqueue result \<Rightarrow> bool" where
  "bq_inv cap r \<longleftrightarrow> (\<exists>q. r = Inr q \<and> bq_ok cap q)"

interpretation bq: step_invariant "bq_init cap" bq_step "bq_inv cap" for cap
proof
  show "bq_inv cap s" if "bq_init cap s" for s :: "'a bqueue result"
    using that by (auto simp: bq_init_def bq_inv_def bq_ok_def)
  show "bq_inv cap t" if "bq_inv cap s" "bq_step s t" for s t :: "'a bqueue result"
  proof -
    from that(1) obtain q where q: "s = Inr q" "bq_ok cap q" by (auto simp: bq_inv_def)
    from that(2) show ?thesis
    proof (cases rule: bq_step.cases)
      case (run_put i q' x)
      then show ?thesis using put_locked_ok [of cap q' i x] q by (auto simp: bq_inv_def)
    next
      case (run_notify i q' j)
      then show ?thesis using notify_ok [of cap q' i j] q by (auto simp: bq_inv_def)
    next
      case (run_take i q' j)
      then show ?thesis using take_locked_ok [of cap q' i j] q by (auto simp: bq_inv_def)
    qed (use bq_ok_threads [OF q(2)] q(1) in \<open>auto simp: bq_inv_def\<close>)
  qed
qed

text \<open>
  C23. The queues are first-in first-out, bounded, and cannot get stuck: in every interleaving of any number
  of threads putting and taking, with spurious wake-ups and any choice of the thread a notification
  wakes, no assertion fails; the values taken followed by the queue are the values put, in order; a
  bounded queue never exceeds its capacity; and whenever a thread waits for an element although there is
  one, or for a place although there is one, some other thread of the queue is able to run, so
  no wake-up is lost although \<open>put\<close> notifies after it released the lock. Without a capacity the
  operations are those of the unbounded class.
\<close>

theorem blocking_queue_correct:
  assumes "reach (bq_init cap) bq_step r"
  shows "\<exists>q. r = Inr q \<and> bq_put q = bq_taken q @ bq_queue q \<and> (\<forall>n. cap = Some n \<longrightarrow> length (bq_queue q) \<le> n) \<and>
    ((\<exists>i < length (bq_threads q). bq_threads q ! i = TakeWaiting) \<and> bq_queue q \<noteq> [] \<longrightarrow>
      (\<exists>i < length (bq_threads q). bq_threads q ! i = Notifying \<or> bq_threads q ! i = Taking)) \<and>
    ((\<exists>i < length (bq_threads q). is_PutWaiting (bq_threads q ! i)) \<and> \<not> bq_full q \<longrightarrow>
      (\<exists>i < length (bq_threads q). is_Putting (bq_threads q ! i))) \<and>
    (cap = None \<longrightarrow> (\<forall>i x. put_locked i x q = BlockingQueue_put i x q) \<and>
      (\<forall>i j. chosen is_PutWaiting j q \<longrightarrow> take_locked i j q = BlockingQueue_take i q))"
proof -
  from bq.reach_inv [OF assms] obtain q where q: "r = Inr q" "bq_ok cap q" by (auto simp: bq_inv_def)
  let ?ths = "bq_threads q"
  have "\<exists>i < length ?ths. ?ths ! i = Notifying \<or> ?ths ! i = Taking"
    if "\<exists>i < length ?ths. ?ths ! i = TakeWaiting" "bq_queue q \<noteq> []"
  proof -
    have "0 < count (\<lambda>t. t = TakeWaiting) ?ths" using that(1) count_pos [of _ ?ths "\<lambda>t. t = TakeWaiting"] by auto
    then have "0 < count (\<lambda>t. t = Notifying) ?ths \<or> 0 < count (\<lambda>t. t = Taking) ?ths"
      using q(2) that(2) by (auto simp: bq_ok_def)
    then show ?thesis using count_nth [of "\<lambda>t. t = Notifying" ?ths] count_nth [of "\<lambda>t. t = Taking" ?ths] by blast
  qed
  moreover have "\<exists>i < length ?ths. is_Putting (?ths ! i)"
    if "\<exists>i < length ?ths. is_PutWaiting (?ths ! i)" "\<not> bq_full q"
  proof -
    have "0 < count is_PutWaiting ?ths" using that(1) count_pos [of _ ?ths is_PutWaiting] by auto
    then have "0 < count is_Putting ?ths" using q(2) that(2) by (auto simp: bq_ok_def bq_full_def)
    then show ?thesis using count_nth [of is_Putting ?ths] by blast
  qed
  moreover have "take_locked i j q = BlockingQueue_take i q" if "cap = None" "chosen is_PutWaiting j q" for i j
  proof -
    have "count is_PutWaiting ?ths = 0" using q(2) that(1) by (auto simp: bq_ok_def)
    then have "j = None" using that(2) count_pos [of _ ?ths is_PutWaiting] by (auto simp: chosen_def split: option.splits)
    then show ?thesis by (simp add: BlockingQueue_take_eq)
  qed
  moreover have "cap = None \<Longrightarrow> put_locked i x q = BlockingQueue_put i x q" for i x
    using q(2) BlockingQueue_put_eq [of q i x] by (auto simp: bq_ok_def)
  ultimately show ?thesis using q unfolding bq_ok_def by blast
qed

theorem blocking_queue_correct_witness:
  "\<exists>q. put_locked 0 (7 :: nat) (set_thread 0 (Putting 7)
      \<lparr>bq_capacity = Some 1, bq_queue = [], bq_threads = [Idle, Idle], bq_put = [], bq_taken = []\<rparr>) = Inr q \<and>
    bq_put q = bq_taken q @ bq_queue q \<and> length (bq_queue q) \<le> 1"
proof -
  let ?q = "\<lparr>bq_capacity = Some 1, bq_queue = [], bq_threads = [Idle, Idle], bq_put = [], bq_taken = []\<rparr> :: nat bqueue"
  have 0: "reach (bq_init (Some 1)) bq_step (Inr ?q)"
    by (rule reach_init) (simp add: bq_init_def replicate_Suc [symmetric] exI [of _ 2] numeral_2_eq_2)
  have "bq_step (Inr ?q) (Inr (set_thread 0 (Putting 7) ?q))" by (rule call_put) simp_all
  from reach_step [OF 0 this] have 1: "reach (bq_init (Some 1)) bq_step (Inr (set_thread 0 (Putting 7) ?q))" .
  have "bq_step (Inr (set_thread 0 (Putting 7) ?q)) (put_locked 0 7 (set_thread 0 (Putting 7) ?q))"
    by (rule run_put) (simp_all add: set_thread_def)
  from blocking_queue_correct [OF reach_step [OF 1 this]] show ?thesis by auto
qed

section \<open>CountDownLatch\<close>

datatype lthread = LIdle | LChecking | LBlocked | LPassed

record latch =
  lt_count :: int
  lt_threads :: "lthread list"

definition newCountDownLatch :: "int \<Rightarrow> nat \<Rightarrow> latch" where
  "newCountDownLatch n threads = \<lparr>lt_count = n, lt_threads = replicate threads LIdle\<rparr>"

text \<open>\<open>wait\<close> by thread \<open>i\<close>: one test of the loop condition.\<close>

definition latch_wait :: "nat \<Rightarrow> latch \<Rightarrow> latch" where
  "latch_wait i l = l\<lparr>lt_threads := (lt_threads l)[i := if lt_count l > 0 then LBlocked else LPassed]\<rparr>"

definition countDown :: "latch \<Rightarrow> latch" where
  "countDown l =
     (let c = lt_count l - 1; l' = l\<lparr>lt_count := c\<rparr> in
      if c = 0 then l'\<lparr>lt_threads := map (\<lambda>t. if t = LBlocked then LChecking else t) (lt_threads l')\<rparr> else l')"

definition getCount :: "latch \<Rightarrow> int" where "getCount l = lt_count l"

inductive latch_step :: "latch \<Rightarrow> latch \<Rightarrow> bool" where
  latch_call: "i < length (lt_threads l) \<Longrightarrow> lt_threads l ! i \<in> {LIdle, LBlocked} \<Longrightarrow>
    latch_step l (l\<lparr>lt_threads := (lt_threads l)[i := LChecking]\<rparr>)"
| latch_check: "i < length (lt_threads l) \<Longrightarrow> lt_threads l ! i = LChecking \<Longrightarrow> latch_step l (latch_wait i l)"
| latch_down: "latch_step l (countDown l)"

definition latch_init :: "int \<Rightarrow> latch \<Rightarrow> bool" where
  "latch_init n l \<longleftrightarrow> (\<exists>k. l = newCountDownLatch n k)"

definition latch_inv :: "latch \<Rightarrow> bool" where
  "latch_inv l \<longleftrightarrow> (LBlocked \<in> set (lt_threads l) \<longrightarrow> 0 < lt_count l) \<and> (LPassed \<in> set (lt_threads l) \<longrightarrow> lt_count l \<le> 0)"

interpretation latch: step_invariant "latch_init n" latch_step latch_inv for n
proof
  show "latch_inv s" if "latch_init n s" for s
    using that by (auto simp: latch_init_def newCountDownLatch_def latch_inv_def)
  show "latch_inv t" if "latch_inv s" "latch_step s t" for s t
    using that(2,1)
    by (cases rule: latch_step.cases)
      (auto simp: latch_inv_def latch_wait_def countDown_def Let_def dest!: set_update_subset_insert [THEN subsetD])
qed

text \<open>
  The latch opens exactly at zero: in every interleaving, a thread is only ever blocked while the
  count is positive, so none is left behind when it reaches zero, and a thread that passed \<open>wait\<close> did so
  after the count reached zero.
\<close>

theorem latch_opens_at_zero:
  assumes "reach (latch_init n) latch_step l"
  shows "(LBlocked \<in> set (lt_threads l) \<longrightarrow> 0 < getCount l) \<and> (LPassed \<in> set (lt_threads l) \<longrightarrow> getCount l \<le> 0)"
  using latch.reach_inv [OF assms] by (simp add: latch_inv_def getCount_def)

theorem latch_opens_at_zero_witness:
  "let l = countDown (newCountDownLatch 1 2) in
     (LBlocked \<in> set (lt_threads l) \<longrightarrow> 0 < getCount l) \<and> (LPassed \<in> set (lt_threads l) \<longrightarrow> getCount l \<le> 0)"
proof -
  have "reach (latch_init 1) latch_step (newCountDownLatch 1 2)" by (rule reach_init) (auto simp: latch_init_def)
  from latch_opens_at_zero [OF reach_step [OF this latch_down]] show ?thesis by (simp add: Let_def)
qed

section \<open>ThreadPool\<close>

datatype 't worker =
    AtTop | InTake | PoolBlocked | Got "'t option" | Exited

text \<open>
  Running flag, tasks, workers; as history the tasks given to \<open>run\<close> while there are workers, those taken
  from the queue, those executed by workers, and those executed by the caller.
\<close>

record 't pool =
  pl_running :: bool
  pl_queue :: "'t list"
  pl_workers :: "'t worker list"
  pl_submitted :: "'t list"
  pl_taken :: "'t list"
  pl_done :: "'t list"
  pl_inline :: "'t list"

definition newThreadPool :: "'t pool" where
  "newThreadPool = \<lparr>pl_running = False, pl_queue = [], pl_workers = [], pl_submitted = [], pl_taken = [], pl_done = [],
     pl_inline = []\<rparr>"

definition pool_start :: "nat \<Rightarrow> 't pool \<Rightarrow> 't pool result" where
  "pool_start numThreads p = bindE (assertE (pl_workers p = []) ''threads_.empty()'') (\<lambda>_.
     Inr (p\<lparr>pl_running := True, pl_workers := replicate numThreads AtTop\<rparr>))"

text \<open>\<open>stop\<close> up to the joins.\<close>

definition pool_stop :: "'t pool \<Rightarrow> 't pool" where
  "pool_stop p = p\<lparr>pl_running := False, pl_workers := map (\<lambda>w. if w = PoolBlocked then InTake else w) (pl_workers p)\<rparr>"

text \<open>\<open>run\<close>; \<open>notify\<close> wakes the blocked worker \<open>j\<close>.\<close>

definition pool_run :: "'t \<Rightarrow> nat option \<Rightarrow> 't pool \<Rightarrow> 't pool" where
  "pool_run task j p =
     (if pl_workers p = [] then p\<lparr>pl_inline := pl_inline p @ [task]\<rparr>
      else p\<lparr>pl_queue := pl_queue p @ [task], pl_submitted := pl_submitted p @ [task],
             pl_workers := (case j of None \<Rightarrow> pl_workers p | Some j \<Rightarrow> (pl_workers p)[j := InTake])\<rparr>)"

text \<open>\<open>take\<close> by worker \<open>i\<close>: one test of the loop condition and, if it fails, the rest.\<close>

definition pool_take :: "nat \<Rightarrow> 't pool \<Rightarrow> 't pool" where
  "pool_take i p =
     (if pl_queue p = [] \<and> pl_running p then p\<lparr>pl_workers := (pl_workers p)[i := PoolBlocked]\<rparr>
      else (case pl_queue p of
        [] \<Rightarrow> p\<lparr>pl_workers := (pl_workers p)[i := Got None]\<rparr>
      | task # rest \<Rightarrow> p\<lparr>pl_queue := rest, pl_taken := pl_taken p @ [task], pl_workers := (pl_workers p)[i := Got (Some task)]\<rparr>))"

text \<open>\<open>runInThread\<close>: the loop condition, and the call of the task.\<close>

definition pool_top :: "nat \<Rightarrow> 't pool \<Rightarrow> 't pool" where
  "pool_top i p = p\<lparr>pl_workers := (pl_workers p)[i := if pl_running p then InTake else Exited]\<rparr>"

definition pool_exec :: "nat \<Rightarrow> 't option \<Rightarrow> 't pool \<Rightarrow> 't pool" where
  "pool_exec i task p = p\<lparr>pl_workers := (pl_workers p)[i := AtTop],
     pl_done := pl_done p @ (case task of None \<Rightarrow> [] | Some t \<Rightarrow> [t])\<rparr>"

text \<open>The steps of the callers and of the workers up to the call of a task.\<close>

inductive pool_move :: "'t pool \<Rightarrow> 't pool \<Rightarrow> bool" where
  step_start: "pool_start n p = Inr p' \<Longrightarrow> pool_move p p'"
| step_pool_stop: "pool_move p (pool_stop p)"
| step_run: "(case j of None \<Rightarrow> PoolBlocked \<notin> set (pl_workers p) | Some j \<Rightarrow> j < length (pl_workers p) \<and> pl_workers p ! j = PoolBlocked)
    \<Longrightarrow> pool_move p (pool_run task j p)"
| step_top: "i < length (pl_workers p) \<Longrightarrow> pl_workers p ! i = AtTop \<Longrightarrow> pool_move p (pool_top i p)"
| step_take: "i < length (pl_workers p) \<Longrightarrow> pl_workers p ! i = InTake \<Longrightarrow> pool_move p (pool_take i p)"
| step_spurious: "i < length (pl_workers p) \<Longrightarrow> pl_workers p ! i = PoolBlocked \<Longrightarrow>
    pool_move p (p\<lparr>pl_workers := (pl_workers p)[i := InTake]\<rparr>)"

inductive pool_step :: "'t pool \<Rightarrow> 't pool \<Rightarrow> bool" where
  step_move: "pool_move p p' \<Longrightarrow> pool_step p p'"
| step_exec: "i < length (pl_workers p) \<Longrightarrow> pl_workers p ! i = Got task \<Longrightarrow> pool_step p (pool_exec i task p)"

definition pool_init :: "'t pool \<Rightarrow> bool" where
  "pool_init p \<longleftrightarrow> p = newThreadPool"

text \<open>The tasks in the hands of workers.\<close>

fun got :: "'t worker \<Rightarrow> 't list" where
  "got (Got (Some t)) = [t]"
| "got _ = []"

definition in_hand :: "'t worker list \<Rightarrow> 't multiset" where
  "in_hand ws = mset (concat (map got ws))"

lemma in_hand_update: "i < length ws \<Longrightarrow> in_hand (ws[i := w]) + mset (got (ws ! i)) = in_hand ws + mset (got w)"
proof (induction ws arbitrary: i)
  case (Cons a ws)
  show ?case
  proof (cases i)
    case (Suc k)
    then have "in_hand (ws[k := w]) + mset (got (ws ! k)) = in_hand ws + mset (got w)" using Cons by simp
    then show ?thesis using Suc by (simp add: in_hand_def union_assoc)
  qed (simp add: in_hand_def ac_simps)
qed simp

definition pool_inv :: "'t pool \<Rightarrow> bool" where
  "pool_inv p \<longleftrightarrow> pl_submitted p = pl_taken p @ pl_queue p \<and> mset (pl_taken p) = mset (pl_done p) + in_hand (pl_workers p) \<and>
     (PoolBlocked \<in> set (pl_workers p) \<longrightarrow> pl_running p \<and> length (pl_queue p) \<le> count (\<lambda>w. w = InTake) (pl_workers p))"

lemma blocked_update:
  "PoolBlocked \<in> set (ws[i := w]) \<Longrightarrow> w = PoolBlocked \<or> PoolBlocked \<in> set ws"
  using set_update_subset_insert [of ws i w] by auto

lemma in_hand_wake: "in_hand (map (\<lambda>w. if w = PoolBlocked then InTake else w) ws) = in_hand ws"
  by (induction ws) (auto simp: in_hand_def)

lemma in_hand_replicate [simp]: "in_hand (replicate n AtTop) = {#}" "in_hand [] = {#}"
  by (induction n) (auto simp: in_hand_def)

text \<open>A worker that is not blocked changes; only one in \<open>take\<close> may become blocked, on an empty queue.\<close>

lemma pool_inv_worker:
  assumes "pool_inv p" and "i < length (pl_workers p)"
    and "pl_submitted p' = pl_submitted p" and "pl_submitted p' = pl_taken p' @ pl_queue p'" and "pl_running p' = pl_running p"
    and "pl_workers p' = (pl_workers p)[i := w]"
    and "mset (pl_taken p') + mset (pl_done p) + mset (got (pl_workers p ! i)) = mset (pl_done p') + mset (pl_taken p) + mset (got w)"
    and "w = PoolBlocked \<Longrightarrow> pl_queue p' = [] \<and> pl_running p"
    and "length (pl_queue p') + of_bool (pl_workers p ! i = InTake) \<le> length (pl_queue p) + of_bool (w = InTake) \<or> pl_queue p' = []"
  shows "pool_inv p'"
proof -
  have c: "count (\<lambda>w. w = InTake) ((pl_workers p)[i := w]) + of_bool (pl_workers p ! i = InTake) =
      count (\<lambda>w. w = InTake) (pl_workers p) + of_bool (w = InTake)"
    using count_update [OF assms(2), of "\<lambda>w. w = InTake" w] by simp
  have "mset (pl_taken p') = mset (pl_done p') + in_hand (pl_workers p')"
  proof -
    have "mset (pl_taken p') + mset (pl_done p) + mset (got (pl_workers p ! i)) =
        mset (pl_done p') + (mset (pl_done p) + in_hand (pl_workers p)) + mset (got w)"
      using assms(1,7) by (simp add: pool_inv_def)
    also have "\<dots> = mset (pl_done p') + mset (pl_done p) + (in_hand (pl_workers p') + mset (got (pl_workers p ! i)))"
      using in_hand_update [OF assms(2), of w] assms(6) by (simp add: union_assoc)
    finally show ?thesis by (simp add: ac_simps)
  qed
  moreover have "pl_running p' \<and> length (pl_queue p') \<le> count (\<lambda>w. w = InTake) (pl_workers p')"
    if "PoolBlocked \<in> set (pl_workers p')"
    using blocked_update [of "pl_workers p" i w] that assms c by (auto simp: pool_inv_def split: if_splits)
  ultimately show ?thesis using assms(4) by (simp add: pool_inv_def)
qed

lemma pool_run_ok:
  assumes "pool_inv p" and "case j of None \<Rightarrow> PoolBlocked \<notin> set (pl_workers p) | Some j \<Rightarrow> j < length (pl_workers p) \<and> pl_workers p ! j = PoolBlocked"
  shows "pool_inv (pool_run task j p)"
proof (cases j)
  case None
  then show ?thesis using assms by (auto simp: pool_inv_def pool_run_def)
next
  case (Some k)
  then have k: "k < length (pl_workers p)" "pl_workers p ! k = PoolBlocked" using assms(2) by simp_all
  then have "PoolBlocked \<in> set (pl_workers p)" by (metis nth_mem)
  moreover have "count (\<lambda>w. w = InTake) ((pl_workers p)[k := InTake]) = count (\<lambda>w. w = InTake) (pl_workers p) + 1"
    using count_update [OF k(1), of "\<lambda>w. w = InTake" InTake] k(2) by simp
  moreover have "in_hand ((pl_workers p)[k := InTake]) = in_hand (pl_workers p)"
    using in_hand_update [OF k(1), of InTake] k(2) by simp
  ultimately show ?thesis using assms(1) Some k(1) by (auto simp: pool_inv_def pool_run_def)
qed

lemma pool_move_inv:
  assumes inv: "pool_inv s" and "pool_move s t"
  shows "pool_inv t"
  using assms(2)
proof (cases rule: pool_move.cases)
  case (step_start n)
  then show ?thesis using inv by (auto simp: pool_start_def pool_inv_def split: if_splits)
next
  case step_pool_stop
  then show ?thesis using inv by (auto simp: pool_stop_def pool_inv_def in_hand_wake)
next
  case (step_run j task)
  then show ?thesis using pool_run_ok [OF inv] by simp
next
  case (step_top i)
  then show ?thesis by (intro pool_inv_worker [OF inv, of i]) (use inv in \<open>auto simp: pool_top_def pool_inv_def split: if_splits\<close>)
next
  case (step_take i)
  then show ?thesis
    by (intro pool_inv_worker [OF inv, of i _ "if pl_queue s = [] \<and> pl_running s then PoolBlocked else Got (case pl_queue s of [] \<Rightarrow> None | x # _ \<Rightarrow> Some x)"])
      (use inv in \<open>auto simp: pool_take_def pool_inv_def split: list.splits if_splits\<close>)
next
  case (step_spurious i)
  then show ?thesis by (intro pool_inv_worker [OF inv, of i _ InTake]) (use inv in \<open>auto simp: pool_inv_def\<close>)
qed

interpretation pool: step_invariant pool_init pool_step pool_inv
proof
  show "pool_inv s" if "pool_init s" for s :: "'t pool"
    using that by (simp add: pool_init_def newThreadPool_def pool_inv_def)
  show "pool_inv t" if "pool_inv s" "pool_step s t" for s t :: "'t pool"
    using that(2)
  proof (cases rule: pool_step.cases)
    case (step_exec i task)
    then show ?thesis
      by (intro pool_inv_worker [OF that(1), of i _ AtTop]) (use that(1) in \<open>auto simp: pool_exec_def pool_inv_def split: option.splits\<close>)
  qed (rule pool_move_inv [OF that(1)])
qed

text \<open>
  The thread pool runs every task once and can always be stopped: in every interleaving, the tasks
  are taken from the queue in the order they were given to \<open>run\<close>; the tasks executed and those in the hands of workers are
  exactly those taken; a worker is only blocked while the pool runs, so after \<open>stop\<close> every worker
  leaves \<open>take\<close>; and while one is blocked although there is a task, another one is about to take it.
\<close>

theorem thread_pool_correct:
  assumes "reach pool_init pool_step p"
  shows "pl_submitted p = pl_taken p @ pl_queue p \<and> mset (pl_taken p) = mset (pl_done p) + in_hand (pl_workers p) \<and>
    (PoolBlocked \<in> set (pl_workers p) \<longrightarrow> pl_running p) \<and>
    (PoolBlocked \<in> set (pl_workers p) \<and> pl_queue p \<noteq> [] \<longrightarrow> InTake \<in> set (pl_workers p))"
proof -
  have i: "pool_inv p" by (rule pool.reach_inv [OF assms])
  moreover have "InTake \<in> set (pl_workers p)" if "PoolBlocked \<in> set (pl_workers p)" "pl_queue p \<noteq> []"
  proof -
    have "0 < count (\<lambda>w. w = InTake) (pl_workers p)" using i that by (auto simp: pool_inv_def)
    then show ?thesis using count_nth [of "\<lambda>w. w = InTake" "pl_workers p"] by (metis nth_mem)
  qed
  ultimately show ?thesis by (auto simp: pool_inv_def)
qed

theorem thread_pool_correct_witness:
  "\<exists>p. pool_start 2 (newThreadPool :: nat pool) = Inr p \<and> pl_submitted p = pl_taken p @ pl_queue p"
proof -
  obtain p where p: "pool_start 2 (newThreadPool :: nat pool) = Inr p" by (simp add: pool_start_def newThreadPool_def)
  have "reach pool_init pool_step (newThreadPool :: nat pool)" by (rule reach_init) (simp add: pool_init_def)
  from thread_pool_correct [OF reach_step [OF this step_move [OF step_start [OF p]]]] p show ?thesis by blast
qed

end
