(* ===== verification/Pool_Threads.thy ===== *)
theory Pool_Threads
  imports Sync Threads
begin

text \<open>
  The workers of a \<open>ThreadPool\<close> as threads of the process (\<open>src/muduo/base/ThreadPool.cc\<close>, \<open>Thread.cc\<close>): what happens when a
  task throws, and that \<open>stop\<close>, which joins the workers, returns.

  How a task ends is an argument. An exception leaves the loop of \<open>ThreadPool::runInThread\<close> and meets its three
  handlers, and what these throw again meets the handlers of \<open>Thread::runInThread\<close>, inside of which it runs.
\<close>

section \<open>Handlers\<close>

text \<open>The \<open>catch\<close> clauses of \<open>ThreadPool::runInThread\<close>, for the way its loop ended.\<close>

definition ThreadPool_runInThread :: "string \<Rightarrow> func_end \<Rightarrow> string list \<times> func_end" where
  "ThreadPool_runInThread name e =
     (let caught = ''exception caught in ThreadPool '' @ c_str name in
      case e of
        Throws_muduo ex \<Rightarrow> ([caught, ''reason: '' @ exception_what ex, ''stack trace: '' @ stackTrace ex], Calls_abort)
      | Throws_std what \<Rightarrow> ([caught, ''reason: '' @ what], Calls_abort)
      | Throws_other \<Rightarrow> ([''unknown '' @ caught], Throws_other)
      | _ \<Rightarrow> ([], e))"

text \<open>The name \<open>ThreadPool::start\<close> gives to its thread number \<open>i\<close>.\<close>

definition worker_name :: "string \<Rightarrow> nat \<Rightarrow> string" where
  "worker_name name i = name @ snprintf 32 (dec i)"

text \<open>Both levels of handlers.\<close>

definition worker_end :: "string \<Rightarrow> nat \<Rightarrow> func_end \<Rightarrow> thread_end \<times> string list" where
  "worker_end name i e =
     (case thread_catch (worker_name name i) (ThreadPool_runInThread name e) of (te, out, _) \<Rightarrow> (te, out))"

definition ThreadPool_delete :: "'t pool \<Rightarrow> 't pool" where
  "ThreadPool_delete p = (if pl_running p then pool_stop p else p)"

section \<open>Tasks that throw\<close>

record 't pool_process =
  xp_name :: string
  xp_pool :: "'t pool"
  xp_over :: "thread_end option"
  xp_stderr :: "string list"

fun task_end :: "('t \<Rightarrow> func_end) \<Rightarrow> 't option \<Rightarrow> func_end" where
  "task_end beh None = Returned"
| "task_end beh (Some t) = beh t"

text \<open>
  A worker calls the task it took: if it does not return, the whole process ends. The messages of
  the handlers and the \<open>abort\<close> or rethrow after them are one step here: lines that other threads
  write to \<open>stderr\<close>, and tasks they finish, between the first message and the end of the process
  are not told apart from what they did before.
\<close>

definition execute_task :: "('t \<Rightarrow> func_end) \<Rightarrow> nat \<Rightarrow> 't option \<Rightarrow> 't pool_process \<Rightarrow> 't pool_process" where
  "execute_task beh i task s =
     (if task_end beh task = Returned then s\<lparr>xp_pool := pool_exec i task (xp_pool s)\<rparr>
      else case worker_end (xp_name s) i (task_end beh task) of (te, out) \<Rightarrow>
        s\<lparr>xp_over := Some te, xp_stderr := xp_stderr s @ out\<rparr>)"

inductive xp_step :: "('t \<Rightarrow> func_end) \<Rightarrow> 't pool_process \<Rightarrow> 't pool_process \<Rightarrow> bool" for beh where
  xp_move: "xp_over s = None \<Longrightarrow> pool_move (xp_pool s) p \<Longrightarrow> xp_step beh s (s\<lparr>xp_pool := p\<rparr>)"
| xp_exec: "xp_over s = None \<Longrightarrow> i < length (pl_workers (xp_pool s)) \<Longrightarrow> pl_workers (xp_pool s) ! i = Got task \<Longrightarrow>
    xp_step beh s (execute_task beh i task s)"

definition xp_init :: "string \<Rightarrow> 't pool_process \<Rightarrow> bool" where
  "xp_init name s \<longleftrightarrow> s = \<lparr>xp_name = name, xp_pool = newThreadPool, xp_over = None, xp_stderr = []\<rparr>"

lemma worker_end_cases:
  assumes "e \<noteq> Returned"
  shows "worker_end name i e = (case e of
    Throws_other \<Rightarrow> (Rethrown, [''unknown exception caught in ThreadPool '' @ c_str name,
        ''unknown exception caught in Thread '' @ c_str (worker_name name i)])
  | _ \<Rightarrow> (Process_aborted, fst (ThreadPool_runInThread name e)))"
  using assms by (cases e) (simp_all add: worker_end_def thread_catch_def ThreadPool_runInThread_def Let_def)

definition xp_inv :: "('t \<Rightarrow> func_end) \<Rightarrow> string \<Rightarrow> 't pool_process \<Rightarrow> bool" where
  "xp_inv beh name s \<longleftrightarrow> xp_name s = name \<and> reach pool_init pool_step (xp_pool s) \<and> (\<forall>t\<in>set (pl_done (xp_pool s)). beh t = Returned) \<and>
     (case xp_over s of
        None \<Rightarrow> xp_stderr s = []
      | Some te \<Rightarrow> \<exists>i t. i < length (pl_workers (xp_pool s)) \<and> pl_workers (xp_pool s) ! i = Got (Some t) \<and> beh t \<noteq> Returned \<and>
          worker_end name i (beh t) = (te, xp_stderr s))"

lemma move_done: "pool_move p p' \<Longrightarrow> pl_done p' = pl_done p"
  by (erule pool_move.cases) (auto simp: pool_start_def pool_stop_def pool_run_def pool_top_def pool_take_def split: list.splits if_splits)

interpretation xp: step_invariant "xp_init name" "xp_step beh" "xp_inv beh name" for name and beh :: "'t \<Rightarrow> func_end"
proof
  show "xp_inv beh name s" if "xp_init name s" for s :: "'t pool_process"
    using that by (auto simp: xp_init_def xp_inv_def newThreadPool_def pool_init_def intro: reach_init)
  show "xp_inv beh name s'" if "xp_inv beh name s" "xp_step beh s s'" for s s' :: "'t pool_process"
    using that(2)
  proof (cases rule: xp_step.cases)
    case (xp_move p)
    then show ?thesis using that(1) move_done [OF xp_move(3)] by (auto simp: xp_inv_def intro: reach_step step_move split: option.splits)
  next
    case (xp_exec i task)
    show ?thesis
    proof (cases "task_end beh task = Returned")
      case True
      have "pool_step (xp_pool s) (pool_exec i task (xp_pool s))" by (rule step_exec) (use xp_exec in simp_all)
      then have "reach pool_init pool_step (pool_exec i task (xp_pool s))" using that(1) by (auto simp: xp_inv_def intro: reach_step)
      then show ?thesis using that(1) xp_exec True
        by (cases task) (auto simp: xp_inv_def execute_task_def pool_exec_def)
    next
      case False
      then obtain t where t: "task = Some t" "beh t \<noteq> Returned" by (cases task) auto
      obtain te out where w: "worker_end name i (beh t) = (te, out)" by (cases "worker_end name i (beh t)")
      then show ?thesis using that(1) xp_exec t by (auto simp: xp_inv_def execute_task_def)
    qed
  qed
qed

section \<open>Stopping\<close>

text \<open>The steps of the workers alone, when every task returns.\<close>

inductive worker_step :: "'t pool \<Rightarrow> 't pool \<Rightarrow> bool" where
  worker_top: "i < length (pl_workers p) \<Longrightarrow> pl_workers p ! i = AtTop \<Longrightarrow> worker_step p (pool_top i p)"
| worker_take: "i < length (pl_workers p) \<Longrightarrow> pl_workers p ! i = InTake \<Longrightarrow> worker_step p (pool_take i p)"
| worker_exec: "i < length (pl_workers p) \<Longrightarrow> pl_workers p ! i = Got task \<Longrightarrow> worker_step p (pool_exec i task p)"

fun steps_left :: "'t worker \<Rightarrow> nat" where
  "steps_left InTake = 3"
| "steps_left (Got _) = 2"
| "steps_left AtTop = 1"
| "steps_left Exited = 0"
| "steps_left PoolBlocked = 4"

definition pool_left :: "'t pool \<Rightarrow> nat" where
  "pool_left p = sum_list (map steps_left (pl_workers p))"

definition joined :: "'t pool \<Rightarrow> bool" where
  "joined p \<longleftrightarrow> (\<forall>w\<in>set (pl_workers p). w = Exited)"

lemma sum_list_update:
  "i < length xs \<Longrightarrow> sum_list (map f (xs[i := y])) + f (xs ! i) = sum_list (map f xs) + (f y :: nat)"
proof (induction xs arbitrary: i)
  case (Cons x xs)
  then show ?case by (cases i) (simp_all add: ac_simps)
qed simp

lemma pool_left_set:
  assumes "i < length (pl_workers p)" and "pl_workers p' = (pl_workers p)[i := w]"
  shows "pool_left p' + steps_left (pl_workers p ! i) = pool_left p + steps_left w"
  using sum_list_update [OF assms(1), of steps_left w] assms(2) by (simp add: pool_left_def)

text \<open>A stopped pool: nobody waits, and the flag stays down.\<close>

definition stopped :: "'t pool \<Rightarrow> bool" where
  "stopped p \<longleftrightarrow> \<not> pl_running p \<and> PoolBlocked \<notin> set (pl_workers p)"

lemma worker_step_stopped:
  assumes "stopped p" and "worker_step p p'"
  shows "stopped p' \<and> pool_left p = Suc (pool_left p') \<and> length (pl_workers p') = length (pl_workers p)"
  using assms(2)
proof (cases rule: worker_step.cases)
  case (worker_top i)
  then show ?thesis using assms(1) pool_left_set [of i p p' Exited]
    by (auto simp: stopped_def pool_top_def dest!: blocked_update)
next
  case (worker_take i)
  let ?w = "Got (case pl_queue p of [] \<Rightarrow> None | t # _ \<Rightarrow> Some t)"
  have "pl_workers p' = (pl_workers p)[i := ?w] \<and> pl_running p' = pl_running p"
    using worker_take(1) assms(1) by (auto simp: pool_take_def stopped_def split: list.splits)
  then show ?thesis using assms(1) worker_take pool_left_set [of i p p' ?w]
    by (auto simp: stopped_def dest!: blocked_update)
next
  case (worker_exec i task)
  then show ?thesis using assms(1) pool_left_set [of i p p' AtTop]
    by (auto simp: stopped_def pool_exec_def dest!: blocked_update)
qed

lemma worker_progress:
  assumes "stopped p" and "\<not> joined p"
  shows "\<exists>p'. worker_step p p'"
proof -
  from assms(2) obtain i where i: "i < length (pl_workers p)" "pl_workers p ! i \<noteq> Exited"
    by (auto simp: joined_def in_set_conv_nth)
  moreover have "pl_workers p ! i \<noteq> PoolBlocked" using assms(1) i(1) by (metis stopped_def nth_mem)
  ultimately show ?thesis by (cases "pl_workers p ! i") (auto intro: worker_step.intros)
qed

lemma pool_left_bound:
  assumes "stopped p"
  shows "pool_left p \<le> 3 * length (pl_workers p)"
proof -
  have "steps_left w \<le> 3" if "w \<in> set (pl_workers p)" for w using assms that by (cases w) (auto simp: stopped_def)
  then have "sum_list (map steps_left (pl_workers p)) \<le> sum_list (map (\<lambda>_. 3) (pl_workers p))" by (rule sum_list_mono)
  then show ?thesis by (simp add: pool_left_def sum_list_triv)
qed

lemma worker_steps_stopped:
  assumes "stopped p" and "(worker_step ^^ k) p p'"
  shows "stopped p' \<and> pool_left p = k + pool_left p'"
  using assms(2)
proof (induction k arbitrary: p')
  case (Suc k)
  then obtain q where "(worker_step ^^ k) p q" "worker_step q p'" by auto
  then show ?case using Suc.IH [of q] worker_step_stopped [of q p'] by simp
qed (use assms(1) in simp)

lemma worker_steps_join:
  assumes "stopped p"
  shows "\<exists>k q. (worker_step ^^ k) p q \<and> joined q"
  using assms
proof (induction "pool_left p" arbitrary: p)
  case 0
  then have "joined p" using worker_progress [of p] worker_step_stopped [of p] by fastforce
  then show ?case by (intro exI [of _ 0] exI [of _ p]) simp
next
  case (Suc n)
  show ?case
  proof (cases "joined p")
    case True
    then show ?thesis by (intro exI [of _ 0] exI [of _ p]) simp
  next
    case False
    then obtain q where q: "worker_step p q" using worker_progress Suc.prems by blast
    with Suc have "n = pool_left q" "stopped q" using worker_step_stopped [of p q] by auto
    then obtain k r where "(worker_step ^^ k) q r" "joined r" using Suc.hyps(1) by blast
    then show ?thesis using relpowp_Suc_I2 [of worker_step p q k r] q by blast
  qed
qed

lemma worker_step_pool: "worker_step p p' \<Longrightarrow> pool_step p p'"
  by (erule worker_step.cases) (auto intro: pool_step.intros pool_move.intros)

lemma worker_step_submitted: "worker_step p p' \<Longrightarrow> pl_submitted p' = pl_submitted p"
  by (erule worker_step.cases) (auto simp: pool_top_def pool_take_def pool_exec_def split: list.splits)

lemma worker_steps_pool:
  assumes "reach pool_init pool_step p" and "(worker_step ^^ k) p p'"
  shows "reach pool_init pool_step p' \<and> pl_submitted p' = pl_submitted p"
  using assms(2)
proof (induction k arbitrary: p')
  case (Suc k)
  then obtain q where "(worker_step ^^ k) p q" "worker_step q p'" by auto
  then show ?case using Suc.IH [of q] worker_step_pool worker_step_submitted by (metis reach_step)
qed (use assms(1) in simp)

lemma joined_in_hand: "joined p \<Longrightarrow> in_hand (pl_workers p) = {#}"
  by (auto simp: joined_def in_hand_def)

lemma stop_stopped: "stopped (pool_stop p)"
  by (auto simp: stopped_def pool_stop_def)

text \<open>
  C32. \<open>ThreadPool::stop\<close> returns when every task returns: from the state it leaves, whatever the interleaving before it
  and whatever the interleaving after it, the workers make at most three steps each, from every state on the way they can
  go on until all of them have left \<open>runInThread\<close>, and once all have, \<open>join\<close> returns for each. The tasks given to
  \<open>run\<close> have then been executed once each or are still in the queue, which \<open>stop\<close> does not empty.
\<close>

theorem pool_stop_joins:
  assumes "reach pool_init pool_step p"
    and "(worker_step ^^ k) (pool_stop p) q"
  shows "k \<le> 3 * length (pl_workers p) \<and> (\<exists>j r. (worker_step ^^ j) q r \<and> joined r) \<and> ((\<nexists>r. worker_step q r) \<longrightarrow> joined q) \<and>
    (joined q \<longrightarrow> mset (pl_submitted p) = mset (pl_done q) + mset (pl_queue q))"
proof (intro conjI impI)
  have st: "stopped q \<and> pool_left (pool_stop p) = k + pool_left q" by (rule worker_steps_stopped [OF stop_stopped assms(2)])
  then show "k \<le> 3 * length (pl_workers p)" using pool_left_bound [OF stop_stopped, of p] by (simp add: pool_stop_def)
  show "\<exists>j r. (worker_step ^^ j) q r \<and> joined r" using worker_steps_join st by blast
  show "joined q" if "\<nexists>r. worker_step q r" using worker_progress st that by blast
  have "pool_step p (pool_stop p)" by (rule step_move) (rule step_pool_stop)
  then have "reach pool_init pool_step (pool_stop p)" by (rule reach_step [OF assms(1)])
  from worker_steps_pool [OF this assms(2)] have q: "pool_inv q" "pl_submitted q = pl_submitted p"
    using pool.reach_inv by (auto simp: pool_stop_def)
  then show "mset (pl_submitted p) = mset (pl_done q) + mset (pl_queue q)" if "joined q"
    using joined_in_hand [OF that] by (simp add: pool_inv_def)
qed

lemma demo_pool_reach:
  "reach pool_init pool_step (pool_run t None \<lparr>pl_running = True, pl_queue = [], pl_workers = [AtTop, AtTop], pl_submitted = [],
     pl_taken = [], pl_done = [], pl_inline = []\<rparr>)"
proof -
  have 1: "reach pool_init pool_step (newThreadPool :: 'a pool)" by (rule reach_init) (simp add: pool_init_def)
  have 2: "pool_start 2 (newThreadPool :: 'a pool) = Inr \<lparr>pl_running = True, pl_queue = [], pl_workers = [AtTop, AtTop], pl_submitted = [],
     pl_taken = [], pl_done = [], pl_inline = []\<rparr>" by (simp add: pool_start_def newThreadPool_def numeral_2_eq_2)
  show ?thesis by (rule reach_step [OF reach_step [OF 1 step_move [OF step_start [OF 2]]]]) (rule step_move, rule step_run, simp)
qed

definition demo_stopping :: "nat pool" where
  "demo_stopping = \<lparr>pl_running = False, pl_queue = [7], pl_workers = [Exited, AtTop], pl_submitted = [7], pl_taken = [], pl_done = [], pl_inline = []\<rparr>"

theorem pool_stop_joins_witness:
  "(1::nat) \<le> 6 \<and> (\<exists>j r. (worker_step ^^ j) demo_stopping r \<and> joined r)"
proof -
  let ?p = "pool_run (7::nat) None \<lparr>pl_running = True, pl_queue = [], pl_workers = [AtTop, AtTop], pl_submitted = [],
     pl_taken = [], pl_done = [], pl_inline = []\<rparr>"
  have "worker_step (pool_stop ?p) (pool_top 0 (pool_stop ?p))"
    by (rule worker_top) (simp_all add: pool_stop_def pool_run_def)
  moreover have "pool_top 0 (pool_stop ?p) = demo_stopping" by (simp add: demo_stopping_def pool_top_def pool_stop_def pool_run_def)
  ultimately have "(worker_step ^^ 1) (pool_stop ?p) demo_stopping" by (simp only: relpowp_1)
  from pool_stop_joins [OF demo_pool_reach this] show ?thesis by (simp add: pool_run_def)
qed

text \<open>What the user is to find on the standard error stream, and how the process is to end.\<close>

fun reported :: "string \<Rightarrow> nat \<Rightarrow> func_end \<Rightarrow> thread_end option \<Rightarrow> string list \<Rightarrow> bool" where
  "reported name i Returned over err \<longleftrightarrow> False"
| "reported name i (Throws_muduo ex) over err \<longleftrightarrow> over = Some Process_aborted \<and> err = [''exception caught in ThreadPool '' @ c_str name,
     ''reason: '' @ c_str (xc_message ex), ''stack trace: '' @ c_str (xc_stack ex)]"
| "reported name i (Throws_std what) over err \<longleftrightarrow> over = Some Process_aborted \<and>
     err = [''exception caught in ThreadPool '' @ c_str name, ''reason: '' @ what]"
| "reported name i Throws_other over err \<longleftrightarrow> over = Some Rethrown \<and> err = [''unknown exception caught in ThreadPool '' @ c_str name,
     ''unknown exception caught in Thread '' @ c_str (name @ snprintf 32 (dec i))]"
| "reported name i Calls_abort over err \<longleftrightarrow> over = Some Process_aborted \<and> err = []"

text \<open>
  C31. A task that throws takes the process down with a report, and never silently ends a worker: in every interleaving of callers
  and workers, the tasks counted as executed have all returned; as long as no task failed nothing is printed; and when the
  process is over, some worker had called a task that did not return, and the output is that of the handlers:
  for an \<open>Exception\<close> the name of the pool, its reason and its stack trace, then \<open>abort\<close>; for another
  standard exception the name and the reason, then \<open>abort\<close>; for anything else the
  pool's line, then the line of the thread, which has the pool's name with the number of the worker, and the exception leaves
  the thread. A process that is over takes no further step.
\<close>

theorem pool_exceptions:
  assumes "reach (xp_init name) (xp_step beh) s"
  shows "(\<forall>t\<in>set (pl_done (xp_pool s)). beh t = Returned) \<and> pool_inv (xp_pool s) \<and> (xp_over s = None \<longrightarrow> xp_stderr s = []) \<and>
    (xp_over s \<noteq> None \<longrightarrow> (\<nexists>s'. xp_step beh s s') \<and>
      (\<exists>i t. i < length (pl_workers (xp_pool s)) \<and> pl_workers (xp_pool s) ! i = Got (Some t) \<and>
        reported name i (beh t) (xp_over s) (xp_stderr s)))"
proof -
  have inv: "xp_inv beh name s" by (rule xp.reach_inv [OF assms])
  have stuck: "\<nexists>s'. xp_step beh s s'" if "xp_over s \<noteq> None" using that by (auto elim: xp_step.cases)
  show ?thesis
  proof (cases "xp_over s")
    case None
    then show ?thesis using inv by (auto simp: xp_inv_def intro: pool.reach_inv)
  next
    case (Some te)
    then obtain i t where it: "i < length (pl_workers (xp_pool s))" "pl_workers (xp_pool s) ! i = Got (Some t)" "beh t \<noteq> Returned"
      "worker_end name i (beh t) = (te, xp_stderr s)" using inv by (auto simp: xp_inv_def)
    have "reported name i (beh t) (xp_over s) (xp_stderr s)"
      using it(3,4) Some worker_end_cases [OF it(3), of name i]
      by (auto simp: ThreadPool_runInThread_def worker_name_def Let_def exception_what_def stackTrace_def split: func_end.splits)
    with it(1,2) have "\<exists>i t. i < length (pl_workers (xp_pool s)) \<and> pl_workers (xp_pool s) ! i = Got (Some t) \<and>
        reported name i (beh t) (xp_over s) (xp_stderr s)" by blast
    then show ?thesis using inv stuck Some by (auto simp: xp_inv_def intro: pool.reach_inv)
  qed
qed

text \<open>The second worker meets an exception of no known type.\<close>

definition demo_beh :: "nat \<Rightarrow> func_end" where
  "demo_beh t = (if t = 7 then Throws_other else Returned)"

definition demo_over :: "nat pool_process" where
  "demo_over = \<lparr>xp_name = ''io'', xp_pool = \<lparr>pl_running = True, pl_queue = [], pl_workers = [AtTop, Got (Some 7)], pl_submitted = [7],
     pl_taken = [7], pl_done = [], pl_inline = []\<rparr>, xp_over = Some Rethrown,
     xp_stderr = [''unknown exception caught in ThreadPool io'', ''unknown exception caught in Thread io1'']\<rparr>"

definition demo_members :: "nat pool \<Rightarrow> nat pool_process" where
  "demo_members p = \<lparr>xp_name = ''io'', xp_pool = p, xp_over = None, xp_stderr = []\<rparr>"

definition demo_pool :: "nat list \<Rightarrow> nat worker \<Rightarrow> nat list \<Rightarrow> nat list \<Rightarrow> nat pool" where
  "demo_pool q w sub tak = \<lparr>pl_running = True, pl_queue = q, pl_workers = [AtTop, w], pl_submitted = sub, pl_taken = tak, pl_done = [],
     pl_inline = []\<rparr>"

lemma demo_move:
  assumes "reach (xp_init ''io'') (xp_step demo_beh) (demo_members p)" and "pool_move p p'"
  shows "reach (xp_init ''io'') (xp_step demo_beh) (demo_members p')"
  using reach_step [OF assms(1) xp_move [of "demo_members p" p']] assms(2) by (simp add: demo_members_def)

lemma demo_over_reach: "reach (xp_init ''io'') (xp_step demo_beh) demo_over"
proof -
  have "reach (xp_init ''io'') (xp_step demo_beh) (demo_members newThreadPool)"
    by (rule reach_init) (simp add: xp_init_def demo_members_def)
  moreover have "pool_move newThreadPool (demo_pool [] AtTop [] [])"
    by (rule step_start [of 2]) (simp add: pool_start_def newThreadPool_def demo_pool_def numeral_2_eq_2)
  ultimately have 1: "reach (xp_init ''io'') (xp_step demo_beh) (demo_members (demo_pool [] AtTop [] []))" by (rule demo_move)
  have "pool_move (demo_pool [] AtTop [] []) (demo_pool [7] AtTop [7] [])"
    using step_run [of "demo_pool [] AtTop [] []" None 7] by (simp add: pool_run_def demo_pool_def)
  with 1 have 2: "reach (xp_init ''io'') (xp_step demo_beh) (demo_members (demo_pool [7] AtTop [7] []))" by (rule demo_move)
  have "pool_move (demo_pool [7] AtTop [7] []) (demo_pool [7] InTake [7] [])"
    using step_top [of 1 "demo_pool [7] AtTop [7] []"] by (simp add: pool_top_def demo_pool_def)
  with 2 have 3: "reach (xp_init ''io'') (xp_step demo_beh) (demo_members (demo_pool [7] InTake [7] []))" by (rule demo_move)
  have "pool_move (demo_pool [7] InTake [7] []) (demo_pool [] (Got (Some 7)) [7] [7])"
    using step_take [of 1 "demo_pool [7] InTake [7] []"] by (simp add: pool_take_def demo_pool_def)
  with 3 have 4: "reach (xp_init ''io'') (xp_step demo_beh) (demo_members (demo_pool [] (Got (Some 7)) [7] [7]))" by (rule demo_move)
  have "dec (Suc 0) = ''1''" by code_simp
  then have "execute_task demo_beh 1 (Some 7) (demo_members (demo_pool [] (Got (Some 7)) [7] [7])) = demo_over"
    by (simp add: demo_members_def demo_pool_def execute_task_def demo_beh_def demo_over_def worker_end_cases worker_name_def snprintf_def c_str_def)
  moreover have "xp_step demo_beh (demo_members (demo_pool [] (Got (Some 7)) [7] [7]))
      (execute_task demo_beh 1 (Some 7) (demo_members (demo_pool [] (Got (Some 7)) [7] [7])))"
    by (rule xp_exec) (simp_all add: demo_members_def demo_pool_def)
  ultimately show ?thesis using reach_step [OF 4] by simp
qed

theorem pool_exceptions_witness:
  "xp_over demo_over \<noteq> None \<and> (\<nexists>s. xp_step demo_beh demo_over s) \<and> pool_inv (xp_pool demo_over) \<and>
    (\<exists>i t. pl_workers (xp_pool demo_over) ! i = Got (Some t) \<and> reported ''io'' i (demo_beh t) (xp_over demo_over) (xp_stderr demo_over))"
proof -
  have "xp_over demo_over \<noteq> None" by (simp add: demo_over_def)
  with pool_exceptions [OF demo_over_reach] show ?thesis by blast
qed

end
