(* ===== verification/String_Piece.thy ===== *)
theory String_Piece
  imports Std_Map
begin

text \<open>
  \<open>src/muduo/base/StringPiece.h\<close>: a pointer and a length that refer to characters owned by somebody
  else.

  Memory is a map from blocks to their bytes; a pointer is a block and an offset, or null. A read
  outside a live block is undefined behaviour, and so is a read of a negative number of bytes, which
  the code turns into a huge \<open>size_t\<close>; a read of no byte touches nothing. Of \<open>memcmp\<close> only the sign
  is specified; it compares bytes as unsigned characters. The order it induces is the order of
  \<open>Char_ord\<close> and \<open>List_Lexorder\<close>, so the operators are compared with the order on strings.
\<close>

section \<open>Memory\<close>

type_synonym memory = "nat \<rightharpoonup> string"
type_synonym pointer = "(nat \<times> int) option"

definition load :: "memory \<Rightarrow> pointer \<Rightarrow> int \<Rightarrow> string result" where
  "load m p n =
     (if n = 0 then Inr []
      else case p of
        None \<Rightarrow> Inl (Undefined_Behaviour ''null pointer'')
      | Some (b, i) \<Rightarrow> (case m b of
          None \<Rightarrow> Inl (Undefined_Behaviour ''dangling pointer'')
        | Some s \<Rightarrow>
            if 0 \<le> n \<and> 0 \<le> i \<and> i + n \<le> int (length s) then Inr (take (nat n) (drop (nat i) s))
            else Inl (Undefined_Behaviour ''out of bounds'')))"

text \<open>\<open>strlen\<close>: the distance to the first zero byte, which must be inside the block.\<close>

definition strlen :: "memory \<Rightarrow> pointer \<Rightarrow> nat result" where
  "strlen m p = (case p of
     None \<Rightarrow> Inl (Undefined_Behaviour ''null pointer'')
   | Some (b, i) \<Rightarrow> (case m b of
       None \<Rightarrow> Inl (Undefined_Behaviour ''dangling pointer'')
     | Some s \<Rightarrow>
         if 0 \<le> i \<and> CHR 0x00 \<in> set (drop (nat i) s) then Inr (find_char (CHR 0x00) (drop (nat i) s))
         else Inl (Undefined_Behaviour ''unterminated string'')))"

fun memcmp_bytes :: "string \<Rightarrow> string \<Rightarrow> int" where
  "memcmp_bytes (x # xs) (y # ys) =
     (if x = y then memcmp_bytes xs ys else if (of_char x :: nat) < of_char y then - 1 else 1)"
| "memcmp_bytes _ _ = 0"

definition memcmp :: "memory \<Rightarrow> pointer \<Rightarrow> pointer \<Rightarrow> int \<Rightarrow> int result" where
  "memcmp m p q n = bindE (load m p n) (\<lambda>a. bindE (load m q n) (\<lambda>b. Inr (memcmp_bytes a b)))"

text \<open>Subtraction of \<open>int\<close> values, undefined on overflow.\<close>

definition int_sub :: "int \<Rightarrow> int \<Rightarrow> int result" where
  "int_sub a b = (if - (2 ^ 31) \<le> a - b \<and> a - b < 2 ^ 31 then Inr (a - b)
     else Inl (Undefined_Behaviour ''signed overflow''))"

section \<open>StringPiece\<close>

record string_piece =
  sp_ptr :: pointer
  sp_length :: int

definition sp_default :: string_piece where
  "sp_default = \<lparr>sp_ptr = None, sp_length = 0\<rparr>"

definition sp_cstr :: "memory \<Rightarrow> pointer \<Rightarrow> string_piece result" where
  "sp_cstr m str = bindE (strlen m str) (\<lambda>n. Inr \<lparr>sp_ptr = str, sp_length = cast_int (int n)\<rparr>)"

definition sp_string :: "nat \<Rightarrow> nat \<Rightarrow> string_piece" where
  "sp_string data sz = \<lparr>sp_ptr = Some (data, 0), sp_length = cast_int (int sz)\<rparr>"

definition sp_range :: "pointer \<Rightarrow> int \<Rightarrow> string_piece" where
  "sp_range offset len = \<lparr>sp_ptr = offset, sp_length = len\<rparr>"

definition sp_empty :: "string_piece \<Rightarrow> bool" where
  "sp_empty p \<longleftrightarrow> sp_length p = 0"

definition sp_clear :: "string_piece \<Rightarrow> string_piece" where
  "sp_clear p = p\<lparr>sp_ptr := None, sp_length := 0\<rparr>"

definition sp_set :: "pointer \<Rightarrow> int \<Rightarrow> string_piece \<Rightarrow> string_piece" where
  "sp_set buffer len p = p\<lparr>sp_ptr := buffer, sp_length := len\<rparr>"

definition sp_set_cstr :: "memory \<Rightarrow> pointer \<Rightarrow> string_piece \<Rightarrow> string_piece result" where
  "sp_set_cstr m str p = bindE (strlen m str) (\<lambda>n. Inr (p\<lparr>sp_ptr := str, sp_length := cast_int (int n)\<rparr>))"

definition shift :: "pointer \<Rightarrow> int \<Rightarrow> pointer" where
  "shift p n = map_option (\<lambda>(b, i). (b, i + n)) p"

definition sp_index :: "memory \<Rightarrow> string_piece \<Rightarrow> int \<Rightarrow> char result" where
  "sp_index m p i = bindE (load m (shift (sp_ptr p) i) 1) (\<lambda>s. Inr (hd s))"

definition remove_prefix :: "int \<Rightarrow> string_piece \<Rightarrow> string_piece result" where
  "remove_prefix n p =
     bindE (int_sub (sp_length p) n) (\<lambda>len. Inr (p\<lparr>sp_ptr := shift (sp_ptr p) n, sp_length := len\<rparr>))"

definition remove_suffix :: "int \<Rightarrow> string_piece \<Rightarrow> string_piece result" where
  "remove_suffix n p = bindE (int_sub (sp_length p) n) (\<lambda>len. Inr (p\<lparr>sp_length := len\<rparr>))"

definition sp_eq :: "memory \<Rightarrow> string_piece \<Rightarrow> string_piece \<Rightarrow> bool result" where
  "sp_eq m p x =
     (if sp_length p = sp_length x
      then bindE (memcmp m (sp_ptr p) (sp_ptr x) (sp_length p)) (\<lambda>r. Inr (r = 0))
      else Inr False)"

definition sp_ne :: "memory \<Rightarrow> string_piece \<Rightarrow> string_piece \<Rightarrow> bool result" where
  "sp_ne m p x = bindE (sp_eq m p x) (\<lambda>e. Inr (\<not> e))"

text \<open>The macro \<open>STRINGPIECE_BINARY_PREDICATE(cmp, auxcmp)\<close> and its four expansions.\<close>

definition sp_binary ::
  "(int \<Rightarrow> int \<Rightarrow> bool) \<Rightarrow> (int \<Rightarrow> int \<Rightarrow> bool) \<Rightarrow> memory \<Rightarrow> string_piece \<Rightarrow> string_piece \<Rightarrow> bool result" where
  "sp_binary cmp auxcmp m p x =
     bindE (memcmp m (sp_ptr p) (sp_ptr x) (if sp_length p < sp_length x then sp_length p else sp_length x)) (\<lambda>r.
     Inr (auxcmp r 0 \<or> r = 0 \<and> cmp (sp_length p) (sp_length x)))"

definition sp_less :: "memory \<Rightarrow> string_piece \<Rightarrow> string_piece \<Rightarrow> bool result" where
  "sp_less = sp_binary (<) (<)"

definition sp_le :: "memory \<Rightarrow> string_piece \<Rightarrow> string_piece \<Rightarrow> bool result" where
  "sp_le = sp_binary (\<le>) (<)"

definition sp_ge :: "memory \<Rightarrow> string_piece \<Rightarrow> string_piece \<Rightarrow> bool result" where
  "sp_ge = sp_binary (\<ge>) (>)"

definition sp_greater :: "memory \<Rightarrow> string_piece \<Rightarrow> string_piece \<Rightarrow> bool result" where
  "sp_greater = sp_binary (>) (>)"

definition sp_compare :: "memory \<Rightarrow> string_piece \<Rightarrow> string_piece \<Rightarrow> int result" where
  "sp_compare m p x =
     bindE (memcmp m (sp_ptr p) (sp_ptr x) (if sp_length p < sp_length x then sp_length p else sp_length x)) (\<lambda>r.
     Inr (if r = 0 then if sp_length p < sp_length x then - 1 else if sp_length p > sp_length x then 1 else r
          else r))"

text \<open>
  The constructor \<open>string(const char *, size_t)\<close> throws on a length above its maximum, which every
  negative \<open>int\<close> becomes, and on a null pointer with a length.
\<close>

definition as_string :: "memory \<Rightarrow> string_piece \<Rightarrow> string result" where
  "as_string m p =
     (if sp_length p < 0 then Inl (Cpp_Exception ''length_error'')
      else if sp_ptr p = None \<and> 0 < sp_length p then Inl (Cpp_Exception ''logic_error'')
      else load m (sp_ptr p) (sp_length p))"

definition CopyToString :: "memory \<Rightarrow> string_piece \<Rightarrow> string result" where
  "CopyToString m p =
     (if sp_length p < 0 then Inl (Cpp_Exception ''length_error'') else load m (sp_ptr p) (sp_length p))"

definition starts_with :: "memory \<Rightarrow> string_piece \<Rightarrow> string_piece \<Rightarrow> bool result" where
  "starts_with m p x =
     (if sp_length p \<ge> sp_length x
      then bindE (memcmp m (sp_ptr p) (sp_ptr x) (sp_length x)) (\<lambda>r. Inr (r = 0))
      else Inr False)"

section \<open>What a piece denotes\<close>

definition sp_text :: "memory \<Rightarrow> string_piece \<Rightarrow> string result" where
  "sp_text m p = load m (sp_ptr p) (sp_length p)"

lemma load_length: "load m p n = Inr a \<Longrightarrow> n = int (length a)"
  by (auto simp: load_def split: if_splits option.splits)

text \<open>A readable range can be read in parts.\<close>

lemma load_part:
  assumes "load m p (int (length a)) = Inr a" and "i + k \<le> length a"
  shows "load m (shift p (int i)) (int k) = Inr (take k (drop i a))"
proof -
  have sub: "take k (drop (j + i) s) = take k (drop i a)" if "take (length a) (drop j s) = a" for s j
  proof -
    have "take k (drop i (take (length a) (drop j s))) = take k (drop (j + i) s)"
      using assms(2) by (simp add: drop_take min_absorb1 add.commute)
    then show ?thesis using that by simp
  qed
  show ?thesis
    using assms sub by (cases "length a = 0")
      (auto simp: load_def shift_def nat_add_distrib split: if_splits option.splits)
qed

lemma load_take:
  assumes "load m p (int (length a)) = Inr a" and "k \<le> length a"
  shows "load m p (int k) = Inr (take k a)"
  using load_part [of m p a 0 k] assms by (cases p) (auto simp: shift_def)

lemma memcmp_take:
  assumes "load m p (int (length a)) = Inr a" and "load m q (int (length b)) = Inr b"
    and "k \<le> length a" and "k \<le> length b"
  shows "memcmp m p q (int k) = Inr (memcmp_bytes (take k a) (take k b))"
  by (simp add: memcmp_def load_take [OF assms(1,3)] load_take [OF assms(2,4)])

text \<open>The bytes and then the lengths decide as the lexicographic order does.\<close>

lemma memcmp_bytes_eq: "length a = length b \<Longrightarrow> memcmp_bytes a b = 0 \<longleftrightarrow> a = b"
  by (induction a b rule: list_induct2) auto

abbreviation common :: "string \<Rightarrow> string \<Rightarrow> int" where
  "common a b \<equiv> (let k = min (length a) (length b) in memcmp_bytes (take k a) (take k b))"

lemma Nil_less_iff [simp]: "[] < (xs :: 'a :: linorder list) \<longleftrightarrow> xs \<noteq> []"
  by (cases xs) auto

lemma char_neq_less: "x \<noteq> y \<Longrightarrow> \<not> (of_char x :: nat) < of_char y \<Longrightarrow> (of_char y :: nat) < of_char x"
  by (metis antisym_conv3 of_char_eq_iff)

lemma memcmp_less: "common a b < 0 \<or> common a b = 0 \<and> length a < length b \<longleftrightarrow> a < b"
  by (induction a b rule: memcmp_bytes.induct) (auto simp: less_char_def Let_def)

lemma memcmp_zero: "common a b = 0 \<and> length a = length b \<longleftrightarrow> a = b"
  using memcmp_bytes_eq [of a b] by (auto simp: Let_def memcmp_bytes_eq)

lemma memcmp_greater: "common a b > 0 \<or> common a b = 0 \<and> length b < length a \<longleftrightarrow> b < a"
  by (induction a b rule: memcmp_bytes.induct) (auto simp: less_char_def Let_def dest: char_neq_less)

lemma memcmp_common:
  assumes "sp_text m p = Inr a" and "sp_text m x = Inr b"
  shows "memcmp m (sp_ptr p) (sp_ptr x) (if sp_length p < sp_length x then sp_length p else sp_length x) =
    Inr (common a b)"
proof -
  have len: "sp_length p = int (length a)" "sp_length x = int (length b)"
    using assms by (auto simp: sp_text_def dest: load_length)
  have "(if sp_length p < sp_length x then sp_length p else sp_length x) = int (min (length a) (length b))"
    by (simp add: len min_def)
  moreover have "memcmp m (sp_ptr p) (sp_ptr x) (int (min (length a) (length b))) = Inr (common a b)"
    using memcmp_take [of m "sp_ptr p" a "sp_ptr x" b "min (length a) (length b)"] assms
    by (simp add: sp_text_def len Let_def)
  ultimately show ?thesis by simp
qed

lemma sp_lengths: "sp_text m p = Inr a \<Longrightarrow> sp_length p = int (length a)"
  by (auto simp: sp_text_def dest: load_length)

lemma sp_eq_iff:
  assumes "sp_text m p = Inr a" and "sp_text m x = Inr b"
  shows "sp_eq m p x = Inr (a = b)"
  using memcmp_take [of m "sp_ptr p" a "sp_ptr x" b "length a"] assms
  by (auto simp: sp_eq_def sp_text_def sp_lengths [OF assms(1)] sp_lengths [OF assms(2)] memcmp_bytes_eq)

lemma starts_with_iff:
  assumes "sp_text m p = Inr a" and "sp_text m x = Inr b"
  shows "starts_with m p x = Inr (\<exists>rest. a = b @ rest)"
proof (cases "length b \<le> length a")
  case True
  then have "memcmp m (sp_ptr p) (sp_ptr x) (sp_length x) = Inr (memcmp_bytes (take (length b) a) b)"
    using memcmp_take [of m "sp_ptr p" a "sp_ptr x" b "length b"] assms
    by (simp add: sp_text_def sp_lengths [OF assms(1)] sp_lengths [OF assms(2)])
  moreover have "memcmp_bytes (take (length b) a) b = 0 \<longleftrightarrow> take (length b) a = b"
    using True by (intro memcmp_bytes_eq) simp
  ultimately show ?thesis using True
    by (auto simp: starts_with_def sp_lengths [OF assms(1)] sp_lengths [OF assms(2)])
      (metis append_take_drop_id)
next
  case False
  then show ?thesis
    by (auto simp: starts_with_def sp_lengths [OF assms(1)] sp_lengths [OF assms(2)])
qed

lemma sp_binary_iff:
  assumes "sp_text m p = Inr a" and "sp_text m x = Inr b"
  shows "sp_binary cmp auxcmp m p x =
    Inr (auxcmp (common a b) 0 \<or> common a b = 0 \<and> cmp (int (length a)) (int (length b)))"
  unfolding sp_binary_def memcmp_common [OF assms]
  by (simp add: sp_lengths [OF assms(1)] sp_lengths [OF assms(2)])

text \<open>
  The comments in the source say that \<open>!=\<close> compares addresses and is not the opposite of \<open>==\<close>; the code negates \<open>==\<close>.
\<close>

lemma sp_ne_iff:
  assumes "sp_text m p = Inr a" and "sp_text m x = Inr b"
  shows "sp_ne m p x = Inr (a \<noteq> b)"
  by (simp add: sp_ne_def sp_eq_iff [OF assms])

text \<open>
  C27. On readable pieces the comparison operators of \<open>StringPiece\<close> read inside the pieces and are the
  lexicographic order of the strings by unsigned bytes: \<open>==\<close> is equality,
  \<open><\<close>, \<open><=\<close>, \<open>>=\<close> and \<open>>\<close> are the linear order, \<open>compare\<close> has the sign of the order, and \<open>starts_with\<close> is
  the prefix relation.
\<close>

theorem string_piece_order:
  assumes "sp_text m p = Inr a" and "sp_text m x = Inr b"
  shows "sp_eq m p x = Inr (a = b) \<and>
    sp_less m p x = Inr (a < b) \<and> sp_le m p x = Inr (a \<le> b) \<and>
    sp_ge m p x = Inr (b \<le> a) \<and> sp_greater m p x = Inr (b < a) \<and>
    (\<exists>r. sp_compare m p x = Inr r \<and> (r < 0 \<longleftrightarrow> a < b) \<and> (r = 0 \<longleftrightarrow> a = b) \<and> (r > 0 \<longleftrightarrow> b < a)) \<and>
    starts_with m p x = Inr (\<exists>rest. a = b @ rest)"
proof (intro conjI)
  note bin = sp_binary_iff [OF assms] and lex = memcmp_less [of a b] memcmp_zero [of a b] memcmp_greater [of a b]
  show "sp_eq m p x = Inr (a = b)" by (rule sp_eq_iff [OF assms])
  show "sp_less m p x = Inr (a < b)" unfolding sp_less_def bin using lex(1) by simp
  show "sp_greater m p x = Inr (b < a)" unfolding sp_greater_def bin using lex(3) by simp
  show "sp_le m p x = Inr (a \<le> b)" unfolding sp_le_def bin order.order_iff_strict lex(1,2) [symmetric] by auto
  show "sp_ge m p x = Inr (b \<le> a)" unfolding sp_ge_def bin order.order_iff_strict
    using lex(2,3) by auto
  show "starts_with m p x = Inr (\<exists>rest. a = b @ rest)" by (rule starts_with_iff [OF assms])
  let ?r = "if common a b = 0 then if length a < length b then - 1 else if length b < length a then 1 else common a b
    else common a b"
  have "sp_compare m p x = Inr ?r"
    unfolding sp_compare_def memcmp_common [OF assms]
    by (simp add: sp_lengths [OF assms(1)] sp_lengths [OF assms(2)])
  moreover have "(?r < 0 \<longleftrightarrow> a < b) \<and> (?r = 0 \<longleftrightarrow> a = b) \<and> (?r > 0 \<longleftrightarrow> b < a)"
    unfolding lex [symmetric] by (auto simp: not_less)
  ultimately show "\<exists>r. sp_compare m p x = Inr r \<and> (r < 0 \<longleftrightarrow> a < b) \<and> (r = 0 \<longleftrightarrow> a = b) \<and> (r > 0 \<longleftrightarrow> b < a)"
    by blast
qed

theorem string_piece_order_witness:
  "let m = [0 \<mapsto> ''abc'', 1 \<mapsto> ''abd''] in
   sp_text m (sp_string 0 3) = Inr ''abc'' \<and> sp_text m (sp_range (Some (1, 0)) 2) = Inr ''ab'' \<and>
   sp_greater m (sp_string 0 3) (sp_range (Some (1, 0)) 2) = Inr True"
proof -
  let ?m = "[0 \<mapsto> ''abc'', 1 \<mapsto> ''abd''] :: memory"
  have t: "sp_text ?m (sp_string 0 3) = Inr ''abc''" "sp_text ?m (sp_range (Some (1, 0)) 2) = Inr ''ab''"
    by (simp_all add: sp_text_def sp_string_def sp_range_def load_def cast_int_def)
  have "sp_greater ?m (sp_string 0 3) (sp_range (Some (1, 0)) 2) = Inr (''ab'' < ''abc'')"
    using string_piece_order [OF t] by blast
  then show ?thesis using t by (simp add: Let_def)
qed

section \<open>Views\<close>

lemma sp_text_string:
  assumes "m b = Some s" and "length s < 2 ^ 31"
  shows "sp_text m (sp_string b (length s)) = Inr s"
proof -
  have "int (length s) < 2 ^ 31" using assms(2) by simp
  then have "cast_int (int (length s)) = int (length s)" by (intro cast_int_id) auto
  then show ?thesis using assms(1) by (simp add: sp_text_def sp_string_def load_def)
qed

lemma sp_text_cstr:
  assumes "m b = Some (s @ CHR 0x00 # rest)" and "CHR 0x00 \<notin> set s" and "length s < 2 ^ 31"
  shows "\<exists>p. sp_cstr m (Some (b, 0)) = Inr p \<and> sp_text m p = Inr s"
proof -
  have "int (length s) < 2 ^ 31" using assms(3) by simp
  then have "cast_int (int (length s)) = int (length s)" by (intro cast_int_id) auto
  then show ?thesis using assms(1,2)
    by (simp add: sp_cstr_def sp_text_def strlen_def load_def find_char_append)
qed

lemma sp_text_edit:
  assumes "sp_text m p = Inr a" and "n \<le> length a" and "length a < 2 ^ 31"
  shows "\<exists>p'. remove_prefix (int n) p = Inr p' \<and> sp_text m p' = Inr (drop n a)"
    and "\<exists>p'. remove_suffix (int n) p = Inr p' \<and> sp_text m p' = Inr (take (length a - n) a)"
proof -
  have len: "sp_length p = int (length a)" and ld: "load m (sp_ptr p) (int (length a)) = Inr a"
    using assms(1) sp_lengths [OF assms(1)] by (simp_all add: sp_text_def)
  have sub: "int_sub (int (length a)) (int n) = Inr (int (length a - n))"
    using assms(2,3) by (simp add: int_sub_def of_nat_diff)
  show "\<exists>p'. remove_prefix (int n) p = Inr p' \<and> sp_text m p' = Inr (drop n a)"
    using load_part [OF ld, of n "length a - n"] assms(2) by (simp add: remove_prefix_def len sub sp_text_def)
  show "\<exists>p'. remove_suffix (int n) p = Inr p' \<and> sp_text m p' = Inr (take (length a - n) a)"
    using load_take [OF ld, of "length a - n"] by (simp add: remove_suffix_def len sub sp_text_def)
qed

lemma load_null: "load m None n = Inr a \<Longrightarrow> n = 0"
  by (simp add: load_def split: if_splits)

lemma as_string_text:
  assumes "sp_text m p = Inr a"
  shows "as_string m p = Inr a \<and> CopyToString m p = Inr a"
  using assms sp_lengths [OF assms] load_null [of m "sp_length p" a]
  by (auto simp only: as_string_def CopyToString_def sp_text_def split: if_split)

text \<open>
  A \<open>StringPiece\<close> of a string shorter than 2 GiB denotes that string and \<open>as_string\<close> and
  \<open>CopyToString\<close> copy it out again; the constructor from a C string stops at the first zero byte;
  \<open>remove_prefix\<close> and \<open>remove_suffix\<close> within the piece drop and keep the right characters and nothing
  is copied; after \<open>starts_with(x)\<close>, \<open>remove_prefix(x.size())\<close> leaves what follows \<open>x\<close>.
\<close>

theorem string_piece_views:
  assumes "m b = Some s" and "length s < 2 ^ 31"
  shows "as_string m (sp_string b (length s)) = Inr s \<and> CopyToString m (sp_string b (length s)) = Inr s \<and>
    (\<forall>u v. s = u @ CHR 0x00 # v \<and> CHR 0x00 \<notin> set u \<longrightarrow>
      (\<exists>p. sp_cstr m (Some (b, 0)) = Inr p \<and> as_string m p = Inr u)) \<and>
    (\<forall>i j. i + j \<le> length s \<longrightarrow>
      (\<exists>p q. remove_prefix (int i) (sp_string b (length s)) = Inr p \<and> remove_suffix (int j) p = Inr q \<and>
        as_string m q = Inr (take (length s - i - j) (drop i s)) \<and> map_option fst (sp_ptr q) = Some b)) \<and>
    (\<forall>x u. sp_text m x = Inr u \<and> starts_with m (sp_string b (length s)) x = Inr True \<longrightarrow>
      (\<exists>p v. remove_prefix (sp_length x) (sp_string b (length s)) = Inr p \<and> as_string m p = Inr v \<and> s = u @ v))"
proof (intro conjI allI impI; (elim conjE)?)
  have t: "sp_text m (sp_string b (length s)) = Inr s" by (rule sp_text_string) (use assms in simp_all)
  show "as_string m (sp_string b (length s)) = Inr s" and "CopyToString m (sp_string b (length s)) = Inr s"
    using as_string_text [OF t] by simp_all
  show "\<exists>p. sp_cstr m (Some (b, 0)) = Inr p \<and> as_string m p = Inr u"
    if "s = u @ CHR 0x00 # v" "CHR 0x00 \<notin> set u" for u v
    using sp_text_cstr [of m b u v] assms that as_string_text by fastforce
  show "\<exists>p q. remove_prefix (int i) (sp_string b (length s)) = Inr p \<and> remove_suffix (int j) p = Inr q \<and>
      as_string m q = Inr (take (length s - i - j) (drop i s)) \<and> map_option fst (sp_ptr q) = Some b"
    if ij: "i + j \<le> length s" for i j
  proof -
    obtain p where p: "remove_prefix (int i) (sp_string b (length s)) = Inr p" "sp_text m p = Inr (drop i s)"
      using sp_text_edit(1) [OF t, of i] ij assms(2) by auto
    obtain q where q: "remove_suffix (int j) p = Inr q" "sp_text m q = Inr (take (length s - i - j) (drop i s))"
      using sp_text_edit(2) [OF p(2), of j] ij assms(2) by (auto simp: le_diff_conv2 less_imp_diff_less)
    have "map_option fst (sp_ptr q) = Some b"
      using p(1) q(1) by (auto simp: remove_prefix_def remove_suffix_def sp_string_def shift_def int_sub_def split: if_splits)
    then show ?thesis using p(1) q as_string_text [OF q(2)] by blast
  qed
  show "\<exists>p v. remove_prefix (sp_length x) (sp_string b (length s)) = Inr p \<and> as_string m p = Inr v \<and> s = u @ v"
    if x: "sp_text m x = Inr u" and st: "starts_with m (sp_string b (length s)) x = Inr True" for x u
  proof -
    obtain v where v: "s = u @ v" using st starts_with_iff [OF t x] by auto
    then show ?thesis
      using sp_text_edit(1) [OF t, of "length u"] assms(2) as_string_text sp_lengths [OF x] by fastforce
  qed
qed

theorem string_piece_views_witness:
  "([0 \<mapsto> ''HTTP/1.1''] :: memory) 0 = Some ''HTTP/1.1'' \<and> length ''HTTP/1.1'' < 2 ^ 31 \<and>
   as_string [0 \<mapsto> ''HTTP/1.1''] (sp_string 0 (length ''HTTP/1.1'')) = Inr ''HTTP/1.1''"
proof (intro conjI)
  show a: "([0 \<mapsto> ''HTTP/1.1''] :: memory) 0 = Some ''HTTP/1.1''" and b: "length ''HTTP/1.1'' < 2 ^ 31"
    by simp_all
  show "as_string [0 \<mapsto> ''HTTP/1.1''] (sp_string 0 (length ''HTTP/1.1'')) = Inr ''HTTP/1.1''"
    by (rule string_piece_views [THEN conjunct1]) (rule a, rule b)
qed

end
