(* ===== verification/Mutex.thy ===== *)
theory Mutex
  imports Prelude
begin

text \<open>
  \<open>src/muduo/base/Mutex.h\<close> and \<open>Condition.{h,cc}\<close>: the lock with its note of the holding thread, and
  the condition variable, for any number of threads.

  The POSIX mutex is its owner; \<open>holder_\<close> is the member the code keeps beside it. \<open>lock()\<close> and
  \<open>unlock()\<close> are two steps each, because another thread can read or write \<open>holder_\<close> between them.
  \<open>pthread_cond_wait\<close> releases the mutex and blocks in one step, becomes ready by a notification, a
  timeout or spuriously, and returns when it owns the mutex again. Thread identifiers are positive.
\<close>

section \<open>MutexLock\<close>

text \<open>
  Where a thread is: outside, between the two halves of \<open>lock()\<close>, inside the critical section, between
  the two halves of \<open>unlock()\<close>, blocked in \<open>wait\<close>, or ready to return from it (with the answer that the
  wait timed out).
\<close>

datatype mx_pc = MxOutside | MxLocking | MxInside | MxUnlocking | MxWaiting | MxReady bool

record mutex =
  mx_owner :: "int option"
  mx_holder :: int
  mx_pc :: "int \<Rightarrow> mx_pc"
  mx_timedout :: "int \<Rightarrow> bool"

definition MutexLock :: "mutex \<Rightarrow> bool" where
  "MutexLock m \<longleftrightarrow> mx_owner m = None \<and> mx_holder m = 0 \<and> mx_pc m = (\<lambda>_. MxOutside)"

definition delete_MutexLock :: "mutex \<Rightarrow> unit result" where
  "delete_MutexLock m = bindE (assertE (mx_holder m = 0) ''holder_ == 0'') (\<lambda>_.
     if mx_owner m = None then Inr () else Inl (AssertionFailed ''ret == 0''))"

definition isLockedByThisThread :: "int \<Rightarrow> mutex \<Rightarrow> bool" where
  "isLockedByThisThread t m \<longleftrightarrow> mx_holder m = t"

definition assertLocked :: "int \<Rightarrow> mutex \<Rightarrow> unit result" where
  "assertLocked t m = assertE (isLockedByThisThread t m) ''isLockedByThisThread()''"

definition at_point :: "int \<Rightarrow> mx_pc \<Rightarrow> mutex \<Rightarrow> mutex" where
  "at_point t p m = m\<lparr>mx_pc := (mx_pc m)(t := p)\<rparr>"

text \<open>\<open>lock()\<close>: \<open>pthread_mutex_lock\<close>, which blocks while the mutex is owned, then \<open>holder_\<close>.\<close>

definition lock_acquire :: "int \<Rightarrow> mutex \<Rightarrow> mutex option" where
  "lock_acquire t m = (if mx_owner m = None then Some (at_point t MxLocking (m\<lparr>mx_owner := Some t\<rparr>)) else None)"

definition lock_note :: "int \<Rightarrow> mutex \<Rightarrow> mutex" where
  "lock_note t m = at_point t MxInside (m\<lparr>mx_holder := t\<rparr>)"

definition unlock_note :: "int \<Rightarrow> mutex \<Rightarrow> mutex" where
  "unlock_note t m = at_point t MxUnlocking (m\<lparr>mx_holder := 0\<rparr>)"

definition unlock_release :: "int \<Rightarrow> mutex \<Rightarrow> mutex" where
  "unlock_release t m = at_point t MxOutside (m\<lparr>mx_owner := None\<rparr>)"

inductive mutex_step :: "mutex \<Rightarrow> mutex \<Rightarrow> bool" where
  LockAcquire: "0 < t \<Longrightarrow> mx_pc m t = MxOutside \<Longrightarrow> lock_acquire t m = Some m' \<Longrightarrow> mutex_step m m'"
| LockNote: "mx_pc m t = MxLocking \<Longrightarrow> mutex_step m (lock_note t m)"
| UnlockNote: "mx_pc m t = MxInside \<Longrightarrow> mutex_step m (unlock_note t m)"
| UnlockRelease: "mx_pc m t = MxUnlocking \<Longrightarrow> mutex_step m (unlock_release t m)"

section \<open>Condition\<close>

text \<open>\<open>wait()\<close>: the mutex is released and the thread blocks; \<open>holder_\<close> is not touched.\<close>

definition cond_wait :: "int \<Rightarrow> mutex \<Rightarrow> mutex" where
  "cond_wait t m = at_point t MxWaiting (m\<lparr>mx_owner := None\<rparr>)"

text \<open>The return of \<open>pthread_cond_wait\<close>, which blocks while the mutex is owned.\<close>

definition cond_return :: "int \<Rightarrow> mutex \<Rightarrow> mutex option" where
  "cond_return t m = (case mx_pc m t of
     MxReady late \<Rightarrow>
       if mx_owner m = None
       then Some (at_point t MxInside (m\<lparr>mx_owner := Some t, mx_timedout := (mx_timedout m)(t := late)\<rparr>))
       else None
   | _ \<Rightarrow> None)"

text \<open>\<open>waitForSeconds\<close>: the absolute time of the deadline, and the answer from the return code.\<close>

definition ETIMEDOUT :: int where
  "ETIMEDOUT = 110"

definition wait_deadline :: "int \<Rightarrow> int \<times> int \<Rightarrow> int \<times> int" where
  "wait_deadline seconds now = (fst now + seconds, snd now)"

definition waitForSeconds :: "int \<Rightarrow> bool" where
  "waitForSeconds ret \<longleftrightarrow> ETIMEDOUT = ret"

text \<open>\<open>notify\<close> makes one blocked thread ready, if there is one; \<open>notifyAll\<close> all of them.\<close>

definition cond_notify :: "int \<Rightarrow> mutex \<Rightarrow> mutex" where
  "cond_notify t m = (if mx_pc m t = MxWaiting then at_point t (MxReady False) m else m)"

definition cond_notifyAll :: "mutex \<Rightarrow> mutex" where
  "cond_notifyAll m = m\<lparr>mx_pc := \<lambda>t. if mx_pc m t = MxWaiting then MxReady False else mx_pc m t\<rparr>"

definition cond_timeout :: "int \<Rightarrow> mutex \<Rightarrow> mutex" where
  "cond_timeout t m = at_point t (MxReady (waitForSeconds ETIMEDOUT)) m"

inductive cond_step :: "mutex \<Rightarrow> mutex \<Rightarrow> bool" where
  CondMutex: "mutex_step m m' \<Longrightarrow> cond_step m m'"
| CondWait: "mx_pc m t = MxInside \<Longrightarrow> cond_step m (cond_wait t m)"
| CondReturn: "cond_return t m = Some m' \<Longrightarrow> cond_step m m'"
| CondNotify: "cond_step m (cond_notify t m)"
| CondNotifyAll: "cond_step m (cond_notifyAll m)"
| CondTimeout: "mx_pc m t = MxWaiting \<Longrightarrow> cond_step m (cond_timeout t m)"

section \<open>Mutual exclusion\<close>

definition owning :: "mx_pc \<Rightarrow> bool" where
  "owning p \<longleftrightarrow> p = MxLocking \<or> p = MxInside \<or> p = MxUnlocking"

definition blocked :: "mx_pc \<Rightarrow> bool" where
  "blocked p \<longleftrightarrow> p = MxWaiting \<or> (\<exists>late. p = MxReady late)"

lemma owning_simps [simp]:
  "owning MxLocking" "owning MxInside" "owning MxUnlocking" "\<not> owning MxOutside" "\<not> owning MxWaiting"
  "\<not> owning (MxReady late)"
  by (simp_all add: owning_def)

lemma blocked_simps [simp]:
  "\<not> blocked MxLocking" "\<not> blocked MxInside" "\<not> blocked MxUnlocking" "\<not> blocked MxOutside" "blocked MxWaiting"
  "blocked (MxReady late)"
  by (simp_all add: blocked_def)

text \<open>The owner is the one thread in or around the critical section; what \<open>holder_\<close> can say.\<close>

definition mx_inv :: "mutex \<Rightarrow> bool" where
  "mx_inv m \<longleftrightarrow> (\<forall>t. owning (mx_pc m t) \<longleftrightarrow> mx_owner m = Some t) \<and> (\<forall>t. mx_pc m t \<noteq> MxOutside \<longrightarrow> 0 < t) \<and>
     (mx_holder m \<noteq> 0 \<longrightarrow> mx_pc m (mx_holder m) = MxInside \<or> blocked (mx_pc m (mx_holder m)))"

text \<open>Without \<open>Condition\<close>: nobody is blocked, and \<open>holder_\<close> is exact.\<close>

definition mx_exact :: "mutex \<Rightarrow> bool" where
  "mx_exact m \<longleftrightarrow> mx_inv m \<and> (\<forall>t. \<not> blocked (mx_pc m t)) \<and> (\<forall>t. mx_pc m t = MxInside \<longrightarrow> mx_holder m = t)"

lemmas mutex_op_defs = at_point_def lock_acquire_def lock_note_def unlock_note_def unlock_release_def
  cond_wait_def cond_return_def cond_notify_def cond_notifyAll_def cond_timeout_def

lemma mx_inv_mutex_step:
  assumes "mx_inv m" and "mutex_step m m'"
  shows "mx_inv m'"
  using assms(2,1)
proof (cases rule: mutex_step.cases)
  case (LockAcquire t)
  then show ?thesis using assms(1) by (auto simp: mx_inv_def mutex_op_defs split: if_splits)
next
  case (LockNote t)
  then show ?thesis using assms(1) by (auto simp: mx_inv_def mutex_op_defs split: if_splits) 
next
  case (UnlockNote t)
  then show ?thesis using assms(1) by (auto simp: mx_inv_def mutex_op_defs split: if_splits)
next
  case (UnlockRelease t)
  then show ?thesis using assms(1) by (auto simp: mx_inv_def mutex_op_defs split: if_splits)
qed

lemma mx_inv_ready:
  assumes "mx_inv m" and "mx_pc m t = MxWaiting"
  shows "mx_inv (at_point t (MxReady late) m)"
proof -
  have "mx_owner m \<noteq> Some t" using assms unfolding mx_inv_def by (metis owning_simps(5))
  then show ?thesis using assms by (auto simp: mx_inv_def at_point_def)
qed

lemma mx_inv_cond_step:
  assumes "mx_inv m" and "cond_step m m'"
  shows "mx_inv m'"
  using assms(2,1)
proof (cases rule: cond_step.cases)
  case CondMutex
  then show ?thesis using assms(1) mx_inv_mutex_step by blast
next
  case (CondWait t)
  then show ?thesis using assms(1) by (auto simp: mx_inv_def mutex_op_defs split: if_splits)
next
  case (CondReturn t)
  then show ?thesis using assms(1) by (auto simp: mx_inv_def mutex_op_defs split: if_splits mx_pc.splits)
next
  case (CondNotify t)
  then show ?thesis using assms(1) mx_inv_ready by (simp add: cond_notify_def)
next
  case CondNotifyAll
  moreover have "\<forall>v. mx_pc m v = MxWaiting \<longrightarrow> mx_owner m \<noteq> Some v"
    using assms(1) unfolding mx_inv_def by (metis owning_simps(5))
  ultimately show ?thesis using assms(1) by (auto simp: mx_inv_def mutex_op_defs split: if_splits)
next
  case (CondTimeout t)
  then show ?thesis using assms(1) mx_inv_ready by (simp add: cond_timeout_def)
qed

lemma mx_exact_step:
  assumes "mx_exact m" and "mutex_step m m'"
  shows "mx_exact m'"
proof -
  have inv: "mx_inv m'" using assms mx_inv_mutex_step by (auto simp: mx_exact_def)
  have uniq: "owning (mx_pc m t) \<Longrightarrow> owning (mx_pc m u) \<Longrightarrow> t = u" for t u
    using assms(1) by (auto simp: mx_exact_def mx_inv_def)
  show ?thesis using assms(2)
  proof (cases rule: mutex_step.cases)
    case (LockAcquire t)
    then show ?thesis using assms(1) inv by (auto simp: mx_exact_def mutex_op_defs split: if_splits)
  next
    case (LockNote t)
    then show ?thesis using assms(1) inv uniq [of t] by (auto simp: mx_exact_def mutex_op_defs split: if_splits)
  next
    case (UnlockNote t)
    then have "\<forall>u. u \<noteq> t \<longrightarrow> mx_pc m u \<noteq> MxInside" using uniq by (metis owning_simps(2))
    then show ?thesis using UnlockNote assms(1) inv by (auto simp: mx_exact_def mutex_op_defs split: if_splits)
  next
    case (UnlockRelease t)
    then show ?thesis using assms(1) inv by (auto simp: mx_exact_def mutex_op_defs split: if_splits)
  qed
qed

interpretation mutex: step_invariant MutexLock mutex_step mx_exact
proof
  show "mx_exact m" if "MutexLock m" for m
    using that by (simp add: MutexLock_def mx_exact_def mx_inv_def)
qed (rule mx_exact_step)

interpretation condition: step_invariant MutexLock cond_step mx_inv
proof
  show "mx_inv m" if "MutexLock m" for m
    using that by (simp add: MutexLock_def mx_inv_def)
qed (rule mx_inv_cond_step)

text \<open>
  C24. \<open>MutexLock\<close> gives mutual exclusion, with and without condition variables: in every interleaving
  at most one thread is in or around the critical section and it owns the POSIX mutex, a running
  thread that is told it holds the lock does hold it, and a blocked thread does not. Without condition
  variables \<open>isLockedByThisThread\<close> is exact for every thread, so \<open>assertLocked\<close> passes inside the
  critical section, and the assertion of the destructor passes when nobody is inside.
\<close>

theorem mutex_exclusion:
  assumes "reach MutexLock cond_step m"
  shows "(owning (mx_pc m t) \<and> owning (mx_pc m u) \<longrightarrow> t = u \<and> mx_owner m = Some t) \<and>
    (0 < t \<and> isLockedByThisThread t m \<and> \<not> blocked (mx_pc m t) \<longrightarrow> mx_pc m t = MxInside \<and> mx_owner m = Some t) \<and>
    (reach MutexLock mutex_step m \<longrightarrow>
      (0 < t \<longrightarrow> (isLockedByThisThread t m \<longleftrightarrow> mx_pc m t = MxInside)) \<and>
      (mx_pc m t = MxInside \<longrightarrow> assertLocked t m = Inr ()) \<and>
      ((\<forall>v. mx_pc m v = MxOutside) \<longrightarrow> delete_MutexLock m = Inr ()))"
proof -
  have inv: "mx_inv m" by (rule condition.reach_inv [OF assms])
  then have own: "owning (mx_pc m v) \<longleftrightarrow> mx_owner m = Some v" for v unfolding mx_inv_def by blast
  have held: "mx_pc m v = MxInside" if "0 < v" "isLockedByThisThread v m" "\<not> blocked (mx_pc m v)" for v
    using inv that by (auto simp: mx_inv_def isLockedByThisThread_def)
  have "(0 < t \<longrightarrow> (isLockedByThisThread t m \<longleftrightarrow> mx_pc m t = MxInside)) \<and>
      (mx_pc m t = MxInside \<longrightarrow> assertLocked t m = Inr ()) \<and>
      ((\<forall>v. mx_pc m v = MxOutside) \<longrightarrow> delete_MutexLock m = Inr ())" if "reach MutexLock mutex_step m"
  proof -
    have ex: "mx_exact m" by (rule mutex.reach_inv [OF that])
    then have "mx_pc m t = MxInside \<Longrightarrow> mx_holder m = t" and nb: "\<not> blocked (mx_pc m v)" for v
      by (auto simp: mx_exact_def)
    moreover have "delete_MutexLock m = Inr ()" if out: "\<forall>v. mx_pc m v = MxOutside"
    proof -
      have "mx_holder m = 0" using inv out by (auto simp: mx_inv_def)
      moreover have "mx_owner m = None" using own out by (metis not_None_eq owning_simps(4))
      ultimately show ?thesis by (simp add: delete_MutexLock_def)
    qed
    ultimately show ?thesis using held [of t] by (auto simp: isLockedByThisThread_def assertLocked_def)
  qed
  moreover have "t = u \<and> mx_owner m = Some t" if "owning (mx_pc m t)" "owning (mx_pc m u)"
    using own [of t] own [of u] that by simp
  moreover have "mx_owner m = Some t" if "mx_pc m t = MxInside" using own [of t] that by simp
  ultimately show ?thesis using held [of t] by blast
qed

definition mx_new :: mutex where
  "mx_new = \<lparr>mx_owner = None, mx_holder = 0, mx_pc = \<lambda>_. MxOutside, mx_timedout = \<lambda>_. False\<rparr>"

lemma mx_new_reach: "reach MutexLock step mx_new"
  by (rule reach_init) (simp add: MutexLock_def mx_new_def)

lemma mutex_step_reach: "reach MutexLock cond_step m \<Longrightarrow> mutex_step m m' \<Longrightarrow> reach MutexLock cond_step m'"
  by (erule reach_step) (rule CondMutex)

text \<open>A whole \<open>lock()\<close> and a whole \<open>unlock()\<close> of a thread that is not disturbed.\<close>

definition lock_all :: "int \<Rightarrow> mutex \<Rightarrow> mutex" where
  "lock_all t m = m\<lparr>mx_owner := Some t, mx_holder := t, mx_pc := (mx_pc m)(t := MxInside)\<rparr>"

definition unlock_all :: "int \<Rightarrow> mutex \<Rightarrow> mutex" where
  "unlock_all t m = m\<lparr>mx_holder := 0, mx_owner := None, mx_pc := (mx_pc m)(t := MxOutside)\<rparr>"

lemma lock_all_reach:
  assumes "reach MutexLock cond_step m" and "0 < t" and "mx_pc m t = MxOutside" and "mx_owner m = None"
  shows "reach MutexLock cond_step (lock_all t m)"
proof -
  let ?m1 = "at_point t MxLocking (m\<lparr>mx_owner := Some t\<rparr>)"
  have "reach MutexLock cond_step ?m1"
    by (rule mutex_step_reach [OF assms(1) LockAcquire]) (use assms in \<open>simp_all add: lock_acquire_def\<close>)
  then have "reach MutexLock cond_step (lock_note t ?m1)"
    by (rule mutex_step_reach) (rule LockNote, simp add: at_point_def)
  moreover have "lock_note t ?m1 = lock_all t m" by (simp add: lock_note_def lock_all_def at_point_def)
  ultimately show ?thesis by simp
qed

lemma unlock_all_reach:
  assumes "reach MutexLock cond_step m" and "mx_pc m t = MxInside"
  shows "reach MutexLock cond_step (unlock_all t m)"
proof -
  have "reach MutexLock cond_step (unlock_note t m)"
    by (rule mutex_step_reach [OF assms(1) UnlockNote]) (rule assms(2))
  then have "reach MutexLock cond_step (unlock_release t (unlock_note t m))"
    by (rule mutex_step_reach) (rule UnlockRelease, simp add: unlock_note_def at_point_def)
  moreover have "unlock_release t (unlock_note t m) = unlock_all t m"
    by (simp add: unlock_note_def unlock_release_def unlock_all_def at_point_def)
  ultimately show ?thesis by simp
qed

theorem mutex_exclusion_witness:
  "reach MutexLock cond_step (lock_all 7 mx_new) \<and> mx_pc (lock_all 7 mx_new) 7 = MxInside \<and>
   mx_owner (lock_all 7 mx_new) = Some 7"
proof -
  have r: "reach MutexLock cond_step (lock_all 7 mx_new)"
    by (rule lock_all_reach [OF mx_new_reach]) (simp_all add: mx_new_def)
  show ?thesis using mutex_exclusion [OF r, of 7 7] r by (simp add: lock_all_def)
qed

lemma path6: "r a b \<Longrightarrow> r b c \<Longrightarrow> r c d \<Longrightarrow> r d e \<Longrightarrow> r e f \<Longrightarrow> r f g \<Longrightarrow> r\<^sup>*\<^sup>* a g"
  by (meson converse_rtranclp_into_rtranclp rtranclp.rtrancl_refl)

text \<open>
  \<open>Condition::wait\<close> does not maintain \<open>holder_\<close>: a thread that waits and is notified from another
  thread's critical section owns the mutex again when \<open>wait\<close> returns, but \<open>isLockedByThisThread\<close>
  denies it and \<open>assertLocked\<close> aborts; and while it is blocked \<open>holder_\<close> names it although nobody owns
  the mutex.
\<close>

theorem condition_wait_loses_holder:
  assumes "reach MutexLock cond_step m" and "mx_pc m t = MxInside" and "0 < u" and "mx_pc m u = MxOutside"
    and "mx_holder m = t"
  shows "\<exists>m1 m2. reach MutexLock cond_step m1 \<and> mx_owner m1 = None \<and> mx_pc m1 t = MxWaiting \<and>
      isLockedByThisThread t m1 \<and> cond_step\<^sup>*\<^sup>* m1 m2 \<and> reach MutexLock cond_step m2 \<and>
      mx_pc m2 t = MxInside \<and> mx_owner m2 = Some t \<and> \<not> isLockedByThisThread t m2 \<and>
      assertLocked t m2 = Inl (AssertionFailed ''isLockedByThisThread()'')"
proof -
  have t: "0 < t" "t \<noteq> u" using condition.reach_inv [OF assms(1)] assms(2,4) by (auto simp: mx_inv_def)
  let ?m1 = "cond_wait t m"
  let ?m2 = "cond_notify t (lock_all u ?m1)"
  let ?m3 = "at_point t MxInside ((unlock_all u ?m2)\<lparr>mx_owner := Some t,
      mx_timedout := (mx_timedout (unlock_all u ?m2))(t := False)\<rparr>)"
  have r1: "reach MutexLock cond_step ?m1" by (rule reach_step [OF assms(1) CondWait]) (rule assms(2))
  have m1: "mx_owner ?m1 = None" "mx_pc ?m1 t = MxWaiting" "mx_holder ?m1 = t" "mx_pc ?m1 u = MxOutside"
    using assms t by (simp_all add: cond_wait_def at_point_def)
  obtain k where acq: "lock_acquire u ?m1 = Some k" "k = at_point u MxLocking (?m1\<lparr>mx_owner := Some u\<rparr>)"
    using m1 by (simp add: lock_acquire_def)
  have s1: "cond_step ?m1 k" by (rule CondMutex, rule LockAcquire) (use assms m1 acq in simp_all)
  have s2: "cond_step k (lock_all u ?m1)"
    using CondMutex [OF LockNote [of k u]] acq(2) by (simp add: at_point_def lock_note_def lock_all_def)
  have s3: "cond_step (lock_all u ?m1) ?m2" by (rule CondNotify)
  have pc2: "mx_pc ?m2 u = MxInside" "mx_pc ?m2 t = MxReady False"
    using t m1 by (simp_all add: cond_notify_def at_point_def lock_all_def)
  have s4: "cond_step ?m2 (unlock_note u ?m2)" by (rule CondMutex, rule UnlockNote) (rule pc2)
  have s5: "cond_step (unlock_note u ?m2) (unlock_all u ?m2)"
    using CondMutex [OF UnlockRelease [of "unlock_note u ?m2" u]]
    by (simp add: unlock_note_def unlock_release_def unlock_all_def at_point_def)
  have s6: "cond_step (unlock_all u ?m2) ?m3"
    by (rule CondReturn [of t]) (use t pc2 in \<open>simp add: cond_return_def unlock_all_def\<close>)
  have steps: "cond_step\<^sup>*\<^sup>* ?m1 ?m3"
    by (rule path6 [where r = cond_step]) (rule s1, rule s2, rule s3, rule s4, rule s5, rule s6)
  have reach: "reach MutexLock cond_step ?m3"
    using steps by (induction rule: rtranclp_induct) (auto intro: r1 reach_step)
  have "mx_holder ?m3 = 0" by (simp add: at_point_def unlock_all_def)
  then have "mx_pc ?m3 t = MxInside \<and> mx_owner ?m3 = Some t \<and> \<not> isLockedByThisThread t ?m3 \<and>
      assertLocked t ?m3 = Inl (AssertionFailed ''isLockedByThisThread()'')"
    using t by (simp add: at_point_def isLockedByThisThread_def assertLocked_def)
  moreover have "isLockedByThisThread t ?m1" using m1 by (simp add: isLockedByThisThread_def)
  ultimately show ?thesis using r1 m1 steps reach by blast
qed

theorem condition_wait_loses_holder_witness:
  "\<exists>m2. reach MutexLock cond_step m2 \<and> mx_owner m2 = Some 1 \<and> \<not> isLockedByThisThread 1 m2"
proof -
  have r: "reach MutexLock cond_step (lock_all 1 mx_new)"
    by (rule lock_all_reach [OF mx_new_reach]) (simp_all add: mx_new_def)
  show ?thesis
    using condition_wait_loses_holder [OF r, of 1 2] by (auto simp: lock_all_def mx_new_def)
qed

end
