(* ===== verification/Thread_Local.thy ===== *)
theory Thread_Local
  imports Prelude
begin

text \<open>
  \<open>src/muduo/base/ThreadLocal.h\<close>, \<open>ThreadLocalSingleton.h\<close> and \<open>Singleton.h\<close>: objects made on first
  use, one for each thread or one for the process.

  An object is its address; \<open>new\<close> takes an address never used before and \<open>delete\<close> of a dead object is
  undefined. POSIX keeps one value for each key and thread; when a thread ends, a value that is not
  null is reset and handed to the destructor registered for the key.

  The contract the two thread-local classes share is the locale \<open>thread_storage\<close>: its clients are any
  threads that use and leave the storage in any order.
\<close>

section \<open>Storage of threads\<close>

datatype storage_op = Use nat | Leave nat

text \<open>A sequence of operations of all threads; the log has what each use got.\<close>

fun storage_run ::
  "(nat \<Rightarrow> 's \<Rightarrow> (nat \<times> 's) result) \<Rightarrow> (nat \<Rightarrow> 's \<Rightarrow> 's result) \<Rightarrow> storage_op list \<Rightarrow> 's \<Rightarrow>
     ((nat \<times> nat) list \<times> 's) result" where
  "storage_run get leave [] s = Inr ([], s)"
| "storage_run get leave (Use t # ops) s =
     bindE (get t s) (\<lambda>(a, s'). bindE (storage_run get leave ops s') (\<lambda>(log, s''). Inr ((t, a) # log, s'')))"
| "storage_run get leave (Leave t # ops) s = bindE (leave t s) (storage_run get leave ops)"

locale thread_storage =
  fixes inv :: "'s \<Rightarrow> bool"
    and obj :: "'s \<Rightarrow> nat \<rightharpoonup> nat"
    and live :: "'s \<Rightarrow> nat set"
    and get :: "nat \<Rightarrow> 's \<Rightarrow> (nat \<times> 's) result"
    and leave :: "nat \<Rightarrow> 's \<Rightarrow> 's result"
  assumes get_ok: "inv s \<Longrightarrow> \<exists>a s'. get t s = Inr (a, s') \<and> inv s' \<and> obj s' = (obj s)(t \<mapsto> a) \<and>
      (obj s t = None \<or> obj s t = Some a)"
    and leave_ok: "inv s \<Longrightarrow> \<exists>s'. leave t s = Inr s' \<and> inv s' \<and> obj s' = (obj s)(t := None)"
    and live_obj: "inv s \<Longrightarrow> live s = ran (obj s)"
    and own: "inv s \<Longrightarrow> obj s t = Some a \<Longrightarrow> obj s u = Some a \<Longrightarrow> t = u"
begin

text \<open>Any sequence of uses succeeds, and what is alive at the end belongs to the threads that have not left.\<close>

lemma storage_run_ok: "inv s \<Longrightarrow> \<exists>log s'. storage_run get leave ops s = Inr (log, s') \<and> inv s' \<and> live s' = ran (obj s')"
proof (induction ops arbitrary: s)
  case Nil
  then show ?case by (simp add: live_obj)
next
  case (Cons op ops)
  show ?case
  proof (cases op)
    case (Use t)
    obtain a s1 where "get t s = Inr (a, s1)" "inv s1" using get_ok [OF Cons.prems, of t] by blast
    then show ?thesis using Cons.IH [of s1] Use by auto
  next
    case (Leave t)
    obtain s1 where "leave t s = Inr s1" "inv s1" using leave_ok [OF Cons.prems, of t] by blast
    then show ?thesis using Cons.IH [of s1] Leave by auto
  qed
qed

text \<open>A thread that has an object and does not leave uses that object only.\<close>

lemma run_same:
  assumes "inv s" and "obj s t = Some a" and "Leave t \<notin> set ops" and "storage_run get leave ops s = Inr (log, s')"
  shows "obj s' t = Some a \<and> (\<forall>b. (t, b) \<in> set log \<longrightarrow> b = a)"
  using assms
proof (induction ops arbitrary: s log)
  case Nil
  then show ?case by auto
next
  case (Cons op ops)
  show ?case
  proof (cases op)
    case (Use u)
    obtain b s1 where g: "get u s = Inr (b, s1)" "inv s1" "obj s1 = (obj s)(u \<mapsto> b)" "obj s u = None \<or> obj s u = Some b"
      using get_ok [OF Cons.prems(1), of u] by blast
    obtain log' where l: "storage_run get leave ops s1 = Inr (log', s')" "log = (u, b) # log'"
      using Cons.prems(4) g Use by auto
    have "obj s1 t = Some a" using g(3,4) Cons.prems(2) by (cases "u = t") auto
    then show ?thesis using Cons.IH [OF g(2) _ _ l(1)] Cons.prems(2,3) g(4) l(2) by auto
  next
    case (Leave u)
    obtain s1 where "leave u s = Inr s1" "inv s1" "obj s1 = (obj s)(u := None)"
      using leave_ok [OF Cons.prems(1), of u] by blast
    then show ?thesis using Cons.IH [of s1 log] Cons.prems Leave by auto
  qed
qed

lemma isolated:
  assumes "inv s"
  shows "(\<exists>log s'. storage_run get leave ops s = Inr (log, s') \<and> live s' = ran (obj s')) \<and>
    (\<forall>s0 log0 log s' t. storage_run get leave ops s = Inr (log0, s0) \<and>
        storage_run get leave (Use t # ops') s0 = Inr (log, s') \<and> Leave t \<notin> set ops' \<longrightarrow>
      (\<exists>a. obj s' t = Some a \<and> (t, a) \<in> set log \<and> (\<forall>b. (t, b) \<in> set log \<longrightarrow> b = a) \<and>
        (\<forall>u. obj s' u = Some a \<longrightarrow> u = t)))"
proof (intro conjI allI impI; (elim conjE)?)
  show "\<exists>log s'. storage_run get leave ops s = Inr (log, s') \<and> live s' = ran (obj s')"
    using storage_run_ok [OF assms] by blast
  fix s0 log0 log s' t
  assume r0: "storage_run get leave ops s = Inr (log0, s0)" and r1: "storage_run get leave (Use t # ops') s0 = Inr (log, s')"
    and stay: "Leave t \<notin> set ops'"
  have s0: "inv s0" using storage_run_ok [OF assms, of ops] r0 by auto
  obtain a s1 where g: "get t s0 = Inr (a, s1)" "inv s1" "obj s1 = (obj s0)(t \<mapsto> a)" using get_ok [OF s0, of t] by blast
  obtain log' where l: "storage_run get leave ops' s1 = Inr (log', s')" "log = (t, a) # log'" using r1 g by auto
  have "obj s' t = Some a \<and> (\<forall>b. (t, b) \<in> set log' \<longrightarrow> b = a)" using run_same [OF g(2) _ stay l(1)] g(3) by simp
  moreover have "inv s'" using storage_run_ok [OF g(2), of ops'] l(1) by auto
  ultimately show "\<exists>a. obj s' t = Some a \<and> (t, a) \<in> set log \<and> (\<forall>b. (t, b) \<in> set log \<longrightarrow> b = a) \<and>
      (\<forall>u. obj s' u = Some a \<longrightarrow> u = t)"
    using l(2) own by auto
qed

end

section \<open>The heap\<close>

record heap =
  hp_next :: nat
  hp_live :: "nat set"

definition hp_new :: "'a heap_scheme \<Rightarrow> nat \<times> 'a heap_scheme" where
  "hp_new h = (hp_next h, h\<lparr>hp_next := Suc (hp_next h), hp_live := insert (hp_next h) (hp_live h)\<rparr>)"

definition hp_delete :: "nat \<Rightarrow> 'a heap_scheme \<Rightarrow> 'a heap_scheme result" where
  "hp_delete a h = (if a \<in> hp_live h then Inr (h\<lparr>hp_live := hp_live h - {a}\<rparr>)
     else Inl (Undefined_Behaviour ''delete of a dead object''))"

section \<open>ThreadLocal\<close>

record thread_local = heap +
  tl_key :: bool
  tl_specific :: "nat \<rightharpoonup> nat"

definition newThreadLocal :: "thread_local" where
  "newThreadLocal = \<lparr>hp_next = 0, hp_live = {}, tl_key = True, tl_specific = Map.empty\<rparr>"

text \<open>\<open>pthread_key_delete\<close>: no destructor is called.\<close>

definition delete_ThreadLocal :: "thread_local \<Rightarrow> thread_local" where
  "delete_ThreadLocal s = s\<lparr>tl_key := False, tl_specific := Map.empty\<rparr>"

definition tl_value :: "nat \<Rightarrow> thread_local \<Rightarrow> (nat \<times> thread_local) result" where
  "tl_value t s =
     (if \<not> tl_key s then Inl (Undefined_Behaviour ''deleted key'')
      else case tl_specific s t of
        None \<Rightarrow> (let (newObj, s') = hp_new s in
          Inr (newObj, s'\<lparr>tl_specific := (tl_specific s')(t \<mapsto> newObj)\<rparr>))
      | Some perThreadValue \<Rightarrow> Inr (perThreadValue, s))"

definition tl_destructor :: "nat \<Rightarrow> thread_local \<Rightarrow> thread_local result" where
  "tl_destructor x s = hp_delete x s"

text \<open>The end of a thread.\<close>

definition tl_exit :: "nat \<Rightarrow> thread_local \<Rightarrow> thread_local result" where
  "tl_exit t s = (case tl_specific s t of
     None \<Rightarrow> Inr s
   | Some x \<Rightarrow> tl_destructor x (s\<lparr>tl_specific := (tl_specific s)(t := None)\<rparr>))"

definition tl_inv :: "thread_local \<Rightarrow> bool" where
  "tl_inv s \<longleftrightarrow> tl_key s \<and> hp_live s = ran (tl_specific s) \<and> (\<forall>a\<in>hp_live s. a < hp_next s) \<and>
     (\<forall>t u a. tl_specific s t = Some a \<longrightarrow> tl_specific s u = Some a \<longrightarrow> t = u)"

text \<open>Changes of an injective map at one key.\<close>

lemma ran_fresh: "m t = None \<Longrightarrow> ran (m(t \<mapsto> a)) = insert a (ran m)"
  by (rule ran_map_upd)

lemma ran_forget:
  assumes "m t = Some a" and "\<forall>t u b. m t = Some b \<longrightarrow> m u = Some b \<longrightarrow> t = u"
  shows "ran (m(t := None)) = ran m - {a}"
proof -
  have "m u = Some b \<and> u \<noteq> t \<longleftrightarrow> m u = Some b \<and> b \<noteq> a" for u b using assms by auto
  then show ?thesis by (auto simp: ran_def fun_upd_def)
qed

interpretation thread_local: thread_storage tl_inv tl_specific hp_live tl_value tl_exit
proof
  fix s t assume inv: "tl_inv s"
  show "\<exists>a s'. tl_value t s = Inr (a, s') \<and> tl_inv s' \<and> tl_specific s' = (tl_specific s)(t \<mapsto> a) \<and>
      (tl_specific s t = None \<or> tl_specific s t = Some a)"
  proof (cases "tl_specific s t")
    case None
    have "hp_next s \<notin> ran (tl_specific s)" using inv by (auto simp: tl_inv_def)
    then have "\<forall>u. tl_specific s u \<noteq> Some (hp_next s)" by (auto simp: ran_def)
    then show ?thesis using inv None
      by (auto simp: tl_value_def hp_new_def tl_inv_def ran_fresh less_Suc_eq)
  next
    case (Some a)
    then show ?thesis using inv by (auto simp: tl_value_def tl_inv_def fun_upd_idem)
  qed
  show "\<exists>s'. tl_exit t s = Inr s' \<and> tl_inv s' \<and> tl_specific s' = (tl_specific s)(t := None)"
  proof (cases "tl_specific s t")
    case None
    then show ?thesis using inv by (auto simp: tl_exit_def fun_upd_idem)
  next
    case (Some a)
    then have "a \<in> ran (tl_specific s)" by (auto simp: ran_def)
    then show ?thesis using inv Some ran_forget [of "tl_specific s" t a]
      by (auto simp: tl_exit_def tl_destructor_def hp_delete_def tl_inv_def split: if_splits)
  qed
  show "hp_live s = ran (tl_specific s)" using inv by (simp add: tl_inv_def)
  show "t = u" if "tl_specific s t = Some a" "tl_specific s u = Some a" for a u
    using inv that by (auto simp: tl_inv_def)
qed

section \<open>ThreadLocalSingleton\<close>

record tl_singleton = heap +
  ts_value :: "nat \<rightharpoonup> nat"
  ts_specific :: "nat \<rightharpoonup> nat"

definition newTLSingleton :: tl_singleton where
  "newTLSingleton = \<lparr>hp_next = 0, hp_live = {}, ts_value = Map.empty, ts_specific = Map.empty\<rparr>"

definition Deleter_set :: "nat \<Rightarrow> nat \<Rightarrow> tl_singleton \<Rightarrow> tl_singleton result" where
  "Deleter_set t newObj s =
     bindE (assertE (ts_specific s t = None) ''pthread_getspecific(pkey_) == NULL'') (\<lambda>_.
     Inr (s\<lparr>ts_specific := (ts_specific s)(t \<mapsto> newObj)\<rparr>))"

definition ts_instance :: "nat \<Rightarrow> tl_singleton \<Rightarrow> (nat \<times> tl_singleton) result" where
  "ts_instance t s =
     bindE (case ts_value s t of
       None \<Rightarrow> (let (v, s') = hp_new s in Deleter_set t v (s'\<lparr>ts_value := (ts_value s')(t \<mapsto> v)\<rparr>))
     | Some _ \<Rightarrow> Inr s) (\<lambda>s'.
     case ts_value s' t of None \<Rightarrow> Inl (Undefined_Behaviour ''null pointer'') | Some v \<Rightarrow> Inr (v, s'))"

definition ts_pointer :: "nat \<Rightarrow> tl_singleton \<Rightarrow> nat option" where
  "ts_pointer t s = ts_value s t"

definition ts_destructor :: "nat \<Rightarrow> nat \<Rightarrow> tl_singleton \<Rightarrow> tl_singleton result" where
  "ts_destructor t x s =
     bindE (assertE (ts_value s t = Some x) ''obj == t_value_'') (\<lambda>_.
     bindE (hp_delete x s) (\<lambda>s'. Inr (s'\<lparr>ts_value := (ts_value s')(t := None)\<rparr>)))"

definition ts_exit :: "nat \<Rightarrow> tl_singleton \<Rightarrow> tl_singleton result" where
  "ts_exit t s = (case ts_specific s t of
     None \<Rightarrow> Inr s
   | Some x \<Rightarrow> ts_destructor t x (s\<lparr>ts_specific := (ts_specific s)(t := None)\<rparr>))"

text \<open>The end of the process: \<open>~Deleter\<close> deletes the key, which calls no destructor.\<close>

definition delete_Deleter :: "tl_singleton \<Rightarrow> tl_singleton" where
  "delete_Deleter s = s\<lparr>ts_specific := Map.empty\<rparr>"

definition ts_inv :: "tl_singleton \<Rightarrow> bool" where
  "ts_inv s \<longleftrightarrow> ts_specific s = ts_value s \<and> hp_live s = ran (ts_value s) \<and> (\<forall>a\<in>hp_live s. a < hp_next s) \<and>
     (\<forall>t u a. ts_value s t = Some a \<longrightarrow> ts_value s u = Some a \<longrightarrow> t = u)"

interpretation tl_singleton: thread_storage ts_inv ts_value hp_live ts_instance ts_exit
proof
  fix s t assume inv: "ts_inv s"
  show "\<exists>a s'. ts_instance t s = Inr (a, s') \<and> ts_inv s' \<and> ts_value s' = (ts_value s)(t \<mapsto> a) \<and>
      (ts_value s t = None \<or> ts_value s t = Some a)"
  proof (cases "ts_value s t")
    case None
    have "hp_next s \<notin> ran (ts_value s)" using inv by (auto simp: ts_inv_def)
    then have "\<forall>u. ts_value s u \<noteq> Some (hp_next s)" by (auto simp: ran_def)
    then show ?thesis using inv None
      by (auto simp: ts_instance_def Deleter_set_def hp_new_def ts_inv_def ran_fresh less_Suc_eq)
  next
    case (Some a)
    then show ?thesis using inv by (auto simp: ts_instance_def ts_inv_def fun_upd_idem)
  qed
  show "\<exists>s'. ts_exit t s = Inr s' \<and> ts_inv s' \<and> ts_value s' = (ts_value s)(t := None)"
  proof (cases "ts_value s t")
    case None
    then show ?thesis using inv by (auto simp: ts_exit_def ts_inv_def fun_upd_idem)
  next
    case (Some a)
    then have "a \<in> ran (ts_value s)" by (auto simp: ran_def)
    then show ?thesis using inv Some ran_forget [of "ts_value s" t a]
      by (auto simp: ts_exit_def ts_destructor_def hp_delete_def ts_inv_def split: if_splits)
  qed
  show "hp_live s = ran (ts_value s)" using inv by (simp add: ts_inv_def)
  show "t = u" if "ts_value s t = Some a" "ts_value s u = Some a" for a u
    using inv that by (auto simp: ts_inv_def)
qed

section \<open>What the threads get\<close>

text \<open>
  C30. \<open>ThreadLocal\<close> and \<open>ThreadLocalSingleton\<close> under any sequence of uses and thread ends: every
  operation succeeds and no assertion fails; a thread gets one object, the same at every use until it
  ends, that no other thread has; and at every moment the live objects are exactly those of the threads
  that have not ended, so nothing leaks and nothing is deleted twice.
\<close>

theorem thread_local_isolated:
  "(\<exists>log s'. storage_run tl_value tl_exit ops newThreadLocal = Inr (log, s') \<and> hp_live s' = ran (tl_specific s')) \<and>
   (\<exists>log s'. storage_run ts_instance ts_exit ops newTLSingleton = Inr (log, s') \<and> hp_live s' = ran (ts_value s')) \<and>
   (\<forall>s0 log0 log s' t. storage_run tl_value tl_exit ops newThreadLocal = Inr (log0, s0) \<and>
      storage_run tl_value tl_exit (Use t # ops') s0 = Inr (log, s') \<and> Leave t \<notin> set ops' \<longrightarrow>
      (\<exists>a. tl_specific s' t = Some a \<and> (t, a) \<in> set log \<and> (\<forall>b. (t, b) \<in> set log \<longrightarrow> b = a) \<and>
        (\<forall>u. tl_specific s' u = Some a \<longrightarrow> u = t))) \<and>
   (\<forall>s0 log0 log s' t. storage_run ts_instance ts_exit ops newTLSingleton = Inr (log0, s0) \<and>
      storage_run ts_instance ts_exit (Use t # ops') s0 = Inr (log, s') \<and> Leave t \<notin> set ops' \<longrightarrow>
      (\<exists>a. ts_value s' t = Some a \<and> (t, a) \<in> set log \<and> (\<forall>b. (t, b) \<in> set log \<longrightarrow> b = a) \<and>
        (\<forall>u. ts_value s' u = Some a \<longrightarrow> u = t)))"
proof -
  have "tl_inv newThreadLocal" and "ts_inv newTLSingleton"
    by (simp_all add: tl_inv_def newThreadLocal_def ts_inv_def newTLSingleton_def)
  from thread_local.isolated [OF this(1), of ops ops'] tl_singleton.isolated [OF this(2), of ops ops']
  show ?thesis by blast
qed

theorem thread_local_isolated_witness:
  "\<exists>log s'. storage_run tl_value tl_exit [Use 1, Use 2, Use 1, Leave 1] newThreadLocal = Inr (log, s') \<and>
    log = [(1, 0), (2, 1), (1, 0)] \<and> hp_live s' = {1}"
proof -
  have "storage_run tl_value tl_exit [Use 1, Use 2, Use 1, Leave 1] newThreadLocal =
      Inr ([(1, 0), (2, 1), (1, 0)], \<lparr>hp_next = 2, hp_live = {1}, tl_key = True, tl_specific = [2 \<mapsto> 1]\<rparr>)"
    by (simp add: newThreadLocal_def tl_value_def hp_new_def tl_exit_def tl_destructor_def hp_delete_def fun_eq_iff)
      (auto simp: numeral_2_eq_2)
  then show ?thesis using thread_local_isolated [of "[Use 1, Use 2, Use 1, Leave 1]"] by simp
qed

text \<open>Deleting the \<open>ThreadLocal\<close> itself leaves the objects of running threads behind for good.\<close>

lemma delete_ThreadLocal_leaks:
  assumes "tl_inv s" and "tl_specific s t = Some a"
  shows "tl_exit t (delete_ThreadLocal s) = Inr (delete_ThreadLocal s) \<and> a \<in> hp_live (delete_ThreadLocal s)"
  using assms by (auto simp: delete_ThreadLocal_def tl_exit_def tl_inv_def ran_def)

lemma delete_Deleter_leaks:
  assumes "ts_inv s" and "ts_value s t = Some a"
  shows "ts_exit t (delete_Deleter s) = Inr (delete_Deleter s) \<and> a \<in> hp_live (delete_Deleter s)"
  using assms by (auto simp: delete_Deleter_def ts_exit_def ts_inv_def ran_def)

section \<open>Singleton\<close>

text \<open>
  \<open>pthread_once\<close>: the first caller runs \<open>init\<close>, in two steps, while the others wait; once it is done
  everybody passes. The log has what \<open>instance\<close> returned to whom. \<open>destroy\<close> runs at the end of the
  process as often as it was registered; it leaves \<open>value_\<close> as it is.
\<close>

datatype once = OnceInit | OnceRunning | OnceDone

datatype sg_pc = SgOutside | SgNew | SgAtexit | SgLoad

record singleton = heap +
  sg_ponce :: once
  sg_value :: "nat option"
  sg_atexit :: nat
  sg_pc :: "nat \<Rightarrow> sg_pc"
  sg_log :: "(nat \<times> nat option) list"
  sg_ended :: bool

definition newSingleton :: singleton where
  "newSingleton = \<lparr>hp_next = 0, hp_live = {}, sg_ponce = OnceInit, sg_value = None, sg_atexit = 0,
     sg_pc = \<lambda>_. SgOutside, sg_log = [], sg_ended = False\<rparr>"

definition sg_goto :: "nat \<Rightarrow> sg_pc \<Rightarrow> singleton \<Rightarrow> singleton" where
  "sg_goto t p s = s\<lparr>sg_pc := (sg_pc s)(t := p)\<rparr>"

definition once_enter :: "nat \<Rightarrow> singleton \<Rightarrow> singleton option" where
  "once_enter t s = (case sg_ponce s of
     OnceInit \<Rightarrow> Some (sg_goto t SgNew (s\<lparr>sg_ponce := OnceRunning\<rparr>))
   | OnceRunning \<Rightarrow> None
   | OnceDone \<Rightarrow> Some (sg_goto t SgLoad s))"

definition sg_init_new :: "nat \<Rightarrow> singleton \<Rightarrow> singleton" where
  "sg_init_new t s = (let (v, s') = hp_new s in sg_goto t SgAtexit (s'\<lparr>sg_value := Some v\<rparr>))"

definition sg_init_atexit :: "nat \<Rightarrow> singleton \<Rightarrow> singleton" where
  "sg_init_atexit t s = sg_goto t SgLoad (s\<lparr>sg_atexit := Suc (sg_atexit s), sg_ponce := OnceDone\<rparr>)"

definition sg_load :: "nat \<Rightarrow> singleton \<Rightarrow> singleton" where
  "sg_load t s = sg_goto t SgOutside (s\<lparr>sg_log := sg_log s @ [(t, sg_value s)]\<rparr>)"

definition sg_destroy :: "singleton \<Rightarrow> singleton result" where
  "sg_destroy s = (case sg_value s of None \<Rightarrow> Inr s | Some v \<Rightarrow> hp_delete v s)"

definition process_exit :: "singleton \<Rightarrow> singleton result" where
  "process_exit s = foldE (\<lambda>_. sg_destroy) (replicate (sg_atexit s) ()) (s\<lparr>sg_ended := True\<rparr>)"

inductive sg_step :: "singleton \<Rightarrow> singleton \<Rightarrow> bool" where
  SgEnter: "\<not> sg_ended s \<Longrightarrow> sg_pc s t = SgOutside \<Longrightarrow> once_enter t s = Some s' \<Longrightarrow> sg_step s s'"
| SgInitNew: "\<not> sg_ended s \<Longrightarrow> sg_pc s t = SgNew \<Longrightarrow> sg_step s (sg_init_new t s)"
| SgInitAtexit: "\<not> sg_ended s \<Longrightarrow> sg_pc s t = SgAtexit \<Longrightarrow> sg_step s (sg_init_atexit t s)"
| SgLoad: "\<not> sg_ended s \<Longrightarrow> sg_pc s t = SgLoad \<Longrightarrow> sg_step s (sg_load t s)"
| SgExit: "\<not> sg_ended s \<Longrightarrow> process_exit s = Inr s' \<Longrightarrow> sg_step s s'"

text \<open>
  Before \<open>init\<close> there is no object; while it runs one thread is in it; afterwards there is exactly one
  object, registered once, and every log entry has it.
\<close>

definition sg_before :: "singleton \<Rightarrow> bool" where
  "sg_before s \<longleftrightarrow> sg_ponce s = OnceInit \<and> sg_value s = None \<and> hp_next s = 0 \<and> hp_live s = {} \<and> sg_atexit s = 0 \<and>
     sg_log s = [] \<and> (\<forall>t. sg_pc s t = SgOutside)"

definition sg_during :: "nat \<Rightarrow> singleton \<Rightarrow> bool" where
  "sg_during t s \<longleftrightarrow> sg_ponce s = OnceRunning \<and> sg_atexit s = 0 \<and> sg_log s = [] \<and> (\<forall>u. u \<noteq> t \<longrightarrow> sg_pc s u = SgOutside) \<and>
     (sg_pc s t = SgNew \<and> sg_value s = None \<and> hp_next s = 0 \<and> hp_live s = {} \<or>
      sg_pc s t = SgAtexit \<and> sg_value s = Some 0 \<and> hp_next s = 1 \<and> hp_live s = {0})"

definition sg_after :: "singleton \<Rightarrow> bool" where
  "sg_after s \<longleftrightarrow> sg_ponce s = OnceDone \<and> sg_value s = Some 0 \<and> hp_next s = 1 \<and> sg_atexit s = 1 \<and>
     hp_live s = (if sg_ended s then {} else {0}) \<and> (\<forall>t. sg_pc s t = SgOutside \<or> sg_pc s t = SgLoad) \<and>
     (\<forall>(t, v)\<in>set (sg_log s). v = Some 0)"

definition sg_inv :: "singleton \<Rightarrow> bool" where
  "sg_inv s \<longleftrightarrow> sg_before s \<or> (\<exists>t. sg_during t s) \<or> sg_after s"

lemmas sg_defs = sg_goto_def once_enter_def sg_init_new_def sg_init_atexit_def sg_load_def hp_new_def

lemma sg_exit_before: "sg_before s \<Longrightarrow> \<exists>s'. process_exit s = Inr s' \<and> sg_before s'"
  by (simp add: process_exit_def sg_before_def)

lemma sg_exit_during: "sg_during t s \<Longrightarrow> \<exists>s'. process_exit s = Inr s' \<and> sg_during t s'"
  by (simp add: process_exit_def sg_during_def)

lemma sg_exit_after:
  "sg_after s \<Longrightarrow> \<not> sg_ended s \<Longrightarrow> \<exists>s'. process_exit s = Inr s' \<and> sg_after s' \<and> hp_live s' = {}"
  by (simp add: process_exit_def sg_after_def sg_destroy_def hp_delete_def)

lemma sg_inv_exit: "sg_inv s \<Longrightarrow> \<not> sg_ended s \<Longrightarrow> \<exists>s'. process_exit s = Inr s' \<and> sg_inv s'"
  unfolding sg_inv_def using sg_exit_before sg_exit_during sg_exit_after by metis

text \<open>The steps of the three phases.\<close>

lemma sg_before_step:
  assumes "sg_before s" and "sg_step s s'"
  shows "sg_inv s'"
  using assms(2)
proof (cases rule: sg_step.cases)
  case (SgEnter t)
  then have "sg_during t s'" using assms(1) by (auto simp: sg_before_def sg_during_def sg_defs)
  then show ?thesis by (auto simp: sg_inv_def)
next
  case SgExit
  then show ?thesis using sg_exit_before [OF assms(1)] by (auto simp: sg_inv_def)
qed (use assms(1) in \<open>simp_all add: sg_before_def\<close>)

lemma sg_during_step:
  assumes "sg_during t s" and "sg_step s s'"
  shows "sg_inv s'"
  using assms(2)
proof (cases rule: sg_step.cases)
  case (SgEnter u)
  then show ?thesis using assms(1) by (simp add: sg_during_def once_enter_def)
next
  case (SgInitNew u)
  then have "u = t" using assms(1) by (metis sg_during_def sg_pc.distinct(1))
  then have "sg_during t s'" using SgInitNew assms(1) by (auto simp: sg_during_def sg_defs)
  then show ?thesis by (auto simp: sg_inv_def)
next
  case (SgInitAtexit u)
  then have "u = t" using assms(1) by (metis sg_during_def sg_pc.distinct(3))
  then have "sg_after s'" using SgInitAtexit assms(1) by (auto simp: sg_during_def sg_after_def sg_defs)
  then show ?thesis by (auto simp: sg_inv_def)
next
  case (SgLoad u)
  then show ?thesis using assms(1) by (cases "u = t") (auto simp: sg_during_def)
next
  case SgExit
  then show ?thesis using sg_exit_during [OF assms(1)] by (auto simp: sg_inv_def)
qed

lemma sg_after_step:
  assumes "sg_after s" and "sg_step s s'"
  shows "sg_after s'"
  using assms(2)
proof (cases rule: sg_step.cases)
  case (SgEnter t)
  then show ?thesis using assms(1) by (auto simp: sg_after_def sg_defs) metis
next
  case (SgInitNew t)
  then show ?thesis using assms(1) by (metis sg_after_def sg_pc.distinct(1,9))
next
  case (SgInitAtexit t)
  then show ?thesis using assms(1) by (metis sg_after_def sg_pc.distinct(3,11))
next
  case (SgLoad t)
  then show ?thesis using assms(1) by (auto simp: sg_after_def sg_defs)
next
  case SgExit
  then show ?thesis using sg_exit_after [OF assms(1)] by auto
qed

lemma sg_inv_step: "sg_inv s \<Longrightarrow> sg_step s s' \<Longrightarrow> sg_inv s'"
  using sg_before_step sg_during_step sg_after_step unfolding sg_inv_def by metis

interpretation singleton: step_invariant "\<lambda>s. s = newSingleton" sg_step sg_inv
proof
  show "sg_inv s" if "s = newSingleton" for s
    using that by (simp add: sg_inv_def sg_before_def newSingleton_def)
qed (rule sg_inv_step)

text \<open>
  \<open>Singleton::instance\<close> in every interleaving of any number of threads: at most one object is ever
  constructed, every call returns that object and never null, it is alive until the process ends, it is
  registered for destruction exactly once, and ending the process at any moment deletes it without
  deleting anything twice.
\<close>

theorem singleton_once:
  assumes "reach (\<lambda>s. s = newSingleton) sg_step s"
  shows "hp_next s \<le> 1 \<and> (\<forall>(t, v)\<in>set (sg_log s). v = Some 0 \<and> sg_value s = v) \<and>
    (sg_log s \<noteq> [] \<longrightarrow> sg_atexit s = 1 \<and> (sg_ended s \<or> 0 \<in> hp_live s)) \<and>
    (\<not> sg_ended s \<longrightarrow> (\<exists>s'. process_exit s = Inr s' \<and> (sg_ponce s = OnceDone \<longrightarrow> hp_live s' = {})))"
proof -
  have inv: "sg_inv s" by (rule singleton.reach_inv [OF assms])
  then consider "sg_before s" | t where "sg_during t s" | "sg_after s" by (auto simp: sg_inv_def)
  then show ?thesis
  proof cases
    case 1
    then show ?thesis using sg_exit_before [OF 1] by (auto simp: sg_before_def)
  next
    case 2
    then show ?thesis using sg_exit_during [OF 2] by (auto simp: sg_during_def)
  next
    case 3
    then show ?thesis using sg_exit_after [OF 3] by (auto simp: sg_after_def)
  qed
qed

theorem singleton_once_witness:
  "\<exists>s. reach (\<lambda>s. s = newSingleton) sg_step s \<and> sg_log s = [(3, Some 0)] \<and> sg_atexit s = 1"
proof -
  let ?s1 = "sg_goto 3 SgNew (newSingleton\<lparr>sg_ponce := OnceRunning\<rparr>)"
  let ?s4 = "sg_load 3 (sg_init_atexit 3 (sg_init_new 3 ?s1))"
  have "reach (\<lambda>s. s = newSingleton) sg_step ?s1"
    by (rule reach_step, rule reach_init, rule refl, rule SgEnter [of _ 3])
      (simp_all add: newSingleton_def once_enter_def)
  then have "reach (\<lambda>s. s = newSingleton) sg_step (sg_init_new 3 ?s1)"
    by (rule reach_step) (rule SgInitNew; simp add: newSingleton_def sg_goto_def)
  then have "reach (\<lambda>s. s = newSingleton) sg_step (sg_init_atexit 3 (sg_init_new 3 ?s1))"
    by (rule reach_step) (rule SgInitAtexit; simp add: newSingleton_def sg_defs)
  then have r: "reach (\<lambda>s. s = newSingleton) sg_step ?s4"
    by (rule reach_step) (rule SgLoad; simp add: newSingleton_def sg_defs)
  moreover have "sg_log ?s4 = [(3, Some 0)]" by (simp add: newSingleton_def sg_defs)
  ultimately show ?thesis using singleton_once [OF r] by auto
qed

end
