(* ===== verification/Socket_Flags.thy ===== *)
theory Socket_Flags
  imports Sockets
begin

unbundle bit_operations_syntax

text \<open>
  The flags and options of sockets: \<open>setNonBlockAndCloseOnExec\<close> with the two ways of making sockets that
  \<open>src/muduo/net/SocketsOps.cc\<close> has, the option setters and the destructor of \<open>src/muduo/net/Socket.cc\<close>,
  and the wrappers that only log.

  \<open>fcntl\<close> and \<open>setsockopt\<close> are arguments that act on a kernel state. The locale \<open>fcntl_kernel\<close> states the
  documented behaviour the code relies on: a get of an open descriptor returns its flags, a set stores
  them and touches no other descriptor, and every command on a closed descriptor fails with \<open>EBADF\<close>.
  \<open>errno\<close> is passed along, since \<open>accept\<close> reads it after other calls.
\<close>

section \<open>The calls\<close>

datatype fcntl_cmd = F_GETFL | F_SETFL | F_GETFD | F_SETFD

type_synonym 'k fcntl = "int \<Rightarrow> fcntl_cmd \<Rightarrow> 32 word \<Rightarrow> 'k \<Rightarrow> (errno + 32 word) \<times> 'k"

definition O_NONBLOCK :: "32 word" where "O_NONBLOCK = 0x800"
definition FD_CLOEXEC :: "32 word" where "FD_CLOEXEC = 1"

text \<open>The value of a call as C sees it, and \<open>errno\<close> after it.\<close>

definition ret :: "errno + 32 word \<Rightarrow> 32 word" where
  "ret r = (case r of Inl e \<Rightarrow> -1 | Inr w \<Rightarrow> w)"

definition set_errno :: "errno + 32 word \<Rightarrow> errno option \<Rightarrow> errno option" where
  "set_errno r err = (case r of Inl e \<Rightarrow> Some e | Inr w \<Rightarrow> err)"

definition setNonBlockAndCloseOnExec :: "'k fcntl \<Rightarrow> int \<Rightarrow> errno option \<Rightarrow> 'k \<Rightarrow> errno option \<times> 'k" where
  "setNonBlockAndCloseOnExec fcntl sockfd err0 k0 =
     (let (flags, k1) = fcntl sockfd F_GETFL 0 k0;
          (r2, k2) = fcntl sockfd F_SETFL (ret flags OR O_NONBLOCK) k1;
          (flags', k3) = fcntl sockfd F_GETFD 0 k2;
          (r4, k4) = fcntl sockfd F_SETFD (ret flags' OR FD_CLOEXEC) k3 in
      (set_errno r4 (set_errno flags' (set_errno r2 (set_errno flags err0))), k4))"

text \<open>
  The build for valgrind, which does not know the newer system calls: a plain \<open>socket\<close> or \<open>accept\<close>, then
  the flags. The outcome of the call is an argument, with the kernel state it leaves.
\<close>

definition createNonblocking_valgrind :: "'k fcntl \<Rightarrow> errno + int \<Rightarrow> 'k \<Rightarrow> (int \<times> 'k) result" where
  "createNonblocking_valgrind fcntl sock k =
     (case sock of
        Inl e \<Rightarrow> Inl (FatalLog ''sockets::createNonblockingOrDie'')
      | Inr sockfd \<Rightarrow> Inr (sockfd, snd (setNonBlockAndCloseOnExec fcntl sockfd None k)))"

definition accept_valgrind :: "'k fcntl \<Rightarrow> errno + int \<Rightarrow> 'k \<Rightarrow> ((errno + int) \<times> 'k) result" where
  "accept_valgrind fcntl r k =
     (let connfd = (case r of Inl e \<Rightarrow> -1 | Inr fd \<Rightarrow> fd);
          err = (case r of Inl e \<Rightarrow> Some e | Inr fd \<Rightarrow> None);
          (err', k') = setNonBlockAndCloseOnExec fcntl connfd err k in
      bindE (sockets_accept (case r of Inr fd \<Rightarrow> Inr fd | Inl e \<Rightarrow> Inl (the err'))) (\<lambda>a. Inr (a, k')))"

section \<open>Options\<close>

datatype sock_option = TCP_NODELAY | SO_REUSEADDR | SO_KEEPALIVE

type_synonym 'k setsockopt = "int \<Rightarrow> sock_option \<Rightarrow> int \<Rightarrow> 'k \<Rightarrow> (errno + unit) \<times> 'k"

text \<open>The result of \<open>setsockopt\<close> is not looked at.\<close>

definition Socket_option :: "sock_option \<Rightarrow> 'k setsockopt \<Rightarrow> int \<Rightarrow> bool \<Rightarrow> 'k \<Rightarrow> 'k" where
  "Socket_option opt setsockopt sockfd on k = snd (setsockopt sockfd opt (if on then 1 else 0) k)"

definition setTcpNoDelay :: "'k setsockopt \<Rightarrow> int \<Rightarrow> bool \<Rightarrow> 'k \<Rightarrow> 'k" where
  "setTcpNoDelay = Socket_option TCP_NODELAY"

definition setReuseAddr :: "'k setsockopt \<Rightarrow> int \<Rightarrow> bool \<Rightarrow> 'k \<Rightarrow> 'k" where
  "setReuseAddr = Socket_option SO_REUSEADDR"

definition setKeepAlive :: "'k setsockopt \<Rightarrow> int \<Rightarrow> bool \<Rightarrow> 'k \<Rightarrow> 'k" where
  "setKeepAlive = Socket_option SO_KEEPALIVE"

text \<open>Wrappers whose failure is only logged; the result is the text of the log.\<close>

definition sockets_close :: "errno + unit \<Rightarrow> string option" where
  "sockets_close r = (case r of Inl e \<Rightarrow> Some ''sockets::close'' | Inr u \<Rightarrow> None)"

definition sockets_shutdownWrite :: "errno + unit \<Rightarrow> string option" where
  "sockets_shutdownWrite r = (case r of Inl e \<Rightarrow> Some ''sockets::shutdownWrite'' | Inr u \<Rightarrow> None)"

section \<open>A kernel that keeps flags\<close>

locale fcntl_kernel =
  fixes fcntl :: "'k fcntl"
    and fl :: "'k \<Rightarrow> int \<rightharpoonup> 32 word"
    and fdfl :: "'k \<Rightarrow> int \<rightharpoonup> 32 word"
  assumes same_open: "dom (fl k) = dom (fdfl k)"
    and getfl: "fl k fd = Some w \<Longrightarrow> fcntl fd F_GETFL 0 k = (Inr w, k)"
    and getfd: "fdfl k fd = Some w \<Longrightarrow> fcntl fd F_GETFD 0 k = (Inr w, k)"
    and setfl: "fl k fd = Some w \<Longrightarrow> fst (fcntl fd F_SETFL x k) = Inr 0 \<and>
      fl (snd (fcntl fd F_SETFL x k)) = (fl k)(fd \<mapsto> x) \<and> fdfl (snd (fcntl fd F_SETFL x k)) = fdfl k"
    and setfd: "fdfl k fd = Some w \<Longrightarrow> fst (fcntl fd F_SETFD x k) = Inr 0 \<and>
      fdfl (snd (fcntl fd F_SETFD x k)) = (fdfl k)(fd \<mapsto> x) \<and> fl (snd (fcntl fd F_SETFD x k)) = fl k"
    and closed: "fl k fd = None \<Longrightarrow> fcntl fd cmd x k = (Inl EBADF, k)"
begin

lemma set_flags_open:
  assumes "fl k fd = Some w" and "fdfl k fd = Some v"
  shows "\<exists>k'. setNonBlockAndCloseOnExec fcntl fd err k = (err, k') \<and>
    fl k' = (fl k)(fd \<mapsto> w OR O_NONBLOCK) \<and> fdfl k' = (fdfl k)(fd \<mapsto> v OR FD_CLOEXEC)"
proof -
  obtain k2 where k2: "fcntl fd F_SETFL (w OR O_NONBLOCK) k = (Inr 0, k2)" "fl k2 = (fl k)(fd \<mapsto> w OR O_NONBLOCK)" "fdfl k2 = fdfl k"
    using setfl [OF assms(1)] prod.collapse by metis
  have v: "fdfl k2 fd = Some v" using k2(3) assms(2) by simp
  obtain k4 where "fcntl fd F_SETFD (v OR FD_CLOEXEC) k2 = (Inr 0, k4)" "fdfl k4 = (fdfl k2)(fd \<mapsto> v OR FD_CLOEXEC)" "fl k4 = fl k2"
    using setfd [OF v] prod.collapse by metis
  then show ?thesis
    using k2 getfl [OF assms(1)] getfd [OF v]
    by (simp add: setNonBlockAndCloseOnExec_def ret_def set_errno_def)
qed

lemma set_flags_closed:
  assumes "fl k fd = None"
  shows "setNonBlockAndCloseOnExec fcntl fd err k = (Some EBADF, k)"
  using closed [OF assms] by (simp add: setNonBlockAndCloseOnExec_def set_errno_def)

lemma accept_valgrind_new:
  assumes "fl k fd = Some w" and "fdfl k fd = Some v"
  shows "\<exists>k'. accept_valgrind fcntl (Inr fd) k = Inr (Inr fd, k') \<and>
    fl k' = (fl k)(fd \<mapsto> w OR O_NONBLOCK) \<and> fdfl k' = (fdfl k)(fd \<mapsto> v OR FD_CLOEXEC)"
  using set_flags_open [OF assms, of None] by (auto simp: accept_valgrind_def sockets_accept_def)

lemma accept_valgrind_fails:
  assumes "fl k (- 1) = None"
  shows "accept_valgrind fcntl (Inl e) k = Inl (FatalLog ''unexpected error of ::accept'')"
  using set_flags_closed [OF assms, of "Some e"] by (simp add: accept_valgrind_def sockets_accept_def)

end

text \<open>A kernel as two maps.\<close>

type_synonym flag_maps = "(int \<rightharpoonup> 32 word \<times> 32 word)"

definition map_fcntl :: "flag_maps fcntl" where
  "map_fcntl fd cmd x k = (case k fd of
     None \<Rightarrow> (Inl EBADF, k)
   | Some (a, b) \<Rightarrow> (case cmd of
       F_GETFL \<Rightarrow> (Inr a, k)
     | F_GETFD \<Rightarrow> (Inr b, k)
     | F_SETFL \<Rightarrow> (Inr 0, k(fd \<mapsto> (x, b)))
     | F_SETFD \<Rightarrow> (Inr 0, k(fd \<mapsto> (a, x)))))"

interpretation mf: fcntl_kernel map_fcntl "\<lambda>k. map_option fst \<circ> k" "\<lambda>k. map_option snd \<circ> k"
  by unfold_locales (auto simp: map_fcntl_def fun_eq_iff dom_def)

section \<open>Properties\<close>

text \<open>
  The fallback for valgrind makes sockets non-blocking and close-on-exec as the normal build does,
  keeps their other flags and touches no other descriptor. But in that build every failed \<open>accept\<close> ends
  the process, also the transient failures that the code means to ignore: the flags are set on the
  descriptor -1 before \<open>errno\<close> is saved, which makes it \<open>EBADF\<close>.
\<close>

theorem valgrind_sockets:
  assumes "fcntl_kernel fcntl fl fdfl" and "fl k (- 1) = None"
  shows "(fl k fd = Some w \<longrightarrow> fdfl k fd = Some v \<longrightarrow>
      (\<exists>k'. accept_valgrind fcntl (Inr fd) k = Inr (Inr fd, k') \<and> createNonblocking_valgrind fcntl (Inr fd) k = Inr (fd, k') \<and>
        fl k' = (fl k)(fd \<mapsto> w OR O_NONBLOCK) \<and> fdfl k' = (fdfl k)(fd \<mapsto> v OR FD_CLOEXEC))) \<and>
    accept_valgrind fcntl (Inl e) k = Inl (FatalLog ''unexpected error of ::accept'') \<and>
    (accept_transient e \<longrightarrow> sockets_accept (Inl e) = Inr (Inl e))"
proof -
  have "\<exists>k'. accept_valgrind fcntl (Inr fd) k = Inr (Inr fd, k') \<and> createNonblocking_valgrind fcntl (Inr fd) k = Inr (fd, k') \<and>
        fl k' = (fl k)(fd \<mapsto> w OR O_NONBLOCK) \<and> fdfl k' = (fdfl k)(fd \<mapsto> v OR FD_CLOEXEC)"
    if "fl k fd = Some w" "fdfl k fd = Some v"
    using fcntl_kernel.set_flags_open [OF assms(1) that, of None]
    by (auto simp: accept_valgrind_def createNonblocking_valgrind_def sockets_accept_def)
  then show ?thesis using fcntl_kernel.accept_valgrind_fails [OF assms] by (simp add: sockets_accept_def)
qed

theorem valgrind_sockets_witness:
  "(\<exists>k'. accept_valgrind map_fcntl (Inr 7) [7 \<mapsto> (2, 0)] = Inr (Inr 7, k') \<and> map_option fst (k' 7) = Some 0x802 \<and>
      map_option snd (k' 7) = Some 1) \<and>
   accept_valgrind map_fcntl (Inl EAGAIN) [7 \<mapsto> (2, 0)] = Inl (FatalLog ''unexpected error of ::accept'')"
proof -
  let ?k = "[7 \<mapsto> (2, 0)] :: flag_maps"
  have k: "(map_option fst \<circ> ?k) (- 1) = None" "(map_option fst \<circ> ?k) 7 = Some 2"
    "(map_option snd \<circ> ?k) 7 = Some 0" by simp_all
  from valgrind_sockets [OF mf.fcntl_kernel_axioms, of ?k 7 2 0 EAGAIN] k obtain k' where
    k': "accept_valgrind map_fcntl (Inr 7) ?k = Inr (Inr 7, k')"
      "map_option fst \<circ> k' = (map_option fst \<circ> ?k)(7 \<mapsto> 2 OR O_NONBLOCK)"
      "map_option snd \<circ> k' = (map_option snd \<circ> ?k)(7 \<mapsto> 0 OR FD_CLOEXEC)"
    and e: "accept_valgrind map_fcntl (Inl EAGAIN) ?k = Inl (FatalLog ''unexpected error of ::accept'')" by blast
  have "map_option fst (k' 7) = Some 0x802" using fun_cong [OF k'(2), of 7] by (simp add: O_NONBLOCK_def)
  moreover have "map_option snd (k' 7) = Some 1" using fun_cong [OF k'(3), of 7] by (simp add: FD_CLOEXEC_def)
  ultimately show ?thesis using k'(1) e by blast
qed

end
