(* ===== verification/Date_Order.thy ===== *)
theory Date_Order
  imports Time_Zone Timer_Queue
begin

text \<open>
  The classes \<open>Date\<close> and \<open>Timestamp\<close> as value types (\<open>src/muduo/base/Date.{h,cc}\<close>, \<open>Timestamp.{h,cc}\<close>): their
  constructors, accessors and comparisons. A date holds its Julian day number, a timestamp its
  microseconds; that comparing these numbers is comparing dates is what is proved here. A \<open>double\<close> of
  seconds is a rational number.
\<close>

section \<open>Date\<close>

record date =
  julianDayNumber :: int

definition Date_invalid :: date where
  "Date_invalid = \<lparr>julianDayNumber = 0\<rparr>"

definition Date_ymd :: "int \<Rightarrow> int \<Rightarrow> int \<Rightarrow> date result" where
  "Date_ymd y m d = bindE (getJulianDayNumber y m d) (\<lambda>j. Inr \<lparr>julianDayNumber = j\<rparr>)"

definition Date_julian :: "int \<Rightarrow> date" where
  "Date_julian n = \<lparr>julianDayNumber = n\<rparr>"

definition Date_tm :: "tm \<Rightarrow> date result" where
  "Date_tm t = bindE (no_overflow [tm_year t + 1900, tm_mon t + 1] ()) (\<lambda>_.
     bindE (getJulianDayNumber (tm_year t + 1900) (tm_mon t + 1) (tm_mday t)) (\<lambda>j. Inr \<lparr>julianDayNumber = j\<rparr>))"

definition Date_swap :: "date \<Rightarrow> date \<Rightarrow> date \<times> date" where
  "Date_swap this that = (this\<lparr>julianDayNumber := julianDayNumber that\<rparr>, that\<lparr>julianDayNumber := julianDayNumber this\<rparr>)"

definition yearMonthDay :: "date \<Rightarrow> year_month_day result" where
  "yearMonthDay x = getYearMonthDay (julianDayNumber x)"

definition Date_year :: "date \<Rightarrow> int result" where
  "Date_year x = bindE (yearMonthDay x) (\<lambda>ymd. Inr (ymd_year ymd))"

definition Date_month :: "date \<Rightarrow> int result" where
  "Date_month x = bindE (yearMonthDay x) (\<lambda>ymd. Inr (ymd_month ymd))"

definition Date_day :: "date \<Rightarrow> int result" where
  "Date_day x = bindE (yearMonthDay x) (\<lambda>ymd. Inr (ymd_day ymd))"

definition Date_less :: "date \<Rightarrow> date \<Rightarrow> bool" where
  "Date_less x y \<longleftrightarrow> julianDayNumber x < julianDayNumber y"

definition Date_eq :: "date \<Rightarrow> date \<Rightarrow> bool" where
  "Date_eq x y \<longleftrightarrow> julianDayNumber x = julianDayNumber y"

section \<open>Timestamp\<close>

definition Timestamp_invalid :: int where
  "Timestamp_invalid = 0"

definition Timestamp_now :: "int \<Rightarrow> int \<Rightarrow> int" where
  "Timestamp_now tv_sec tv_usec = tv_sec * kMicroSecondsPerSecond + tv_usec"

definition secondsSinceEpoch :: "int \<Rightarrow> int" where
  "secondsSinceEpoch us = us sdiv kMicroSecondsPerSecond"

definition Timestamp_less :: "int \<Rightarrow> int \<Rightarrow> bool" where
  "Timestamp_less lhs rhs \<longleftrightarrow> lhs < rhs"

definition Timestamp_eq :: "int \<Rightarrow> int \<Rightarrow> bool" where
  "Timestamp_eq lhs rhs \<longleftrightarrow> lhs = rhs"

definition timeDifference :: "int \<Rightarrow> int \<Rightarrow> rat" where
  "timeDifference high low = of_int (high - low) / of_int kMicroSecondsPerSecond"

section \<open>Days in order\<close>

definition ymd_less :: "int \<times> int \<times> int \<Rightarrow> int \<times> int \<times> int \<Rightarrow> bool" where
  "ymd_less s t = (case (s, t) of ((y, m, d), (y', m', d')) \<Rightarrow> y < y' \<or> y = y' \<and> (m < m' \<or> m = m' \<and> d < d'))"

lemma march_day_mono: "Y \<le> Y' \<Longrightarrow> march_day Y 0 \<le> march_day Y' 0"
proof (induction Y' rule: int_ge_induct)
  case (step Z)
  then show ?case using march_year_length [of Z] march_day_add [of Z "if leap (Z + 1) then 366 else 365"] by (simp split: if_splits)
qed simp

lemma month_start_mono:
  assumes "0 \<le> m" and "m < m'" and "m' \<le> 11"
  shows "month_start m + (if m = 11 then 29 else if m = 1 \<or> m = 3 \<or> m = 6 \<or> m = 8 then 30 else 31) \<le> month_start m'"
proof -
  have "m \<in> {0, 1, 2, 3, 4, 5, 6, 7, 8, 9, 10}" using assms unfolding insert_iff empty_iff by presburger
  moreover have "month_start (m + 1) \<le> month_start m'" unfolding month_start_def using assms(2) by (intro zdiv_mono1) auto
  ultimately show ?thesis by (auto simp: month_start_def)
qed

lemma julian_less:
  assumes "gregorian y m d" "date_range y" "gregorian y' m' d'" "date_range y'"
    and "getJulianDayNumber y m d = Inr j" "getJulianDayNumber y' m' d' = Inr j'" and "ymd_less (y, m, d) (y', m', d')"
  shows "j < j'"
proof -
  note b = march_of_date [OF assms(1,2)] and b' = march_of_date [OF assms(3,4)]
  let ?e = "month_start (march_month m) + d - 1" and ?e' = "month_start (march_month m') + d' - 1"
  have j: "j = march_day (march_year y m) ?e - 32044" "j' = march_day (march_year y' m') ?e' - 32044"
    using getJulianDayNumber_march assms(1-6) by auto
  have e: "0 \<le> ?e" "?e \<le> 365" using march_month_found(2,3) [OF b(3-6)] b(5) by auto
  have e': "0 \<le> ?e'" using march_month_found(2) [OF b'(3-6)] b'(5) by auto
  have r: "1 \<le> m" "m \<le> 12" "1 \<le> m'" "m' \<le> 12" using assms(1,3) by (auto simp: gregorian_def)
  have "march_year y m < march_year y' m' \<or> march_year y m = march_year y' m' \<and>
      (march_month m < march_month m' \<or> march_month m = march_month m' \<and> d < d')"
    using assms(7) r by (auto simp: ymd_less_def march_year_def march_month_def)
  then show ?thesis
  proof (elim disjE conjE)
    assume "march_year y m < march_year y' m'"
    then have "march_day (march_year y m + 1) 0 \<le> march_day (march_year y' m') 0" by (intro march_day_mono) simp
    moreover have "?e < (if leap (march_year y m + 1) then 366 else 365)" using e(2) b(7) by (cases "?e = 365") auto
    ultimately show ?thesis
      unfolding j march_year_length march_day_add [of "march_year y m" ?e] march_day_add [of "march_year y' m'" ?e']
        march_day_add [of "march_year y m" "if _ then _ else _"] using e' by linarith
  next
    assume eq: "march_year y m = march_year y' m'" and lt: "march_month m < march_month m'"
    have "?e < ?e'" using month_start_mono [OF b(3) lt b'(4)] b(6) b'(5) by linarith
    then show ?thesis unfolding j eq march_day_add [of _ ?e] march_day_add [of _ ?e'] by simp
  next
    assume eq: "march_year y m = march_year y' m'" "march_month m = march_month m'" and lt: "d < d'"
    then show ?thesis unfolding j eq march_day_add [of _ "_ + _ - _"] by simp
  qed
qed

lemma ymd_less_linear: "s = t \<or> ymd_less s t \<or> ymd_less t s"
  by (cases s; cases t) (auto simp: ymd_less_def)

text \<open>
  Comparing dates is comparing their Julian day numbers: for dates of the Gregorian calendar in the
  supported years, \<open>operator<\<close> is the order by year, month and day and \<open>operator==\<close> holds only for the same
  date; the accessors give back the year, month and day that a date was made of, from a calendar time too.
\<close>

theorem date_order:
  assumes "gregorian y m d" "date_range y" "gregorian y' m' d'" "date_range y'"
  shows "\<exists>a b. Date_ymd y m d = Inr a \<and> Date_ymd y' m' d' = Inr b \<and>
    (Date_less a b \<longleftrightarrow> ymd_less (y, m, d) (y', m', d')) \<and> (Date_eq a b \<longleftrightarrow> (y, m, d) = (y', m', d')) \<and>
    Date_year a = Inr y \<and> Date_month a = Inr m \<and> Date_day a = Inr d \<and>
    (tm_year t = y - 1900 \<and> tm_mon t = m - 1 \<and> tm_mday t = d \<longrightarrow> Date_tm t = Inr a)"
proof -
  obtain j where j: "getJulianDayNumber y m d = Inr j" "getYearMonthDay j = Inr \<lparr>ymd_year = y, ymd_month = m, ymd_day = d\<rparr>"
    using date_julian_date [OF assms(1,2)] by blast
  obtain j' where j': "getJulianDayNumber y' m' d' = Inr j'" using date_julian_date [OF assms(3,4)] by blast
  have lt: "ymd_less (y, m, d) (y', m', d') \<Longrightarrow> j < j'" "ymd_less (y', m', d') (y, m, d) \<Longrightarrow> j' < j"
    using julian_less assms j(1) j'(1) by blast+
  have same: "(y, m, d) = (y', m', d') \<Longrightarrow> j = j'" using j(1) j'(1) by simp
  have "j < j' \<longleftrightarrow> ymd_less (y, m, d) (y', m', d')" "j = j' \<longleftrightarrow> (y, m, d) = (y', m', d')"
    using ymd_less_linear [of "(y, m, d)" "(y', m', d')"] lt same by fastforce+
  moreover have "list_all int_ok [y, m]" using assms(1,2) by (auto simp: int_ok_def date_range_def gregorian_def)
  ultimately show ?thesis using j j'
    by (simp add: Date_ymd_def Date_less_def Date_eq_def Date_year_def Date_month_def Date_day_def yearMonthDay_def Date_tm_def)
qed

theorem date_order_witness:
  "\<exists>a b. Date_ymd 2023 12 31 = Inr a \<and> Date_ymd 2024 1 1 = Inr b \<and> Date_less a b \<and> \<not> Date_eq a b \<and> Date_month a = Inr 12"
proof -
  have "gregorian 2023 12 31" "date_range 2023" "gregorian 2024 1 1" "date_range 2024"
    by (simp_all add: gregorian_def date_range_def days_in_month_def)
  from date_order [OF this, of "\<lparr>tm_sec = 0, tm_min = 0, tm_hour = 0, tm_mday = 31, tm_mon = 11, tm_year = 123, tm_wday = 0, tm_yday = 364,
    tm_isdst = False, tm_gmtoff = 0, tm_zone = []\<rparr>"] show ?thesis by (auto simp: ymd_less_def)
qed

text \<open>Times: what was added is the difference, up to the part of a microsecond that is cut off.\<close>

lemma addTime_difference:
  "timeDifference (addTime t s) t = of_int (truncate_rat (s * of_int kMicroSecondsPerSecond)) / of_int kMicroSecondsPerSecond"
  by (simp add: timeDifference_def addTime_def)

lemma now_seconds:
  "0 \<le> tv_sec \<Longrightarrow> 0 \<le> tv_usec \<Longrightarrow> tv_usec < kMicroSecondsPerSecond \<Longrightarrow> secondsSinceEpoch (Timestamp_now tv_sec tv_usec) = tv_sec"
  by (simp add: secondsSinceEpoch_def Timestamp_now_def kMicroSecondsPerSecond_def)

end
