(* ===== verification/Spec2Isabelle.thy ===== *)
theory Spec2Isabelle
  imports Net_Buffer Poll_Poller Tcp_Connection Tcp_Lifetime Loop_Timers Loop_Life Tcp_Server Tcp_Client
    Servers Rpc_Async Log_System Pool_Threads String_Piece Mutex Thread_Local Socket_Flags Date_Order
begin

text \<open>
  Verification of the muduo network library (\<open>src/muduo\<close>).

  \<^bold>\<open>The program.\<close> muduo is a C++ library for network servers in the reactor style, one event loop per
  thread. \<open>EventLoop\<close> waits in a \<open>Poller\<close> (epoll or poll) for the \<open>Channel\<close>s registered with it, runs their
  callbacks, then the functors that other threads queued, and owns a \<open>TimerQueue\<close>. \<open>TcpServer\<close> accepts
  connections with an \<open>Acceptor\<close> and deals them out to the loops of an \<open>EventLoopThreadPool\<close>; \<open>TcpClient\<close>
  makes them with a \<open>Connector\<close>; both own \<open>TcpConnection\<close>s, which read into and write from a \<open>Buffer\<close>. On
  top are an HTTP server with an inspector of the process, and an RPC service over Protocol Buffers.
  Below, \<open>src/muduo/base\<close> has the locks, queues and thread classes, dates and time zones, and the logging
  front end, log files and asynchronous back end.

  \<^bold>\<open>How it is modelled.\<close> Classes are records, operations are functions on them that return the new state or
  an error: a failed assertion, a fatal log message, a C++ exception or undefined behaviour (\<open>Prelude\<close>).
  What is not in the repository is an argument: system calls and the clock through their results or
  through functions on a kernel state, user callbacks as functions, serialisation and checksums as
  functions. What the code relies on is stated in locales or named predicates, with a concrete instance
  for each. Code that threads or callbacks interleave is a step relation whose steps are the parts
  between two points where another thread can come in; \<open>step_invariant\<close> in \<open>Prelude\<close> is the locale for
  invariants of reachable states, interpreted once per such component.

  \<^bold>\<open>Theories, in the order of the sources.\<close>
  \<^item> \<open>Prelude\<close>, \<open>Decimal\<close>, \<open>Std_Map\<close>: errors, machine integers, memory, numbers as text, \<open>std::map\<close>.
  \<^item> \<open>Net_Buffer\<close> (\<open>net/Buffer\<close>, \<open>Endian.h\<close>): every operation of the buffer; it is a queue of bytes (locale
    \<open>byte_buffer\<close>), integers survive the wire, growing and compacting never lose a byte.
  \<^item> \<open>Sockets\<close>, \<open>Socket_Flags\<close> (\<open>net/SocketsOps\<close>, \<open>InetAddress\<close>, \<open>Socket\<close>): addresses and their texts, accepting,
    the classes of errors, flags and options (locale \<open>fcntl_kernel\<close>).
  \<^item> \<open>Channel\<close>, \<open>EPoll_Poller\<close>, \<open>Poll_Poller\<close> (\<open>net/Channel\<close>, \<open>net/poller\<close>): interest changes, dispatch, and the two
    back ends under one interface (locale \<open>poller\<close>); index, tables and kernel interest list stay consistent
    (locale \<open>epoll_kernel\<close> for epoll_ctl).
  \<^item> \<open>Tcp_Connection\<close>, \<open>Tcp_Events\<close> (\<open>net/TcpConnection\<close>): the whole connection with arbitrary partial writes
    and user callbacks; the byte stream is intact, half close is neither early nor lost. \<open>Tcp_Lifetime\<close>: who
    refers to the connection object; when it is freed, and how a plain \<open>this\<close> can outlive it.
  \<^item> \<open>Timer_Queue\<close>, \<open>Event_Loop\<close>, \<open>Loop_Timers\<close>, \<open>Loop_Life\<close> (\<open>net/TimerQueue\<close>, \<open>Timer\<close>, \<open>EventLoop\<close>, \<open>EventLoopThread\<close>,
    \<open>EventLoopThreadPool\<close>): timers run exactly when due, functors run in order and no wake-up is lost, timers may be
    added and cancelled from any thread (\<open>cancelInLoop\<close> reads an erased iterator, which is an outcome of its own, see
    below), one loop per thread and no descriptor leaks.
  \<^item> \<open>Connector\<close>, \<open>Tcp_Client\<close>, \<open>Tcp_Server\<close> (\<open>net/Connector\<close>, \<open>TcpClient\<close>, \<open>Acceptor\<close>, \<open>TcpServer\<close>): sockets are
    neither leaked nor closed twice, the table of connections and the queued functors of all loops agree,
    when the destructor of a server returns and when it fails, at most one connection per client.
  \<^item> \<open>Http\<close>, \<open>Http_Service\<close>, \<open>Inspector\<close> (\<open>net/http\<close>, \<open>net/inspect\<close>): the request parser against a reference
    parser \<open>http_spec\<close> that shares no function with it, round trip and segmentation, the server's answers, whole sessions on
    a connection however the bytes arrive, and the inspector: the exact response of its commands and its help page.
  \<^item> \<open>Rpc\<close>, \<open>Rpc_Service\<close>, \<open>Rpc_Async\<close> (\<open>net/protorpc\<close>): frames and the codec loop, matching of answers, calls from
    client to server and back over two connections, and services that answer later and in any order.
  \<^item> \<open>Servers\<close> (\<open>net/http/HttpServer\<close>, \<open>protorpc/RpcServer\<close>, \<open>inspect/Inspector\<close>): the server objects on \<open>TcpServer\<close>,
    their construction and start, and an HTTP server with many clients at once.
  \<^item> \<open>Calendar\<close>, \<open>Time_Zone\<close>, \<open>Date_Order\<close> (\<open>base/Date\<close>, \<open>TimeZone\<close>, \<open>Timestamp\<close>): the Gregorian calendar, UTC and
    local time, zone files, for which local times \<open>fromLocalTime\<close> inverts \<open>toLocalTime\<close>, the order of dates.
  \<^item> \<open>Log_Stream\<close>, \<open>Logging\<close>, \<open>Log_File\<close>, \<open>Async_Logging\<close>, \<open>Log_Pipeline\<close>, \<open>Log_System\<close> (\<open>base/LogStream\<close>,
    \<open>Logging\<close>, \<open>LogFile\<close>, \<open>AsyncLogging\<close>): a log line from its arguments to the files, in every interleaving,
    with writes that fail; in \<open>Log_System\<close> with the macros, the global level and output, and the end of the process after a fatal line.
  \<^item> \<open>Sync\<close>, \<open>Mutex\<close>, \<open>Atomic\<close>, \<open>Thread_Local\<close>, \<open>Exceptions\<close>, \<open>Threads\<close>, \<open>Pool_Threads\<close> (\<open>base/BlockingQueue.h\<close>, \<open>BoundedBlockingQueue.h\<close>,
    \<open>CountDownLatch\<close>, \<open>ThreadPool\<close>, \<open>Mutex.h\<close>, \<open>Condition\<close>, \<open>Atomic.h\<close>, \<open>ThreadLocal.h\<close>, \<open>ThreadLocalSingleton.h\<close>,
    \<open>Singleton.h\<close>, \<open>Exception\<close>, \<open>Thread\<close>): exclusion, queues and wake-ups, atomic integers against wrapping integer arithmetic, objects per
    thread (locale \<open>thread_storage\<close>, for both classes) and per process, exceptions from a task up to the end
    of the process, and that stopping a pool terminates.
  \<^item> \<open>String_Piece\<close>, \<open>File_Util\<close>, \<open>Process_Info\<close> (\<open>base/StringPiece.h\<close>, \<open>FileUtil\<close>, \<open>ProcessInfo\<close>): comparison and views
    over an explicit memory, reading files (locale \<open>file_kernel\<close>), what \<open>/proc\<close> says.
  \<^item> This theory: the poller commands of a connection in its whole life are accepted by the epoll back end.

  \<^bold>\<open>Bounds and termination.\<close> \<open>size_t\<close> wraps at \<open>2^64\<close> and a vector holds at most \<open>2^63 - 1\<close> bytes, beyond which
  the buffer throws; \<open>int\<close> overflow in the calendar is an error, and the supported years are those without
  it. Loops are structural, have a measure, or, where a callback decides (the codec of the RPC channel and
  the parser of HTTP), are partial functions whose not returning is a value: that they return is proved
  where they do, and that they do not return where they do not. There is no fuel. Assertions count as in a
  Debug build.

  \<^bold>\<open>Conditions and outcomes outside the normal ones.\<close>
  \<^item> \<open>TimerQueue::cancelInLoop\<close> reads \<open>it->first\<close> after \<open>erase(it)\<close>. Whether the freed node still has its contents is an
    argument, \<open>intact\<close>; where it has not, the model's result is undefined behaviour, and the timer theorems name that
    outcome.
  \<^item> Connections and servers: a step is a call that returned. \<open>connectDestroyed\<close> in \<open>kDisconnecting\<close> fails an assertion and is
    stated apart, also for \<open>~TcpServer\<close>, which is not a step of a server. The table of connections is exact for the first
    \<open>10^8\<close> connections, after which the cut names collide.
  \<^item> HTTP: sessions on a connection assume that no write fails with \<open>EPIPE\<close> and that responses are not too big; the
    server answers one request for each segment it reads, so that a request behind another in one segment waits for the next
    segment: the theorems count the answers for any cut.
  \<^item> Logging: \<open>fwrite\<close> may take any number of bytes, also none, and the rest of the line is then lost; what is in the files is
    stated in terms of the parts taken. A thread id of six digits fails the assertion \<open>n == 6\<close> when the thread
    caches it (\<open>Thread.cc\<close>), which is an outcome of the log system.
  \<^item> Zone files: \<open>zone_ok\<close> asks for valid indices and for transitions that ascend in both clocks and are not closer together
    than the clock is set back by. A reading of the clock that occurs twice comes back only when daylight saving time ends there
    and the clock is set back by an hour.
  \<^item> A thread pool's handlers print and abort in one step.

  \<^bold>\<open>Not modelled.\<close> Code generated from
  the \<open>.proto\<close> files; floating point, of which timers use rational seconds and \<open>LogStream\<close> takes the printed
  text as an argument; memory exhaustion; the memory model of the processor below locks and atomic
  operations: plain reads of \<open>quit_\<close>, \<open>running_\<close> and \<open>state_\<close> from other threads are taken as atomic. Objects
  are freed explicitly only where a property is about that (timers, connections, thread-local objects).
  Accessors, \<open>swap\<close> members, one-line forwards to system calls and the debug printing of channels have no definition of
  their own. Test and example programs are left out, but for the output function by which they connect \<open>Logger\<close> and
  \<open>AsyncLogging\<close>.
\<close>

section \<open>Connections and the epoll poller\<close>

text \<open>A history of interest changes of one channel is accepted by the epoll back end.\<close>

lemma epoll_replay_sets:
  fixes s :: "'k epoll_state"
  assumes "epoll_kernel ctl interest" and "ep_ok interest s" and "inLoopThread s"
    and "chans s cid = Some c" and "ch_index c = kNew \<Longrightarrow> ep_channels s (ch_fd c) = None"
  shows "\<exists>s' c'. foldE (run_cmd (EPoll_updateChannel ctl) (EPoll_removeChannel ctl))
      (map (\<lambda>op. CmdSet op cid) ops) s = Inr s' \<and> ep_ok interest s' \<and> same_loop s' s \<and>
    chans s' cid = Some c' \<and> ch_fd c' = ch_fd c \<and>
    ch_events c' = foldl (\<lambda>ev op. op_events op ev) (ch_events c) ops \<and>
    (ops \<noteq> [] \<longrightarrow> ch_index c' \<noteq> kNew)"
  using assms(2-5)
proof (induction ops arbitrary: s c)
  case Nil
  then show ?case by (simp add: same_loop_def)
next
  case (Cons op ops)
  from epoll_kernel.set_ok [OF assms(1) Cons.prems, of op] obtain s1 c1 where
    s1: "Channel_set (EPoll_updateChannel ctl) op cid s = Inr s1" "ep_ok interest s1" "same_loop s1 s"
    and c1: "chans s1 cid = Some c1" "ch_fd c1 = ch_fd c" "ch_events c1 = op_events op (ch_events c)"
      "ch_index c1 \<noteq> kNew"
    by (auto simp: next_index_def)
  have "inLoopThread s1" using s1(3) Cons.prems(2) by (simp add: same_loop_def)
  from Cons.IH [OF s1(2) this c1(1)] c1(4) obtain s' c' where
    "foldE (run_cmd (EPoll_updateChannel ctl) (EPoll_removeChannel ctl))
      (map (\<lambda>op. CmdSet op cid) ops) s1 = Inr s'" "ep_ok interest s'" "same_loop s' s1"
    "chans s' cid = Some c'" "ch_fd c' = ch_fd c1"
    "ch_events c' = foldl (\<lambda>ev op. op_events op ev) (ch_events c1) ops"
    "ops \<noteq> [] \<longrightarrow> ch_index c' \<noteq> kNew" by blast
  moreover have "ch_index c' \<noteq> kNew" using calculation c1 by (cases ops) auto
  ultimately show ?case using s1 c1 by (auto simp: same_loop_def)
qed

text \<open>
  C4. The commands a connection gives to the poller during its whole life are ones the epoll back end
  accepts: replayed on a loop whose poller is consistent and has not yet seen the connection's
  channel, none of them trips an assertion or the fatal log, and at the end the kernel does not
  watch the channel once the connection was removed.
\<close>

theorem tcp_lifetime_accepted_by_epoll:
  fixes s :: "'k epoll_state"
  assumes "write_ok kw" and "user_ok user" and "reach conn_init (conn_step kw user) conn"
    and "epoll_kernel ctl interest" and "ep_ok interest s" and "inLoopThread s" and "\<not> loopHandling s"
    and "chans s (t_cid conn) = Some c" and "ch_index c = kNew" and "ch_events c = 0"
    and "ep_channels s (ch_fd c) = None"
  shows "\<exists>s'. foldE (run_cmd (EPoll_updateChannel ctl) (EPoll_removeChannel ctl)) (t_poller conn) s
      = Inr s' \<and> ep_ok interest s' \<and>
    (removed conn \<longrightarrow> interest (ep_kernel s') (ch_fd c) = None)"
proof -
  let ?run = "run_cmd (EPoll_updateChannel ctl) (EPoll_removeChannel ctl)"
  let ?cid = "t_cid conn"
  have ok: "conn_ok conn" by (rule reach_conn_ok [OF assms(1-3)])
  from conn_okD(5) [OF ok] obtain ops where
    ops: "t_poller conn = map (\<lambda>op. CmdSet op ?cid) ops @ (if removed conn then [CmdRemove ?cid] else [])"
      "foldl (\<lambda>ev op. op_events op ev) 0 ops = ch_events (t_channel conn)"
      "ops = [] \<longleftrightarrow> t_state conn = kConnecting" and rm: "removed conn \<longrightarrow> t_state conn = kDisconnected"
    by (auto simp: plog_ok_def)
  obtain s1 c1 where s1: "foldE ?run (map (\<lambda>op. CmdSet op ?cid) ops) s = Inr s1" "ep_ok interest s1"
    "same_loop s1 s" and c1: "chans s1 ?cid = Some c1" "ch_fd c1 = ch_fd c"
    "ch_events c1 = ch_events (t_channel conn)" "ops \<noteq> [] \<longrightarrow> ch_index c1 \<noteq> kNew"
    using epoll_replay_sets [OF assms(4-6,8), of ops] assms(10,11) ops(2) by metis
  show ?thesis
  proof (cases "removed conn")
    case False
    then show ?thesis using s1 ops(1) by (simp add: foldE_append)
  next
    case True
    then have st: "t_state conn = kDisconnected" using rm by simp
    then have "isNoneEvent c1" using conn_okD(6) [OF ok] c1(3) by (simp add: isNoneEvent_def)
    moreover have "ch_index c1 \<noteq> kNew" using c1(4) ops(3) st by simp
    moreover have "inLoopThread s1" "\<not> loopHandling s1" using s1(3) assms(6,7) by (auto simp: same_loop_def)
    ultimately obtain s2 where "Channel_remove (EPoll_removeChannel ctl) ?cid s1 = Inr s2"
      "ep_ok interest s2" "interest (ep_kernel s2) (ch_fd c1) = None"
      using epoll_kernel.remove_ok [OF assms(4) s1(2) _ c1(1)] by fastforce
    then show ?thesis using s1(1) ops(1) True c1(2) by (simp add: foldE_append)
  qed
qed

theorem tcp_lifetime_accepted_by_epoll_witness:
  "\<exists>conn s'. reach conn_init (conn_step demo_write demo_user) conn \<and>
     t_poller conn = [CmdSet EnableReading 1, CmdSet EnableWriting 1] \<and>
     foldE (run_cmd (EPoll_updateChannel map_epoll_ctl) (EPoll_removeChannel map_epoll_ctl))
       (t_poller conn) (demo_epoll [(newChannel 5)\<lparr>ch_index := kAdded, ch_events := 3\<rparr>, newChannel 6]
         [5 \<mapsto> 0] [5 \<mapsto> (3, 0)]) = Inr s'"
proof -
  let ?s = "demo_epoll [(newChannel 5)\<lparr>ch_index := kAdded, ch_events := 3\<rparr>, newChannel 6]
    [5 \<mapsto> 0] [5 \<mapsto> (3, 0)]"
  from demo_established obtain conn where e: "connectEstablished demo_write demo_user (newConn 1 7 True False) = Inr conn"
    and log: "t_poller conn = [CmdSet EnableReading 1, CmdSet EnableWriting 1]" by blast
  have r: "reach conn_init (conn_step demo_write demo_user) conn"
  proof (rule reach_step)
    show "reach conn_init (conn_step demo_write demo_user) (newConn 1 7 True False)"
      by (rule reach_init) (auto simp: conn_init_def)
    show "conn_step demo_write demo_user (newConn 1 7 True False) conn" by (rule established [OF e])
  qed
  have "conn_ok conn" by (rule reach_conn_ok [OF demo_write_ok demo_user_ok r])
  then have "t_cid conn = 1" using log by (auto simp: conn_ok_def plog_ok_def removed_def)
  moreover have "chans ?s 1 = Some (newChannel 6)" "inLoopThread ?s" "\<not> loopHandling ?s"
    "ch_index (newChannel 6) = kNew" "ch_events (newChannel 6) = 0"
    "ep_channels ?s (ch_fd (newChannel 6)) = None"
    by (simp_all add: demo_epoll_def newChannel_def kNew_def)
  ultimately show ?thesis
    using tcp_lifetime_accepted_by_epoll [OF demo_write_ok demo_user_ok r mk.epoll_kernel_axioms
        demo_epoll_ok] r log by fastforce
qed

end
